(* ===== verification/Pebil_Prelude.thy ===== *)
theory Pebil_Prelude
  imports Main "HOL-Library.Word"
begin

text \<open>
  Shared vocabulary of the development: the machine integer types of the C++ sources, the value
  of a failed \<open>ASSERT\<close> and of other ways a run can stop, C byte buffers with
  explicit bounds and initialisation, and generic lemmas on words and lists.
\<close>

unbundle bit_operations_syntax

named_theorems byte_simps \<open>evaluation of C bytes and byte buffers\<close>
named_theorems res_simps \<open>evaluation of the result type\<close>

section \<open>Machine integers\<close>

type_synonym byte = "8 word"
type_synonym u16 = "16 word"
type_synonym u32 = "32 word"
type_synonym u64 = "64 word"

section \<open>Results\<close>

text \<open>
  The macro \<open>ASSERT\<close> of \<open>include/Debug.h\<close> prints a backtrace and calls \<open>assert\<close>;
  \<open>PRINT_ERROR\<close> of \<open>include/Base.h\<close> prints and then runs \<open>ASSERT(0)\<close>. Both stop the
  run. Accesses outside an allocated block and reads of memory that was never written
  are errors of their own, and so are a loop or recursion that does not end and a division by zero.
\<close>

datatype pebil_error =
    AssertFailed
  | PrintError
  | OutOfBounds
  | UninitRead
  | NullDeref
  | Diverges
  | DivByZero

type_synonym 'a res = "pebil_error + 'a"

definition ASSERT :: "bool \<Rightarrow> 'a res \<Rightarrow> 'a res" where
  "ASSERT b k = (if b then k else Inl AssertFailed)"

definition rbind :: "'a res \<Rightarrow> ('a \<Rightarrow> 'b res) \<Rightarrow> 'b res" where
  "rbind r k = (case r of Inl e \<Rightarrow> Inl e | Inr x \<Rightarrow> k x)"

definition is_ok :: "'a res \<Rightarrow> bool" where
  "is_ok r = (case r of Inl _ \<Rightarrow> False | Inr _ \<Rightarrow> True)"

lemma ASSERT_True [simp, res_simps]: "b \<Longrightarrow> ASSERT b k = k"
  by (simp add: ASSERT_def)

lemma ASSERT_False [simp, res_simps]: "\<not> b \<Longrightarrow> ASSERT b k = Inl AssertFailed"
  by (simp add: ASSERT_def)

lemma ASSERT_eq_Inr [simp]: "ASSERT b k = Inr x \<longleftrightarrow> b \<and> k = Inr x"
  by (simp add: ASSERT_def)

lemma rbind_Inr [simp, res_simps]: "rbind (Inr x) k = k x"
  by (simp add: rbind_def)

lemma rbind_Inl [simp, res_simps]: "rbind (Inl e) k = Inl e"
  by (simp add: rbind_def)

lemma rbind_eq_Inr: "rbind r k = Inr y \<longleftrightarrow> (\<exists>x. r = Inr x \<and> k x = Inr y)"
  by (cases r) (simp_all add: rbind_def)

lemma rbind_assoc: "rbind (rbind r f) g = rbind r (\<lambda>x. rbind (f x) g)"
  by (cases r) (simp_all add: rbind_def)

lemma is_ok_simps [simp, res_simps]: "is_ok (Inr x)" "\<not> is_ok (Inl e)"
  by (simp_all add: is_ok_def)

lemma is_ok_iff: "is_ok r \<longleftrightarrow> (\<exists>x. r = Inr x)"
  by (cases r) (simp_all add: is_ok_def)

lemma res_caseE:
  assumes "case r of Inr x \<Rightarrow> P x | Inl _ \<Rightarrow> False"
  obtains x where "r = Inr x" and "P x"
  using assms by (simp split: sum.splits)

text \<open>A loop over a list whose body may fail.\<close>

fun rfold :: "('a \<Rightarrow> 's \<Rightarrow> 's res) \<Rightarrow> 'a list \<Rightarrow> 's \<Rightarrow> 's res" where
  "rfold f [] s = Inr s"
| "rfold f (x # xs) s = rbind (f x s) (rfold f xs)"

lemma rfold_append: "rfold f (xs @ ys) s = rbind (rfold f xs s) (rfold f ys)"
proof (induction xs arbitrary: s)
  case (Cons x xs)
  then have "rfold f (xs @ ys) = (\<lambda>s. rbind (rfold f xs s) (rfold f ys))" by (intro ext)
  then show ?case by (simp add: rbind_assoc)
qed simp

lemma rfold_invariant:
  assumes "P s" and "\<And>x s. x \<in> set xs \<Longrightarrow> P s \<Longrightarrow> \<exists>s'. f x s = Inr s' \<and> P s'"
  shows "\<exists>s'. rfold f xs s = Inr s' \<and> P s'"
  using assms
proof (induction xs arbitrary: s)
  case Nil
  then show ?case by simp
next
  case (Cons x xs)
  then obtain s' where s': "f x s = Inr s'" "P s'" by fastforce
  from Cons.IH [OF s'(2)] Cons.prems(2) obtain t where "rfold f xs s' = Inr t" "P t" by auto
  with s'(1) show ?case by simp
qed

fun rmap :: "('a \<Rightarrow> 'b res) \<Rightarrow> 'a list \<Rightarrow> 'b list res" where
  "rmap f [] = Inr []"
| "rmap f (x # xs) = rbind (f x) (\<lambda>y. rbind (rmap f xs) (\<lambda>ys. Inr (y # ys)))"

lemma rmap_map: "(\<And>x. x \<in> set xs \<Longrightarrow> f x = Inr (g x)) \<Longrightarrow> rmap f xs = Inr (map g xs)"
  by (induction xs) simp_all

lemma rfold_fold:
  assumes "P s" and "\<And>x s. x \<in> set xs \<Longrightarrow> P s \<Longrightarrow> f x s = Inr (g x s) \<and> P (g x s)"
  shows "rfold f xs s = Inr (fold g xs s) \<and> P (fold g xs s)"
  using assms by (induction xs arbitrary: s) simp_all

section \<open>Words\<close>

lemma unat_ucast: "unat (ucast (w :: 'a :: len word) :: 'b :: len word) = unat w mod 2 ^ LENGTH('b)"
  by (simp add: unsigned_ucast_eq take_bit_eq_mod)

lemma byte_lt [simp]: "unat (b :: byte) < 256"
proof -
  have "unat b < 2 ^ LENGTH(8)" by (rule unsigned_less)
  then show ?thesis by simp
qed

lemma u32_lt: "unat (w :: u32) < 4294967296"
proof -
  have "unat w < 2 ^ LENGTH(32)" by (rule unsigned_less)
  then show ?thesis by simp
qed

lemma u64_lt: "unat (w :: u64) < 18446744073709551616"
proof -
  have "unat w < 2 ^ LENGTH(64)" by (rule unsigned_less)
  then show ?thesis by simp
qed

lemma unat_ucast_u32_u64 [simp]: "unat (ucast (w :: u32) :: u64) = unat w"
  using u32_lt [of w] by (simp add: unat_ucast)

lemma unat_ucast_byte_u32 [simp]: "unat (ucast (w :: byte) :: u32) = unat w"
  using byte_lt [of w] by (simp add: unat_ucast del: byte_lt)

lemma unat_ucast_byte_u64 [simp]: "unat (ucast (w :: byte) :: u64) = unat w"
  using byte_lt [of w] by (simp add: unat_ucast del: byte_lt)

lemma unat_drop_bit: "unat (drop_bit n (w :: 'a :: len word)) = unat w div 2 ^ n"
  by (subst unat_drop_bit_eq) (simp add: drop_bit_eq_div)

lemma of_nat_u32: "i < 4294967296 \<Longrightarrow> unat (of_nat i :: u32) = i"
  by (simp add: unat_of_nat)

lemma word_eq_unatI: "unat (v :: 'a :: len word) = unat w \<Longrightarrow> v = w"
  by (rule word_unat_eq_iff [THEN iffD2])

lemma unat_push_bit:
  fixes w :: "'a :: len word"
  assumes "unat w * 2 ^ k < 2 ^ LENGTH('a)"
  shows "unat (push_bit k w) = unat w * 2 ^ k"
  using assms by (simp only: unsigned_push_bit_eq) (simp only: take_bit_eq_mod push_bit_eq_mult mod_less)

section \<open>C conversions to a byte\<close>

text \<open>Storing an \<open>int\<close> in a \<open>char\<close> keeps its low eight bits.\<close>

definition cbyte :: "nat \<Rightarrow> byte" where
  "cbyte n = of_nat n"

lemma unat_cbyte [simp, byte_simps]: "unat (cbyte n) = n mod 256"
  by (simp add: cbyte_def unat_of_nat)

lemma cbyte_unat [simp]: "cbyte (unat b) = b"
  by (simp add: cbyte_def)

text \<open>The bytes \<open>memcpy\<close> copies out of an integer on a little-endian machine.\<close>

definition le_bytes32 :: "u32 \<Rightarrow> byte list" where
  "le_bytes32 w = [ucast w, ucast (drop_bit 8 w), ucast (drop_bit 16 w), ucast (drop_bit 24 w)]"

definition le_bytes64 :: "u64 \<Rightarrow> byte list" where
  "le_bytes64 w = map (\<lambda>i. ucast (drop_bit (8 * i) w)) [0..<8]"

definition le_val :: "byte list \<Rightarrow> nat" where
  "le_val bs = foldr (\<lambda>b v. unat b + 256 * v) bs 0"

lemma length_le_bytes32 [simp, byte_simps]: "length (le_bytes32 w) = 4"
  by (simp add: le_bytes32_def)

lemma length_le_bytes64 [simp, byte_simps]: "length (le_bytes64 w) = 8"
  by (simp add: le_bytes64_def)

lemma le_val_Nil [simp]: "le_val [] = 0"
  by (simp add: le_val_def)

lemma le_val_Cons [simp]: "le_val (b # bs) = unat b + 256 * le_val bs"
  by (simp add: le_val_def)

lemma le_val_bound: "le_val bs < 256 ^ length bs"
proof (induction bs)
  case Nil
  then show ?case by simp
next
  case (Cons b bs)
  have "unat b < 256" by simp
  with Cons show ?case by (simp del: byte_lt)
qed

lemma unat_ucast_byte: "unat (ucast (w :: 'a :: len word) :: byte) = unat w mod 256"
  by (simp add: unat_ucast)

text \<open>Taking a number apart into base-256 digits and putting it together again.\<close>

fun digits256 :: "nat \<Rightarrow> nat \<Rightarrow> nat list" where
  "digits256 0 n = []"
| "digits256 (Suc k) n = n mod 256 # digits256 k (n div 256)"

lemma digits256_4: "digits256 4 n =
    [n mod 256, n div 256 mod 256, n div 65536 mod 256, n div 16777216 mod 256]"
proof -
  have "(4 :: nat) = Suc (Suc (Suc (Suc 0)))" by simp
  then show ?thesis by (simp only: digits256.simps div_mult2_eq [symmetric]) simp
qed

lemma digits256_8: "digits256 8 n = digits256 4 n @ digits256 4 (n div 4294967296)"
proof -
  have "(8 :: nat) = Suc (Suc (Suc (Suc 4)))" by simp
  then show ?thesis by (simp only: digits256.simps digits256_4 div_mult2_eq [symmetric]) simp
qed

lemma map_unat_le_bytes32: "map unat (le_bytes32 w) = digits256 4 (unat w)"
  by (simp add: le_bytes32_def unat_ucast_byte unat_drop_bit digits256_4)

lemma upt_8: "[0..<8] = [0, 1, 2, 3, 4, 5, 6, 7 :: nat]"
  by (simp add: upt_rec)

lemma map_unat_le_bytes64: "map unat (le_bytes64 w) = digits256 8 (unat w)"
  by (simp add: le_bytes64_def upt_8 unat_ucast_byte unat_drop_bit digits256_8 digits256_4
      flip: div_mult2_eq)

lemma le_val_digits: "map unat bs = digits256 k n \<Longrightarrow> n < 256 ^ k \<Longrightarrow> le_val bs = n"
proof (induction k arbitrary: n bs)
  case 0
  then show ?case by simp
next
  case (Suc k)
  then obtain b cs where bs: "bs = b # cs" "unat b = n mod 256" "map unat cs = digits256 k (n div 256)"
    by (cases bs) auto
  moreover have "n div 256 < 256 ^ k"
    using Suc.prems(2) by (simp add: less_mult_imp_div_less mult.commute)
  ultimately have "le_val cs = n div 256" by (blast intro: Suc.IH)
  then show ?case by (simp add: bs)
qed

lemma le_val_le_bytes32 [simp]: "le_val (le_bytes32 w) = unat w"
  by (rule le_val_digits [OF map_unat_le_bytes32]) (use u32_lt [of w] in simp)

lemma le_val_le_bytes64 [simp]: "le_val (le_bytes64 w) = unat w"
  by (rule le_val_digits [OF map_unat_le_bytes64]) (use u64_lt [of w] in simp)

lemma le_bytes32_inject [simp]: "le_bytes32 v = le_bytes32 w \<longleftrightarrow> v = w"
  by (metis le_val_le_bytes32 word_eq_unatI)

section \<open>C buffers\<close>

text \<open>
  A buffer from \<open>new char[n]\<close> holds \<open>n\<close> bytes that are not written yet. A store past
  its end, and a read of a byte that no store has written, are errors.
\<close>

type_synonym cbuf = "byte option list res"

definition new_buff :: "nat \<Rightarrow> cbuf" where
  "new_buff n = Inr (replicate n None)"

definition wr :: "cbuf \<Rightarrow> nat \<Rightarrow> nat \<Rightarrow> cbuf" where
  "wr b i v = rbind b (\<lambda>xs. if i < length xs then Inr (xs[i := Some (cbyte v)]) else Inl OutOfBounds)"

definition wr_add :: "cbuf \<Rightarrow> nat \<Rightarrow> nat \<Rightarrow> cbuf" where
  "wr_add b i v = rbind b (\<lambda>xs. if i < length xs then
     (case xs ! i of None \<Rightarrow> Inl UninitRead | Some c \<Rightarrow> Inr (xs[i := Some (cbyte (unat c + v))]))
     else Inl OutOfBounds)"

definition wr_or :: "cbuf \<Rightarrow> nat \<Rightarrow> nat \<Rightarrow> cbuf" where
  "wr_or b i v = rbind b (\<lambda>xs. if i < length xs then
     (case xs ! i of None \<Rightarrow> Inl UninitRead | Some c \<Rightarrow> Inr (xs[i := Some (c OR cbyte v)]))
     else Inl OutOfBounds)"

definition memcpy :: "cbuf \<Rightarrow> nat \<Rightarrow> byte list \<Rightarrow> cbuf" where
  "memcpy b i bs = rbind b (\<lambda>xs. if i + length bs \<le> length xs
     then Inr (take i xs @ map Some bs @ drop (i + length bs) xs) else Inl OutOfBounds)"

fun all_written :: "byte option list \<Rightarrow> byte list res" where
  "all_written [] = Inr []"
| "all_written (None # xs) = Inl UninitRead"
| "all_written (Some b # xs) = rbind (all_written xs) (\<lambda>bs. Inr (b # bs))"

lemma all_written_map_Some [simp, byte_simps]: "all_written (map Some bs) = Inr bs"
  by (induction bs) simp_all

lemma all_written_append: "all_written (map Some bs @ xs) = rbind (all_written xs) (\<lambda>cs. Inr (bs @ cs))"
  by (induction bs) (simp_all add: rbind_assoc rbind_def split: sum.splits)

lemma new_buff_simp [byte_simps]: "new_buff (numeral n) = Inr (replicate (numeral n) None)"
  by (simp add: new_buff_def)

lemma wr_Inr [byte_simps]: "i < length xs \<Longrightarrow> wr (Inr xs) i v = Inr (xs[i := Some (cbyte v)])"
  by (simp add: wr_def)

lemma wr_add_Inr [byte_simps]:
  "i < length xs \<Longrightarrow> xs ! i = Some c \<Longrightarrow> wr_add (Inr xs) i v = Inr (xs[i := Some (cbyte (unat c + v))])"
  by (simp add: wr_add_def)

lemma wr_or_Inr [byte_simps]:
  "i < length xs \<Longrightarrow> xs ! i = Some c \<Longrightarrow> wr_or (Inr xs) i v = Inr (xs[i := Some (c OR cbyte v)])"
  by (simp add: wr_or_def)

lemma memcpy_Inr [byte_simps]:
  "i + length bs \<le> length xs \<Longrightarrow>
   memcpy (Inr xs) i bs = Inr (take i xs @ map Some bs @ drop (i + length bs) xs)"
  by (simp add: memcpy_def)

end
