(* ===== verification/Base_Align.thy ===== *)
theory Base_Align
  imports Pebil_Prelude
begin

text \<open>
  Alignment arithmetic of \<open>src/Base.C\<close>: \<open>isPowerOfTwo\<close>, \<open>logBase2\<close>, the mask tables and
  \<open>nextAlignAddress\<close> with its three fixed-width variants. The words keep their C widths, so
  the mask tables (32 bit) meet the 64-bit addresses as the code has it.
\<close>

section \<open>Powers of two and logarithms\<close>

fun isPowerOfTwo_loop :: "nat \<Rightarrow> u32 \<Rightarrow> u32 \<Rightarrow> bool" where
  "isPowerOfTwo_loop 0 currVal n = False"
| "isPowerOfTwo_loop (Suc k) currVal n =
     (if n = currVal then True else isPowerOfTwo_loop k (currVal * 2) n)"

definition isPowerOfTwo :: "u32 \<Rightarrow> bool" where
  "isPowerOfTwo n = isPowerOfTwo_loop 32 1 n"

function logBase2_loop :: "u32 \<Rightarrow> u32 \<Rightarrow> u32" where
  "logBase2_loop n l = (if n \<noteq> 0 then logBase2_loop (drop_bit 1 n) (l + 1) else l)"
  by pat_completeness auto
termination
proof (relation "measure (\<lambda>(n, l). unat n)")
  fix n l :: u32
  assume "n \<noteq> 0"
  then have "0 < unat n" by (simp add: unat_gt_0)
  then show "((drop_bit 1 n, l + 1), (n, l)) \<in> measure (\<lambda>(n, l). unat n)"
    by (simp add: unat_drop_bit)
qed simp

declare logBase2_loop.simps [simp del]

definition logBase2 :: "u32 \<Rightarrow> u32 res" where
  "logBase2 n = ASSERT (n \<noteq> 0) (Inr (logBase2_loop (drop_bit 1 n) 0))"

section \<open>Alignment\<close>

definition align_mask_or :: "u32 list" where
  "align_mask_or = [
    0x00000001, 0x00000002, 0x00000004, 0x00000008,
    0x00000010, 0x00000020, 0x00000040, 0x00000080,
    0x00000100, 0x00000200, 0x00000400, 0x00000800,
    0x00001000, 0x00002000, 0x00004000, 0x00008000,
    0x00010000, 0x00020000, 0x00040000, 0x00080000,
    0x00100000, 0x00200000, 0x00400000, 0x00800000,
    0x01000000, 0x02000000, 0x04000000, 0x08000000,
    0x10000000, 0x20000000, 0x40000000, 0x80000000]"

definition align_mask_and :: "u32 list" where
  "align_mask_and = [
    0xffffffff, 0xfffffffe, 0xfffffffc, 0xfffffff8,
    0xfffffff0, 0xffffffe0, 0xffffffc0, 0xffffff80,
    0xffffff00, 0xfffffe00, 0xfffffc00, 0xfffff800,
    0xfffff000, 0xffffe000, 0xffffc000, 0xffff8000,
    0xffff0000, 0xfffe0000, 0xfffc0000, 0xfff80000,
    0xfff00000, 0xffe00000, 0xffc00000, 0xff800000,
    0xff000000, 0xfe000000, 0xfc000000, 0xf8000000,
    0xf0000000, 0xe0000000, 0xc0000000, 0x80000000]"

text \<open>The loop \<open>while (tmp > 0) { pow++; tmp = tmp >> 1; }\<close>; \<open>pow\<close> is a signed 32-bit counter.\<close>

function alignPow_loop :: "u32 \<Rightarrow> int \<Rightarrow> int" where
  "alignPow_loop tmp pow = (if 0 < tmp then alignPow_loop (drop_bit 1 tmp) (pow + 1) else pow)"
  by pat_completeness auto
termination
proof (relation "measure (\<lambda>(n, l). unat n)")
  fix n :: u32 and l :: int
  assume "0 < n"
  then have "0 < unat n" by (simp add: unat_gt_0 word_greater_zero_iff)
  then show "((drop_bit 1 n, l + 1), (n, l)) \<in> measure (\<lambda>(n, l). unat n)"
    by (simp add: unat_drop_bit)
qed simp

declare alignPow_loop.simps [simp del]

definition nextAlignAddress :: "u64 \<Rightarrow> u32 \<Rightarrow> u64 res" where
  "nextAlignAddress addr align =
     (if align = 0 \<or> align = 1 \<or> addr = 0 then Inr addr
      else if ucast align > addr then Inr (ucast align)
      else ASSERT (isPowerOfTwo align)
        (let pow = nat (alignPow_loop align (-1));
             aligned = addr AND ucast (align_mask_and ! pow);
             aligned = (if aligned < addr then aligned + ucast (align_mask_or ! pow) else aligned)
         in Inr aligned))"

definition nextAlignAddressHalfWord :: "u64 \<Rightarrow> u64" where
  "nextAlignAddressHalfWord addr =
     (let addr = addr + (if addr mod 2 \<noteq> 0 then 2 else 0); addr = drop_bit 1 addr
      in push_bit 1 addr)"

definition nextAlignAddressWord :: "u64 \<Rightarrow> u64" where
  "nextAlignAddressWord addr =
     (let addr = addr + (if addr mod 4 \<noteq> 0 then 4 else 0); addr = drop_bit 2 addr
      in push_bit 2 addr)"

definition nextAlignAddressDouble :: "u64 \<Rightarrow> u64" where
  "nextAlignAddressDouble addr =
     (let addr = addr + (if addr mod 8 \<noteq> 0 then 8 else 0); addr = drop_bit 3 addr
      in push_bit 3 addr)"

section \<open>Powers of two: correctness\<close>

lemma isPowerOfTwo_loop_iff:
  "isPowerOfTwo_loop k c n \<longleftrightarrow> (\<exists>i < k. n = c * 2 ^ i)"
proof (induction k arbitrary: c)
  case 0
  then show ?case by simp
next
  case (Suc k)
  have "(\<exists>i < Suc k. n = c * 2 ^ i) \<longleftrightarrow> n = c \<or> (\<exists>i < k. n = c * 2 ^ Suc i)"
    unfolding Ex_less_Suc2 by simp
  then show ?case by (simp add: Suc mult.assoc)
qed

lemma unat_two_power:
  assumes "i < LENGTH('a)"
  shows "unat ((2 :: 'a :: len word) ^ i) = 2 ^ i"
proof -
  have "(2 :: nat) ^ i < 2 ^ LENGTH('a)" using assms by simp
  then have "unat (of_nat (2 ^ i) :: 'a word) = 2 ^ i" by (simp only: unat_of_nat mod_less)
  then show ?thesis by simp
qed

lemma isPowerOfTwo_iff: "isPowerOfTwo n \<longleftrightarrow> (\<exists>i < 32. unat n = 2 ^ i)"
proof -
  have "isPowerOfTwo n \<longleftrightarrow> (\<exists>i < 32. n = 2 ^ i)"
    by (simp add: isPowerOfTwo_def isPowerOfTwo_loop_iff)
  also have "\<dots> \<longleftrightarrow> (\<exists>i < 32. unat n = 2 ^ i)"
    by (rule ex_cong1) (auto simp: unat_two_power intro!: word_eq_unatI)
  finally show ?thesis .
qed

text \<open>The number of binary digits, the reference for the two shifting loops.\<close>

fun bit_length :: "nat \<Rightarrow> nat" where
  "bit_length n = (if n = 0 then 0 else Suc (bit_length (n div 2)))"

declare bit_length.simps [simp del]

lemma bit_length_0 [simp]: "bit_length 0 = 0"
  by (simp add: bit_length.simps)

lemma bit_length_pos: "0 < n \<Longrightarrow> bit_length n = Suc (bit_length (n div 2))"
  by (subst bit_length.simps) simp

lemma bit_length_bounds: "0 < n \<Longrightarrow> 2 ^ (bit_length n - 1) \<le> n \<and> n < 2 ^ bit_length n"
proof (induction n rule: bit_length.induct)
  case (1 n)
  show ?case
  proof (cases "n div 2 = 0")
    case True
    with 1 have "n = 1" by auto
    then show ?thesis by (simp add: bit_length_pos)
  next
    case False
    then have IH: "2 ^ (bit_length (n div 2) - 1) \<le> n div 2 \<and> n div 2 < 2 ^ bit_length (n div 2)"
      using 1 by simp
    have "bit_length (n div 2) = Suc (bit_length (n div 2) - 1)"
      using False by (simp add: bit_length_pos)
    then obtain k where "bit_length (n div 2) = Suc k" by blast
    with IH show ?thesis using \<open>0 < n\<close> by (simp add: bit_length_pos [of n]) arith
  qed
qed

lemma bit_length_power [simp]: "bit_length (2 ^ i) = Suc i"
  by (induction i) (simp_all add: bit_length_pos)

lemma unat_shift_eq_0: "unat (drop_bit (Suc 0) (n :: u32)) = unat n div 2"
  by (simp add: unat_drop_bit)

lemma logBase2_loop_eq: "logBase2_loop n l = l + of_nat (bit_length (unat n))"
proof (induction n l rule: logBase2_loop.induct)
  case (1 n l)
  show ?case
  proof (cases "n = 0")
    case True
    then show ?thesis by (simp add: logBase2_loop.simps)
  next
    case False
    then have "0 < unat n" by (simp add: unat_gt_0)
    with False 1 show ?thesis
      by (simp add: logBase2_loop.simps [of n] bit_length_pos [of "unat n"] unat_shift_eq_0)
  qed
qed

lemma alignPow_loop_eq: "alignPow_loop n p = p + int (bit_length (unat n))"
proof (induction n p rule: alignPow_loop.induct)
  case (1 n p)
  show ?case
  proof (cases "n = 0")
    case True
    then show ?thesis by (simp add: alignPow_loop.simps)
  next
    case False
    then have "0 < unat n" "0 < n" by (simp_all add: unat_gt_0 word_greater_zero_iff)
    with 1 show ?thesis
      by (simp add: alignPow_loop.simps [of n] bit_length_pos [of "unat n"] unat_shift_eq_0)
  qed
qed

lemma bit_length_u32: "bit_length (unat (n :: u32)) \<le> 32"
proof (cases "unat n = 0")
  case False
  then have "(2 :: nat) ^ (bit_length (unat n) - 1) < 2 ^ 32"
    using bit_length_bounds [of "unat n"] u32_lt [of n] by simp
  then have "bit_length (unat n) - 1 < 32" by (rule power_less_imp_less_exp [rotated]) simp
  then show ?thesis by simp
qed simp

section \<open>The mask tables\<close>

lemma align_mask_or_map: "align_mask_or = map (\<lambda>i. push_bit i 1) [0..<32]"
  by code_simp

lemma align_mask_and_map: "align_mask_and = map (\<lambda>i. push_bit i (- 1)) [0..<32]"
  by code_simp

lemma align_mask_or_nth: "i < 32 \<Longrightarrow> align_mask_or ! i = 2 ^ i"
  by (simp add: align_mask_or_map push_bit_eq_mult)

lemma align_mask_and_nth: "i < 32 \<Longrightarrow> align_mask_and ! i = push_bit i (- 1)"
  by (simp add: align_mask_and_map)

lemma len64: "LENGTH(64) = 64"
  by simp

lemma and_align_mask:
  fixes addr :: u64
  assumes "i < 32"
  shows "unat (addr AND ucast (align_mask_and ! i)) = unat addr mod 2 ^ 32 div 2 ^ i * 2 ^ i"
proof -
  have "addr AND ucast (align_mask_and ! i) = push_bit i (drop_bit i (take_bit 32 addr))"
    unfolding align_mask_and_nth [OF assms]
    by (rule bit_word_eqI) (auto simp: bit_simps)
  moreover have "unat (push_bit i (drop_bit i (take_bit 32 addr)))
      = unat addr mod 2 ^ 32 div 2 ^ i * 2 ^ i mod 2 ^ 64"
    by (simp only: unsigned_push_bit_eq unsigned_take_bit_eq unat_drop_bit [of i "take_bit 32 addr"])
      (simp only: take_bit_eq_mod push_bit_eq_mult len64)
  moreover have "unat addr mod 2 ^ 32 div 2 ^ i * 2 ^ i < 2 ^ 64"
    by (rule le_less_trans [OF div_times_less_eq_dividend]) simp
  ultimately show ?thesis by simp
qed

text \<open>What rounding up to a multiple means, and that it is the least one.\<close>

definition round_up :: "nat \<Rightarrow> nat \<Rightarrow> nat" where
  "round_up a d = (let q = a div d * d in if q < a then q + d else q)"

lemma round_up_least:
  assumes "0 < d"
  shows "d dvd round_up a d" and "a \<le> round_up a d" and "d dvd m \<Longrightarrow> a \<le> m \<Longrightarrow> round_up a d \<le> m"
proof -
  have le: "a div d * d \<le> a" and lt: "a < a div d * d + d"
    using assms dividend_less_div_times [of d a] by (simp_all add: mult.commute add.commute)
  show "d dvd round_up a d" by (auto simp: round_up_def Let_def)
  show "a \<le> round_up a d" using lt by (auto simp: round_up_def Let_def)
  show "round_up a d \<le> m" if "d dvd m" "a \<le> m"
  proof -
    obtain k where m: "m = k * d" using \<open>d dvd m\<close> by (auto simp: dvd_def mult.commute)
    have "a div d \<le> k" using \<open>a \<le> m\<close> assms m by (metis div_le_mono div_mult_self_is_m)
    moreover have "a div d < k" if "a div d * d < a"
    proof (rule ccontr)
      assume "\<not> a div d < k"
      then have "k * d \<le> a div d * d" by simp
      with that \<open>a \<le> m\<close> m show False by simp
    qed
    ultimately show ?thesis using m mult_le_mono1 [of "Suc (a div d)" k d]
      by (auto simp: round_up_def Let_def)
  qed
qed

lemma round_up_1 [simp]: "round_up a (Suc 0) = a"
  by (simp add: round_up_def)

lemma round_up_small: "0 < a \<Longrightarrow> a < d \<Longrightarrow> round_up a d = d"
  by (simp add: round_up_def)

lemma nextAlignAddress_unat:
  assumes "2 \<le> unat align" "isPowerOfTwo align" "unat align \<le> unat addr"
  shows "\<exists>r. nextAlignAddress addr align = Inr r \<and>
    unat r = (let d = unat align; q = unat addr mod 2 ^ 32 div d * d in if q < unat addr then q + d else q)"
proof -
  obtain i where i: "i < 32" "unat align = 2 ^ i"
    using assms(2) by (auto simp: isPowerOfTwo_iff)
  have p: "nat (alignPow_loop align (-1)) = i" by (simp add: alignPow_loop_eq i)
  let ?q = "addr AND ucast (align_mask_and ! i)"
  have q: "unat ?q = unat addr mod 2 ^ 32 div 2 ^ i * 2 ^ i" using i by (simp add: and_align_mask)
  have m: "unat (ucast (align_mask_or ! i) :: u64) = 2 ^ i"
    using i by (simp add: align_mask_or_nth unat_two_power)
  have "unat ?q \<le> unat addr mod 2 ^ 32" unfolding q by (rule div_times_less_eq_dividend)
  moreover have "unat addr mod 2 ^ 32 < 2 ^ 32" by simp
  moreover have "(2 :: nat) ^ i < 2 ^ 32" using i by (intro power_strict_increasing) simp_all
  ultimately have "unat ?q + 2 ^ i < 2 ^ 64" by simp
  then have s: "unat (?q + ucast (align_mask_or ! i)) = unat ?q + 2 ^ i"
    using m by (simp add: unat_word_ariths)
  have "align \<noteq> 0" "align \<noteq> 1" "addr \<noteq> 0" "\<not> ucast align > addr"
    using assms by (auto simp: word_less_nat_alt)
  with assms(2) p have "nextAlignAddress addr align = Inr (if ?q < addr then ?q + ucast (align_mask_or ! i) else ?q)"
    by (simp add: nextAlignAddress_def Let_def)
  with s q i show ?thesis by (simp add: word_less_nat_alt Let_def)
qed

lemma dvd_round_le:
  fixes a d n :: nat
  assumes "d dvd n" and "a < n"
  shows "a div d * d + d \<le> n"
proof -
  obtain k where n: "n = k * d" using assms(1) by (auto simp: dvd_def mult.commute)
  then have "a div d < k" using assms(2) by (simp add: less_mult_imp_div_less)
  then have "Suc (a div d) * d \<le> k * d" by (intro mult_le_mono1) simp
  then show ?thesis by (simp add: n)
qed

lemma nextAlignAddress_round_up:
  assumes "isPowerOfTwo align" and "addr \<noteq> 0" and "unat addr < 2 ^ 32"
  shows "\<exists>r. nextAlignAddress addr align = Inr r \<and> unat r = round_up (unat addr) (unat align)"
proof -
  have pos: "0 < unat align" "0 < unat addr"
    using assms by (auto simp: isPowerOfTwo_iff unat_gt_0)
  consider "unat align = 1" | "unat align > unat addr" "unat align \<noteq> 1"
    | "2 \<le> unat align" "unat align \<le> unat addr"
    using pos by linarith
  then show ?thesis
  proof cases
    case 1
    then have "align = 1" by (metis unat_1 word_eq_unatI)
    then show ?thesis by (simp add: nextAlignAddress_def)
  next
    case 2
    then have "align \<noteq> 1" "align \<noteq> 0" "ucast align > addr" by (auto simp: word_less_nat_alt)
    then show ?thesis using assms 2 pos by (simp add: nextAlignAddress_def round_up_small)
  next
    case 3
    have "unat addr mod 4294967296 = unat addr" using assms by simp
    then show ?thesis
      using nextAlignAddress_unat [OF 3(1) assms(1) 3(2)] by (simp add: round_up_def Let_def)
  qed
qed

text \<open>
  C21. For a nonzero address below \<open>2^32\<close> and an alignment that is a power of two,
  \<open>nextAlignAddress\<close> returns the least multiple of the alignment that is not below the
  address.
\<close>

theorem nextAlignAddress_least:
  assumes "isPowerOfTwo align" and "addr \<noteq> 0" and "unat addr < 2 ^ 32"
  shows "\<exists>r. nextAlignAddress addr align = Inr r \<and> unat align dvd unat r \<and> addr \<le> r \<and>
    (\<forall>m. unat align dvd m \<and> unat addr \<le> m \<longrightarrow> unat r \<le> m)"
proof -
  have "0 < unat align" using assms(1) by (auto simp: isPowerOfTwo_iff)
  note least = round_up_least [where a = "unat addr", OF this]
  obtain r where "nextAlignAddress addr align = Inr r" "unat r = round_up (unat addr) (unat align)"
    using nextAlignAddress_round_up [OF assms] by blast
  then show ?thesis using least by (auto simp: word_le_nat_alt)
qed

theorem nextAlignAddress_least_witness:
  "isPowerOfTwo 16 \<and> (\<exists>r. nextAlignAddress 0x1001 16 = Inr r \<and> unat (16 :: u32) dvd unat r \<and> 0x1001 \<le> r \<and>
    (\<forall>m. unat (16 :: u32) dvd m \<and> unat (0x1001 :: u64) \<le> m \<longrightarrow> unat r \<le> m))"
proof -
  have "isPowerOfTwo 16" by code_simp
  then show ?thesis using nextAlignAddress_least [of 16 "0x1001"] by simp
qed

text \<open>
  From \<open>2^32\<close> on, the 32-bit mask table clears the upper half of the address: the
  result for a power-of-two alignment of at least 2 is at most \<open>2^32\<close>, whatever the address
  is, so it lies below every address above \<open>2^32\<close>.
\<close>

theorem nextAlignAddress_high_addresses:
  assumes "isPowerOfTwo align" and "2 \<le> unat align" and "2 ^ 32 \<le> unat addr"
  shows "\<exists>r. nextAlignAddress addr align = Inr r \<and> unat r \<le> 2 ^ 32"
proof -
  obtain i where i: "i < 32" "unat align = 2 ^ i"
    using assms(1) by (auto simp: isPowerOfTwo_iff)
  let ?a = "unat addr mod 2 ^ 32"
  have "unat align \<le> unat addr" using assms(3) u32_lt [of align] by simp
  note r = nextAlignAddress_unat [OF assms(2,1) this]
  have "2 ^ i dvd (2 :: nat) ^ 32" using i by (intro le_imp_power_dvd) simp
  then have "?a div 2 ^ i * 2 ^ i + 2 ^ i \<le> 2 ^ 32"
    by (rule dvd_round_le) simp
  with r i show ?thesis by (auto simp: Let_def split: if_splits)
qed

theorem nextAlignAddress_high_addresses_witness:
  "isPowerOfTwo 16 \<and> 2 ^ 32 \<le> unat (0x100000011 :: u64) \<and>
   (\<exists>r. nextAlignAddress 0x100000011 16 = Inr r \<and> unat r \<le> 2 ^ 32)"
proof -
  have "isPowerOfTwo 16" by code_simp
  then show ?thesis using nextAlignAddress_high_addresses [of 16 "0x100000011"] by simp
qed

section \<open>The fixed-width variants and the logarithm\<close>

text \<open>Adding the width when a remainder is left, then clearing the low bits by two shifts.\<close>

lemma align_shift_round_up:
  fixes addr :: u64
  assumes "unat addr + 2 ^ k \<le> 2 ^ 64" and "k < 64"
  shows "unat (push_bit k (drop_bit k (addr + (if unat addr mod 2 ^ k \<noteq> 0 then 2 ^ k else 0))))
    = round_up (unat addr) (2 ^ k)"
proof -
  let ?d = "(2 :: nat) ^ k" and ?a = "unat addr"
  let ?s = "addr + (if ?a mod ?d \<noteq> 0 then 2 ^ k else 0)"
  have le: "?a div ?d * ?d \<le> ?a" by (rule div_times_less_eq_dividend)
  have iff: "?a div ?d * ?d < ?a \<longleftrightarrow> ?a mod ?d \<noteq> 0"
    by (metis div_mult_mod_eq le less_add_same_cancel1 not_gr_zero order_less_le add_cancel_right_right)
  have p: "unat ((2 :: u64) ^ k) = ?d" using assms(2) by (simp add: unat_two_power)
  have dvd: "?d dvd 2 ^ 64" using assms(2) by (intro le_imp_power_dvd) simp
  have u: "unat (push_bit k (drop_bit k w)) = unat w div ?d * ?d" for w :: u64
  proof -
    have "unat w div ?d * ?d < 2 ^ 64"
      by (rule le_less_trans [OF div_times_less_eq_dividend]) (use u64_lt [of w] in simp)
    then show ?thesis
      by (simp only: unsigned_push_bit_eq unat_drop_bit [of k w])
        (simp only: take_bit_eq_mod push_bit_eq_mult len64 mod_less)
  qed
  show ?thesis
  proof (cases "?a mod ?d = 0")
    case True
    then show ?thesis using iff by (simp add: u round_up_def Let_def del: push_bit_eq_mult)
  next
    case False
    show ?thesis
    proof (cases "?a + ?d = 2 ^ 64")
      case True
      then have "?d dvd ?a" using dvd by (metis dvd_add_left_iff dvd_refl)
      with False show ?thesis by (simp add: dvd_eq_mod_eq_0)
    next
      case neq: False
      then have "unat ?s = ?a + ?d" using assms(1) False p by (simp add: unat_word_ariths)
      then have "unat (push_bit k (drop_bit k ?s)) = (?a + ?d) div ?d * ?d" by (simp only: u)
      moreover have "(?a + ?d) div ?d = Suc (?a div ?d)" by (simp add: div_add_self2)
      ultimately show ?thesis using False iff by (simp add: round_up_def Let_def)
    qed
  qed
qed

lemma u64_mod_numeral:
  "(addr :: u64) mod 2 = 0 \<longleftrightarrow> unat addr mod 2 = 0"
  "(addr :: u64) mod 4 = 0 \<longleftrightarrow> unat addr mod 4 = 0"
  "(addr :: u64) mod 8 = 0 \<longleftrightarrow> unat addr mod 8 = 0"
  by (simp_all add: word_unat_eq_iff unat_mod_distrib)

lemma u64_powers: "(2 :: u64) ^ 1 = 2" "(2 :: u64) ^ 2 = 4" "(2 :: u64) ^ 3 = 8"
  "(2 :: nat) ^ 1 = 2" "(2 :: nat) ^ 2 = 4" "(2 :: nat) ^ 3 = 8"
  by (simp_all add: eval_nat_numeral)

lemmas align_shift_round_up_fixed = align_shift_round_up [of _ 1, unfolded u64_powers]
  align_shift_round_up [of _ 2, unfolded u64_powers] align_shift_round_up [of _ 3, unfolded u64_powers]

lemma nextAlignAddress_fixed_round_up:
  "unat addr + 2 \<le> 2 ^ 64 \<Longrightarrow> unat (nextAlignAddressHalfWord addr) = round_up (unat addr) 2"
  "unat addr + 4 \<le> 2 ^ 64 \<Longrightarrow> unat (nextAlignAddressWord addr) = round_up (unat addr) 4"
  "unat addr + 8 \<le> 2 ^ 64 \<Longrightarrow> unat (nextAlignAddressDouble addr) = round_up (unat addr) 8"
  unfolding nextAlignAddressHalfWord_def nextAlignAddressWord_def nextAlignAddressDouble_def
    u64_mod_numeral Let_def
  by (rule align_shift_round_up_fixed; simp)+

text \<open>
  The three shift-and-add variants compute what \<open>nextAlignAddress\<close> computes for the
  alignments 2, 4 and 8 (the calls that the code keeps as comments), for every nonzero
  address below \<open>2^32\<close>.
\<close>

theorem nextAlignAddress_variants:
  assumes "addr \<noteq> 0" and "unat addr < 2 ^ 32"
  shows "nextAlignAddress addr 2 = Inr (nextAlignAddressHalfWord addr) \<and>
    nextAlignAddress addr 4 = Inr (nextAlignAddressWord addr) \<and>
    nextAlignAddress addr 8 = Inr (nextAlignAddressDouble addr)"
proof -
  have "isPowerOfTwo 2" "isPowerOfTwo 4" "isPowerOfTwo 8" by code_simp+
  moreover have "unat addr + 8 \<le> 2 ^ 64" "unat addr + 4 \<le> 2 ^ 64" "unat addr + 2 \<le> 2 ^ 64"
    using assms(2) by simp_all
  ultimately show ?thesis
    using nextAlignAddress_round_up [of 2, OF _ assms] nextAlignAddress_round_up [of 4, OF _ assms]
      nextAlignAddress_round_up [of 8, OF _ assms] nextAlignAddress_fixed_round_up [of addr]
    by (auto intro!: word_eq_unatI)
qed

theorem nextAlignAddress_variants_witness:
  "(0x1003 :: u64) \<noteq> 0 \<and> nextAlignAddress 0x1003 2 = Inr (nextAlignAddressHalfWord 0x1003) \<and>
    nextAlignAddress 0x1003 4 = Inr (nextAlignAddressWord 0x1003) \<and>
    nextAlignAddress 0x1003 8 = Inr (nextAlignAddressDouble 0x1003)"
  using nextAlignAddress_variants [of "0x1003"] by simp

text \<open>
  \<open>logBase2\<close> returns the binary logarithm, rounded down, of every nonzero argument, and
  its assertion fails for zero.
\<close>

theorem logBase2_floor_log:
  "(case logBase2 n of
      Inl e \<Rightarrow> n = 0 \<and> e = AssertFailed
    | Inr l \<Rightarrow> n \<noteq> 0 \<and> 2 ^ unat l \<le> unat n \<and> unat n < 2 ^ (unat l + 1))"
proof (cases "n = 0")
  case True
  then show ?thesis by (simp add: logBase2_def)
next
  case False
  then have pos: "0 < unat n" by (simp add: unat_gt_0)
  have "bit_length (unat n div 2) \<le> 32" using bit_length_u32 [of "drop_bit 1 n"] by (simp add: unat_drop_bit)
  then have "unat (logBase2_loop (drop_bit 1 n) 0) = bit_length (unat n) - 1"
    by (simp add: logBase2_loop_eq unat_of_nat unat_shift_eq_0 bit_length_pos [OF pos])
  moreover have "Suc (bit_length (unat n) - 1) = bit_length (unat n)"
    using pos by (simp add: bit_length_pos)
  ultimately show ?thesis using False bit_length_bounds [OF pos] by (simp add: logBase2_def)
qed

end
