(* ===== verification/Base_Codes.thy ===== *)
theory Base_Codes
  imports Pebil_Prelude
begin

text \<open>
  The 64-bit unique identifiers of \<open>include/Base.h\<close> and \<open>src/Base.C\<close> (class \<open>HashCode\<close>, a
  union of four bit fields and their bits) and the comparison functions that \<open>qsort\<close>,
  \<open>bsearch\<close> and \<open>Vector::insertSorted\<close> are given.
\<close>

section \<open>HashCode\<close>

text \<open>
  The struct side of the union. The ABI lays the bit fields out from the low end, so
  \<open>hc_value\<close> is the \<open>bits\<close> member and \<open>HashCode_bits\<close> the constructor from a value.
\<close>

record HashCodeEntry =
  hc_instruction :: u16
  hc_block :: u16
  hc_function :: u16
  hc_section :: byte
  hc_res :: byte

definition hc_value :: "HashCodeEntry \<Rightarrow> u64" where
  "hc_value e = ucast (hc_instruction e) OR push_bit 16 (ucast (hc_block e))
     OR push_bit 32 (ucast (hc_function e)) OR push_bit 48 (ucast (hc_section e))
     OR push_bit 56 (ucast (hc_res e))"

definition HashCode_bits :: "u64 \<Rightarrow> HashCodeEntry" where
  "HashCode_bits a = \<lparr> hc_instruction = ucast a, hc_block = ucast (drop_bit 16 a),
     hc_function = ucast (drop_bit 32 a), hc_section = ucast (drop_bit 48 a),
     hc_res = ucast (drop_bit 56 a) \<rparr>"

definition HashCode0 :: HashCodeEntry where
  "HashCode0 = HashCode_bits 0"

definition validSection :: "u32 \<Rightarrow> bool" where
  "validSection s \<longleftrightarrow> s < 256"

definition validFunction :: "u32 \<Rightarrow> bool" where
  "validFunction f \<longleftrightarrow> f < 65535"

definition validBlock :: "u32 \<Rightarrow> bool" where
  "validBlock b \<longleftrightarrow> b < 65535"

definition validInstruction :: "u32 \<Rightarrow> bool" where
  "validInstruction i \<longleftrightarrow> i < 65535"

definition HashCode1 :: "u32 \<Rightarrow> HashCodeEntry" where
  "HashCode1 s = (if validSection s
     then HashCode0 \<lparr> hc_section := ucast (s + 1), hc_function := 0, hc_block := 0, hc_instruction := 0 \<rparr>
     else HashCode0)"

definition HashCode2 :: "u32 \<Rightarrow> u32 \<Rightarrow> HashCodeEntry" where
  "HashCode2 s f = (if validSection s \<and> validFunction f
     then HashCode0 \<lparr> hc_section := ucast (s + 1), hc_function := ucast (f + 1),
            hc_block := 0, hc_instruction := 0 \<rparr>
     else HashCode0)"

definition HashCode3 :: "u32 \<Rightarrow> u32 \<Rightarrow> u32 \<Rightarrow> HashCodeEntry" where
  "HashCode3 s f b = (if validSection s \<and> validFunction f \<and> validBlock b
     then HashCode0 \<lparr> hc_section := ucast (s + 1), hc_function := ucast (f + 1),
            hc_block := ucast (b + 1), hc_instruction := 0 \<rparr>
     else HashCode0)"

definition HashCode4 :: "u32 \<Rightarrow> u32 \<Rightarrow> u32 \<Rightarrow> u32 \<Rightarrow> HashCodeEntry" where
  "HashCode4 s f b m = (if validSection s \<and> validFunction f \<and> validBlock b \<and> validInstruction m
     then HashCode0 \<lparr> hc_section := ucast (s + 1), hc_function := ucast (f + 1),
            hc_block := ucast (b + 1), hc_instruction := ucast (m + 1) \<rparr>
     else HashCode0)"

definition isSection :: "HashCodeEntry \<Rightarrow> bool" where
  "isSection e \<longleftrightarrow> hc_section e \<noteq> 0 \<and> hc_function e = 0 \<and> hc_block e = 0 \<and> hc_instruction e = 0"

definition isFunction :: "HashCodeEntry \<Rightarrow> bool" where
  "isFunction e \<longleftrightarrow> hc_section e \<noteq> 0 \<and> hc_function e \<noteq> 0 \<and> hc_block e = 0 \<and> hc_instruction e = 0"

definition isBlock :: "HashCodeEntry \<Rightarrow> bool" where
  "isBlock e \<longleftrightarrow> hc_section e \<noteq> 0 \<and> hc_function e \<noteq> 0 \<and> hc_block e \<noteq> 0 \<and> hc_instruction e = 0"

definition isInstruction :: "HashCodeEntry \<Rightarrow> bool" where
  "isInstruction e \<longleftrightarrow> hc_section e \<noteq> 0 \<and> hc_function e \<noteq> 0 \<and> hc_block e \<noteq> 0 \<and> hc_instruction e \<noteq> 0"

definition hc_isValid :: "HashCodeEntry \<Rightarrow> bool" where
  "hc_isValid e \<longleftrightarrow> isSection e \<or> isFunction e \<or> isBlock e \<or> isInstruction e"

definition getSection :: "HashCodeEntry \<Rightarrow> u32" where
  "getSection e = (if hc_section e \<noteq> 0 then ucast (hc_section e) - 1 else 0)"

definition getFunction :: "HashCodeEntry \<Rightarrow> u32" where
  "getFunction e = (if hc_function e \<noteq> 0 then ucast (hc_function e) - 1 else 0)"

definition getBlock :: "HashCodeEntry \<Rightarrow> u32" where
  "getBlock e = (if hc_block e \<noteq> 0 then ucast (hc_block e) - 1 else 0)"

definition getInstruction :: "HashCodeEntry \<Rightarrow> u32" where
  "getInstruction e = (if hc_instruction e \<noteq> 0 then ucast (hc_instruction e) - 1 else 0)"

section \<open>Comparison functions\<close>

definition compareHashCode :: "HashCodeEntry \<Rightarrow> HashCodeEntry \<Rightarrow> int" where
  "compareHashCode h1 h2 = (let vl1 = hc_value h1; vl2 = hc_value h2 in
     if vl1 < vl2 then -1 else if vl1 > vl2 then 1 else 0)"

definition searchHashCode :: "u64 \<Rightarrow> HashCodeEntry \<Rightarrow> int" where
  "searchHashCode key h = (let val = hc_value h in if key < val then -1 else if key > val then 1 else 0)"

text \<open>The difference of the two 64-bit addresses is returned as an \<open>int\<close>: its low 32 bits.\<close>

definition compareBaseAddress :: "u64 \<Rightarrow> u64 \<Rightarrow> int" where
  "compareBaseAddress vl1 vl2 = sint (ucast (vl1 - vl2) :: u32)"

definition searchBaseAddressExact :: "u64 \<Rightarrow> u64 \<Rightarrow> int" where
  "searchBaseAddressExact key val = (if key < val then -1 else if key > val then 1 else 0)"

definition searchBaseAddress :: "u64 \<Rightarrow> u64 \<Rightarrow> u32 \<Rightarrow> int" where
  "searchBaseAddress key val_low sz = (let val_high = val_low + ucast sz in
     if key < val_low then -1 else if key \<ge> val_high then 1 else 0)"

section \<open>HashCode: correctness\<close>

lemmas hc_defs = HashCode0_def HashCode_bits_def HashCode1_def HashCode2_def HashCode3_def
  HashCode4_def validSection_def validFunction_def validBlock_def validInstruction_def
  isSection_def isFunction_def isBlock_def isInstruction_def hc_isValid_def
  getSection_def getFunction_def getBlock_def getInstruction_def

lemma succ_field:
  fixes s :: u32
  assumes "unat s < 2 ^ LENGTH('a) - 1" and "LENGTH('a) < 32"
  shows "unat (ucast (s + 1) :: 'a :: len word) = unat s + 1"
proof -
  have "(2 :: nat) ^ LENGTH('a) \<le> 2 ^ 31" using assms(2) by (intro power_increasing) simp_all
  then have "unat (s + 1) = unat s + 1" using assms(1) by (simp add: unat_word_ariths)
  then show ?thesis using assms(1) by (simp add: unat_ucast)
qed

lemma succ_field_back:
  fixes s :: u32
  assumes "unat s < 2 ^ LENGTH('a) - 1" and "LENGTH('a) < 32"
  shows "(ucast (s + 1) :: 'a :: len word) \<noteq> 0" and "ucast (ucast (s + 1) :: 'a word) - 1 = s"
proof -
  note u = succ_field [OF assms]
  show "(ucast (s + 1) :: 'a word) \<noteq> 0" using u by (metis One_nat_def Suc_eq_plus1 nat.simps(3) unat_0)
  have "(2 :: nat) ^ LENGTH('a) \<le> 2 ^ 31" using assms(2) by (intro power_increasing) simp_all
  then have "unat (ucast (ucast (s + 1) :: 'a word) :: u32) = unat s + 1"
    using u assms by (simp add: unat_ucast)
  moreover have "unat (s + 1) = unat s + 1"
    using assms \<open>(2 :: nat) ^ LENGTH('a) \<le> 2 ^ 31\<close> by (simp add: unat_word_ariths)
  ultimately have "ucast (ucast (s + 1) :: 'a word) = s + 1" by (intro word_eq_unatI) simp
  then show "ucast (ucast (s + 1) :: 'a word) - 1 = s" by simp
qed

lemmas succ_u16 = succ_field_back [where ?'a = 16, simplified]
lemmas succ_u8 = succ_field_back [where ?'a = 8, simplified]

lemma HashCode4_fields:
  assumes "s < 255" and "f < 65535" and "b < 65535" and "m < 65535"
  shows "let h = HashCode4 s f b m in
    getSection h = s \<and> getFunction h = f \<and> getBlock h = b \<and> getInstruction h = m \<and>
    isInstruction h \<and> \<not> isSection h \<and> \<not> isFunction h \<and> \<not> isBlock h"
proof -
  have n: "unat s < 255" "unat f < 65535" "unat b < 65535" "unat m < 65535" "unat s < 256"
    using assms by (auto simp: word_less_nat_alt)
  note u = succ_u8 [OF n(1)] succ_u16 [OF n(2)] succ_u16 [OF n(3)] succ_u16 [OF n(4)]
  show ?thesis using assms n u by (simp add: hc_defs Let_def word_less_nat_alt)
qed

text \<open>
  An instruction identifier built from a section index below 255 and function, block and
  instruction indices below 65535 gives the four indices back, and is recognised as an
  instruction identifier and as no other kind.
\<close>

theorem HashCode_fields_roundtrip:
  assumes "s < 255" and "f < 65535" and "b < 65535" and "m < 65535"
  shows "let h = HashCode4 s f b m in
    getSection h = s \<and> getFunction h = f \<and> getBlock h = b \<and> getInstruction h = m \<and>
    isInstruction h \<and> \<not> isSection h \<and> \<not> isFunction h \<and> \<not> isBlock h"
  using assms by (rule HashCode4_fields)

theorem HashCode_fields_roundtrip_witness:
  "let h = HashCode4 3 14 7 1 in
    getSection h = 3 \<and> getFunction h = 14 \<and> getBlock h = 7 \<and> getInstruction h = 1 \<and>
    isInstruction h \<and> \<not> isSection h \<and> \<not> isFunction h \<and> \<not> isBlock h"
  using HashCode_fields_roundtrip [of 3 14 7 1] by simp

text \<open>
  Section index 255 passes \<open>validSection\<close>, but its successor does not fit the 8-bit field:
  the identifier of that section is the invalid one, and so is that of each of its functions.
\<close>

theorem HashCode_section_255_invalid:
  "validSection 255 \<and> HashCode1 255 = HashCode0 \<and> \<not> hc_isValid (HashCode1 255) \<and>
   \<not> hc_isValid (HashCode2 255 f)"
  by (simp add: hc_defs)

section \<open>The order of identifiers\<close>

lemma or_push_bit_add:
  fixes a b :: u64
  assumes "unat a < 2 ^ k" and "unat b < 2 ^ (64 - k)" and "k < 64"
  shows "unat (a OR push_bit k b) = unat a + 2 ^ k * unat b"
proof -
  have bit: "\<not> bit a n" if "k \<le> n" for n
  proof
    assume "bit a n"
    then have "bit (unat a) n" by (simp add: bit_unsigned_iff)
    then have "odd (unat a div 2 ^ n)" by (simp add: bit_iff_odd)
    moreover have "unat a < 2 ^ n"
      using assms(1) that by (meson less_le_trans one_le_numeral power_increasing)
    ultimately show False by simp
  qed
  have "a OR push_bit k b = a + push_bit k b"
    by (rule disjunctive_add [symmetric]) (use bit in \<open>auto simp: bit_simps not_le\<close>)
  moreover have "unat (push_bit k b) = 2 ^ k * unat b"
  proof -
    have "unat b * 2 ^ k < 2 ^ (64 - k) * 2 ^ k" using assms(2) by simp
    also have "\<dots> = 2 ^ 64" using assms(3) by (simp flip: power_add)
    finally have "unat b * 2 ^ k < 2 ^ 64" .
    then have "unat (push_bit k b) = unat b * 2 ^ k" by (intro unat_push_bit) simp
    then show ?thesis by (simp only: mult.commute)
  qed
  moreover have "unat a + 2 ^ k * unat b < 2 ^ 64"
  proof -
    have "unat a + 2 ^ k * unat b < 2 ^ k * (unat b + 1)" using assms(1) by simp
    also have "\<dots> \<le> 2 ^ k * 2 ^ (64 - k)" using assms(2) by (intro mult_le_mono2) simp
    also have "\<dots> = 2 ^ 64" using assms(3) by (simp flip: power_add)
    finally show ?thesis .
  qed
  ultimately show ?thesis by (simp add: unat_word_ariths)
qed

lemma u16_lt: "unat (w :: u16) < 65536"
proof -
  have "unat w < 2 ^ LENGTH(16)" by (rule unsigned_less)
  then show ?thesis by simp
qed

lemma field_bounds: "unat (w :: u16) < 2 ^ 16" "unat (b :: byte) < 2 ^ 8" "unat (b :: byte) < 2 ^ 16"
  using u16_lt [of w] byte_lt [of b] by (simp_all del: byte_lt)

lemma unat_ucast_u16_u64 [simp]: "unat (ucast (w :: u16) :: u64) = unat w"
  using u16_lt [of w] by (simp add: unat_ucast)

lemma unat_hc_value: "unat (hc_value e) = unat (hc_instruction e) + 2 ^ 16 * (unat (hc_block e)
    + 2 ^ 16 * (unat (hc_function e) + 2 ^ 16 * (unat (hc_section e) + 2 ^ 8 * unat (hc_res e))))"
proof -
  note b = u16_lt [of "hc_instruction e"] u16_lt [of "hc_block e"] u16_lt [of "hc_function e"]
    field_bounds(2,3) [of "hc_section e"] field_bounds(2) [of "hc_res e"]
  let ?v1 = "ucast (hc_instruction e) :: u64"
  let ?v2 = "?v1 OR push_bit 16 (ucast (hc_block e))"
  let ?v3 = "?v2 OR push_bit 32 (ucast (hc_function e))"
  let ?v4 = "?v3 OR push_bit 48 (ucast (hc_section e))"
  have 2: "unat ?v2 = unat (hc_instruction e) + 2 ^ 16 * unat (hc_block e)"
    using b by (subst or_push_bit_add) (simp_all del: byte_lt)
  have 3: "unat ?v3 = unat (hc_instruction e) + 2 ^ 16 * unat (hc_block e) + 2 ^ 32 * unat (hc_function e)"
    using b 2 by (subst or_push_bit_add) (simp_all del: byte_lt)
  have 4: "unat ?v4 = unat (hc_instruction e) + 2 ^ 16 * unat (hc_block e) + 2 ^ 32 * unat (hc_function e)
      + 2 ^ 48 * unat (hc_section e)"
    using b 3 by (subst or_push_bit_add) (simp_all del: byte_lt)
  have 5: "unat (?v4 OR push_bit 56 (ucast (hc_res e))) = unat (hc_instruction e) + 2 ^ 16 * unat (hc_block e)
      + 2 ^ 32 * unat (hc_function e) + 2 ^ 48 * unat (hc_section e) + 2 ^ 56 * unat (hc_res e)"
    using b 4 by (subst or_push_bit_add) (simp_all del: byte_lt)
  have "hc_value e = ?v4 OR push_bit 56 (ucast (hc_res e))"
    by (simp only: hc_value_def or.assoc)
  then show ?thesis by (simp add: 5)
qed

lemma field_inj:
  fixes a a' q q' :: nat
  assumes "a < d" "a' < d" and "a + d * q = a' + d * q'"
  shows "a = a' \<and> q = q'"
proof -
  have "(a + d * q) mod d = (a' + d * q') mod d" "(a + d * q) div d = (a' + d * q') div d"
    by (simp_all only: assms(3))
  then show ?thesis using assms(1,2) by simp
qed

lemma hc_value_inject: "hc_value e = hc_value e' \<longleftrightarrow> e = e'"
proof
  assume "hc_value e = hc_value e'"
  then have "unat (hc_value e) = unat (hc_value e')" by simp
  note v = this [unfolded unat_hc_value]
  note i = field_inj [OF field_bounds(1) field_bounds(1) v]
  note b = field_inj [OF field_bounds(1) field_bounds(1) i [THEN conjunct2]]
  note f = field_inj [OF field_bounds(1) field_bounds(1) b [THEN conjunct2]]
  note s = field_inj [OF field_bounds(2) field_bounds(2) f [THEN conjunct2]]
  from i b f s show "e = e'"
    by (intro HashCodeEntry.equality) (simp_all add: word_unat_eq_iff)
qed simp

lemma lex_step:
  fixes a a' q q' :: nat
  assumes "a < d" "a' < d"
  shows "a + d * q < a' + d * q' \<longleftrightarrow> q < q' \<or> q = q' \<and> a < a'"
proof (cases q q' rule: linorder_cases)
  case less
  then have "d * Suc q \<le> d * q'" by (intro mult_le_mono2) simp
  with less assms show ?thesis by simp
next
  case greater
  then have "d * Suc q' \<le> d * q" by (intro mult_le_mono2) simp
  with greater assms show ?thesis by simp
qed simp

text \<open>
  \<open>compareHashCode\<close> orders the instruction identifiers of a program by section, then
  function, then block, then instruction index, and returns 0 for equal index quadruples only.
\<close>

theorem compareHashCode_lexicographic:
  assumes "s < 255" "f < 65535" "b < 65535" "m < 65535"
    and "s' < 255" "f' < 65535" "b' < 65535" "m' < 65535"
  shows "(compareHashCode (HashCode4 s f b m) (HashCode4 s' f' b' m') = -1 \<longleftrightarrow>
      s < s' \<or> s = s' \<and> (f < f' \<or> f = f' \<and> (b < b' \<or> b = b' \<and> m < m'))) \<and>
    (compareHashCode (HashCode4 s f b m) (HashCode4 s' f' b' m') = 0 \<longleftrightarrow>
      s = s' \<and> f = f' \<and> b = b' \<and> m = m')"
proof -
  let ?h = "HashCode4 s f b m" and ?h' = "HashCode4 s' f' b' m'"
  have n: "unat s < 255" "unat f < 65535" "unat b < 65535" "unat m < 65535"
    "unat s' < 255" "unat f' < 65535" "unat b' < 65535" "unat m' < 65535"
    using assms by (auto simp: word_less_nat_alt)
  have val: "unat (hc_value (HashCode4 s f b m)) = unat m + 1 + 2 ^ 16 * (unat b + 1 +
      2 ^ 16 * (unat f + 1 + 2 ^ 16 * (unat s + 1)))"
    if "unat s < 255" "unat f < 65535" "unat b < 65535" "unat m < 65535" for s f b m :: u32
    using that succ_field [of s, where ?'a = 8] succ_field [of f, where ?'a = 16]
      succ_field [of b, where ?'a = 16] succ_field [of m, where ?'a = 16]
    by (simp add: unat_hc_value hc_defs word_less_nat_alt)
  have lt: "hc_value ?h < hc_value ?h' \<longleftrightarrow> s < s' \<or> s = s' \<and> (f < f' \<or> f = f' \<and> (b < b' \<or> b = b' \<and> m < m'))"
    using n unfolding word_less_nat_alt val [OF n(1-4)] val [OF n(5-8)]
    by (subst lex_step; simp?)+ (auto simp: word_unat_eq_iff)
  have eq: "hc_value ?h = hc_value ?h' \<longleftrightarrow> s = s' \<and> f = f' \<and> b = b' \<and> m = m'"
    using HashCode4_fields [OF assms(1-4)] HashCode4_fields [OF assms(5-8)]
    by (auto simp: hc_value_inject Let_def)
  show ?thesis using lt eq by (auto simp: compareHashCode_def Let_def)
qed

theorem compareHashCode_lexicographic_witness:
  "compareHashCode (HashCode4 3 14 7 1) (HashCode4 3 15 0 0) = -1"
  using compareHashCode_lexicographic [of 3 14 7 1 3 15 0 0] by simp

section \<open>Address comparisons\<close>

lemma sint_u32_of_int:
  assumes "- (2 ^ 31) \<le> i" and "i < 2 ^ 31"
  shows "sint (word_of_int i :: u32) = i"
  using assms by (simp add: sint_sbintrunc' signed_take_bit_int_eq_self)

lemma ucast_diff_u64: "(ucast (a - b :: u64) :: u32) = ucast a - ucast b"
proof -
  have "take_bit 32 (x - y) = take_bit 32 (take_bit 64 x - take_bit 64 y)" for x y :: int
    by (subst (1 2) take_bit_diff [symmetric]) simp
  then show ?thesis by transfer simp
qed

lemma compareBaseAddress_diff:
  assumes "\<bar>uint a - uint b\<bar> < 2 ^ 31"
  shows "compareBaseAddress a b = uint a - uint b"
proof -
  have "ucast (a - b) = (word_of_int (uint a - uint b) :: u32)"
    by (simp only: ucast_diff_u64) (simp only: ucast_eq of_int_diff)
  then show ?thesis
    using assms sint_u32_of_int [of "uint a - uint b"] by (simp add: compareBaseAddress_def abs_less_iff)
qed

text \<open>
  \<open>compareBaseAddress\<close> has the sign \<open>qsort\<close> needs (negative, zero or positive as the first
  address is below, at or above the second) for addresses less than \<open>2 ^ 31\<close> apart.
\<close>

theorem compareBaseAddress_sign:
  fixes a b :: u64
  assumes "\<bar>uint a - uint b\<bar> < 2 ^ 31"
  shows "(compareBaseAddress a b < 0 \<longleftrightarrow> a < b) \<and> (compareBaseAddress a b = 0 \<longleftrightarrow> a = b)"
  using compareBaseAddress_diff [OF assms] by (auto simp: word_less_def word_uint_eq_iff)

theorem compareBaseAddress_sign_witness:
  "compareBaseAddress 0x400000 0x4000f0 < 0 \<and> compareBaseAddress 0x4000f0 0x4000f0 = 0"
  using compareBaseAddress_sign [of "0x400000" "0x4000f0"] compareBaseAddress_sign [of "0x4000f0" "0x4000f0"]
  by simp

text \<open>
  The range comparison handed to \<open>bsearch\<close> returns 0 exactly for the addresses of the block
  \<open>[low, low + size)\<close>, -1 below it and 1 above it, when the block does not wrap around.
\<close>

theorem searchBaseAddress_range:
  fixes key low :: u64 and sz :: u32
  assumes "uint low + uint sz < 2 ^ 64"
  shows "searchBaseAddress key low sz =
    (if uint key < uint low then -1 else if uint key < uint low + uint sz then 0 else 1)"
proof -
  have "uint (ucast sz :: u64) = uint sz" by (simp only: uint_nat unat_ucast_u32_u64)
  then have "uint (low + ucast sz) = uint low + uint sz"
    using assms uint_ge_0 [of low] uint_ge_0 [of sz] by (simp add: uint_word_ariths mod_pos_pos_trivial)
  then show ?thesis by (simp only: searchBaseAddress_def Let_def word_less_def word_le_def) simp
qed

theorem searchBaseAddress_range_witness: "searchBaseAddress 0x40001f 0x400000 0x20 = 0"
  using searchBaseAddress_range [of "0x400000" "0x20" "0x40001f"] by simp

end
