(* ===== verification/X86_Decode.thy ===== *)
theory X86_Decode
  imports Pebil_Prelude
begin

text \<open>
  The abstract specification of the instruction emitters: the subset of the x86 and x86-64
  instruction set they aim at, and a decoder from bytes to instructions written from the
  processor manuals (legacy prefixes, REX, ModRM, SIB, displacements, immediates). It is the
  contract the emitters are proved against, not a model of code of the repository. Two lemmas at
  the end say how ModRM and SIB bytes are taken apart again.
\<close>

section \<open>Instructions\<close>

text \<open>An address is a base, an index with its scale and a displacement, or relative to the
  end of the instruction. Registers are numbers below 16.\<close>

datatype address =
    Addr "nat option" "(nat \<times> nat) option" int
  | RipRel int

text \<open>A memory operand carries its access size, its address size and a segment override.\<close>

datatype operand =
    Gpr nat nat
  | Seg nat
  | Xmm nat
  | Mem nat nat "nat option" address
  | Imm int
  | Rel int

datatype mnemonic =
    M_add | M_or | M_adc | M_sbb | M_and | M_sub | M_xor | M_cmp
  | M_mov | M_lea | M_xadd | M_xchg | M_imul | M_shl | M_shr | M_inc | M_dec
  | M_push | M_pop | M_pushf | M_popf | M_lahf | M_sahf
  | M_call | M_jmp | M_jcc nat | M_jrcxz | M_ret | M_int3 | M_into | M_int
  | M_cld | M_std | M_stosb | M_stos | M_movs
  | M_nop | M_fxsave | M_fxrstor | M_movsd

text \<open>An instruction: lock prefix, repeat prefix, mnemonic and operands, destination first.\<close>

datatype insn = Insn bool bool mnemonic "operand list"

section \<open>Prefixes\<close>

record prefixes =
  p_lock :: bool
  p_rep :: bool
  p_repne :: bool
  p_opsz :: bool
  p_adsz :: bool
  p_seg :: "nat option"
  p_rex :: nat

definition no_prefixes :: prefixes where
  "no_prefixes = \<lparr> p_lock = False, p_rep = False, p_repne = False, p_opsz = False,
     p_adsz = False, p_seg = None, p_rex = 0 \<rparr>"

fun legacy_prefixes :: "prefixes \<Rightarrow> byte list \<Rightarrow> prefixes \<times> byte list" where
  "legacy_prefixes p [] = (p, [])"
| "legacy_prefixes p (b # bs) = (let v = unat b in
     if v = 0xf0 then legacy_prefixes (p \<lparr> p_lock := True \<rparr>) bs
     else if v = 0xf3 then legacy_prefixes (p \<lparr> p_rep := True \<rparr>) bs
     else if v = 0xf2 then legacy_prefixes (p \<lparr> p_repne := True \<rparr>) bs
     else if v = 0x66 then legacy_prefixes (p \<lparr> p_opsz := True \<rparr>) bs
     else if v = 0x67 then legacy_prefixes (p \<lparr> p_adsz := True \<rparr>) bs
     else if v = 0x64 then legacy_prefixes (p \<lparr> p_seg := Some 4 \<rparr>) bs
     else if v = 0x65 then legacy_prefixes (p \<lparr> p_seg := Some 5 \<rparr>) bs
     else (p, b # bs))"

definition rex_prefix :: "bool \<Rightarrow> prefixes \<Rightarrow> byte list \<Rightarrow> prefixes \<times> byte list" where
  "rex_prefix m64 p bs = (case bs of [] \<Rightarrow> (p, [])
     | b # bs' \<Rightarrow> if m64 \<and> unat b div 16 = 4 then (p \<lparr> p_rex := unat b mod 16 \<rparr>, bs') else (p, bs))"

definition rexW :: "prefixes \<Rightarrow> bool" where "rexW p = (p_rex p div 8 mod 2 = 1)"
definition rexR :: "prefixes \<Rightarrow> nat" where "rexR p = 8 * (p_rex p div 4 mod 2)"
definition rexX :: "prefixes \<Rightarrow> nat" where "rexX p = 8 * (p_rex p div 2 mod 2)"
definition rexB :: "prefixes \<Rightarrow> nat" where "rexB p = 8 * (p_rex p mod 2)"

definition op_size :: "prefixes \<Rightarrow> nat" where
  "op_size p = (if rexW p then 64 else if p_opsz p then 16 else 32)"

definition stack_size :: "bool \<Rightarrow> prefixes \<Rightarrow> nat" where
  "stack_size m64 p = (if p_opsz p then 16 else if m64 then 64 else 32)"

definition addr_size :: "bool \<Rightarrow> prefixes \<Rightarrow> nat" where
  "addr_size m64 p = (if m64 \<and> \<not> p_adsz p then 64 else 32)"

section \<open>Immediates\<close>

definition get8 :: "byte list \<Rightarrow> (int \<times> byte list) option" where
  "get8 bs = (case bs of [] \<Rightarrow> None | b # bs' \<Rightarrow> Some (sint b, bs'))"

definition get16 :: "byte list \<Rightarrow> (int \<times> byte list) option" where
  "get16 bs = (if length bs < 2 then None
     else Some (sint (of_nat (le_val (take 2 bs)) :: u16), drop 2 bs))"

definition get32 :: "byte list \<Rightarrow> (int \<times> byte list) option" where
  "get32 bs = (if length bs < 4 then None
     else Some (sint (of_nat (le_val (take 4 bs)) :: u32), drop 4 bs))"

definition get64 :: "byte list \<Rightarrow> (int \<times> byte list) option" where
  "get64 bs = (if length bs < 8 then None
     else Some (sint (of_nat (le_val (take 8 bs)) :: u64), drop 8 bs))"

definition get_imm :: "nat \<Rightarrow> byte list \<Rightarrow> (int \<times> byte list) option" where
  "get_imm sz bs = (if sz = 16 then get16 bs else get32 bs)"

section \<open>ModRM and SIB\<close>

definition mod_f :: "byte \<Rightarrow> nat" where "mod_f b = unat b div 64"
definition reg_f :: "byte \<Rightarrow> nat" where "reg_f b = unat b div 8 mod 8"
definition rm_f :: "byte \<Rightarrow> nat" where "rm_f b = unat b mod 8"

definition get_disp :: "nat \<Rightarrow> byte list \<Rightarrow> (int \<times> byte list) option" where
  "get_disp md bs = (if md = 0 then Some (0, bs) else if md = 1 then get8 bs else get32 bs)"

definition with_base :: "nat option \<Rightarrow> (nat \<times> nat) option \<Rightarrow> (int \<times> byte list) option
    \<Rightarrow> (address \<times> byte list) option" where
  "with_base base idx r = map_option (\<lambda>(d, bs). (Addr base idx d, bs)) r"

definition decode_sib :: "prefixes \<Rightarrow> nat \<Rightarrow> byte list \<Rightarrow> (address \<times> byte list) option" where
  "decode_sib p md bs = (case bs of [] \<Rightarrow> None
     | s # bs' \<Rightarrow> let i = reg_f s + rexX p; idx = (if i = 4 then None else Some (i, 2 ^ mod_f s)) in
        if rm_f s = 5 \<and> md = 0 then with_base None idx (get32 bs')
        else with_base (Some (rm_f s + rexB p)) idx (get_disp md bs'))"

definition decode_addr :: "bool \<Rightarrow> prefixes \<Rightarrow> byte \<Rightarrow> byte list \<Rightarrow> (address \<times> byte list) option" where
  "decode_addr m64 p b bs =
     (if \<not> m64 \<and> p_adsz p then None
      else if rm_f b = 4 then decode_sib p (mod_f b) bs
      else if rm_f b = 5 \<and> mod_f b = 0
        then (if m64 then map_option (\<lambda>(d, bs). (RipRel d, bs)) (get32 bs) else with_base None None (get32 bs))
      else with_base (Some (rm_f b + rexB p)) None (get_disp (mod_f b) bs))"

text \<open>The ModRM byte gives the reg field and the register or memory operand.\<close>

definition decode_rm :: "bool \<Rightarrow> prefixes \<Rightarrow> nat \<Rightarrow> (nat \<Rightarrow> operand) \<Rightarrow> byte list
    \<Rightarrow> (nat \<times> operand \<times> byte list) option" where
  "decode_rm m64 p sz mk bs = (case bs of [] \<Rightarrow> None
     | b # bs' \<Rightarrow> if mod_f b = 3 then Some (reg_f b, mk (rm_f b + rexB p), bs')
        else map_option (\<lambda>(a, r). (reg_f b, Mem sz (addr_size m64 p) (p_seg p) a, r))
               (decode_addr m64 p b bs'))"

section \<open>Opcodes\<close>

definition alu_mnemonic :: "nat \<Rightarrow> mnemonic" where
  "alu_mnemonic n = [M_add, M_or, M_adc, M_sbb, M_and, M_sub, M_xor, M_cmp] ! (n mod 8)"

type_synonym body = "(mnemonic \<times> operand list \<times> byte list) option"

text \<open>Operand forms: rm and reg, rm alone with its opcode extension, and an immediate after.\<close>

definition form_rm :: "bool \<Rightarrow> prefixes \<Rightarrow> nat \<Rightarrow> (nat \<Rightarrow> operand) \<Rightarrow> byte list
    \<Rightarrow> (nat \<Rightarrow> operand \<Rightarrow> byte list \<Rightarrow> body) \<Rightarrow> body" where
  "form_rm m64 p sz mk bs k = (case decode_rm m64 p sz mk bs of None \<Rightarrow> None
     | Some (r, x, bs') \<Rightarrow> k r x bs')"

definition with_imm :: "(int \<times> byte list) option \<Rightarrow> mnemonic \<Rightarrow> operand list \<Rightarrow> body" where
  "with_imm i mn ops = (case i of None \<Rightarrow> None | Some (v, bs) \<Rightarrow> Some (mn, ops @ [Imm v], bs))"

definition with_rel :: "(int \<times> byte list) option \<Rightarrow> mnemonic \<Rightarrow> body" where
  "with_rel i mn = (case i of None \<Rightarrow> None | Some (v, bs) \<Rightarrow> Some (mn, [Rel v], bs))"

definition is_mem :: "operand \<Rightarrow> bool" where
  "is_mem x = (case x of Mem _ _ _ _ \<Rightarrow> True | _ \<Rightarrow> False)"

definition mem_only :: "operand \<Rightarrow> body \<Rightarrow> body" where
  "mem_only x b = (if is_mem x then b else None)"

definition moffs :: "bool \<Rightarrow> prefixes \<Rightarrow> byte list \<Rightarrow> (operand \<times> byte list) option" where
  "moffs m64 p bs = map_option (\<lambda>(d, r). (Mem (op_size p) (addr_size m64 p) (p_seg p) (Addr None None d), r))
     (if m64 then get64 bs else get32 bs)"

text \<open>Two-byte opcodes, after \<open>0f\<close>.\<close>

definition decode_0f :: "bool \<Rightarrow> prefixes \<Rightarrow> nat \<Rightarrow> byte list \<Rightarrow> body" where
  "decode_0f m64 p op bs = (let sz = op_size p in
     if op div 16 = 8 then with_rel (get32 bs) (M_jcc (op mod 16))
     else if op = 0x1f then form_rm m64 p sz (Gpr sz) bs (\<lambda>r x k. if r = 0 then Some (M_nop, [x], k) else None)
     else if op = 0xae then form_rm m64 p 4096 (Gpr sz) bs (\<lambda>r x k. mem_only x
        (if r = 0 then Some (M_fxsave, [x], k) else if r = 1 then Some (M_fxrstor, [x], k) else None))
     else if op = 0xc1 then form_rm m64 p sz (Gpr sz) bs (\<lambda>r x k. Some (M_xadd, [x, Gpr sz (r + rexR p)], k))
     else if op = 0x10 \<and> p_repne p then form_rm m64 p 64 Xmm bs (\<lambda>r x k. Some (M_movsd, [Xmm (r + rexR p), x], k))
     else if op = 0xa0 then Some (M_push, [Seg 4], bs)
     else if op = 0xa1 then Some (M_pop, [Seg 4], bs)
     else if op = 0xa8 then Some (M_push, [Seg 5], bs)
     else if op = 0xa9 then Some (M_pop, [Seg 5], bs)
     else None)"

definition decode_group :: "bool \<Rightarrow> prefixes \<Rightarrow> nat \<Rightarrow> byte list \<Rightarrow> body" where
  "decode_group m64 p op bs = (let sz = op_size p in
     if op = 0x81 then form_rm m64 p sz (Gpr sz) bs (\<lambda>r x k. with_imm (get_imm sz k) (alu_mnemonic r) [x])
     else if op = 0x83 then form_rm m64 p sz (Gpr sz) bs (\<lambda>r x k. with_imm (get8 k) (alu_mnemonic r) [x])
     else if op = 0xc1 then form_rm m64 p sz (Gpr sz) bs (\<lambda>r x k.
        if r = 4 then with_imm (get8 k) M_shl [x] else if r = 5 then with_imm (get8 k) M_shr [x] else None)
     else if op = 0xc7 then form_rm m64 p sz (Gpr sz) bs (\<lambda>r x k.
        if r = 0 then with_imm (get_imm sz k) M_mov [x] else None)
     else if op = 0xff then form_rm m64 p (if m64 then 64 else 32) (Gpr (if m64 then 64 else 32)) bs
        (\<lambda>r x k. if r = 4 then Some (M_jmp, [x], k) else None)
     else None)"

definition decode_plain :: "nat \<Rightarrow> byte list \<Rightarrow> body" where
  "decode_plain op bs = (
     if op = 0x90 then Some (M_nop, [], bs) else if op = 0x9c then Some (M_pushf, [], bs)
     else if op = 0x9d then Some (M_popf, [], bs) else if op = 0x9e then Some (M_sahf, [], bs)
     else if op = 0x9f then Some (M_lahf, [], bs) else if op = 0xa5 then Some (M_movs, [], bs)
     else if op = 0xaa then Some (M_stosb, [], bs) else if op = 0xab then Some (M_stos, [], bs)
     else if op = 0xc3 then Some (M_ret, [], bs) else if op = 0xcc then Some (M_int3, [], bs)
     else if op = 0xfc then Some (M_cld, [], bs) else if op = 0xfd then Some (M_std, [], bs)
     else if op = 0xcd then with_imm (get8 bs) M_int []
     else if op = 0xe8 then with_rel (get32 bs) M_call
     else if op = 0xe9 then with_rel (get32 bs) M_jmp
     else if op = 0xeb then with_rel (get8 bs) M_jmp
     else if op = 0xe3 then with_rel (get8 bs) M_jrcxz
     else if op div 16 = 7 then with_rel (get8 bs) (M_jcc (op mod 16))
     else if op = 0x68 then with_imm (get32 bs) M_push []
     else None)"

text \<open>Opcodes that carry a register in their low three bits.\<close>

definition decode_opreg :: "bool \<Rightarrow> prefixes \<Rightarrow> nat \<Rightarrow> byte list \<Rightarrow> body" where
  "decode_opreg m64 p op bs = (let r = op mod 8 + rexB p; sz = op_size p in
     if op div 8 = 8 then (if m64 then None else Some (M_inc, [Gpr sz r], bs))
     else if op div 8 = 9 then (if m64 then None else Some (M_dec, [Gpr sz r], bs))
     else if op div 8 = 10 then Some (M_push, [Gpr (stack_size m64 p) r], bs)
     else if op div 8 = 11 then Some (M_pop, [Gpr (stack_size m64 p) r], bs)
     else if op div 8 = 22 then with_imm (get8 bs) M_mov [Gpr 8 r]
     else if op div 8 = 23 then with_imm (if sz = 64 then get64 bs else get_imm sz bs) M_mov [Gpr sz r]
     else None)"

definition decode_1 :: "bool \<Rightarrow> prefixes \<Rightarrow> nat \<Rightarrow> byte list \<Rightarrow> body" where
  "decode_1 m64 p op bs = (let sz = op_size p in
     if op < 0x40 \<and> op mod 8 = 1 then form_rm m64 p sz (Gpr sz) bs
        (\<lambda>r x k. Some (alu_mnemonic (op div 8), [x, Gpr sz (r + rexR p)], k))
     else if op < 0x40 \<and> op mod 8 = 5 then with_imm (get_imm sz bs) (alu_mnemonic (op div 8)) [Gpr sz 0]
     else if op < 0x20 \<and> op mod 8 = 6 then (if m64 then None else Some (M_push, [Seg (op div 8)], bs))
     else if op < 0x20 \<and> op mod 8 = 7 then (if m64 \<or> op = 0x0f then None else Some (M_pop, [Seg (op div 8)], bs))
     else if op div 8 \<in> {8, 9, 10, 11, 22, 23} then decode_opreg m64 p op bs
     else if op = 0x69 then form_rm m64 p sz (Gpr sz) bs
        (\<lambda>r x k. with_imm (get_imm sz k) M_imul [Gpr sz (r + rexR p), x])
     else if op = 0x6b then form_rm m64 p sz (Gpr sz) bs
        (\<lambda>r x k. with_imm (get8 k) M_imul [Gpr sz (r + rexR p), x])
     else if op = 0x87 then form_rm m64 p sz (Gpr sz) bs (\<lambda>r x k. Some (M_xchg, [x, Gpr sz (r + rexR p)], k))
     else if op = 0x89 then form_rm m64 p sz (Gpr sz) bs (\<lambda>r x k. Some (M_mov, [x, Gpr sz (r + rexR p)], k))
     else if op = 0x8b then form_rm m64 p sz (Gpr sz) bs (\<lambda>r x k. Some (M_mov, [Gpr sz (r + rexR p), x], k))
     else if op = 0x8c then form_rm m64 p 16 (Gpr sz) bs (\<lambda>r x k. if r < 6 then Some (M_mov, [x, Seg r], k) else None)
     else if op = 0x8e then form_rm m64 p 16 (Gpr sz) bs
        (\<lambda>r x k. if r < 6 \<and> r \<noteq> 1 then Some (M_mov, [Seg r, x], k) else None)
     else if op = 0x8d then form_rm m64 p 0 (Gpr sz) bs
        (\<lambda>r x k. mem_only x (Some (M_lea, [Gpr sz (r + rexR p), x], k)))
     else if op = 0xa1 then map_option (\<lambda>(x, k). (M_mov, [Gpr sz 0, x], k)) (moffs m64 p bs)
     else if op = 0xa3 then map_option (\<lambda>(x, k). (M_mov, [x, Gpr sz 0], k)) (moffs m64 p bs)
     else if op = 0xce then (if m64 then None else Some (M_into, [], bs))
     else if op \<in> {0x81, 0x83, 0xc1, 0xc7, 0xff} then decode_group m64 p op bs
     else decode_plain op bs)"

section \<open>The decoder\<close>

text \<open>A lock prefix needs a read-modify-write instruction with a memory destination.\<close>

definition lockable :: "mnemonic \<Rightarrow> operand list \<Rightarrow> bool" where
  "lockable mn ops \<longleftrightarrow> mn \<in> {M_add, M_or, M_adc, M_sbb, M_and, M_sub, M_xor, M_xadd, M_xchg, M_inc, M_dec}
     \<and> ops \<noteq> [] \<and> is_mem (hd ops)"

definition finish_insn :: "prefixes \<Rightarrow> body \<Rightarrow> (insn \<times> byte list) option" where
  "finish_insn p b = (case b of None \<Rightarrow> None | Some (mn, ops, rest) \<Rightarrow>
     if p_lock p \<and> \<not> lockable mn ops then None else Some (Insn (p_lock p) (p_rep p) mn ops, rest))"

definition x86_decode :: "bool \<Rightarrow> byte list \<Rightarrow> (insn \<times> byte list) option" where
  "x86_decode m64 bs = (case legacy_prefixes no_prefixes bs of (p, bs1) \<Rightarrow>
     (case rex_prefix m64 p bs1 of (p, bs2) \<Rightarrow>
        (case bs2 of [] \<Rightarrow> None
         | b # bs3 \<Rightarrow> if unat b = 0x0f
             then (case bs3 of [] \<Rightarrow> None | c # bs4 \<Rightarrow> finish_insn p (decode_0f m64 p (unat c) bs4))
             else finish_insn p (decode_1 m64 p (unat b) bs3))))"

text \<open>The bytes are exactly one instruction.\<close>

definition encodes :: "bool \<Rightarrow> byte list \<Rightarrow> insn \<Rightarrow> bool" where
  "encodes m64 bs i \<longleftrightarrow> x86_decode m64 bs = Some (i, [])"

section \<open>Evaluating the decoder on emitted bytes\<close>

lemma get32_le_bytes32 [simp]: "get32 (le_bytes32 w @ bs) = Some (sint w, bs)"
  by (simp add: get32_def)

lemma get32_le_bytes32_end [simp]: "get32 (le_bytes32 w) = Some (sint w, [])"
  using get32_le_bytes32 [of w "[]"] by simp

lemma get64_le_bytes64 [simp]: "get64 (le_bytes64 w) = Some (sint w, [])"
  by (simp add: get64_def)

lemma get8_Cons [simp]: "get8 (b # bs) = Some (sint b, bs)"
  by (simp add: get8_def)

text \<open>A ModRM or SIB byte from its three fields.\<close>

definition modrm :: "nat \<Rightarrow> nat \<Rightarrow> nat \<Rightarrow> byte" where
  "modrm m r b = cbyte (64 * m + 8 * r + b)"

lemma modrm_fields [simp]:
  assumes "m < 4" "r < 8" "b < 8"
  shows "mod_f (modrm m r b) = m" "reg_f (modrm m r b) = r" "rm_f (modrm m r b) = b"
proof -
  have u: "unat (modrm m r b) = 64 * m + 8 * r + b" using assms by (simp add: modrm_def)
  have v: "64 * m + 8 * r + b = (m * 8 + r) * 8 + b" by simp
  have w: "64 * m + 8 * r + b = m * 64 + (8 * r + b)" by simp
  have "(8 * r + b) div 64 = 0" using assms by simp
  then show "mod_f (modrm m r b) = m" unfolding mod_f_def u w by simp
  show "reg_f (modrm m r b) = r" 
  proof -
    have "(b + (m * 8 + r) * 8) div 8 = m * 8 + r" using assms by simp
    then show ?thesis using assms unfolding reg_f_def u v by (simp only: add.commute) simp
  qed
  show "rm_f (modrm m r b) = b" 
  proof -
    have "(b + (m * 8 + r) * 8) mod 8 = b" using assms by (simp only: mod_mult_self1 mod_less)
    then show ?thesis unfolding rm_f_def u v by (simp only: add.commute)
  qed
qed

lemma high_reg [simp]: "8 \<le> r \<Longrightarrow> r < 16 \<Longrightarrow> r mod 8 + 8 = (r :: nat)"
  by presburger

lemmas decode_defs = x86_decode_def rex_prefix_def finish_insn_def decode_1_def
  decode_0f_def decode_group_def decode_plain_def decode_opreg_def form_rm_def decode_rm_def
  decode_addr_def decode_sib_def with_base_def get_disp_def with_imm_def with_rel_def mem_only_def
  is_mem_def lockable_def moffs_def get_imm_def op_size_def stack_size_def addr_size_def
  rexW_def rexR_def rexX_def rexB_def no_prefixes_def alu_mnemonic_def

end
