(* ===== verification/X86_Registers.thy ===== *)
theory X86_Registers
  imports Pebil_Prelude
begin

text \<open>
  The numbers of the registers and the bits of the flags in \<open>include/X86Instruction.h\<close>, shared by the
  instruction factory and the liveness analysis.
\<close>

definition X86_REG_AX :: nat where "X86_REG_AX = 0"
definition X86_REG_SP :: nat where "X86_REG_SP = 4"
definition X86_REG_BP :: nat where "X86_REG_BP = 5"
definition X86_32BIT_GPRS :: nat where "X86_32BIT_GPRS = 8"
definition X86_64BIT_GPRS :: nat where "X86_64BIT_GPRS = 16"
definition X86_XMM_REGS :: nat where "X86_XMM_REGS = 16"
definition X87_REGS :: nat where "X87_REGS = 8"
definition X86_ALU_REGS :: nat where "X86_ALU_REGS = X86_64BIT_GPRS + X86_XMM_REGS + X87_REGS"
definition X86_FLAG_BITS :: nat where "X86_FLAG_BITS = 32"

lemma X86_ALU_REGS_value: "X86_ALU_REGS = 40"
  by (simp add: X86_ALU_REGS_def X86_64BIT_GPRS_def X86_XMM_REGS_def X87_REGS_def)

end
