(* ===== verification/X86_Disasm.thy ===== *)
theory X86_Disasm
  imports Pebil_Prelude
begin

text \<open>
  What the constructor of \<open>X86Instruction\<close> does with the record the disassembler fills
  (\<open>src/X86Instruction.C\<close>): it builds the operands, compares the record's flags with a table of its
  own and checks the operands. Each of these checks ends the program with \<open>PRINT_ERROR\<close> when it fails.

  The disassembler is the vendored udis86 library and a parameter: it maps the bytes of the
  buffer to the length \<open>ud_disassemble\<close> returns and to the fields that are read here. It may look at
  20 bytes; for a complete instruction what lies behind the buffer makes no difference. Mnemonics
  are the names of \<open>ud_mnemonic_code\<close> without \<open>UD_I\<close>.
\<close>

section \<open>The record of the disassembler\<close>

record ud_operand =
  opd_type :: nat
  opd_size :: nat
  opd_base :: nat
  opd_index :: nat

record ud_object =
  ud_length :: nat
  ud_mnemonic :: string
  ud_operands :: "nat \<Rightarrow> ud_operand"
  ud_flags_use :: u32
  ud_flags_def :: u32

type_synonym disassembler = "byte list \<Rightarrow> ud_object"

definition MAX_OPERANDS :: nat where "MAX_OPERANDS = 4"

text \<open>Registers and operand types are positions in one enumeration.\<close>

definition IS_GPR :: "nat \<Rightarrow> bool" where
  "IS_GPR r \<longleftrightarrow> (1 \<le> r \<and> r \<le> 4) \<or> (5 \<le> r \<and> r \<le> 20) \<or> (21 \<le> r \<and> r \<le> 36) \<or> (37 \<le> r \<and> r \<le> 52) \<or> (53 \<le> r \<and> r \<le> 68)"

definition IS_REG :: "nat \<Rightarrow> bool" where
  "IS_REG r \<longleftrightarrow> IS_GPR r \<or> (69 \<le> r \<and> r \<le> 74) \<or> (75 \<le> r \<and> r \<le> 90) \<or> (91 \<le> r \<and> r \<le> 106) \<or> (107 \<le> r \<and> r \<le> 114) \<or>
     (115 \<le> r \<and> r \<le> 122) \<or> (123 \<le> r \<and> r \<le> 138) \<or> (139 \<le> r \<and> r \<le> 154) \<or> r = 155"

definition IS_OPERAND_TYPE :: "nat \<Rightarrow> bool" where "IS_OPERAND_TYPE t \<longleftrightarrow> 156 \<le> t \<and> t \<le> 161"

section \<open>The checks\<close>

definition OperandX86_verify :: "ud_operand \<Rightarrow> unit res" where
  "OperandX86_verify op = (if opd_size op \<noteq> 0 \<and> opd_size op \<notin> {8, 16, 32, 48, 64, 80, 128, 256} then Inl PrintError else Inr ())"

text \<open>The operands that exist are those with a type.\<close>

definition new_operands :: "'a ud_object_scheme \<Rightarrow> bool list res" where
  "new_operands e = rfold (\<lambda>i ops. let op = ud_operands e i in
     if opd_type op \<noteq> 0 then rbind (OperandX86_verify op) (\<lambda>_. Inr (ops @ [True])) else Inr (ops @ [False])) [0..<MAX_OPERANDS] []"

text \<open>Carry, parity, adjust, zero, sign and overflow.\<close>

definition alustd :: "nat list" where "alustd = [0, 2, 4, 6, 7, 11]"

definition flag_bits :: "nat list \<Rightarrow> u32" where
  "flag_bits fs = fold (\<lambda>i v. v OR push_bit i 1) fs 0"

text \<open>The table: mnemonic, the flags it uses and the flags it defines. A later row replaces an earlier one.\<close>

definition usedef_table :: "(string \<times> nat list \<times> nat list) list" where
  "usedef_table = [
    (''aaa'', [], alustd), (''aad'', [], alustd), (''aam'', [], alustd), (''aas'', [4], alustd),
    (''adc'', [0], alustd), (''add'', [], alustd), (''and'', [], alustd), (''arpl'', [], [6]), (''bsf'', [], alustd),
    (''bt'', [], alustd), (''bts'', [], alustd), (''btr'', [], alustd), (''btc'', [], alustd), (''clc'', [], [0]),
    (''cld'', [], [10]), (''cli'', [], [9]), (''cmc'', [], [0]), (''cmovbe'', [11, 7, 6, 2, 0], []),
    (''cmovo'', [11, 7, 6, 2, 0], []), (''cmovno'', [11, 7, 6, 2, 0], []), (''cmovb'', [11, 7, 6, 2, 0], []),
    (''cmovae'', [11, 7, 6, 2, 0], []), (''cmovz'', [11, 7, 6, 2, 0], []), (''cmovnz'', [11, 7, 6, 2, 0], []),
    (''cmovbe'', [11, 7, 6, 2, 0], []), (''cmova'', [11, 7, 6, 2, 0], []), (''cmovs'', [11, 7, 6, 2, 0], []),
    (''cmovns'', [11, 7, 6, 2, 0], []), (''cmovp'', [11, 7, 6, 2, 0], []), (''cmovnp'', [11, 7, 6, 2, 0], []),
    (''cmovl'', [11, 7, 6, 2, 0], []), (''cmovge'', [11, 7, 6, 2, 0], []), (''cmovle'', [11, 7, 6, 2, 0], []),
    (''cmovg'', [11, 7, 6, 2, 0], []), (''cmp'', [], alustd), (''cmpsb'', [10], alustd), (''cmpsw'', [10], alustd),
    (''cmpsq'', [10], alustd), (''cmpxchg'', [], alustd), (''cmpxchg8b'', [], [6]), (''comisd'', [], alustd),
    (''comiss'', [], alustd), (''daa'', [4, 0], alustd), (''das'', [4, 0], alustd), (''dec'', [], [11, 7, 6, 4, 2]),
    (''div'', [4, 0], alustd), (''fcmovb'', [6, 2, 0], []), (''fcmove'', [6, 2, 0], []),
    (''fcmovbe'', [6, 2, 0], []), (''fcmovu'', [6, 2, 0], []), (''fcmovnb'', [6, 2, 0], []),
    (''fcmovne'', [6, 2, 0], []), (''fcmovnbe'', [6, 2, 0], []), (''fcmovnu'', [6, 2, 0], []),
    (''fcomi'', [], [6, 2, 0]), (''fcomip'', [], [6, 2, 0]), (''fucomi'', [], [6, 2, 0]),
    (''fucomip'', [], [6, 2, 0]), (''idiv'', [], alustd), (''imul'', [], alustd), (''inc'', [], [11, 7, 6, 4, 2]),
    (''insb'', [10], []), (''insw'', [10], []), (''insd'', [10], []), (''int'', [], [8, 14]),
    (''int1'', [], [8, 14]), (''int3'', [], [8, 14]), (''into'', [11], [8, 14]), (''ucomisd'', [], alustd),
    (''ucomiss'', [], alustd), (''iretw'', [14], [11, 7, 6, 4, 2, 0, 8, 9, 10]),
    (''iretd'', [14], [11, 7, 6, 4, 2, 0, 8, 9, 10]), (''iretq'', [14], [11, 7, 6, 4, 2, 0, 8, 9, 10]),
    (''jo'', [11, 7, 6, 2, 0], []), (''jno'', [11, 7, 6, 2, 0], []), (''jb'', [11, 7, 6, 2, 0], []),
    (''jae'', [11, 7, 6, 2, 0], []), (''je'', [11, 7, 6, 2, 0], []), (''jne'', [11, 7, 6, 2, 0], []),
    (''jbe'', [11, 7, 6, 2, 0], []), (''ja'', [11, 7, 6, 2, 0], []), (''js'', [11, 7, 6, 2, 0], []),
    (''jns'', [11, 7, 6, 2, 0], []), (''jp'', [11, 7, 6, 2, 0], []), (''jnp'', [11, 7, 6, 2, 0], []),
    (''jl'', [11, 7, 6, 2, 0], []), (''jge'', [11, 7, 6, 2, 0], []), (''jle'', [11, 7, 6, 2, 0], []),
    (''jg'', [11, 7, 6, 2, 0], []), (''jcxz'', [11, 7, 6, 2, 0], []), (''jecxz'', [11, 7, 6, 2, 0], []),
    (''jrcxz'', [11, 7, 6, 2, 0], []), (''lahf'', [], [7, 6, 4, 2, 0]), (''lar'', [], [6]), (''loop'', [10], []),
    (''loope'', [6], []), (''loopnz'', [6], []), (''lsl'', [], [6]), (''mul'', [], alustd), (''movsb'', [], []),
    (''movsw'', [], []), (''movsd'', [], []), (''movsq'', [], []), (''neg'', [], alustd), (''or'', [], alustd),
    (''outsb'', [10], []), (''outsw'', [10], []), (''outsd'', [10], []), (''pcmpestri'', [], alustd),
    (''pcmpestrm'', [], alustd), (''pcmpistri'', [], alustd), (''pcmpistrm'', [], alustd),
    (''popfw'', [], [11, 7, 6, 4, 2, 0, 8, 9, 10, 14]), (''popfd'', [], [11, 7, 6, 4, 2, 0, 8, 9, 10, 14]),
    (''popfq'', [], [11, 7, 6, 4, 2, 0, 8, 9, 10, 14]), (''ptest'', [], alustd),
    (''pushfw'', [11, 7, 6, 4, 2, 0, 8, 9, 10, 14], []), (''pushfd'', [11, 7, 6, 4, 2, 0, 8, 9, 10, 14], []),
    (''pushfq'', [11, 7, 6, 4, 2, 0, 8, 9, 10, 14], []), (''rcl'', [0], [11, 0]), (''rcr'', [0], [11, 0]),
    (''rol'', [0], [11, 0]), (''ror'', [0], [11, 0]), (''rsm'', [], [11, 7, 6, 4, 2, 0, 8, 9, 10, 14, 16]),
    (''sahf'', [7, 6, 4, 2, 0], []), (''sar'', [], alustd), (''sbb'', [0], alustd), (''shr'', [], alustd),
    (''seto'', [11, 7, 6, 2, 0], []), (''setno'', [11, 7, 6, 2, 0], []), (''setnp'', [11, 7, 6, 2, 0], []),
    (''setb'', [11, 7, 6, 2, 0], []), (''setnb'', [11, 7, 6, 2, 0], []), (''setz'', [11, 7, 6, 2, 0], []),
    (''setnz'', [11, 7, 6, 2, 0], []), (''setbe'', [11, 7, 6, 2, 0], []), (''seta'', [11, 7, 6, 2, 0], []),
    (''sets'', [11, 7, 6, 2, 0], []), (''setns'', [11, 7, 6, 2, 0], []), (''setns'', [11, 7, 6, 2, 0], []),
    (''setp'', [11, 7, 6, 2, 0], []), (''setl'', [11, 7, 6, 2, 0], []), (''setge'', [11, 7, 6, 2, 0], []),
    (''setle'', [11, 7, 6, 2, 0], []), (''setg'', [11, 7, 6, 2, 0], []), (''shld'', [], alustd),
    (''shrd'', [], alustd), (''sal'', [], alustd), (''shl'', [], alustd), (''stc'', [], [0]), (''std'', [], [10]),
    (''sti'', [], [9]), (''stosb'', [10], []), (''stosw'', [10], []), (''stosq'', [10], []), (''stosd'', [10], []),
    (''sub'', [], alustd), (''verr'', [], [6]), (''verw'', [], [6]), (''xadd'', [], alustd), (''xor'', [], alustd),
    (''scasb'', [10], []), (''scasw'', [10], []), (''scasq'', [10], []), (''scasd'', [10], []), (''test'', [], alustd)]"

definition usedef :: "string \<Rightarrow> u32 \<times> u32" where
  "usedef mn = (case fold (\<lambda>(k, u, d) r. if k = mn then (u, d) else r) usedef_table ([], []) of
     (u, d) \<Rightarrow> (flag_bits u, flag_bits d))"

definition setFlags :: "bool list \<Rightarrow> ud_object \<Rightarrow> unit res" where
  "setFlags ops e = (case usedef (ud_mnemonic e) of (use, def) \<Rightarrow>
     let use = (if ud_mnemonic e \<in> {''movsb'', ''movsw'', ''movsd'', ''movsq''} \<and> \<not> ops ! 0 \<and> \<not> ops ! 1
       then flag_bits [10] else use) in
     if use \<noteq> 0 \<and> ud_flags_use e \<noteq> use then Inl PrintError
     else if def \<noteq> 0 \<and> ud_flags_def e \<noteq> def then Inl PrintError
     else Inr ())"

definition verify_operand :: "bool \<Rightarrow> ud_operand \<Rightarrow> unit res" where
  "verify_operand exists op = (
     if opd_type op \<noteq> 0 \<and> \<not> IS_OPERAND_TYPE (opd_type op) then Inl PrintError
     else if opd_type op \<noteq> 0 \<and> \<not> exists then Inl PrintError
     else if opd_base op \<noteq> 0 \<and> \<not> IS_REG (opd_base op) then Inl PrintError
     else if opd_index op \<noteq> 0 \<and> \<not> IS_GPR (opd_index op) then Inl PrintError
     else Inr ())"

definition X86Instruction_verify :: "bool list \<Rightarrow> ud_object \<Rightarrow> u64 \<Rightarrow> u64 \<Rightarrow> unit res" where
  "X86Instruction_verify ops e cacheBaseAddress baseAddress =
     rbind (rfold (\<lambda>i _. verify_operand (ops ! i) (ud_operands e i)) [0..<MAX_OPERANDS] ()) (\<lambda>_.
     if cacheBaseAddress \<noteq> baseAddress then Inl PrintError else Inr ())"

text \<open>The end of the constructor; base address and cached base address are the same there.\<close>

definition accept :: "ud_object \<Rightarrow> unit res" where
  "accept e = rbind (new_operands e) (\<lambda>ops. rbind (setFlags ops e) (\<lambda>_. X86Instruction_verify ops e 0 0))"

lemma X86Instruction_verify_same: "X86Instruction_verify ops e a a = X86Instruction_verify ops e 0 0"
  by (simp add: X86Instruction_verify_def)

text \<open>A disassembler whose records have no operands and no mnemonic of the table.\<close>

definition plain_ud :: disassembler where
  "plain_ud bs = \<lparr> ud_length = length bs, ud_mnemonic = '''', ud_operands = \<lambda>_. \<lparr> opd_type = 0, opd_size = 0, opd_base = 0, opd_index = 0 \<rparr>,
     ud_flags_use = 0, ud_flags_def = 0 \<rparr>"

lemma plain_ud_simps [simp]: "ud_length (plain_ud bs) = length bs" "accept (plain_ud bs) = Inr ()"
proof -
  have u: "usedef '''' = (0, 0)" by code_simp
  show "accept (plain_ud bs) = Inr ()"
    by (simp add: accept_def plain_ud_def new_operands_def setFlags_def X86Instruction_verify_def verify_operand_def
        MAX_OPERANDS_def u upt_rec)
qed (simp add: plain_ud_def)

end
