(* ===== verification/X86_Factory.thy ===== *)
theory X86_Factory
  imports X86_Decode X86_Registers X86_Disasm
begin

text \<open>
  Class \<open>X86InstructionFactory\<close> of \<open>src/X86InstructionFactory.C\<close>: the instruction record the
  constructor of \<open>X86Instruction\<close> fills, \<open>emitInstructionBase\<close>, and the emitters shared by 32-bit
  and 64-bit code. Every emitter allocates \<open>len\<close> bytes and stores into them in the order of
  the source; a store outside, or a byte that is never stored, is an error.

  The disassembler the constructor calls is the vendored udis86 library. It is the parameter
  \<open>ud\<close> of \<open>X86_Disasm\<close>: the length of the instruction at the start of a buffer, 0 when there is
  none, and the fields of the record that the constructor checks.
\<close>

section \<open>Constants\<close>

definition X86_SEGMENT_REGS :: nat where "X86_SEGMENT_REGS = 6"
definition X86_SEGREG_CS :: nat where "X86_SEGREG_CS = 1"
definition X86_SEGREG_FS :: nat where "X86_SEGREG_FS = 4"
definition X86_SEGREG_GS :: nat where "X86_SEGREG_GS = 5"
definition X86TRAPCODE_BREAKPOINT :: nat where "X86TRAPCODE_BREAKPOINT = 3"
definition X86TRAPCODE_OVERFLOW :: nat where "X86TRAPCODE_OVERFLOW = 4"
definition MAX_NOP_LENGTH :: nat where "MAX_NOP_LENGTH = 8"

lemmas x86_consts = X86_REG_AX_def X86_REG_SP_def X86_REG_BP_def X86_32BIT_GPRS_def X86_64BIT_GPRS_def
  X86_XMM_REGS_def X86_SEGMENT_REGS_def X86_SEGREG_CS_def X86_SEGREG_FS_def X86_SEGREG_GS_def
  X86TRAPCODE_BREAKPOINT_def X86TRAPCODE_OVERFLOW_def MAX_NOP_LENGTH_def

section \<open>Instructions\<close>

datatype ByteSource = ByteSource_no_source | ByteSource_Application
  | ByteSource_Application_FreeText | ByteSource_Application_Function | ByteSource_Instrumentation

record X86Instruction =
  xi_rawBytes :: "byte list"
  xi_sizeInBytes :: nat
  xi_baseAddress :: u64
  xi_programAddress :: u64
  xi_instructionIndex :: nat
  xi_byteSource :: ByteSource

text \<open>The constructor with a size disassembles the buffer, checks the size, copies the bytes, and checks
  the operands and flags the disassembler found.\<close>

definition X86Instruction_new ::
  "disassembler \<Rightarrow> u64 \<Rightarrow> cbuf \<Rightarrow> ByteSource \<Rightarrow> nat \<Rightarrow> nat \<Rightarrow> X86Instruction res" where
  "X86Instruction_new ud baseAddr buff src idx sz = rbind buff (\<lambda>xs. rbind (all_written xs) (\<lambda>bs.
     let e = ud bs; sizeInBytes = ud_length e in
     if sizeInBytes = 0 then Inl PrintError
     else ASSERT (sz = sizeInBytes)
       (if sizeInBytes \<le> length bs
        then rbind (new_operands e) (\<lambda>operands.
          rbind (setFlags operands e) (\<lambda>_.
          rbind (X86Instruction_verify operands e baseAddr baseAddr) (\<lambda>_.
          Inr \<lparr> xi_rawBytes = take sizeInBytes bs, xi_sizeInBytes = sizeInBytes,
               xi_baseAddress = baseAddr, xi_programAddress = baseAddr,
               xi_instructionIndex = idx, xi_byteSource = src \<rparr>)))
        else Inl OutOfBounds)))"

definition emitInstructionBase :: "disassembler \<Rightarrow> nat \<Rightarrow> cbuf \<Rightarrow> X86Instruction res" where
  "emitInstructionBase ud sz buff =
     rbind (X86Instruction_new ud 0 buff ByteSource_Instrumentation 0 sz) (\<lambda>ret.
       ASSERT (xi_sizeInBytes ret = sz) (Inr ret))"

text \<open>The instruction an emitter returns for the bytes it produced.\<close>

definition emitted :: "byte list \<Rightarrow> X86Instruction" where
  "emitted bs = \<lparr> xi_rawBytes = bs, xi_sizeInBytes = length bs, xi_baseAddress = 0,
     xi_programAddress = 0, xi_instructionIndex = 0, xi_byteSource = ByteSource_Instrumentation \<rparr>"

section \<open>Emitters for both widths\<close>

definition emitBranchGeneric :: "disassembler \<Rightarrow> u64 \<Rightarrow> nat \<Rightarrow> X86Instruction res" where
  "emitBranchGeneric ud off code = (
     let len = 6; buff = new_buff len;
       buff = wr buff 0 0x0f;
       buff = wr buff 1 code;
       off32 = (ucast off :: u32) in
     ASSERT (ucast off32 = off) (
     let buff = memcpy buff 2 (le_bytes32 off32) in
     emitInstructionBase ud len buff))"

definition emitBranchJNE :: "disassembler \<Rightarrow> u64 \<Rightarrow> X86Instruction res" where
  "emitBranchJNE ud off = emitBranchGeneric ud off 0x85"

definition emitBranchJE :: "disassembler \<Rightarrow> u64 \<Rightarrow> X86Instruction res" where
  "emitBranchJE ud off = emitBranchGeneric ud off 0x84"

definition emitBranchJL :: "disassembler \<Rightarrow> u64 \<Rightarrow> X86Instruction res" where
  "emitBranchJL ud off = emitBranchGeneric ud off 0x8c"

definition emitLoadAHFromFlags :: "disassembler \<Rightarrow> X86Instruction res" where
  "emitLoadAHFromFlags ud = (let len = 1; buff = wr (new_buff len) 0 0x9f in emitInstructionBase ud len buff)"

definition emitStoreAHToFlags :: "disassembler \<Rightarrow> X86Instruction res" where
  "emitStoreAHToFlags ud = (let len = 1; buff = wr (new_buff len) 0 0x9e in emitInstructionBase ud len buff)"

definition emitMoveImmToRegaddrImm :: "disassembler \<Rightarrow> u64 \<Rightarrow> nat \<Rightarrow> u64 \<Rightarrow> X86Instruction res" where
  "emitMoveImmToRegaddrImm ud immval idx immoff =
     ASSERT (idx < X86_32BIT_GPRS) (
     let len = 10;
       len = (if idx = X86_REG_SP then len + 1 else len);
       buff = new_buff len;
       buff = wr buff 0 0xc7;
       buff = wr buff 1 (0x80 + idx);
       offoff = 2; valoff = 6;
       buff = (if idx = X86_REG_SP then wr buff 2 0x24 else buff);
       valoff = (if idx = X86_REG_SP then valoff + 1 else valoff);
       offoff = (if idx = X86_REG_SP then offoff + 1 else offoff);
       val32 = (ucast immval :: u32) in
     ASSERT (val32 = ucast immval) (
     let off32 = (ucast immoff :: u32) in
     ASSERT (off32 = ucast immoff) (
     let buff = memcpy buff valoff (le_bytes32 val32);
       buff = memcpy buff offoff (le_bytes32 off32) in
     emitInstructionBase ud len buff)))"

definition emitMoveImmByteToReg :: "disassembler \<Rightarrow> byte \<Rightarrow> nat \<Rightarrow> X86Instruction res" where
  "emitMoveImmByteToReg ud imm idx =
     ASSERT (idx < X86_32BIT_GPRS) (
     let len = 2; reg = 0; opc = 0xb0;
       len = (if idx > 3 then len + 2 else len);
       reg = (if idx > 3 then reg + 1 else reg);
       opc = (if idx > 3 then opc + 0x08 else opc);
       buff = new_buff len;
       buff = wr buff 0 0x66;
       buff = wr buff reg (opc + idx);
       buff = wr buff (reg + 1) (unat imm);
       buff = (if idx > 3 then wr buff 3 0x00 else buff) in
     emitInstructionBase ud len buff)"

definition emitRegIncrement :: "disassembler \<Rightarrow> nat \<Rightarrow> X86Instruction res" where
  "emitRegIncrement ud idx =
     ASSERT (idx < X86_32BIT_GPRS) (
     let len = 1; buff = wr (new_buff len) 0 (0x40 + idx) in
     emitInstructionBase ud len buff)"

definition emitInterrupt :: "disassembler \<Rightarrow> nat \<Rightarrow> X86Instruction res" where
  "emitInterrupt ud idx = (
     let len = 1;
       len = (if idx \<noteq> X86TRAPCODE_BREAKPOINT \<and> idx \<noteq> X86TRAPCODE_OVERFLOW then len + 1 else len);
       buff = new_buff len;
       buff = (if idx = X86TRAPCODE_BREAKPOINT then wr buff 0 0xcc
               else if idx = X86TRAPCODE_OVERFLOW then wr buff 0 0xce
               else wr (wr buff 0 0xcd) 1 idx) in
     emitInstructionBase ud len buff)"

definition emitSetDirectionFlag :: "disassembler \<Rightarrow> bool \<Rightarrow> X86Instruction res" where
  "emitSetDirectionFlag ud backward = (
     let len = 1;
       buff = wr (new_buff len) 0 0xfc;
       buff = (if backward then wr_add buff 0 1 else buff) in
     emitInstructionBase ud len buff)"

definition emitSTOSByte :: "disassembler \<Rightarrow> bool \<Rightarrow> X86Instruction res" where
  "emitSTOSByte ud repeat = (
     let len = 1;
       len = (if repeat then len + 1 else len);
       buff = wr (new_buff len) 0 0xf3;
       buff = wr buff (len - 1) 0xaa in
     emitInstructionBase ud len buff)"

definition emitSTOSWord :: "disassembler \<Rightarrow> bool \<Rightarrow> X86Instruction res" where
  "emitSTOSWord ud repeat = (
     let len = 1;
       len = (if repeat then len + 1 else len);
       buff = wr (new_buff len) 0 0xf3;
       buff = wr buff (len - 1) 0xab in
     emitInstructionBase ud len buff)"

definition emitMoveString :: "disassembler \<Rightarrow> bool \<Rightarrow> X86Instruction res" where
  "emitMoveString ud repeat = (
     let len = 1;
       len = (if repeat then len + 1 else len);
       buff = wr (new_buff len) 0 0xf3;
       buff = wr buff (len - 1) 0xa5 in
     emitInstructionBase ud len buff)"

definition emitMoveRipImmToSegmentReg :: "disassembler \<Rightarrow> u64 \<Rightarrow> nat \<Rightarrow> X86Instruction res" where
  "emitMoveRipImmToSegmentReg ud imm idx =
     ASSERT (idx < X86_SEGMENT_REGS) (ASSERT (idx \<noteq> X86_SEGREG_CS) (
     let len = 6; buff = new_buff len;
       buff = wr buff 0 0x8e;
       buff = wr buff 1 (0x05 + 8 * idx);
       imm32 = (ucast imm :: u32) in
     ASSERT (ucast imm32 = imm) (
     let buff = memcpy buff 2 (le_bytes32 imm32) in
     emitInstructionBase ud len buff)))"

definition emitMoveImmToSegmentReg :: "disassembler \<Rightarrow> u64 \<Rightarrow> nat \<Rightarrow> X86Instruction res" where
  "emitMoveImmToSegmentReg ud imm idx =
     ASSERT (idx < X86_SEGMENT_REGS) (ASSERT (idx \<noteq> X86_SEGREG_CS) (
     let len = 7; buff = new_buff len;
       buff = wr buff 0 0x8e;
       buff = wr buff 1 (0x04 + 8 * idx);
       buff = wr buff 2 0x25;
       imm32 = (ucast imm :: u32) in
     ASSERT (ucast imm32 = imm) (
     let buff = memcpy buff 3 (le_bytes32 imm32) in
     emitInstructionBase ud len buff)))"

definition emitPushSegmentReg :: "disassembler \<Rightarrow> nat \<Rightarrow> X86Instruction res" where
  "emitPushSegmentReg ud idx =
     ASSERT (idx < X86_SEGMENT_REGS) (ASSERT (idx \<noteq> X86_SEGREG_CS) (
     let len = 1;
       len = (if idx = X86_SEGREG_FS \<or> idx = X86_SEGREG_GS then len + 1 else len);
       buff = new_buff len;
       buff = wr buff 0 (0x06 + 8 * idx);
       buff = (if idx = X86_SEGREG_FS \<or> idx = X86_SEGREG_GS
               then wr (wr buff 0 0x0f) 1 (0x80 + idx) else buff) in
     emitInstructionBase ud len buff))"

definition emitPopSegmentReg :: "disassembler \<Rightarrow> nat \<Rightarrow> X86Instruction res" where
  "emitPopSegmentReg ud idx =
     ASSERT (idx < X86_SEGMENT_REGS) (ASSERT (idx \<noteq> X86_SEGREG_CS) (
     let len = 1;
       len = (if idx = X86_SEGREG_FS \<or> idx = X86_SEGREG_GS then len + 1 else len);
       buff = new_buff len;
       buff = wr buff 0 (0x07 + 8 * idx);
       buff = (if idx = X86_SEGREG_FS \<or> idx = X86_SEGREG_GS
               then wr (wr buff 0 0x0f) 1 (0x81 + idx) else buff) in
     emitInstructionBase ud len buff))"

definition emitAddByteToRegaddr :: "disassembler \<Rightarrow> byte \<Rightarrow> nat \<Rightarrow> X86Instruction res" where
  "emitAddByteToRegaddr ud byt idx =
     ASSERT (idx < X86_32BIT_GPRS) (
     let len = 3; buff = new_buff len;
       buff = wr buff 0 0x83;
       buff = wr buff 1 (0x00 + idx);
       buff = wr buff 2 (unat byt) in
     emitInstructionBase ud len buff)"

definition emitReturn :: "disassembler \<Rightarrow> X86Instruction res" where
  "emitReturn ud = (let len = 1; buff = wr (new_buff len) 0 0xc3 in emitInstructionBase ud len buff)"

definition emitPushEflags :: "disassembler \<Rightarrow> X86Instruction res" where
  "emitPushEflags ud = (let len = 1; buff = wr (new_buff len) 0 0x9c in emitInstructionBase ud len buff)"

definition emitPopEflags :: "disassembler \<Rightarrow> X86Instruction res" where
  "emitPopEflags ud = (let len = 1; buff = wr (new_buff len) 0 0x9d in emitInstructionBase ud len buff)"

text \<open>The bodies of the \<open>switch\<close> of \<open>emitNop\<close>, one list of stored values per length.\<close>

definition emitNop_bytes :: "nat \<Rightarrow> nat list" where
  "emitNop_bytes len = (
     if len = 1 then [0x90]
     else if len = 2 then [0x66, 0x90]
     else if len = 3 then [0x0f, 0x1f, 0x00]
     else if len = 4 then [0x0f, 0x1f, 0x40, 0x00]
     else if len = 5 then [0x0f, 0x1f, 0x44, 0x00, 0x00]
     else if len = 6 then [0x66, 0x0f, 0x1f, 0x44, 0x00, 0x00]
     else if len = 7 then [0x0f, 0x1f, 0x80, 0x00, 0x00, 0x00, 0x00]
     else if len = 8 then [0x0f, 0x1f, 0x84, 0x00, 0x00, 0x00, 0x00, 0x00]
     else [])"

fun wr_list :: "cbuf \<Rightarrow> nat \<Rightarrow> nat list \<Rightarrow> cbuf" where
  "wr_list b i [] = b"
| "wr_list b i (v # vs) = wr_list (wr b i v) (i + 1) vs"

definition emitNop :: "disassembler \<Rightarrow> nat \<Rightarrow> X86Instruction res" where
  "emitNop ud len =
     ASSERT (len \<le> MAX_NOP_LENGTH) (
     let buff = new_buff len in
     ASSERT (1 \<le> len \<and> len \<le> 8) (
     let buff = wr_list buff 0 (emitNop_bytes len) in
     emitInstructionBase ud len buff))"

definition emitNop1 :: "disassembler \<Rightarrow> X86Instruction res" where
  "emitNop1 ud = emitNop ud 1"

text \<open>\<open>while (len > i) { append(emitNop(i + 1)); len -= i + 1; }\<close>\<close>

function nopSeries_while :: "disassembler \<Rightarrow> nat \<Rightarrow> nat \<Rightarrow> X86Instruction list
    \<Rightarrow> (nat \<times> X86Instruction list) res" where
  "nopSeries_while ud i len series = (if len > i
     then rbind (emitNop ud (i + 1)) (\<lambda>x. nopSeries_while ud i (len - (i + 1)) (series @ [x]))
     else Inr (len, series))"
  by pat_completeness auto
termination by (relation "measure (\<lambda>(ud, i, len, series). len)") auto

declare nopSeries_while.simps [simp del]

text \<open>The outer loop runs \<open>i = 7, ..., 0\<close>; \<open>k\<close> is \<open>i + 1\<close>.\<close>

fun nopSeries_for :: "disassembler \<Rightarrow> nat \<Rightarrow> nat \<Rightarrow> X86Instruction list
    \<Rightarrow> (nat \<times> X86Instruction list) res" where
  "nopSeries_for ud 0 len series = Inr (len, series)"
| "nopSeries_for ud (Suc i) len series =
     rbind (nopSeries_while ud i len series) (\<lambda>(len, series). nopSeries_for ud i len series)"

definition emitNopSeries :: "disassembler \<Rightarrow> nat \<Rightarrow> X86Instruction list res" where
  "emitNopSeries ud len = rbind (nopSeries_for ud 8 len []) (\<lambda>(len, series).
     ASSERT (len = 0) (Inr series))"

definition emitMoveRegToRegaddr :: "disassembler \<Rightarrow> nat \<Rightarrow> nat \<Rightarrow> X86Instruction res" where
  "emitMoveRegToRegaddr ud idxsrc idxdest =
     ASSERT (idxsrc < 8) (ASSERT (idxdest < 8) (
     let len = 2; buff = new_buff len;
       buff = wr buff 0 0x89;
       buff = wr buff 1 (0x00 + idxsrc * 8 + idxdest) in
     emitInstructionBase ud len buff))"

definition emitMoveImmToReg :: "disassembler \<Rightarrow> u64 \<Rightarrow> nat \<Rightarrow> X86Instruction res" where
  "emitMoveImmToReg ud imm idx =
     ASSERT (idx < X86_32BIT_GPRS) (
     let len = 5; buff = new_buff len;
       buff = wr buff 0 (0xb8 + idx);
       imm32 = (ucast imm :: u32) in
     ASSERT (ucast imm32 = imm) (
     let buff = memcpy buff 1 (le_bytes32 imm32) in
     emitInstructionBase ud len buff))"

definition emitCallRelative :: "disassembler \<Rightarrow> u64 \<Rightarrow> u64 \<Rightarrow> X86Instruction res" where
  "emitCallRelative ud addr tgt = (
     let len = 5; buff = new_buff len;
       buff = wr buff 0 0xe8;
       imm = tgt - addr - of_nat len;
       imm32 = (ucast imm :: u32) in
     ASSERT (addr = ucast (ucast addr :: u32)) (ASSERT (tgt = ucast (ucast tgt :: u32)) (
     let buff = memcpy buff 1 (le_bytes32 imm32) in
     emitInstructionBase ud len buff)))"

text \<open>Here the check compares with the conversion to a signed 32-bit integer.\<close>

definition emitJumpRelative :: "disassembler \<Rightarrow> u64 \<Rightarrow> u64 \<Rightarrow> X86Instruction res" where
  "emitJumpRelative ud addr tgt = (
     let len = 5; buff = new_buff len;
       buff = wr buff 0 0xe9;
       imm = tgt - addr - of_nat len;
       imm32 = (ucast imm :: u32) in
     ASSERT (addr = scast (ucast addr :: u32)) (ASSERT (tgt = scast (ucast tgt :: u32)) (
     let buff = memcpy buff 1 (le_bytes32 imm32) in
     emitInstructionBase ud len buff)))"

definition emitStackPushImm :: "disassembler \<Rightarrow> u64 \<Rightarrow> X86Instruction res" where
  "emitStackPushImm ud imm = (
     let len = 5; buff = new_buff len;
       buff = wr buff 0 0x68;
       imm32 = (ucast imm :: u32) in
     ASSERT (ucast imm32 = imm) (
     let buff = memcpy buff 1 (le_bytes32 imm32) in
     emitInstructionBase ud len buff))"

end
