(* ===== verification/X86_Emission.thy ===== *)
theory X86_Emission
  imports X86_Factory
begin

text \<open>
  What it means that an emitter emits an instruction, and the lemmas that evaluate emitters and
  the decoder on the bytes they produce: symbolic buffers, REX, ModRM and SIB bytes.
\<close>

section \<open>Emission\<close>

text \<open>
  An emitter emits the instruction \<open>i\<close> when, whatever disassembler it runs with, the bytes it
  hands over decode to \<open>i\<close> and to nothing more, and it returns those bytes exactly when the
  disassembler reports their length and operands and flags that pass the checks of the
  constructor. Anything else stops the run.
\<close>

definition hands_over :: "(disassembler \<Rightarrow> X86Instruction res) \<Rightarrow> byte list \<Rightarrow> bool" where
  "hands_over f bs \<longleftrightarrow> (\<forall>ud. f ud =
     (if ud_length (ud bs) = 0 then Inl PrintError else if ud_length (ud bs) = length bs then rbind (accept (ud bs)) (\<lambda>_. Inr (emitted bs)) else Inl AssertFailed))"

definition emits :: "bool \<Rightarrow> (disassembler \<Rightarrow> X86Instruction res) \<Rightarrow> insn \<Rightarrow> bool" where
  "emits m64 f i \<longleftrightarrow> (\<exists>bs. encodes m64 bs i \<and> hands_over f bs)"

text \<open>An emitter that hands over bytes that are no instruction of this subset.\<close>

definition emits_none :: "bool \<Rightarrow> (disassembler \<Rightarrow> X86Instruction res) \<Rightarrow> byte list \<Rightarrow> bool" where
  "emits_none m64 f bs \<longleftrightarrow> hands_over f bs \<and> (\<forall>i. \<not> encodes m64 bs i)"

lemma encodes_not_Nil: "encodes m64 bs i \<Longrightarrow> bs \<noteq> []"
  by (auto simp: encodes_def x86_decode_def rex_prefix_def)

lemma emitInstructionBase_bytes:
  assumes "bs \<noteq> []"
  shows "emitInstructionBase ud (length bs) (Inr (map Some bs)) =
    (if ud_length (ud bs) = 0 then Inl PrintError else if ud_length (ud bs) = length bs then rbind (accept (ud bs)) (\<lambda>_. Inr (emitted bs)) else Inl AssertFailed)"
  using assms by (simp add: emitInstructionBase_def X86Instruction_new_def emitted_def Let_def accept_def rbind_assoc)

text \<open>The hand-over of a completely written buffer of the right size.\<close>

definition emit_bytes :: "disassembler \<Rightarrow> byte option list \<Rightarrow> X86Instruction res" where
  "emit_bytes ud xs = emitInstructionBase ud (length xs) (Inr xs)"

lemma emit_bytes_fold: "n = length xs \<Longrightarrow> emitInstructionBase ud n (Inr xs) = emit_bytes ud xs"
  by (simp add: emit_bytes_def)

lemma emitsI:
  assumes "encodes m64 bs i" and "\<And>ud. f ud = emit_bytes ud (map Some bs)"
  shows "emits m64 f i"
  unfolding emits_def hands_over_def
  using assms emitInstructionBase_bytes [OF encodes_not_Nil [OF assms(1)]] by (auto simp: emit_bytes_def)

lemma hands_overI:
  assumes "bs \<noteq> []" and "\<And>ud. f ud = emit_bytes ud (map Some bs)"
  shows "hands_over f bs"
  unfolding hands_over_def using assms emitInstructionBase_bytes [OF assms(1)] by (auto simp: emit_bytes_def)

lemma emits_noneI:
  assumes "x86_decode m64 bs = None" and "bs \<noteq> []" and "\<And>ud. f ud = emit_bytes ud (map Some bs)"
  shows "emits_none m64 f bs"
  unfolding emits_none_def encodes_def using hands_overI [OF assms(2,3)] assms(1) by simp

text \<open>Two emitters that both decode to something cannot emit different instructions.\<close>

lemma emits_unique:
  assumes "emits m64 f i" and "emits m64 f j"
  shows "i = j"
proof -
  from assms obtain bs cs where b: "encodes m64 bs i" "encodes m64 cs j"
    and f: "\<And>ud. f ud = (if ud_length (ud bs) = 0 then Inl PrintError else if ud_length (ud bs) = length bs then rbind (accept (ud bs)) (\<lambda>_. Inr (emitted bs)) else Inl AssertFailed)"
    and g: "\<And>ud. f ud = (if ud_length (ud cs) = 0 then Inl PrintError else if ud_length (ud cs) = length cs then rbind (accept (ud cs)) (\<lambda>_. Inr (emitted cs)) else Inl AssertFailed)"
    unfolding emits_def hands_over_def by blast
  have "bs \<noteq> []" "cs \<noteq> []" using b by (auto dest: encodes_not_Nil)
  then have "Inr (emitted bs) = (Inr (emitted cs) :: X86Instruction res)"
    using f [of plain_ud] g [of plain_ud] by simp
  then have "bs = cs" by (simp add: emitted_def)
  with b show ?thesis by (simp add: encodes_def)
qed

lemma emits_sub_inject: "emits m64 f (Insn l p mn (Gpr w r # ops)) \<Longrightarrow> emits m64 f (Insn l p mn (Gpr w r' # ops)) \<Longrightarrow> r = r'"
  by (drule (1) emits_unique) simp

text \<open>A ModRM operand takes at least one byte.\<close>

lemma get32_length: "get32 bs = Some (d, r) \<Longrightarrow> length r \<le> length bs"
  by (auto simp: get32_def split: if_splits)

lemma get_disp_length: "get_disp md bs = Some (d, r) \<Longrightarrow> length r \<le> length bs"
  by (auto simp: get_disp_def get8_def dest: get32_length split: if_splits list.splits)

lemma decode_addr_length: "decode_addr m64 p b bs = Some (a, r) \<Longrightarrow> length r \<le> length bs"
  by (auto simp: decode_addr_def decode_sib_def with_base_def Let_def split: if_splits list.splits
      dest!: get32_length get_disp_length)

lemma decode_rm_length: "decode_rm m64 p sz mk bs = Some (x, y, r) \<Longrightarrow> length r < length bs"
  by (auto simp: decode_rm_def split: list.splits if_splits dest!: decode_addr_length)

lemma form_rm_imm32_short:
  assumes "length bs \<le> 4" and "\<And>r x k. K r x k = with_imm (get32 k) (mn r) (ops x)"
  shows "form_rm m64 p sz mk bs K = None"
proof (cases "decode_rm m64 p sz mk bs")
  case (Some t)
  obtain r x k where t: "t = (r, x, k)" by (cases t)
  have "length k < 4" using Some t assms(1) decode_rm_length by fastforce
  then show ?thesis using Some t by (simp add: form_rm_def assms(2) with_imm_def get32_def)
qed (simp add: form_rm_def)

lemma emits_runs:
  assumes "emits m64 f i" and "\<And>bs. encodes m64 bs i \<Longrightarrow> ud_length (ud bs) = length bs \<and> accept (ud bs) = Inr ()"
  shows "\<exists>bs. f ud = Inr (emitted bs) \<and> encodes m64 bs i"
proof -
  from assms(1) obtain bs where b: "encodes m64 bs i"
    and f: "f ud = (if ud_length (ud bs) = 0 then Inl PrintError else if ud_length (ud bs) = length bs then rbind (accept (ud bs)) (\<lambda>_. Inr (emitted bs)) else Inl AssertFailed)"
    unfolding emits_def hands_over_def by blast
  have "bs \<noteq> []" using b by (rule encodes_not_Nil)
  with assms(2) [OF b] f b show ?thesis by auto
qed

section \<open>Effective addresses\<close>

text \<open>The address an operand denotes, given the registers and the address of the next instruction.\<close>

fun eff_addr :: "(nat \<Rightarrow> u64) \<Rightarrow> u64 \<Rightarrow> address \<Rightarrow> u64" where
  "eff_addr regs next (Addr base idx d) =
     (case base of None \<Rightarrow> 0 | Some b \<Rightarrow> regs b) +
     (case idx of None \<Rightarrow> 0 | Some (i, k) \<Rightarrow> regs i * of_nat k) + word_of_int d"
| "eff_addr regs next (RipRel d) = next + word_of_int d"

text \<open>A 64-bit value is its own sign extension from 32 bits.\<close>

definition fits_s32 :: "u64 \<Rightarrow> bool" where
  "fits_s32 v \<longleftrightarrow> scast (ucast v :: u32) = v"

lemma fits_s32_disp: "fits_s32 v \<Longrightarrow> word_of_int (sint (ucast v :: u32)) = v"
  by (simp add: fits_s32_def flip: scast_eq)

lemma fits_s32_low: "unat v < 2147483648 \<Longrightarrow> fits_s32 v"
proof -
  assume a: "unat v < 2147483648"
  have u: "unat (ucast v :: u32) = unat v" using a by (simp add: unat_ucast)
  have i: "uint (ucast v :: u32) = int (unat v)" by (simp only: uint_nat u)
  have "signed_take_bit 31 (int n) = int n" if "n < 2147483648" for n
    by (rule signed_take_bit_int_eq_self) (use that in simp_all)
  from this [OF a] have "sint (ucast v :: u32) = uint v" by (simp add: sint_uint i)
  then show ?thesis by (simp add: fits_s32_def scast_eq)
qed

lemma signed_take_bit_31_high:
  assumes "2147483648 \<le> k" and "k < 4294967296"
  shows "signed_take_bit 31 k = k - (4294967296 :: int)"
proof -
  have "k div 2 ^ 31 = 1" using assms by simp
  then have "bit k 31" by (simp add: bit_iff_odd)
  moreover have "take_bit 32 k = k" using assms by (intro take_bit_int_eq_self) simp_all
  ultimately show ?thesis by (simp add: signed_take_bit_eq_take_bit_minus)
qed

lemma fits_s32_iff:
  fixes v :: u64
  assumes "unat v < 4294967296"
  shows "fits_s32 v \<longleftrightarrow> unat v < 2147483648"
proof (cases "unat v < 2147483648")
  case True
  then show ?thesis by (simp add: fits_s32_low)
next
  case False
  have "unat (ucast v :: u32) = unat v" using assms by (simp add: unat_ucast)
  then have i: "uint (ucast v :: u32) = uint v" by (simp only: uint_nat)
  have b: "2147483648 \<le> uint v" "uint v < 4294967296" using False assms by (simp_all only: uint_nat)
  have "sint (ucast v :: u32) = uint v - 4294967296"
    by (simp add: sint_uint i signed_take_bit_31_high [OF b])
  then have "scast (ucast v :: u32) = v - 4294967296" by (simp add: scast_eq)
  moreover have "v - 4294967296 \<noteq> v" by simp
  ultimately show ?thesis using False by (simp add: fits_s32_def)
qed

lemma fits_s32_of_int:
  assumes "- 2147483648 \<le> k" and "k < 2147483648"
  shows "fits_s32 (word_of_int k)"
proof -
  have "ucast (word_of_int k :: u64) = (word_of_int k :: u32)"
    by transfer simp
  moreover have "sint (word_of_int k :: u32) = k"
    using assms by (simp add: sint_sbintrunc' signed_take_bit_int_eq_self)
  ultimately show ?thesis by (simp add: fits_s32_def scast_eq)
qed

text \<open>Relative branches between two addresses below 2 GB reach their target.\<close>

lemma rel32_reaches:
  fixes addr tgt :: u64
  assumes "unat addr < 2147483640" and "unat tgt < 2147483648" and "n \<le> 8" and that: "0 \<le> n"
  shows "addr + word_of_int n + word_of_int (sint (ucast (tgt - addr - word_of_int n) :: u32)) = tgt"
proof -
  have "tgt - addr - word_of_int n = word_of_int (uint tgt - uint addr - n)" by simp
  moreover have "uint addr < 2147483640" "uint tgt < 2147483648"
    using assms(1,2) by (simp_all add: word_less_nat_alt flip: of_nat_less_iff [where 'a = int])
  then have "fits_s32 (word_of_int (uint tgt - uint addr - n))"
    using assms(3) that uint_ge_0 [of tgt] uint_ge_0 [of addr] by (intro fits_s32_of_int) linarith+
  ultimately have "fits_s32 (tgt - addr - word_of_int n)" by simp
  from fits_s32_disp [OF this] show ?thesis by simp
qed

section \<open>Symbolic buffers\<close>

named_theorems emit_simps \<open>evaluation of the buffer operations of an emitter\<close>

lemma replicate_numeral_Cons: "replicate (numeral k) x = x # replicate (pred_numeral k) x"
  by (simp add: numeral_eq_Suc)

lemma list_update_numeral: "(x # xs)[numeral k := y] = x # xs[pred_numeral k := y]"
  by (simp add: numeral_eq_Suc)

lemma nth_Suc_0: "(x # y # xs) ! Suc 0 = y"
  by simp

lemma new_buff_Suc: "new_buff (Suc n) = Inr (None # replicate n None)"
  by (simp add: new_buff_def)

lemmas buffer_simps = new_buff_simp new_buff_Suc wr_Inr wr_add_Inr wr_or_Inr memcpy_Inr replicate_numeral_Cons list_update_numeral
  take_Cons_numeral drop_Cons_numeral nth_Cons_numeral

lemma Let_bool: "Let b f = f b"
  by (simp add: Let_def)

text \<open>The REX byte, from its four flags.\<close>

definition rexn :: "bool \<Rightarrow> bool \<Rightarrow> bool \<Rightarrow> bool \<Rightarrow> nat" where
  "rexn w r x b = (if w then 8 else 0) + (if r then 4 else 0) + (if x then 2 else 0) + (if b then 1 else 0)"

definition rex :: "bool \<Rightarrow> bool \<Rightarrow> bool \<Rightarrow> bool \<Rightarrow> byte" where
  "rex w r x b = cbyte (0x40 + rexn w r x b)"

lemma rexn_lt: "rexn w r x b < 16"
  by (simp add: rexn_def)

lemma unat_rex: "unat (rex w r x b) = 64 + rexn w r x b"
  using rexn_lt [of w r x b] by (simp add: rex_def)

lemma rex_simps [simp]:
  "80 \<le> k \<Longrightarrow> unat (rex w r x b) \<noteq> k" "unat (rex w r x b) div 16 = 4" "unat (rex w r x b) mod 16 = rexn w r x b"
  "unat (rex w r x b) \<noteq> 15"
proof -
  have l: "rexn w r x b < 16" by (rule rexn_lt)
  then show "80 \<le> k \<Longrightarrow> unat (rex w r x b) \<noteq> k" "unat (rex w r x b) div 16 = 4" "unat (rex w r x b) \<noteq> 15"
    by (simp_all add: unat_rex)
  have "(rexn w r x b + 4 * 16) mod 16 = rexn w r x b" using l by (simp only: mod_mult_self1 mod_less)
  then show "unat (rex w r x b) mod 16 = rexn w r x b" by (simp add: unat_rex add.commute)
qed

lemma rexn_fields [simp]:
  "rexn w r x b div 8 mod 2 = (if w then 1 else 0)" "rexn w r x b div 4 mod 2 = (if r then 1 else 0)"
  "rexn w r x b div 2 mod 2 = (if x then 1 else 0)" "rexn w r x b mod 2 = (if b then 1 else 0)"
  by (simp_all add: rexn_def)

lemma reg_join [simp]: "r < 16 \<Longrightarrow> r mod 8 + (if 8 \<le> r then 8 else 0) = (r :: nat)"
  by simp

lemma high_reg' [simp]: "8 \<le> r \<Longrightarrow> r < 16 \<Longrightarrow> 8 + r mod 8 = (r :: nat)" 
  by presburger

lemma high_sub [simp]: "8 \<le> r \<Longrightarrow> r < 16 \<Longrightarrow> r - 8 = (r mod 8 :: nat)"
  by presburger

lemma mod8_eq_4 [simp]: "r < 16 \<Longrightarrow> r mod 8 = 4 \<longleftrightarrow> r = 4 \<or> r = (12 :: nat)"
  by presburger

lemma mod8_eq_5 [simp]: "r < 16 \<Longrightarrow> r mod 8 = 5 \<longleftrightarrow> r = 5 \<or> r = (13 :: nat)"
  by presburger

lemma ucast_u32_u64 [simp]: "unat (w :: u64) < 4294967296 \<Longrightarrow> ucast (ucast w :: u32) = w"
  by (rule word_eq_unatI) (simp add: unat_ucast)

lemma or_rexW [simp]: "cbyte 64 OR cbyte 8 = cbyte 72" "cbyte 68 OR cbyte 8 = cbyte 76"
  by (simp_all add: cbyte_def)

lemma lt8_cases: "r < 8 \<Longrightarrow> r = 0 \<or> r = 1 \<or> r = 2 \<or> r = 3 \<or> r = 4 \<or> r = 5 \<or> r = 6 \<or> r = (7 :: nat)"
  by presburger

lemma mod8_lt [simp]: "r mod 8 < (8 :: nat)"
  by simp

lemmas decode_simps = encodes_def decode_defs rex_simps

lemmas emit_eval = emit_bytes_fold Let_def x86_consts buffer_simps rex_def rexn_def modrm_def

lemma sint_cbyte_0 [simp]: "sint (cbyte 0) = 0"
  by (simp add: cbyte_def)

lemmas emit_ac = add.assoc add.commute add.left_commute mult.commute

end
