(* ===== verification/X86_Factory32.thy ===== *)
theory X86_Factory32
  imports X86_Factory Base_Align
begin

text \<open>
  Class \<open>X86InstructionFactory32\<close> of \<open>src/X86InstructionFactory.C\<close>: the emitters of 32-bit code.
  Names carry the suffix \<open>_32\<close>. The file ends with the scale byte both widths compute for the
  address computations.
\<close>

definition emitMoveImmToMem_32 :: "disassembler \<Rightarrow> u64 \<Rightarrow> u64 \<Rightarrow> X86Instruction res" where
  "emitMoveImmToMem_32 ud imm addr = (
     let len = 10; buff = new_buff len;
       buff = wr buff 0 0xc7;
       buff = wr buff 1 0x05;
       addr32 = (ucast addr :: u32) in
     ASSERT (addr32 = ucast addr) (
     let buff = memcpy buff 2 (le_bytes32 addr32);
       imm32 = (ucast imm :: u32) in
     ASSERT (imm32 = ucast imm) (
     let buff = memcpy buff 6 (le_bytes32 imm32) in
     emitInstructionBase ud len buff)))"

definition emitFxSave_32 :: "disassembler \<Rightarrow> u64 \<Rightarrow> X86Instruction res" where
  "emitFxSave_32 ud addr = (
     let len = 7; buff = new_buff len;
       buff = wr buff 0 0x0f;
       buff = wr buff 1 0xae;
       buff = wr buff 2 0x05;
       addr32 = (ucast addr :: u32) in
     ASSERT (addr32 = ucast addr) (
     let buff = memcpy buff 3 (le_bytes32 addr32) in
     emitInstructionBase ud len buff))"

definition emitFxRstor_32 :: "disassembler \<Rightarrow> u64 \<Rightarrow> X86Instruction res" where
  "emitFxRstor_32 ud addr = (
     let len = 7; buff = new_buff len;
       buff = wr buff 0 0x0f;
       buff = wr buff 1 0xae;
       buff = wr buff 2 0x0d;
       addr32 = (ucast addr :: u32) in
     ASSERT (addr32 = ucast addr) (
     let buff = memcpy buff 3 (le_bytes32 addr32) in
     emitInstructionBase ud len buff))"

definition emitMoveSegmentRegToReg_32 :: "disassembler \<Rightarrow> nat \<Rightarrow> nat \<Rightarrow> X86Instruction res" where
  "emitMoveSegmentRegToReg_32 ud src dest =
     ASSERT (src < X86_SEGMENT_REGS) (ASSERT (dest < X86_32BIT_GPRS) (
     let len = 2; buff = new_buff len;
       buff = wr buff 0 0x8c;
       buff = wr buff 1 (0xc0 + 8 * src + dest) in
     emitInstructionBase ud len buff))"

text \<open>\<open>sa\<close> is a \<open>uint8_t\<close> holding the scale in its top two bits.\<close>

definition lea_scale :: "byte \<Rightarrow> nat res" where
  "lea_scale scale = rbind (logBase2 (ucast scale)) (\<lambda>l. Inr (unat (push_bit 6 l) mod 256))"

definition emitLoadEffectiveAddress_32 :: "disassembler \<Rightarrow> nat \<Rightarrow> nat \<Rightarrow> byte \<Rightarrow> u64 \<Rightarrow> nat \<Rightarrow> bool \<Rightarrow> bool \<Rightarrow> X86Instruction res" where
  "emitLoadEffectiveAddress_32 ud baseReg indexReg scale value dest hasBase hasIndex =
     ASSERT (dest < X86_32BIT_GPRS) (
     ASSERT (baseReg < X86_32BIT_GPRS) (
     ASSERT (indexReg < X86_32BIT_GPRS) (
     ASSERT (scale \<noteq> 0 \<and> isPowerOfTwo (ucast scale) \<and> scale \<le> 8) (
     if hasIndex then rbind (lea_scale scale) (\<lambda>sa.
       if hasBase \<and> value = 0 then (
         let len = 3;
           len = (if baseReg = X86_REG_BP then len + 1 else len);
           buff = new_buff len;
           buff = wr buff 0 0x8d;
           buff = wr buff 1 (0x04 + 8 * dest);
           buff = (if baseReg = X86_REG_BP then wr (wr_add buff 1 0x40) 3 0x00 else buff);
           buff = wr buff 2 (0x00 + 8 * indexReg + baseReg + sa) in
         emitInstructionBase ud len buff)
       else (
         let len = 7; buff = new_buff len;
           buff = wr buff 0 0x8d;
           buff = wr buff 1 (0x04 + 8 * dest);
           buff = wr buff 2 (0x00 + 8 * indexReg);
           buff = (if hasBase then wr_add (wr_add buff 1 0x80) 2 baseReg else wr_add buff 2 0x05);
           buff = wr_add buff 2 sa;
           buff = memcpy buff 3 (le_bytes32 (ucast value)) in
         emitInstructionBase ud len buff))
     else if hasBase then (
       let len = 6; immoff = 2;
         len = (if baseReg = X86_REG_SP then len + 1 else len);
         immoff = (if baseReg = X86_REG_SP then immoff + 1 else immoff);
         buff = new_buff len;
         buff = wr buff 0 0x8d;
         buff = wr buff 1 (0x80 + 8 * dest + baseReg);
         buff = (if baseReg = X86_REG_SP then wr buff 2 0x24 else buff);
         addr32 = (ucast value :: u32);
         buff = memcpy buff immoff (le_bytes32 addr32) in
       emitInstructionBase ud len buff)
     else (
       let len = 7; buff = new_buff len;
         buff = wr buff 0 0x8d;
         buff = wr buff 1 (0x04 + 8 * (dest mod X86_32BIT_GPRS));
         buff = wr buff 2 0x25;
         addr32 = (ucast value :: u32);
         buff = memcpy buff 3 (le_bytes32 addr32) in
       emitInstructionBase ud len buff)))))"

definition emitExchangeMemReg_32 :: "disassembler \<Rightarrow> u64 \<Rightarrow> nat \<Rightarrow> X86Instruction res" where
  "emitExchangeMemReg_32 ud addr idx =
     ASSERT (idx < X86_32BIT_GPRS) (
     let len = 6; buff = new_buff len;
       buff = wr buff 0 0x87;
       buff = wr buff 1 (0x05 + 8 * idx);
       addr32 = (ucast addr :: u32) in
     ASSERT (addr32 = ucast addr) (
     let buff = memcpy buff 2 (le_bytes32 addr32) in
     emitInstructionBase ud len buff))"

definition emitLoadRegImmReg_32 :: "disassembler \<Rightarrow> nat \<Rightarrow> u64 \<Rightarrow> nat \<Rightarrow> X86Instruction res" where
  "emitLoadRegImmReg_32 ud idxsrc imm idxdest =
     ASSERT (idxsrc < X86_32BIT_GPRS) (ASSERT (idxdest < X86_32BIT_GPRS) (
     let len = 6;
       len = (if idxdest = X86_REG_SP then len + 1 else len);
       buff = new_buff len;
       buff = wr buff 0 0x8d;
       buff = wr buff 1 (0x80 + idxsrc * 8 + idxdest);
       imm32 = (ucast imm :: u32);
       immoff = 2;
       buff = (if idxdest = X86_REG_SP then wr buff 2 0x24 else buff);
       immoff = (if idxdest = X86_REG_SP then immoff + 1 else immoff) in
     ASSERT (imm32 = ucast imm) (
     let buff = memcpy buff immoff (le_bytes32 imm32) in
     emitInstructionBase ud len buff)))"

definition emitShiftRightLogical_32 :: "disassembler \<Rightarrow> byte \<Rightarrow> nat \<Rightarrow> X86Instruction res" where
  "emitShiftRightLogical_32 ud imm reg =
     ASSERT (reg < X86_32BIT_GPRS) (
     let len = 3; buff = new_buff len;
       buff = wr buff 0 0xc1;
       buff = wr buff 1 (0xe8 + reg);
       buff = wr buff 2 (unat imm) in
     emitInstructionBase ud len buff)"

definition emitShiftLeftLogical_32 :: "disassembler \<Rightarrow> byte \<Rightarrow> nat \<Rightarrow> X86Instruction res" where
  "emitShiftLeftLogical_32 ud imm reg =
     ASSERT (reg < X86_32BIT_GPRS) (
     let len = 3; buff = new_buff len;
       buff = wr buff 0 0xc1;
       buff = wr buff 1 (0xe0 + reg);
       buff = wr buff 2 (unat imm) in
     emitInstructionBase ud len buff)"

definition emitCompareImmReg_32 :: "disassembler \<Rightarrow> u64 \<Rightarrow> nat \<Rightarrow> X86Instruction res" where
  "emitCompareImmReg_32 ud imm reg =
     ASSERT (reg < X86_32BIT_GPRS) (
     let len = 6; buff = new_buff len;
       buff = wr buff 0 0x81;
       buff = wr buff 1 (0xf8 + reg);
       imm32 = (ucast imm :: u32) in
     ASSERT (ucast imm32 = imm) (
     let buff = memcpy buff 2 (le_bytes32 imm32) in
     emitInstructionBase ud len buff))"

definition emitMoveRegToReg_32 :: "disassembler \<Rightarrow> nat \<Rightarrow> nat \<Rightarrow> X86Instruction res" where
  "emitMoveRegToReg_32 ud srcreg destreg =
     ASSERT (srcreg < X86_32BIT_GPRS) (ASSERT (destreg < X86_32BIT_GPRS) (
     let len = 2; buff = new_buff len;
       buff = wr buff 0 0x89;
       buff = wr buff 1 (0xc0 + X86_32BIT_GPRS * srcreg + destreg) in
     emitInstructionBase ud len buff))"

definition emitRegAddReg2OpForm_32 :: "disassembler \<Rightarrow> nat \<Rightarrow> nat \<Rightarrow> X86Instruction res" where
  "emitRegAddReg2OpForm_32 ud srcdestreg srcreg =
     ASSERT (srcdestreg < X86_32BIT_GPRS) (ASSERT (srcreg < X86_32BIT_GPRS) (
     let len = 2; buff = new_buff len;
       buff = wr buff 0 0x01;
       buff = wr buff 1 (0xc0 + 8 * srcdestreg + srcreg) in
     emitInstructionBase ud len buff))"

definition emitRegImm1ByteMultReg_32 :: "disassembler \<Rightarrow> nat \<Rightarrow> byte \<Rightarrow> nat \<Rightarrow> X86Instruction res" where
  "emitRegImm1ByteMultReg_32 ud src imm dest =
     ASSERT (src < X86_32BIT_GPRS) (ASSERT (dest < X86_32BIT_GPRS) (
     let len = 3; buff = new_buff len;
       buff = wr buff 0 0x6b;
       buff = wr buff 1 (0xc0 + 8 * dest + src);
       buff = wr buff 2 (unat imm) in
     emitInstructionBase ud len buff))"

definition emitRegAddImm_32 :: "disassembler \<Rightarrow> nat \<Rightarrow> u32 \<Rightarrow> X86Instruction res" where
  "emitRegAddImm_32 ud idx imm =
     ASSERT (idx < X86_32BIT_GPRS) (
     let len = 6; buff = new_buff len;
       buff = wr buff 0 0x81;
       buff = wr buff 1 (0xc0 + idx);
       buff = memcpy buff 2 (le_bytes32 imm) in
     emitInstructionBase ud len buff)"

definition emitXorRegReg_32 :: "disassembler \<Rightarrow> nat \<Rightarrow> nat \<Rightarrow> X86Instruction res" where
  "emitXorRegReg_32 ud src tgt =
     ASSERT (src < X86_32BIT_GPRS) (ASSERT (tgt < X86_32BIT_GPRS) (
     let len = 2; buff = new_buff len;
       buff = wr buff 0 0x31;
       buff = wr buff 1 (0xc0 + tgt + 8 * src) in
     emitInstructionBase ud len buff))"

definition emitAddImmByteToMem_32 :: "disassembler \<Rightarrow> byte \<Rightarrow> u64 \<Rightarrow> X86Instruction res" where
  "emitAddImmByteToMem_32 ud imm addr = (
     let len = 7; buff = new_buff len;
       buff = wr buff 0 0x83;
       buff = wr buff 1 0x05;
       addr32 = (ucast addr :: u32) in
     ASSERT (addr32 = ucast addr) (
     let buff = memcpy buff 2 (le_bytes32 addr32);
       buff = memcpy buff 6 [imm] in
     emitInstructionBase ud len buff))"

definition emitSubImmByteToMem_32 :: "disassembler \<Rightarrow> byte \<Rightarrow> u64 \<Rightarrow> X86Instruction res" where
  "emitSubImmByteToMem_32 ud imm addr = (
     let len = 7; buff = new_buff len;
       buff = wr buff 0 0x83;
       buff = wr buff 1 0x2d;
       addr32 = (ucast addr :: u32) in
     ASSERT (addr32 = ucast addr) (
     let buff = memcpy buff 2 (le_bytes32 addr32);
       buff = memcpy buff 6 [imm] in
     emitInstructionBase ud len buff))"

definition emitMoveRegaddrImmToReg_32 :: "disassembler \<Rightarrow> nat \<Rightarrow> u64 \<Rightarrow> nat \<Rightarrow> X86Instruction res" where
  "emitMoveRegaddrImmToReg_32 ud idxsrc imm idxdest =
     ASSERT (idxsrc < X86_32BIT_GPRS) (ASSERT (idxdest < X86_32BIT_GPRS) (
     let len = 6;
       len = (if idxsrc = X86_REG_SP then len + 1 else len);
       buff = new_buff len;
       buff = wr buff 0 0x8b;
       buff = wr buff 1 (0x80 + idxdest * 8 + idxsrc);
       imm32 = (ucast imm :: u32);
       immoff = 2;
       buff = (if idxsrc = X86_REG_SP then wr buff 2 0x24 else buff);
       immoff = (if idxsrc = X86_REG_SP then immoff + 1 else immoff) in
     ASSERT (imm32 = ucast imm) (
     let buff = memcpy buff immoff (le_bytes32 imm32) in
     emitInstructionBase ud len buff)))"

definition emitMoveRegaddrToReg_32 :: "disassembler \<Rightarrow> nat \<Rightarrow> nat \<Rightarrow> X86Instruction res" where
  "emitMoveRegaddrToReg_32 ud srcidx destidx =
     ASSERT (srcidx < X86_32BIT_GPRS) (ASSERT (destidx < X86_32BIT_GPRS) (
     let len = 2; buff = new_buff len;
       buff = wr buff 0 0x8b;
       buff = wr buff 1 (0x00 + srcidx + 8 * destidx) in
     emitInstructionBase ud len buff))"

definition emitRegSubImm_32 :: "disassembler \<Rightarrow> nat \<Rightarrow> u32 \<Rightarrow> X86Instruction res" where
  "emitRegSubImm_32 ud idx imm =
     ASSERT (idx > 0 \<and> idx < X86_32BIT_GPRS) (
     let len = 6; buff = new_buff len;
       buff = wr buff 0 0x81;
       buff = wr buff 1 (0xe8 + idx);
       imm32 = imm in
     ASSERT (imm32 = imm) (
     let buff = memcpy buff 2 (le_bytes32 imm32) in
     emitInstructionBase ud len buff))"

definition emitMoveRegToRegaddrImm_32 :: "disassembler \<Rightarrow> nat \<Rightarrow> nat \<Rightarrow> u64 \<Rightarrow> X86Instruction res" where
  "emitMoveRegToRegaddrImm_32 ud idxsrc idxdest imm =
     ASSERT (idxsrc < X86_32BIT_GPRS) (ASSERT (idxdest < X86_32BIT_GPRS) (
     let len = 6; immoff = 2;
       len = (if idxdest = X86_REG_SP then len + 1 else len);
       immoff = (if idxdest = X86_REG_SP then immoff + 1 else immoff);
       buff = new_buff len;
       buff = wr buff 0 0x89;
       buff = wr buff 1 (0x80 + 8 * idxsrc + idxdest);
       buff = wr buff 2 0x24;
       imm32 = (ucast imm :: u32) in
     ASSERT (imm32 = ucast imm) (
     let buff = memcpy buff immoff (le_bytes32 imm32) in
     emitInstructionBase ud len buff)))"

definition emitMoveRegToMem_32 :: "disassembler \<Rightarrow> nat \<Rightarrow> u64 \<Rightarrow> X86Instruction res" where
  "emitMoveRegToMem_32 ud idx addr =
     ASSERT (idx < X86_32BIT_GPRS) (
     let len = 6; immoff = 2;
       len = (if idx = X86_REG_AX then len - 1 else len);
       immoff = (if idx = X86_REG_AX then immoff - 1 else immoff);
       buff = new_buff len;
       buff = wr buff 0 0x89;
       buff = wr buff 1 (0x05 + 0x8 * idx);
       buff = (if idx = X86_REG_AX then wr buff 0 0xa3 else buff);
       addr32 = (ucast addr :: u32) in
     ASSERT (ucast addr32 = addr) (
     let buff = memcpy buff immoff (le_bytes32 addr32) in
     emitInstructionBase ud len buff))"

definition emitMoveMemToReg_32 :: "disassembler \<Rightarrow> u64 \<Rightarrow> nat \<Rightarrow> X86Instruction res" where
  "emitMoveMemToReg_32 ud addr idx =
     ASSERT (idx < X86_32BIT_GPRS) (
     let len = 6; immoff = 2;
       len = (if idx = X86_REG_AX then len - 1 else len);
       immoff = (if idx = X86_REG_AX then immoff - 1 else immoff);
       buff = new_buff len;
       buff = wr buff 0 0x8b;
       buff = wr buff 1 (0x05 + 0x8 * idx);
       buff = (if idx = X86_REG_AX then wr buff 0 0xa1 else buff);
       addr32 = (ucast addr :: u32) in
     ASSERT (ucast addr32 = addr) (
     let buff = memcpy buff immoff (le_bytes32 addr32) in
     emitInstructionBase ud len buff))"

definition emitStackPush_32 :: "disassembler \<Rightarrow> nat \<Rightarrow> X86Instruction res" where
  "emitStackPush_32 ud idx =
     ASSERT (idx < X86_32BIT_GPRS) (
     let len = 1; buff = new_buff len;
       buff = wr buff 0 (0x50 + idx) in
     emitInstructionBase ud len buff)"

definition emitStackPop_32 :: "disassembler \<Rightarrow> nat \<Rightarrow> X86Instruction res" where
  "emitStackPop_32 ud idx =
     ASSERT (idx < X86_32BIT_GPRS) (
     let len = 1; buff = new_buff len;
       buff = wr buff 0 (0x58 + idx) in
     emitInstructionBase ud len buff)"

definition emitJumpIndirect_32 :: "disassembler \<Rightarrow> u64 \<Rightarrow> X86Instruction res" where
  "emitJumpIndirect_32 ud tgt = (
     let len = 6; buff = new_buff len;
       buff = wr buff 0 0xff;
       buff = wr buff 1 0x25;
       tgt32 = (ucast tgt :: u32) in
     ASSERT (ucast tgt32 = tgt) (
     let buff = memcpy buff 2 (le_bytes32 tgt32) in
     emitInstructionBase ud len buff))"

end
