(* ===== verification/X86_Correct32.thy ===== *)
theory X86_Correct32
  imports X86_Emission X86_Factory32
begin

text \<open>
  The emitters shared by both widths and the 32-bit emitters emit the instructions their names
  promise: one lemma per emitter, then the properties, the padding with no-ops and the reach of
  jumps and calls.
\<close>

section \<open>Emitters for both widths\<close>

lemma emitBranchJNE_emits:
  assumes "unat off < 4294967296"
  shows "emits m64 (\<lambda>ud. emitBranchJNE ud off)
    (Insn False False (M_jcc 5) [Rel (sint (ucast off :: u32))])"
  using assms by (intro emitsI [where bs = "[cbyte 0x0f, cbyte 0x85] @ le_bytes32 (ucast off)"],
    (simp add: decode_simps), (simp add: emitBranchJNE_def emit_eval emitBranchGeneric_def; simp add: emit_ac))

lemma emitBranchJE_emits:
  assumes "unat off < 4294967296"
  shows "emits m64 (\<lambda>ud. emitBranchJE ud off)
    (Insn False False (M_jcc 4) [Rel (sint (ucast off :: u32))])"
  using assms by (intro emitsI [where bs = "[cbyte 0x0f, cbyte 0x84] @ le_bytes32 (ucast off)"],
    (simp add: decode_simps), (simp add: emitBranchJE_def emit_eval emitBranchGeneric_def; simp add: emit_ac))

lemma emitBranchJL_emits:
  assumes "unat off < 4294967296"
  shows "emits m64 (\<lambda>ud. emitBranchJL ud off)
    (Insn False False (M_jcc 12) [Rel (sint (ucast off :: u32))])"
  using assms by (intro emitsI [where bs = "[cbyte 0x0f, cbyte 0x8c] @ le_bytes32 (ucast off)"],
    (simp add: decode_simps), (simp add: emitBranchJL_def emit_eval emitBranchGeneric_def; simp add: emit_ac))

lemma emitLoadAHFromFlags_emits:
  "emits m64 (\<lambda>ud. emitLoadAHFromFlags ud)
    (Insn False False M_lahf [])"
  by (intro emitsI [where bs = "[cbyte 0x9f]"],
    (simp add: decode_simps), (simp add: emitLoadAHFromFlags_def emit_eval; simp add: emit_ac))

lemma emitStoreAHToFlags_emits:
  "emits m64 (\<lambda>ud. emitStoreAHToFlags ud)
    (Insn False False M_sahf [])"
  by (intro emitsI [where bs = "[cbyte 0x9e]"],
    (simp add: decode_simps), (simp add: emitStoreAHToFlags_def emit_eval; simp add: emit_ac))

lemma emitReturn_emits:
  "emits m64 (\<lambda>ud. emitReturn ud)
    (Insn False False M_ret [])"
  by (intro emitsI [where bs = "[cbyte 0xc3]"],
    (simp add: decode_simps), (simp add: emitReturn_def emit_eval; simp add: emit_ac))

lemma emitPushEflags_emits:
  "emits m64 (\<lambda>ud. emitPushEflags ud)
    (Insn False False M_pushf [])"
  by (intro emitsI [where bs = "[cbyte 0x9c]"],
    (simp add: decode_simps), (simp add: emitPushEflags_def emit_eval; simp add: emit_ac))

lemma emitPopEflags_emits:
  "emits m64 (\<lambda>ud. emitPopEflags ud)
    (Insn False False M_popf [])"
  by (intro emitsI [where bs = "[cbyte 0x9d]"],
    (simp add: decode_simps), (simp add: emitPopEflags_def emit_eval; simp add: emit_ac))

lemma emitMoveImmToRegaddrImm_emits:
  assumes "idx < 8"
  shows "emits m64 (\<lambda>ud. emitMoveImmToRegaddrImm ud val idx off)
    (Insn False False M_mov [Mem 32 (if m64 then 64 else 32) None (Addr (Some idx) None (sint (ucast off :: u32))), Imm (sint (ucast val :: u32))])"
  using assms by (intro emitsI [where bs = "[cbyte 0xc7, modrm 2 0 idx] @ (if idx = 4 then [modrm 0 4 4] else []) @ le_bytes32 (ucast off) @ le_bytes32 (ucast val)"],
    (cases "idx = 4"; simp add: decode_simps), (cases "idx = 4"; simp add: emitMoveImmToRegaddrImm_def emit_eval; simp add: emit_ac))

lemma emitRegIncrement_emits:
  assumes "idx < 8"
  shows "emits False (\<lambda>ud. emitRegIncrement ud idx)
    (Insn False False M_inc [Gpr 32 idx])"
  using lt8_cases [OF assms(1)]
  by (elim disjE; intro emitsI [where bs = "[cbyte (0x40 + idx)]"];
    simp add: decode_simps emitRegIncrement_def emit_eval)

lemma emitSetDirectionFlag_emits:
  "emits m64 (\<lambda>ud. emitSetDirectionFlag ud b)
    (Insn False False (if b then M_std else M_cld) [])"
  by (intro emitsI [where bs = "[cbyte (if b then 0xfd else 0xfc)]"],
    (cases "b"; simp add: decode_simps), (cases "b"; simp add: emitSetDirectionFlag_def emit_eval; simp add: emit_ac))

lemma emitSTOSByte_emits:
  "emits m64 (\<lambda>ud. emitSTOSByte ud b)
    (Insn False b M_stosb [])"
  by (intro emitsI [where bs = "(if b then [cbyte 0xf3] else []) @ [cbyte 0xaa]"],
    (cases "b"; simp add: decode_simps), (cases "b"; simp add: emitSTOSByte_def emit_eval; simp add: emit_ac))

lemma emitSTOSWord_emits:
  "emits m64 (\<lambda>ud. emitSTOSWord ud b)
    (Insn False b M_stos [])"
  by (intro emitsI [where bs = "(if b then [cbyte 0xf3] else []) @ [cbyte 0xab]"],
    (cases "b"; simp add: decode_simps), (cases "b"; simp add: emitSTOSWord_def emit_eval; simp add: emit_ac))

lemma emitMoveString_emits:
  "emits m64 (\<lambda>ud. emitMoveString ud b)
    (Insn False b M_movs [])"
  by (intro emitsI [where bs = "(if b then [cbyte 0xf3] else []) @ [cbyte 0xa5]"],
    (cases "b"; simp add: decode_simps), (cases "b"; simp add: emitMoveString_def emit_eval; simp add: emit_ac))

lemma emitMoveRipImmToSegmentReg_emits:
  assumes "idx < 6" "idx \<noteq> 1" "unat imm < 4294967296"
  shows "emits m64 (\<lambda>ud. emitMoveRipImmToSegmentReg ud imm idx)
    (Insn False False M_mov [Seg idx, Mem 16 (if m64 then 64 else 32) None (if m64 then RipRel (sint (ucast imm :: u32)) else Addr None None (sint (ucast imm :: u32)))])"
  using assms by (intro emitsI [where bs = "[cbyte 0x8e, modrm 0 idx 5] @ le_bytes32 (ucast imm)"],
    (cases "m64"; simp add: decode_simps), (cases "m64"; simp add: emitMoveRipImmToSegmentReg_def emit_eval; simp add: emit_ac))

lemma emitMoveImmToSegmentReg_emits:
  assumes "idx < 6" "idx \<noteq> 1" "unat imm < 4294967296"
  shows "emits m64 (\<lambda>ud. emitMoveImmToSegmentReg ud imm idx)
    (Insn False False M_mov [Seg idx, Mem 16 (if m64 then 64 else 32) None (Addr None None (sint (ucast imm :: u32)))])"
  using assms by (intro emitsI [where bs = "[cbyte 0x8e, modrm 0 idx 4, modrm 0 4 5] @ le_bytes32 (ucast imm)"],
    (cases "m64"; simp add: decode_simps), (cases "m64"; simp add: emitMoveImmToSegmentReg_def emit_eval; simp add: emit_ac))

lemma emitPushSegmentReg_emits:
  assumes "idx < 4" "idx \<noteq> 1"
  shows "emits False (\<lambda>ud. emitPushSegmentReg ud idx)
    (Insn False False M_push [Seg idx])"
  using assms by (intro emitsI [where bs = "[cbyte (6 + 8 * idx)]"],
    (cases "idx = 0"; cases "idx = 2"; cases "idx = 3"; simp add: decode_simps), (cases "idx = 0"; cases "idx = 2"; cases "idx = 3"; simp add: emitPushSegmentReg_def emit_eval; simp add: emit_ac))

lemma emitPopSegmentReg_emits:
  assumes "idx < 4" "idx \<noteq> 1"
  shows "emits False (\<lambda>ud. emitPopSegmentReg ud idx)
    (Insn False False M_pop [Seg idx])"
  using assms by (intro emitsI [where bs = "[cbyte (7 + 8 * idx)]"],
    (cases "idx = 0"; cases "idx = 2"; cases "idx = 3"; simp add: decode_simps), (cases "idx = 0"; cases "idx = 2"; cases "idx = 3"; simp add: emitPopSegmentReg_def emit_eval; simp add: emit_ac))

lemma emitAddByteToRegaddr_emits:
  assumes "idx < 8" "idx \<noteq> 4" "idx \<noteq> 5"
  shows "emits m64 (\<lambda>ud. emitAddByteToRegaddr ud byt idx)
    (Insn False False M_add [Mem 32 (if m64 then 64 else 32) None (Addr (Some idx) None (0)), Imm (sint byt)])"
  using assms by (intro emitsI [where bs = "[cbyte 0x83, modrm 0 0 idx, byt]"],
    (cases "m64"; simp add: decode_simps), (cases "m64"; simp add: emitAddByteToRegaddr_def emit_eval; simp add: emit_ac))

lemma emitMoveRegToRegaddr_emits:
  assumes "idxsrc < 8" "idxdest < 8" "idxdest \<noteq> 4" "idxdest \<noteq> 5"
  shows "emits m64 (\<lambda>ud. emitMoveRegToRegaddr ud idxsrc idxdest)
    (Insn False False M_mov [Mem 32 (if m64 then 64 else 32) None (Addr (Some idxdest) None (0)), Gpr 32 idxsrc])"
  using assms by (intro emitsI [where bs = "[cbyte 0x89, modrm 0 idxsrc idxdest]"],
    (cases "m64"; simp add: decode_simps), (cases "m64"; simp add: emitMoveRegToRegaddr_def emit_eval; simp add: emit_ac))

lemma emitMoveImmToReg_emits:
  assumes "idx < 8" "unat imm < 4294967296"
  shows "emits m64 (\<lambda>ud. emitMoveImmToReg ud imm idx)
    (Insn False False M_mov [Gpr 32 idx, Imm (sint (ucast imm :: u32))])"
  using lt8_cases [OF assms(1)] assms
  by (elim disjE; intro emitsI [where bs = "[cbyte (0xb8 + idx)] @ le_bytes32 (ucast imm)"];
    simp add: decode_simps emitMoveImmToReg_def emit_eval)

lemma emitCallRelative_emits:
  assumes "unat addr < 4294967296" "unat tgt < 4294967296"
  shows "emits m64 (\<lambda>ud. emitCallRelative ud addr tgt)
    (Insn False False M_call [Rel (sint (ucast (tgt - addr - 5) :: u32))])"
  using assms by (intro emitsI [where bs = "[cbyte 0xe8] @ le_bytes32 (ucast (tgt - addr - 5))"],
    (simp add: decode_simps), (simp add: emitCallRelative_def emit_eval; simp add: emit_ac))

lemma emitJumpRelative_emits:
  assumes "fits_s32 addr" "fits_s32 tgt"
  shows "emits m64 (\<lambda>ud. emitJumpRelative ud addr tgt)
    (Insn False False M_jmp [Rel (sint (ucast (tgt - addr - 5) :: u32))])"
  using assms by (intro emitsI [where bs = "[cbyte 0xe9] @ le_bytes32 (ucast (tgt - addr - 5))"],
    (simp add: decode_simps), (simp add: emitJumpRelative_def emit_eval fits_s32_def; simp add: emit_ac))

lemma emitStackPushImm_emits:
  assumes "unat imm < 4294967296"
  shows "emits m64 (\<lambda>ud. emitStackPushImm ud imm)
    (Insn False False M_push [Imm (sint (ucast imm :: u32))])"
  using assms by (intro emitsI [where bs = "[cbyte 0x68] @ le_bytes32 (ucast imm)"],
    (simp add: decode_simps), (simp add: emitStackPushImm_def emit_eval; simp add: emit_ac))

section \<open>32-bit emitters\<close>

lemma emitMoveImmToMem_32_emits:
  "emits False (\<lambda>ud. emitMoveImmToMem_32 ud imm addr)
    (Insn False False M_mov [Mem 32 32 None (Addr None None (sint (ucast addr :: u32))), Imm (sint (ucast imm :: u32))])"
  by (intro emitsI [where bs = "[cbyte 0xc7, modrm 0 0 5] @ le_bytes32 (ucast addr) @ le_bytes32 (ucast imm)"],
    (simp add: decode_simps), (simp add: emitMoveImmToMem_32_def emit_eval; simp add: emit_ac))

lemma emitFxSave_32_emits:
  "emits False (\<lambda>ud. emitFxSave_32 ud addr)
    (Insn False False M_fxsave [Mem 4096 32 None (Addr None None (sint (ucast addr :: u32)))])"
  by (intro emitsI [where bs = "[cbyte 0x0f, cbyte 0xae, modrm 0 0 5] @ le_bytes32 (ucast addr)"],
    (simp add: decode_simps), (simp add: emitFxSave_32_def emit_eval; simp add: emit_ac))

lemma emitFxRstor_32_emits:
  "emits False (\<lambda>ud. emitFxRstor_32 ud addr)
    (Insn False False M_fxrstor [Mem 4096 32 None (Addr None None (sint (ucast addr :: u32)))])"
  by (intro emitsI [where bs = "[cbyte 0x0f, cbyte 0xae, modrm 0 1 5] @ le_bytes32 (ucast addr)"],
    (simp add: decode_simps), (simp add: emitFxRstor_32_def emit_eval; simp add: emit_ac))

lemma emitMoveSegmentRegToReg_32_emits:
  assumes "src < 6" "dest < 8"
  shows "emits False (\<lambda>ud. emitMoveSegmentRegToReg_32 ud src dest)
    (Insn False False M_mov [Gpr 32 dest, Seg src])"
  using assms by (intro emitsI [where bs = "[cbyte 0x8c, modrm 3 src dest]"],
    (simp add: decode_simps), (simp add: emitMoveSegmentRegToReg_32_def emit_eval; simp add: emit_ac))

lemma emitExchangeMemReg_32_emits:
  assumes "idx < 8"
  shows "emits False (\<lambda>ud. emitExchangeMemReg_32 ud addr idx)
    (Insn False False M_xchg [Mem 32 32 None (Addr None None (sint (ucast addr :: u32))), Gpr 32 idx])"
  using assms by (intro emitsI [where bs = "[cbyte 0x87, modrm 0 idx 5] @ le_bytes32 (ucast addr)"],
    (simp add: decode_simps), (simp add: emitExchangeMemReg_32_def emit_eval; simp add: emit_ac))

lemma emitLoadRegImmReg_32_emits:
  assumes "idxsrc < 8" "idxdest < 8"
  shows "emits False (\<lambda>ud. emitLoadRegImmReg_32 ud idxsrc imm idxdest)
    (Insn False False M_lea [Gpr 32 idxsrc, Mem 0 32 None (Addr (Some idxdest) None (sint (ucast imm :: u32)))])"
  using assms by (intro emitsI [where bs = "[cbyte 0x8d, modrm 2 idxsrc idxdest] @ (if idxdest = 4 then [modrm 0 4 4] else []) @ le_bytes32 (ucast imm)"],
    (cases "idxdest = 4"; simp add: decode_simps), (cases "idxdest = 4"; simp add: emitLoadRegImmReg_32_def emit_eval; simp add: emit_ac))

lemma emitShiftRightLogical_32_emits:
  assumes "reg < 8"
  shows "emits False (\<lambda>ud. emitShiftRightLogical_32 ud imm reg)
    (Insn False False M_shr [Gpr 32 reg, Imm (sint imm)])"
  using assms by (intro emitsI [where bs = "[cbyte 0xc1, modrm 3 5 reg, imm]"],
    (simp add: decode_simps), (simp add: emitShiftRightLogical_32_def emit_eval; simp add: emit_ac))

lemma emitShiftLeftLogical_32_emits:
  assumes "reg < 8"
  shows "emits False (\<lambda>ud. emitShiftLeftLogical_32 ud imm reg)
    (Insn False False M_shl [Gpr 32 reg, Imm (sint imm)])"
  using assms by (intro emitsI [where bs = "[cbyte 0xc1, modrm 3 4 reg, imm]"],
    (simp add: decode_simps), (simp add: emitShiftLeftLogical_32_def emit_eval; simp add: emit_ac))

lemma emitCompareImmReg_32_emits:
  assumes "reg < 8" "unat imm < 4294967296"
  shows "emits False (\<lambda>ud. emitCompareImmReg_32 ud imm reg)
    (Insn False False M_cmp [Gpr 32 reg, Imm (sint (ucast imm :: u32))])"
  using assms by (intro emitsI [where bs = "[cbyte 0x81, modrm 3 7 reg] @ le_bytes32 (ucast imm)"],
    (simp add: decode_simps), (simp add: emitCompareImmReg_32_def emit_eval; simp add: emit_ac))

lemma emitMoveRegToReg_32_emits:
  assumes "srcreg < 8" "destreg < 8"
  shows "emits False (\<lambda>ud. emitMoveRegToReg_32 ud srcreg destreg)
    (Insn False False M_mov [Gpr 32 destreg, Gpr 32 srcreg])"
  using assms by (intro emitsI [where bs = "[cbyte 0x89, modrm 3 srcreg destreg]"],
    (simp add: decode_simps), (simp add: emitMoveRegToReg_32_def emit_eval; simp add: emit_ac))

lemma emitRegAddReg2OpForm_32_emits:
  assumes "srcdestreg < 8" "srcreg < 8"
  shows "emits False (\<lambda>ud. emitRegAddReg2OpForm_32 ud srcdestreg srcreg)
    (Insn False False M_add [Gpr 32 srcreg, Gpr 32 srcdestreg])"
  using assms by (intro emitsI [where bs = "[cbyte 0x01, modrm 3 srcdestreg srcreg]"],
    (simp add: decode_simps), (simp add: emitRegAddReg2OpForm_32_def emit_eval; simp add: emit_ac))

lemma emitXorRegReg_32_emits:
  assumes "src < 8" "tgt < 8"
  shows "emits False (\<lambda>ud. emitXorRegReg_32 ud src tgt)
    (Insn False False M_xor [Gpr 32 tgt, Gpr 32 src])"
  using assms by (intro emitsI [where bs = "[cbyte 0x31, modrm 3 src tgt]"],
    (simp add: decode_simps), (simp add: emitXorRegReg_32_def emit_eval; simp add: emit_ac))

lemma emitRegImm1ByteMultReg_32_emits:
  assumes "src < 8" "dest < 8"
  shows "emits False (\<lambda>ud. emitRegImm1ByteMultReg_32 ud src imm dest)
    (Insn False False M_imul [Gpr 32 dest, Gpr 32 src, Imm (sint imm)])"
  using assms by (intro emitsI [where bs = "[cbyte 0x6b, modrm 3 dest src, imm]"],
    (simp add: decode_simps), (simp add: emitRegImm1ByteMultReg_32_def emit_eval; simp add: emit_ac))

lemma emitRegAddImm_32_emits:
  assumes "idx < 8"
  shows "emits False (\<lambda>ud. emitRegAddImm_32 ud idx imm)
    (Insn False False M_add [Gpr 32 idx, Imm (sint imm)])"
  using assms by (intro emitsI [where bs = "[cbyte 0x81, modrm 3 0 idx] @ le_bytes32 imm"],
    (simp add: decode_simps), (simp add: emitRegAddImm_32_def emit_eval; simp add: emit_ac))

lemma emitRegSubImm_32_emits:
  assumes "0 < idx" "idx < 8"
  shows "emits False (\<lambda>ud. emitRegSubImm_32 ud idx imm)
    (Insn False False M_sub [Gpr 32 idx, Imm (sint imm)])"
  using assms by (intro emitsI [where bs = "[cbyte 0x81, modrm 3 5 idx] @ le_bytes32 imm"],
    (simp add: decode_simps), (simp add: emitRegSubImm_32_def emit_eval; simp add: emit_ac))

lemma emitAddImmByteToMem_32_emits:
  "emits False (\<lambda>ud. emitAddImmByteToMem_32 ud imm addr)
    (Insn False False M_add [Mem 32 32 None (Addr None None (sint (ucast addr :: u32))), Imm (sint imm)])"
  by (intro emitsI [where bs = "[cbyte 0x83, modrm 0 0 5] @ le_bytes32 (ucast addr) @ [imm]"],
    (simp add: decode_simps), (simp add: emitAddImmByteToMem_32_def emit_eval; simp add: emit_ac))

lemma emitSubImmByteToMem_32_emits:
  "emits False (\<lambda>ud. emitSubImmByteToMem_32 ud imm addr)
    (Insn False False M_sub [Mem 32 32 None (Addr None None (sint (ucast addr :: u32))), Imm (sint imm)])"
  by (intro emitsI [where bs = "[cbyte 0x83, modrm 0 5 5] @ le_bytes32 (ucast addr) @ [imm]"],
    (simp add: decode_simps), (simp add: emitSubImmByteToMem_32_def emit_eval; simp add: emit_ac))

lemma emitMoveRegaddrImmToReg_32_emits:
  assumes "idxsrc < 8" "idxdest < 8"
  shows "emits False (\<lambda>ud. emitMoveRegaddrImmToReg_32 ud idxsrc imm idxdest)
    (Insn False False M_mov [Gpr 32 idxdest, Mem 32 32 None (Addr (Some idxsrc) None (sint (ucast imm :: u32)))])"
  using assms by (intro emitsI [where bs = "[cbyte 0x8b, modrm 2 idxdest idxsrc] @ (if idxsrc = 4 then [modrm 0 4 4] else []) @ le_bytes32 (ucast imm)"],
    (cases "idxsrc = 4"; simp add: decode_simps), (cases "idxsrc = 4"; simp add: emitMoveRegaddrImmToReg_32_def emit_eval; simp add: emit_ac))

lemma emitMoveRegToRegaddrImm_32_emits:
  assumes "idxsrc < 8" "idxdest < 8"
  shows "emits False (\<lambda>ud. emitMoveRegToRegaddrImm_32 ud idxsrc idxdest imm)
    (Insn False False M_mov [Mem 32 32 None (Addr (Some idxdest) None (sint (ucast imm :: u32))), Gpr 32 idxsrc])"
  using assms by (intro emitsI [where bs = "[cbyte 0x89, modrm 2 idxsrc idxdest] @ (if idxdest = 4 then [modrm 0 4 4] else []) @ le_bytes32 (ucast imm)"],
    (cases "idxdest = 4"; simp add: decode_simps), (cases "idxdest = 4"; simp add: emitMoveRegToRegaddrImm_32_def emit_eval; simp add: emit_ac))

lemma emitMoveRegaddrToReg_32_emits:
  assumes "srcidx < 8" "srcidx \<noteq> 4" "srcidx \<noteq> 5" "destidx < 8"
  shows "emits False (\<lambda>ud. emitMoveRegaddrToReg_32 ud srcidx destidx)
    (Insn False False M_mov [Gpr 32 destidx, Mem 32 32 None (Addr (Some srcidx) None (0))])"
  using assms by (intro emitsI [where bs = "[cbyte 0x8b, modrm 0 destidx srcidx]"],
    (simp add: decode_simps), (simp add: emitMoveRegaddrToReg_32_def emit_eval; simp add: emit_ac))

lemma emitMoveRegToMem_32_emits:
  assumes "idx < 8" "unat addr < 4294967296"
  shows "emits False (\<lambda>ud. emitMoveRegToMem_32 ud idx addr)
    (Insn False False M_mov [Mem 32 32 None (Addr None None (sint (ucast addr :: u32))), Gpr 32 idx])"
  using assms by (intro emitsI [where bs = "(if idx = 0 then [cbyte 0xa3] else [cbyte 0x89, modrm 0 idx 5]) @ le_bytes32 (ucast addr)"],
    (cases "idx = 0"; simp add: decode_simps), (cases "idx = 0"; simp add: emitMoveRegToMem_32_def emit_eval; simp add: emit_ac))

lemma emitMoveMemToReg_32_emits:
  assumes "idx < 8" "unat addr < 4294967296"
  shows "emits False (\<lambda>ud. emitMoveMemToReg_32 ud addr idx)
    (Insn False False M_mov [Gpr 32 idx, Mem 32 32 None (Addr None None (sint (ucast addr :: u32)))])"
  using assms by (intro emitsI [where bs = "(if idx = 0 then [cbyte 0xa1] else [cbyte 0x8b, modrm 0 idx 5]) @ le_bytes32 (ucast addr)"],
    (cases "idx = 0"; simp add: decode_simps), (cases "idx = 0"; simp add: emitMoveMemToReg_32_def emit_eval; simp add: emit_ac))

lemma emitStackPush_32_emits:
  assumes "idx < 8"
  shows "emits False (\<lambda>ud. emitStackPush_32 ud idx)
    (Insn False False M_push [Gpr 32 idx])"
  using lt8_cases [OF assms(1)]
  by (elim disjE; intro emitsI [where bs = "[cbyte (0x50 + idx)]"];
    simp add: decode_simps emitStackPush_32_def emit_eval)

lemma emitStackPop_32_emits:
  assumes "idx < 8"
  shows "emits False (\<lambda>ud. emitStackPop_32 ud idx)
    (Insn False False M_pop [Gpr 32 idx])"
  using lt8_cases [OF assms(1)]
  by (elim disjE; intro emitsI [where bs = "[cbyte (0x58 + idx)]"];
    simp add: decode_simps emitStackPop_32_def emit_eval)

lemma emitJumpIndirect_32_emits:
  assumes "unat tgt < 4294967296"
  shows "emits False (\<lambda>ud. emitJumpIndirect_32 ud tgt)
    (Insn False False M_jmp [Mem 32 32 None (Addr None None (sint (ucast tgt :: u32)))])"
  using assms by (intro emitsI [where bs = "[cbyte 0xff, modrm 0 4 5] @ le_bytes32 (ucast tgt)"],
    (simp add: decode_simps), (simp add: emitJumpIndirect_32_def emit_eval; simp add: emit_ac))

section \<open>Load effective address\<close>

lemma lea_scale_32:
  assumes "scale \<in> {1, 2, 4, 8}"
  shows "\<exists>k < 4. lea_scale scale = Inr (64 * k) \<and> isPowerOfTwo (ucast scale) \<and> scale \<noteq> 0 \<and> scale \<le> 8 \<and> unat scale = 2 ^ k"
proof -
  have "lea_scale 1 = Inr (64 * 0)" "lea_scale 2 = Inr (64 * 1)" "lea_scale 4 = Inr (64 * 2)" "lea_scale 8 = Inr (64 * 3)"
    "isPowerOfTwo (ucast (1 :: byte))" "isPowerOfTwo (ucast (2 :: byte))"
    "isPowerOfTwo (ucast (4 :: byte))" "isPowerOfTwo (ucast (8 :: byte))"
    by code_simp+
  with assms show ?thesis
    by (elim insertE emptyE) (rule exI [of _ "0 :: nat"], simp, rule exI [of _ "1 :: nat"], simp,
      rule exI [of _ "2 :: nat"], simp, rule exI [of _ "3 :: nat"], simp)
qed

lemma lea32_index_emits:
  assumes "dest < 8" "baseReg < 8" "indexReg < 8" "k < 4"
    and "lea_scale scale = Inr (64 * k)" and "isPowerOfTwo (ucast scale)" and "scale \<noteq> 0" and "scale \<le> 8"
  shows "emits False (\<lambda>ud. emitLoadEffectiveAddress_32 ud baseReg indexReg scale value dest hasBase True)
    (Insn False False M_lea [Gpr 32 dest, Mem 0 32 None (Addr (if hasBase then Some baseReg else None)
      (if indexReg \<noteq> 4 then Some (indexReg, 2 ^ k) else None) (sint (ucast value :: u32)))])"
proof (cases "hasBase \<and> value = 0")
  case True
  then show ?thesis using assms
    by (intro emitsI [where bs = "[cbyte 0x8d, modrm (if baseReg = 5 then 1 else 0) dest 4, modrm k indexReg baseReg]
        @ (if baseReg = 5 then [cbyte 0] else [])"],
      (cases "baseReg = 5"; cases "indexReg = 4"; simp add: decode_simps),
      (cases "baseReg = 5"; simp add: emitLoadEffectiveAddress_32_def emit_eval; simp add: emit_ac))
next
  case False
  then show ?thesis using assms
    by (intro emitsI [where bs = "[cbyte 0x8d, modrm (if hasBase then 2 else 0) dest 4, modrm k indexReg (if hasBase then baseReg else 5)]
        @ le_bytes32 (ucast value)"],
      (cases hasBase; cases "indexReg = 4"; simp add: decode_simps),
      (cases hasBase; simp add: emitLoadEffectiveAddress_32_def emit_eval; simp add: emit_ac))
qed

lemma lea32_no_index_emits:
  assumes "dest < 8" "baseReg < 8" "indexReg < 8"
    and "isPowerOfTwo (ucast scale)" and "scale \<noteq> 0" and "scale \<le> 8"
  shows "emits False (\<lambda>ud. emitLoadEffectiveAddress_32 ud baseReg indexReg scale value dest hasBase False)
    (Insn False False M_lea [Gpr 32 dest, Mem 0 32 None (Addr (if hasBase then Some baseReg else None)
      None (sint (ucast value :: u32)))])"
proof (cases hasBase)
  case True
  then show ?thesis using assms
    by (intro emitsI [where bs = "[cbyte 0x8d, modrm 2 dest baseReg] @ (if baseReg = 4 then [modrm 0 4 4] else [])
        @ le_bytes32 (ucast value)"],
      (cases "baseReg = 4"; simp add: decode_simps),
      (cases "baseReg = 4"; simp add: emitLoadEffectiveAddress_32_def emit_eval; simp add: emit_ac))
next
  case False
  then show ?thesis using assms
    by (intro emitsI [where bs = "[cbyte 0x8d, modrm 0 dest 4, modrm 0 4 5] @ le_bytes32 (ucast value)"],
      (simp add: decode_simps), (simp add: emitLoadEffectiveAddress_32_def emit_eval; simp add: emit_ac))
qed

lemma emitLoadEffectiveAddress_32_emits:
  assumes "dest < 8" "baseReg < 8" "indexReg < 8" and "scale \<in> {1, 2, 4, 8}"
  shows "emits False (\<lambda>ud. emitLoadEffectiveAddress_32 ud baseReg indexReg scale value dest hasBase hasIndex)
    (Insn False False M_lea [Gpr 32 dest, Mem 0 32 None (Addr (if hasBase then Some baseReg else None)
      (if hasIndex \<and> indexReg \<noteq> 4 then Some (indexReg, unat scale) else None) (sint (ucast value :: u32)))])"
  using lea_scale_32 [OF assms(4)] lea32_index_emits [OF assms(1-3), of _ scale "value" hasBase]
    lea32_no_index_emits [OF assms(1-3), of scale "value" hasBase]
  by (cases hasIndex) auto

section \<open>Byte moves and interrupts\<close>

lemma sint_get16_byte: "get16 (b # cbyte 0 # bs) = Some (uint b, bs)"
proof -
  have n: "unat (ucast b :: u16) = unat b"
    using byte_lt [of b] by (simp add: unat_ucast del: byte_lt)
  then have i: "uint (ucast b :: u16) = uint b" by (simp only: uint_nat)
  have "signed_take_bit 15 (int k) = int k" if "k < 256" for k
    by (rule signed_take_bit_int_eq_self) (use that in simp_all)
  from this [OF byte_lt [of b]] have "sint (ucast b :: u16) = uint b" by (simp add: sint_uint i)
  then show ?thesis by (simp add: get16_def)
qed

lemma emitMoveImmByteToReg_emits:
  assumes "idx < 8"
  shows "emits m64 (\<lambda>ud. emitMoveImmByteToReg ud imm idx)
    (if idx \<le> 3 then Insn False False M_mov [Gpr 8 idx, Imm (sint imm)]
     else Insn False False M_mov [Gpr 16 idx, Imm (uint imm)])"
  using lt8_cases [OF assms]
  by (elim disjE; intro emitsI [where bs = "if idx \<le> 3 then [cbyte (0xb0 + idx), imm] else [cbyte 0x66, cbyte (0xb8 + idx), imm, cbyte 0]"];
    simp add: decode_simps sint_get16_byte emitMoveImmByteToReg_def emit_eval)

lemma emitInterrupt_emits:
  assumes "v < 256" and "v = 4 \<longrightarrow> \<not> m64"
  shows "emits m64 (\<lambda>ud. emitInterrupt ud v)
    (if v = 3 then Insn False False M_int3 [] else if v = 4 then Insn False False M_into []
     else Insn False False M_int [Imm (sint (cbyte v))])"
  using assms
  by (intro emitsI [where bs = "if v = 3 then [cbyte 0xcc] else if v = 4 then [cbyte 0xce] else [cbyte 0xcd, cbyte v]"],
    (cases "v = 3"; cases "v = 4"; simp add: decode_simps),
    (cases "v = 3"; cases "v = 4"; simp add: emitInterrupt_def emit_eval))

lemma emitNop1_emits_any: "emits m64 emitNop1 (Insn False False M_nop [])"
  by (intro emitsI [where bs = "[cbyte 0x90]"], simp add: decode_simps)
    (simp add: emitNop1_def emitNop_def emitNop_bytes_def emit_eval)

section \<open>No-ops\<close>

definition is_nop :: "bool \<Rightarrow> byte list \<Rightarrow> bool" where
  "is_nop m64 bs \<longleftrightarrow> (\<exists>ops. encodes m64 bs (Insn False False M_nop ops))"

lemma le8_cases: "1 \<le> n \<Longrightarrow> n \<le> 8 \<Longrightarrow> n = 1 \<or> n = 2 \<or> n = 3 \<or> n = 4 \<or> n = 5 \<or> n = 6 \<or> n = 7 \<or> n = (8 :: nat)"
  by presburger

lemma emitNop_bytes_length: "1 \<le> n \<Longrightarrow> n \<le> 8 \<Longrightarrow> length (emitNop_bytes n) = n"
  by (drule (1) le8_cases) (elim disjE; simp add: emitNop_bytes_def)

lemma emitNop_is_nop:
  assumes "1 \<le> n" "n \<le> 8"
  shows "is_nop m64 (map cbyte (emitNop_bytes n))"
  using le8_cases [OF assms]
  by (elim disjE; simp add: is_nop_def emitNop_bytes_def decode_simps mod_f_def rm_f_def reg_f_def get32_def;
    cases m64; simp)

lemma wr_list_eq:
  "j + length vs \<le> length xs \<Longrightarrow>
   wr_list (Inr xs) j vs = Inr (take j xs @ map (\<lambda>v. Some (cbyte v)) vs @ drop (j + length vs) xs)"
proof (induction vs arbitrary: j xs)
  case Nil
  then show ?case by simp
next
  case (Cons v vs)
  then have j: "j < length xs" by simp
  have "take (Suc j) (xs[j := Some (cbyte v)]) = take j xs @ [Some (cbyte v)]"
    using j by (simp add: take_Suc_conv_app_nth)
  then show ?case using Cons by (simp add: wr_Inr)
qed

lemma emitNop_eq:
  assumes "1 \<le> n" "n \<le> 8"
  shows "hands_over (\<lambda>ud. emitNop ud n) (map cbyte (emitNop_bytes n))"
proof (rule hands_overI)
  show "map cbyte (emitNop_bytes n) \<noteq> []" using emitNop_bytes_length [OF assms] assms(1) by auto
  show "emitNop ud n = emit_bytes ud (map Some (map cbyte (emitNop_bytes n)))" for ud
    using assms emitNop_bytes_length [OF assms]
    by (simp add: emitNop_def x86_consts new_buff_def wr_list_eq emit_bytes_def Let_def comp_def)
qed

text \<open>A disassembler that reports the right length of the no-ops, with operands and flags that are accepted.\<close>

definition nop_ud :: "disassembler \<Rightarrow> bool" where
  "nop_ud ud \<longleftrightarrow> (\<forall>n. 1 \<le> n \<and> n \<le> 8 \<longrightarrow>
     ud_length (ud (map cbyte (emitNop_bytes n))) = n \<and> accept (ud (map cbyte (emitNop_bytes n))) = Inr ())"

lemma emitNop_value:
  assumes "nop_ud ud" "1 \<le> n" "n \<le> 8"
  shows "emitNop ud n = Inr (emitted (map cbyte (emitNop_bytes n)))"
  using emitNop_eq [OF assms(2,3)] emitNop_bytes_length [OF assms(2,3)] assms
  by (simp add: hands_over_def nop_ud_def)

definition total_bytes :: "X86Instruction list \<Rightarrow> nat" where
  "total_bytes xs = sum_list (map xi_sizeInBytes xs)"

definition all_nops :: "X86Instruction list \<Rightarrow> bool" where
  "all_nops xs \<longleftrightarrow> (\<forall>x \<in> set xs. (\<forall>m64. is_nop m64 (xi_rawBytes x)) \<and> xi_sizeInBytes x \<le> 8)"

lemma nopSeries_while_value:
  assumes "nop_ud ud" "i < 8" "all_nops s"
  shows "\<exists>t. nopSeries_while ud i len s = Inr (len mod (i + 1), t) \<and> all_nops t \<and>
    total_bytes t + len mod (i + 1) = total_bytes s + len"
  using assms(3)
proof (induction len arbitrary: s rule: less_induct)
  case (less len)
  show ?case
  proof (cases "i < len")
    case False
    then show ?thesis using less.prems by (subst nopSeries_while.simps) simp
  next
    case True
    let ?x = "emitted (map cbyte (emitNop_bytes (i + 1)))"
    have e: "emitNop ud (i + 1) = Inr ?x" using assms(1,2) by (intro emitNop_value) simp_all
    have sz: "xi_sizeInBytes ?x = i + 1" using assms(2) by (simp add: emitted_def emitNop_bytes_length)
    have "all_nops (s @ [?x])"
      using less.prems emitNop_is_nop [of "i + 1"] assms(2) sz by (auto simp: all_nops_def emitted_def)
    from less.IH [OF _ this, of "len - (i + 1)"] True
    obtain t where "nopSeries_while ud i (len - (i + 1)) (s @ [?x]) = Inr (len mod (i + 1), t)"
      "all_nops t" "total_bytes t + len mod (i + 1) = total_bytes (s @ [?x]) + (len - (i + 1))"
      by (auto simp: le_mod_geq)
    then show ?thesis using True e sz by (subst nopSeries_while.simps) (simp add: total_bytes_def)
  qed
qed

lemma nopSeries_for_value:
  assumes "nop_ud ud" "n \<le> 8" "all_nops s" "0 < n"
  shows "\<exists>t. nopSeries_for ud n len s = Inr (0, t) \<and> all_nops t \<and> total_bytes t = total_bytes s + len"
  using assms(2,3,4)
proof (induction n arbitrary: len s)
  case 0
  then show ?case by simp
next
  case (Suc i)
  then have "i < 8" by simp
  from nopSeries_while_value [OF assms(1) this Suc.prems(2), of len]
  obtain t where t: "nopSeries_while ud i len s = Inr (len mod (i + 1), t)" "all_nops t"
    "total_bytes t + len mod (i + 1) = total_bytes s + len" by blast
  show ?case
  proof (cases "i = 0")
    case True
    then show ?thesis using t by simp
  next
    case False
    with Suc.IH [of t "len mod (i + 1)"] Suc.prems t(2) obtain u where
      "nopSeries_for ud i (len mod (i + 1)) t = Inr (0, u)" "all_nops u"
      "total_bytes u = total_bytes t + len mod (i + 1)" by auto
    then show ?thesis using t by simp
  qed
qed

section \<open>Properties\<close>

text \<open>
  C26. The emitters shared by both widths that are listed produce, in 32-bit and in 64-bit code, the branch, stack, flag,
  string, interrupt, segment, move and one-byte no-op instructions they are named after. The moves and additions through a
  register without displacement are not for the bases \<open>esp\<close> and \<open>ebp\<close>. The increment and the push and
  pop of a segment register are for 32-bit code, where \<open>es\<close>, \<open>ss\<close> and \<open>ds\<close> can be pushed and
  popped (\<open>fs\<close> and \<open>gs\<close> cannot: \<open>emit_segment_fs_gs_truncated\<close>), and \<open>cs\<close> is never loaded.
  \<open>emitMoveImmByteToReg\<close> moves one byte into the registers 0 to 3 and 16 bits into the others,
  and \<open>emitMoveRipImmToSegmentReg\<close> is relative to the instruction in 64-bit code only.
\<close>

theorem emit_common_correct:
  assumes "unat v < 4294967296" "r < 8" "s < 8" "s \<noteq> 4" "s \<noteq> 5" "g < 6" "g \<noteq> 1" "n < 256"
  shows
   "emits m64 (\<lambda>ud. emitBranchJNE ud v) (Insn False False (M_jcc 5) [Rel (sint (ucast v :: u32))]) \<and>
    emits m64 (\<lambda>ud. emitBranchJE ud v) (Insn False False (M_jcc 4) [Rel (sint (ucast v :: u32))]) \<and>
    emits m64 (\<lambda>ud. emitBranchJL ud v) (Insn False False (M_jcc 12) [Rel (sint (ucast v :: u32))]) \<and>
    emits m64 emitReturn (Insn False False M_ret []) \<and>
    emits m64 emitPushEflags (Insn False False M_pushf []) \<and>
    emits m64 emitPopEflags (Insn False False M_popf []) \<and>
    emits m64 emitLoadAHFromFlags (Insn False False M_lahf []) \<and>
    emits m64 emitStoreAHToFlags (Insn False False M_sahf []) \<and>
    emits m64 emitNop1 (Insn False False M_nop []) \<and>
    emits m64 (\<lambda>ud. emitSetDirectionFlag ud b) (Insn False False (if b then M_std else M_cld) []) \<and>
    emits m64 (\<lambda>ud. emitSTOSByte ud b) (Insn False b M_stosb []) \<and>
    emits m64 (\<lambda>ud. emitSTOSWord ud b) (Insn False b M_stos []) \<and>
    emits m64 (\<lambda>ud. emitMoveString ud b) (Insn False b M_movs []) \<and>
    ((n = 4 \<longrightarrow> \<not> m64) \<longrightarrow> emits m64 (\<lambda>ud. emitInterrupt ud n)
      (if n = 3 then Insn False False M_int3 [] else if n = 4 then Insn False False M_into []
       else Insn False False M_int [Imm (sint (cbyte n))])) \<and>
    emits m64 (\<lambda>ud. emitStackPushImm ud v) (Insn False False M_push [Imm (sint (ucast v :: u32))]) \<and>
    emits m64 (\<lambda>ud. emitMoveImmToReg ud v r) (Insn False False M_mov [Gpr 32 r, Imm (sint (ucast v :: u32))]) \<and>
    (\<not> m64 \<longrightarrow> emits m64 (\<lambda>ud. emitRegIncrement ud r) (Insn False False M_inc [Gpr 32 r])) \<and>
    emits m64 (\<lambda>ud. emitMoveImmToRegaddrImm ud w r off)
      (Insn False False M_mov [Mem 32 (if m64 then 64 else 32) None (Addr (Some r) None (sint (ucast off :: u32))),
         Imm (sint (ucast w :: u32))]) \<and>
    emits m64 (\<lambda>ud. emitMoveRegToRegaddr ud r s)
      (Insn False False M_mov [Mem 32 (if m64 then 64 else 32) None (Addr (Some s) None 0), Gpr 32 r]) \<and>
    emits m64 (\<lambda>ud. emitAddByteToRegaddr ud i8 s)
      (Insn False False M_add [Mem 32 (if m64 then 64 else 32) None (Addr (Some s) None 0), Imm (sint i8)]) \<and>
    emits m64 (\<lambda>ud. emitMoveImmToSegmentReg ud v g)
      (Insn False False M_mov [Seg g, Mem 16 (if m64 then 64 else 32) None (Addr None None (sint (ucast v :: u32)))]) \<and>
    emits m64 (\<lambda>ud. emitMoveRipImmToSegmentReg ud v g)
      (Insn False False M_mov [Seg g, Mem 16 (if m64 then 64 else 32) None
         (if m64 then RipRel (sint (ucast v :: u32)) else Addr None None (sint (ucast v :: u32)))]) \<and>
    (\<not> m64 \<and> g < 4 \<longrightarrow> emits m64 (\<lambda>ud. emitPushSegmentReg ud g) (Insn False False M_push [Seg g])) \<and>
    (\<not> m64 \<and> g < 4 \<longrightarrow> emits m64 (\<lambda>ud. emitPopSegmentReg ud g) (Insn False False M_pop [Seg g])) \<and>
    emits m64 (\<lambda>ud. emitMoveImmByteToReg ud i8 r)
      (if r \<le> 3 then Insn False False M_mov [Gpr 8 r, Imm (sint i8)]
       else Insn False False M_mov [Gpr 16 r, Imm (uint i8)])"
proof -
  note e = emitRegIncrement_emits [OF assms(2)] emitPushSegmentReg_emits [OF _ assms(7)] emitPopSegmentReg_emits [OF _ assms(7)]
  have "(\<not> m64 \<longrightarrow> emits m64 (\<lambda>ud. emitRegIncrement ud r) (Insn False False M_inc [Gpr 32 r]))"
    "(\<not> m64 \<and> g < 4 \<longrightarrow> emits m64 (\<lambda>ud. emitPushSegmentReg ud g) (Insn False False M_push [Seg g]))"
    "(\<not> m64 \<and> g < 4 \<longrightarrow> emits m64 (\<lambda>ud. emitPopSegmentReg ud g) (Insn False False M_pop [Seg g]))"
    using e by auto
  then show ?thesis
    using assms
    by (intro conjI emitBranchJNE_emits emitBranchJE_emits emitBranchJL_emits emitReturn_emits emitPushEflags_emits
        emitPopEflags_emits emitLoadAHFromFlags_emits emitStoreAHToFlags_emits emitSetDirectionFlag_emits
        emitSTOSByte_emits emitSTOSWord_emits emitMoveString_emits emitStackPushImm_emits emitMoveImmToReg_emits
        emitMoveImmToRegaddrImm_emits emitMoveRegToRegaddr_emits emitAddByteToRegaddr_emits emitNop1_emits_any
        emitMoveImmToSegmentReg_emits emitMoveRipImmToSegmentReg_emits emitMoveImmByteToReg_emits impI emitInterrupt_emits) auto
qed

theorem emit_common_correct_witness:
  "emits True (\<lambda>ud. emitBranchJNE ud 0x10) (Insn False False (M_jcc 5) [Rel 16])"
  using emit_common_correct [of "0x10" 0 0 0 0] by simp

text \<open>
  C27. The 32-bit emitters listed, with register, immediate, segment and memory operands, produce the instruction
  they are named after, for all eight registers; only subtraction of an immediate is not for \<open>eax\<close>
  and the load through a register without displacement not for the bases \<open>esp\<close> and \<open>ebp\<close>.
\<close>

theorem emit_factory32_correct:
  assumes "r < 8" "s < 8" "unat a < 4294967296" "g < 6"
  shows
   "emits False (\<lambda>ud. emitMoveRegToReg_32 ud s r) (Insn False False M_mov [Gpr 32 r, Gpr 32 s]) \<and>
    emits False (\<lambda>ud. emitRegAddReg2OpForm_32 ud s r) (Insn False False M_add [Gpr 32 r, Gpr 32 s]) \<and>
    emits False (\<lambda>ud. emitXorRegReg_32 ud s r) (Insn False False M_xor [Gpr 32 r, Gpr 32 s]) \<and>
    emits False (\<lambda>ud. emitRegAddImm_32 ud r imm) (Insn False False M_add [Gpr 32 r, Imm (sint imm)]) \<and>
    (r \<noteq> 0 \<longrightarrow> emits False (\<lambda>ud. emitRegSubImm_32 ud r imm) (Insn False False M_sub [Gpr 32 r, Imm (sint imm)])) \<and>
    emits False (\<lambda>ud. emitCompareImmReg_32 ud a r) (Insn False False M_cmp [Gpr 32 r, Imm (sint (ucast a :: u32))]) \<and>
    emits False (\<lambda>ud. emitShiftLeftLogical_32 ud i8 r) (Insn False False M_shl [Gpr 32 r, Imm (sint i8)]) \<and>
    emits False (\<lambda>ud. emitShiftRightLogical_32 ud i8 r) (Insn False False M_shr [Gpr 32 r, Imm (sint i8)]) \<and>
    emits False (\<lambda>ud. emitRegImm1ByteMultReg_32 ud s i8 r) (Insn False False M_imul [Gpr 32 r, Gpr 32 s, Imm (sint i8)]) \<and>
    emits False (\<lambda>ud. emitStackPush_32 ud r) (Insn False False M_push [Gpr 32 r]) \<and>
    emits False (\<lambda>ud. emitStackPop_32 ud r) (Insn False False M_pop [Gpr 32 r]) \<and>
    emits False (\<lambda>ud. emitMoveRegToMem_32 ud r a)
      (Insn False False M_mov [Mem 32 32 None (Addr None None (sint (ucast a :: u32))), Gpr 32 r]) \<and>
    emits False (\<lambda>ud. emitMoveMemToReg_32 ud a r)
      (Insn False False M_mov [Gpr 32 r, Mem 32 32 None (Addr None None (sint (ucast a :: u32)))]) \<and>
    emits False (\<lambda>ud. emitExchangeMemReg_32 ud a r)
      (Insn False False M_xchg [Mem 32 32 None (Addr None None (sint (ucast a :: u32))), Gpr 32 r]) \<and>
    emits False (\<lambda>ud. emitMoveImmToMem_32 ud v a)
      (Insn False False M_mov [Mem 32 32 None (Addr None None (sint (ucast a :: u32))), Imm (sint (ucast v :: u32))]) \<and>
    emits False (\<lambda>ud. emitAddImmByteToMem_32 ud i8 a)
      (Insn False False M_add [Mem 32 32 None (Addr None None (sint (ucast a :: u32))), Imm (sint i8)]) \<and>
    emits False (\<lambda>ud. emitSubImmByteToMem_32 ud i8 a)
      (Insn False False M_sub [Mem 32 32 None (Addr None None (sint (ucast a :: u32))), Imm (sint i8)]) \<and>
    emits False (\<lambda>ud. emitMoveSegmentRegToReg_32 ud g r) (Insn False False M_mov [Gpr 32 r, Seg g]) \<and>
    (s \<noteq> 4 \<and> s \<noteq> 5 \<longrightarrow> emits False (\<lambda>ud. emitMoveRegaddrToReg_32 ud s r)
      (Insn False False M_mov [Gpr 32 r, Mem 32 32 None (Addr (Some s) None 0)])) \<and>
    emits False (\<lambda>ud. emitMoveRegaddrImmToReg_32 ud s off r)
      (Insn False False M_mov [Gpr 32 r, Mem 32 32 None (Addr (Some s) None (sint (ucast off :: u32)))]) \<and>
    emits False (\<lambda>ud. emitMoveRegToRegaddrImm_32 ud r s off)
      (Insn False False M_mov [Mem 32 32 None (Addr (Some s) None (sint (ucast off :: u32))), Gpr 32 r]) \<and>
    emits False (\<lambda>ud. emitLoadRegImmReg_32 ud r off s)
      (Insn False False M_lea [Gpr 32 r, Mem 0 32 None (Addr (Some s) None (sint (ucast off :: u32)))]) \<and>
    emits False (\<lambda>ud. emitFxSave_32 ud a)
      (Insn False False M_fxsave [Mem 4096 32 None (Addr None None (sint (ucast a :: u32)))]) \<and>
    emits False (\<lambda>ud. emitFxRstor_32 ud a)
      (Insn False False M_fxrstor [Mem 4096 32 None (Addr None None (sint (ucast a :: u32)))]) \<and>
    emits False (\<lambda>ud. emitJumpIndirect_32 ud a)
      (Insn False False M_jmp [Mem 32 32 None (Addr None None (sint (ucast a :: u32)))])"
  using assms
  by (intro conjI impI emitMoveRegToReg_32_emits emitRegAddReg2OpForm_32_emits emitXorRegReg_32_emits
      emitRegAddImm_32_emits emitRegSubImm_32_emits emitCompareImmReg_32_emits emitShiftLeftLogical_32_emits
      emitShiftRightLogical_32_emits emitRegImm1ByteMultReg_32_emits emitStackPush_32_emits
      emitStackPop_32_emits emitMoveRegToMem_32_emits emitMoveMemToReg_32_emits emitExchangeMemReg_32_emits
      emitMoveImmToMem_32_emits emitAddImmByteToMem_32_emits emitSubImmByteToMem_32_emits
      emitMoveRegaddrImmToReg_32_emits emitMoveRegToRegaddrImm_32_emits emitLoadRegImmReg_32_emits
      emitFxSave_32_emits emitFxRstor_32_emits emitJumpIndirect_32_emits emitMoveSegmentRegToReg_32_emits
      emitMoveRegaddrToReg_32_emits) auto

theorem emit_factory32_correct_witness:
  "emits False (\<lambda>ud. emitMoveRegToMem_32 ud 0 0x8049000)
     (Insn False False M_mov [Mem 32 32 None (Addr None None 0x8049000), Gpr 32 0])"
  using emit_factory32_correct [of 0 1 "0x8049000" 0] by simp

text \<open>
  For every combination of base, index and scale the 32-bit address computation emits one
  \<open>lea\<close> of base plus scaled index plus the low 32 bits of the value.
\<close>

theorem emitLoadEffectiveAddress_32_correct:
  assumes "dest < 8" "baseReg < 8" "indexReg < 8" and "scale \<in> {1, 2, 4, 8}"
  shows "emits False (\<lambda>ud. emitLoadEffectiveAddress_32 ud baseReg indexReg scale value dest hasBase hasIndex)
    (Insn False False M_lea [Gpr 32 dest, Mem 0 32 None (Addr (if hasBase then Some baseReg else None)
      (if hasIndex \<and> indexReg \<noteq> 4 then Some (indexReg, unat scale) else None) (sint (ucast value :: u32)))])"
  using assms by (rule emitLoadEffectiveAddress_32_emits)

theorem emitLoadEffectiveAddress_32_correct_witness:
  "emits False (\<lambda>ud. emitLoadEffectiveAddress_32 ud 5 3 4 0 2 True True)
    (Insn False False M_lea [Gpr 32 2, Mem 0 32 None (Addr (Some 5) (Some (3, 4)) 0)])"
  using emitLoadEffectiveAddress_32_correct [of 2 5 3 4 0 True True] by simp

text \<open>
  C16. A padding request of any length is met exactly: the series consists of no-op instructions of
  at most eight bytes, in either mode, and their sizes add up to the requested length.
\<close>

theorem emitNopSeries_fills:
  assumes "nop_ud ud"
  shows "\<exists>xs. emitNopSeries ud len = Inr xs \<and> total_bytes xs = len \<and> all_nops xs"
  using nopSeries_for_value [OF assms, of 8 "[]" len]
  by (auto simp: emitNopSeries_def all_nops_def total_bytes_def)

theorem emitNopSeries_fills_witness:
  "\<exists>xs. emitNopSeries plain_ud 21 = Inr xs \<and> total_bytes xs = 21 \<and> all_nops xs"
  by (rule emitNopSeries_fills) (simp add: nop_ud_def emitNop_bytes_length)

text \<open>
  C20. The relative jump and the relative call emitted at address \<open>addr\<close> transfer control to \<open>tgt\<close>, for
  addresses below 2 GB: the displacement counts from the end of the five bytes.
\<close>

theorem emit_relative_reaches_target:
  assumes "unat addr < 2147483640" and "unat tgt < 2147483648"
  shows "\<exists>d. emits m64 (\<lambda>ud. emitJumpRelative ud addr tgt) (Insn False False M_jmp [Rel d]) \<and>
    emits m64 (\<lambda>ud. emitCallRelative ud addr tgt) (Insn False False M_call [Rel d]) \<and>
    addr + 5 + word_of_int d = tgt"
proof -
  have f: "fits_s32 addr" "fits_s32 tgt" using assms by (auto intro: fits_s32_low)
  have "unat addr < 4294967296" "unat tgt < 4294967296" using assms by simp_all
  note emitJumpRelative_emits [OF f, of m64] emitCallRelative_emits [OF this, of m64]
  then show ?thesis using rel32_reaches [OF assms, of 5] by auto
qed

theorem emit_relative_reaches_target_witness:
  "\<exists>d. emits True (\<lambda>ud. emitJumpRelative ud 0x400500 0x400100) (Insn False False M_jmp [Rel d]) \<and>
    emits True (\<lambda>ud. emitCallRelative ud 0x400500 0x400100) (Insn False False M_call [Rel d]) \<and>
    0x400505 + word_of_int d = (0x400100 :: u64)"
  using emit_relative_reaches_target [of "0x400500" "0x400100" True] by simp

text \<open>
  Pushing or popping \<open>fs\<close> or \<open>gs\<close> produces the first two bytes of a conditional jump, whose
  displacement is missing, where the instruction sets use \<open>0f a0\<close>, \<open>0f a1\<close>, \<open>0f a8\<close> and \<open>0f a9\<close>.
\<close>

theorem emit_segment_fs_gs_truncated:
  "emits_none m64 (\<lambda>ud. emitPushSegmentReg ud 4) [cbyte 0x0f, cbyte 0x84] \<and>
   emits_none m64 (\<lambda>ud. emitPushSegmentReg ud 5) [cbyte 0x0f, cbyte 0x85] \<and>
   emits_none m64 (\<lambda>ud. emitPopSegmentReg ud 4) [cbyte 0x0f, cbyte 0x85] \<and>
   emits_none m64 (\<lambda>ud. emitPopSegmentReg ud 5) [cbyte 0x0f, cbyte 0x86] \<and>
   encodes m64 [cbyte 0x0f, cbyte 0xa0] (Insn False False M_push [Seg 4])"
  by (intro conjI; (rule emits_noneI)?; simp add: decode_simps emitPushSegmentReg_def emitPopSegmentReg_def emit_eval get32_def)

end
