(* ===== verification/X86_Factory64.thy ===== *)
theory X86_Factory64
  imports X86_Factory32
begin

text \<open>
  Class \<open>X86InstructionFactory64\<close> of \<open>src/X86InstructionFactory.C\<close>: the emitters of 64-bit code.
  Each definition allocates the buffer, stores the bytes in the order of the source and hands
  the buffer to \<open>emitInstructionBase\<close>. Names carry the suffix \<open>_64\<close>.
\<close>

section \<open>Memory forms\<close>

definition emitExchangeAdd_64 :: "disassembler \<Rightarrow> nat \<Rightarrow> nat \<Rightarrow> bool \<Rightarrow> X86Instruction res" where
  "emitExchangeAdd_64 ud src dest lock =
     ASSERT (src < X86_64BIT_GPRS) (ASSERT (dest < X86_64BIT_GPRS) (
     let len = 4; st = 0;
       len = (if lock then len + 1 else len);
       st = (if lock then st + 1 else st);
       len = (if dest mod X86_32BIT_GPRS = X86_REG_SP then len + 1 else len);
       buff = new_buff len;
       buff = wr buff 0 0xf0;
       buff = wr buff (st + 0) 0x48;
       buff = (if src \<ge> X86_32BIT_GPRS then wr_add buff (st + 0) 0x04 else buff);
       buff = (if dest \<ge> X86_32BIT_GPRS then wr_add buff (st + 0) 0x01 else buff);
       buff = wr buff (st + 1) 0x0f;
       buff = wr buff (st + 2) 0xc1;
       buff = wr buff (st + 3) (0x00 + (dest mod X86_32BIT_GPRS) + 8 * (src mod X86_32BIT_GPRS));
       buff = (if dest mod X86_32BIT_GPRS = X86_REG_SP then wr buff (st + 4) 0x24 else buff) in
     emitInstructionBase ud len buff))"

definition emitAddImmToRegaddrImm_64 :: "disassembler \<Rightarrow> u32 \<Rightarrow> nat \<Rightarrow> u32 \<Rightarrow> X86Instruction res" where
  "emitAddImmToRegaddrImm_64 ud b reg imm =
     ASSERT (reg < X86_64BIT_GPRS) (
     let len = 10; immoff = 2; st = 0;
       len = (if reg \<ge> X86_32BIT_GPRS then len + 1 else len);
       immoff = (if reg \<ge> X86_32BIT_GPRS then immoff + 1 else immoff);
       st = (if reg \<ge> X86_32BIT_GPRS then st + 1 else st);
       len = (if reg mod X86_32BIT_GPRS = X86_REG_SP then len + 1 else len);
       immoff = (if reg mod X86_32BIT_GPRS = X86_REG_SP then immoff + 1 else immoff);
       buff = new_buff len;
       buff = wr buff 0 0x41;
       buff = wr buff st 0x81;
       buff = wr buff (st + 1) (0x80 + (reg mod X86_32BIT_GPRS));
       buff = wr buff (st + 2) 0x24;
       buff = memcpy buff immoff (le_bytes32 imm);
       buff = memcpy buff (immoff + 4) (le_bytes32 b) in
     emitInstructionBase ud len buff)"

definition emitAddImmByteToRegaddrImm_64 :: "disassembler \<Rightarrow> byte \<Rightarrow> nat \<Rightarrow> u32 \<Rightarrow> X86Instruction res" where
  "emitAddImmByteToRegaddrImm_64 ud byt reg imm =
     ASSERT (reg < X86_64BIT_GPRS) (
     let len = 7; immoff = 2; st = 0;
       len = (if reg \<ge> X86_32BIT_GPRS then len + 1 else len);
       immoff = (if reg \<ge> X86_32BIT_GPRS then immoff + 1 else immoff);
       st = (if reg \<ge> X86_32BIT_GPRS then st + 1 else st);
       len = (if reg mod X86_32BIT_GPRS = X86_REG_SP then len + 1 else len);
       immoff = (if reg mod X86_32BIT_GPRS = X86_REG_SP then immoff + 1 else immoff);
       buff = new_buff len;
       buff = wr buff 0 0x41;
       buff = wr buff st 0x83;
       buff = wr buff (st + 1) (0x80 + (reg mod X86_32BIT_GPRS));
       buff = wr buff (st + 2) 0x24;
       buff = memcpy buff immoff (le_bytes32 imm);
       buff = memcpy buff (immoff + 4) [byt] in
     emitInstructionBase ud len buff)"

definition emitImmAndReg_64 :: "disassembler \<Rightarrow> u32 \<Rightarrow> nat \<Rightarrow> X86Instruction res" where
  "emitImmAndReg_64 ud imm dest =
     ASSERT (dest < X86_64BIT_GPRS) (
     let len = 7; buff = new_buff len;
       buff = wr buff 0 0x48;
       buff = (if dest \<ge> X86_32BIT_GPRS then wr_add buff 0 0x01 else buff);
       buff = wr buff 1 0x81;
       buff = wr buff 2 (0xe0 + 0x01 * (dest mod X86_32BIT_GPRS));
       imm32 = imm in
     ASSERT (imm32 = imm) (
     let buff = memcpy buff 3 (le_bytes32 imm32) in
     emitInstructionBase ud len buff))"

definition emitImmOrReg_64 :: "disassembler \<Rightarrow> u32 \<Rightarrow> nat \<Rightarrow> X86Instruction res" where
  "emitImmOrReg_64 ud imm dest =
     ASSERT (dest < X86_64BIT_GPRS) (
     let len = 7; buff = new_buff len;
       buff = wr buff 0 0x48;
       buff = (if dest \<ge> X86_32BIT_GPRS then wr_add buff 0 0x01 else buff);
       buff = wr buff 1 0x81;
       buff = wr buff 2 (0xc8 + 0x01 * (dest mod X86_32BIT_GPRS));
       imm32 = imm in
     ASSERT (imm32 = imm) (
     let buff = memcpy buff 3 (le_bytes32 imm32) in
     emitInstructionBase ud len buff))"

definition emitMoveTLSOffsetToReg_64 :: "disassembler \<Rightarrow> u32 \<Rightarrow> nat \<Rightarrow> X86Instruction res" where
  "emitMoveTLSOffsetToReg_64 ud imm dest =
     ASSERT (dest < X86_64BIT_GPRS) (
     let len = 9; buff = new_buff len;
       buff = wr buff 0 0x64;
       buff = wr buff 1 0x48;
       buff = (if dest \<ge> X86_32BIT_GPRS then wr_add buff 1 0x04 else buff);
       buff = wr buff 2 0x8b;
       buff = wr buff 3 (0x04 + 0x08 * (dest mod X86_32BIT_GPRS));
       buff = wr buff 4 0x25;
       imm32 = imm in
     ASSERT (imm32 = imm) (
     let buff = memcpy buff 5 (le_bytes32 imm32) in
     emitInstructionBase ud len buff))"

definition emitMoveThreadIdToReg_64 :: "disassembler \<Rightarrow> nat \<Rightarrow> X86Instruction res" where
  "emitMoveThreadIdToReg_64 ud dest = emitMoveTLSOffsetToReg_64 ud 0x10 dest"

definition emitMoveImmToMem_64 :: "disassembler \<Rightarrow> u64 \<Rightarrow> u64 \<Rightarrow> X86Instruction res" where
  "emitMoveImmToMem_64 ud imm addr = (
     let len = 11; buff = new_buff len;
       buff = wr buff 0 0xc7;
       buff = wr buff 1 0x04;
       buff = wr buff 2 0x25;
       addr32 = (ucast addr :: u32) in
     ASSERT (addr32 = ucast addr) (
     let buff = memcpy buff 3 (le_bytes32 addr32);
       imm32 = (ucast imm :: u32) in
     ASSERT (imm32 = ucast imm) (
     let buff = memcpy buff 7 (le_bytes32 imm32) in
     emitInstructionBase ud len buff)))"

definition emitFxSave_64 :: "disassembler \<Rightarrow> u64 \<Rightarrow> X86Instruction res" where
  "emitFxSave_64 ud addr = (
     let len = 7; buff = new_buff len;
       buff = wr buff 0 0x0f;
       buff = wr buff 1 0xae;
       buff = wr buff 2 0x05;
       addr32 = (ucast addr :: u32) in
     ASSERT (addr32 = ucast addr) (
     let buff = memcpy buff 3 (le_bytes32 addr32) in
     emitInstructionBase ud len buff))"

definition emitFxRstor_64 :: "disassembler \<Rightarrow> u64 \<Rightarrow> X86Instruction res" where
  "emitFxRstor_64 ud addr = (
     let len = 7; buff = new_buff len;
       buff = wr buff 0 0x0f;
       buff = wr buff 1 0xae;
       buff = wr buff 2 0x0d;
       addr32 = (ucast addr :: u32) in
     ASSERT (addr32 = ucast addr) (
     let buff = memcpy buff 3 (le_bytes32 addr32) in
     emitInstructionBase ud len buff))"

definition emitFxSaveReg_64 :: "disassembler \<Rightarrow> nat \<Rightarrow> X86Instruction res" where
  "emitFxSaveReg_64 ud reg =
     ASSERT (reg < X86_64BIT_GPRS) (
     let len = 3; off = 0;
       len = (if reg \<ge> X86_32BIT_GPRS then len + 1 else len);
       off = (if reg \<ge> X86_32BIT_GPRS then off + 1 else off);
       len = (if reg mod X86_32BIT_GPRS = X86_REG_SP then len + 1 else len);
       buff = new_buff len;
       buff = (if reg \<ge> X86_32BIT_GPRS then wr buff 0 0x41 else buff);
       buff = wr buff off 0x0f;
       buff = wr buff (off + 1) 0xae;
       buff = wr buff (off + 2) (0x00 + (reg mod X86_32BIT_GPRS));
       buff = (if reg mod X86_32BIT_GPRS = X86_REG_SP then wr buff (off + 3) 0x24 else buff) in
     emitInstructionBase ud len buff)"

definition emitFxRstorReg_64 :: "disassembler \<Rightarrow> nat \<Rightarrow> X86Instruction res" where
  "emitFxRstorReg_64 ud reg =
     ASSERT (reg < X86_64BIT_GPRS) (
     let len = 3; off = 0;
       len = (if reg \<ge> X86_32BIT_GPRS then len + 1 else len);
       off = (if reg \<ge> X86_32BIT_GPRS then off + 1 else off);
       len = (if reg mod X86_32BIT_GPRS = X86_REG_SP then len + 1 else len);
       buff = new_buff len;
       buff = (if reg \<ge> X86_32BIT_GPRS then wr buff 0 0x41 else buff);
       buff = wr buff off 0x0f;
       buff = wr buff (off + 1) 0xae;
       buff = wr buff (off + 2) (0x08 + (reg mod X86_32BIT_GPRS));
       buff = (if reg mod X86_32BIT_GPRS = X86_REG_SP then wr buff (off + 3) 0x24 else buff) in
     emitInstructionBase ud len buff)"

definition emitMoveSegmentRegToReg_64 :: "disassembler \<Rightarrow> nat \<Rightarrow> nat \<Rightarrow> X86Instruction res" where
  "emitMoveSegmentRegToReg_64 ud src dest =
     ASSERT (src < X86_SEGMENT_REGS) (ASSERT (dest < X86_64BIT_GPRS) (
     let len = 3; buff = new_buff len;
       buff = (if dest < X86_32BIT_GPRS then wr buff 0 0x48 else wr buff 0 0x49);
       buff = wr buff 1 0x8c;
       buff = wr buff 2 (0xc0 + 8 * src + (dest mod X86_32BIT_GPRS)) in
     emitInstructionBase ud len buff))"

section \<open>Load effective address\<close>

text \<open>The distance between the codes of the registers \<open>rip\<close> and \<open>rax\<close> in \<open>libudis86/types.h\<close>.\<close>

definition UD_R_RAX :: nat where "UD_R_RAX = 53"
definition UD_R_RIP :: nat where "UD_R_RIP = 155"

text \<open>The three bytes \<open>rex\<close>, \<open>8d\<close> and the SIB forms are stored in the order of the source.\<close>

definition lea_rex_64 :: "cbuf \<Rightarrow> bool \<Rightarrow> nat \<Rightarrow> nat \<Rightarrow> nat \<Rightarrow> cbuf" where
  "lea_rex_64 buff useBase baseReg indexReg dest = (
     let buff = wr buff 0 0x48;
       buff = (if useBase \<and> baseReg \<ge> X86_32BIT_GPRS then wr_add buff 0 1 else buff);
       buff = (if indexReg \<ge> X86_32BIT_GPRS then wr_add buff 0 2 else buff);
       buff = (if dest \<ge> X86_32BIT_GPRS then wr_add buff 0 4 else buff) in buff)"

definition emitLeaBaseIndex_64 :: "disassembler \<Rightarrow> nat \<Rightarrow> nat \<Rightarrow> nat \<Rightarrow> nat \<Rightarrow> X86Instruction res" where
  "emitLeaBaseIndex_64 ud baseReg indexReg sa dest = (
     let len = 4;
       len = (if baseReg mod X86_32BIT_GPRS = X86_REG_BP then len + 1 else len);
       buff = new_buff len;
       buff = lea_rex_64 buff True baseReg indexReg dest;
       buff = wr buff 1 0x8d;
       buff = wr buff 2 (0x04 + 8 * (dest mod X86_32BIT_GPRS));
       buff = (if baseReg mod X86_32BIT_GPRS = X86_REG_BP then wr (wr_add buff 2 0x40) 4 0x00 else buff);
       buff = wr buff 3 (0x00 + 8 * (indexReg mod X86_32BIT_GPRS) + (baseReg mod X86_32BIT_GPRS) + sa) in
     emitInstructionBase ud len buff)"

definition emitLeaIndexValue_64 :: "disassembler \<Rightarrow> nat \<Rightarrow> nat \<Rightarrow> nat \<Rightarrow> u64 \<Rightarrow> nat \<Rightarrow> bool \<Rightarrow> X86Instruction res" where
  "emitLeaIndexValue_64 ud baseReg indexReg sa value dest hasBase = (
     let len = 8; buff = new_buff len;
       buff = lea_rex_64 buff hasBase baseReg indexReg dest;
       buff = wr buff 1 0x8d;
       buff = wr buff 2 (0x04 + 8 * (dest mod X86_32BIT_GPRS));
       buff = wr buff 3 (0x00 + 8 * (indexReg mod X86_32BIT_GPRS));
       buff = (if hasBase then wr_add (wr_add buff 2 0x80) 3 (baseReg mod X86_32BIT_GPRS)
               else wr_add buff 3 0x05);
       buff = wr_add buff 3 sa;
       buff = memcpy buff 4 (le_bytes32 (ucast value)) in
     emitInstructionBase ud len buff)"

definition emitLeaBaseOffset_64 :: "disassembler \<Rightarrow> nat \<Rightarrow> u64 \<Rightarrow> nat \<Rightarrow> X86Instruction res" where
  "emitLeaBaseOffset_64 ud baseReg value dest = (
     let len = 7; immoff = 3;
       len = (if baseReg mod X86_32BIT_GPRS = X86_REG_SP then len + 1 else len);
       immoff = (if baseReg mod X86_32BIT_GPRS = X86_REG_SP then immoff + 1 else immoff);
       buff = new_buff len;
       buff = (if dest < X86_32BIT_GPRS then wr buff 0 0x48 else wr buff 0 0x4c);
       buff = (if baseReg < X86_32BIT_GPRS then buff else wr_add buff 0 1);
       buff = wr buff 1 0x8d;
       buff = (if baseReg + UD_R_RAX = UD_R_RIP then wr buff 2 0x05
               else wr buff 2 (0x80 + (baseReg mod X86_32BIT_GPRS)));
       buff = wr_add buff 2 (8 * (dest mod X86_32BIT_GPRS));
       buff = (if baseReg mod X86_32BIT_GPRS = X86_REG_SP then wr buff 3 0x24 else buff);
       addr32 = (ucast value :: u32);
       buff = memcpy buff immoff (le_bytes32 addr32) in
     emitInstructionBase ud len buff)"

definition emitLeaConst_64 :: "disassembler \<Rightarrow> u64 \<Rightarrow> nat \<Rightarrow> X86Instruction res" where
  "emitLeaConst_64 ud value dest = (
     let len = 8; buff = new_buff len;
       buff = (if dest < X86_32BIT_GPRS then wr buff 0 0x48 else wr buff 0 0x4c);
       buff = wr buff 1 0x8d;
       buff = wr buff 2 (0x04 + 8 * (dest mod X86_32BIT_GPRS));
       buff = wr buff 3 0x25;
       addr32 = (ucast value :: u32);
       buff = memcpy buff 4 (le_bytes32 addr32) in
     emitInstructionBase ud len buff)"

definition emitLoadEffectiveAddress_64 :: "disassembler \<Rightarrow> nat \<Rightarrow> nat \<Rightarrow> byte \<Rightarrow> u64 \<Rightarrow> nat \<Rightarrow> bool \<Rightarrow> bool \<Rightarrow> X86Instruction res" where
  "emitLoadEffectiveAddress_64 ud baseReg indexReg scale value dest hasBase hasIndex =
     ASSERT (dest < X86_64BIT_GPRS) (
     ASSERT (baseReg < X86_64BIT_GPRS \<or> baseReg + UD_R_RAX = UD_R_RIP) (
     ASSERT (indexReg < X86_64BIT_GPRS) (
     ASSERT (scale \<noteq> 0 \<longrightarrow> isPowerOfTwo (ucast scale) \<and> scale \<le> 8) (
     if hasIndex then rbind (if scale \<noteq> 0 then lea_scale scale else Inr 0) (\<lambda>sa.
       if hasBase \<and> value = 0 then emitLeaBaseIndex_64 ud baseReg indexReg sa dest
       else emitLeaIndexValue_64 ud baseReg indexReg sa value dest hasBase)
     else if hasBase then emitLeaBaseOffset_64 ud baseReg value dest
     else emitLeaConst_64 ud value dest))))"

definition emitLoadRegImmReg_64 :: "disassembler \<Rightarrow> nat \<Rightarrow> u64 \<Rightarrow> nat \<Rightarrow> X86Instruction res" where
  "emitLoadRegImmReg_64 ud idxsrc imm idxdest =
     ASSERT (idxsrc < X86_64BIT_GPRS) (ASSERT (idxdest < X86_64BIT_GPRS) (
     let len = 7; immoff = 3;
       len = (if idxdest = X86_REG_SP then len + 1 else len);
       immoff = (if idxdest = X86_REG_SP then immoff + 1 else immoff);
       buff = new_buff len;
       buff = (if idxsrc < X86_32BIT_GPRS then wr buff 0 0x48 else wr buff 0 0x4c);
       buff = (if idxdest < X86_32BIT_GPRS then buff else wr_add buff 0 1);
       buff = wr buff 1 0x8d;
       buff = wr buff 2 (0x80 + 8 * (idxsrc mod X86_32BIT_GPRS) + (idxdest mod X86_32BIT_GPRS));
       buff = wr buff 3 0x24;
       imm32 = (ucast imm :: u32) in
     ASSERT (imm32 = ucast imm) (
     let buff = memcpy buff immoff (le_bytes32 imm32) in
     emitInstructionBase ud len buff)))"

definition emitLoadRipImmReg_64 :: "disassembler \<Rightarrow> u64 \<Rightarrow> nat \<Rightarrow> X86Instruction res" where
  "emitLoadRipImmReg_64 ud imm idxdest =
     ASSERT (idxdest < X86_64BIT_GPRS) (
     let len = 7; immoff = 3;
       len = (if idxdest = X86_REG_SP then len + 1 else len);
       immoff = (if idxdest = X86_REG_SP then immoff + 1 else immoff);
       buff = new_buff len;
       buff = (if idxdest < X86_32BIT_GPRS then wr buff 0 0x48 else wr buff 0 0x4c);
       buff = (if idxdest < X86_32BIT_GPRS then buff else wr_add buff 0 1);
       buff = wr buff 1 0x8d;
       buff = wr buff 2 (0x05 + 8 * (idxdest mod X86_32BIT_GPRS));
       buff = wr buff 3 0x24;
       imm32 = (ucast imm :: u32) in
     ASSERT (imm32 = ucast imm) (
     let buff = memcpy buff immoff (le_bytes32 imm32) in
     emitInstructionBase ud len buff))"

definition emitLoadRipImmToReg_64 :: "disassembler \<Rightarrow> u32 \<Rightarrow> nat \<Rightarrow> X86Instruction res" where
  "emitLoadRipImmToReg_64 ud imm destreg =
     ASSERT (destreg < X86_64BIT_GPRS) (
     let len = 7; buff = new_buff len;
       buff = (if destreg < X86_32BIT_GPRS then wr (wr buff 0 0x48) 2 (0x05 + 8 * destreg)
               else wr (wr buff 0 0x4c) 2 (0x05 + 8 * (destreg - X86_32BIT_GPRS)));
       buff = wr buff 1 0x8d;
       buff = memcpy buff 3 (le_bytes32 imm) in
     emitInstructionBase ud len buff)"

section \<open>Register and immediate forms\<close>

definition emitShiftRightLogical_64 :: "disassembler \<Rightarrow> byte \<Rightarrow> nat \<Rightarrow> X86Instruction res" where
  "emitShiftRightLogical_64 ud imm reg =
     ASSERT (reg < X86_64BIT_GPRS) (
     let len = 4; buff = new_buff len;
       buff = (if reg < X86_32BIT_GPRS then wr buff 0 0x48 else wr buff 0 0x49);
       buff = wr buff 1 0xc1;
       buff = wr buff 2 (0xe8 + reg mod X86_32BIT_GPRS);
       buff = wr buff 3 (unat imm) in
     emitInstructionBase ud len buff)"

definition emitShiftLeftLogical_64 :: "disassembler \<Rightarrow> byte \<Rightarrow> nat \<Rightarrow> X86Instruction res" where
  "emitShiftLeftLogical_64 ud imm reg =
     ASSERT (reg < X86_64BIT_GPRS) (
     let len = 4; buff = new_buff len;
       buff = (if reg < X86_32BIT_GPRS then wr buff 0 0x48 else wr buff 0 0x49);
       buff = wr buff 1 0xc1;
       buff = wr buff 2 (0xe0 + reg mod X86_32BIT_GPRS);
       buff = wr buff 3 (unat imm) in
     emitInstructionBase ud len buff)"

definition emitCompareImmReg_64 :: "disassembler \<Rightarrow> u64 \<Rightarrow> nat \<Rightarrow> X86Instruction res" where
  "emitCompareImmReg_64 ud imm reg =
     ASSERT (reg < X86_64BIT_GPRS) (
     let len = 7; buff = new_buff len;
       buff = (if reg < X86_32BIT_GPRS then wr buff 0 0x48 else wr buff 0 0x49);
       buff = wr buff 1 0x81;
       buff = wr buff 2 (0xf8 + (reg mod X86_32BIT_GPRS));
       imm32 = (ucast imm :: u32) in
     ASSERT (ucast imm32 = imm) (
     let buff = memcpy buff 3 (le_bytes32 imm32) in
     emitInstructionBase ud len buff))"

definition emitMoveRegToReg_64 :: "disassembler \<Rightarrow> nat \<Rightarrow> nat \<Rightarrow> X86Instruction res" where
  "emitMoveRegToReg_64 ud srcreg destreg =
     ASSERT (srcreg < X86_64BIT_GPRS) (ASSERT (destreg < X86_64BIT_GPRS) (
     let len = 3; buff = new_buff len;
       buff = (if srcreg < X86_32BIT_GPRS then wr buff 0 0x48 else wr buff 0 0x4c);
       buff = (if destreg < X86_32BIT_GPRS then buff else wr_add buff 0 1);
       buff = wr buff 1 0x89;
       buff = wr buff 2 (0xc0 + 8 * (srcreg mod X86_32BIT_GPRS) + (destreg mod X86_32BIT_GPRS)) in
     emitInstructionBase ud len buff))"

definition emitRegAddReg2OpForm_64 :: "disassembler \<Rightarrow> nat \<Rightarrow> nat \<Rightarrow> X86Instruction res" where
  "emitRegAddReg2OpForm_64 ud srcdestreg srcreg =
     ASSERT (srcdestreg < X86_64BIT_GPRS) (ASSERT (srcreg < X86_64BIT_GPRS) (
     let len = 3; buff = new_buff len;
       buff = (if srcdestreg < X86_32BIT_GPRS
               then wr (wr buff 0 0x48) 2 (0xc0 + 8 * srcdestreg + (srcreg mod X86_32BIT_GPRS))
               else wr (wr buff 0 0x4c) 2 (0xc0 + 8 * (srcdestreg - X86_32BIT_GPRS) + (srcreg mod X86_32BIT_GPRS)));
       buff = (if srcreg < X86_32BIT_GPRS then buff else wr_add buff 0 1);
       buff = wr buff 1 0x01 in
     emitInstructionBase ud len buff))"

definition emitRegImmMultReg_64 :: "disassembler \<Rightarrow> nat \<Rightarrow> u32 \<Rightarrow> nat \<Rightarrow> X86Instruction res" where
  "emitRegImmMultReg_64 ud src imm dest =
     ASSERT (src < X86_64BIT_GPRS) (ASSERT (dest < X86_64BIT_GPRS) (ASSERT (src = dest) (
     let len = 7; buff = new_buff len;
       buff = (if dest < X86_32BIT_GPRS
               then wr (wr buff 0 0x48) 2 (0xc0 + 8 * dest + (src mod X86_32BIT_GPRS))
               else wr (wr buff 0 0x4c) 2 (0xc0 + 8 * (dest - X86_32BIT_GPRS) + (src mod X86_32BIT_GPRS)));
       buff = (if src < X86_32BIT_GPRS then buff else wr_add buff 0 1);
       buff = wr buff 1 0x69;
       buff = memcpy buff 3 (le_bytes32 imm) in
     emitInstructionBase ud len buff)))"

definition emitXorRegReg_64 :: "disassembler \<Rightarrow> nat \<Rightarrow> nat \<Rightarrow> X86Instruction res" where
  "emitXorRegReg_64 ud src tgt =
     ASSERT (src < X86_32BIT_GPRS) (ASSERT (tgt < X86_32BIT_GPRS) (
     let len = 3; buff = new_buff len;
       buff = wr buff 0 0x48;
       buff = wr buff 1 0x31;
       buff = wr buff 2 (0xc0 + tgt + 8 * src) in
     emitInstructionBase ud len buff))"

definition emitAddImmToMem_64 :: "disassembler \<Rightarrow> u32 \<Rightarrow> u64 \<Rightarrow> X86Instruction res" where
  "emitAddImmToMem_64 ud imm addr = (
     let len = 12; buff = new_buff len;
       buff = wr buff 0 0x48;
       buff = wr buff 1 0x81;
       buff = wr buff 2 0x04;
       buff = wr buff 3 0x25;
       addr32 = (ucast addr :: u32) in
     ASSERT (addr32 = ucast addr) (
     let buff = memcpy buff 4 (le_bytes32 addr32);
       buff = memcpy buff 8 (le_bytes32 imm) in
     emitInstructionBase ud len buff))"

definition emitAddImmByteToMem_64 :: "disassembler \<Rightarrow> byte \<Rightarrow> u64 \<Rightarrow> X86Instruction res" where
  "emitAddImmByteToMem_64 ud imm addr = (
     let len = 9; buff = new_buff len;
       buff = wr buff 0 0x48;
       buff = wr buff 1 0x83;
       buff = wr buff 2 0x04;
       buff = wr buff 3 0x25;
       addr32 = (ucast addr :: u32) in
     ASSERT (addr32 = ucast addr) (
     let buff = memcpy buff 4 (le_bytes32 addr32);
       buff = memcpy buff 8 [imm] in
     emitInstructionBase ud len buff))"

definition emitSubImmByteToMem_64 :: "disassembler \<Rightarrow> byte \<Rightarrow> u64 \<Rightarrow> X86Instruction res" where
  "emitSubImmByteToMem_64 ud imm addr = (
     let len = 9; buff = new_buff len;
       buff = wr buff 0 0x48;
       buff = wr buff 1 0x83;
       buff = wr buff 2 0x2c;
       buff = wr buff 3 0x25;
       addr32 = (ucast addr :: u32) in
     ASSERT (addr32 = ucast addr) (
     let buff = memcpy buff 4 (le_bytes32 addr32);
       buff = memcpy buff 8 [imm] in
     emitInstructionBase ud len buff))"

definition emitRegAndReg_64 :: "disassembler \<Rightarrow> nat \<Rightarrow> nat \<Rightarrow> X86Instruction res" where
  "emitRegAndReg_64 ud src srcdest =
     ASSERT (src < X86_64BIT_GPRS) (ASSERT (srcdest < X86_64BIT_GPRS) (
     let len = 3; buff = new_buff len;
       buff = (if srcdest < X86_32BIT_GPRS then wr buff 0 0x48 else wr buff 0 0x4c);
       buff = (if src < X86_32BIT_GPRS then buff else wr_add buff 0 1);
       buff = wr buff 1 0x21;
       buff = wr buff 2 (0xc0 + 8 * (srcdest mod X86_32BIT_GPRS) + (src mod X86_32BIT_GPRS)) in
     emitInstructionBase ud len buff))"

definition emitRegOrReg_64 :: "disassembler \<Rightarrow> nat \<Rightarrow> nat \<Rightarrow> X86Instruction res" where
  "emitRegOrReg_64 ud src srcdest =
     ASSERT (src < X86_64BIT_GPRS) (ASSERT (srcdest < X86_64BIT_GPRS) (
     let len = 3; buff = new_buff len;
       buff = (if srcdest < X86_32BIT_GPRS then wr buff 0 0x48 else wr buff 0 0x4c);
       buff = (if src < X86_32BIT_GPRS then buff else wr_add buff 0 1);
       buff = wr buff 1 0x09;
       buff = wr buff 2 (0xc0 + 8 * (srcdest mod X86_32BIT_GPRS) + (src mod X86_32BIT_GPRS)) in
     emitInstructionBase ud len buff))"

section \<open>Moves\<close>

definition emitMoveImmToRegaddrImm_64 :: "disassembler \<Rightarrow> u64 \<Rightarrow> nat \<Rightarrow> u64 \<Rightarrow> X86Instruction res" where
  "emitMoveImmToRegaddrImm_64 ud val idx off =
     ASSERT (idx < X86_64BIT_GPRS) (
     let len = 12; immoff = 4;
       len = (if idx mod X86_32BIT_GPRS = X86_REG_SP then len + 1 else len);
       immoff = (if idx mod X86_32BIT_GPRS = X86_REG_SP then immoff + 1 else immoff);
       buff = new_buff len;
       buff = wr buff 0 0x67;
       buff = wr buff 1 0x48;
       buff = (if idx \<ge> X86_32BIT_GPRS then wr_add buff 1 1 else buff);
       buff = wr buff 2 0xc7;
       buff = wr buff 3 (0x80 + idx mod X86_32BIT_GPRS);
       buff = wr buff 4 0x24;
       off32 = (ucast off :: u32) in
     ASSERT (off32 = ucast off) (
     let val32 = (ucast val :: u32) in
     ASSERT (val32 = ucast val) (
     let buff = memcpy buff immoff (le_bytes32 off32);
       buff = memcpy buff (immoff + 4) (le_bytes32 val32) in
     emitInstructionBase ud len buff)))"

definition emitMoveRegaddrImmToReg_64 :: "disassembler \<Rightarrow> nat \<Rightarrow> u64 \<Rightarrow> nat \<Rightarrow> X86Instruction res" where
  "emitMoveRegaddrImmToReg_64 ud idxsrc imm idxdest =
     ASSERT (idxsrc < X86_64BIT_GPRS) (ASSERT (idxdest < X86_64BIT_GPRS) (
     let len = 7; immoff = 3;
       len = (if idxsrc mod X86_32BIT_GPRS = X86_REG_SP then len + 1 else len);
       immoff = (if idxsrc mod X86_32BIT_GPRS = X86_REG_SP then immoff + 1 else immoff);
       buff = new_buff len;
       buff = (if idxdest < X86_32BIT_GPRS then wr buff 0 0x48 else wr buff 0 0x4c);
       buff = (if idxsrc < X86_32BIT_GPRS then buff else wr_add buff 0 1);
       buff = wr buff 1 0x8b;
       buff = wr buff 2 (0x80 + (idxdest mod X86_32BIT_GPRS) * 8 + (idxsrc mod X86_32BIT_GPRS));
       buff = wr buff 3 0x24;
       imm32 = (ucast imm :: u32) in
     ASSERT (imm32 = ucast imm) (
     let buff = memcpy buff immoff (le_bytes32 imm32) in
     emitInstructionBase ud len buff)))"

definition emitStackPush4Byte_64 :: "disassembler \<Rightarrow> nat \<Rightarrow> X86Instruction res" where
  "emitStackPush4Byte_64 ud idx =
     ASSERT (idx < X86_32BIT_GPRS) (
     let len = 2; buff = new_buff len;
       buff = wr buff 0 0x66;
       buff = wr buff 1 (0x50 + idx) in
     emitInstructionBase ud len buff)"

definition emitMoveRegToRegaddr_64 :: "disassembler \<Rightarrow> nat \<Rightarrow> nat \<Rightarrow> X86Instruction res" where
  "emitMoveRegToRegaddr_64 ud destidx srcidx =
     ASSERT (srcidx < X86_64BIT_GPRS) (ASSERT (destidx < X86_64BIT_GPRS) (
     let len = 3;
       len = (if srcidx mod X86_32BIT_GPRS = X86_REG_SP \<or> srcidx mod X86_32BIT_GPRS = X86_REG_BP
              then len + 1 else len);
       buff = new_buff len;
       buff = wr buff 0 0x48;
       buff = (if srcidx \<ge> X86_32BIT_GPRS then wr_add buff 0 1 else buff);
       buff = (if destidx \<ge> X86_32BIT_GPRS then wr_add buff 0 0x04 else buff);
       buff = wr buff 1 0x89;
       buff = wr buff 2 (0x00 + srcidx mod X86_32BIT_GPRS + 8 * (destidx mod X86_32BIT_GPRS));
       buff = (if srcidx mod X86_32BIT_GPRS = X86_REG_SP then wr buff 3 0x24 else buff);
       buff = (if srcidx mod X86_32BIT_GPRS = X86_REG_BP then wr (wr_add buff 2 0x40) 3 0x00 else buff) in
     emitInstructionBase ud len buff))"

definition emitMoveRegaddrToReg_64 :: "disassembler \<Rightarrow> nat \<Rightarrow> nat \<Rightarrow> X86Instruction res" where
  "emitMoveRegaddrToReg_64 ud srcidx destidx =
     ASSERT (srcidx < X86_64BIT_GPRS) (ASSERT (destidx < X86_64BIT_GPRS) (
     let len = 3;
       len = (if srcidx mod X86_32BIT_GPRS = X86_REG_SP \<or> srcidx mod X86_32BIT_GPRS = X86_REG_BP
              then len + 1 else len);
       buff = new_buff len;
       buff = wr buff 0 0x48;
       buff = (if srcidx \<ge> X86_32BIT_GPRS then wr_add buff 0 1 else buff);
       buff = (if destidx \<ge> X86_32BIT_GPRS then wr_add buff 0 0x04 else buff);
       buff = wr buff 1 0x8b;
       buff = wr buff 2 (0x00 + srcidx mod X86_32BIT_GPRS + 8 * (destidx mod X86_32BIT_GPRS));
       buff = (if srcidx mod X86_32BIT_GPRS = X86_REG_SP then wr buff 3 0x24 else buff);
       buff = (if srcidx mod X86_32BIT_GPRS = X86_REG_BP then wr (wr_add buff 2 0x40) 3 0x00 else buff) in
     emitInstructionBase ud len buff))"

definition emitRegSubImm4Byte_64 :: "disassembler \<Rightarrow> nat \<Rightarrow> u32 \<Rightarrow> X86Instruction res" where
  "emitRegSubImm4Byte_64 ud idx imm =
     ASSERT (idx > 0 \<and> idx < X86_64BIT_GPRS) (
     let len = 7; immoff = 3;
       len = (if idx = X86_REG_AX then len - 1 else len);
       immoff = (if idx = X86_REG_AX then immoff - 1 else immoff);
       buff = new_buff len;
       buff = wr buff 0 0x48;
       buff = wr buff 1 0x81;
       buff = wr buff 2 (0xe8 + idx mod X86_32BIT_GPRS);
       buff = (if idx = X86_REG_AX then wr buff 1 0x2d else buff);
       imm32 = imm in
     ASSERT (imm32 = imm) (
     let buff = memcpy buff immoff (le_bytes32 imm32) in
     emitInstructionBase ud len buff))"

definition emitRegSubImm_64 :: "disassembler \<Rightarrow> nat \<Rightarrow> u32 \<Rightarrow> X86Instruction res" where
  "emitRegSubImm_64 ud idx imm =
     ASSERT (idx > 0 \<and> idx < X86_64BIT_GPRS)
     (if imm = 0 then emitNop1 ud else emitRegSubImm4Byte_64 ud idx imm)"

definition emitRegAddImm4Byte_64 :: "disassembler \<Rightarrow> nat \<Rightarrow> u32 \<Rightarrow> X86Instruction res" where
  "emitRegAddImm4Byte_64 ud idx imm =
     ASSERT (idx < X86_64BIT_GPRS) (
     let len = 7; immoff = 3;
       len = (if idx = X86_REG_AX then len - 1 else len);
       immoff = (if idx = X86_REG_AX then immoff - 1 else immoff);
       buff = new_buff len;
       buff = (if idx < X86_32BIT_GPRS then wr buff 0 0x48 else wr buff 0 0x49);
       buff = wr buff 1 0x81;
       buff = wr buff 2 (0xc0 + idx mod X86_32BIT_GPRS);
       imm32 = imm in
     ASSERT (imm32 = imm) (
     let buff = memcpy buff immoff (le_bytes32 imm32) in
     emitInstructionBase ud len buff))"

definition emitRegAddImm_64 :: "disassembler \<Rightarrow> nat \<Rightarrow> u32 \<Rightarrow> X86Instruction res" where
  "emitRegAddImm_64 ud idx imm =
     ASSERT (idx < X86_64BIT_GPRS)
     (if imm = 0 then emitNop1 ud else emitRegAddImm4Byte_64 ud idx imm)"

definition emitStackPush_64 :: "disassembler \<Rightarrow> nat \<Rightarrow> X86Instruction res" where
  "emitStackPush_64 ud idx =
     ASSERT (idx < X86_64BIT_GPRS) (
     if idx < X86_32BIT_GPRS then emitStackPush_32 ud idx
     else (let len = 2; buff = new_buff len;
       buff = wr buff 0 0x41;
       buff = wr buff 1 (0x48 + idx) in
     emitInstructionBase ud len buff))"

definition emitStackPop_64 :: "disassembler \<Rightarrow> nat \<Rightarrow> X86Instruction res" where
  "emitStackPop_64 ud idx =
     ASSERT (idx < X86_64BIT_GPRS) (
     if idx < X86_32BIT_GPRS then emitStackPop_32 ud idx
     else (let len = 2; buff = new_buff len;
       buff = wr buff 0 0x41;
       buff = wr buff 1 (0x50 + idx) in
     emitInstructionBase ud len buff))"

definition emitMoveRegToRegaddrImm_64 :: "disassembler \<Rightarrow> nat \<Rightarrow> nat \<Rightarrow> u64 \<Rightarrow> bool \<Rightarrow> X86Instruction res" where
  "emitMoveRegToRegaddrImm_64 ud idxsrc idxdest imm source64Bit =
     ASSERT (idxsrc < X86_64BIT_GPRS) (ASSERT (idxdest < X86_64BIT_GPRS) (
     let len = 7; immoff = 3;
       len = (if idxdest mod X86_32BIT_GPRS = X86_REG_SP then len + 1 else len);
       immoff = (if idxdest mod X86_32BIT_GPRS = X86_REG_SP then immoff + 1 else immoff);
       buff = new_buff len;
       buff = (if idxsrc < X86_32BIT_GPRS then wr buff 0 0x40 else wr buff 0 0x44);
       buff = (if source64Bit then wr_or buff 0 0x08 else buff);
       buff = (if idxdest < X86_32BIT_GPRS then buff else wr_add buff 0 1);
       buff = wr buff 1 0x89;
       buff = wr buff 2 (0x80 + 8 * (idxsrc mod X86_32BIT_GPRS) + (idxdest mod X86_32BIT_GPRS));
       buff = wr buff 3 0x24;
       imm32 = (ucast imm :: u32) in
     ASSERT (imm32 = ucast imm) (
     let buff = memcpy buff immoff (le_bytes32 imm32) in
     emitInstructionBase ud len buff)))"

definition emitMoveRegToRegaddrImm1Byte_64 :: "disassembler \<Rightarrow> nat \<Rightarrow> nat \<Rightarrow> u64 \<Rightarrow> X86Instruction res" where
  "emitMoveRegToRegaddrImm1Byte_64 ud idxsrc idxdest imm =
     ASSERT (idxsrc < X86_32BIT_GPRS) (ASSERT (idxdest < X86_32BIT_GPRS) (
     let len = 4;
       len = (if idxdest = X86_REG_SP then len + 1 else len);
       buff = new_buff len;
       buff = wr buff 0 0x48;
       buff = wr buff 1 0x89;
       buff = wr buff 2 (0x40 + idxsrc * 8 + idxdest);
       imm8 = (ucast imm :: byte);
       immoff = 3;
       buff = (if idxdest = X86_REG_SP then wr buff 3 0x24 else buff);
       immoff = (if idxdest = X86_REG_SP then immoff + 1 else immoff) in
     ASSERT (imm8 = ucast imm) (
     let buff = memcpy buff immoff [imm8] in
     emitInstructionBase ud len buff)))"

definition emitMoveRegToRegaddrImm4Byte_64 :: "disassembler \<Rightarrow> nat \<Rightarrow> nat \<Rightarrow> u64 \<Rightarrow> X86Instruction res" where
  "emitMoveRegToRegaddrImm4Byte_64 ud idxsrc idxdest imm =
     ASSERT (idxsrc < X86_32BIT_GPRS) (ASSERT (idxdest < X86_32BIT_GPRS) (
     let len = 7;
       len = (if idxdest = X86_REG_SP then len + 1 else len);
       buff = new_buff len;
       buff = wr buff 0 0x48;
       buff = wr buff 1 0x89;
       buff = wr buff 2 (0x80 + idxsrc * 8 + idxdest);
       imm32 = (ucast imm :: u32);
       immoff = 3;
       buff = (if idxdest = X86_REG_SP then wr buff 3 0x24 else buff);
       immoff = (if idxdest = X86_REG_SP then immoff + 1 else immoff) in
     ASSERT (imm32 = ucast imm) (
     let buff = memcpy buff immoff (le_bytes32 imm32) in
     emitInstructionBase ud len buff)))"

definition emitIndirectRelativeJump_64 :: "disassembler \<Rightarrow> u64 \<Rightarrow> u64 \<Rightarrow> X86Instruction res" where
  "emitIndirectRelativeJump_64 ud addr tgt = (
     let len = 6; buff = new_buff len;
       buff = wr buff 0 0xff;
       buff = wr buff 1 0x25;
       imm = tgt - addr - of_nat len;
       imm32 = (ucast imm :: u32) in
     ASSERT (addr = ucast (ucast addr :: u32)) (ASSERT (tgt = ucast (ucast tgt :: u32)) (
     let buff = memcpy buff 2 (le_bytes32 imm32) in
     emitInstructionBase ud len buff)))"

definition emitMoveMemToXMMReg_64 :: "disassembler \<Rightarrow> u64 \<Rightarrow> nat \<Rightarrow> X86Instruction res" where
  "emitMoveMemToXMMReg_64 ud addr idx =
     ASSERT (idx \<ge> X86_64BIT_GPRS \<and> idx < X86_64BIT_GPRS + X86_XMM_REGS) (
     let len = (if idx < X86_64BIT_GPRS + 8 then 9 else 10);
       buff = new_buff len;
       buff = (if idx < X86_64BIT_GPRS + 8
               then wr (wr (wr buff 0 0xf2) 1 0x0f) 2 0x10
               else wr (wr (wr (wr buff 0 0xf2) 1 0x44) 2 0x0f) 3 0x10);
       next = (if idx < X86_64BIT_GPRS + 8 then 3 else 4);
       buff = wr buff next (0x04 + 0x08 * (idx mod 8));
       buff = wr buff (next + 1) 0x25;
       addr32 = (ucast addr :: u32) in
     ASSERT (addr = ucast addr32) (
     let buff = memcpy buff (next + 2) (le_bytes32 addr32) in
     emitInstructionBase ud len buff))"

definition emitMoveImmToReg_64 :: "disassembler \<Rightarrow> u64 \<Rightarrow> nat \<Rightarrow> X86Instruction res" where
  "emitMoveImmToReg_64 ud imm idx =
     ASSERT (idx < X86_64BIT_GPRS) (
     let len = 7; buff = new_buff len;
       buff = (if idx < X86_32BIT_GPRS then wr buff 0 0x48 else wr buff 0 0x49);
       buff = wr buff 1 0xc7;
       buff = wr buff 2 (0xc0 + idx mod X86_32BIT_GPRS);
       imm32 = (ucast imm :: u32) in
     ASSERT (ucast imm32 = imm) (
     let buff = memcpy buff 3 (le_bytes32 imm32) in
     emitInstructionBase ud len buff))"

definition emitMoveImm64ToReg_64 :: "disassembler \<Rightarrow> u64 \<Rightarrow> nat \<Rightarrow> X86Instruction res" where
  "emitMoveImm64ToReg_64 ud imm idx =
     ASSERT (idx < X86_64BIT_GPRS) (
     let len = 10; buff = new_buff len;
       buff = (if idx < X86_32BIT_GPRS then wr buff 0 0x48 else wr buff 0 0x49);
       buff = wr buff 1 (0xb8 + idx mod X86_32BIT_GPRS);
       buff = memcpy buff 2 (le_bytes64 imm) in
     emitInstructionBase ud len buff)"

definition emitMoveRegToMem_64 :: "disassembler \<Rightarrow> nat \<Rightarrow> u64 \<Rightarrow> X86Instruction res" where
  "emitMoveRegToMem_64 ud idx addr =
     ASSERT (idx < X86_64BIT_GPRS) (
     let len = 8; buff = new_buff len;
       buff = (if idx < X86_32BIT_GPRS then wr (wr buff 0 0x48) 2 (0x04 + 0x8 * idx)
               else wr (wr buff 0 0x4c) 2 (0x04 + 0x8 * (idx - X86_32BIT_GPRS)));
       buff = wr buff 1 0x89;
       buff = wr buff 3 0x25;
       addr32 = (ucast addr :: u32) in
     ASSERT (ucast addr32 = addr) (
     let buff = memcpy buff 4 (le_bytes32 addr32) in
     emitInstructionBase ud len buff))"

definition emitMoveMemToReg_64 :: "disassembler \<Rightarrow> u64 \<Rightarrow> nat \<Rightarrow> bool \<Rightarrow> X86Instruction res" where
  "emitMoveMemToReg_64 ud addr idx is64Bit =
     ASSERT (idx < X86_64BIT_GPRS) (
     ASSERT (\<not> is64Bit \<longrightarrow> idx < X86_32BIT_GPRS) (
     let len = 8; baseidx = 1;
       len = (if \<not> is64Bit then len - 1 else len);
       baseidx = (if \<not> is64Bit then baseidx - 1 else baseidx);
       buff = new_buff len;
       buff = (if idx < X86_32BIT_GPRS then wr (wr buff 0 0x48) (baseidx + 1) (0x04 + 0x8 * idx)
               else wr (wr buff 0 0x4c) (baseidx + 1) (0x04 + 0x8 * (idx - X86_32BIT_GPRS)));
       buff = wr buff baseidx 0x8b;
       buff = wr buff (baseidx + 2) 0x25;
       addr32 = (ucast addr :: u32) in
     ASSERT (ucast addr32 = addr) (
     let buff = memcpy buff (baseidx + 3) (le_bytes32 addr32) in
     emitInstructionBase ud len buff)))"

end
