(* ===== verification/X86_Correct64.thy ===== *)
theory X86_Correct64
  imports X86_Emission X86_Factory64
begin

text \<open>
  The 64-bit emitters emit the instructions their names promise: one lemma per emitter, giving
  the bytes it produces, then the properties grouped by kind of instruction and the inputs on
  which an emitter produces something else.
\<close>

section \<open>One lemma per emitter\<close>

lemma emitExchangeAdd_64_emits:
  assumes "src < 16" "dest < 16" "dest \<noteq> 5" "dest \<noteq> 13"
  shows "emits True (\<lambda>ud. emitExchangeAdd_64 ud src dest lock)
    (Insn lock False M_xadd [Mem 64 64 None (Addr (Some dest) None (0)), Gpr 64 src])"
  using assms by (intro emitsI [where bs = "(if lock then [cbyte 0xf0] else []) @ [rex True (8 \<le> src) False (8 \<le> dest), cbyte 0x0f, cbyte 0xc1, modrm 0 (src mod 8) (dest mod 8)] @ (if dest = 4 \<or> dest = 12 then [modrm 0 4 4] else [])"],
    (cases "lock"; cases "dest = 4"; cases "dest = 12"; simp add: decode_simps), (cases "lock"; cases "dest = 4"; cases "dest = 12"; cases "8 \<le> src"; cases "8 \<le> dest"; simp add: emitExchangeAdd_64_def emit_eval; simp add: emit_ac))

lemma emitAddImmToRegaddrImm_64_emits:
  assumes "reg < 16"
  shows "emits True (\<lambda>ud. emitAddImmToRegaddrImm_64 ud b reg imm)
    (Insn False False M_add [Mem 32 64 None (Addr (Some reg) None (sint imm)), Imm (sint b)])"
  using assms by (intro emitsI [where bs = "(if 8 \<le> reg then [rex False False False True] else []) @ [cbyte 0x81, modrm 2 0 (reg mod 8)] @ (if reg = 4 \<or> reg = 12 then [modrm 0 4 4] else []) @ le_bytes32 imm @ le_bytes32 b"],
    (cases "reg = 4"; cases "reg = 12"; cases "(8 \<le> reg)"; simp add: decode_simps), (cases "reg = 4"; cases "reg = 12"; cases "(8 \<le> reg)"; cases "8 \<le> reg"; simp add: emitAddImmToRegaddrImm_64_def emit_eval; simp add: emit_ac))

lemma emitAddImmByteToRegaddrImm_64_emits:
  assumes "reg < 16"
  shows "emits True (\<lambda>ud. emitAddImmByteToRegaddrImm_64 ud byt reg imm)
    (Insn False False M_add [Mem 32 64 None (Addr (Some reg) None (sint imm)), Imm (sint byt)])"
  using assms by (intro emitsI [where bs = "(if 8 \<le> reg then [rex False False False True] else []) @ [cbyte 0x83, modrm 2 0 (reg mod 8)] @ (if reg = 4 \<or> reg = 12 then [modrm 0 4 4] else []) @ le_bytes32 imm @ [byt]"],
    (cases "reg = 4"; cases "reg = 12"; cases "(8 \<le> reg)"; simp add: decode_simps), (cases "reg = 4"; cases "reg = 12"; cases "(8 \<le> reg)"; cases "8 \<le> reg"; simp add: emitAddImmByteToRegaddrImm_64_def emit_eval; simp add: emit_ac))

lemma emitImmAndReg_64_emits:
  assumes "dest < 16"
  shows "emits True (\<lambda>ud. emitImmAndReg_64 ud imm dest)
    (Insn False False M_and [Gpr 64 dest, Imm (sint imm)])"
  using assms by (intro emitsI [where bs = "[rex True False False (8 \<le> dest), cbyte 0x81, modrm 3 4 (dest mod 8)] @ le_bytes32 imm"],
    (simp add: decode_simps), (cases "8 \<le> dest"; simp add: emitImmAndReg_64_def emit_eval; simp add: emit_ac))

lemma emitImmOrReg_64_emits:
  assumes "dest < 16"
  shows "emits True (\<lambda>ud. emitImmOrReg_64 ud imm dest)
    (Insn False False M_or [Gpr 64 dest, Imm (sint imm)])"
  using assms by (intro emitsI [where bs = "[rex True False False (8 \<le> dest), cbyte 0x81, modrm 3 1 (dest mod 8)] @ le_bytes32 imm"],
    (simp add: decode_simps), (cases "8 \<le> dest"; simp add: emitImmOrReg_64_def emit_eval; simp add: emit_ac))

lemma emitMoveTLSOffsetToReg_64_emits:
  assumes "dest < 16"
  shows "emits True (\<lambda>ud. emitMoveTLSOffsetToReg_64 ud imm dest)
    (Insn False False M_mov [Gpr 64 dest, Mem 64 64 (Some 4) (Addr None None (sint imm))])"
  using assms by (intro emitsI [where bs = "[cbyte 0x64, rex True (8 \<le> dest) False False, cbyte 0x8b, modrm 0 (dest mod 8) 4, modrm 0 4 5] @ le_bytes32 imm"],
    (simp add: decode_simps), (cases "8 \<le> dest"; simp add: emitMoveTLSOffsetToReg_64_def emit_eval; simp add: emit_ac))

lemma emitMoveThreadIdToReg_64_emits:
  assumes "dest < 16"
  shows "emits True (\<lambda>ud. emitMoveThreadIdToReg_64 ud dest)
    (Insn False False M_mov [Gpr 64 dest, Mem 64 64 (Some 4) (Addr None None 16)])"
  using emitMoveTLSOffsetToReg_64_emits [OF assms, of "0x10"] by (simp add: emitMoveThreadIdToReg_64_def)

lemma emitMoveImmToMem_64_emits:
  "emits True (\<lambda>ud. emitMoveImmToMem_64 ud imm addr)
    (Insn False False M_mov [Mem 32 64 (None) (Addr None None (sint (ucast addr :: u32))), Imm (sint (ucast imm :: u32))])"
  by (intro emitsI [where bs = "[cbyte 0xc7, modrm 0 0 4, modrm 0 4 5] @ le_bytes32 (ucast addr) @ le_bytes32 (ucast imm)"],
    (simp add: decode_simps), (simp add: emitMoveImmToMem_64_def emit_eval; simp add: emit_ac))

lemma emitFxSave_64_emits:
  "emits True (\<lambda>ud. emitFxSave_64 ud addr)
    (Insn False False M_fxsave [Mem 4096 64 None (RipRel (sint (ucast addr :: u32)))])"
  by (intro emitsI [where bs = "[cbyte 0x0f, cbyte 0xae, modrm 0 0 5] @ le_bytes32 (ucast addr)"],
    (simp add: decode_simps), (simp add: emitFxSave_64_def emit_eval; simp add: emit_ac))

lemma emitFxSaveReg_64_emits:
  assumes "reg < 16" "reg \<noteq> 5" "reg \<noteq> 13"
  shows "emits True (\<lambda>ud. emitFxSaveReg_64 ud reg)
    (Insn False False M_fxsave [Mem 4096 64 None (Addr (Some reg) None (0))])"
  using assms by (intro emitsI [where bs = "(if 8 \<le> reg then [rex False False False True] else []) @ [cbyte 0x0f, cbyte 0xae, modrm 0 0 (reg mod 8)] @ (if reg = 4 \<or> reg = 12 then [modrm 0 4 4] else [])"],
    (cases "reg = 4"; cases "reg = 12"; cases "(8 \<le> reg)"; simp add: decode_simps), (cases "reg = 4"; cases "reg = 12"; cases "(8 \<le> reg)"; cases "8 \<le> reg"; simp add: emitFxSaveReg_64_def emit_eval; simp add: emit_ac))

lemma emitFxRstor_64_emits:
  "emits True (\<lambda>ud. emitFxRstor_64 ud addr)
    (Insn False False M_fxrstor [Mem 4096 64 None (RipRel (sint (ucast addr :: u32)))])"
  by (intro emitsI [where bs = "[cbyte 0x0f, cbyte 0xae, modrm 0 1 5] @ le_bytes32 (ucast addr)"],
    (simp add: decode_simps), (simp add: emitFxRstor_64_def emit_eval; simp add: emit_ac))

lemma emitFxRstorReg_64_emits:
  assumes "reg < 16" "reg \<noteq> 5" "reg \<noteq> 13"
  shows "emits True (\<lambda>ud. emitFxRstorReg_64 ud reg)
    (Insn False False M_fxrstor [Mem 4096 64 None (Addr (Some reg) None (0))])"
  using assms by (intro emitsI [where bs = "(if 8 \<le> reg then [rex False False False True] else []) @ [cbyte 0x0f, cbyte 0xae, modrm 0 1 (reg mod 8)] @ (if reg = 4 \<or> reg = 12 then [modrm 0 4 4] else [])"],
    (cases "reg = 4"; cases "reg = 12"; cases "(8 \<le> reg)"; simp add: decode_simps), (cases "reg = 4"; cases "reg = 12"; cases "(8 \<le> reg)"; cases "8 \<le> reg"; simp add: emitFxRstorReg_64_def emit_eval; simp add: emit_ac))

lemma emitMoveSegmentRegToReg_64_emits:
  assumes "src < 6" "dest < 16"
  shows "emits True (\<lambda>ud. emitMoveSegmentRegToReg_64 ud src dest)
    (Insn False False M_mov [Gpr 64 dest, Seg src])"
  using assms by (intro emitsI [where bs = "[rex True False False (8 \<le> dest), cbyte 0x8c, modrm 3 src (dest mod 8)]"],
    (simp add: decode_simps), (cases "8 \<le> dest"; simp add: emitMoveSegmentRegToReg_64_def emit_eval; simp add: emit_ac))

lemma emitLoadRegImmReg_64_emits:
  assumes "idxsrc < 16" "idxdest < 16" "idxdest \<noteq> 12"
  shows "emits True (\<lambda>ud. emitLoadRegImmReg_64 ud idxsrc imm idxdest)
    (Insn False False M_lea [Gpr 64 idxsrc, Mem 0 64 None (Addr (Some idxdest) None (sint (ucast imm :: u32)))])"
  using assms by (intro emitsI [where bs = "[rex True (8 \<le> idxsrc) False (8 \<le> idxdest), cbyte 0x8d, modrm 2 (idxsrc mod 8) (idxdest mod 8)] @ (if idxdest = 4 then [modrm 0 4 4] else []) @ le_bytes32 (ucast imm)"],
    (cases "idxdest = 4"; simp add: decode_simps), (cases "idxdest = 4"; cases "8 \<le> idxsrc"; cases "8 \<le> idxdest"; simp add: emitLoadRegImmReg_64_def emit_eval; simp add: emit_ac))

lemma emitLoadRipImmReg_64_emits:
  assumes "idxdest < 16" "idxdest \<noteq> 4"
  shows "emits True (\<lambda>ud. emitLoadRipImmReg_64 ud imm idxdest)
    (Insn False False M_lea [Gpr 64 idxdest, Mem 0 64 None (RipRel (sint (ucast imm :: u32)))])"
  using assms by (intro emitsI [where bs = "[rex True (8 \<le> idxdest) False (8 \<le> idxdest), cbyte 0x8d, modrm 0 (idxdest mod 8) 5] @ le_bytes32 (ucast imm)"],
    (simp add: decode_simps), (cases "8 \<le> idxdest"; simp add: emitLoadRipImmReg_64_def emit_eval; simp add: emit_ac))

lemma emitLoadRipImmToReg_64_emits:
  assumes "destreg < 16"
  shows "emits True (\<lambda>ud. emitLoadRipImmToReg_64 ud imm destreg)
    (Insn False False M_lea [Gpr 64 destreg, Mem 0 64 None (RipRel (sint imm))])"
  using assms by (intro emitsI [where bs = "[rex True (8 \<le> destreg) False False, cbyte 0x8d, modrm 0 (destreg mod 8) 5] @ le_bytes32 imm"],
    (simp add: decode_simps), (cases "8 \<le> destreg"; simp add: emitLoadRipImmToReg_64_def emit_eval; simp add: emit_ac))

lemma emitShiftRightLogical_64_emits:
  assumes "reg < 16"
  shows "emits True (\<lambda>ud. emitShiftRightLogical_64 ud imm reg)
    (Insn False False M_shr [Gpr 64 reg, Imm (sint imm)])"
  using assms by (intro emitsI [where bs = "[rex True False False (8 \<le> reg), cbyte 0xc1, modrm 3 5 (reg mod 8), imm]"],
    (simp add: decode_simps), (cases "8 \<le> reg"; simp add: emitShiftRightLogical_64_def emit_eval; simp add: emit_ac))

lemma emitShiftLeftLogical_64_emits:
  assumes "reg < 16"
  shows "emits True (\<lambda>ud. emitShiftLeftLogical_64 ud imm reg)
    (Insn False False M_shl [Gpr 64 reg, Imm (sint imm)])"
  using assms by (intro emitsI [where bs = "[rex True False False (8 \<le> reg), cbyte 0xc1, modrm 3 4 (reg mod 8), imm]"],
    (simp add: decode_simps), (cases "8 \<le> reg"; simp add: emitShiftLeftLogical_64_def emit_eval; simp add: emit_ac))

lemma emitCompareImmReg_64_emits:
  assumes "reg < 16" "unat imm < 4294967296"
  shows "emits True (\<lambda>ud. emitCompareImmReg_64 ud imm reg)
    (Insn False False M_cmp [Gpr 64 reg, Imm (sint (ucast imm :: u32))])"
  using assms by (intro emitsI [where bs = "[rex True False False (8 \<le> reg), cbyte 0x81, modrm 3 7 (reg mod 8)] @ le_bytes32 (ucast imm)"],
    (simp add: decode_simps), (cases "8 \<le> reg"; simp add: emitCompareImmReg_64_def emit_eval; simp add: emit_ac))

lemma emitMoveRegToReg_64_emits:
  assumes "srcreg < 16" "destreg < 16"
  shows "emits True (\<lambda>ud. emitMoveRegToReg_64 ud srcreg destreg)
    (Insn False False M_mov [Gpr 64 destreg, Gpr 64 srcreg])"
  using assms by (intro emitsI [where bs = "[rex True (8 \<le> srcreg) False (8 \<le> destreg), cbyte 0x89, modrm 3 (srcreg mod 8) (destreg mod 8)]"],
    (simp add: decode_simps), (cases "8 \<le> srcreg"; cases "8 \<le> destreg"; simp add: emitMoveRegToReg_64_def emit_eval; simp add: emit_ac))

lemma emitRegAddReg2OpForm_64_emits:
  assumes "srcdestreg < 16" "srcreg < 16"
  shows "emits True (\<lambda>ud. emitRegAddReg2OpForm_64 ud srcdestreg srcreg)
    (Insn False False M_add [Gpr 64 srcreg, Gpr 64 srcdestreg])"
  using assms by (intro emitsI [where bs = "[rex True (8 \<le> srcdestreg) False (8 \<le> srcreg), cbyte 0x01, modrm 3 (srcdestreg mod 8) (srcreg mod 8)]"],
    (simp add: decode_simps), (cases "8 \<le> srcdestreg"; cases "8 \<le> srcreg"; simp add: emitRegAddReg2OpForm_64_def emit_eval; simp add: emit_ac))

lemma emitRegAndReg_64_emits:
  assumes "srcdest < 16" "src < 16"
  shows "emits True (\<lambda>ud. emitRegAndReg_64 ud src srcdest)
    (Insn False False M_and [Gpr 64 src, Gpr 64 srcdest])"
  using assms by (intro emitsI [where bs = "[rex True (8 \<le> srcdest) False (8 \<le> src), cbyte 0x21, modrm 3 (srcdest mod 8) (src mod 8)]"],
    (simp add: decode_simps), (cases "8 \<le> srcdest"; cases "8 \<le> src"; simp add: emitRegAndReg_64_def emit_eval; simp add: emit_ac))

lemma emitRegOrReg_64_emits:
  assumes "srcdest < 16" "src < 16"
  shows "emits True (\<lambda>ud. emitRegOrReg_64 ud src srcdest)
    (Insn False False M_or [Gpr 64 src, Gpr 64 srcdest])"
  using assms by (intro emitsI [where bs = "[rex True (8 \<le> srcdest) False (8 \<le> src), cbyte 0x09, modrm 3 (srcdest mod 8) (src mod 8)]"],
    (simp add: decode_simps), (cases "8 \<le> srcdest"; cases "8 \<le> src"; simp add: emitRegOrReg_64_def emit_eval; simp add: emit_ac))

lemma emitRegImmMultReg_64_emits:
  assumes "dest < 16"
  shows "emits True (\<lambda>ud. emitRegImmMultReg_64 ud dest imm dest)
    (Insn False False M_imul [Gpr 64 dest, Gpr 64 dest, Imm (sint imm)])"
  using assms by (intro emitsI [where bs = "[rex True (8 \<le> dest) False (8 \<le> dest), cbyte 0x69, modrm 3 (dest mod 8) (dest mod 8)] @ le_bytes32 imm"],
    (simp add: decode_simps), (cases "8 \<le> dest"; simp add: emitRegImmMultReg_64_def emit_eval; simp add: emit_ac))

lemma emitXorRegReg_64_emits:
  assumes "src < 8" "tgt < 8"
  shows "emits True (\<lambda>ud. emitXorRegReg_64 ud src tgt)
    (Insn False False M_xor [Gpr 64 tgt, Gpr 64 src])"
  using assms by (intro emitsI [where bs = "[rex True False False False, cbyte 0x31, modrm 3 src tgt]"],
    (simp add: decode_simps), (simp add: emitXorRegReg_64_def emit_eval; simp add: emit_ac))

lemma emitAddImmToMem_64_emits:
  "emits True (\<lambda>ud. emitAddImmToMem_64 ud imm addr)
    (Insn False False M_add [Mem 64 64 (None) (Addr None None (sint (ucast addr :: u32))), Imm (sint imm)])"
  by (intro emitsI [where bs = "[rex True False False False, cbyte 0x81, modrm 0 0 4, modrm 0 4 5] @ le_bytes32 (ucast addr) @ le_bytes32 imm"],
    (simp add: decode_simps), (simp add: emitAddImmToMem_64_def emit_eval; simp add: emit_ac))

lemma emitAddImmByteToMem_64_emits:
  "emits True (\<lambda>ud. emitAddImmByteToMem_64 ud imm addr)
    (Insn False False M_add [Mem 64 64 (None) (Addr None None (sint (ucast addr :: u32))), Imm (sint imm)])"
  by (intro emitsI [where bs = "[rex True False False False, cbyte 0x83, modrm 0 0 4, modrm 0 4 5] @ le_bytes32 (ucast addr) @ [imm]"],
    (simp add: decode_simps), (simp add: emitAddImmByteToMem_64_def emit_eval; simp add: emit_ac))

lemma emitSubImmByteToMem_64_emits:
  "emits True (\<lambda>ud. emitSubImmByteToMem_64 ud imm addr)
    (Insn False False M_sub [Mem 64 64 (None) (Addr None None (sint (ucast addr :: u32))), Imm (sint imm)])"
  by (intro emitsI [where bs = "[rex True False False False, cbyte 0x83, modrm 0 5 4, modrm 0 4 5] @ le_bytes32 (ucast addr) @ [imm]"],
    (simp add: decode_simps), (simp add: emitSubImmByteToMem_64_def emit_eval; simp add: emit_ac))

lemma emitMoveImmToRegaddrImm_64_emits:
  assumes "idx < 16"
  shows "emits True (\<lambda>ud. emitMoveImmToRegaddrImm_64 ud val idx off)
    (Insn False False M_mov [Mem 64 32 None (Addr (Some idx) None (sint (ucast off :: u32))), Imm (sint (ucast val :: u32))])"
  using assms by (intro emitsI [where bs = "[cbyte 0x67, rex True False False (8 \<le> idx), cbyte 0xc7, modrm 2 0 (idx mod 8)] @ (if idx = 4 \<or> idx = 12 then [modrm 0 4 4] else []) @ le_bytes32 (ucast off) @ le_bytes32 (ucast val)"],
    (cases "idx = 4"; cases "idx = 12"; simp add: decode_simps), (cases "idx = 4"; cases "idx = 12"; cases "8 \<le> idx"; simp add: emitMoveImmToRegaddrImm_64_def emit_eval; simp add: emit_ac))

lemma emitMoveRegaddrImmToReg_64_emits:
  assumes "idxsrc < 16" "idxdest < 16"
  shows "emits True (\<lambda>ud. emitMoveRegaddrImmToReg_64 ud idxsrc imm idxdest)
    (Insn False False M_mov [Gpr 64 idxdest, Mem 64 64 None (Addr (Some idxsrc) None (sint (ucast imm :: u32)))])"
  using assms by (intro emitsI [where bs = "[rex True (8 \<le> idxdest) False (8 \<le> idxsrc), cbyte 0x8b, modrm 2 (idxdest mod 8) (idxsrc mod 8)] @ (if idxsrc = 4 \<or> idxsrc = 12 then [modrm 0 4 4] else []) @ le_bytes32 (ucast imm)"],
    (cases "idxsrc = 4"; cases "idxsrc = 12"; simp add: decode_simps), (cases "idxsrc = 4"; cases "idxsrc = 12"; cases "8 \<le> idxdest"; cases "8 \<le> idxsrc"; simp add: emitMoveRegaddrImmToReg_64_def emit_eval; simp add: emit_ac))

lemma emitStackPush4Byte_64_emits:
  assumes "idx < 8"
  shows "emits True (\<lambda>ud. emitStackPush4Byte_64 ud idx)
    (Insn False False M_push [Gpr 16 idx])"
  using lt8_cases [OF assms(1)]
  by (elim disjE; intro emitsI [where bs = "[cbyte 0x66, cbyte (0x50 + idx)]"];
    simp add: decode_simps emitStackPush4Byte_64_def emit_eval)

lemma emitMoveRegToRegaddr_64_emits:
  assumes "srcidx < 16" "destidx < 16"
  shows "emits True (\<lambda>ud. emitMoveRegToRegaddr_64 ud destidx srcidx)
    (Insn False False M_mov [Mem 64 64 None (Addr (Some srcidx) None (0)), Gpr 64 destidx])"
  using assms by (intro emitsI [where bs = "[rex True (8 \<le> destidx) False (8 \<le> srcidx), cbyte 0x89, modrm (if srcidx = 5 \<or> srcidx = 13 then 1 else 0) (destidx mod 8) (srcidx mod 8)] @ (if srcidx = 4 \<or> srcidx = 12 then [modrm 0 4 4] else []) @ (if srcidx = 5 \<or> srcidx = 13 then [cbyte 0] else [])"],
    (cases "srcidx = 4"; cases "srcidx = 12"; cases "srcidx = 5"; cases "srcidx = 13"; simp add: decode_simps), (cases "srcidx = 4"; cases "srcidx = 12"; cases "srcidx = 5"; cases "srcidx = 13"; cases "8 \<le> destidx"; cases "8 \<le> srcidx"; simp add: emitMoveRegToRegaddr_64_def emit_eval; simp add: emit_ac))

lemma emitMoveRegaddrToReg_64_emits:
  assumes "srcidx < 16" "destidx < 16"
  shows "emits True (\<lambda>ud. emitMoveRegaddrToReg_64 ud srcidx destidx)
    (Insn False False M_mov [Gpr 64 destidx, Mem 64 64 None (Addr (Some srcidx) None (0))])"
  using assms by (intro emitsI [where bs = "[rex True (8 \<le> destidx) False (8 \<le> srcidx), cbyte 0x8b, modrm (if srcidx = 5 \<or> srcidx = 13 then 1 else 0) (destidx mod 8) (srcidx mod 8)] @ (if srcidx = 4 \<or> srcidx = 12 then [modrm 0 4 4] else []) @ (if srcidx = 5 \<or> srcidx = 13 then [cbyte 0] else [])"],
    (cases "srcidx = 4"; cases "srcidx = 12"; cases "srcidx = 5"; cases "srcidx = 13"; simp add: decode_simps), (cases "srcidx = 4"; cases "srcidx = 12"; cases "srcidx = 5"; cases "srcidx = 13"; cases "8 \<le> destidx"; cases "8 \<le> srcidx"; simp add: emitMoveRegaddrToReg_64_def emit_eval; simp add: emit_ac))

lemma emitRegSubImm4Byte_64_emits:
  assumes "0 < idx" "idx < 8"
  shows "emits True (\<lambda>ud. emitRegSubImm4Byte_64 ud idx imm)
    (Insn False False M_sub [Gpr 64 idx, Imm (sint imm)])"
  using assms by (intro emitsI [where bs = "[rex True False False False, cbyte 0x81, modrm 3 5 idx] @ le_bytes32 imm"],
    (simp add: decode_simps), (simp add: emitRegSubImm4Byte_64_def emit_eval; simp add: emit_ac))

lemma emitRegAddImm4Byte_64_emits:
  assumes "0 < idx" "idx < 16"
  shows "emits True (\<lambda>ud. emitRegAddImm4Byte_64 ud idx imm)
    (Insn False False M_add [Gpr 64 idx, Imm (sint imm)])"
  using assms by (intro emitsI [where bs = "[rex True False False (8 \<le> idx), cbyte 0x81, modrm 3 0 (idx mod 8)] @ le_bytes32 imm"],
    (simp add: decode_simps), (cases "8 \<le> idx"; simp add: emitRegAddImm4Byte_64_def emit_eval; simp add: emit_ac))

lemma emitMoveRegToRegaddrImm_64_emits:
  assumes "idxsrc < 16" "idxdest < 16"
  shows "emits True (\<lambda>ud. emitMoveRegToRegaddrImm_64 ud idxsrc idxdest imm w)
    (Insn False False M_mov [Mem (if w then 64 else 32) 64 None (Addr (Some idxdest) None (sint (ucast imm :: u32))), Gpr (if w then 64 else 32) idxsrc])"
  using assms by (intro emitsI [where bs = "[rex w (8 \<le> idxsrc) False (8 \<le> idxdest), cbyte 0x89, modrm 2 (idxsrc mod 8) (idxdest mod 8)] @ (if idxdest = 4 \<or> idxdest = 12 then [modrm 0 4 4] else []) @ le_bytes32 (ucast imm)"],
    (cases "w"; cases "idxdest = 4"; cases "idxdest = 12"; simp add: decode_simps), (cases "w"; cases "idxdest = 4"; cases "idxdest = 12"; cases "8 \<le> idxsrc"; cases "8 \<le> idxdest"; simp add: emitMoveRegToRegaddrImm_64_def emit_eval; simp add: emit_ac))

lemma emitMoveRegToRegaddrImm1Byte_64_emits:
  assumes "idxsrc < 8" "idxdest < 8"
  shows "emits True (\<lambda>ud. emitMoveRegToRegaddrImm1Byte_64 ud idxsrc idxdest imm)
    (Insn False False M_mov [Mem 64 64 None (Addr (Some idxdest) None (sint (ucast imm :: byte))), Gpr 64 idxsrc])"
  using assms by (intro emitsI [where bs = "[rex True False False False, cbyte 0x89, modrm 1 idxsrc idxdest] @ (if idxdest = 4 then [modrm 0 4 4] else []) @ [ucast imm]"],
    (cases "idxdest = 4"; simp add: decode_simps), (cases "idxdest = 4"; simp add: emitMoveRegToRegaddrImm1Byte_64_def emit_eval; simp add: emit_ac))

lemma emitMoveRegToRegaddrImm4Byte_64_emits:
  assumes "idxsrc < 8" "idxdest < 8"
  shows "emits True (\<lambda>ud. emitMoveRegToRegaddrImm4Byte_64 ud idxsrc idxdest imm)
    (Insn False False M_mov [Mem 64 64 None (Addr (Some idxdest) None (sint (ucast imm :: u32))), Gpr 64 idxsrc])"
  using assms by (intro emitsI [where bs = "[rex True False False False, cbyte 0x89, modrm 2 idxsrc idxdest] @ (if idxdest = 4 then [modrm 0 4 4] else []) @ le_bytes32 (ucast imm)"],
    (cases "idxdest = 4"; simp add: decode_simps), (cases "idxdest = 4"; simp add: emitMoveRegToRegaddrImm4Byte_64_def emit_eval; simp add: emit_ac))

lemma emitIndirectRelativeJump_64_emits:
  assumes "unat addr < 4294967296" "unat tgt < 4294967296"
  shows "emits True (\<lambda>ud. emitIndirectRelativeJump_64 ud addr tgt)
    (Insn False False M_jmp [Mem 64 64 None (RipRel (sint (ucast (tgt - addr - 6) :: u32)))])"
  using assms by (intro emitsI [where bs = "[cbyte 0xff, modrm 0 4 5] @ le_bytes32 (ucast (tgt - addr - 6))"],
    (simp add: decode_simps), (simp add: emitIndirectRelativeJump_64_def emit_eval; simp add: emit_ac))

lemma emitMoveImmToReg_64_emits:
  assumes "idx < 16" "unat imm < 4294967296"
  shows "emits True (\<lambda>ud. emitMoveImmToReg_64 ud imm idx)
    (Insn False False M_mov [Gpr 64 idx, Imm (sint (ucast imm :: u32))])"
  using assms by (intro emitsI [where bs = "[rex True False False (8 \<le> idx), cbyte 0xc7, modrm 3 0 (idx mod 8)] @ le_bytes32 (ucast imm)"],
    (simp add: decode_simps), (cases "8 \<le> idx"; simp add: emitMoveImmToReg_64_def emit_eval; simp add: emit_ac))

lemma emitMoveRegToMem_64_emits:
  assumes "idx < 16" "unat addr < 4294967296"
  shows "emits True (\<lambda>ud. emitMoveRegToMem_64 ud idx addr)
    (Insn False False M_mov [Mem 64 64 (None) (Addr None None (sint (ucast addr :: u32))), Gpr 64 idx])"
  using assms by (intro emitsI [where bs = "[rex True (8 \<le> idx) False False, cbyte 0x89, modrm 0 (idx mod 8) 4, modrm 0 4 5] @ le_bytes32 (ucast addr)"],
    (simp add: decode_simps), (cases "8 \<le> idx"; simp add: emitMoveRegToMem_64_def emit_eval; simp add: emit_ac))

lemma emitMoveMemToReg_64_emits:
  assumes "idx < 16" "unat addr < 4294967296"
  shows "emits True (\<lambda>ud. emitMoveMemToReg_64 ud addr idx True)
    (Insn False False M_mov [Gpr 64 idx, Mem 64 64 (None) (Addr None None (sint (ucast addr :: u32)))])"
  using assms by (intro emitsI [where bs = "[rex True (8 \<le> idx) False False, cbyte 0x8b, modrm 0 (idx mod 8) 4, modrm 0 4 5] @ le_bytes32 (ucast addr)"],
    (simp add: decode_simps), (cases "8 \<le> idx"; simp add: emitMoveMemToReg_64_def emit_eval; simp add: emit_ac))

lemma emitMoveMemToReg_64_dword_emits:
  assumes "idx < 8" "unat addr < 4294967296"
  shows "emits True (\<lambda>ud. emitMoveMemToReg_64 ud addr idx False)
    (Insn False False M_mov [Gpr 32 idx, Mem 32 64 (None) (Addr None None (sint (ucast addr :: u32)))])"
  using assms by (intro emitsI [where bs = "[cbyte 0x8b, modrm 0 idx 4, modrm 0 4 5] @ le_bytes32 (ucast addr)"],
    (simp add: decode_simps), (simp add: emitMoveMemToReg_64_def emit_eval; simp add: emit_ac))

lemma emitNop1_emits: "emits True emitNop1 (Insn False False M_nop [])"
  by (intro emitsI [where bs = "[cbyte 0x90]"], simp add: decode_simps)
    (simp add: emitNop1_def emitNop_def emitNop_bytes_def emit_eval)

lemma emitRegSubImm_64_emits:
  assumes "0 < idx" "idx < 8" "imm \<noteq> 0"
  shows "emits True (\<lambda>ud. emitRegSubImm_64 ud idx imm) (Insn False False M_sub [Gpr 64 idx, Imm (sint imm)])"
  using emitRegSubImm4Byte_64_emits [OF assms(1,2)] assms by (simp add: emitRegSubImm_64_def x86_consts)

lemma emitRegAddImm_64_emits:
  assumes "0 < idx" "idx < 16" "imm \<noteq> 0"
  shows "emits True (\<lambda>ud. emitRegAddImm_64 ud idx imm) (Insn False False M_add [Gpr 64 idx, Imm (sint imm)])"
  using emitRegAddImm4Byte_64_emits [OF assms(1,2)] assms by (simp add: emitRegAddImm_64_def x86_consts)

lemma lt16_cases:
  assumes "r < (16 :: nat)"
  obtains "r < 8" | k where "k < 8" and "r = k + 8"
proof (cases "r < 8")
  case False
  then have "r - 8 < 8" "r = (r - 8) + 8" using assms by simp_all
  then show ?thesis by (rule that(2))
qed (rule that(1))

lemma emitStackPush_32_in_64_emits:
  assumes "r < 8"
  shows "emits True (\<lambda>ud. emitStackPush_32 ud r)
    (Insn False False M_push [Gpr 64 r])"
  using lt8_cases [OF assms(1)]
  by (elim disjE; intro emitsI [where bs = "[cbyte (0x50 + r)]"];
    simp add: decode_simps emitStackPush_32_def emit_eval)

lemma emitStackPush_64_high_emits:
  assumes "k < 8"
  shows "emits True (\<lambda>ud. emitStackPush_64 ud (k + 8))
    (Insn False False M_push [Gpr 64 (k + 8)])"
  using lt8_cases [OF assms(1)]
  by (elim disjE; intro emitsI [where bs = "[rex False False False True, cbyte (0x48 + (k + 8))]"];
    simp add: decode_simps emitStackPush_64_def emit_eval)

lemma emitStackPush_64_emits:
  assumes "r < 16"
  shows "emits True (\<lambda>ud. emitStackPush_64 ud r) (Insn False False M_push [Gpr 64 r])"
  using assms
proof (cases rule: lt16_cases)
  case 1
  then show ?thesis using emitStackPush_32_in_64_emits [OF 1] by (simp add: emitStackPush_64_def x86_consts)
next
  case (2 k)
  then show ?thesis using emitStackPush_64_high_emits [OF 2(1)] by simp
qed

lemma emitStackPop_32_in_64_emits:
  assumes "r < 8"
  shows "emits True (\<lambda>ud. emitStackPop_32 ud r)
    (Insn False False M_pop [Gpr 64 r])"
  using lt8_cases [OF assms(1)]
  by (elim disjE; intro emitsI [where bs = "[cbyte (0x58 + r)]"];
    simp add: decode_simps emitStackPop_32_def emit_eval)

lemma emitStackPop_64_high_emits:
  assumes "k < 8"
  shows "emits True (\<lambda>ud. emitStackPop_64 ud (k + 8))
    (Insn False False M_pop [Gpr 64 (k + 8)])"
  using lt8_cases [OF assms(1)]
  by (elim disjE; intro emitsI [where bs = "[rex False False False True, cbyte (0x50 + (k + 8))]"];
    simp add: decode_simps emitStackPop_64_def emit_eval)

lemma emitStackPop_64_emits:
  assumes "r < 16"
  shows "emits True (\<lambda>ud. emitStackPop_64 ud r) (Insn False False M_pop [Gpr 64 r])"
  using assms
proof (cases rule: lt16_cases)
  case 1
  then show ?thesis using emitStackPop_32_in_64_emits [OF 1] by (simp add: emitStackPop_64_def x86_consts)
next
  case (2 k)
  then show ?thesis using emitStackPop_64_high_emits [OF 2(1)] by simp
qed

lemma emitMoveImm64ToReg_64_low_emits:
  assumes "r < 8"
  shows "emits True (\<lambda>ud. emitMoveImm64ToReg_64 ud imm r)
    (Insn False False M_mov [Gpr 64 r, Imm (sint imm)])"
  using lt8_cases [OF assms(1)]
  by (elim disjE; intro emitsI [where bs = "[rex True False False False, cbyte (0xb8 + r)] @ le_bytes64 imm"];
    simp add: decode_simps emitMoveImm64ToReg_64_def emit_eval)

lemma emitMoveImm64ToReg_64_high_emits:
  assumes "k < 8"
  shows "emits True (\<lambda>ud. emitMoveImm64ToReg_64 ud imm (k + 8))
    (Insn False False M_mov [Gpr 64 (k + 8), Imm (sint imm)])"
  using lt8_cases [OF assms(1)]
  by (elim disjE; intro emitsI [where bs = "[rex True False False True, cbyte (0xb8 + k)] @ le_bytes64 imm"];
    simp add: decode_simps emitMoveImm64ToReg_64_def emit_eval)

lemma emitMoveImm64ToReg_64_emits:
  assumes "r < 16"
  shows "emits True (\<lambda>ud. emitMoveImm64ToReg_64 ud imm r) (Insn False False M_mov [Gpr 64 r, Imm (sint imm)])"
  using assms
proof (cases rule: lt16_cases)
  case 1
  then show ?thesis by (rule emitMoveImm64ToReg_64_low_emits)
next
  case (2 k)
  then show ?thesis using emitMoveImm64ToReg_64_high_emits [OF 2(1), of imm] by simp
qed

lemma mod8_add16: "(r + 16) mod 8 = (r mod 8 :: nat)" "(16 + r) mod 8 = (r mod 8 :: nat)"
  using mod_mult_self1 [of r 2 8] by (simp_all add: add.commute)

lemma emitMoveMemToXMMReg_64_emits:
  assumes "r < 16" "unat addr < 4294967296"
  shows "emits True (\<lambda>ud. emitMoveMemToXMMReg_64 ud addr (r + 16))
    (Insn False False M_movsd [Xmm r, Mem 64 64 None (Addr None None (sint (ucast addr :: u32)))])"
  using assms by (intro emitsI [where bs = "[cbyte 0xf2] @ (if 8 \<le> r then [rex False True False False] else []) @ [cbyte 0x0f, cbyte 0x10, modrm 0 (r mod 8) 4, modrm 0 4 5] @ le_bytes32 (ucast addr)"],
    (cases "(8 \<le> r)"; simp add: decode_simps), (cases "(8 \<le> r)"; simp add: emitMoveMemToXMMReg_64_def emit_eval mod8_add16; simp add: emit_ac))

section \<open>Load effective address\<close>

lemma emitLeaBaseIndex_64_emits:
  assumes "dest < 16" "indexReg < 16" "baseReg < 16" "k < 4"
  shows "emits True (\<lambda>ud. emitLeaBaseIndex_64 ud baseReg indexReg (64 * k) dest)
    (Insn False False M_lea [Gpr 64 dest, Mem 0 64 None (Addr (Some baseReg) (if indexReg = 4 then None else Some (indexReg, 2 ^ k)) 0)])"
  using assms by (intro emitsI [where bs = "[rex True (8 \<le> dest) (8 \<le> indexReg) (8 \<le> baseReg), cbyte 0x8d, modrm (if baseReg = 5 \<or> baseReg = 13 then 1 else 0) (dest mod 8) 4, modrm k (indexReg mod 8) (baseReg mod 8)] @ (if baseReg = 5 \<or> baseReg = 13 then [cbyte 0] else [])"],
    (cases "indexReg = 4"; cases "baseReg = 5"; cases "baseReg = 13"; simp add: decode_simps), (cases "indexReg = 4"; cases "baseReg = 5"; cases "baseReg = 13"; cases "8 \<le> dest"; cases "8 \<le> indexReg"; cases "8 \<le> baseReg"; simp add: emitLeaBaseIndex_64_def emit_eval lea_rex_64_def; simp add: emit_ac))

lemma emitLeaIndexValue_64_base_emits:
  assumes "dest < 16" "indexReg < 16" "baseReg < 16" "k < 4"
  shows "emits True (\<lambda>ud. emitLeaIndexValue_64 ud baseReg indexReg (64 * k) value dest True)
    (Insn False False M_lea [Gpr 64 dest, Mem 0 64 None (Addr (Some baseReg) (if indexReg = 4 then None else Some (indexReg, 2 ^ k)) (sint (ucast value :: u32)))])"
  using assms by (intro emitsI [where bs = "[rex True (8 \<le> dest) (8 \<le> indexReg) (8 \<le> baseReg), cbyte 0x8d, modrm 2 (dest mod 8) 4, modrm k (indexReg mod 8) (baseReg mod 8)] @ le_bytes32 (ucast value)"],
    (cases "indexReg = 4"; simp add: decode_simps), (cases "indexReg = 4"; cases "8 \<le> dest"; cases "8 \<le> indexReg"; cases "8 \<le> baseReg"; simp add: emitLeaIndexValue_64_def emit_eval lea_rex_64_def; simp add: emit_ac))

lemma emitLeaIndexValue_64_emits:
  assumes "dest < 16" "indexReg < 16" "k < 4"
  shows "emits True (\<lambda>ud. emitLeaIndexValue_64 ud baseReg indexReg (64 * k) value dest False)
    (Insn False False M_lea [Gpr 64 dest, Mem 0 64 None (Addr None (if indexReg = 4 then None else Some (indexReg, 2 ^ k)) (sint (ucast value :: u32)))])"
  using assms by (intro emitsI [where bs = "[rex True (8 \<le> dest) (8 \<le> indexReg) False, cbyte 0x8d, modrm 0 (dest mod 8) 4, modrm k (indexReg mod 8) 5] @ le_bytes32 (ucast value)"],
    (cases "indexReg = 4"; simp add: decode_simps), (cases "indexReg = 4"; cases "8 \<le> dest"; cases "8 \<le> indexReg"; simp add: emitLeaIndexValue_64_def emit_eval lea_rex_64_def; simp add: emit_ac))

lemma emitLeaBaseOffset_64_emits:
  assumes "dest < 16" "baseReg < 16"
  shows "emits True (\<lambda>ud. emitLeaBaseOffset_64 ud baseReg value dest)
    (Insn False False M_lea [Gpr 64 dest, Mem 0 64 None (Addr (Some baseReg) None (sint (ucast value :: u32)))])"
  using assms by (intro emitsI [where bs = "[rex True (8 \<le> dest) False (8 \<le> baseReg), cbyte 0x8d, modrm 2 (dest mod 8) (baseReg mod 8)] @ (if baseReg = 4 \<or> baseReg = 12 then [modrm 0 4 4] else []) @ le_bytes32 (ucast value)"],
    (cases "baseReg = 4"; cases "baseReg = 12"; simp add: decode_simps), (cases "baseReg = 4"; cases "baseReg = 12"; cases "8 \<le> dest"; cases "8 \<le> baseReg"; simp add: emitLeaBaseOffset_64_def emit_eval UD_R_RAX_def UD_R_RIP_def; simp add: emit_ac))

lemma emitLeaBaseOffset_64_rip_emits:
  assumes "dest < 16"
  shows "emits True (\<lambda>ud. emitLeaBaseOffset_64 ud 102 value dest)
    (Insn False False M_lea [Gpr 64 dest, Mem 0 64 None (RipRel (sint (ucast value :: u32)))])"
  using assms by (intro emitsI [where bs = "[rex True (8 \<le> dest) False True, cbyte 0x8d, modrm 0 (dest mod 8) 5] @ le_bytes32 (ucast value)"],
    (simp add: decode_simps), (cases "8 \<le> dest"; simp add: emitLeaBaseOffset_64_def emit_eval UD_R_RAX_def UD_R_RIP_def; simp add: emit_ac))

lemma emitLeaConst_64_emits:
  assumes "dest < 16"
  shows "emits True (\<lambda>ud. emitLeaConst_64 ud value dest)
    (Insn False False M_lea [Gpr 64 dest, Mem 0 64 None (Addr None None (sint (ucast value :: u32)))])"
  using assms by (intro emitsI [where bs = "[rex True (8 \<le> dest) False False, cbyte 0x8d, modrm 0 (dest mod 8) 4, modrm 0 4 5] @ le_bytes32 (ucast value)"],
    (simp add: decode_simps), (cases "8 \<le> dest"; simp add: emitLeaConst_64_def emit_eval; simp add: emit_ac))

lemma lea_scale_eval:
  "lea_scale 1 = Inr (64 * 0)" "lea_scale 2 = Inr (64 * 1)" "lea_scale 4 = Inr (64 * 2)" "lea_scale 8 = Inr (64 * 3)"
  by code_simp+

lemma scale_checks:
  "isPowerOfTwo (ucast (1 :: byte))" "isPowerOfTwo (ucast (2 :: byte))"
  "isPowerOfTwo (ucast (4 :: byte))" "isPowerOfTwo (ucast (8 :: byte))"
  by code_simp+

text \<open>The operand the requested address computation denotes. Index register \<open>sp\<close> is no index.\<close>

definition lea_address :: "nat \<Rightarrow> nat \<Rightarrow> byte \<Rightarrow> u64 \<Rightarrow> bool \<Rightarrow> bool \<Rightarrow> address" where
  "lea_address baseReg indexReg scale value hasBase hasIndex =
     Addr (if hasBase then Some baseReg else None)
       (if hasIndex \<and> indexReg \<noteq> 4 then Some (indexReg, unat scale) else None)
       (sint (ucast value :: u32))"

lemma lea_with_index_emits:
  assumes "dest < 16" "baseReg < 16" "indexReg < 16" "k < 4"
    and "lea_scale scale = Inr (64 * k)" and "isPowerOfTwo (ucast scale)" and "scale \<noteq> 0" and "scale \<le> 8"
    and "unat scale = 2 ^ k"
  shows "emits True (\<lambda>ud. emitLoadEffectiveAddress_64 ud baseReg indexReg scale value dest hasBase True)
    (Insn False False M_lea [Gpr 64 dest, Mem 0 64 None (lea_address baseReg indexReg scale value hasBase True)])"
  using emitLeaBaseIndex_64_emits [OF assms(1,3,2,4)]
    emitLeaIndexValue_64_base_emits [OF assms(1,3,2,4), of "value"]
    emitLeaIndexValue_64_emits [OF assms(1,3,4), of baseReg "value"] assms
  by (cases hasBase; cases "value = 0"; cases "indexReg = 4")
    (simp_all add: emitLoadEffectiveAddress_64_def lea_address_def x86_consts)

lemma emitLoadEffectiveAddress_64_emits:
  assumes "dest < 16" "baseReg < 16" "indexReg < 16" and "scale \<in> {1, 2, 4, 8}"
  shows "emits True (\<lambda>ud. emitLoadEffectiveAddress_64 ud baseReg indexReg scale value dest hasBase hasIndex)
    (Insn False False M_lea [Gpr 64 dest, Mem 0 64 None (lea_address baseReg indexReg scale value hasBase hasIndex)])"
proof (cases hasIndex)
  case True
  have "\<exists>k < 4. lea_scale scale = Inr (64 * k) \<and> isPowerOfTwo (ucast scale) \<and> scale \<noteq> 0 \<and> scale \<le> 8 \<and> unat scale = 2 ^ k"
    using assms(4) lea_scale_eval scale_checks
    by (elim insertE emptyE) (rule exI [of _ "0 :: nat"], simp, rule exI [of _ "1 :: nat"], simp,
      rule exI [of _ "2 :: nat"], simp, rule exI [of _ "3 :: nat"], simp)
  with True assms(1-3) lea_with_index_emits [of dest baseReg indexReg _ scale "value" hasBase]
  show ?thesis by auto
next
  case False
  have "isPowerOfTwo (ucast scale) \<and> scale \<noteq> 0 \<and> scale \<le> 8" using assms(4) scale_checks by auto
  then show ?thesis
    using False emitLeaBaseOffset_64_emits [OF assms(1,2), of "value"] emitLeaConst_64_emits [OF assms(1), of "value"] assms
    by (cases hasBase) (simp_all add: emitLoadEffectiveAddress_64_def lea_address_def x86_consts)
qed

lemma eff_addr_lea:
  assumes "fits_s32 value"
  shows "eff_addr regs next (lea_address baseReg indexReg scale value hasBase hasIndex) =
    (if hasBase then regs baseReg else 0) +
    (if hasIndex \<and> indexReg \<noteq> 4 then regs indexReg * ucast scale else 0) + value"
  using fits_s32_disp [OF assms] by (simp add: lea_address_def of_nat_unat)

section \<open>Properties\<close>

text \<open>
  C19. The 64-bit emitters listed produce the instruction they are named after, on all sixteen
  registers where nothing else is said: moves between registers, of an immediate, of a 64-bit constant and from a segment register,
  push and pop, the two-operand forms (whose second argument is the destination),
  and, or, shifts, comparison, multiplication, the \<open>lea\<close> of a register and an offset (not for \<open>r12\<close>), and addition
  (not to \<open>rax\<close>) and subtraction (from the registers 1 to 7) of an immediate, which must not be 0 in the short forms. \<open>emitXorRegReg\<close> knows the lower eight
  registers. Of \<open>emitMoveImmToReg\<close> and \<open>emitCompareImmReg\<close> the instruction sign-extends the low half
  of the number. What happens to the registers left out is in \<open>emitRegSubImm_64_wrong_register\<close> and
  \<open>emitters_64_truncated\<close>; \<open>emitStackPush4Byte\<close> pushes two bytes and is not one of the list.
\<close>

theorem emit_register_ops_64:
  assumes "r < 16" "s < 16" "unat v < 4294967296" "g < 6"
  shows
   "emits True (\<lambda>ud. emitMoveRegToReg_64 ud s r) (Insn False False M_mov [Gpr 64 r, Gpr 64 s]) \<and>
    emits True (\<lambda>ud. emitMoveImmToReg_64 ud v r) (Insn False False M_mov [Gpr 64 r, Imm (sint (ucast v :: u32))]) \<and>
    emits True (\<lambda>ud. emitMoveImm64ToReg_64 ud v64 r) (Insn False False M_mov [Gpr 64 r, Imm (sint v64)]) \<and>
    emits True (\<lambda>ud. emitMoveSegmentRegToReg_64 ud g r) (Insn False False M_mov [Gpr 64 r, Seg g]) \<and>
    emits True (\<lambda>ud. emitStackPush_64 ud r) (Insn False False M_push [Gpr 64 r]) \<and>
    emits True (\<lambda>ud. emitStackPop_64 ud r) (Insn False False M_pop [Gpr 64 r]) \<and>
    emits True (\<lambda>ud. emitRegAddReg2OpForm_64 ud s r) (Insn False False M_add [Gpr 64 r, Gpr 64 s]) \<and>
    emits True (\<lambda>ud. emitRegAndReg_64 ud r s) (Insn False False M_and [Gpr 64 r, Gpr 64 s]) \<and>
    emits True (\<lambda>ud. emitRegOrReg_64 ud r s) (Insn False False M_or [Gpr 64 r, Gpr 64 s]) \<and>
    emits True (\<lambda>ud. emitImmAndReg_64 ud imm r) (Insn False False M_and [Gpr 64 r, Imm (sint imm)]) \<and>
    emits True (\<lambda>ud. emitImmOrReg_64 ud imm r) (Insn False False M_or [Gpr 64 r, Imm (sint imm)]) \<and>
    emits True (\<lambda>ud. emitShiftLeftLogical_64 ud i8 r) (Insn False False M_shl [Gpr 64 r, Imm (sint i8)]) \<and>
    emits True (\<lambda>ud. emitShiftRightLogical_64 ud i8 r) (Insn False False M_shr [Gpr 64 r, Imm (sint i8)]) \<and>
    emits True (\<lambda>ud. emitCompareImmReg_64 ud v r) (Insn False False M_cmp [Gpr 64 r, Imm (sint (ucast v :: u32))]) \<and>
    emits True (\<lambda>ud. emitRegImmMultReg_64 ud r imm r) (Insn False False M_imul [Gpr 64 r, Gpr 64 r, Imm (sint imm)]) \<and>
    (s \<noteq> 12 \<longrightarrow> emits True (\<lambda>ud. emitLoadRegImmReg_64 ud r off s)
      (Insn False False M_lea [Gpr 64 r, Mem 0 64 None (Addr (Some s) None (sint (ucast off :: u32)))])) \<and>
    (r \<noteq> 0 \<longrightarrow> emits True (\<lambda>ud. emitRegAddImm4Byte_64 ud r imm) (Insn False False M_add [Gpr 64 r, Imm (sint imm)])) \<and>
    (r \<noteq> 0 \<and> imm \<noteq> 0 \<longrightarrow> emits True (\<lambda>ud. emitRegAddImm_64 ud r imm) (Insn False False M_add [Gpr 64 r, Imm (sint imm)])) \<and>
    (r \<noteq> 0 \<and> r < 8 \<longrightarrow> emits True (\<lambda>ud. emitRegSubImm4Byte_64 ud r imm) (Insn False False M_sub [Gpr 64 r, Imm (sint imm)])) \<and>
    (r \<noteq> 0 \<and> r < 8 \<and> imm \<noteq> 0 \<longrightarrow> emits True (\<lambda>ud. emitRegSubImm_64 ud r imm) (Insn False False M_sub [Gpr 64 r, Imm (sint imm)])) \<and>
    (r < 8 \<and> s < 8 \<longrightarrow> emits True (\<lambda>ud. emitXorRegReg_64 ud s r) (Insn False False M_xor [Gpr 64 r, Gpr 64 s]))"
  using assms
  by (intro conjI impI emitMoveRegToReg_64_emits emitRegAddReg2OpForm_64_emits emitRegAndReg_64_emits
      emitRegOrReg_64_emits emitImmAndReg_64_emits emitImmOrReg_64_emits emitShiftLeftLogical_64_emits
      emitShiftRightLogical_64_emits emitCompareImmReg_64_emits emitRegImmMultReg_64_emits
      emitMoveImm64ToReg_64_emits emitRegAddImm_64_emits emitRegSubImm_64_emits emitXorRegReg_64_emits
      emitMoveImmToReg_64_emits emitMoveSegmentRegToReg_64_emits emitStackPush_64_emits emitStackPop_64_emits
      emitLoadRegImmReg_64_emits emitRegAddImm4Byte_64_emits emitRegSubImm4Byte_64_emits) auto

theorem emit_register_ops_64_witness:
  "emits True (\<lambda>ud. emitMoveRegToReg_64 ud 12 7) (Insn False False M_mov [Gpr 64 7, Gpr 64 12])"
  using emit_register_ops_64 [of 7 12 5 1] by simp

text \<open>
  C3. The 64-bit emitters listed address the memory operand they are named after: base
  register and 32-bit displacement (including the bases \<open>rsp\<close> and \<open>r12\<close>, which need a SIB byte, and
  \<open>rbp\<close> and \<open>r13\<close>, which need a displacement), an absolute address, the thread area, or an
  address relative to the instruction; with the access size, the immediate and the register
  it was given. The exceptions are in the statement: exchange-add and the saving and restoring of the floating point
  state through a register are not for the bases \<open>rbp\<close> and \<open>r13\<close> (\<open>emitters_64_truncated\<close>), \<open>emitLoadRipImmReg\<close> is not for \<open>rsp\<close>, the
  four-byte load and the stores with one and four bytes of displacement know the lower eight
  registers, \<open>emitMoveImmToRegaddrImm\<close> uses the low half of the base register as address, and the
  \<open>fxsave\<close> and \<open>fxrstor\<close> of an address take it relative to the instruction.
\<close>

theorem emit_memory_ops_64:
  assumes "r < 16" "s < 16" "unat a < 4294967296" "unat t < 4294967296"
  shows
   "emits True (\<lambda>ud. emitMoveRegaddrImmToReg_64 ud s off r)
      (Insn False False M_mov [Gpr 64 r, Mem 64 64 None (Addr (Some s) None (sint (ucast off :: u32)))]) \<and>
    emits True (\<lambda>ud. emitMoveRegToRegaddrImm_64 ud r s off True)
      (Insn False False M_mov [Mem 64 64 None (Addr (Some s) None (sint (ucast off :: u32))), Gpr 64 r]) \<and>
    emits True (\<lambda>ud. emitMoveRegToRegaddrImm_64 ud r s off False)
      (Insn False False M_mov [Mem 32 64 None (Addr (Some s) None (sint (ucast off :: u32))), Gpr 32 r]) \<and>
    (r < 8 \<and> s < 8 \<longrightarrow> emits True (\<lambda>ud. emitMoveRegToRegaddrImm1Byte_64 ud r s off)
      (Insn False False M_mov [Mem 64 64 None (Addr (Some s) None (sint (ucast off :: byte))), Gpr 64 r])) \<and>
    (r < 8 \<and> s < 8 \<longrightarrow> emits True (\<lambda>ud. emitMoveRegToRegaddrImm4Byte_64 ud r s off)
      (Insn False False M_mov [Mem 64 64 None (Addr (Some s) None (sint (ucast off :: u32))), Gpr 64 r])) \<and>
    emits True (\<lambda>ud. emitMoveImmToRegaddrImm_64 ud v s off)
      (Insn False False M_mov [Mem 64 32 None (Addr (Some s) None (sint (ucast off :: u32))), Imm (sint (ucast v :: u32))]) \<and>
    emits True (\<lambda>ud. emitMoveRegaddrToReg_64 ud s r)
      (Insn False False M_mov [Gpr 64 r, Mem 64 64 None (Addr (Some s) None 0)]) \<and>
    emits True (\<lambda>ud. emitMoveRegToRegaddr_64 ud r s)
      (Insn False False M_mov [Mem 64 64 None (Addr (Some s) None 0), Gpr 64 r]) \<and>
    emits True (\<lambda>ud. emitAddImmToRegaddrImm_64 ud imm s d)
      (Insn False False M_add [Mem 32 64 None (Addr (Some s) None (sint d)), Imm (sint imm)]) \<and>
    emits True (\<lambda>ud. emitAddImmByteToRegaddrImm_64 ud i8 s d)
      (Insn False False M_add [Mem 32 64 None (Addr (Some s) None (sint d)), Imm (sint i8)]) \<and>
    emits True (\<lambda>ud. emitMoveTLSOffsetToReg_64 ud imm r)
      (Insn False False M_mov [Gpr 64 r, Mem 64 64 (Some 4) (Addr None None (sint imm))]) \<and>
    emits True (\<lambda>ud. emitMoveThreadIdToReg_64 ud r)
      (Insn False False M_mov [Gpr 64 r, Mem 64 64 (Some 4) (Addr None None 16)]) \<and>
    emits True (\<lambda>ud. emitMoveRegToMem_64 ud r a)
      (Insn False False M_mov [Mem 64 64 None (Addr None None (sint (ucast a :: u32))), Gpr 64 r]) \<and>
    emits True (\<lambda>ud. emitMoveMemToReg_64 ud a r True)
      (Insn False False M_mov [Gpr 64 r, Mem 64 64 None (Addr None None (sint (ucast a :: u32)))]) \<and>
    (r < 8 \<longrightarrow> emits True (\<lambda>ud. emitMoveMemToReg_64 ud a r False)
      (Insn False False M_mov [Gpr 32 r, Mem 32 64 None (Addr None None (sint (ucast a :: u32)))])) \<and>
    emits True (\<lambda>ud. emitMoveMemToXMMReg_64 ud a (r + 16))
      (Insn False False M_movsd [Xmm r, Mem 64 64 None (Addr None None (sint (ucast a :: u32)))]) \<and>
    emits True (\<lambda>ud. emitAddImmToMem_64 ud imm a)
      (Insn False False M_add [Mem 64 64 None (Addr None None (sint (ucast a :: u32))), Imm (sint imm)]) \<and>
    emits True (\<lambda>ud. emitAddImmByteToMem_64 ud i8 a)
      (Insn False False M_add [Mem 64 64 None (Addr None None (sint (ucast a :: u32))), Imm (sint i8)]) \<and>
    emits True (\<lambda>ud. emitSubImmByteToMem_64 ud i8 a)
      (Insn False False M_sub [Mem 64 64 None (Addr None None (sint (ucast a :: u32))), Imm (sint i8)]) \<and>
    emits True (\<lambda>ud. emitMoveImmToMem_64 ud v a)
      (Insn False False M_mov [Mem 32 64 None (Addr None None (sint (ucast a :: u32))), Imm (sint (ucast v :: u32))]) \<and>
    emits True (\<lambda>ud. emitLoadRipImmToReg_64 ud imm r)
      (Insn False False M_lea [Gpr 64 r, Mem 0 64 None (RipRel (sint imm))]) \<and>
    (r \<noteq> 4 \<longrightarrow> emits True (\<lambda>ud. emitLoadRipImmReg_64 ud off r)
      (Insn False False M_lea [Gpr 64 r, Mem 0 64 None (RipRel (sint (ucast off :: u32)))])) \<and>
    emits True (\<lambda>ud. emitIndirectRelativeJump_64 ud a t)
      (Insn False False M_jmp [Mem 64 64 None (RipRel (sint (ucast (t - a - 6) :: u32)))]) \<and>
    emits True (\<lambda>ud. emitFxSave_64 ud off)
      (Insn False False M_fxsave [Mem 4096 64 None (RipRel (sint (ucast off :: u32)))]) \<and>
    emits True (\<lambda>ud. emitFxRstor_64 ud off)
      (Insn False False M_fxrstor [Mem 4096 64 None (RipRel (sint (ucast off :: u32)))]) \<and>
    (s \<noteq> 5 \<and> s \<noteq> 13 \<longrightarrow> emits True (\<lambda>ud. emitFxSaveReg_64 ud s)
      (Insn False False M_fxsave [Mem 4096 64 None (Addr (Some s) None 0)])) \<and>
    (s \<noteq> 5 \<and> s \<noteq> 13 \<longrightarrow> emits True (\<lambda>ud. emitFxRstorReg_64 ud s)
      (Insn False False M_fxrstor [Mem 4096 64 None (Addr (Some s) None 0)])) \<and>
    (s \<noteq> 5 \<and> s \<noteq> 13 \<longrightarrow> emits True (\<lambda>ud. emitExchangeAdd_64 ud r s lock)
      (Insn lock False M_xadd [Mem 64 64 None (Addr (Some s) None 0), Gpr 64 r]))"
  using assms
  by (intro conjI impI emitMoveRegaddrImmToReg_64_emits emitMoveRegaddrToReg_64_emits
      emitMoveRegToRegaddr_64_emits emitAddImmToRegaddrImm_64_emits emitAddImmByteToRegaddrImm_64_emits
      emitMoveTLSOffsetToReg_64_emits emitMoveThreadIdToReg_64_emits emitMoveRegToMem_64_emits emitMoveMemToReg_64_emits
      emitMoveMemToXMMReg_64_emits emitAddImmToMem_64_emits emitSubImmByteToMem_64_emits
      emitMoveImmToMem_64_emits emitLoadRipImmToReg_64_emits emitExchangeAdd_64_emits
      emitMoveRegToRegaddrImm_64_emits [where w = True, simplified]
      emitMoveRegToRegaddrImm_64_emits [where w = False, simplified]
      emitMoveRegToRegaddrImm1Byte_64_emits emitMoveRegToRegaddrImm4Byte_64_emits emitMoveImmToRegaddrImm_64_emits
      emitMoveMemToReg_64_dword_emits emitAddImmByteToMem_64_emits emitLoadRipImmReg_64_emits
      emitIndirectRelativeJump_64_emits emitFxSave_64_emits emitFxRstor_64_emits
      emitFxSaveReg_64_emits emitFxRstorReg_64_emits) auto

theorem emit_memory_ops_64_witness:
  "emits True (\<lambda>ud. emitMoveRegToRegaddr_64 ud 2 13)
     (Insn False False M_mov [Mem 64 64 None (Addr (Some 13) None 0), Gpr 64 2])"
  using emit_memory_ops_64 [of 2 13 0 0] by simp

text \<open>
  C25. The address computation \<open>emitLoadEffectiveAddress\<close> emits one \<open>lea\<close> into the destination
  register, and for a value that is a sign-extended 32-bit number the address of its operand
  is base plus scaled index plus value, for every combination of base, index and scale.
\<close>

theorem emitLoadEffectiveAddress_64_correct:
  assumes "dest < 16" "baseReg < 16" "indexReg < 16" and "scale \<in> {1, 2, 4, 8}" and "fits_s32 value"
  shows "\<exists>a. emits True (\<lambda>ud. emitLoadEffectiveAddress_64 ud baseReg indexReg scale value dest hasBase hasIndex)
      (Insn False False M_lea [Gpr 64 dest, Mem 0 64 None a]) \<and>
    (\<forall>regs next. eff_addr regs next a =
      (if hasBase then regs baseReg else 0) +
      (if hasIndex \<and> indexReg \<noteq> 4 then regs indexReg * ucast scale else 0) + value)"
  using emitLoadEffectiveAddress_64_emits [OF assms(1-4), of "value" hasBase hasIndex] eff_addr_lea [OF assms(5)]
  by blast

theorem emitLoadEffectiveAddress_64_correct_witness:
  "\<exists>a. emits True (\<lambda>ud. emitLoadEffectiveAddress_64 ud 13 2 8 64 1 True True)
      (Insn False False M_lea [Gpr 64 1, Mem 0 64 None a]) \<and>
    (\<forall>regs next. eff_addr regs next a = regs 13 + regs 2 * 8 + 64)"
  using emitLoadEffectiveAddress_64_correct [of 1 13 2 8 64 True True] by (simp add: fits_s32_low)

text \<open>
  \<open>emitMoveImmToReg\<close> checks that its immediate has 32 bits, but the instruction it emits
  sign-extends: the register receives the requested number exactly when bit 31 is clear. From
  \<open>2 ^ 31\<close> on the check passes and the register receives the number plus \<open>2 ^ 64 - 2 ^ 32\<close>.
\<close>

theorem emitMoveImmToReg_64_sign_extends:
  assumes "idx < 16" and "unat imm < 4294967296"
  shows "emits True (\<lambda>ud. emitMoveImmToReg_64 ud imm idx)
      (Insn False False M_mov [Gpr 64 idx, Imm (sint (ucast imm :: u32))]) \<and>
    (word_of_int (sint (ucast imm :: u32)) = imm \<longleftrightarrow> unat imm < 2147483648)"
proof
  show "emits True (\<lambda>ud. emitMoveImmToReg_64 ud imm idx)
      (Insn False False M_mov [Gpr 64 idx, Imm (sint (ucast imm :: u32))])"
    using assms by (rule emitMoveImmToReg_64_emits)
  show "word_of_int (sint (ucast imm :: u32)) = imm \<longleftrightarrow> unat imm < 2147483648"
    using fits_s32_iff [OF assms(2)] by (simp only: fits_s32_def scast_eq)
qed

theorem emitMoveImmToReg_64_sign_extends_witness:
  "emits True (\<lambda>ud. emitMoveImmToReg_64 ud 0x80000000 3)
     (Insn False False M_mov [Gpr 64 3, Imm (sint (ucast (0x80000000 :: u64) :: u32))]) \<and>
   word_of_int (sint (ucast (0x80000000 :: u64) :: u32)) \<noteq> (0x80000000 :: u64)"
  using emitMoveImmToReg_64_sign_extends [of 3 "0x80000000"] by simp

section \<open>Inputs an emitter gets wrong\<close>

lemma emitRegSubImm_64_high:
  assumes "8 \<le> idx" "idx < 16" "imm \<noteq> 0"
  shows "emits True (\<lambda>ud. emitRegSubImm_64 ud idx imm) (Insn False False M_sub [Gpr 64 (idx - 8), Imm (sint imm)])"
  using assms
  by (intro emitsI [where bs = "[rex True False False False, cbyte 0x81, modrm 3 5 (idx mod 8)] @ le_bytes32 imm"],
    (simp add: decode_simps), (simp add: emitRegSubImm_64_def emitRegSubImm4Byte_64_def emit_eval; simp add: emit_ac))

text \<open>
  C32. Subtracting an immediate from one of the registers \<open>r8\<close> to \<open>r15\<close> emits a subtraction from
  the register numbered eight lower: \<open>emitRegSubImm4Byte\<close> never sets the REX bit its sibling
  \<open>emitRegAddImm4Byte\<close> sets, and no check stops it.
\<close>

theorem emitRegSubImm_64_wrong_register:
  assumes "8 \<le> idx" "idx < 16" "imm \<noteq> 0"
  shows "emits True (\<lambda>ud. emitRegSubImm_64 ud idx imm) (Insn False False M_sub [Gpr 64 (idx - 8), Imm (sint imm)]) \<and>
    \<not> emits True (\<lambda>ud. emitRegSubImm_64 ud idx imm) (Insn False False M_sub [Gpr 64 idx, Imm (sint imm)])"
proof
  show r: "emits True (\<lambda>ud. emitRegSubImm_64 ud idx imm) (Insn False False M_sub [Gpr 64 (idx - 8), Imm (sint imm)])"
    using assms by (rule emitRegSubImm_64_high)
  have "idx - 8 \<noteq> idx" using assms(1) by simp
  then show "\<not> emits True (\<lambda>ud. emitRegSubImm_64 ud idx imm) (Insn False False M_sub [Gpr 64 idx, Imm (sint imm)])"
    using emits_sub_inject [OF r] by blast
qed

theorem emitRegSubImm_64_wrong_register_witness:
  "emits True (\<lambda>ud. emitRegSubImm_64 ud 12 0x80) (Insn False False M_sub [Gpr 64 4, Imm 128])"
  using emitRegSubImm_64_wrong_register [of 12 "0x80"] by simp

text \<open>
  Four inputs pass all checks of their emitter and produce bytes that are cut short: adding
  any immediate to \<open>rax\<close> (the ModRM byte is overwritten by the immediate), and exchanging with,
  saving or restoring the floating point state at \<open>[rbp]\<close> or \<open>[r13]\<close> (the encoding of these bases
  without a displacement means an address relative to the instruction).
\<close>

theorem emitters_64_truncated:
  "emits_none True (\<lambda>ud. emitRegAddImm4Byte_64 ud 0 imm) ([cbyte 0x48, cbyte 0x81] @ le_bytes32 imm) \<and>
   emits_none True (\<lambda>ud. emitExchangeAdd_64 ud 0 5 False) [cbyte 0x48, cbyte 0x0f, cbyte 0xc1, cbyte 0x05] \<and>
   emits_none True (\<lambda>ud. emitFxSaveReg_64 ud 5) [cbyte 0x0f, cbyte 0xae, cbyte 0x05] \<and>
   emits_none True (\<lambda>ud. emitFxRstorReg_64 ud 13) [cbyte 0x41, cbyte 0x0f, cbyte 0xae, cbyte 0x0d]"
proof (intro conjI)
  have "decode_group True p 0x81 (le_bytes32 imm) = None" if "op_size p = 64" for p
    unfolding decode_group_def Let_def using that
    by (simp, intro form_rm_imm32_short [where mn = alu_mnemonic and ops = "\<lambda>x. [x]"]) (simp_all add: get_imm_def)
  then have "x86_decode True ([cbyte 0x48, cbyte 0x81] @ le_bytes32 imm) = None"
    by (simp add: x86_decode_def rex_prefix_def decode_1_def op_size_def rexW_def Let_def finish_insn_def)
  then show "emits_none True (\<lambda>ud. emitRegAddImm4Byte_64 ud 0 imm) ([cbyte 0x48, cbyte 0x81] @ le_bytes32 imm)"
    by (rule emits_noneI) (simp_all add: emitRegAddImm4Byte_64_def emit_eval)
qed (rule emits_noneI; simp add: decode_simps modrm_def mod_f_def rm_f_def reg_f_def emitExchangeAdd_64_def
    emitFxSaveReg_64_def emitFxRstorReg_64_def emit_eval get32_def)+

end
