(* ===== verification/Bit_Set.thy ===== *)
theory Bit_Set
  imports Pebil_Prelude "HOL-Library.While_Combinator"
begin

text \<open>
  Template class \<open>BitSet\<close> of \<open>include/BitSet.h\<close>: a set of numbers below \<open>maximum\<close> in an array of
  32-bit words, with a cached cardinality. The theory gives the operations, the set a value
  stands for, the invariants, and the interface the control-flow analyses use it through.
\<close>

section \<open>Data and operations\<close>

record BitSet =
  maximum :: nat
  bits :: "u32 list"
  cardinality :: u32

text \<open>\<open>while (n) { cardinality++; n &= n - 1; }\<close>\<close>

function count_bits :: "u32 \<Rightarrow> u32 \<Rightarrow> u32" where
  "count_bits n c = (if n \<noteq> 0 then count_bits (n AND (n - 1)) (c + 1) else c)"
  by pat_completeness auto
termination
proof (relation "measure (\<lambda>(n, c). unat n)")
  fix n c :: u32
  assume "n \<noteq> 0"
  then have "0 < unat n" by (simp add: unat_gt_0)
  have "unat (n - 1) < unat n" using \<open>0 < unat n\<close> \<open>n \<noteq> 0\<close> by (simp add: unat_minus_one)
  moreover have "unat (n AND (n - 1)) \<le> unat (n - 1)"
    using word_and_le1 [of n "n - 1"] by (simp add: word_le_nat_alt)
  ultimately show "((n AND (n - 1), c + 1), (n, c)) \<in> measure (\<lambda>(n, c). unat n)" by simp
qed simp

declare count_bits.simps [simp del]

definition internalCount :: "nat \<Rightarrow> nat" where
  "internalCount m = m div 32 + (if m mod 32 \<noteq> 0 then 1 else 0)"

definition cardinalize :: "BitSet \<Rightarrow> BitSet" where
  "cardinalize b = b \<lparr> cardinality := fold (\<lambda>n c. count_bits n c) (take (internalCount (maximum b)) (bits b)) 0 \<rparr>"

definition new_BitSet :: "nat \<Rightarrow> BitSet" where
  "new_BitSet maxVal = \<lparr> maximum = maxVal, bits = replicate (internalCount maxVal) 0, cardinality = 0 \<rparr>"

definition bs_sub :: "BitSet \<Rightarrow> BitSet \<Rightarrow> BitSet res" where
  "bs_sub b src = ASSERT (maximum b = maximum src)
     (Inr (cardinalize (b \<lparr> bits := map2 (\<lambda>x y. x AND NOT y) (bits b) (bits src) \<rparr>)))"

definition bs_and :: "BitSet \<Rightarrow> BitSet \<Rightarrow> BitSet res" where
  "bs_and b src = ASSERT (maximum b = maximum src)
     (Inr (cardinalize (b \<lparr> bits := map2 (AND) (bits b) (bits src) \<rparr>)))"

definition bs_or :: "BitSet \<Rightarrow> BitSet \<Rightarrow> BitSet res" where
  "bs_or b src = ASSERT (maximum b = maximum src)
     (Inr (cardinalize (b \<lparr> bits := map2 (OR) (bits b) (bits src) \<rparr>)))"

definition isSubsetOf :: "BitSet \<Rightarrow> BitSet \<Rightarrow> bool res" where
  "isSubsetOf b src = ASSERT (maximum b = maximum src)
     (Inr (list_all2 (\<lambda>x y. x AND NOT y = 0) (bits b) (bits src)))"

definition bs_eq :: "BitSet \<Rightarrow> BitSet \<Rightarrow> bool res" where
  "bs_eq b src = ASSERT (maximum b = maximum src) (Inr (list_all2 (=) (bits b) (bits src)))"

definition bs_assign :: "BitSet \<Rightarrow> BitSet \<Rightarrow> BitSet res" where
  "bs_assign b src = ASSERT (maximum b = maximum src)
     (Inr (b \<lparr> bits := bits src, cardinality := cardinality src \<rparr>))"

definition bs_not :: "BitSet \<Rightarrow> BitSet" where
  "bs_not b = b \<lparr> bits := map NOT (bits b), cardinality := of_nat (maximum b) - cardinality b \<rparr>"

definition bs_clear :: "BitSet \<Rightarrow> BitSet" where
  "bs_clear b = b \<lparr> bits := replicate (internalCount (maximum b)) 0, cardinality := 0 \<rparr>"

definition bs_setall :: "BitSet \<Rightarrow> BitSet" where
  "bs_setall b = b \<lparr> bits := replicate (internalCount (maximum b)) (NOT 0), cardinality := of_nat (maximum b) \<rparr>"

definition bs_mask :: "nat \<Rightarrow> u32" where
  "bs_mask n = push_bit (n mod 32) 1"

definition bs_insert :: "nat \<Rightarrow> BitSet \<Rightarrow> BitSet" where
  "bs_insert n b = (if n \<ge> maximum b then b else
     let index = n div 32; mask = bs_mask n;
       card = (if bits b ! index AND mask = 0 then cardinality b + 1 else cardinality b) in
     b \<lparr> bits := (bits b)[index := bits b ! index OR mask], cardinality := card \<rparr>)"

definition bs_remove :: "nat \<Rightarrow> BitSet \<Rightarrow> BitSet" where
  "bs_remove n b = (if n \<ge> maximum b then b else
     let index = n div 32; mask = bs_mask n;
       card = (if bits b ! index AND mask \<noteq> 0 then cardinality b - 1 else cardinality b) in
     b \<lparr> bits := (bits b)[index := bits b ! index AND NOT mask], cardinality := card \<rparr>)"

definition bs_contains :: "BitSet \<Rightarrow> nat \<Rightarrow> bool" where
  "bs_contains b n = (if n \<ge> maximum b then False else bits b ! (n div 32) AND bs_mask n \<noteq> 0)"

definition bs_size :: "BitSet \<Rightarrow> u32" where
  "bs_size b = cardinality b"

definition bs_empty :: "BitSet \<Rightarrow> bool" where
  "bs_empty b \<longleftrightarrow> cardinality b = 0"

text \<open>
  \<open>duplicateMembers\<close> copies the elements whose bits are set into an array of \<open>size()\<close> entries
  and then checks the count; a store past the array is out of bounds.
\<close>

definition duplicateMembers :: "BitSet \<Rightarrow> (nat \<Rightarrow> 'a) \<Rightarrow> 'a list option res" where
  "duplicateMembers b elements = (if bs_size b = 0 then Inr None else
     let ret = map elements (filter (\<lambda>idx. bit (bits b ! (idx div 32)) (idx mod 32)) [0..<maximum b]) in
     if length ret > unat (bs_size b) then Inl OutOfBounds
     else ASSERT (unat (bs_size b) = length ret) (Inr (Some ret)))"

section \<open>Counting bits\<close>

definition bitset :: "nat \<Rightarrow> nat set" where
  "bitset n = {i. bit n i}"

lemma bitset_rec: "bitset n = (if odd n then {0} else {}) \<union> Suc ` bitset (n div 2)"
  by (auto simp: bitset_def bit_Suc image_iff bit_0) (metis bit_0 bit_Suc not0_implies_Suc)+

lemma finite_bitset: "finite (bitset n)"
proof (induction n rule: less_induct)
  case (less n)
  show ?case
  proof (cases "n = 0")
    case True
    then show ?thesis by (simp add: bitset_def)
  next
    case False
    then have "finite (bitset (n div 2))" by (intro less) simp
    then show ?thesis by (subst bitset_rec) simp
  qed
qed

lemma card_bitset_rec: "card (bitset n) = of_bool (odd n) + card (bitset (n div 2))"
proof -
  have c: "card (Suc ` bitset (n div 2)) = card (bitset (n div 2))" by (simp add: card_image)
  have "0 \<notin> Suc ` bitset (n div 2)" "finite (Suc ` bitset (n div 2))" by (auto simp: finite_bitset)
  with c show ?thesis by (subst bitset_rec) simp
qed

lemma card_bitset_clear_lowest: "0 < n \<Longrightarrow> Suc (card (bitset (n AND (n - 1)))) = card (bitset n)"
proof (induction n rule: less_induct)
  case (less n)
  show ?case
  proof (cases "odd n")
    case True
    then obtain m where m: "n = 2 * m + 1" by (rule oddE)
    have "n AND (n - 1) = 2 * m" unfolding m by (subst and_rec) simp
    then show ?thesis unfolding m by (subst (1 2) card_bitset_rec) simp
  next
    case False
    then obtain m where m: "n = 2 * m" "0 < m" using less.prems by (auto elim: evenE)
    have "(2 * m - 1) div 2 = m - 1" using m(2) by (cases m) simp_all
    then have "n AND (n - 1) = 2 * (m AND (m - 1))"
      unfolding m(1) by (subst and_rec) simp
    moreover have "Suc (card (bitset (m AND (m - 1)))) = card (bitset m)" using m by (intro less.IH) simp_all
    ultimately show ?thesis unfolding m(1) by (subst (1 2) card_bitset_rec) simp
  qed
qed

lemma count_bits_card: "count_bits n c = c + of_nat (card (bitset (unat n)))"
proof (induction n c rule: count_bits.induct)
  case (1 n c)
  show ?case
  proof (cases "n = 0")
    case True
    then show ?thesis by (subst count_bits.simps) (simp add: bitset_def)
  next
    case False
    then have "0 < unat n" by (simp add: unat_gt_0)
    have "unat (n AND (n - 1)) = unat n AND (unat n - 1)"
      using False by (simp add: unsigned_and_eq unat_minus_one)
    then have "Suc (card (bitset (unat (n AND (n - 1))))) = card (bitset (unat n))"
      using card_bitset_clear_lowest [OF \<open>0 < unat n\<close>] by simp
    then show ?thesis using 1 False by (subst count_bits.simps) (simp flip: of_nat_Suc)
  qed
qed

section \<open>The set a value stands for\<close>

definition members :: "BitSet \<Rightarrow> nat set" where
  "members b = {n. n < maximum b \<and> bit (bits b ! (n div 32)) (n mod 32)}"

text \<open>The array has the right size and the cached cardinality is that of the set.\<close>

definition bs_ok :: "BitSet \<Rightarrow> bool" where
  "bs_ok b \<longleftrightarrow> length (bits b) = internalCount (maximum b) \<and> unat (cardinality b) = card (members b)
     \<and> maximum b < 2 ^ 32"

text \<open>No bit of the last word beyond \<open>maximum\<close> is set.\<close>

definition bs_clean :: "BitSet \<Rightarrow> bool" where
  "bs_clean b \<longleftrightarrow> (\<forall>n \<in> {maximum b..<32 * length (bits b)}. \<not> bit (bits b ! (n div 32)) (n mod 32))"

definition word_members :: "u32 list \<Rightarrow> nat set" where
  "word_members ws = {n. n < 32 * length ws \<and> bit (ws ! (n div 32)) (n mod 32)}"

lemma internalCount_bound: "n < m \<Longrightarrow> n div 32 < internalCount m"
  by (auto simp: internalCount_def)

lemma internalCount_le: "m \<le> 32 * internalCount m"
  by (auto simp: internalCount_def)

lemma finite_members [simp]: "finite (members b)"
  by (rule finite_subset [of _ "{..<maximum b}"]) (auto simp: members_def)

lemma card_members_le: "card (members b) \<le> maximum b"
  using card_mono [of "{..<maximum b}" "members b"] by (auto simp: members_def)

lemma members_clean:
  assumes "length (bits b) = internalCount (maximum b)" and "bs_clean b"
  shows "members b = word_members (bits b)"
  using assms internalCount_le [of "maximum b"]
  by (auto simp: members_def word_members_def bs_clean_def)

lemma word_members_Cons: "word_members (w # ws) = bitset (unat w) \<union> (\<lambda>n. n + 32) ` word_members ws"
proof (intro set_eqI iffI)
  fix n
  assume n: "n \<in> word_members (w # ws)"
  show "n \<in> bitset (unat w) \<union> (\<lambda>n. n + 32) ` word_members ws"
  proof (cases "n < 32")
    case True
    then show ?thesis using n by (simp add: word_members_def bitset_def bit_unsigned_iff)
  next
    case False
    then obtain k where k: "n = k + 32" by (metis le_add_diff_inverse2 not_less)
    have "(k + 32) div 32 = Suc (k div 32)" "(k + 32) mod 32 = k mod 32" by simp_all
    then have "k \<in> word_members ws" using n unfolding k by (simp add: word_members_def)
    then show ?thesis unfolding k by blast
  qed
next
  fix n
  assume "n \<in> bitset (unat w) \<union> (\<lambda>n. n + 32) ` word_members ws"
  then show "n \<in> word_members (w # ws)"
  proof
    assume "n \<in> bitset (unat w)"
    then have b: "bit w n" by (simp add: bitset_def bit_unsigned_iff)
    then have "n < 32" by (auto dest: bit_imp_le_length)
    with b show ?thesis by (simp add: word_members_def)
  next
    assume "n \<in> (\<lambda>n. n + 32) ` word_members ws"
    then obtain k where k: "n = k + 32" "k \<in> word_members ws" by blast
    have "(k + 32) div 32 = Suc (k div 32)" "(k + 32) mod 32 = k mod 32" by simp_all
    then show ?thesis using k(2) unfolding k(1) by (simp add: word_members_def)
  qed
qed

lemma fold_count_bits: "fold count_bits ws c = c + of_nat (card (word_members ws))"
proof (induction ws arbitrary: c)
  case Nil
  then show ?case by (simp add: word_members_def)
next
  case (Cons w ws)
  have f: "finite (word_members ws)"
    by (rule finite_subset [of _ "{..<32 * length ws}"]) (auto simp: word_members_def)
  have d: "bitset (unat w) \<inter> (\<lambda>n. n + 32) ` word_members ws = {}"
    by (auto simp: bitset_def bit_unsigned_iff dest: bit_imp_le_length)
  have "card (word_members (w # ws)) = card (bitset (unat w)) + card (word_members ws)"
    using f d by (simp add: word_members_Cons card_Un_disjoint finite_bitset card_image)
  then show ?case using Cons by (simp add: count_bits_card)
qed

lemma cardinalize_ok:
  assumes "length (bits b) = internalCount (maximum b)" and "bs_clean b" and "maximum b < 2 ^ 32"
  shows "bs_ok (cardinalize b)" "bs_clean (cardinalize b)" "members (cardinalize b) = members b"
    "maximum (cardinalize b) = maximum b"
proof -
  show m: "members (cardinalize b) = members b" by (simp add: cardinalize_def members_def)
  show "bs_clean (cardinalize b)" using assms(2) by (simp add: cardinalize_def bs_clean_def)
  have "card (members b) < 2 ^ 32" using card_members_le [of b] assms(3) by linarith
  then have "unat (of_nat (card (members b)) :: u32) = card (members b)" by (simp add: unat_of_nat)
  then show "bs_ok (cardinalize b)"
    using assms m by (simp add: bs_ok_def cardinalize_def fold_count_bits members_clean)
qed (simp add: cardinalize_def)

lemma bs_mask_and: "k < 32 \<Longrightarrow> (w AND push_bit k 1 = 0) \<longleftrightarrow> \<not> bit (w :: u32) k"
  by (simp add: push_bit_of_1 and_exp_eq_0_iff_not_bit)

lemma bs_contains_members: "bs_contains b n \<longleftrightarrow> n \<in> members b"
  by (simp add: bs_contains_def members_def bs_mask_def and_exp_eq_0_iff_not_bit)

lemma div_mod_neq: "(n :: nat) \<noteq> m \<Longrightarrow> n div 32 = m div 32 \<Longrightarrow> n mod 32 \<noteq> m mod 32"
  by (metis div_mult_mod_eq)

lemma bit_update:
  assumes "n div 32 < length ws" and "m div 32 < length ws"
  shows "bit (ws[n div 32 := ws ! (n div 32) OR bs_mask n] ! (m div 32)) (m mod 32) \<longleftrightarrow>
      m = n \<or> bit (ws ! (m div 32)) (m mod 32)"
    and "bit (ws[n div 32 := ws ! (n div 32) AND NOT (bs_mask n)] ! (m div 32)) (m mod 32) \<longleftrightarrow>
      m \<noteq> n \<and> bit (ws ! (m div 32)) (m mod 32)"
  using assms div_mod_neq [of m n]
  by (cases "m div 32 = n div 32"; cases "m = n"; simp add: bs_mask_def bit_simps)+

lemma members_insert:
  assumes "length (bits b) = internalCount (maximum b)"
  shows "members (bs_insert n b) = (if n < maximum b then insert n (members b) else members b)"
proof (cases "n < maximum b")
  case True
  then have n: "n div 32 < length (bits b)" using assms internalCount_bound by simp
  have "bit (bits (bs_insert n b) ! (m div 32)) (m mod 32) \<longleftrightarrow> m = n \<or> bit (bits b ! (m div 32)) (m mod 32)"
    if "m < maximum b" for m
    using True bit_update(1) [OF n, of m] internalCount_bound [OF that] assms by (simp add: bs_insert_def Let_def)
  then show ?thesis using True by (auto simp: members_def) (simp_all add: bs_insert_def Let_def)
qed (simp add: bs_insert_def)

lemma members_remove:
  assumes "length (bits b) = internalCount (maximum b)"
  shows "members (bs_remove n b) = members b - {n}"
proof (cases "n < maximum b")
  case True
  then have n: "n div 32 < length (bits b)" using assms internalCount_bound by simp
  have "bit (bits (bs_remove n b) ! (m div 32)) (m mod 32) \<longleftrightarrow> m \<noteq> n \<and> bit (bits b ! (m div 32)) (m mod 32)"
    if "m < maximum b" for m
    using True bit_update(2) [OF n, of m] internalCount_bound [OF that] assms by (simp add: bs_remove_def Let_def)
  then show ?thesis using True by (auto simp: members_def) (simp_all add: bs_remove_def Let_def)
qed (auto simp: bs_remove_def members_def)

section \<open>The operations keep the invariant\<close>

lemma insert_fields [simp]: "maximum (bs_insert n b) = maximum b" "length (bits (bs_insert n b)) = length (bits b)"
  by (simp_all add: bs_insert_def Let_def)

lemma remove_fields [simp]: "maximum (bs_remove n b) = maximum b" "length (bits (bs_remove n b)) = length (bits b)"
  by (simp_all add: bs_remove_def Let_def)

lemma mask_and_members:
  assumes "n < maximum b"
  shows "bits b ! (n div 32) AND bs_mask n = 0 \<longleftrightarrow> n \<notin> members b"
  using bs_contains_members [of b n] assms unfolding bs_contains_def by (auto simp: not_le)

lemma insert_ok:
  assumes "bs_ok b"
  shows "bs_ok (bs_insert n b)"
proof (cases "n < maximum b \<and> n \<notin> members b")
  case True
  have l: "length (bits b) = internalCount (maximum b)" using assms by (simp add: bs_ok_def)
  have m: "members (bs_insert n b) = insert n (members b)" using True members_insert [OF l] by simp
  have "card (members (bs_insert n b)) \<le> maximum b" using card_members_le [of "bs_insert n b"] by simp
  then have c: "Suc (card (members b)) \<le> maximum b" using m True by simp
  have "bits b ! (n div 32) AND bs_mask n = 0" using True mask_and_members by blast
  then have "cardinality (bs_insert n b) = cardinality b + 1" using True by (simp add: bs_insert_def Let_def)
  moreover have "unat (cardinality b + 1) = unat (cardinality b) + 1"
    using assms c by (simp add: bs_ok_def unat_word_ariths)
  ultimately show ?thesis using assms m True by (simp add: bs_ok_def)
next
  case False
  have l: "length (bits b) = internalCount (maximum b)" using assms by (simp add: bs_ok_def)
  then have "members (bs_insert n b) = members b" using False by (auto simp: members_insert)
  moreover have "cardinality (bs_insert n b) = cardinality b"
    using False mask_and_members [of n b] by (auto simp: bs_insert_def Let_def)
  ultimately show ?thesis using assms by (simp add: bs_ok_def)
qed

lemma remove_ok:
  assumes "bs_ok b"
  shows "bs_ok (bs_remove n b)"
proof (cases "n \<in> members b")
  case True
  have l: "length (bits b) = internalCount (maximum b)" using assms by (simp add: bs_ok_def)
  have n: "n < maximum b" using True by (simp add: members_def)
  have m: "members (bs_remove n b) = members b - {n}" using l by (rule members_remove)
  have "bits b ! (n div 32) AND bs_mask n \<noteq> 0" using True mask_and_members [OF n] by blast
  then have "cardinality (bs_remove n b) = cardinality b - 1" using n by (simp add: bs_remove_def Let_def)
  moreover have "0 < card (members b)" using True by (auto simp: card_gt_0_iff)
  then have "unat (cardinality b - 1) = unat (cardinality b) - 1"
    using assms by (intro unat_minus_one) (auto simp: bs_ok_def)
  ultimately show ?thesis using assms m True by (simp add: bs_ok_def)
next
  case False
  have l: "length (bits b) = internalCount (maximum b)" using assms by (simp add: bs_ok_def)
  then have "members (bs_remove n b) = members b" using False by (simp add: members_remove)
  moreover have "cardinality (bs_remove n b) = cardinality b"
    using False mask_and_members [of n b] by (auto simp: bs_remove_def Let_def)
  ultimately show ?thesis using assms by (simp add: bs_ok_def)
qed

lemma insert_clean:
  assumes "bs_clean b" and "length (bits b) = internalCount (maximum b)"
  shows "bs_clean (bs_insert n b)"
proof (cases "n < maximum b")
  case True
  then have n: "n div 32 < length (bits b)" using assms internalCount_bound by simp
  show ?thesis
    using assms(1) True bit_update(1) [OF n] by (auto simp: bs_clean_def bs_insert_def Let_def less_mult_imp_div_less)
qed (use assms in \<open>simp add: bs_insert_def\<close>)

lemma remove_clean:
  assumes "bs_clean b" and "length (bits b) = internalCount (maximum b)"
  shows "bs_clean (bs_remove n b)"
proof (cases "n < maximum b")
  case True
  then have n: "n div 32 < length (bits b)" using assms internalCount_bound by simp
  show ?thesis
    using assms(1) True bit_update(2) [OF n] by (auto simp: bs_clean_def bs_remove_def Let_def less_mult_imp_div_less)
qed (use assms in \<open>simp add: bs_remove_def\<close>)

lemma new_ok: "m < 2 ^ 32 \<Longrightarrow> bs_ok (new_BitSet m)" "bs_clean (new_BitSet m)" "members (new_BitSet m) = {}"
  "maximum (new_BitSet m) = m"
proof -
  show e: "members (new_BitSet m) = {}"
    by (auto simp: members_def new_BitSet_def dest: internalCount_bound)
  show "m < 2 ^ 32 \<Longrightarrow> bs_ok (new_BitSet m)" using e by (simp add: bs_ok_def new_BitSet_def)
  show "bs_clean (new_BitSet m)" by (auto simp: bs_clean_def new_BitSet_def)
qed (simp add: new_BitSet_def)

section \<open>Whole-set operations\<close>

definition bitwise :: "(u32 \<Rightarrow> u32 \<Rightarrow> u32) \<Rightarrow> (bool \<Rightarrow> bool \<Rightarrow> bool) \<Rightarrow> bool" where
  "bitwise f g \<longleftrightarrow> \<not> g False False \<and> (\<forall>x y i. i < 32 \<longrightarrow> bit (f x y) i = g (bit x i) (bit y i))"

lemma bitwise_ops: "bitwise (AND) (\<and>)" "bitwise (OR) (\<or>)" "bitwise (\<lambda>x y. x AND NOT y) (\<lambda>p q. p \<and> \<not> q)"
  by (simp_all add: bitwise_def bit_simps)

lemma map2_op:
  assumes "bitwise f g" and "bs_ok b" "bs_ok s" "bs_clean b" "bs_clean s" and "maximum b = maximum s"
  defines "c \<equiv> cardinalize (b \<lparr> bits := map2 f (bits b) (bits s) \<rparr>)"
  shows "bs_ok c \<and> bs_clean c \<and> maximum c = maximum b \<and> members c = {n. g (n \<in> members b) (n \<in> members s)}"
proof -
  let ?d = "b \<lparr> bits := map2 f (bits b) (bits s) \<rparr>"
  have l: "length (bits b) = internalCount (maximum b)" "length (bits s) = length (bits b)"
    using assms(2,3,6) by (simp_all add: bs_ok_def)
  have bit: "bit (bits ?d ! (n div 32)) (n mod 32) =
      g (bit (bits b ! (n div 32)) (n mod 32)) (bit (bits s ! (n div 32)) (n mod 32))"
    if "n div 32 < length (bits b)" for n
    using that l assms(1) by (simp add: bitwise_def)
  have d: "length (bits ?d) = internalCount (maximum ?d)" using l by simp
  have clean: "bs_clean ?d"
    unfolding bs_clean_def
  proof
    fix n
    assume n: "n \<in> {maximum ?d..<32 * length (bits ?d)}"
    then have n1: "n \<in> {maximum b..<32 * length (bits b)}" "n \<in> {maximum s..<32 * length (bits s)}"
      using l assms(6) by simp_all
    then have "n div 32 < length (bits b)" by (simp add: less_mult_imp_div_less)
    from bit [OF this] n1 assms(1,4,5) show "\<not> bit (bits ?d ! (n div 32)) (n mod 32)"
      by (auto simp: bs_clean_def bitwise_def)
  qed
  have mem: "members ?d = {n. g (n \<in> members b) (n \<in> members s)}"
  proof (intro set_eqI)
    fix n
    show "n \<in> members ?d \<longleftrightarrow> n \<in> {n. g (n \<in> members b) (n \<in> members s)}"
    proof (cases "n < maximum b")
      case True
      then show ?thesis using bit internalCount_bound [OF True] l assms(6) by (simp add: members_def)
    next
      case False
      then show ?thesis using assms(1,6) by (simp add: members_def bitwise_def)
    qed
  qed
  have "maximum ?d < 2 ^ 32" using assms(2) by (simp add: bs_ok_def)
  from cardinalize_ok [OF d clean this] mem show ?thesis by (simp add: c_def)
qed

lemma members_eq_bits:
  assumes "bs_ok b" "bs_ok s" "bs_clean b" "bs_clean s" and "maximum b = maximum s"
  shows "list_all2 (=) (bits b) (bits s) \<longleftrightarrow> members b = members s"
proof
  assume "list_all2 (=) (bits b) (bits s)"
  then have "bits b = bits s" by (simp add: list.rel_eq)
  then show "members b = members s" using assms(5) by (simp add: members_def)
next
  assume m: "members b = members s"
  have l: "length (bits b) = internalCount (maximum b)" "length (bits s) = internalCount (maximum s)"
    using assms by (simp_all add: bs_ok_def)
  have w: "word_members (bits b) = word_members (bits s)"
    using m members_clean l assms(3,4) by metis
  have "bits b ! i = bits s ! i" if i: "i < length (bits b)" for i
  proof (rule bit_word_eqI)
    fix j
    assume j: "j < LENGTH(32)"
    have k: "(32 * i + j) div 32 = i" "(32 * i + j) mod 32 = j" using j by simp_all
    have "32 * i + j < 32 * length (bits b)" using i j by simp
    moreover have "32 * i + j \<in> word_members (bits b) \<longleftrightarrow> 32 * i + j \<in> word_members (bits s)" using w by simp
    ultimately show "bit (bits b ! i) j = bit (bits s ! i) j"
      using l assms(5) unfolding word_members_def mem_Collect_eq k by simp
  qed
  then show "list_all2 (=) (bits b) (bits s)" using l assms(5) by (simp add: list_all2_conv_all_nth)
qed

lemma subset_bits:
  assumes "bs_ok b" "bs_ok s" "bs_clean b" "bs_clean s" and "maximum b = maximum s"
  shows "list_all2 (\<lambda>x y. x AND NOT y = 0) (bits b) (bits s) \<longleftrightarrow> members b \<subseteq> members s"
proof -
  let ?c = "cardinalize (b \<lparr> bits := map2 (\<lambda>x y. x AND NOT y) (bits b) (bits s) \<rparr>)"
  have l: "length (bits s) = length (bits b)" using assms by (simp add: bs_ok_def)
  note c = map2_op [OF bitwise_ops(3) assms]
  have n: "bs_ok (new_BitSet (maximum b))" "bs_clean (new_BitSet (maximum b))" "members (new_BitSet (maximum b)) = {}"
    "maximum ?c = maximum (new_BitSet (maximum b))"
    using assms(1) new_ok [of "maximum b"] c by (simp_all add: bs_ok_def)
  have "list_all2 (=) (bits ?c) (bits (new_BitSet (maximum b))) \<longleftrightarrow> members ?c = {}"
    using members_eq_bits [of ?c "new_BitSet (maximum b)"] c n by simp
  moreover have "bits ?c = map2 (\<lambda>x y. x AND NOT y) (bits b) (bits s)" by (simp add: cardinalize_def)
  moreover have "bits (new_BitSet (maximum b)) = replicate (length (bits b)) 0"
    using assms(1) by (simp add: new_BitSet_def bs_ok_def)
  moreover have "members ?c = {} \<longleftrightarrow> members b \<subseteq> members s" using c by auto
  ultimately show ?thesis using l by (simp add: list_all2_conv_all_nth)
qed

lemma setall_members:
  assumes "bs_ok b"
  shows "members (bs_setall b) = {..<maximum b}" "bs_ok (bs_setall b)"
proof -
  show m: "members (bs_setall b) = {..<maximum b}"
    by (auto simp: members_def bs_setall_def bit_simps dest: internalCount_bound)
  have "unat (of_nat (maximum b) :: u32) = maximum b" using assms by (simp add: bs_ok_def unat_of_nat)
  then show "bs_ok (bs_setall b)" using m assms by (simp add: bs_ok_def bs_setall_def)
qed

lemma not_members:
  assumes "bs_ok b"
  shows "members (bs_not b) = {..<maximum b} - members b" "bs_ok (bs_not b)"
proof -
  have l: "length (bits b) = internalCount (maximum b)" using assms by (simp add: bs_ok_def)
  show m: "members (bs_not b) = {..<maximum b} - members b"
    using internalCount_bound [of _ "maximum b"] l by (auto simp: members_def bs_not_def bit_simps)
  have "members b \<subseteq> {..<maximum b}" by (auto simp: members_def)
  then have c: "card (members (bs_not b)) = maximum b - card (members b)" using m by (simp add: card_Diff_subset)
  have "unat (of_nat (maximum b) :: u32) = maximum b" using assms by (simp add: bs_ok_def unat_of_nat)
  moreover have "cardinality b \<le> of_nat (maximum b)"
    using assms card_members_le [of b] calculation by (simp add: word_le_nat_alt bs_ok_def)
  ultimately have "unat (of_nat (maximum b) - cardinality b) = maximum b - unat (cardinality b)"
    by (simp add: unat_sub)
  then show "bs_ok (bs_not b)" using assms c l by (simp add: bs_ok_def) (simp add: bs_not_def)
qed

section \<open>The interface of the analyses\<close>

text \<open>
  What the control-flow analyses rely on: insertion, removal and membership of numbers below a
  capacity, on values that satisfy an invariant.
\<close>

locale nat_set =
  fixes ok :: "'b \<Rightarrow> bool"
    and abs :: "'b \<Rightarrow> nat set"
    and cap :: "'b \<Rightarrow> nat"
    and ins rem :: "nat \<Rightarrow> 'b \<Rightarrow> 'b"
    and has :: "'b \<Rightarrow> nat \<Rightarrow> bool"
    and clr :: "'b \<Rightarrow> 'b"
  assumes ok_ins: "ok s \<Longrightarrow> ok (ins n s)"
    and ok_rem: "ok s \<Longrightarrow> ok (rem n s)"
    and cap_ins: "cap (ins n s) = cap s"
    and cap_rem: "cap (rem n s) = cap s"
    and abs_ins: "ok s \<Longrightarrow> abs (ins n s) = (if n < cap s then insert n (abs s) else abs s)"
    and abs_rem: "ok s \<Longrightarrow> abs (rem n s) = abs s - {n}"
    and abs_has: "has s n \<longleftrightarrow> n \<in> abs s"
    and abs_cap: "abs s \<subseteq> {..<cap s}"
    and ok_clr: "ok s \<Longrightarrow> ok (clr s)"
    and cap_clr: "cap (clr s) = cap s"
    and abs_clr: "ok s \<Longrightarrow> abs (clr s) = {}"
begin

lemma finite_abs: "finite (abs s)"
  using abs_cap by (rule finite_subset) simp

text \<open>Copying the selected numbers below a bound into a set, one insertion at a time.\<close>

lemma fold_ins:
  assumes "ok t" and "set xs \<subseteq> {..<cap t}"
  shows "ok (fold (\<lambda>i s. if P i then ins i s else s) xs t) \<and>
    cap (fold (\<lambda>i s. if P i then ins i s else s) xs t) = cap t \<and>
    abs (fold (\<lambda>i s. if P i then ins i s else s) xs t) = abs t \<union> {i \<in> set xs. P i}"
  using assms
proof (induction xs arbitrary: t)
  case Nil
  then show ?case by simp
next
  case (Cons x xs)
  show ?case
  proof (cases "P x")
    case True
    have "ok (ins x t)" "set xs \<subseteq> {..<cap (ins x t)}" using Cons.prems by (auto simp: ok_ins cap_ins)
    from Cons.IH [OF this] True Cons.prems show ?thesis by (auto simp: cap_ins abs_ins)
  next
    case False
    then show ?thesis using Cons by auto
  qed
qed

text \<open>
  A worklist: numbers that are not in the set yet are inserted and pushed on a stack. The number
  that still can be inserted counts twice, so that a push lowers the measure.
\<close>

lemma push_all:
  assumes "ok s" and "set ps \<subseteq> {..<cap s}"
  shows "case fold (\<lambda>p (b, st). if has b p then (b, st) else (ins p b, p # st)) ps (s, st) of (s', st') \<Rightarrow>
    ok s' \<and> cap s' = cap s \<and> abs s' = abs s \<union> set ps \<and> set st' = set st \<union> (set ps - abs s) \<and>
    2 * card ({..<cap s} - abs s') + length st' \<le> 2 * card ({..<cap s} - abs s) + length st"
  using assms
proof (induction ps arbitrary: s st)
  case Nil
  then show ?case by simp
next
  case (Cons p ps)
  show ?case
  proof (cases "has s p")
    case True
    then have "p \<in> abs s" by (simp add: abs_has)
    then show ?thesis using Cons.IH [of s st] Cons.prems True by (auto split: prod.splits)
  next
    case False
    have p: "ok (ins p s)" "cap (ins p s) = cap s" "abs (ins p s) = insert p (abs s)" "p \<notin> abs s" "p \<in> {..<cap s}"
      using Cons.prems False by (simp_all add: ok_ins cap_ins abs_ins abs_has)
    have "{..<cap s} - abs (ins p s) = ({..<cap s} - abs s) - {p}" unfolding p(3) by (rule Diff_insert)
    moreover have "finite ({..<cap s} - abs s)" "p \<in> {..<cap s} - abs s" using p(4,5) by simp_all
    ultimately have "card ({..<cap s} - abs s) = Suc (card ({..<cap s} - abs (ins p s)))"
      by (simp only: card.remove)
    then show ?thesis using Cons.IH [of "ins p s" "p # st"] Cons.prems p False
      by (auto split: prod.splits)
  qed
qed

text \<open>
  The loop that pops a number and pushes its sources ends, with everything that reaches the start
  backwards without going on from \<open>h\<close>.
\<close>

lemma worklist:
  assumes "ok s" and h: "h < cap s" and t: "t < cap s" and src: "\<And>n. n < cap s \<Longrightarrow> set (srcs n) \<subseteq> {..<cap s}"
    and s: "abs s = {h}"
  defines "E \<equiv> {(u, v). u \<in> set (srcs v) \<and> v \<noteq> h}"
  shows "\<exists>s'. while_option (\<lambda>(b, st). st \<noteq> [])
      (\<lambda>(b, st). fold (\<lambda>p (b, st). if has b p then (b, st) else (ins p b, p # st)) (srcs (hd st)) (b, tl st))
      (if has s t then (s, []) else (ins t s, [t])) = Some (s', []) \<and>
    ok s' \<and> cap s' = cap s \<and> abs s' = insert h {n. (n, t) \<in> E\<^sup>*}"
proof -
  let ?c = "\<lambda>(b, st). fold (\<lambda>p (b, st). if has b p then (b, st) else (ins p b, p # st)) (srcs (hd st)) (b, tl st)"
  let ?I = "\<lambda>(b, st). ok b \<and> cap b = cap s \<and> h \<in> abs b \<and> t \<in> abs b \<and> abs b \<subseteq> insert h {n. (n, t) \<in> E\<^sup>*} \<and>
    set st \<subseteq> abs b - {h} \<and> (\<forall>v \<in> abs b - set st - {h}. set (srcs v) \<subseteq> abs b)"
  let ?f = "\<lambda>(b, st). 2 * card ({..<cap s} - abs b) + length st"
  let ?s = "if has s t then (s, []) else (ins t s, [t])"
  have step: "?I (?c x) \<and> ?f (?c x) < ?f x" if I: "?I x" and ne: "case x of (b, st) \<Rightarrow> st \<noteq> []" for x
  proof -
    obtain b v st where x: "x = (b, v # st)" using ne by (cases x; cases "snd x") auto
    note I = I [unfolded x split]
    have v: "v \<in> abs b" "v \<noteq> h" "v < cap s" "(v, t) \<in> E\<^sup>*" using I abs_cap [of b] by auto
    obtain b' st' where c: "?c x = (b', st')" by fastforce
    then have "fold (\<lambda>p (b, st). if has b p then (b, st) else (ins p b, p # st)) (srcs v) (b, st) = (b', st')"
      unfolding x by simp
    with push_all [of b "srcs v" st] I src [OF v(3)]
    have p: "ok b'" "cap b' = cap s" "abs b' = abs b \<union> set (srcs v)" "set st' = set st \<union> (set (srcs v) - abs b)"
      "2 * card ({..<cap s} - abs b') + length st' \<le> 2 * card ({..<cap s} - abs b) + length st" by auto
    have "(u, t) \<in> E\<^sup>*" if "u \<in> set (srcs v)" for u
      using that v(2,4) by (auto simp: E_def intro: converse_rtrancl_into_rtrancl)
    then have "abs b' \<subseteq> insert h {n. (n, t) \<in> E\<^sup>*}" using I p(3) by auto
    moreover have "set st' \<subseteq> abs b' - {h}" using I p(3,4) by auto
    moreover have "\<forall>w \<in> abs b' - set st' - {h}. set (srcs w) \<subseteq> abs b'"
    proof
      fix w
      assume w: "w \<in> abs b' - set st' - {h}"
      then have "w = v \<or> w \<in> abs b - set (v # st) - {h}" using p(3,4) by auto
      then show "set (srcs w) \<subseteq> abs b'" using I p(3) by auto
    qed
    ultimately show ?thesis using I p x c by auto
  qed
  have start: "?I ?s" using assms(1) s h t by (simp add: abs_has ok_ins cap_ins abs_ins)
  have "\<exists>r. while_option (\<lambda>(b, st). st \<noteq> []) ?c ?s = Some r"
    by (rule measure_while_option_Some [where P = ?I and f = ?f, OF _ start]) (rule step)
  then obtain r where r: "while_option (\<lambda>(b, st). st \<noteq> []) ?c ?s = Some r" ..
  have "?I r"
    by (rule while_option_rule [where P = ?I, OF _ r start]) (rule conjunct1 [OF step])
  moreover obtain s' where r': "r = (s', [])" using while_option_stop [OF r] by (cases r) auto
  ultimately have I: "ok s'" "cap s' = cap s" "h \<in> abs s'" "t \<in> abs s'" "abs s' \<subseteq> insert h {n. (n, t) \<in> E\<^sup>*}"
    "\<forall>v \<in> abs s' - {h}. set (srcs v) \<subseteq> abs s'" by auto
  have "n \<in> abs s'" if "(n, t) \<in> E\<^sup>*" for n
    using that by (induction rule: converse_rtrancl_induct) (use I in \<open>auto simp: E_def\<close>)
  then have "abs s' = insert h {n. (n, t) \<in> E\<^sup>*}" using I by blast
  then show ?thesis using r I unfolding r' by blast
qed

end

interpretation bs: nat_set bs_ok members maximum bs_insert bs_remove bs_contains bs_clear
proof
  fix s n
  show "maximum (bs_insert n s) = maximum s" "maximum (bs_remove n s) = maximum s" by simp_all
  show "bs_contains s n \<longleftrightarrow> n \<in> members s" by (rule bs_contains_members)
  show "members s \<subseteq> {..<maximum s}" by (auto simp: members_def)
next
  fix s n
  assume ok: "bs_ok s"
  then have l: "length (bits s) = internalCount (maximum s)" by (simp add: bs_ok_def)
  show "bs_ok (bs_insert n s)" using ok by (rule insert_ok)
  show "bs_ok (bs_remove n s)" using ok by (rule remove_ok)
  show "members (bs_insert n s) = (if n < maximum s then insert n (members s) else members s)"
    using l by (rule members_insert)
  show "members (bs_remove n s) = members s - {n}" using l by (rule members_remove)
  have c: "members (bs_clear s) = {}" by (auto simp: members_def bs_clear_def dest: internalCount_bound)
  then show "members (bs_clear s) = {}" .
  show "bs_ok (bs_clear s)" using ok c by (simp add: bs_ok_def) (simp add: bs_clear_def)
next
  fix s
  show "maximum (bs_clear s) = maximum s" by (simp add: bs_clear_def)
qed

lemma bs_size_card: "bs_ok b \<Longrightarrow> unat (bs_size b) = card (members b)"
  by (simp add: bs_ok_def bs_size_def)

lemma duplicateMembers_ok:
  assumes "bs_ok b"
  shows "duplicateMembers b elements = Inr (if members b = {} then None
    else Some (map elements (sorted_list_of_set (members b))))"
proof -
  let ?f = "filter (\<lambda>idx. bit (bits b ! (idx div 32)) (idx mod 32)) [0..<maximum b]"
  have s: "set ?f = members b" by (auto simp: members_def)
  have d: "sorted ?f" "distinct ?f" by (simp_all add: sorted_wrt_filter)
  then have "sorted_list_of_set (set ?f) = ?f"
    by (simp only: sorted_list_of_set_sort_remdups distinct_remdups_id sorted_sort_id)
  then have f: "?f = sorted_list_of_set (members b)" by (simp only: s)
  have "length ?f = card (members b)" using d(2) s by (metis distinct_card)
  then have len: "unat (bs_size b) = length ?f" using bs_size_card [OF assms] by simp
  have "bs_size b = 0 \<longleftrightarrow> members b = {}"
    using bs_size_card [OF assms] by (auto simp: unat_eq_zero)
  then show ?thesis using len f by (simp add: duplicateMembers_def Let_def)
qed

section \<open>Properties\<close>

text \<open>
  C15. Insertion and removal change the represented set by exactly the given number (nothing at all
  for a number out of range), membership reads it, and the cached cardinality stays the number
  of members; the bits beyond \<open>maximum\<close> stay clear.
\<close>

theorem BitSet_element_operations:
  assumes "bs_ok b" and "bs_clean b"
  shows "bs_ok (bs_insert n b) \<and> bs_clean (bs_insert n b) \<and>
    members (bs_insert n b) = members b \<union> ({n} \<inter> {..<maximum b}) \<and>
    bs_ok (bs_remove n b) \<and> bs_clean (bs_remove n b) \<and> members (bs_remove n b) = members b - {n} \<and>
    (bs_contains b k \<longleftrightarrow> k \<in> members b) \<and> unat (bs_size b) = card (members b)"
proof -
  have l: "length (bits b) = internalCount (maximum b)" using assms(1) by (simp add: bs_ok_def)
  show ?thesis
    using assms bs.abs_ins [OF assms(1), of n] bs.abs_rem [OF assms(1), of n] insert_clean [OF assms(2) l]
      remove_clean [OF assms(2) l] bs.ok_ins bs.ok_rem bs_size_card
    by (auto simp: bs.abs_has)
qed

theorem BitSet_element_operations_witness:
  "members (bs_insert 33 (new_BitSet 40)) = {33} \<and> unat (bs_size (bs_insert 33 (new_BitSet 40))) = 1"
  using BitSet_element_operations [of "new_BitSet 40" 33] BitSet_element_operations [of "bs_insert 33 (new_BitSet 40)" 33]
  by (simp add: new_ok)

text \<open>
  On sets of the same capacity without stray bits, the operators \<open>|=\<close>, \<open>&=\<close> and \<open>-=\<close> compute
  union, intersection and difference with the right cardinality, \<open>==\<close> decides equality and
  \<open>isSubsetOf\<close> inclusion.
\<close>

theorem BitSet_set_algebra:
  assumes "bs_ok b" "bs_ok s" "bs_clean b" "bs_clean s" and "maximum b = maximum s"
  shows "(\<exists>c. bs_or b s = Inr c \<and> bs_ok c \<and> bs_clean c \<and> members c = members b \<union> members s) \<and>
    (\<exists>c. bs_and b s = Inr c \<and> bs_ok c \<and> bs_clean c \<and> members c = members b \<inter> members s) \<and>
    (\<exists>c. bs_sub b s = Inr c \<and> bs_ok c \<and> bs_clean c \<and> members c = members b - members s) \<and>
    bs_eq b s = Inr (members b = members s) \<and>
    isSubsetOf b s = Inr (members b \<subseteq> members s)"
  using map2_op [OF bitwise_ops(1) assms] map2_op [OF bitwise_ops(2) assms] map2_op [OF bitwise_ops(3) assms]
    members_eq_bits [OF assms] subset_bits [OF assms] assms(5)
  by (auto simp: bs_or_def bs_and_def bs_sub_def bs_eq_def isSubsetOf_def)

theorem BitSet_set_algebra_witness:
  "\<exists>c. bs_or (bs_insert 3 (new_BitSet 40)) (bs_insert 35 (new_BitSet 40)) = Inr c \<and> members c = {3, 35}"
proof -
  have n: "bs_ok (new_BitSet 40)" "bs_clean (new_BitSet 40)" "length (bits (new_BitSet 40)) = internalCount (maximum (new_BitSet 40))"
    by (simp_all add: new_ok, simp add: new_BitSet_def)
  have "bs_ok (bs_insert k (new_BitSet 40))" "bs_clean (bs_insert k (new_BitSet 40))" for k
    using n by (auto intro: insert_ok insert_clean)
  then show ?thesis
    using BitSet_set_algebra [of "bs_insert 3 (new_BitSet 40)" "bs_insert 35 (new_BitSet 40)"] n
    by (auto simp: members_insert new_ok)
qed

text \<open>
  \<open>setall\<close> and complement give the right set and cardinality, but they also set the bits of the
  last word beyond \<open>maximum\<close>. A later \<open>|=\<close> counts these bits (32 members in a set of capacity
  one), and \<open>==\<close> tells two sets with the same members apart.
\<close>

theorem BitSet_setall_stray_bits:
  "members (bs_setall (new_BitSet 1)) = {0} \<and> bs_size (bs_setall (new_BitSet 1)) = 1 \<and>
   (\<exists>c. bs_or (bs_setall (new_BitSet 1)) (new_BitSet 1) = Inr c \<and> members c = {0} \<and> bs_size c = 32) \<and>
   members (bs_setall (new_BitSet 1)) = members (bs_insert 0 (new_BitSet 1)) \<and>
   bs_eq (bs_setall (new_BitSet 1)) (bs_insert 0 (new_BitSet 1)) = Inr False"
proof -
  let ?one = "new_BitSet 1"
  have ok: "bs_ok ?one" "bs_clean ?one" "members ?one = {}" "maximum ?one = 1" by (simp_all add: new_ok)
  have m: "members (bs_setall ?one) = {0}" using setall_members(1) [OF ok(1)] ok(4) by auto
  have i: "members (bs_insert 0 ?one) = {0}"
    using ok members_insert [of ?one 0] by (simp add: bs_ok_def)
  have "bs_or (bs_setall ?one) ?one = Inr \<lparr> maximum = 1, bits = [NOT 0], cardinality = 32 \<rparr>"
    by code_simp
  moreover have "members \<lparr> maximum = 1, bits = [NOT 0], cardinality = 32 \<rparr> = {0}"
    by (auto simp: members_def)
  moreover have "bs_eq (bs_setall ?one) (bs_insert 0 ?one) = Inr False" by code_simp
  moreover have "bs_size (bs_setall ?one) = 1" by code_simp
  ultimately show ?thesis using m i by (simp add: bs_size_def)
qed

text \<open>
  \<open>duplicateMembers\<close> writes within the array it allocates, passes its final check, and returns
  the elements of the members in increasing order.
\<close>

theorem duplicateMembers_correct:
  assumes "bs_ok b"
  shows "duplicateMembers b elements = Inr (if members b = {} then None
    else Some (map elements (sorted_list_of_set (members b))))"
  using assms by (rule duplicateMembers_ok)

theorem duplicateMembers_correct_witness:
  "duplicateMembers (bs_insert 33 (new_BitSet 40)) (\<lambda>i. 2 * i) = Inr (Some [66])"
proof -
  have "members (bs_insert 33 (new_BitSet 40)) = {33}"
    by (subst members_insert) (simp_all add: new_ok, simp add: new_BitSet_def)
  then show ?thesis
    using duplicateMembers_correct [of "bs_insert 33 (new_BitSet 40)" "\<lambda>i. 2 * i"] by (simp add: insert_ok new_ok)
qed

end
