(* ===== verification/Cfg_Search.thy ===== *)
theory Cfg_Search
  imports Bit_Set
begin

text \<open>
  Depth-first search over the basic blocks of a function: \<open>FlowGraph::depthFirstSearch\<close> of
  \<open>src/FlowGraph.C\<close>. A block is its index, \<open>tg n\<close> the indices of its target blocks in order. The
  search marks a block by setting or by clearing its bit (\<open>visitedMarkOnSet\<close>), and lists the back
  edges it meets when it is given a completed set and a list.
\<close>

section \<open>The search\<close>

text \<open>The list is a \<open>LinkedList\<close>, whose \<open>insert\<close> adds at the front.\<close>

record dfs_state =
  visited :: BitSet
  completed :: "BitSet option"
  backEdges :: "nat list option"

definition mark_bit :: "bool \<Rightarrow> nat \<Rightarrow> BitSet \<Rightarrow> BitSet" where
  "mark_bit on n b = (if on then bs_insert n b else bs_remove n b)"

definition record_back_edge :: "nat \<Rightarrow> nat \<Rightarrow> dfs_state \<Rightarrow> dfs_state" where
  "record_back_edge root target s =
     s \<lparr> backEdges := map_option (\<lambda>l. root # target # l) (backEdges s) \<rparr>"

definition is_back_edge :: "bool \<Rightarrow> nat \<Rightarrow> dfs_state \<Rightarrow> bool" where
  "is_back_edge on target s \<longleftrightarrow> backEdges s \<noteq> None \<and>
     (case completed s of None \<Rightarrow> False | Some c \<Rightarrow> on \<noteq> bs_contains c target)"

text \<open>
  The C++ recursion has no explicit bound; \<open>k\<close> bounds its depth, and the function returns
  \<open>None\<close> when the bound is too small. The number of blocks is enough.
\<close>

fun depthFirstSearch :: "nat \<Rightarrow> (nat \<Rightarrow> nat list) \<Rightarrow> bool \<Rightarrow> nat \<Rightarrow> dfs_state \<Rightarrow> dfs_state option"
and dfs_targets :: "nat \<Rightarrow> (nat \<Rightarrow> nat list) \<Rightarrow> bool \<Rightarrow> nat \<Rightarrow> nat list \<Rightarrow> dfs_state \<Rightarrow> dfs_state option" where
  "depthFirstSearch 0 tg on root s = None"
| "depthFirstSearch (Suc k) tg on root s =
     (case dfs_targets k tg on root (tg root) (s \<lparr> visited := mark_bit on root (visited s) \<rparr>) of
        None \<Rightarrow> None
      | Some s \<Rightarrow> Some (s \<lparr> completed := map_option (mark_bit on root) (completed s) \<rparr>))"
| "dfs_targets k tg on root [] s = Some s"
| "dfs_targets k tg on root (target # ts) s =
     (if on \<noteq> bs_contains (visited s) target
      then (case depthFirstSearch k tg on target s of None \<Rightarrow> None | Some s \<Rightarrow> dfs_targets k tg on root ts s)
      else if is_back_edge on target s then dfs_targets k tg on root ts (record_back_edge root target s)
      else dfs_targets k tg on root ts s)"

section \<open>Marks as sets\<close>

definition marked :: "bool \<Rightarrow> BitSet \<Rightarrow> nat set" where
  "marked on b = (if on then members b else {..<maximum b} - members b)"

lemma marked_mark:
  assumes "bs_ok b" and "n < maximum b"
  shows "marked on (mark_bit on n b) = insert n (marked on b)" "bs_ok (mark_bit on n b)"
    "maximum (mark_bit on n b) = maximum b"
  using assms by (auto simp: marked_def mark_bit_def bs.abs_ins bs.abs_rem bs.ok_ins bs.ok_rem)

lemma marked_contains: "n < maximum b \<Longrightarrow> on \<noteq> bs_contains b n \<longleftrightarrow> n \<notin> marked on b"
  by (auto simp: marked_def bs.abs_has)

lemma marked_bound: "marked on b \<subseteq> {..<maximum b}"
  using bs.abs_cap [of b] by (auto simp: marked_def)

lemma finite_marked [simp]: "finite (marked on b)"
  by (rule finite_subset [OF marked_bound]) simp

section \<open>Reachability\<close>

definition edges :: "(nat \<Rightarrow> nat list) \<Rightarrow> (nat \<times> nat) set" where
  "edges tg = {(u, v). v \<in> set (tg u)}"

definition closed_graph :: "nat \<Rightarrow> (nat \<Rightarrow> nat list) \<Rightarrow> bool" where
  "closed_graph N tg \<longleftrightarrow> (\<forall>n < N. set (tg n) \<subseteq> {..<N})"

definition reachable :: "(nat \<Rightarrow> nat list) \<Rightarrow> nat \<Rightarrow> nat set" where
  "reachable tg root = {n. (root, n) \<in> (edges tg)\<^sup>*}"

lemma reachable_refl: "root \<in> reachable tg root"
  by (simp add: reachable_def)

lemma reachable_step: "t \<in> set (tg root) \<Longrightarrow> reachable tg t \<subseteq> reachable tg root"
  by (auto simp: reachable_def edges_def intro: converse_rtrancl_into_rtrancl)

lemma reachable_closed_subset:
  assumes "root \<in> S" and "\<And>n. n \<in> S \<Longrightarrow> set (tg n) \<subseteq> S"
  shows "reachable tg root \<subseteq> S"
proof
  fix n
  assume "n \<in> reachable tg root"
  then have "(root, n) \<in> (edges tg)\<^sup>*" by (simp add: reachable_def)
  then show "n \<in> S" by (induction rule: rtrancl_induct) (use assms in \<open>auto simp: edges_def\<close>)
qed

section \<open>What a search visits\<close>

definition seen :: "bool \<Rightarrow> dfs_state \<Rightarrow> nat set" where
  "seen on s = marked on (visited s)"

definition dfs_ok :: "nat \<Rightarrow> dfs_state \<Rightarrow> bool" where
  "dfs_ok N s \<longleftrightarrow> bs_ok (visited s) \<and> maximum (visited s) = N \<and>
     (case completed s of None \<Rightarrow> True | Some c \<Rightarrow> bs_ok c \<and> maximum c = N)"

text \<open>The effect of a search or of its loop on the marks.\<close>

definition visits :: "nat \<Rightarrow> (nat \<Rightarrow> nat list) \<Rightarrow> bool \<Rightarrow> nat set \<Rightarrow> dfs_state \<Rightarrow> dfs_state \<Rightarrow> bool" where
  "visits N tg on from s s' \<longleftrightarrow> dfs_ok N s' \<and> seen on s \<union> from \<subseteq> seen on s' \<and>
     seen on s' \<subseteq> seen on s \<union> (\<Union>n \<in> from. reachable tg n) \<and>
     (\<forall>n \<in> seen on s' - seen on s. set (tg n) \<subseteq> seen on s')"

lemma record_simps [simp]: "visited (record_back_edge r t s) = visited s" "completed (record_back_edge r t s) = completed s"
  by (simp_all add: record_back_edge_def)

lemma visits_refl: "dfs_ok N s \<Longrightarrow> from \<subseteq> seen on s \<Longrightarrow> visits N tg on from s s"
  by (auto simp: visits_def)

lemma visits_trans:
  assumes "visits N tg on {t} s s1" and "visits N tg on T s1 s2"
  shows "visits N tg on (insert t T) s s2"
  unfolding visits_def
proof (intro conjI ballI)
  show "dfs_ok N s2" using assms(2) by (simp add: visits_def)
  show "seen on s \<union> insert t T \<subseteq> seen on s2" using assms by (auto simp: visits_def)
  show "seen on s2 \<subseteq> seen on s \<union> (\<Union>n \<in> insert t T. reachable tg n)"
    using assms unfolding visits_def by blast
  fix n
  assume n: "n \<in> seen on s2 - seen on s"
  show "set (tg n) \<subseteq> seen on s2"
  proof (cases "n \<in> seen on s1")
    case True
    then show ?thesis using n assms unfolding visits_def by blast
  next
    case False
    then show ?thesis using n assms unfolding visits_def by blast
  qed
qed

lemma visits_skip: "visits N tg on T s s' \<Longrightarrow> t \<in> seen on s \<Longrightarrow> visits N tg on (insert t T) s s'"
  unfolding visits_def by blast

lemma subset_absorb: "A \<subseteq> insert r B \<union> X \<Longrightarrow> X \<subseteq> R \<Longrightarrow> r \<in> R \<Longrightarrow> A \<subseteq> B \<union> R"
  by blast

lemma visits_rootI:
  assumes "dfs_ok N s'" "seen on s' = S" "S \<subseteq> seen on s \<union> (\<Union>n \<in> {root}. reachable tg n)"
    "seen on s \<union> {root} \<subseteq> S" "set (tg root) \<subseteq> S"
    "\<forall>n \<in> S - insert root (seen on s). set (tg n) \<subseteq> S"
  shows "visits N tg on {root} s s'"
  unfolding visits_def assms(2)
proof (intro conjI ballI)
  fix n
  assume "n \<in> S - seen on s"
  then show "set (tg n) \<subseteq> S" using assms(5,6) by (cases "n = root") blast+
qed (use assms in blast)+

text \<open>Enough fuel is the number of unmarked blocks.\<close>

definition unseen :: "nat \<Rightarrow> bool \<Rightarrow> dfs_state \<Rightarrow> nat" where
  "unseen N on s = card ({..<N} - seen on s)"

lemma unseen_antimono: "seen on s \<subseteq> seen on s' \<Longrightarrow> unseen N on s' \<le> unseen N on s"
  unfolding unseen_def by (intro card_mono) auto

lemma unseen_less: "root < N \<Longrightarrow> root \<notin> seen on s \<Longrightarrow> insert root (seen on s) \<subseteq> seen on s' \<Longrightarrow>
    unseen N on s' < unseen N on s"
  unfolding unseen_def by (intro psubset_card_mono) auto

lemma dfs_visits:
  assumes "closed_graph N tg"
  shows "dfs_ok N s \<Longrightarrow> root < N \<Longrightarrow> root \<notin> seen on s \<Longrightarrow> unseen N on s \<le> k \<Longrightarrow>
      \<exists>s'. depthFirstSearch k tg on root s = Some s' \<and> visits N tg on {root} s s'"
    and "dfs_ok N s \<Longrightarrow> set ts \<subseteq> {..<N} \<Longrightarrow> unseen N on s \<le> k \<Longrightarrow>
      \<exists>s'. dfs_targets k tg on root ts s = Some s' \<and> visits N tg on (set ts) s s'"
  using assms
proof (induction k tg on root s and k tg on root ts s rule: depthFirstSearch_dfs_targets.induct)
  case (1 tg on root s)
  then have "root \<in> {..<N} - seen on s" by simp
  then have "unseen N on s \<noteq> 0" by (auto simp: unseen_def)
  with 1 show ?case by simp
next
  case (2 k tg on root s)
  let ?s = "s \<lparr> visited := mark_bit on root (visited s) \<rparr>"
  have ok: "dfs_ok N ?s" and seen: "seen on ?s = insert root (seen on s)"
    using 2(2,3) marked_mark [of "visited s" root on] by (auto simp: dfs_ok_def seen_def)
  have "unseen N on ?s < unseen N on s" using 2(3,4) seen by (intro unseen_less) auto
  then have "unseen N on ?s \<le> k" using 2(5) by simp
  moreover have "set (tg root) \<subseteq> {..<N}" using 2(3,6) by (simp add: closed_graph_def)
  ultimately obtain s1 where s1: "dfs_targets k tg on root (tg root) ?s = Some s1"
    "visits N tg on (set (tg root)) ?s s1"
    using 2(1) ok 2(6) by blast
  let ?s2 = "s1 \<lparr> completed := map_option (mark_bit on root) (completed s1) \<rparr>"
  have "dfs_ok N ?s2" using s1(2) 2(3) marked_mark by (auto simp: visits_def dfs_ok_def split: option.splits)
  moreover have "seen on ?s2 = seen on s1" by (simp add: seen_def)
  moreover have "seen on s1 \<subseteq> seen on s \<union> (\<Union>n \<in> {root}. reachable tg n)"
  proof -
    have X: "(\<Union>n \<in> set (tg root). reachable tg n) \<subseteq> reachable tg root" by (auto dest: reachable_step)
    have A: "seen on s1 \<subseteq> insert root (seen on s) \<union> (\<Union>n \<in> set (tg root). reachable tg n)"
      using s1(2) seen by (simp add: visits_def)
    show ?thesis using subset_absorb [OF A X reachable_refl] by simp
  qed
  moreover have "seen on s \<union> {root} \<subseteq> seen on s1" "set (tg root) \<subseteq> seen on s1"
    "\<forall>n \<in> seen on s1 - insert root (seen on s). set (tg n) \<subseteq> seen on s1"
    using s1(2) seen by (auto simp: visits_def)
  ultimately have "visits N tg on {root} s ?s2" by (rule visits_rootI)
  then show ?case using s1(1) by auto
next
  case (3 k tg on root s)
  then show ?case by (simp add: visits_refl)
next
  case (4 k tg on root target ts s)
  have t: "target < N" "set ts \<subseteq> {..<N}" using 4(6) by auto
  have seen_iff: "on \<noteq> bs_contains (visited s) target \<longleftrightarrow> target \<notin> seen on s"
    using t(1) 4(5) marked_contains [of target "visited s" on] by (simp add: dfs_ok_def seen_def)
  show ?case
  proof (cases "target \<in> seen on s")
    case False
    then obtain s1 where s1: "depthFirstSearch k tg on target s = Some s1" "visits N tg on {target} s s1"
      using 4(1,5,7,8) t(1) seen_iff by blast
    then have "unseen N on s1 \<le> k" using 4(7) unseen_antimono [of on s s1 N] by (auto simp: visits_def)
    then obtain s2 where s2: "dfs_targets k tg on root ts s1 = Some s2" "visits N tg on (set ts) s1 s2"
      using 4(2) [OF _ s1(1)] False seen_iff t(2) s1(2) 4(8) by (auto simp: visits_def)
    show ?thesis
      using s1(1) s2(1) visits_trans [OF s1(2) s2(2)] False seen_iff by simp
  next
    case True
    show ?thesis
    proof (cases "is_back_edge on target s")
      case be: True
      let ?r = "record_back_edge root target s"
      have "dfs_ok N ?r" "unseen N on ?r \<le> k" "seen on ?r = seen on s"
        using 4(5,7) by (simp_all add: dfs_ok_def unseen_def seen_def)
      then obtain s2 where "dfs_targets k tg on root ts ?r = Some s2" "visits N tg on (set ts) ?r s2"
        using 4(3,8) True be seen_iff t(2) by blast
      then show ?thesis using True be seen_iff \<open>seen on ?r = seen on s\<close> visits_skip [of N tg on "set ts" s s2 target]
        by (simp add: visits_def)
    next
      case be: False
      then obtain s2 where "dfs_targets k tg on root ts s = Some s2" "visits N tg on (set ts) s s2"
        using 4(4,5,7,8) True seen_iff t(2) by blast
      then show ?thesis using True be seen_iff visits_skip [of N tg on "set ts" s s2 target] by simp
    qed
  qed
qed

section \<open>What the recorded back edges mean\<close>

definition finished :: "bool \<Rightarrow> dfs_state \<Rightarrow> nat set" where
  "finished on s = (case completed s of None \<Rightarrow> {} | Some c \<Rightarrow> marked on c)"

text \<open>The list holds source and target of the edges alternately.\<close>

fun be_pairs :: "nat list \<Rightarrow> (nat \<times> nat) list" where
  "be_pairs (a # b # l) = (a, b) # be_pairs l"
| "be_pairs l = []"

definition back_pairs :: "dfs_state \<Rightarrow> (nat \<times> nat) set" where
  "back_pairs s = (case backEdges s of None \<Rightarrow> {} | Some l \<Rightarrow> set (be_pairs l))"

text \<open>The edges out of completed blocks that were not recorded.\<close>

definition forward :: "(nat \<Rightarrow> nat list) \<Rightarrow> bool \<Rightarrow> dfs_state \<Rightarrow> (nat \<times> nat) set" where
  "forward tg on s = {(u, v). u \<in> finished on s \<and> v \<in> set (tg u) \<and> (u, v) \<notin> back_pairs s}"

definition tracked :: "nat \<Rightarrow> (nat \<Rightarrow> nat list) \<Rightarrow> bool \<Rightarrow> dfs_state \<Rightarrow> bool" where
  "tracked N tg on s \<longleftrightarrow> dfs_ok N s \<and> completed s \<noteq> None \<and> backEdges s \<noteq> None \<and> finished on s \<subseteq> seen on s \<and>
     acyclic (forward tg on s) \<and> snd ` forward tg on s \<subseteq> finished on s \<and>
     (\<forall>(u, v) \<in> back_pairs s. v \<in> set (tg u) \<and> (v, u) \<in> (edges tg)\<^sup>*)"

definition stacked :: "(nat \<Rightarrow> nat list) \<Rightarrow> bool \<Rightarrow> nat \<Rightarrow> dfs_state \<Rightarrow> bool" where
  "stacked tg on root s \<longleftrightarrow> (\<forall>g \<in> seen on s - finished on s. (g, root) \<in> (edges tg)\<^sup>*)"

definition extends :: "bool \<Rightarrow> dfs_state \<Rightarrow> dfs_state \<Rightarrow> bool" where
  "extends on s s' \<longleftrightarrow> seen on s' - finished on s' = seen on s - finished on s \<and> finished on s \<subseteq> finished on s' \<and>
     back_pairs s \<subseteq> back_pairs s'"

lemma extends_refl: "extends on s s"
  by (simp add: extends_def)

lemma extends_trans: "extends on s t \<Longrightarrow> extends on t u \<Longrightarrow> extends on s u"
  by (auto simp: extends_def)

lemma acyclic_add_source:
  assumes "acyclic E" and E: "snd ` E \<subseteq> D" and "r \<notin> D" and F: "F \<subseteq> {r} \<times> D"
  shows "acyclic (E \<union> F)"
proof -
  have "y \<in> D \<and> (x \<noteq> r \<longrightarrow> (x, y) \<in> E\<^sup>+)" if "(x, y) \<in> (E \<union> F)\<^sup>+" for x y
    using that
  proof (induction rule: trancl_induct)
    case (base y)
    then show ?case using E F by force
  next
    case (step y z)
    then have "(y, z) \<in> E" using F assms(3) by auto
    then show ?case using step E by (auto intro: trancl_into_trancl)
  qed
  then show ?thesis using assms(1,3) unfolding acyclic_def by blast
qed

lemma record_be:
  assumes "backEdges s = Some l"
  shows "back_pairs (record_back_edge r t s) = insert (r, t) (back_pairs s)"
    "finished on (record_back_edge r t s) = finished on s" "seen on (record_back_edge r t s) = seen on s"
  using assms by (simp_all add: back_pairs_def record_back_edge_def finished_def seen_def)

lemma record_tracked:
  assumes "tracked N tg on s" and "root \<notin> finished on s" and "t \<in> set (tg root)" and "(t, root) \<in> (edges tg)\<^sup>*"
  shows "tracked N tg on (record_back_edge root t s)" "extends on s (record_back_edge root t s)"
proof -
  obtain l where l: "backEdges s = Some l" using assms(1) by (auto simp: tracked_def)
  note r = record_be [OF l]
  have f: "forward tg on (record_back_edge root t s) = forward tg on s"
    using assms(2) by (auto simp: forward_def r)
  show "tracked N tg on (record_back_edge root t s)"
    using assms r f l by (simp add: tracked_def dfs_ok_def) (simp add: record_back_edge_def)
  show "extends on s (record_back_edge root t s)" by (auto simp: extends_def r)
qed

lemma enter_root:
  assumes "tracked N tg on s" and "root < N" and "root \<notin> seen on s" and "stacked tg on root s"
  defines "t \<equiv> s \<lparr> visited := mark_bit on root (visited s) \<rparr>"
  shows "tracked N tg on t" "stacked tg on root t" "root \<in> seen on t - finished on t"
    "seen on t - finished on t = insert root (seen on s - finished on s)" "finished on t = finished on s" "back_pairs t = back_pairs s"
proof -
  have seen: "seen on t = insert root (seen on s)" and ok: "dfs_ok N t"
    using assms(1,2) marked_mark [of "visited s" root on] by (auto simp: t_def tracked_def dfs_ok_def seen_def)
  show d: "finished on t = finished on s" "back_pairs t = back_pairs s" by (simp_all add: t_def finished_def back_pairs_def)
  have f: "forward tg on t = forward tg on s" using d by (simp add: forward_def)
  have r: "root \<notin> finished on s" using assms(1,3) by (auto simp: tracked_def)
  show "tracked N tg on t" using assms(1) seen ok d f by (auto simp: tracked_def t_def)
  show "seen on t - finished on t = insert root (seen on s - finished on s)" using seen d r by auto
  then show "stacked tg on root t" "root \<in> seen on t - finished on t" using assms(4) by (auto simp: stacked_def)
qed

lemma leave_root:
  assumes "tracked N tg on s" and "root < N" and root: "root \<in> seen on s - finished on s"
    and ts: "\<forall>t \<in> set (tg root). t \<in> finished on s \<or> (root, t) \<in> back_pairs s"
  defines "t \<equiv> s \<lparr> completed := map_option (mark_bit on root) (completed s) \<rparr>"
  shows "tracked N tg on t" "finished on t = insert root (finished on s)" "seen on t = seen on s" "back_pairs t = back_pairs s"
proof -
  obtain c where c: "completed s = Some c" "bs_ok c" "maximum c = N"
    using assms(1) by (auto simp: tracked_def dfs_ok_def split: option.splits)
  show d: "finished on t = insert root (finished on s)"
    using c assms(2) marked_mark(1) by (simp add: t_def finished_def)
  show se: "seen on t = seen on s" and bp: "back_pairs t = back_pairs s"
    by (simp_all add: t_def seen_def back_pairs_def)
  have ok: "dfs_ok N t"
    using assms(1,2) c marked_mark(2,3) by (simp add: t_def tracked_def dfs_ok_def)
  let ?F = "{root} \<times> {v \<in> set (tg root). (root, v) \<notin> back_pairs s}"
  have f: "forward tg on t = forward tg on s \<union> ?F" by (auto simp: forward_def d bp)
  have F: "?F \<subseteq> {root} \<times> finished on s" using ts by auto
  have "acyclic (forward tg on t)"
    unfolding f using assms(1) root by (intro acyclic_add_source [OF _ _ _ F]) (auto simp: tracked_def)
  moreover have "snd ` forward tg on t \<subseteq> finished on t"
    unfolding f d using assms(1) F by (auto simp: tracked_def)
  ultimately show "tracked N tg on t"
    using assms(1) ok d se bp root c by (simp add: tracked_def) (simp add: t_def)
qed

lemma dfs_tracks:
  assumes "closed_graph N tg"
  shows "depthFirstSearch k tg on root s = Some s' \<Longrightarrow> tracked N tg on s \<Longrightarrow> root < N \<Longrightarrow>
      root \<notin> seen on s \<Longrightarrow> stacked tg on root s \<Longrightarrow>
      tracked N tg on s' \<and> extends on s s' \<and> root \<in> finished on s'"
    and "dfs_targets k tg on root ts s = Some s' \<Longrightarrow> tracked N tg on s \<Longrightarrow> root < N \<Longrightarrow>
      root \<in> seen on s - finished on s \<Longrightarrow> stacked tg on root s \<Longrightarrow> set ts \<subseteq> set (tg root) \<Longrightarrow>
      tracked N tg on s' \<and> extends on s s' \<and> (\<forall>t \<in> set ts. t \<in> finished on s' \<or> (root, t) \<in> back_pairs s')"
  using assms
proof (induction k tg on root s and k tg on root ts s arbitrary: s' and s' rule: depthFirstSearch_dfs_targets.induct)
  case (1 tg on root s)
  then show ?case by simp
next
  case (2 k tg on root s)
  let ?s = "s \<lparr> visited := mark_bit on root (visited s) \<rparr>"
  note e = enter_root [OF 2(3,4,5,6)]
  obtain s1 where s1: "dfs_targets k tg on root (tg root) ?s = Some s1"
    and s': "s' = s1 \<lparr> completed := map_option (mark_bit on root) (completed s1) \<rparr>"
    using 2(2) by (auto split: option.splits)
  from 2(1) [OF s1 e(1) 2(4) e(3,2) order_refl 2(7)]
  have t: "tracked N tg on s1" "extends on ?s s1"
    "\<forall>t \<in> set (tg root). t \<in> finished on s1 \<or> (root, t) \<in> back_pairs s1" by blast+
  have r: "root \<in> seen on s1 - finished on s1" using t(2) e(3) by (simp add: extends_def)
  note l = leave_root [OF t(1) 2(4) r t(3), folded s']
  have "root \<notin> seen on s" by (rule 2(5))
  then have "extends on s s'"
    using t(2) l(2-4) e(4-6) by (auto simp: extends_def)
  then show ?case using l by simp
next
  case (3 k tg on root s)
  then show ?case by (simp add: extends_refl)
next
  case (4 k tg on root target ts s)
  have tt: "target \<in> set (tg root)" "set ts \<subseteq> set (tg root)" using 4(10) by simp_all
  have target: "target < N" using tt(1) 4(7,11) by (auto simp: closed_graph_def)
  have vm: "maximum (visited s) = N" using 4(6) by (simp add: tracked_def dfs_ok_def)
  have seen_iff: "on \<noteq> bs_contains (visited s) target \<longleftrightarrow> target \<notin> seen on s"
    using target marked_contains [of target "visited s" on] by (simp add: vm seen_def)
  obtain c l where c: "completed s = Some c" "maximum c = N" and l: "backEdges s = Some l"
    using 4(6) by (auto simp: tracked_def dfs_ok_def split: option.splits)
  have be_iff: "is_back_edge on target s \<longleftrightarrow> target \<notin> finished on s"
    using c l target marked_contains [of target c on] by (simp add: is_back_edge_def finished_def)
  show ?case
  proof (cases "target \<in> seen on s")
    case False
    then obtain s1 where s1: "depthFirstSearch k tg on target s = Some s1" "dfs_targets k tg on root ts s1 = Some s'"
      using 4(5) seen_iff by (auto split: option.splits)
    have "stacked tg on target s"
      using 4(9) tt(1) unfolding stacked_def edges_def by (auto intro: rtrancl_into_rtrancl)
    with 4(1) False seen_iff s1(1) 4(6,11) target
    have a: "tracked N tg on s1" "extends on s s1" "target \<in> finished on s1" by blast+
    have "root \<in> seen on s1 - finished on s1" "stacked tg on root s1"
      using a(2) 4(8,9) by (simp_all add: extends_def stacked_def)
    with 4(2) [OF _ s1(1) s1(2)] False seen_iff a(1) 4(7,11) tt(2)
    have b: "tracked N tg on s'" "extends on s1 s'" "\<forall>t \<in> set ts. t \<in> finished on s' \<or> (root, t) \<in> back_pairs s'" by blast+
    have "target \<in> finished on s'" using a(3) b(2) by (auto simp: extends_def)
    then show ?thesis using b extends_trans [OF a(2) b(2)] by simp
  next
    case True
    show ?thesis
    proof (cases "target \<in> finished on s")
      case finished: True
      then have "dfs_targets k tg on root ts s = Some s'" using 4(5) True seen_iff be_iff by simp
      then have "tracked N tg on s' \<and> extends on s s' \<and> (\<forall>t \<in> set ts. t \<in> finished on s' \<or> (root, t) \<in> back_pairs s')"
        using 4(4) True seen_iff be_iff finished 4(6-9,11) tt(2) by blast
      then show ?thesis using finished by (auto simp: extends_def)
    next
      case unfin: False
      let ?r = "record_back_edge root target s"
      have "(target, root) \<in> (edges tg)\<^sup>*" using 4(9) True unfin by (simp add: stacked_def)
      with record_tracked [OF 4(6) _ tt(1)] 4(8)
      have r: "tracked N tg on ?r" "extends on s ?r" by simp_all
      have rr: "root \<in> seen on ?r - finished on ?r" "stacked tg on root ?r"
        using r(2) 4(8,9) by (simp_all add: extends_def stacked_def)
      have "dfs_targets k tg on root ts ?r = Some s'" using 4(5) True unfin seen_iff be_iff by simp
      then have b: "tracked N tg on s' \<and> extends on ?r s' \<and> (\<forall>t \<in> set ts. t \<in> finished on s' \<or> (root, t) \<in> back_pairs s')"
        using 4(3) True seen_iff be_iff unfin r(1) rr 4(7,11) tt(2) by blast
      have "(root, target) \<in> back_pairs ?r" using record_be(1) [OF l] by simp
      then show ?thesis using b extends_trans [OF r(2)] by (auto simp: extends_def)
    qed
  qed
qed

section \<open>The edges the search follows\<close>

text \<open>Edges that were not recorded and lead to completed blocks; every block is found along such edges.\<close>

definition followed :: "(nat \<Rightarrow> nat list) \<Rightarrow> bool \<Rightarrow> dfs_state \<Rightarrow> (nat \<times> nat) set" where
  "followed tg on s = {(u, v). v \<in> set (tg u) \<and> (u, v) \<notin> back_pairs s \<and> v \<in> finished on s}"

definition records :: "bool \<Rightarrow> nat set \<Rightarrow> dfs_state \<Rightarrow> dfs_state \<Rightarrow> bool" where
  "records on R s s' \<longleftrightarrow> (\<forall>(u, v) \<in> back_pairs s' - back_pairs s. (u \<in> R \<or> u \<notin> seen on s) \<and> v \<notin> finished on s)"

text \<open>The list has an even length and names visited blocks only.\<close>

definition listed :: "bool \<Rightarrow> dfs_state \<Rightarrow> bool" where
  "listed on s \<longleftrightarrow> (case backEdges s of None \<Rightarrow> True | Some l \<Rightarrow> even (length l) \<and> set l \<subseteq> seen on s)"

lemma be_pairs_set: "(u, v) \<in> set (be_pairs l) \<Longrightarrow> u \<in> set l \<and> v \<in> set l"
  by (induction l rule: be_pairs.induct) auto

lemma listed_targets: "listed on s \<Longrightarrow> (u, v) \<in> back_pairs s \<Longrightarrow> v \<in> seen on s"
  using be_pairs_set by (fastforce simp: listed_def back_pairs_def split: option.splits)

definition finds :: "(nat \<Rightarrow> nat list) \<Rightarrow> bool \<Rightarrow> nat \<Rightarrow> dfs_state \<Rightarrow> dfs_state \<Rightarrow> bool" where
  "finds tg on root s s' \<longleftrightarrow> listed on s' \<and>
     (\<forall>n \<in> seen on s' - seen on s. (root, n) \<in> (followed tg on s')\<^sup>*)"

lemma records_refl: "records on R s s"
  by (simp add: records_def)

lemma records_trans:
  "records on R s t \<Longrightarrow> records on R t u \<Longrightarrow> seen on s \<subseteq> seen on t \<Longrightarrow> finished on s \<subseteq> finished on t \<Longrightarrow> records on R s u"
  unfolding records_def by blast

lemma records_mono: "records on R s t \<Longrightarrow> R \<subseteq> R' \<Longrightarrow> records on R' s t"
  unfolding records_def by blast

lemma followed_mono:
  assumes "records on R s t" and "finished on s \<subseteq> finished on t"
  shows "(followed tg on s)\<^sup>* \<subseteq> (followed tg on t)\<^sup>*"
  using assms by (intro rtrancl_mono) (auto simp: records_def followed_def)

lemma finds_trans:
  assumes "finds tg on root s t" "finds tg on root t u" and "records on R t u" "finished on t \<subseteq> finished on u"
  shows "finds tg on root s u"
  unfolding finds_def
proof (intro conjI ballI)
  show "listed on u" using assms(2) by (simp add: finds_def)
  fix n
  assume n: "n \<in> seen on u - seen on s"
  show "(root, n) \<in> (followed tg on u)\<^sup>*"
  proof (cases "n \<in> seen on t")
    case True
    then have "(root, n) \<in> (followed tg on t)\<^sup>*" using assms(1) n by (simp add: finds_def)
    then show ?thesis using followed_mono [OF assms(3,4)] by blast
  next
    case False
    then show ?thesis using assms(2) n by (simp add: finds_def)
  qed
qed

lemma finds_enter:
  assumes "finds tg on target s t" and "records on {} s t" and "root \<in> seen on s" and "target \<in> set (tg root)"
    and "target \<notin> seen on s" and "target \<in> finished on t" and "listed on s"
  shows "finds tg on root s t"
proof -
  have "(root, target) \<notin> back_pairs t"
    using assms(2,3,5) listed_targets [OF assms(7)] by (auto simp: records_def)
  then have "(root, target) \<in> followed tg on t" using assms(4,6) by (simp add: followed_def)
  then show ?thesis using assms(1) unfolding finds_def by (blast intro: converse_rtrancl_into_rtrancl)
qed

lemma seen_grows: "tracked N tg on s \<Longrightarrow> extends on s t \<Longrightarrow> tracked N tg on t \<Longrightarrow> seen on s \<subseteq> seen on t"
  unfolding extends_def tracked_def by blast

lemma dfs_finds:
  assumes "closed_graph N tg"
  shows "depthFirstSearch k tg on root s = Some s' \<Longrightarrow> tracked N tg on s \<Longrightarrow> root < N \<Longrightarrow>
      root \<notin> seen on s \<Longrightarrow> stacked tg on root s \<Longrightarrow> listed on s \<Longrightarrow>
      records on {} s s' \<and> finds tg on root s s'"
    and "dfs_targets k tg on root ts s = Some s' \<Longrightarrow> tracked N tg on s \<Longrightarrow> root < N \<Longrightarrow>
      root \<in> seen on s - finished on s \<Longrightarrow> stacked tg on root s \<Longrightarrow> set ts \<subseteq> set (tg root) \<Longrightarrow>
      listed on s \<Longrightarrow> records on {root} s s' \<and> finds tg on root s s'"
  using assms
proof (induction k tg on root s and k tg on root ts s arbitrary: s' and s' rule: depthFirstSearch_dfs_targets.induct)
  case (1 tg on root s)
  then show ?case by simp
next
  case (2 k tg on root s)
  let ?s = "s \<lparr> visited := mark_bit on root (visited s) \<rparr>"
  note e = enter_root [OF 2(3,4,5,6)]
  obtain s1 where s1: "dfs_targets k tg on root (tg root) ?s = Some s1"
    and s': "s' = s1 \<lparr> completed := map_option (mark_bit on root) (completed s1) \<rparr>"
    using 2(2) by (auto split: option.splits)
  have seen: "seen on ?s = insert root (seen on s)"
    using 2(3,4) marked_mark [of "visited s" root on] by (auto simp: tracked_def dfs_ok_def seen_def)
  then have "listed on ?s" using 2(7) by (auto simp: listed_def split: option.splits)
  with 2(1) [OF s1 e(1) 2(4) e(3,2) order_refl _ 2(8)]
  have i: "records on {root} ?s s1" "finds tg on root ?s s1" by blast+
  from dfs_tracks(2) [OF 2(8) s1 e(1) 2(4) e(3,2) order_refl]
  have t: "tracked N tg on s1" "extends on ?s s1"
    "\<forall>t \<in> set (tg root). t \<in> finished on s1 \<or> (root, t) \<in> back_pairs s1" by blast+
  have r: "root \<in> seen on s1 - finished on s1" using t(2) e(3) by (simp add: extends_def)
  note l = leave_root [OF t(1) 2(4) r t(3), folded s']
  have "records on {} s s'"
    using i(1) 2(5) e(5,6) l(4) seen by (auto simp: records_def)
  moreover have "(followed tg on s1)\<^sup>* \<subseteq> (followed tg on s')\<^sup>*"
    using l(2,4) by (intro rtrancl_mono) (auto simp: followed_def)
  then have "finds tg on root s s'"
  proof -
    have "backEdges s' = backEdges s1" by (simp add: s')
    then have "listed on s'" using i(2) l(3) by (simp add: finds_def listed_def split: option.splits)
    moreover have "(root, n) \<in> (followed tg on s1)\<^sup>*" if "n \<in> seen on s1 - seen on s" for n
      using i(2) seen that by (cases "n = root") (simp_all add: finds_def)
    ultimately show ?thesis using \<open>(followed tg on s1)\<^sup>* \<subseteq> (followed tg on s')\<^sup>*\<close> l(3) by (auto simp: finds_def)
  qed
  ultimately show ?case by blast
next
  case (3 k tg on root s)
  then show ?case by (simp add: records_refl finds_def)
next
  case (4 k tg on root target ts s)
  have tt: "target \<in> set (tg root)" "set ts \<subseteq> set (tg root)" using 4(10) by simp_all
  have target: "target < N" using tt(1) 4(7,12) by (auto simp: closed_graph_def)
  have vm: "maximum (visited s) = N" using 4(6) by (simp add: tracked_def dfs_ok_def)
  have seen_iff: "on \<noteq> bs_contains (visited s) target \<longleftrightarrow> target \<notin> seen on s"
    using target marked_contains [of target "visited s" on] by (simp add: vm seen_def)
  obtain c l where c: "completed s = Some c" "maximum c = N" and l: "backEdges s = Some l"
    using 4(6) by (auto simp: tracked_def dfs_ok_def split: option.splits)
  have be_iff: "is_back_edge on target s \<longleftrightarrow> target \<notin> finished on s"
    using c l target marked_contains [of target c on] by (simp add: is_back_edge_def finished_def)
  show ?case
  proof (cases "target \<in> seen on s")
    case False
    then obtain s1 where s1: "depthFirstSearch k tg on target s = Some s1" "dfs_targets k tg on root ts s1 = Some s'"
      using 4(5) seen_iff by (auto split: option.splits)
    have st: "stacked tg on target s"
      using 4(9) tt(1) unfolding stacked_def edges_def by (auto intro: rtrancl_into_rtrancl)
    have i1: "records on {} s s1" "finds tg on target s s1"
      using 4(1) False seen_iff s1(1) 4(6,11,12) st target by blast+
    from dfs_tracks(1) [OF 4(12) s1(1) 4(6) target False st]
    have a: "tracked N tg on s1" "extends on s s1" "target \<in> finished on s1" by blast+
    have rt: "root \<in> seen on s1 - finished on s1" "stacked tg on root s1"
      using a(2) 4(8,9) by (simp_all add: extends_def stacked_def)
    have "listed on s1" using i1(2) by (simp add: finds_def)
    with 4(2) [OF _ s1(1) s1(2)] False seen_iff a(1) 4(7,12) tt(2) rt
    have i2: "records on {root} s1 s'" "finds tg on root s1 s'" by blast+
    from dfs_tracks(2) [OF 4(12) s1(2) a(1) 4(7) rt tt(2)]
    have f2: "finished on s1 \<subseteq> finished on s'" by (simp add: extends_def)
    have f1: "finished on s \<subseteq> finished on s1" using a(2) by (simp add: extends_def)
    have "root \<in> seen on s" using 4(8) by simp
    from finds_enter [OF i1(2,1) this tt(1) False a(3) 4(11)]
    have "finds tg on root s s1" .
    from finds_trans [OF this i2(2,1) f2]
    have "finds tg on root s s'" .
    moreover have "records on {root} s s'"
      by (rule records_trans [OF records_mono [OF i1(1)] i2(1) seen_grows [OF 4(6) a(2,1)] f1]) simp
    ultimately show ?thesis by blast
  next
    case True
    show ?thesis
    proof (cases "target \<in> finished on s")
      case finished: True
      then have "dfs_targets k tg on root ts s = Some s'" using 4(5) True seen_iff be_iff by simp
      then show ?thesis using 4(4) True seen_iff be_iff finished 4(6-9,11,12) tt(2) by blast
    next
      case unfin: False
      let ?r = "record_back_edge root target s"
      note b = record_be [OF l, where r = root and t = target]
      have "(target, root) \<in> (edges tg)\<^sup>*" using 4(9) True unfin by (simp add: stacked_def)
      with record_tracked [OF 4(6) _ tt(1)] 4(8)
      have r: "tracked N tg on ?r" "extends on s ?r" by simp_all
      have rr: "root \<in> seen on ?r - finished on ?r" "stacked tg on root ?r"
        using r(2) 4(8,9) by (simp_all add: extends_def stacked_def)
      have sub: "listed on ?r"
        using 4(8,11) True l b(3) by (simp add: listed_def) (simp add: record_back_edge_def)
      have "dfs_targets k tg on root ts ?r = Some s'" using 4(5) True unfin seen_iff be_iff by simp
      with 4(3) True seen_iff be_iff unfin r(1) rr 4(7,12) tt(2) sub
      have i: "records on {root} ?r s'" "finds tg on root ?r s'" by blast+
      have "records on {root} s ?r" using unfin unfolding records_def b by auto
      then have "records on {root} s s'"
        using records_trans [OF _ i(1), of s] unfolding b by blast
      then show ?thesis using i(2) unfolding finds_def b by blast
    qed
  qed
qed

definition dfs_start :: "BitSet \<Rightarrow> dfs_state" where
  "dfs_start b = \<lparr> visited = b, completed = None, backEdges = None \<rparr>"

definition dfs_start_back :: "nat \<Rightarrow> dfs_state" where
  "dfs_start_back N = \<lparr> visited = new_BitSet N, completed = Some (new_BitSet N), backEdges = Some [] \<rparr>"

text \<open>A search from an unmarked set of blocks marks the blocks reachable from the root.\<close>

lemma dfs_marks_reachable:
  assumes "closed_graph N tg" and "dfs_ok N s" and "seen on s = {}" and "root < N" and "N \<le> k"
  shows "\<exists>s'. depthFirstSearch k tg on root s = Some s' \<and> dfs_ok N s' \<and> seen on s' = reachable tg root"
proof -
  have "unseen N on s \<le> k" using assms(3,5) by (simp add: unseen_def)
  then obtain s' where s': "depthFirstSearch k tg on root s = Some s'" "visits N tg on {root} s s'"
    using dfs_visits(1) [where on = on and k = k, OF assms(1,2,4)] assms(3) by auto
  then have "seen on s' = reachable tg root"
    using assms(3) reachable_closed_subset [of root "seen on s'" tg] by (auto simp: visits_def)
  with s' show ?thesis by (auto simp: visits_def)
qed

lemma new_seen: "seen True (dfs_start b) = members b" "seen True (dfs_start_back N) = {}"
  by (simp_all add: seen_def marked_def dfs_start_def dfs_start_back_def new_ok)

text \<open>The back edges of a whole search.\<close>

lemma search_back_edges:
  assumes "closed_graph N tg" and "N < 2 ^ 32" and "root < N"
  shows "\<exists>s' be. depthFirstSearch N tg True root (dfs_start_back N) = Some s' \<and> backEdges s' = Some be \<and>
    even (length be) \<and> set be \<subseteq> reachable tg root \<and>
    (\<forall>(u, v) \<in> back_pairs s'. v \<in> set (tg u) \<and> (v, u) \<in> (edges tg)\<^sup>*) \<and>
    acyclic {(u, v). u \<in> reachable tg root \<and> v \<in> set (tg u) \<and> (u, v) \<notin> back_pairs s'} \<and>
    (\<forall>n \<in> reachable tg root. (root, n) \<in> (followed tg True s')\<^sup>*)"
proof -
  let ?s = "dfs_start_back N"
  have ok: "dfs_ok N ?s" using assms(2) by (simp add: dfs_ok_def dfs_start_back_def new_ok)
  from dfs_marks_reachable [OF assms(1) ok new_seen(2) assms(3) order_refl]
  obtain s' where s': "depthFirstSearch N tg True root ?s = Some s'" "seen True s' = reachable tg root" by blast
  have d: "finished True ?s = {}" "back_pairs ?s = {}" "listed True ?s"
    by (simp_all add: finished_def dfs_start_back_def back_pairs_def marked_def new_ok listed_def)
  then have "forward tg True ?s = {}" by (auto simp: forward_def)
  then have tr: "tracked N tg True ?s"
    using ok d by (simp add: tracked_def acyclic_def) (simp add: dfs_start_back_def)
  have st: "stacked tg True root ?s" "root \<notin> seen True ?s" by (simp_all add: stacked_def new_seen)
  then have t: "tracked N tg True s'" "extends True ?s s'"
    using dfs_tracks(1) [OF assms(1) s'(1)] assms(3) tr by simp_all
  then have f: "finished True s' = reachable tg root"
    using s'(2) by (auto simp: extends_def new_seen tracked_def)
  have "finds tg True root ?s s'"
    using dfs_finds(1) [OF assms(1) s'(1) tr assms(3) st(2,1) d(3)] ..
  then have "listed True s'" "\<forall>n \<in> reachable tg root. (root, n) \<in> (followed tg True s')\<^sup>*"
    by (simp_all add: finds_def s'(2) new_seen)
  moreover obtain be where "backEdges s' = Some be" using t(1) by (auto simp: tracked_def)
  moreover have "(\<forall>(u, v) \<in> back_pairs s'. v \<in> set (tg u) \<and> (v, u) \<in> (edges tg)\<^sup>*)"
    "acyclic {(u, v). u \<in> reachable tg root \<and> v \<in> set (tg u) \<and> (u, v) \<notin> back_pairs s'}"
    using t(1) f by (auto simp: tracked_def forward_def)
  ultimately show ?thesis using s' by (simp add: listed_def)
qed

section \<open>Properties\<close>

text \<open>
  C17. The recursion of \<open>depthFirstSearch\<close> is bounded by the number of blocks, and a search that
  starts with empty sets marks exactly the blocks reachable from its root.
\<close>

theorem depthFirstSearch_reaches:
  assumes "closed_graph N tg" and "N < 2 ^ 32" and "root < N"
  shows "\<exists>s'. depthFirstSearch N tg True root (dfs_start (new_BitSet N)) = Some s' \<and>
    members (visited s') = reachable tg root"
proof -
  have "dfs_ok N (dfs_start (new_BitSet N))" using assms(2) by (simp add: dfs_ok_def dfs_start_def new_ok)
  from dfs_marks_reachable [where on = True, OF assms(1) this _ assms(3) order_refl]
  show ?thesis by (auto simp: new_seen new_ok) (auto simp: seen_def marked_def)
qed

theorem depthFirstSearch_reaches_witness:
  "\<exists>s'. depthFirstSearch 3 (\<lambda>n. if n = 0 then [1] else []) True 0 (dfs_start (new_BitSet 3)) = Some s' \<and>
    members (visited s') = reachable (\<lambda>n. if n = 0 then [1] else []) 0"
  by (rule depthFirstSearch_reaches) (auto simp: closed_graph_def)

text \<open>
  C23. The back edges \<open>buildLoops\<close> searches for: every recorded pair is an edge from its first to
  its second block, and the second reaches the first, so the edge closes a cycle; and
  the edges between reachable blocks that are not recorded contain no cycle.
\<close>

theorem depthFirstSearch_back_edges:
  assumes "closed_graph N tg" and "N < 2 ^ 32" and "root < N"
  shows "\<exists>s'. depthFirstSearch N tg True root (dfs_start_back N) = Some s' \<and>
    (\<forall>(u, v) \<in> back_pairs s'. v \<in> set (tg u) \<and> (v, u) \<in> (edges tg)\<^sup>*) \<and>
    acyclic {(u, v). u \<in> reachable tg root \<and> v \<in> set (tg u) \<and> (u, v) \<notin> back_pairs s'}"
  using search_back_edges [OF assms] by blast

theorem depthFirstSearch_back_edges_witness:
  "\<exists>s'. depthFirstSearch 2 (\<lambda>n. if n = 0 then [1] else [0]) True 0 (dfs_start_back 2) = Some s' \<and>
    (\<forall>(u, v) \<in> back_pairs s'. v \<in> set (if u = 0 then [1] else [0])
       \<and> (v, u) \<in> (edges (\<lambda>n. if n = 0 then [1] else [0]))\<^sup>*)"
proof -
  have "closed_graph 2 (\<lambda>n. if n = 0 then [1] else [0])" by (simp add: closed_graph_def)
  from depthFirstSearch_back_edges [OF this, of 0] show ?thesis by auto
qed

end
