(* ===== verification/Cfg_Graph.thy ===== *)
theory Cfg_Graph
  imports Cfg_Search Base_Codes "HOL-Library.Multiset"
begin

text \<open>
  Building the control flow graph of a function: \<open>FlowGraph::connectGraph\<close> of \<open>src/FlowGraph.C\<close>
  with the edge lists of \<open>BasicBlock\<close>, the detection of unreachable blocks by a search that
  clears bits, and the entry and exit blocks. The facts the code reads off the last instruction of a block
  (its target address, whether control falls through, whether it leaves the function) are
  fields of the block; of each instruction it keeps the index and whether it is a control
  instruction of the application.
\<close>

section \<open>Blocks\<close>

record BasicBlock =
  bb_baseAddress :: u64
  bb_targetAddress :: u64
  bb_controlFallsThrough :: bool
  bb_findExitInstruction :: bool
  bb_sourceBlocks :: "nat list"
  bb_targetBlocks :: "nat list"
  bb_isEntry :: bool
  bb_isExit :: bool
  bb_isNoPath :: bool
  bb_numberOfBytes :: u32
  bb_endsWithCall :: bool
  bb_immDominatedBy :: "nat option"
  bb_index :: u32
  bb_hashCode :: HashCodeEntry
  bb_instructions :: "(u32 \<times> bool) list"

definition addSourceBlock :: "nat \<Rightarrow> nat \<Rightarrow> BasicBlock list \<Rightarrow> BasicBlock list" where
  "addSourceBlock i src bs = bs[i := (bs ! i) \<lparr> bb_sourceBlocks := bb_sourceBlocks (bs ! i) @ [src] \<rparr>]"

definition addTargetBlock :: "nat \<Rightarrow> nat \<Rightarrow> BasicBlock list \<Rightarrow> BasicBlock list" where
  "addTargetBlock i tgt bs = bs[i := (bs ! i) \<lparr> bb_targetBlocks := bb_targetBlocks (bs ! i) @ [tgt] \<rparr>]"

text \<open>\<open>removeSourceBlock\<close> and \<open>removeTargetBlock\<close> delete every occurrence of an index.\<close>

definition removeSourceBlock :: "nat \<Rightarrow> nat \<Rightarrow> BasicBlock list \<Rightarrow> BasicBlock list" where
  "removeSourceBlock i src bs = bs[i := (bs ! i) \<lparr> bb_sourceBlocks := filter (\<lambda>x. x \<noteq> src) (bb_sourceBlocks (bs ! i)) \<rparr>]"

definition removeTargetBlock :: "nat \<Rightarrow> nat \<Rightarrow> BasicBlock list \<Rightarrow> BasicBlock list" where
  "removeTargetBlock i tgt bs = bs[i := (bs ! i) \<lparr> bb_targetBlocks := filter (\<lambda>x. x \<noteq> tgt) (bb_targetBlocks (bs ! i)) \<rparr>]"

definition setExit :: "nat \<Rightarrow> BasicBlock list \<Rightarrow> BasicBlock list" where
  "setExit i bs = bs[i := (bs ! i) \<lparr> bb_isExit := True \<rparr>]"

definition setNoPath :: "nat \<Rightarrow> BasicBlock list \<Rightarrow> BasicBlock list" where
  "setNoPath i bs = bs[i := (bs ! i) \<lparr> bb_isNoPath := True \<rparr>]"

text \<open>\<open>TextObject::inRange\<close> of the function: its base address and size in bytes.\<close>

definition inRange :: "u64 \<times> u32 \<Rightarrow> u64 \<Rightarrow> bool" where
  "inRange fn addr \<longleftrightarrow> fst fn \<le> addr \<and> addr < fst fn + ucast (snd fn)"

section \<open>Indices\<close>

definition BasicBlock_verify :: "BasicBlock \<Rightarrow> unit res" where
  "BasicBlock_verify b = (
     if \<exists>i < length (bb_instructions b). fst (bb_instructions b ! i) \<noteq> of_nat i then Inl PrintError
     else if \<not> isBlock (bb_hashCode b) then Inl PrintError
     else if 1 < length (filter snd (bb_instructions b)) then Inl PrintError
     else Inr ())"

text \<open>The section of the flow graph and the index of its function go into the identifier.\<close>

definition BasicBlock_setIndex :: "u32 \<Rightarrow> u32 \<Rightarrow> u32 \<Rightarrow> BasicBlock \<Rightarrow> BasicBlock res" where
  "BasicBlock_setIndex scn func idx b = (let b = b \<lparr> bb_index := idx, bb_hashCode := HashCode3 scn func idx \<rparr> in
     rbind (BasicBlock_verify b) (\<lambda>_. Inr b))"

definition number_instructions :: "BasicBlock \<Rightarrow> BasicBlock" where
  "number_instructions b = b \<lparr> bb_instructions :=
     map (\<lambda>j. (of_nat j, snd (bb_instructions b ! j))) [0..<length (bb_instructions b)] \<rparr>"

definition number_blocks :: "u32 \<Rightarrow> u32 \<Rightarrow> BasicBlock list \<Rightarrow> BasicBlock list res" where
  "number_blocks scn func bs = rfold (\<lambda>i bs. rbind (BasicBlock_setIndex scn func (of_nat i) (bs ! i))
     (\<lambda>b. Inr (bs[i := number_instructions b]))) [0..<length bs] bs"

section \<open>Edges\<close>

text \<open>The inner loop adds block \<open>i\<close> as source of every block that starts at its target address.\<close>

definition jump_edge :: "u64 list \<Rightarrow> u64 \<Rightarrow> nat \<Rightarrow> nat \<Rightarrow> BasicBlock list \<Rightarrow> BasicBlock list" where
  "jump_edge addressCache target i j bs =
     (if target = addressCache ! j then addTargetBlock i j (addSourceBlock j i bs) else bs)"

definition connect_block :: "u64 \<times> u32 \<Rightarrow> u64 list \<Rightarrow> u64 list \<Rightarrow> nat \<Rightarrow> BasicBlock list \<Rightarrow> BasicBlock list" where
  "connect_block fn addressCache targetAddressCache i bs = (
     let bs = (if bb_findExitInstruction (bs ! i) then setExit i bs else bs);
       bs = (if bb_controlFallsThrough (bs ! i) \<and> i + 1 < length bs
             then (if targetAddressCache ! i \<noteq> addressCache ! (i + 1)
                   then addSourceBlock (i + 1) i (addTargetBlock i (i + 1) bs) else bs)
             else bs);
       bs = (if inRange fn (targetAddressCache ! i)
             then fold (jump_edge addressCache (targetAddressCache ! i) i) [0..<length bs] bs
             else bs)
     in bs)"

definition connect_edges :: "u64 \<times> u32 \<Rightarrow> BasicBlock list \<Rightarrow> BasicBlock list" where
  "connect_edges fn bs = fold (connect_block fn (map bb_baseAddress bs) (map bb_targetAddress bs)) [0..<length bs] bs"

text \<open>There must not be two entry blocks; without one the result is the null pointer.\<close>

definition getEntryBlock :: "BasicBlock list \<Rightarrow> nat option res" where
  "getEntryBlock bs = (case filter (\<lambda>i. bb_isEntry (bs ! i)) [0..<length bs] of
     [] \<Rightarrow> Inr None | [i] \<Rightarrow> Inr (Some i) | _ \<Rightarrow> Inl AssertFailed)"

definition targetsOf :: "BasicBlock list \<Rightarrow> nat \<Rightarrow> nat list" where
  "targetsOf bs n = (if n < length bs then bb_targetBlocks (bs ! n) else [])"

text \<open>Blocks whose bit is still set after the search get the flag.\<close>

definition mark_unreachable :: "BasicBlock list \<Rightarrow> BasicBlock list res" where
  "mark_unreachable bs = rbind (getEntryBlock bs) (\<lambda>entry. case entry of None \<Rightarrow> Inl NullDeref
     | Some root \<Rightarrow>
       (let edgeSet = bs_setall (new_BitSet (length bs)) in
        case depthFirstSearch (length bs) (targetsOf bs) False root (dfs_start edgeSet) of
          None \<Rightarrow> Inl Diverges
        | Some s \<Rightarrow> rbind (duplicateMembers (visited s) id) (\<lambda>m. case m of
              None \<Rightarrow> Inr bs
            | Some unreachableBlocks \<Rightarrow> Inr (fold setNoPath unreachableBlocks bs))))"

text \<open>
  The blocks are sorted by address with \<open>qsort\<close>, the parameter \<open>sortf\<close>, after the entry got its flag,
  and numbered. The target address of a block asks for its last instruction.
\<close>

definition connectGraph :: "(BasicBlock list \<Rightarrow> BasicBlock list) \<Rightarrow> u32 \<Rightarrow> u32 \<Rightarrow> u64 \<times> u32 \<Rightarrow> nat \<Rightarrow> BasicBlock list
    \<Rightarrow> BasicBlock list res" where
  "connectGraph sortf scn func fn entry bs = (if entry \<ge> length bs then Inl AssertFailed else
     let bs = bs[entry := (bs ! entry) \<lparr> bb_isEntry := True \<rparr>] in
     rbind (number_blocks scn func (sortf bs)) (\<lambda>bs.
     ASSERT (list_all (\<lambda>b. bb_instructions b \<noteq> []) bs)
     (mark_unreachable (connect_edges fn bs))))"

text \<open>The exit blocks: the flagged ones, and any block that starts outside the function.\<close>

definition getExitBlocks :: "u64 \<times> u32 \<Rightarrow> BasicBlock list \<Rightarrow> nat list" where
  "getExitBlocks fn bs = filter (\<lambda>i. bb_isExit (bs ! i) \<or> \<not> inRange fn (bb_baseAddress (bs ! i))) [0..<length bs]"

section \<open>The edges that are added\<close>

abbreviation "T bs k \<equiv> bb_targetBlocks (bs ! k)"
abbreviation "S bs k \<equiv> bb_sourceBlocks (bs ! k)"

text \<open>What \<open>connect_edges\<close> never changes.\<close>

definition same_blocks :: "BasicBlock list \<Rightarrow> BasicBlock list \<Rightarrow> bool" where
  "same_blocks bs bs' \<longleftrightarrow> length bs' = length bs \<and> (\<forall>k < length bs.
     bb_baseAddress (bs' ! k) = bb_baseAddress (bs ! k) \<and> bb_targetAddress (bs' ! k) = bb_targetAddress (bs ! k) \<and>
     bb_controlFallsThrough (bs' ! k) = bb_controlFallsThrough (bs ! k) \<and>
     bb_findExitInstruction (bs' ! k) = bb_findExitInstruction (bs ! k) \<and> bb_isEntry (bs' ! k) = bb_isEntry (bs ! k) \<and>
     bb_isNoPath (bs' ! k) = bb_isNoPath (bs ! k))"

lemma same_blocks_refl: "same_blocks bs bs"
  by (simp add: same_blocks_def)

lemma same_blocks_trans: "same_blocks a b \<Longrightarrow> same_blocks b c \<Longrightarrow> same_blocks a c"
  by (simp add: same_blocks_def)

lemma add_edge_effect:
  assumes "i < length bs" "j < length bs"
  shows "same_blocks bs (addTargetBlock i j (addSourceBlock j i bs))"
    "k < length bs \<Longrightarrow> T (addTargetBlock i j (addSourceBlock j i bs)) k = T bs k @ (if k = i then [j] else [])"
    "k < length bs \<Longrightarrow> S (addTargetBlock i j (addSourceBlock j i bs)) k = S bs k @ (if k = j then [i] else [])"
  using assms by (auto simp: same_blocks_def addSourceBlock_def addTargetBlock_def nth_list_update)

lemma block_update_swap:
  "b \<lparr> bb_targetBlocks := t, bb_sourceBlocks := s \<rparr> = b \<lparr> bb_sourceBlocks := s, bb_targetBlocks := t \<rparr>"
  by (cases b) simp

lemma add_edge_commute:
  assumes "i < length bs" "j < length bs"
  shows "addSourceBlock j i (addTargetBlock i j bs) = addTargetBlock i j (addSourceBlock j i bs)"
  using assms by (cases "i = j") (simp_all add: addSourceBlock_def addTargetBlock_def list_update_swap block_update_swap)

lemma jump_edges:
  fixes bs :: "BasicBlock list" and t :: u64 and ac :: "u64 list"
  assumes "i < length bs" and "set js \<subseteq> {..<length bs}" and "distinct js"
  defines "r \<equiv> fold (jump_edge ac t i) js bs"
  shows "same_blocks bs r \<and> (\<forall>k < length bs.
    T r k = T bs k @ (if k = i then filter (\<lambda>j. t = ac ! j) js else []) \<and>
    S r k = S bs k @ (if k \<in> set js \<and> t = ac ! k then [i] else []))"
  unfolding r_def using assms(1-3)
proof (induction js arbitrary: bs)
  case Nil
  then show ?case by (simp add: same_blocks_refl)
next
  case (Cons j js)
  let ?b = "jump_edge ac t i j bs"
  have b: "same_blocks bs ?b"
    "\<forall>k < length bs. T ?b k = T bs k @ (if k = i \<and> t = ac ! j then [j] else []) \<and>
       S ?b k = S bs k @ (if k = j \<and> t = ac ! j then [i] else [])"
    using Cons.prems add_edge_effect [of i bs j] by (auto simp: jump_edge_def same_blocks_refl)
  then have len: "length ?b = length bs" by (simp add: same_blocks_def)
  from Cons.IH [of ?b] Cons.prems len
  have ih: "same_blocks ?b (fold (jump_edge ac t i) js ?b)"
    "\<forall>k < length bs. T (fold (jump_edge ac t i) js ?b) k = T ?b k @ (if k = i then filter (\<lambda>j. t = ac ! j) js else []) \<and>
       S (fold (jump_edge ac t i) js ?b) k = S ?b k @ (if k \<in> set js \<and> t = ac ! k then [i] else [])"
    by simp_all
  show ?case using same_blocks_trans [OF b(1) ih(1)] ih(2) b(2) Cons.prems(3) by auto
qed

text \<open>The successors of a block, from the addresses alone.\<close>

definition falls_to_next :: "BasicBlock list \<Rightarrow> nat \<Rightarrow> bool" where
  "falls_to_next bs i \<longleftrightarrow> bb_controlFallsThrough (bs ! i) \<and> i + 1 < length bs \<and>
     bb_targetAddress (bs ! i) \<noteq> bb_baseAddress (bs ! (i + 1))"

definition successors :: "u64 \<times> u32 \<Rightarrow> BasicBlock list \<Rightarrow> nat \<Rightarrow> nat list" where
  "successors fn bs i = (if falls_to_next bs i then [i + 1] else []) @
     (if inRange fn (bb_targetAddress (bs ! i))
      then filter (\<lambda>j. bb_targetAddress (bs ! i) = bb_baseAddress (bs ! j)) [0..<length bs] else [])"

lemma distinct_successors: "distinct (successors fn bs i)"
  by (auto simp: successors_def falls_to_next_def)

lemma successors_bound: "set (successors fn bs i) \<subseteq> {..<length bs}"
  by (auto simp: successors_def falls_to_next_def)

lemma setExit_effect:
  assumes "i < length bs"
  shows "same_blocks bs (setExit i bs)" "k < length bs \<Longrightarrow> T (setExit i bs) k = T bs k"
    "k < length bs \<Longrightarrow> S (setExit i bs) k = S bs k"
  using assms by (auto simp: setExit_def same_blocks_def nth_list_update)

lemma same_blocks_length: "same_blocks a b \<Longrightarrow> length b = length a"
  by (simp add: same_blocks_def)

lemma connect_block_effect:
  fixes bs orig :: "BasicBlock list" and fn :: "u64 \<times> u32"
  assumes "i < length bs" and "same_blocks orig bs"
  defines "r \<equiv> connect_block fn (map bb_baseAddress orig) (map bb_targetAddress orig) i bs"
  shows "same_blocks bs r \<and> (\<forall>k < length bs.
    T r k = T bs k @ (if k = i then successors fn orig i else []) \<and>
    S r k = S bs k @ (if k \<in> set (successors fn orig i) then [i] else []))"
proof -
  let ?ac = "map bb_baseAddress orig" and ?tc = "map bb_targetAddress orig"
  have len: "length orig = length bs" using assms(2) by (simp add: same_blocks_def)
  define b1 where "b1 = (if bb_findExitInstruction (bs ! i) then setExit i bs else bs)"
  have b1: "same_blocks bs b1" "\<And>k. k < length bs \<Longrightarrow> T b1 k = T bs k" "\<And>k. k < length bs \<Longrightarrow> S b1 k = S bs k"
    using assms(1) by (simp_all add: b1_def setExit_effect same_blocks_refl)
  have l1: "length b1 = length bs" using b1(1) by (rule same_blocks_length)
  have ft: "bb_controlFallsThrough (b1 ! i) = bb_controlFallsThrough (orig ! i)"
    using b1(1) assms(1,2) len by (simp add: same_blocks_def)
  define b2 where "b2 = (if falls_to_next orig i then addSourceBlock (i + 1) i (addTargetBlock i (i + 1) b1) else b1)"
  have b2: "same_blocks b1 b2 \<and> (\<forall>k < length bs.
      T b2 k = T bs k @ (if k = i \<and> falls_to_next orig i then [i + 1] else []) \<and>
      S b2 k = S bs k @ (if k = i + 1 \<and> falls_to_next orig i then [i] else []))"
  proof (cases "falls_to_next orig i")
    case True
    then have j: "i + 1 < length b1" using len l1 by (simp add: falls_to_next_def)
    have ii: "i < length b1" using assms(1) l1 by simp
    show ?thesis
      using True add_edge_effect [OF ii j] add_edge_commute [OF ii j] b1 l1 by (simp add: b2_def)
  next
    case False
    then show ?thesis using b1 by (simp add: same_blocks_refl b2_def)
  qed
  then have l2: "length b2 = length bs" using l1 same_blocks_length [of b1 b2] by simp
  have r: "r = (if inRange fn (?tc ! i) then fold (jump_edge ?ac (?tc ! i) i) [0..<length b2] b2 else b2)"
  proof -
    have "(if bb_controlFallsThrough (b1 ! i) \<and> i + 1 < length b1
        then (if ?tc ! i \<noteq> ?ac ! (i + 1) then addSourceBlock (i + 1) i (addTargetBlock i (i + 1) b1) else b1)
        else b1) = b2"
      using ft l1 len assms(1) by (simp add: b2_def falls_to_next_def)
    then show ?thesis by (simp only: r_def connect_block_def Let_def b1_def)
  qed
  show ?thesis
  proof (cases "inRange fn (?tc ! i)")
    case True
    then have r': "r = fold (jump_edge ?ac (?tc ! i) i) [0..<length b2] b2" using r by simp
    have i2: "i < length b2" using l2 assms(1) by simp
    have "set [0..<length b2] \<subseteq> {..<length b2}" by auto
    from jump_edges [OF i2 this distinct_upt, of ?ac "?tc ! i", folded r']
    have j: "same_blocks b2 r" "\<forall>k < length bs.
        T r k = T b2 k @ (if k = i then filter (\<lambda>j. ?tc ! i = ?ac ! j) [0..<length bs] else []) \<and>
        S r k = S b2 k @ (if ?tc ! i = ?ac ! k then [i] else [])" using l2 by simp_all
    have f: "filter (\<lambda>j. ?tc ! i = ?ac ! j) [0..<length bs] =
        filter (\<lambda>j. bb_targetAddress (orig ! i) = bb_baseAddress (orig ! j)) [0..<length orig]"
      using len assms(1) by (intro filter_cong) simp_all
    have m: "inRange fn (bb_targetAddress (orig ! i))" using True len assms(1) by simp
    have "T r k = T bs k @ (if k = i then successors fn orig i else [])" if k: "k < length bs" for k
      using k j(2) b2 m unfolding f by (simp add: successors_def)
    moreover have "S r k = S bs k @ (if k \<in> set (successors fn orig i) then [i] else [])" if k: "k < length bs" for k
    proof -
      have "?tc ! i = ?ac ! k \<longleftrightarrow> bb_targetAddress (orig ! i) = bb_baseAddress (orig ! k)"
        using k len assms(1) by simp
      then show ?thesis using k j(2) b2 m len by (auto simp: successors_def falls_to_next_def)
    qed
    ultimately show ?thesis using same_blocks_trans [OF b1(1) same_blocks_trans [OF _ j(1)]] b2 by blast
  next
    case False
    have m: "\<not> inRange fn (bb_targetAddress (orig ! i))" using False len assms(1) by simp
    have "r = b2" using r False by simp
    then show ?thesis using same_blocks_trans [OF b1(1)] b2 m by (auto simp: successors_def)
  qed
qed

lemma connect_edges_prefix:
  fixes bs :: "BasicBlock list" and fn :: "u64 \<times> u32"
  assumes "m \<le> length bs"
  defines "r \<equiv> fold (connect_block fn (map bb_baseAddress bs) (map bb_targetAddress bs)) [0..<m] bs"
  shows "same_blocks bs r \<and> (\<forall>k < length bs.
    T r k = T bs k @ (if k < m then successors fn bs k else []) \<and>
    S r k = S bs k @ filter (\<lambda>i. k \<in> set (successors fn bs i)) [0..<m])"
  unfolding r_def using assms(1)
proof (induction m)
  case 0
  then show ?case by (simp add: same_blocks_refl)
next
  case (Suc m)
  let ?f = "connect_block fn (map bb_baseAddress bs) (map bb_targetAddress bs)"
  let ?b = "fold ?f [0..<m] bs"
  from Suc have ih: "same_blocks bs ?b" "\<forall>k < length bs.
    T ?b k = T bs k @ (if k < m then successors fn bs k else []) \<and>
    S ?b k = S bs k @ filter (\<lambda>i. k \<in> set (successors fn bs i)) [0..<m]" by simp_all
  have "m < length ?b" using Suc.prems same_blocks_length [OF ih(1)] by simp
  from connect_block_effect [OF this ih(1), of fn] same_blocks_length [OF ih(1)]
  have e: "same_blocks ?b (?f m ?b)" "\<forall>k < length bs.
    T (?f m ?b) k = T ?b k @ (if k = m then successors fn bs m else []) \<and>
    S (?f m ?b) k = S ?b k @ (if k \<in> set (successors fn bs m) then [m] else [])" by simp_all
  have st: "fold ?f [0..<Suc m] bs = ?f m ?b" by simp
  show ?case unfolding st using same_blocks_trans [OF ih(1) e(1)] ih(2) e(2) by (auto simp: less_Suc_eq)
qed

definition no_edges :: "BasicBlock list \<Rightarrow> bool" where
  "no_edges bs \<longleftrightarrow> (\<forall>b \<in> set bs. bb_sourceBlocks b = [] \<and> bb_targetBlocks b = [])"

lemma connect_edges_lists:
  fixes bs :: "BasicBlock list" and fn :: "u64 \<times> u32"
  assumes "no_edges bs"
  defines "r \<equiv> connect_edges fn bs"
  shows "same_blocks bs r \<and> (\<forall>k < length bs. T r k = successors fn bs k \<and>
    S r k = filter (\<lambda>i. k \<in> set (successors fn bs i)) [0..<length bs])"
  using connect_edges_prefix [of "length bs" bs fn] assms(1)
  by (simp add: r_def connect_edges_def no_edges_def)

lemma successors_iff:
  "j \<in> set (successors fn bs i) \<longleftrightarrow> falls_to_next bs i \<and> j = i + 1 \<or>
    j < length bs \<and> inRange fn (bb_targetAddress (bs ! i)) \<and> bb_targetAddress (bs ! i) = bb_baseAddress (bs ! j)"
  by (auto simp: successors_def falls_to_next_def)

section \<open>Unreachable blocks\<close>

lemma setNoPath_fold:
  "set xs \<subseteq> {..<length bs} \<Longrightarrow> length (fold setNoPath xs bs) = length bs \<and>
   (\<forall>k < length bs. fold setNoPath xs bs ! k = (bs ! k) \<lparr> bb_isNoPath := bb_isNoPath (bs ! k) \<or> k \<in> set xs \<rparr>)"
proof (induction xs arbitrary: bs)
  case Nil
  then show ?case by simp
next
  case (Cons x xs)
  have l: "length (setNoPath x bs) = length bs" by (simp add: setNoPath_def)
  from Cons.IH [of "setNoPath x bs"] Cons.prems l
  show ?case by (auto simp: setNoPath_def nth_list_update)
qed

lemma mark_unreachable_correct:
  assumes "getEntryBlock bs = Inr (Some root)" and "closed_graph (length bs) (targetsOf bs)" and "length bs < 2 ^ 32"
  shows "\<exists>bs'. mark_unreachable bs = Inr bs' \<and> length bs' = length bs \<and> (\<forall>k < length bs.
    bs' ! k = (bs ! k) \<lparr> bb_isNoPath := bb_isNoPath (bs ! k) \<or> k \<notin> reachable (targetsOf bs) root \<rparr>)"
proof -
  let ?N = "length bs" and ?tg = "targetsOf bs"
  let ?e = "bs_setall (new_BitSet ?N)"
  have e: "bs_ok ?e" "members ?e = {..<?N}" "maximum ?e = ?N"
    using setall_members [of "new_BitSet ?N"] new_ok assms(3) by (simp_all, simp add: bs_setall_def new_ok)
  have ok: "dfs_ok ?N (dfs_start ?e)" using e by (simp add: dfs_ok_def dfs_start_def)
  have s0: "seen False (dfs_start ?e) = {}" using e by (simp add: seen_def marked_def dfs_start_def)
  have root: "root < ?N"
  proof -
    have f: "filter (\<lambda>i. bb_isEntry (bs ! i)) [0..<length bs] = [root]"
      using assms(1) by (auto simp: getEntryBlock_def split: list.splits)
    have "root \<in> set (filter (\<lambda>i. bb_isEntry (bs ! i)) [0..<length bs])" unfolding f by simp
    then show ?thesis by simp
  qed
  from dfs_marks_reachable [where on = False, OF assms(2) ok s0 root order_refl]
  obtain s where s: "depthFirstSearch ?N ?tg False root (dfs_start ?e) = Some s" "dfs_ok ?N s"
    "seen False s = reachable ?tg root" by blast
  have m: "members (visited s) = {..<?N} - reachable ?tg root"
    using s(2,3) bs.abs_cap [of "visited s"] by (auto simp: seen_def marked_def dfs_ok_def)
  have v: "bs_ok (visited s)" using s(2) by (simp add: dfs_ok_def)
  let ?xs = "sorted_list_of_set (members (visited s))"
  have xs: "set ?xs = {..<?N} - reachable ?tg root" by (simp add: m)
  have "mark_unreachable bs = Inr (fold setNoPath ?xs bs)"
    using assms(1) s(1) duplicateMembers_ok [OF v, of id] by (simp add: mark_unreachable_def Let_def)
  moreover have "set ?xs \<subseteq> {..<?N}" using xs by blast
  ultimately show ?thesis using setNoPath_fold [of ?xs bs] xs by auto
qed

lemma filter_eq_single: "distinct xs \<Longrightarrow> i \<in> set xs \<Longrightarrow> filter (\<lambda>j. j = i) xs = [i]"
  by (induction xs) (auto simp: filter_empty_conv)

lemma filter_single:
  assumes "\<exists>!i. i < n \<and> P i"
  obtains i where "filter P [0..<n] = [i]" and "i < n" and "P i"
proof -
  from assms obtain i where i: "i < n" "P i" "\<And>j. j < n \<Longrightarrow> P j \<Longrightarrow> j = i" by blast
  have "P x = (x = i)" if "x \<in> set [0..<n]" for x
  proof -
    have "x < n" using that by simp
    then show ?thesis using i(2) i(3) [of x] by blast
  qed
  then have "filter P [0..<n] = filter (\<lambda>j. j = i) [0..<n]" by (intro filter_cong refl)
  also have "\<dots> = [i]" using i(1) by (intro filter_eq_single) simp_all
  finally have "filter P [0..<n] = [i]" .
  then show ?thesis using i(1,2) by (rule that)
qed

lemma getEntryBlock_unique:
  assumes "\<exists>!i. i < length bs \<and> bb_isEntry (bs ! i)"
  obtains i where "getEntryBlock bs = Inr (Some i)" and "i < length bs" and "bb_isEntry (bs ! i)"
proof -
  from filter_single [OF assms] obtain i where "filter (\<lambda>i. bb_isEntry (bs ! i)) [0..<length bs] = [i]"
    "i < length bs" "bb_isEntry (bs ! i)" by blast
  then show ?thesis using that by (simp add: getEntryBlock_def)
qed

lemma one_filter_index:
  assumes "length (filter P xs) = 1"
  shows "\<exists>!i. i < length xs \<and> P (xs ! i)"
proof -
  have "card {i. i < length xs \<and> P (xs ! i)} = 1" using assms by (simp add: length_filter_conv_card)
  then obtain i where i: "{i. i < length xs \<and> P (xs ! i)} = {i}" by (rule card_1_singletonE)
  have "j < length xs \<and> P (xs ! j) \<longleftrightarrow> j = i" for j
    using i by (simp add: set_eq_iff)
  then show ?thesis by simp
qed

lemma filter_update_one:
  assumes "e < length bs" and "\<forall>b \<in> set bs. \<not> P b" and "P x"
  shows "filter P (bs[e := x]) = [x]"
proof -
  have "bs[e := x] = take e bs @ x # drop (Suc e) bs" using assms(1) by (simp add: upd_conv_take_nth_drop)
  moreover have "filter P (take e bs) = []" "filter P (drop (Suc e) bs) = []"
    using assms(2) by (auto simp: filter_empty_conv dest: in_set_takeD in_set_dropD)
  ultimately show ?thesis using assms(3) by simp
qed

section \<open>Properties\<close>

text \<open>
  C22. After \<open>connectGraph\<close> has added its edges, block \<open>j\<close> is a target of block \<open>i\<close> exactly when
  control falls from \<open>i\<close> to its neighbour \<open>j\<close>, which is not its branch target, or the target address of
  \<open>i\<close> lies in the function and is where \<open>j\<close> starts; no edge is listed twice; and the source lists mirror the
  target lists.
\<close>

theorem connect_edges_correct:
  assumes "no_edges bs" and "i < length bs" and "j < length bs"
  shows "(j \<in> set (T (connect_edges fn bs) i) \<longleftrightarrow>
      bb_controlFallsThrough (bs ! i) \<and> j = i + 1 \<and> bb_targetAddress (bs ! i) \<noteq> bb_baseAddress (bs ! j) \<or>
      inRange fn (bb_targetAddress (bs ! i)) \<and> bb_targetAddress (bs ! i) = bb_baseAddress (bs ! j)) \<and>
    (i \<in> set (S (connect_edges fn bs) j) \<longleftrightarrow> j \<in> set (T (connect_edges fn bs) i)) \<and>
    distinct (T (connect_edges fn bs) i) \<and> distinct (S (connect_edges fn bs) j)"
  using connect_edges_lists [OF assms(1), of fn] assms(2,3)
  by (auto simp: successors_iff distinct_successors falls_to_next_def)

definition sample_blocks :: "BasicBlock list" where
  "sample_blocks = map (\<lambda>(a, t, f). \<lparr> bb_baseAddress = a, bb_targetAddress = t, bb_controlFallsThrough = f,
     bb_findExitInstruction = \<not> f, bb_sourceBlocks = [], bb_targetBlocks = [], bb_isEntry = False, bb_isExit = False,
     bb_isNoPath = False, bb_numberOfBytes = 20, bb_endsWithCall = False, bb_immDominatedBy = None,
     bb_index = 0, bb_hashCode = HashCode0, bb_instructions = [(0, False), (1, True)] \<rparr>) [(100, 140, True), (120, 100, False), (140, 0, False), (160, 0, False)]"

theorem connect_edges_correct_witness:
  "2 \<in> set (T (connect_edges (100, 80) sample_blocks) 0) \<and> 0 \<in> set (S (connect_edges (100, 80) sample_blocks) 2)"
proof -
  have "no_edges sample_blocks" "length sample_blocks = 4" by (simp_all add: no_edges_def sample_blocks_def)
  from connect_edges_correct [OF this(1), of 0 2 "(100, 80)"] this(2)
  show ?thesis by (simp add: sample_blocks_def inRange_def)
qed

text \<open>What the numbering asks of the blocks, and what it changes.\<close>

definition well_numbered :: "BasicBlock \<Rightarrow> bool" where
  "well_numbered b \<longleftrightarrow> map fst (bb_instructions b) = map of_nat [0..<length (bb_instructions b)] \<and>
     length (filter snd (bb_instructions b)) \<le> 1"

definition graph_ok :: "u32 \<Rightarrow> u32 \<Rightarrow> BasicBlock list \<Rightarrow> bool" where
  "graph_ok scn func bs \<longleftrightarrow> scn < 255 \<and> func < 65535 \<and> length bs \<le> 65535 \<and>
     (\<forall>b \<in> set bs. well_numbered b \<and> bb_instructions b \<noteq> [])"

definition numbered :: "u32 \<Rightarrow> u32 \<Rightarrow> nat \<Rightarrow> BasicBlock \<Rightarrow> BasicBlock" where
  "numbered scn func i b = number_instructions (b \<lparr> bb_index := of_nat i, bb_hashCode := HashCode3 scn func (of_nat i) \<rparr>)"

lemma numbered_fields [simp]:
  "bb_baseAddress (numbered s f i b) = bb_baseAddress b" "bb_isEntry (numbered s f i b) = bb_isEntry b"
  "bb_isNoPath (numbered s f i b) = bb_isNoPath b" "bb_sourceBlocks (numbered s f i b) = bb_sourceBlocks b"
  "bb_targetBlocks (numbered s f i b) = bb_targetBlocks b"
  "bb_instructions (numbered s f i b) = [] \<longleftrightarrow> bb_instructions b = []"
  by (simp_all add: numbered_def number_instructions_def)

lemma isBlock_HashCode3: "isBlock (HashCode3 s f b) \<longleftrightarrow> s < 255 \<and> f < 65535 \<and> b < 65535"
proof -
  have v: "unat (ucast (s + 1) :: byte) = (unat s + 1) mod 256" "unat (ucast (f + 1) :: u16) = unat f + 1"
      "unat (ucast (b + 1) :: u16) = unat b + 1" if "s < 256" "f < 65535" "b < 65535"
    using that by (simp_all add: unat_ucast word_less_nat_alt unat_word_ariths)
  have z: "x = 0 \<longleftrightarrow> unat x = 0" for x :: "'a :: len word" by (simp add: unat_eq_0)
  show ?thesis
  proof (cases "s < 256 \<and> f < 65535 \<and> b < 65535")
    case True
    have "(unat s + 1) mod 256 \<noteq> 0 \<longleftrightarrow> unat s \<noteq> 255" using True by (auto simp: word_less_nat_alt mod_Suc)
    then show ?thesis using True v
      by (auto simp: hc_defs z word_less_nat_alt)
  next
    case False
    then show ?thesis by (auto simp: hc_defs word_less_nat_alt)
  qed
qed

lemma BasicBlock_verify_value:
  "BasicBlock_verify b = (if well_numbered b \<and> isBlock (bb_hashCode b) then Inr () else Inl PrintError)"
proof -
  have w: "(\<exists>j < length (bb_instructions b). fst (bb_instructions b ! j) \<noteq> of_nat j) \<longleftrightarrow>
      map fst (bb_instructions b) \<noteq> map of_nat [0..<length (bb_instructions b)]"
    by (subst list_eq_iff_nth_eq) (simp only: length_map length_upt nth_map nth_upt diff_zero add_0 not_all simp_thms not_imp cong: conj_cong)
  have c: "(if p \<noteq> q then x else if \<not> h then x else if 1 < k then x else y) = (if (p = q \<and> k \<le> 1) \<and> h then y else x)"
    for p q :: "u32 list" and h and k :: nat and x y :: "unit res" by simp
  show ?thesis unfolding BasicBlock_verify_def well_numbered_def w by (rule c)
qed

lemma setIndex_value:
  "BasicBlock_setIndex s f (of_nat i) b = (if well_numbered b \<and> s < 255 \<and> f < 65535 \<and> (of_nat i :: u32) < 65535
     then Inr (b \<lparr> bb_index := of_nat i, bb_hashCode := HashCode3 s f (of_nat i) \<rparr>) else Inl PrintError)"
proof -
  let ?b = "b \<lparr> bb_index := of_nat i, bb_hashCode := HashCode3 s f (of_nat i) \<rparr>"
  have "well_numbered ?b \<longleftrightarrow> well_numbered b" "bb_hashCode ?b = HashCode3 s f (of_nat i)"
    by (simp_all add: well_numbered_def)
  then have "BasicBlock_verify ?b = (if well_numbered b \<and> s < 255 \<and> f < 65535 \<and> (of_nat i :: u32) < 65535 then Inr () else Inl PrintError)"
    by (simp only: BasicBlock_verify_value isBlock_HashCode3)
  then show ?thesis unfolding BasicBlock_setIndex_def Let_def by (simp only: if_distrib [of "\<lambda>r. rbind r _"] rbind_Inr rbind_Inl)
qed

lemma number_blocks_prefix:
  fixes bs :: "BasicBlock list" and s f :: u32
  defines "g \<equiv> \<lambda>i bs. rbind (BasicBlock_setIndex s f (of_nat i) (bs ! i)) (\<lambda>b. Inr (bs[i := number_instructions b]))"
  assumes "m \<le> length bs"
  shows "rfold g [0..<m] bs = (if \<forall>i < m. well_numbered (bs ! i) \<and> s < 255 \<and> f < 65535 \<and> (of_nat i :: u32) < 65535
     then Inr (map (\<lambda>i. if i < m then numbered s f i (bs ! i) else bs ! i) [0..<length bs]) else Inl PrintError)"
  using assms(2)
proof (induction m)
  case 0
  then show ?case by (simp add: map_nth)
next
  case (Suc m)
  let ?ok = "\<lambda>i. well_numbered (bs ! i) \<and> s < 255 \<and> f < 65535 \<and> (of_nat i :: u32) < 65535"
  let ?l = "\<lambda>m. map (\<lambda>i. if i < m then numbered s f i (bs ! i) else bs ! i) [0..<length bs]"
  have l: "(?l m)[m := numbered s f m (bs ! m)] = ?l (Suc m)"
    using Suc.prems by (intro nth_equalityI) (auto simp: nth_list_update)
  have st: "g m (?l m) = (if ?ok m then Inr (?l (Suc m)) else Inl PrintError)"
    using Suc.prems l by (auto simp: g_def setIndex_value numbered_def)
  show ?case
  proof (cases "\<forall>i < m. ?ok i")
    case True
    then have "rfold g [0..<m] bs = Inr (?l m)" using Suc by simp
    then have "rfold g [0..<Suc m] bs = g m (?l m)" by (cases "g m (?l m)") (simp_all add: rfold_append)
    then show ?thesis unfolding st using True by (auto simp: less_Suc_eq)
  next
    case False
    then have "rfold g [0..<Suc m] bs = Inl PrintError" using Suc by (auto simp: rfold_append)
    then show ?thesis using False by (auto simp: less_Suc_eq)
  qed
qed

lemma number_blocks_value:
  assumes "length bs < 2 ^ 32" and "bs \<noteq> []"
  shows "rbind (number_blocks s f bs) (\<lambda>bs. ASSERT (list_all (\<lambda>b. bb_instructions b \<noteq> []) bs) (Inr bs)) =
    (if graph_ok s f bs then Inr (map (\<lambda>i. numbered s f i (bs ! i)) [0..<length bs])
     else if \<forall>b \<in> set bs. well_numbered b \<and> s < 255 \<and> f < 65535 \<and> length bs \<le> 65535 then Inl AssertFailed else Inl PrintError)"
proof -
  have i: "(of_nat i :: u32) < 65535 \<longleftrightarrow> i < 65535" if "i < length bs" for i
    using that assms(1) by (simp add: word_less_nat_alt unat_of_nat)
  have l: "(\<forall>i < length bs. i < (65535 :: nat)) \<longleftrightarrow> length bs \<le> 65535" by (auto simp: not_le [symmetric])
  have all: "(\<forall>i < length bs. well_numbered (bs ! i) \<and> s < 255 \<and> f < 65535 \<and> (of_nat i :: u32) < 65535) \<longleftrightarrow>
      (\<forall>b \<in> set bs. well_numbered b \<and> s < 255 \<and> f < 65535 \<and> length bs \<le> 65535)"
    using i l assms(2) by (auto simp: all_set_conv_all_nth)
  have e: "list_all (\<lambda>b. bb_instructions b \<noteq> []) (map (\<lambda>i. numbered s f i (bs ! i)) [0..<length bs]) \<longleftrightarrow>
      (\<forall>b \<in> set bs. bb_instructions b \<noteq> [])"
    by (auto simp: list_all_iff all_set_conv_all_nth)
  have m: "map (\<lambda>i. if i < length bs then numbered s f i (bs ! i) else bs ! i) [0..<length bs] =
      map (\<lambda>i. numbered s f i (bs ! i)) [0..<length bs]" by (rule map_cong) simp_all
  have g: "graph_ok s f bs \<longleftrightarrow> (\<forall>b \<in> set bs. well_numbered b \<and> s < 255 \<and> f < 65535 \<and> length bs \<le> 65535) \<and>
      (\<forall>b \<in> set bs. bb_instructions b \<noteq> [])"
    using assms(2) by (cases bs) (auto simp: graph_ok_def)
  show ?thesis
    unfolding number_blocks_def number_blocks_prefix [OF order_refl] all m
    by (simp add: e g)
qed

text \<open>Sorting and numbering keep what the edges and the search look at.\<close>

lemma connectGraph_checked:
  assumes "e < length bs"
  shows "connectGraph sortf scn func fn e bs =
    rbind (rbind (number_blocks scn func (sortf (bs[e := (bs ! e) \<lparr> bb_isEntry := True \<rparr>])))
      (\<lambda>bs. ASSERT (list_all (\<lambda>b. bb_instructions b \<noteq> []) bs) (Inr bs))) (\<lambda>bs. mark_unreachable (connect_edges fn bs))"
  using assms unfolding connectGraph_def Let_def rbind_assoc by (auto simp: ASSERT_def intro!: arg_cong2 [where f = rbind])

lemma sorted_entry:
  assumes "mset ss = mset (bs[e := (bs ! e) \<lparr> bb_isEntry := True \<rparr>])" and "e < length bs"
  shows "length ss = length bs" "graph_ok scn func ss \<longleftrightarrow> graph_ok scn func bs"
    "no_edges bs \<Longrightarrow> no_edges ss" "\<forall>b \<in> set bs. \<not> bb_isNoPath b \<Longrightarrow> \<forall>b \<in> set ss. \<not> bb_isNoPath b"
    "\<forall>b \<in> set bs. \<not> bb_isEntry b \<Longrightarrow> \<exists>!i. i < length ss \<and> bb_isEntry (ss ! i)"
    "\<forall>b \<in> set bs. \<not> bb_isEntry b \<Longrightarrow> i < length ss \<Longrightarrow> bb_isEntry (ss ! i) \<Longrightarrow> bb_baseAddress (ss ! i) = bb_baseAddress (bs ! e)"
proof -
  let ?x = "(bs ! e) \<lparr> bb_isEntry := True \<rparr>"
  let ?b = "bs[e := ?x]"
  have set: "set ss = set ?b" and len: "length ss = length bs"
    using assms(1) by (metis set_mset_mset, metis length_list_update size_mset)
  have be: "bs ! e \<in> set bs" using assms(2) by simp
  have x: "(\<forall>b \<in> set ss. P b) \<longleftrightarrow> (\<forall>b \<in> set bs. P b)" if "P ?x \<longleftrightarrow> P (bs ! e)" for P
    using that assms(2) unfolding set all_set_conv_all_nth by (auto simp: nth_list_update)
  show "length ss = length bs" by (rule len)
  show "graph_ok scn func ss \<longleftrightarrow> graph_ok scn func bs"
    using x [of "\<lambda>b. well_numbered b \<and> bb_instructions b \<noteq> []"] by (simp add: graph_ok_def well_numbered_def len)
  show "no_edges bs \<Longrightarrow> no_edges ss"
    using x [of "\<lambda>b. bb_sourceBlocks b = [] \<and> bb_targetBlocks b = []"] by (simp add: no_edges_def)
  show "\<forall>b \<in> set bs. \<not> bb_isNoPath b \<Longrightarrow> \<forall>b \<in> set ss. \<not> bb_isNoPath b"
    using x [of "\<lambda>b. \<not> bb_isNoPath b"] by simp
  assume ne: "\<forall>b \<in> set bs. \<not> bb_isEntry b"
  have f: "filter bb_isEntry ?b = [?x]" using assms(2) ne by (intro filter_update_one) auto
  have "mset (filter bb_isEntry ss) = mset (filter bb_isEntry ?b)" by (simp only: mset_filter assms(1))
  then have "mset (filter bb_isEntry ss) = {#?x#}" by (simp only: f mset.simps)
  then have fs: "filter bb_isEntry ss = [?x]" by (rule mset_single_iff [THEN iffD1])
  then show "\<exists>!i. i < length ss \<and> bb_isEntry (ss ! i)" by (intro one_filter_index) (simp only: fs list.size)
  assume "i < length ss" "bb_isEntry (ss ! i)"
  then have "ss ! i \<in> set (filter bb_isEntry ss)" by simp
  then show "bb_baseAddress (ss ! i) = bb_baseAddress (bs ! e)" unfolding fs by simp
qed

lemma connectGraph_reachability:
  assumes "\<And>xs. mset (sortf xs) = mset xs" and "no_edges bs" and "\<forall>b \<in> set bs. \<not> bb_isEntry b \<and> \<not> bb_isNoPath b"
    and "e < length bs" and "graph_ok scn func bs"
  shows "\<exists>bs' root. connectGraph sortf scn func fn e bs = Inr bs' \<and> length bs' = length bs \<and> root < length bs' \<and>
    bb_isEntry (bs' ! root) \<and> bb_baseAddress (bs' ! root) = bb_baseAddress (bs ! e) \<and>
    (\<forall>k < length bs'. bb_isNoPath (bs' ! k) \<longleftrightarrow> k \<notin> reachable (targetsOf bs') root)"
proof -
  define ss where "ss = sortf (bs[e := (bs ! e) \<lparr> bb_isEntry := True \<rparr>])"
  define ns where "ns = map (\<lambda>i. numbered scn func i (ss ! i)) [0..<length ss]"
  let ?c = "connect_edges fn ns"
  note se = sorted_entry [OF assms(1) assms(4), folded ss_def]
  have n0: "\<forall>b \<in> set bs. \<not> bb_isEntry b" "\<forall>b \<in> set bs. \<not> bb_isNoPath b" using assms(3) by simp_all
  have g: "graph_ok scn func ss" using se(2) assms(5) by simp
  have small: "length ss < 2 ^ 32" using g by (simp add: graph_ok_def)
  have "ss \<noteq> []" using se(1) assms(4) by auto
  from number_blocks_value [OF small this, of scn func] g
  have cg: "connectGraph sortf scn func fn e bs = mark_unreachable ?c"
    unfolding connectGraph_checked [OF assms(4)] ss_def [symmetric] ns_def by simp
  have ln: "length ns = length bs" by (simp add: ns_def se(1))
  have nf: "bb_isEntry (ns ! i) = bb_isEntry (ss ! i)" "bb_isNoPath (ns ! i) = bb_isNoPath (ss ! i)"
    "bb_baseAddress (ns ! i) = bb_baseAddress (ss ! i)" if "i < length bs" for i
    using that by (simp_all add: ns_def se(1))
  have ne: "no_edges ns" using se(3) [OF assms(2)] by (auto simp: ns_def no_edges_def)
  note c = connect_edges_lists [OF ne, of fn]
  have lc: "length ?c = length bs" using c same_blocks_length ln by metis
  have sb: "bb_isEntry (?c ! i) = bb_isEntry (ss ! i)" "bb_isNoPath (?c ! i) = bb_isNoPath (ss ! i)"
    "bb_baseAddress (?c ! i) = bb_baseAddress (ss ! i)" if "i < length bs" for i
    using c that nf ln by (simp_all add: same_blocks_def)
  have "i < length ?c \<and> bb_isEntry (?c ! i) \<longleftrightarrow> i < length ss \<and> bb_isEntry (ss ! i)" for i
    using sb(1) [of i] unfolding lc se(1) by blast
  with se(5) [OF n0(1)] have "\<exists>!i. i < length ?c \<and> bb_isEntry (?c ! i)" by (simp only:)
  then obtain root where root: "getEntryBlock ?c = Inr (Some root)" "root < length ?c" "bb_isEntry (?c ! root)"
    by (rule getEntryBlock_unique)
  have "closed_graph (length ?c) (targetsOf ?c)"
    using c successors_bound [of fn ns] ln lc by (simp add: closed_graph_def targetsOf_def)
  from mark_unreachable_correct [OF root(1) this] lc small se(1)
  obtain bs' where bs': "mark_unreachable ?c = Inr bs'" "length bs' = length ?c"
    "\<forall>k < length ?c. bs' ! k = (?c ! k) \<lparr> bb_isNoPath := bb_isNoPath (?c ! k) \<or> k \<notin> reachable (targetsOf ?c) root \<rparr>"
    by auto
  have t: "targetsOf bs' = targetsOf ?c" using bs'(2,3) by (intro ext) (simp add: targetsOf_def)
  have np: "\<not> bb_isNoPath (?c ! k)" if "k < length bs" for k
    using sb(2) [OF that] se(4) [OF n0(2)] that se(1) by simp
  have "bb_isNoPath (bs' ! k) \<longleftrightarrow> k \<notin> reachable (targetsOf bs') root" if "k < length bs'" for k
    using that bs'(2,3) np lc t by simp
  moreover have "bb_baseAddress (bs' ! root) = bb_baseAddress (bs ! e)"
    using bs'(3) root(2,3) sb lc se(1) se(6) [OF n0(1), of root] by simp
  moreover have "bb_isEntry (bs' ! root)" "root < length bs'" "length bs' = length bs"
    using bs'(2,3) root(2,3) lc by simp_all
  ultimately show ?thesis using cg bs'(1) by auto
qed

lemma connectGraph_refuses:
  assumes "\<And>xs. mset (sortf xs) = mset xs" and "e < length bs" and "length bs < 2 ^ 32" and "\<not> graph_ok scn func bs"
  shows "\<exists>err. connectGraph sortf scn func fn e bs = Inl err"
proof -
  define ss where "ss = sortf (bs[e := (bs ! e) \<lparr> bb_isEntry := True \<rparr>])"
  note se = sorted_entry [OF assms(1) assms(2), folded ss_def]
  have "length ss < 2 ^ 32" "ss \<noteq> []" using se(1) assms(2,3) by auto
  from number_blocks_value [OF this, of scn func] se(2) assms(4) show ?thesis
    unfolding connectGraph_checked [OF assms(2)] ss_def [symmetric] by auto
qed

text \<open>
  C4. \<open>connectGraph\<close> on the blocks of a function, whatever order \<open>qsort\<close> leaves them in. It comes to its end
  exactly when the checks of \<open>BasicBlock::verify\<close> hold while the blocks are numbered: the section and
  function fit the identifier, there are at most 65535 blocks, none is empty, the instructions of
  each are numbered in order and at most one is a control instruction. Then it flags as
  unreachable exactly the blocks that no path of target edges leads to from the entry block.
\<close>

theorem connectGraph_unreachable:
  assumes "\<And>xs. mset (sortf xs) = mset xs" and "no_edges bs" and "\<forall>b \<in> set bs. \<not> bb_isEntry b \<and> \<not> bb_isNoPath b"
    and "e < length bs" and "length bs < 2 ^ 32"
  shows "if graph_ok scn func bs
    then \<exists>bs' root. connectGraph sortf scn func fn e bs = Inr bs' \<and> length bs' = length bs \<and> root < length bs' \<and>
      bb_isEntry (bs' ! root) \<and> bb_baseAddress (bs' ! root) = bb_baseAddress (bs ! e) \<and>
      (\<forall>k < length bs'. bb_isNoPath (bs' ! k) \<longleftrightarrow> k \<notin> reachable (targetsOf bs') root)
    else \<exists>err. connectGraph sortf scn func fn e bs = Inl err"
  using connectGraph_reachability [OF assms(1-4)] connectGraph_refuses [OF assms(1,4,5)] by simp

theorem connectGraph_unreachable_witness:
  "\<exists>bs' root. connectGraph (sort_key bb_baseAddress) 12 3 (100, 80) 0 sample_blocks = Inr bs' \<and> length bs' = 4 \<and>
    root < 4 \<and> bb_baseAddress (bs' ! root) = 100 \<and>
    (\<forall>k < 4. bb_isNoPath (bs' ! k) \<longleftrightarrow> k \<notin> reachable (targetsOf bs') root)"
proof -
  have s: "no_edges sample_blocks" "\<forall>b \<in> set sample_blocks. \<not> bb_isEntry b \<and> \<not> bb_isNoPath b"
    "0 < length sample_blocks" "length sample_blocks < 2 ^ 32"
    by (simp_all add: no_edges_def sample_blocks_def)
  have "graph_ok 12 3 sample_blocks" by (simp add: graph_ok_def sample_blocks_def well_numbered_def)
  with connectGraph_unreachable [where sortf = "sort_key bb_baseAddress" and fn = "(100, 80)" and scn = 12 and func = 3, OF mset_sort s]
  obtain bs' root where r: "connectGraph (sort_key bb_baseAddress) 12 3 (100, 80) 0 sample_blocks = Inr bs'"
    "length bs' = length sample_blocks" "root < length bs'" "bb_baseAddress (bs' ! root) = bb_baseAddress (sample_blocks ! 0)"
    "\<forall>k < length bs'. bb_isNoPath (bs' ! k) \<longleftrightarrow> k \<notin> reachable (targetsOf bs') root" by auto
  have "length sample_blocks = 4" "bb_baseAddress (sample_blocks ! 0) = 100" by (simp_all add: sample_blocks_def)
  with r show ?thesis by (intro exI [of _ bs'] exI [of _ root]) simp
qed

end
