(* ===== verification/Cfg_Dominators.thy ===== *)
theory Cfg_Dominators
  imports Cfg_Search
begin

text \<open>
  Dominance in a flow graph and \<open>BasicBlock::isDominatedBy\<close> of \<open>src/BasicBlock.C\<close>, which walks the
  chain of immediate dominators of a block. The walk has no bound in the code; it is a partial function
  here, with the value \<open>None\<close> for a chain that never ends.
\<close>

section \<open>The walk\<close>

partial_function (option) dominator_walk :: "(nat \<Rightarrow> nat option) \<Rightarrow> nat \<Rightarrow> nat option \<Rightarrow> bool option" where
  [code]: "dominator_walk idom bb cur = (case cur of
     None \<Rightarrow> Some False
   | Some d \<Rightarrow> if d = bb then Some True else dominator_walk idom bb (idom d))"

definition isDominatedBy :: "(nat \<Rightarrow> nat option) \<Rightarrow> nat \<Rightarrow> nat \<Rightarrow> bool option" where
  "isDominatedBy idom this bb = dominator_walk idom bb (Some this)"

lemma isDominatedBy_step:
  "isDominatedBy idom n b = (if n = b then Some True
     else case idom n of None \<Rightarrow> Some False | Some d \<Rightarrow> isDominatedBy idom d b)"
  unfolding isDominatedBy_def by (subst dominator_walk.simps) (simp add: dominator_walk.simps split: option.split)

section \<open>Dominance\<close>

text \<open>The edges that do not enter \<open>d\<close>; a block is dominated by \<open>d\<close> when they do not lead to it.\<close>

definition avoiding :: "(nat \<Rightarrow> nat list) \<Rightarrow> nat \<Rightarrow> (nat \<times> nat) set" where
  "avoiding tg d = {(u, v). v \<in> set (tg u) \<and> v \<noteq> d}"

definition dominates :: "(nat \<Rightarrow> nat list) \<Rightarrow> nat \<Rightarrow> nat \<Rightarrow> nat \<Rightarrow> bool" where
  "dominates tg root d n \<longleftrightarrow> d = root \<or> (root, n) \<notin> (avoiding tg d)\<^sup>*"

definition doms :: "(nat \<Rightarrow> nat list) \<Rightarrow> nat \<Rightarrow> nat \<Rightarrow> nat set" where
  "doms tg root n = {d. dominates tg root d n}"

text \<open>What the immediate dominators are: none for the root, else the closest strict dominator.\<close>

definition idom_ok :: "(nat \<Rightarrow> nat list) \<Rightarrow> nat \<Rightarrow> (nat \<Rightarrow> nat option) \<Rightarrow> bool" where
  "idom_ok tg root idom \<longleftrightarrow> (\<forall>n \<in> reachable tg root. case idom n of
     None \<Rightarrow> n = root
   | Some d \<Rightarrow> n \<noteq> root \<and> d \<noteq> n \<and> dominates tg root d n \<and>
       (\<forall>e. dominates tg root e n \<and> e \<noteq> n \<longrightarrow> dominates tg root e d))"

lemma avoiding_edges: "avoiding tg d \<subseteq> edges tg"
  by (auto simp: avoiding_def edges_def)

lemma avoiding_not_target: "(root, d) \<in> (avoiding tg d)\<^sup>* \<Longrightarrow> d = root"
  by (erule rtranclE) (auto simp: avoiding_def)

lemma dominates_refl: "dominates tg root n n"
  using avoiding_not_target by (auto simp: dominates_def)

lemma dominates_root: "dominates tg root d root \<longleftrightarrow> d = root"
  by (auto simp: dominates_def)

text \<open>A path along some edges passes every dominator of its end.\<close>

lemma dominator_on_path:
  assumes "(root, n) \<in> R\<^sup>*" and "R \<subseteq> edges tg" and "dominates tg root d n"
  shows "(root, d) \<in> R\<^sup>* \<and> (d, n) \<in> R\<^sup>*"
proof -
  have "(root, n) \<in> (avoiding tg d)\<^sup>* \<or> (root, d) \<in> R\<^sup>* \<and> (d, n) \<in> R\<^sup>*"
    using assms(1)
  proof (induction rule: rtrancl_induct)
    case base
    then show ?case by simp
  next
    case (step y z)
    show ?case
    proof (cases "z = d")
      case True
      then show ?thesis using step(1,2) by (auto intro: rtrancl_into_rtrancl)
    next
      case False
      then have "(y, z) \<in> avoiding tg d" using step(2) assms(2) by (auto simp: avoiding_def edges_def)
      then show ?thesis using step by (auto intro: rtrancl_into_rtrancl)
    qed
  qed
  then show ?thesis using assms(1,3) by (auto simp: dominates_def)
qed

lemma dominates_reachable:
  assumes "dominates tg root d n" and "n \<in> reachable tg root"
  shows "d \<in> reachable tg root" "n \<in> reachable tg d"
  using dominator_on_path [OF _ order_refl assms(1)] assms(2) by (simp_all add: reachable_def)

lemma dominates_trans:
  assumes "dominates tg root a b" and "dominates tg root b c"
  shows "dominates tg root a c"
proof (cases "a = root")
  case False
  have "(root, c) \<notin> (avoiding tg a)\<^sup>*"
  proof
    assume "(root, c) \<in> (avoiding tg a)\<^sup>*"
    from dominator_on_path [OF this avoiding_edges assms(2)]
    show False using assms(1) False by (simp add: dominates_def)
  qed
  then show ?thesis by (simp add: dominates_def)
qed (simp add: dominates_def)

lemma dominates_antisym:
  assumes "dominates tg root a b" and "dominates tg root b a" and "b \<in> reachable tg root"
  shows "a = b"
proof (rule ccontr)
  assume "a \<noteq> b"
  have "a \<noteq> root" "b \<noteq> root" using \<open>a \<noteq> b\<close> assms(1,2) dominates_root by metis+
  have "(root, x) \<in> (avoiding tg a \<inter> avoiding tg b)\<^sup>* \<or> (root, a) \<in> (avoiding tg b)\<^sup>* \<or> (root, b) \<in> (avoiding tg a)\<^sup>*"
    if "(root, x) \<in> (edges tg)\<^sup>*" for x
    using that
  proof (induction rule: rtrancl_induct)
    case base
    then show ?case by simp
  next
    case (step y z)
    then consider (first) "(root, y) \<in> (avoiding tg a \<inter> avoiding tg b)\<^sup>*" | (rest) "(root, a) \<in> (avoiding tg b)\<^sup>* \<or> (root, b) \<in> (avoiding tg a)\<^sup>*"
      by blast
    then show ?case
    proof cases
      case first
      have sub: "(root, y) \<in> (avoiding tg a)\<^sup>*" "(root, y) \<in> (avoiding tg b)\<^sup>*"
        using first by (blast intro: rtrancl_mono [THEN subsetD])+
      have z: "z \<in> set (tg y)" using step(2) by (simp add: edges_def)
      consider "z = a" | "z = b" | "z \<noteq> a \<and> z \<noteq> b" by blast
      then show ?thesis
      proof cases
        case 1
        then have "(y, z) \<in> avoiding tg b" using z \<open>a \<noteq> b\<close> by (simp add: avoiding_def)
        then show ?thesis using sub(2) 1 by (auto intro: rtrancl_into_rtrancl)
      next
        case 2
        then have "(y, z) \<in> avoiding tg a" using z \<open>a \<noteq> b\<close> by (simp add: avoiding_def)
        then show ?thesis using sub(1) 2 by (auto intro: rtrancl_into_rtrancl)
      next
        case 3
        then have "(y, z) \<in> avoiding tg a \<inter> avoiding tg b" using z by (simp add: avoiding_def)
        with first show ?thesis by (auto intro: rtrancl_into_rtrancl)
      qed
    qed blast
  qed
  then have "(root, b) \<in> (avoiding tg a \<inter> avoiding tg b)\<^sup>* \<or> (root, a) \<in> (avoiding tg b)\<^sup>* \<or> (root, b) \<in> (avoiding tg a)\<^sup>*"
    using assms(3) by (simp add: reachable_def)
  moreover have "(avoiding tg a \<inter> avoiding tg b)\<^sup>* \<subseteq> (avoiding tg a)\<^sup>*" by (intro rtrancl_mono) simp
  ultimately have "(root, a) \<in> (avoiding tg b)\<^sup>* \<or> (root, b) \<in> (avoiding tg a)\<^sup>*" by blast
  then show False using assms(1,2) \<open>a \<noteq> root\<close> \<open>b \<noteq> root\<close> by (auto simp: dominates_def)
qed

lemma reachable_bound:
  assumes "closed_graph N tg" and "root < N"
  shows "reachable tg root \<subseteq> {..<N}"
  using assms by (intro reachable_closed_subset) (auto simp: closed_graph_def)

section \<open>The walk decides dominance\<close>

lemma isDominatedBy_dominates:
  assumes "closed_graph N tg" and "root < N" and "idom_ok tg root idom" and "n \<in> reachable tg root"
  shows "isDominatedBy idom n b = Some (dominates tg root b n)"
  using assms(4)
proof (induction "card (doms tg root n)" arbitrary: n rule: less_induct)
  case less
  have i: "case idom n of None \<Rightarrow> n = root
   | Some d \<Rightarrow> n \<noteq> root \<and> d \<noteq> n \<and> dominates tg root d n \<and> (\<forall>e. dominates tg root e n \<and> e \<noteq> n \<longrightarrow> dominates tg root e d)"
    using assms(3) less(2) by (simp add: idom_ok_def)
  show ?case
  proof (cases "idom n")
    case None
    then have n: "n = root" using i by simp
    show ?thesis using None dominates_root unfolding n by (subst isDominatedBy_step) auto
  next
    case (Some d)
    then have d: "d \<noteq> n" "dominates tg root d n" "\<forall>e. dominates tg root e n \<and> e \<noteq> n \<longrightarrow> dominates tg root e d"
      using i by auto
    have r: "d \<in> reachable tg root" using dominates_reachable(1) [OF d(2) less(2)] .
    have "doms tg root n \<subseteq> {..<N}"
      using dominates_reachable(1) [OF _ less(2)] reachable_bound [OF assms(1,2)] by (auto simp: doms_def)
    then have "finite (doms tg root n)" by (rule finite_subset) simp
    moreover have "doms tg root d \<subset> doms tg root n"
    proof
      show "doms tg root d \<subseteq> doms tg root n" using dominates_trans [OF _ d(2)] by (auto simp: doms_def)
      have "n \<notin> doms tg root d" using d(1) dominates_antisym [OF d(2) _ less(2)] by (auto simp: doms_def)
      then show "doms tg root d \<noteq> doms tg root n" using dominates_refl by (auto simp: doms_def)
    qed
    ultimately have "card (doms tg root d) < card (doms tg root n)" by (rule psubset_card_mono)
    from less(1) [OF this r]
    have "isDominatedBy idom d b = Some (dominates tg root b d)" .
    moreover have "dominates tg root b n \<longleftrightarrow> n = b \<or> dominates tg root b d"
      using d(2,3) dominates_refl dominates_trans by metis
    ultimately show ?thesis using Some by (subst isDominatedBy_step) simp
  qed
qed

section \<open>Properties\<close>

lemma dominatesI:
  assumes "root \<in> A" and "\<And>u v. u \<in> A \<Longrightarrow> v \<in> set (tg u) \<Longrightarrow> v \<noteq> d \<Longrightarrow> v \<in> A" and "n \<notin> A"
  shows "dominates tg root d n"
proof -
  have "x \<in> A" if "(root, x) \<in> (avoiding tg d)\<^sup>*" for x
    using that by (induction rule: rtrancl_induct) (use assms in \<open>auto simp: avoiding_def\<close>)
  then show ?thesis using assms(3) by (auto simp: dominates_def)
qed

text \<open>
  C24. When the blocks carry their immediate dominators, \<open>isDominatedBy\<close> ends on every reachable block
  and says whether every path from the root to it passes the other block.
\<close>

theorem isDominatedBy_decides:
  assumes "closed_graph N tg" and "root < N" and "idom_ok tg root idom" and "n \<in> reachable tg root"
  shows "isDominatedBy idom n b = Some (dominates tg root b n)"
  using assms by (rule isDominatedBy_dominates)

text \<open>A loop of blocks 1 and 2 entered from block 0.\<close>

definition chain_targets :: "nat \<Rightarrow> nat list" where
  "chain_targets n = (if n = 0 then [1] else if n = 1 then [2] else if n = 2 then [1] else [])"

definition chain_idom :: "nat \<Rightarrow> nat option" where
  "chain_idom n = (if n = 1 then Some 0 else if n = 2 then Some 1 else None)"

lemma chain_ok: "closed_graph 3 chain_targets" "reachable chain_targets 0 = {0, 1, 2}" "idom_ok chain_targets 0 chain_idom"
    "dominates chain_targets 0 1 2"
proof -
  show c: "closed_graph 3 chain_targets" by (auto simp: closed_graph_def chain_targets_def)
  have e: "(0, 1) \<in> edges chain_targets" "(1, 2) \<in> edges chain_targets" by (simp_all add: edges_def chain_targets_def)
  have "reachable chain_targets 0 \<subseteq> {0, 1, 2}"
    by (rule reachable_closed_subset) (auto simp: chain_targets_def)
  moreover have "{0, 1, 2} \<subseteq> reachable chain_targets 0"
    using e by (auto simp: reachable_def intro: rtrancl_trans r_into_rtrancl)
  ultimately show r: "reachable chain_targets 0 = {0, 1, 2}" ..
  show d: "dominates chain_targets 0 1 2"
    by (rule dominatesI [of _ "{0}"]) (auto simp: chain_targets_def)
  have e1: "dominates chain_targets 0 x 0" if "dominates chain_targets 0 x 1" "x \<noteq> 1" for x
  proof -
    have "x \<in> {0, 1, 2}" using dominates_reachable(1) [OF that(1)] r by simp
    moreover have "x \<noteq> 2"
      using dominates_antisym [OF d] that r by auto
    ultimately show ?thesis using that(2) by (simp add: dominates_def)
  qed
  have e2: "dominates chain_targets 0 x 1" if "dominates chain_targets 0 x 2" "x \<noteq> 2" for x
  proof -
    have "x \<in> {0, 1, 2}" using dominates_reachable(1) [OF that(1)] r by simp
    then show ?thesis using that(2) dominates_refl by (auto simp: dominates_def)
  qed
  show "idom_ok chain_targets 0 chain_idom"
    using d e1 e2 by (simp add: idom_ok_def r chain_idom_def) (simp add: dominates_def)
qed

theorem isDominatedBy_decides_witness: "isDominatedBy chain_idom 2 1 = Some True"
  using isDominatedBy_decides [OF chain_ok(1) _ chain_ok(3), of 2 1] chain_ok(2,4) by simp

end
