(* ===== verification/Cfg_Loops.thy ===== *)
theory Cfg_Loops
  imports Cfg_Graph Cfg_Dominators
begin

text \<open>
  Natural loops: \<open>FlowGraph::buildLoops\<close> and the loop queries of \<open>src/FlowGraph.C\<close>, and the class
  \<open>Loop\<close> of \<open>src/Loop.C\<close>. A flow graph is the list of its blocks, a loop refers to its head and tail by
  index. \<open>qsort\<close> is the parameter \<open>sortf\<close>, which gets the comparison function.
\<close>

section \<open>Loops\<close>

record Loop =
  lp_index :: u32
  lp_head :: nat
  lp_tail :: nat
  lp_blocks :: BitSet
  lp_depth :: u32

definition Invalid_UInteger_ID :: u32 where
  "Invalid_UInteger_ID = - 1"

definition newBitSet :: "BasicBlock list \<Rightarrow> BitSet" where
  "newBitSet bs = new_BitSet (length bs)"

text \<open>The constructor copies the blocks of the set it is given.\<close>

definition Loop_new :: "nat \<Rightarrow> nat \<Rightarrow> BasicBlock list \<Rightarrow> BitSet \<Rightarrow> Loop" where
  "Loop_new h t bs newBlocks = \<lparr> lp_index = Invalid_UInteger_ID, lp_head = h, lp_tail = t,
     lp_blocks = fold (\<lambda>i b. if bs_contains newBlocks i then bs_insert i b else b) [0..<length bs] (bs_clear (newBitSet bs)),
     lp_depth = 0 \<rparr>"

definition getNumberOfBlocks :: "Loop \<Rightarrow> u32" where
  "getNumberOfBlocks lp = bs_size (lp_blocks lp)"

definition isBlockIn :: "Loop \<Rightarrow> nat \<Rightarrow> bool" where
  "isBlockIn lp idx = bs_contains (lp_blocks lp) idx"

text \<open>\<open>Loop::getAllBlocks\<close> fills an array with the blocks of the loop.\<close>

definition getAllBlocks :: "BasicBlock list \<Rightarrow> Loop \<Rightarrow> nat list" where
  "getAllBlocks bs lp = filter (isBlockIn lp) [0..<length bs]"

definition hasSharedHeader :: "BasicBlock list \<Rightarrow> Loop \<Rightarrow> Loop \<Rightarrow> bool" where
  "hasSharedHeader bs a b \<longleftrightarrow> bb_baseAddress (bs ! lp_head a) = bb_baseAddress (bs ! lp_head b)"

definition isInnerLoopOf :: "BasicBlock list \<Rightarrow> Loop \<Rightarrow> Loop \<Rightarrow> bool" where
  "isInnerLoopOf bs a b = (if getNumberOfBlocks a > getNumberOfBlocks b then False
     else \<not> (\<exists>i \<in> set [0..<length bs]. isBlockIn a i \<and> \<not> isBlockIn b i))"

text \<open>The functions of the two loops are compared by their base addresses.\<close>

definition isIdenticalLoop :: "BasicBlock list \<Rightarrow> u64 \<Rightarrow> u64 \<Rightarrow> Loop \<Rightarrow> Loop \<Rightarrow> bool" where
  "isIdenticalLoop bs fa fb a b = (if getNumberOfBlocks a \<noteq> getNumberOfBlocks b then False
     else if fa \<noteq> fb then False
     else \<not> (\<exists>i \<in> set [0..<length bs]. isBlockIn a i \<noteq> isBlockIn b i))"

definition compareLoopEntry :: "BasicBlock list \<Rightarrow> Loop \<Rightarrow> Loop \<Rightarrow> int" where
  "compareLoopEntry bs a b = (
     let h1 = bs ! lp_head a; h2 = bs ! lp_head b; vl1 = bb_baseAddress h1; vl2 = bb_baseAddress h2 in
     if vl1 < vl2 then - 1 else if vl1 > vl2 then 1
     else if bb_numberOfBytes h1 < bb_numberOfBytes h2 then - 1
     else if bb_numberOfBytes h1 > bb_numberOfBytes h2 then 1 else 0)"

section \<open>Finding the loops\<close>

definition sourcesOf :: "BasicBlock list \<Rightarrow> nat \<Rightarrow> nat list" where
  "sourcesOf bs n = (if n < length bs then bb_sourceBlocks (bs ! n) else [])"

definition idomOf :: "BasicBlock list \<Rightarrow> nat \<Rightarrow> nat option" where
  "idomOf bs n = (if n < length bs then bb_immDominatedBy (bs ! n) else None)"

text \<open>The blocks of the loop with back edge \<open>from\<close> to \<open>to\<close>: the stack of blocks whose sources are still to be
  looked at, as a list.\<close>

definition natural_step :: "(nat \<Rightarrow> nat list) \<Rightarrow> BitSet \<times> nat list \<Rightarrow> BitSet \<times> nat list" where
  "natural_step sources = (\<lambda>(inLoop, loopStack).
     fold (\<lambda>pred (inLoop, loopStack). if bs_contains inLoop pred then (inLoop, loopStack)
             else (bs_insert pred inLoop, pred # loopStack))
       (sources (hd loopStack)) (inLoop, tl loopStack))"

definition natural_loop :: "(nat \<Rightarrow> nat list) \<Rightarrow> nat \<Rightarrow> nat \<Rightarrow> BitSet \<Rightarrow> BitSet option" where
  "natural_loop sources from to inLoop = (
     let inLoop = bs_insert to (bs_clear inLoop) in
     map_option fst (while_option (\<lambda>(inLoop, loopStack). loopStack \<noteq> []) (natural_step sources)
       (if bs_contains inLoop from then (inLoop, []) else (bs_insert from inLoop, [from]))))"

text \<open>The loop over the back edges: the edges found to close a loop, those excluded, and the loops, last first.\<close>

fun find_loops :: "BasicBlock list \<Rightarrow> nat list \<Rightarrow> BitSet \<Rightarrow> nat \<Rightarrow> nat \<Rightarrow> Loop list \<Rightarrow> (nat \<times> nat \<times> Loop list) res" where
  "find_loops bs [] inLoop n excluded loopList = Inr (n, excluded, loopList)"
| "find_loops bs [from] inLoop n excluded loopList = Inl AssertFailed"
| "find_loops bs (from # to # rest) inLoop n excluded loopList =
     (case isDominatedBy (idomOf bs) from to of
        None \<Rightarrow> Inl Diverges
      | Some False \<Rightarrow> find_loops bs rest inLoop n excluded loopList
      | Some True \<Rightarrow>
         (case natural_loop (sourcesOf bs) from to inLoop of
            None \<Rightarrow> Inl Diverges
          | Some inLoop \<Rightarrow>
              if bb_endsWithCall (bs ! from)
              then find_loops bs rest inLoop (n + 1) (excluded + 1) loopList
              else find_loops bs rest inLoop (n + 1) excluded (Loop_new to from bs inLoop # loopList)))"

definition set_indices :: "Loop list \<Rightarrow> Loop list" where
  "set_indices ls = map (\<lambda>(i, lp). lp \<lparr> lp_index := of_nat i \<rparr>) (enumerate 0 ls)"

definition buildLoops :: "((Loop \<Rightarrow> Loop \<Rightarrow> int) \<Rightarrow> Loop list \<Rightarrow> Loop list) \<Rightarrow> BasicBlock list \<Rightarrow> Loop list \<Rightarrow> Loop list res" where
  "buildLoops sortf bs loops = ASSERT (loops = []) (
     if bs = [] then Inl OutOfBounds else
     case depthFirstSearch (length bs) (targetsOf bs) True 0 (dfs_start_back (length bs)) of
       None \<Rightarrow> Inl Diverges
     | Some s \<Rightarrow> (
         let be = the (backEdges s) in
         if be = [] then Inr [] else
         ASSERT (even (length be)) (
         rbind (find_loops bs be (newBitSet bs) 0 0 []) (\<lambda>(numberOfLoops, excluded, loopList).
           ASSERT (length loopList = numberOfLoops - excluded) (
           let loops = (if numberOfLoops \<noteq> 0 then set_indices (sortf (compareLoopEntry bs) loopList) else []) in
           ASSERT (length loops = numberOfLoops - excluded) (Inr loops))))))"

section \<open>Queries\<close>

text \<open>A loop of the graph is its position in the list.\<close>

definition isBlockInLoop :: "Loop list \<Rightarrow> nat \<Rightarrow> bool" where
  "isBlockInLoop loops idx = list_ex (\<lambda>lp. isBlockIn lp idx) loops"

definition innermost_step :: "Loop list \<Rightarrow> nat \<Rightarrow> nat \<Rightarrow> nat option \<Rightarrow> nat option" where
  "innermost_step loops idx i lp = (if isBlockIn (loops ! i) idx then
     (case lp of Some k \<Rightarrow> if getNumberOfBlocks (loops ! i) < getNumberOfBlocks (loops ! k) then Some i else lp
      | None \<Rightarrow> Some i) else lp)"

definition getInnermostLoopForBlock :: "Loop list \<Rightarrow> nat \<Rightarrow> nat option" where
  "getInnermostLoopForBlock loops idx = fold (innermost_step loops idx) [0..<length loops] None"

definition getOuterLoop :: "BasicBlock list \<Rightarrow> Loop list \<Rightarrow> nat \<Rightarrow> nat" where
  "getOuterLoop bs loops idx = (case find (\<lambda>i. isInnerLoopOf bs (loops ! idx) (loops ! i)) [0..<length loops] of
     Some i \<Rightarrow> i | None \<Rightarrow> idx)"

definition getOuterMostLoopForLoop :: "BasicBlock list \<Rightarrow> Loop list \<Rightarrow> nat \<Rightarrow> nat option" where
  "getOuterMostLoopForLoop bs loops idx = while_option (\<lambda>k. k \<noteq> getOuterLoop bs loops k) (getOuterLoop bs loops) idx"

text \<open>The depth is cached in the loop: 0 is not computed yet.\<close>

definition getLoopDepth_loop :: "BasicBlock list \<Rightarrow> Loop list \<Rightarrow> nat \<Rightarrow> u32 \<times> Loop list" where
  "getLoopDepth_loop bs loops k = (if lp_depth (loops ! k) \<noteq> 0 then (lp_depth (loops ! k), loops) else
     let depth = fold (\<lambda>i d. if lp_index (loops ! k) \<noteq> of_nat i
                   then (if isInnerLoopOf bs (loops ! k) (loops ! i) then d + 1 else d) else d) [0..<length loops] 1
     in (depth, loops[k := (loops ! k) \<lparr> lp_depth := depth \<rparr>]))"

definition getLoopDepth :: "BasicBlock list \<Rightarrow> Loop list \<Rightarrow> nat \<Rightarrow> u32 \<times> Loop list" where
  "getLoopDepth bs loops idx = (case getInnermostLoopForBlock loops idx of
     None \<Rightarrow> (0, loops) | Some k \<Rightarrow> getLoopDepth_loop bs loops k)"

text \<open>\<open>getParentLoop\<close> takes the first loop around the given one whose head is one level less deep.\<close>

fun parent_search :: "BasicBlock list \<Rightarrow> Loop list \<Rightarrow> nat \<Rightarrow> nat list \<Rightarrow> nat \<times> Loop list" where
  "parent_search bs loops idx [] = (idx, loops)"
| "parent_search bs loops idx (i # is) = (if isInnerLoopOf bs (loops ! idx) (loops ! i) then
     (case getLoopDepth bs loops (lp_head (loops ! idx)) of (d1, loops) \<Rightarrow>
      case getLoopDepth bs loops (lp_head (loops ! i)) of (d2, loops) \<Rightarrow>
        if d1 = d2 + 1 then (i, loops) else parent_search bs loops idx is)
     else parent_search bs loops idx is)"

definition getParentLoop :: "BasicBlock list \<Rightarrow> Loop list \<Rightarrow> nat \<Rightarrow> nat \<times> Loop list" where
  "getParentLoop bs loops idx = parent_search bs loops idx [0..<length loops]"

section \<open>Loops as sets of blocks\<close>

definition blocks_of :: "Loop \<Rightarrow> nat set" where
  "blocks_of lp = members (lp_blocks lp)"

definition loop_ok :: "nat \<Rightarrow> Loop \<Rightarrow> bool" where
  "loop_ok N lp \<longleftrightarrow> bs_ok (lp_blocks lp) \<and> maximum (lp_blocks lp) = N"

text \<open>The natural loop of a back edge: its head, and what reaches the tail without passing through the head.\<close>

definition natural :: "(nat \<Rightarrow> nat list) \<Rightarrow> nat \<Rightarrow> nat \<Rightarrow> nat set" where
  "natural tg h t = insert h {n. (n, t) \<in> (avoiding tg h)\<^sup>*}"

definition mirrored :: "BasicBlock list \<Rightarrow> bool" where
  "mirrored bs \<longleftrightarrow> closed_graph (length bs) (targetsOf bs) \<and>
     (\<forall>u v. u \<in> set (sourcesOf bs v) \<longleftrightarrow> v \<in> set (targetsOf bs u))"

lemma blocks_bound: "loop_ok N lp \<Longrightarrow> blocks_of lp \<subseteq> {..<N}"
  using bs.abs_cap [of "lp_blocks lp"] by (simp add: loop_ok_def blocks_of_def)

lemma finite_blocks [simp]: "finite (blocks_of lp)"
  by (simp add: blocks_of_def)

lemma isBlockIn_iff [simp]: "isBlockIn lp i \<longleftrightarrow> i \<in> blocks_of lp"
  by (simp add: isBlockIn_def blocks_of_def bs.abs_has)

lemma getNumberOfBlocks_card: "loop_ok N lp \<Longrightarrow> unat (getNumberOfBlocks lp) = card (blocks_of lp)"
  by (simp add: loop_ok_def getNumberOfBlocks_def bs_size_card blocks_of_def)

lemma isInnerLoopOf_subset:
  assumes "loop_ok (length bs) a" and "loop_ok (length bs) b"
  shows "isInnerLoopOf bs a b \<longleftrightarrow> blocks_of a \<subseteq> blocks_of b"
proof -
  have c: "getNumberOfBlocks a > getNumberOfBlocks b \<longleftrightarrow> card (blocks_of a) > card (blocks_of b)"
    using assms by (simp add: word_less_nat_alt getNumberOfBlocks_card)
  have e: "(\<exists>i \<in> set [0..<length bs]. isBlockIn a i \<and> \<not> isBlockIn b i) \<longleftrightarrow> \<not> blocks_of a \<subseteq> blocks_of b"
    using blocks_bound [OF assms(1)] by auto
  have "blocks_of a \<subseteq> blocks_of b \<Longrightarrow> \<not> card (blocks_of a) > card (blocks_of b)" by (simp add: card_mono not_less)
  then show ?thesis unfolding isInnerLoopOf_def c e by auto
qed

lemma isIdenticalLoop_eq:
  assumes "loop_ok (length bs) a" and "loop_ok (length bs) b"
  shows "isIdenticalLoop bs fa fb a b \<longleftrightarrow> fa = fb \<and> blocks_of a = blocks_of b"
proof -
  have c: "getNumberOfBlocks a = getNumberOfBlocks b \<longleftrightarrow> card (blocks_of a) = card (blocks_of b)"
    using assms by (simp add: word_unat_eq_iff getNumberOfBlocks_card)
  have e: "(\<exists>i \<in> set [0..<length bs]. isBlockIn a i \<noteq> isBlockIn b i) \<longleftrightarrow> blocks_of a \<noteq> blocks_of b"
    using blocks_bound [OF assms(1)] blocks_bound [OF assms(2)] by auto
  show ?thesis unfolding isIdenticalLoop_def c e by auto
qed

lemma Loop_new_ok:
  assumes "length bs < 2 ^ 32" and "members b \<subseteq> {..<length bs}"
  shows "loop_ok (length bs) (Loop_new h t bs b)" "blocks_of (Loop_new h t bs b) = members b"
    "lp_head (Loop_new h t bs b) = h" "lp_tail (Loop_new h t bs b) = t" "lp_depth (Loop_new h t bs b) = 0"
proof -
  have n: "bs_ok (newBitSet bs)" "maximum (newBitSet bs) = length bs"
    using assms(1) by (simp_all add: newBitSet_def new_ok)
  then have c: "bs_ok (bs_clear (newBitSet bs))" "maximum (bs_clear (newBitSet bs)) = length bs"
    "members (bs_clear (newBitSet bs)) = {}" by (simp_all add: bs.ok_clr bs.cap_clr bs.abs_clr)
  then have "set [0..<length bs] \<subseteq> {..<maximum (bs_clear (newBitSet bs))}" by auto
  from bs.fold_ins [OF c(1) this, of "bs_contains b"] c assms(2)
  show "loop_ok (length bs) (Loop_new h t bs b)" "blocks_of (Loop_new h t bs b) = members b"
    by (auto simp: loop_ok_def blocks_of_def Loop_new_def bs.abs_has)
qed (simp_all add: Loop_new_def)

lemma natural_loop_ok:
  assumes "mirrored bs" and "bs_ok b" "maximum b = length bs" and "from < length bs" "to < length bs"
  shows "\<exists>b'. natural_loop (sourcesOf bs) from to b = Some b' \<and> bs_ok b' \<and> maximum b' = length bs \<and>
    members b' = natural (targetsOf bs) to from"
proof -
  let ?s = "bs_insert to (bs_clear b)"
  have s: "bs_ok ?s" "maximum ?s = length bs" "members ?s = {to}"
    using assms(2,3,5) by (simp_all add: bs.ok_clr bs.ok_ins bs.cap_ins bs.cap_clr bs.abs_ins bs.abs_clr)
  have src: "set (sourcesOf bs n) \<subseteq> {..<maximum ?s}" for n
  proof
    fix u
    assume "u \<in> set (sourcesOf bs n)"
    then have "n \<in> set (targetsOf bs u)" using assms(1) by (simp add: mirrored_def)
    then have "u < length bs" by (cases "u < length bs") (simp_all add: targetsOf_def)
    then show "u \<in> {..<maximum ?s}" using s(2) by simp
  qed
  have E: "{(u, v). u \<in> set (sourcesOf bs v) \<and> v \<noteq> to} = avoiding (targetsOf bs) to"
    using assms(1) by (auto simp: mirrored_def avoiding_def)
  have lt: "to < maximum ?s" "from < maximum ?s" by (simp_all only: s(2) assms(4,5))
  from bs.worklist [where srcs = "sourcesOf bs", OF s(1) lt src s(3), unfolded E]
  show ?thesis unfolding natural_loop_def natural_step_def natural_def Let_def s(2) by auto
qed

text \<open>Head, tail and blocks of a loop, and of the loops of a list of back edges.\<close>

definition loop_key :: "Loop \<Rightarrow> nat \<times> nat \<times> nat set" where
  "loop_key lp = (lp_head lp, lp_tail lp, blocks_of lp)"

definition is_loop_edge :: "BasicBlock list \<Rightarrow> nat \<Rightarrow> nat \<Rightarrow> bool" where
  "is_loop_edge bs t h \<longleftrightarrow> dominates (targetsOf bs) 0 h t \<and> \<not> bb_endsWithCall (bs ! t)"

definition keys_of :: "BasicBlock list \<Rightarrow> (nat \<times> nat) set \<Rightarrow> (nat \<times> nat \<times> nat set) set" where
  "keys_of bs E = (\<lambda>(t, h). (h, t, natural (targetsOf bs) h t)) ` {(t, h) \<in> E. is_loop_edge bs t h}"

lemma keys_of_insert:
  "keys_of bs (insert (t, h) E) = (if is_loop_edge bs t h then {(h, t, natural (targetsOf bs) h t)} else {}) \<union> keys_of bs E"
  unfolding keys_of_def by (cases "is_loop_edge bs t h") (auto simp: image_iff)

lemma keys_of_empty: "keys_of bs {} = {}"
  by (simp add: keys_of_def)

text \<open>Every recorded back edge that a dominator closes gives a loop, unless its tail ends with a call.\<close>

lemma find_loops_ok:
  assumes "mirrored bs" and "0 < length bs" and "length bs < 2 ^ 32" and "idom_ok (targetsOf bs) 0 (idomOf bs)"
    and "even (length be)" and "set be \<subseteq> reachable (targetsOf bs) 0" and "bs_ok b" "maximum b = length bs"
    and "\<forall>lp \<in> set acc. loop_ok (length bs) lp" and "n = length acc + ex"
  shows "\<exists>n' ex' ls. find_loops bs be b n ex acc = Inr (n', ex', ls) \<and> n' = length ls + ex' \<and>
    (\<forall>lp \<in> set ls. loop_ok (length bs) lp) \<and>
    loop_key ` set ls = loop_key ` set acc \<union> keys_of bs (set (be_pairs be))"
  using assms(5-10)
proof (induction be arbitrary: b n ex acc rule: be_pairs.induct)
  case (1 u v rest)
  let ?tg = "targetsOf bs"
  have N: "u < length bs" "v < length bs"
    using 1(3) assms(1,2) reachable_bound [of "length bs" ?tg 0] by (auto simp: mirrored_def)
  have d: "isDominatedBy (idomOf bs) u v = Some (dominates ?tg 0 v u)"
    using 1(3) assms(1,2,4) by (intro isDominatedBy_dominates [of "length bs"]) (auto simp: mirrored_def)
  have rest: "even (length rest)" "set rest \<subseteq> reachable ?tg 0" using 1(2,3) by auto
  show ?case
  proof (cases "dominates ?tg 0 v u")
    case False
    then have "\<not> is_loop_edge bs u v" by (simp add: is_loop_edge_def)
    then show ?thesis using 1(1) [OF rest 1(4-7)] d False by (simp add: keys_of_insert)
  next
    case True
    obtain b' where b': "natural_loop (sourcesOf bs) u v b = Some b'" "bs_ok b'" "maximum b' = length bs"
      "members b' = natural ?tg v u"
      using natural_loop_ok [OF assms(1) 1(4,5) N] by blast
    have "members b' \<subseteq> {..<length bs}" using bs.abs_cap [of b'] b'(3) by simp
    note new = Loop_new_ok [OF assms(3) this, of v u, unfolded b'(4)]
    show ?thesis
    proof (cases "bb_endsWithCall (bs ! u)")
      case call: True
      have "n + 1 = length acc + (ex + 1)" using 1(7) by simp
      from 1(1) [OF rest b'(2,3) 1(6) this]
      show ?thesis using d True b'(1) call by (simp add: keys_of_insert is_loop_edge_def)
    next
      case call: False
      let ?acc = "Loop_new v u bs b' # acc"
      have a: "\<forall>lp \<in> set ?acc. loop_ok (length bs) lp" "n + 1 = length ?acc + ex" using 1(6,7) new(1) by simp_all
      have "loop_key (Loop_new v u bs b') = (v, u, natural ?tg v u)" by (simp add: loop_key_def new)
      then have k: "loop_key ` set ?acc \<union> keys_of bs (set (be_pairs rest)) =
          loop_key ` set acc \<union> keys_of bs (set (be_pairs (u # v # rest)))"
        using True call by (simp add: keys_of_insert is_loop_edge_def)
      have "find_loops bs (u # v # rest) b n ex acc = find_loops bs rest b' (n + 1) ex ?acc"
        using d True b'(1) call by simp
      then show ?thesis using 1(1) [OF rest b'(2,3) a] unfolding k by simp
    qed
  qed
qed (simp_all add: keys_of_empty)

text \<open>The edges into a dominator of their source are all recorded.\<close>

definition loop_edges :: "BasicBlock list \<Rightarrow> (nat \<times> nat) set" where
  "loop_edges bs = {(t, h). t \<in> reachable (targetsOf bs) 0 \<and> h \<in> set (targetsOf bs t) \<and> is_loop_edge bs t h}"

lemma dominator_edge_closes_cycle:
  assumes "(root, u) \<in> F\<^sup>*" and F: "F \<subseteq> {(u, v). v \<in> set (tg u) \<and> (u, v) \<notin> B}"
    and "acyclic {(u, v). u \<in> reachable tg root \<and> v \<in> set (tg u) \<and> (u, v) \<notin> B}"
    and "dominates tg root v u" and "u \<in> reachable tg root" and "v \<in> set (tg u)"
  shows "(u, v) \<in> B"
proof (rule ccontr)
  assume "(u, v) \<notin> B"
  let ?A = "{(u, v). u \<in> reachable tg root \<and> v \<in> set (tg u) \<and> (u, v) \<notin> B}"
  have "F \<subseteq> edges tg" using F by (auto simp: edges_def)
  from dominator_on_path [OF assms(1) this assms(4)] have vu: "(v, u) \<in> F\<^sup>*" by simp
  have v: "v \<in> reachable tg root" using dominates_reachable(1) [OF assms(4,5)] .
  from vu have "(v, u) \<in> ?A\<^sup>* \<and> u \<in> reachable tg root"
  proof (induction rule: rtrancl_induct)
    case base
    then show ?case using v by simp
  next
    case (step y z)
    then have "(y, z) \<in> ?A" using F by auto
    moreover have "z \<in> reachable tg root"
      using step F unfolding reachable_def edges_def by (auto intro: rtrancl_into_rtrancl)
    ultimately show ?case using step.IH by (auto intro: rtrancl_into_rtrancl)
  qed
  moreover have "(u, v) \<in> ?A" using assms(5,6) \<open>(u, v) \<notin> B\<close> by simp
  ultimately have "(u, u) \<in> ?A\<^sup>+" by (meson rtrancl_into_trancl2)
  then show False using assms(3) by (simp add: acyclic_def)
qed

lemma keys_of_search:
  assumes "mirrored bs" and "0 < length bs" and "length bs < 2 ^ 32"
  shows "\<exists>s be. depthFirstSearch (length bs) (targetsOf bs) True 0 (dfs_start_back (length bs)) = Some s \<and>
    backEdges s = Some be \<and> even (length be) \<and> set be \<subseteq> reachable (targetsOf bs) 0 \<and>
    keys_of bs (set (be_pairs be)) = keys_of bs (loop_edges bs)"
proof -
  let ?tg = "targetsOf bs"
  have "closed_graph (length bs) ?tg" using assms(1) by (simp add: mirrored_def)
  from search_back_edges [OF this assms(3,2)]
  obtain s be where s: "depthFirstSearch (length bs) ?tg True 0 (dfs_start_back (length bs)) = Some s"
    and be: "backEdges s = Some be" "even (length be)" "set be \<subseteq> reachable ?tg 0"
    and B: "\<forall>(u, v) \<in> back_pairs s. v \<in> set (?tg u) \<and> (v, u) \<in> (edges ?tg)\<^sup>*"
    and A: "acyclic {(u, v). u \<in> reachable ?tg 0 \<and> v \<in> set (?tg u) \<and> (u, v) \<notin> back_pairs s}"
    and F: "\<forall>n \<in> reachable ?tg 0. (0, n) \<in> (followed ?tg True s)\<^sup>*" by blast
  have bp: "back_pairs s = set (be_pairs be)" using be(1) by (simp add: back_pairs_def)
  have "(t, h) \<in> back_pairs s \<and> is_loop_edge bs t h \<longleftrightarrow> (t, h) \<in> loop_edges bs" for t h
  proof
    assume "(t, h) \<in> back_pairs s \<and> is_loop_edge bs t h"
    then show "(t, h) \<in> loop_edges bs"
      using B be(3) be_pairs_set [of t h be] unfolding bp loop_edges_def by auto
  next
    assume "(t, h) \<in> loop_edges bs"
    then have l: "t \<in> reachable ?tg 0" "h \<in> set (?tg t)" "is_loop_edge bs t h" by (simp_all add: loop_edges_def)
    have "followed ?tg True s \<subseteq> {(u, v). v \<in> set (?tg u) \<and> (u, v) \<notin> back_pairs s}" by (auto simp: followed_def)
    from dominator_edge_closes_cycle [OF bspec [OF F l(1)] this A _ l(1,2)] l(3)
    show "(t, h) \<in> back_pairs s \<and> is_loop_edge bs t h" by (simp add: is_loop_edge_def)
  qed
  then have "{(t, h) \<in> back_pairs s. is_loop_edge bs t h} = {(t, h) \<in> loop_edges bs. is_loop_edge bs t h}"
    by (auto simp: loop_edges_def)
  then have "keys_of bs (set (be_pairs be)) = keys_of bs (loop_edges bs)" unfolding keys_of_def bp by simp
  then show ?thesis using s be by blast
qed

lemma set_indices_props:
  "length (set_indices ls) = length ls"
  "loop_key ` set (set_indices ls) = loop_key ` set ls"
  "i < length ls \<Longrightarrow> lp_index (set_indices ls ! i) = of_nat i"
  "(\<forall>lp \<in> set (set_indices ls). loop_ok N lp) \<longleftrightarrow> (\<forall>lp \<in> set ls. loop_ok N lp)"
proof -
  have k: "loop_key (lp \<lparr> lp_index := x \<rparr>) = loop_key lp" "loop_ok N (lp \<lparr> lp_index := x \<rparr>) = loop_ok N lp" for lp x
    by (simp_all add: loop_key_def blocks_of_def loop_ok_def)
  show l: "length (set_indices ls) = length ls" by (simp add: set_indices_def)
  show "i < length ls \<Longrightarrow> lp_index (set_indices ls ! i) = of_nat i"
    by (simp add: set_indices_def nth_enumerate_eq)
  have n: "set_indices ls ! i = (ls ! i) \<lparr> lp_index := of_nat i \<rparr>" if "i < length ls" for i
    using that by (simp add: set_indices_def nth_enumerate_eq)
  have "map loop_key (set_indices ls) = map loop_key ls" by (rule nth_equalityI) (simp_all add: l n k)
  then show "loop_key ` set (set_indices ls) = loop_key ` set ls" by (metis set_map)
  have "map (loop_ok N) (set_indices ls) = map (loop_ok N) ls" by (rule nth_equalityI) (simp_all add: l n k)
  then have "(\<forall>b \<in> set (map (loop_ok N) (set_indices ls)). b) \<longleftrightarrow> (\<forall>b \<in> set (map (loop_ok N) ls). b)" by simp
  then show "(\<forall>lp \<in> set (set_indices ls). loop_ok N lp) \<longleftrightarrow> (\<forall>lp \<in> set ls. loop_ok N lp)" by simp
qed

lemma buildLoops_ok:
  assumes sortf: "\<And>c xs. mset (sortf c xs) = mset xs" and "mirrored bs" and "0 < length bs" and "length bs < 2 ^ 32"
    and "idom_ok (targetsOf bs) 0 (idomOf bs)"
  shows "\<exists>ls. buildLoops sortf bs [] = Inr ls \<and> loop_key ` set ls = keys_of bs (loop_edges bs) \<and>
    (\<forall>i < length ls. lp_index (ls ! i) = of_nat i) \<and> (\<forall>lp \<in> set ls. loop_ok (length bs) lp)"
proof -
  obtain s be where s: "depthFirstSearch (length bs) (targetsOf bs) True 0 (dfs_start_back (length bs)) = Some s"
    and be: "backEdges s = Some be" "even (length be)" "set be \<subseteq> reachable (targetsOf bs) 0"
    and k: "keys_of bs (set (be_pairs be)) = keys_of bs (loop_edges bs)"
    using keys_of_search [OF assms(2-4)] by blast
  have n: "bs_ok (newBitSet bs)" "maximum (newBitSet bs) = length bs" using assms(4) by (simp_all add: newBitSet_def new_ok)
  from find_loops_ok [OF assms(2-5) be(2,3) n, of "[]" 0 0]
  obtain n' ex ls where f: "find_loops bs be (newBitSet bs) 0 0 [] = Inr (n', ex, ls)" "n' = length ls + ex"
    "\<forall>lp \<in> set ls. loop_ok (length bs) lp" "loop_key ` set ls = keys_of bs (loop_edges bs)"
    unfolding k by auto
  let ?ls = "set_indices (sortf (compareLoopEntry bs) ls)"
  have q: "set (sortf (compareLoopEntry bs) ls) = set ls" "length (sortf (compareLoopEntry bs) ls) = length ls"
    using sortf [of "compareLoopEntry bs" ls] by (metis set_mset_mset, metis size_mset)
  have bs: "bs \<noteq> []" using assms(3) by auto
  show ?thesis
  proof (cases "be = []")
    case True
    then have "ls = []" using f(1) by simp
    then show ?thesis using True s be(1) bs f(4) by (simp add: buildLoops_def)
  next
    case be': False
    show ?thesis
    proof (cases "n' = 0")
      case True
      then have "ls = []" using f(2) by simp
      then show ?thesis using True be' s be(1,2) bs f by (simp add: buildLoops_def)
    next
      case False
      have "buildLoops sortf bs [] = Inr ?ls"
        using False be' s be(1,2) bs f(1,2) by (simp add: buildLoops_def set_indices_props q)
      then show ?thesis using f(3,4) q by (auto simp: set_indices_props)
    qed
  qed
qed

section \<open>The queries on a list of loops\<close>

lemma upt_induct_prefix:
  assumes "P 0 z" and "\<And>i x. i < n \<Longrightarrow> P i x \<Longrightarrow> P (Suc i) (f i x)"
  shows "P n (fold f [0..<n] z)"
  using assms by (induction n) auto

lemma getInnermostLoopForBlock_prefix:
  fixes ls :: "Loop list" and idx :: nat
  defines "C \<equiv> {i. i < length ls \<and> idx \<in> blocks_of (ls ! i)}"
  shows "case getInnermostLoopForBlock ls idx of None \<Rightarrow> C = {}
    | Some k \<Rightarrow> k \<in> C \<and> (\<forall>i \<in> C. getNumberOfBlocks (ls ! k) \<le> getNumberOfBlocks (ls ! i) \<and>
        (i < k \<longrightarrow> getNumberOfBlocks (ls ! k) < getNumberOfBlocks (ls ! i)))"
proof -
  let ?P = "\<lambda>n lp. case lp of None \<Rightarrow> C \<inter> {..<n} = {}
    | Some k \<Rightarrow> k \<in> C \<and> k < n \<and> (\<forall>i \<in> C \<inter> {..<n}. getNumberOfBlocks (ls ! k) \<le> getNumberOfBlocks (ls ! i) \<and>
        (i < k \<longrightarrow> getNumberOfBlocks (ls ! k) < getNumberOfBlocks (ls ! i)))"
  have "?P (length ls) (fold (innermost_step ls idx) [0..<length ls] None)"
  proof (rule upt_induct_prefix)
    show "?P 0 None" by simp
  next
    fix i lp
    assume i: "i < length ls" and P: "?P i lp"
    have C: "i \<in> C \<longleftrightarrow> idx \<in> blocks_of (ls ! i)" using i by (simp add: C_def)
    have s: "C \<inter> {..<Suc i} = (if i \<in> C then insert i (C \<inter> {..<i}) else C \<inter> {..<i})" by (auto simp: less_Suc_eq)
    show "?P (Suc i) (innermost_step ls idx i lp)"
    proof (cases "i \<in> C")
      case False
      then show ?thesis using P C by (auto simp: innermost_step_def s split: option.splits)
    next
      case True
      show ?thesis
      proof (cases lp)
        case None
        then show ?thesis using P True C by (auto simp: innermost_step_def s)
      next
        case (Some k)
        then have k: "k \<in> C" "k < i" "\<forall>j \<in> C \<inter> {..<i}. getNumberOfBlocks (ls ! k) \<le> getNumberOfBlocks (ls ! j) \<and>
            (j < k \<longrightarrow> getNumberOfBlocks (ls ! k) < getNumberOfBlocks (ls ! j))" using P by simp_all
        show ?thesis
        proof (cases "getNumberOfBlocks (ls ! i) < getNumberOfBlocks (ls ! k)")
          case less: True
          then have "\<forall>j \<in> C \<inter> {..<i}. getNumberOfBlocks (ls ! i) < getNumberOfBlocks (ls ! j)"
            using k(3) by (meson less_le_trans)
          then show ?thesis using True C Some less by (auto simp: innermost_step_def s intro: less_imp_le)
        next
          case False
          then show ?thesis using True C Some k by (auto simp: innermost_step_def s)
        qed
      qed
    qed
  qed
  moreover have "C \<inter> {..<length ls} = C" by (auto simp: C_def)
  ultimately show ?thesis by (auto simp: getInnermostLoopForBlock_def split: option.splits)
qed

text \<open>A list of loops as \<open>buildLoops\<close> leaves it, some of the depths computed.\<close>

definition nesting :: "Loop list \<Rightarrow> nat \<Rightarrow> nat" where
  "nesting ls k = Suc (card {i. i < length ls \<and> i \<noteq> k \<and> blocks_of (ls ! k) \<subseteq> blocks_of (ls ! i)})"

definition loops_ok :: "BasicBlock list \<Rightarrow> Loop list \<Rightarrow> bool" where
  "loops_ok bs ls \<longleftrightarrow> length ls < 2 ^ 32 \<and> (\<forall>k < length ls. loop_ok (length bs) (ls ! k) \<and> lp_index (ls ! k) = of_nat k \<and>
     (lp_depth (ls ! k) = 0 \<or> unat (lp_depth (ls ! k)) = nesting ls k))"

text \<open>What the queries leave unchanged.\<close>

definition same_loops :: "Loop list \<Rightarrow> Loop list \<Rightarrow> bool" where
  "same_loops ls ls' \<longleftrightarrow> map (\<lambda>lp. lp \<lparr> lp_depth := 0 \<rparr>) ls' = map (\<lambda>lp. lp \<lparr> lp_depth := 0 \<rparr>) ls"

lemma same_loops_refl: "same_loops ls ls"
  by (simp add: same_loops_def)

lemma same_loops_trans: "same_loops a b \<Longrightarrow> same_loops b c \<Longrightarrow> same_loops a c"
  by (simp add: same_loops_def)

lemma same_loops_length: "same_loops ls ls' \<Longrightarrow> length ls' = length ls"
  unfolding same_loops_def by (rule map_eq_imp_length_eq)

lemma same_loops_nth:
  assumes "same_loops ls ls'" and "k < length ls"
  shows "blocks_of (ls' ! k) = blocks_of (ls ! k)" "lp_head (ls' ! k) = lp_head (ls ! k)"
    "isBlockIn (ls' ! k) = isBlockIn (ls ! k)" "getNumberOfBlocks (ls' ! k) = getNumberOfBlocks (ls ! k)"
proof -
  have "(ls' ! k) \<lparr> lp_depth := 0 \<rparr> = (ls ! k) \<lparr> lp_depth := 0 \<rparr>"
    using assms same_loops_length [OF assms(1)] unfolding same_loops_def by (metis nth_map)
  then have e: "lp_blocks (ls' ! k) = lp_blocks (ls ! k)" and "lp_head (ls' ! k) = lp_head (ls ! k)"
    by (metis Loop.ext_inject Loop.surjective Loop.update_convs(5))+
  then show "lp_head (ls' ! k) = lp_head (ls ! k)" by simp
  show "blocks_of (ls' ! k) = blocks_of (ls ! k)" "isBlockIn (ls' ! k) = isBlockIn (ls ! k)"
    "getNumberOfBlocks (ls' ! k) = getNumberOfBlocks (ls ! k)"
    by (simp_all add: e blocks_of_def isBlockIn_def [abs_def] getNumberOfBlocks_def)
qed

lemma same_loops_nesting: "same_loops ls ls' \<Longrightarrow> k < length ls \<Longrightarrow> nesting ls' k = nesting ls k"
  unfolding nesting_def using same_loops_nth(1) same_loops_length by (metis (no_types, lifting))

lemma nesting_bound: "k < length ls \<Longrightarrow> 0 < nesting ls k \<and> nesting ls k \<le> length ls"
proof -
  assume k: "k < length ls"
  have "{i. i < length ls \<and> i \<noteq> k \<and> blocks_of (ls ! k) \<subseteq> blocks_of (ls ! i)} \<subseteq> {..<length ls} - {k}" by auto
  then have "card {i. i < length ls \<and> i \<noteq> k \<and> blocks_of (ls ! k) \<subseteq> blocks_of (ls ! i)} \<le> card ({..<length ls} - {k})"
    by (rule card_mono [rotated]) simp
  also have "\<dots> = length ls - 1" using k by simp
  finally show ?thesis using k by (simp add: nesting_def)
qed

lemma getLoopDepth_loop_ok:
  assumes "loops_ok bs ls" and k: "k < length ls"
  shows "\<exists>ls'. getLoopDepth_loop bs ls k = (of_nat (nesting ls k), ls') \<and> loops_ok bs ls' \<and> same_loops ls ls'"
proof (cases "lp_depth (ls ! k) = 0")
  case False
  then have "nesting ls k = unat (lp_depth (ls ! k))" using assms by (auto simp: loops_ok_def)
  then have "lp_depth (ls ! k) = of_nat (nesting ls k)" by simp
  then show ?thesis using assms(1) False by (simp add: getLoopDepth_loop_def same_loops_refl)
next
  case True
  have ok: "length ls < 2 ^ 32" "\<And>i. i < length ls \<Longrightarrow> loop_ok (length bs) (ls ! i)" "lp_index (ls ! k) = of_nat k"
    using assms by (simp_all add: loops_ok_def)
  let ?P = "\<lambda>i. i \<noteq> k \<and> blocks_of (ls ! k) \<subseteq> blocks_of (ls ! i)"
  let ?f = "\<lambda>i d. if lp_index (ls ! k) \<noteq> of_nat i then if isInnerLoopOf bs (ls ! k) (ls ! i) then d + 1 else d else (d :: u32)"
  have f: "?f i d = (if ?P i then d + 1 else d)" if i: "i < length ls" for i d
  proof -
    have "(of_nat k :: u32) = of_nat i \<longleftrightarrow> k = i" using ok(1) i k by (simp add: word_unat_eq_iff unat_of_nat)
    then show ?thesis using ok(3) isInnerLoopOf_subset [OF ok(2) [OF k] ok(2) [OF i]] by auto
  qed
  have "fold ?f [0..<n] 1 = of_nat (Suc (card {i. i < n \<and> ?P i}))" if "n \<le> length ls" for n
    using that
  proof (induction n)
    case 0
    then show ?case by simp
  next
    case (Suc n)
    have "{i. i < Suc n \<and> ?P i} = (if ?P n then insert n {i. i < n \<and> ?P i} else {i. i < n \<and> ?P i})"
      by (auto simp: less_Suc_eq)
    then show ?case using Suc f [of n] by simp
  qed
  from this [OF order_refl]
  have d: "fold ?f [0..<length ls] 1 = of_nat (nesting ls k)" by (simp add: nesting_def)
  let ?ls = "ls[k := (ls ! k) \<lparr> lp_depth := of_nat (nesting ls k) \<rparr>]"
  have "map (\<lambda>lp. lp \<lparr> lp_depth := 0 \<rparr>) ?ls = map (\<lambda>lp. lp \<lparr> lp_depth := 0 \<rparr>) ls"
    by (rule nth_equalityI) (simp_all add: nth_list_update k)
  then have s: "same_loops ls ?ls" by (simp add: same_loops_def)
  have "nesting ls k < 2 ^ 32" using nesting_bound [OF k] ok(1) by simp
  then have "unat (of_nat (nesting ls k) :: u32) = nesting ls k" by (simp add: unat_of_nat)
  then have "loops_ok bs ?ls"
    using assms(1) same_loops_nesting [OF s] by (auto simp: loops_ok_def nth_list_update loop_ok_def k)
  moreover have "getLoopDepth_loop bs ls k = (of_nat (nesting ls k), ?ls)"
    unfolding getLoopDepth_loop_def d using True by (simp add: Let_def)
  ultimately show ?thesis using s by blast
qed

text \<open>\<open>getOuterLoop\<close> finds the first loop that has the blocks; doing it again changes nothing.\<close>

lemma getOuterLoop_least:
  assumes "loops_ok bs ls" and "k < length ls"
  shows "getOuterLoop bs ls k \<le> k \<and> blocks_of (ls ! k) \<subseteq> blocks_of (ls ! getOuterLoop bs ls k) \<and>
    (\<forall>i < getOuterLoop bs ls k. \<not> blocks_of (ls ! k) \<subseteq> blocks_of (ls ! i))"
proof -
  have sub: "isInnerLoopOf bs (ls ! k) (ls ! i) \<longleftrightarrow> blocks_of (ls ! k) \<subseteq> blocks_of (ls ! i)" if "i < length ls" for i
    using assms that by (intro isInnerLoopOf_subset) (simp_all add: loops_ok_def)
  obtain i where f: "find (\<lambda>i. isInnerLoopOf bs (ls ! k) (ls ! i)) [0..<length ls] = Some i"
    using assms(2) sub [of k] by (cases "find (\<lambda>i. isInnerLoopOf bs (ls ! k) (ls ! i)) [0..<length ls]")
      (auto simp: find_None_iff)
  then obtain j where "j < length ls" "isInnerLoopOf bs (ls ! k) (ls ! i)" "i = j"
    "\<forall>m < j. \<not> isInnerLoopOf bs (ls ! k) (ls ! m)"
    by (auto simp: find_Some_iff)
  moreover from this have "i \<le> k" using sub [OF assms(2)] by (meson not_less order_refl)
  ultimately show ?thesis using f sub by (auto simp: getOuterLoop_def)
qed

lemma getOuterMost_once:
  assumes "loops_ok bs ls" and "k < length ls"
  shows "getOuterMostLoopForLoop bs ls k = Some (getOuterLoop bs ls k)"
proof -
  let ?o = "getOuterLoop bs ls k"
  note o = getOuterLoop_least [OF assms]
  then have lt: "?o < length ls" using assms(2) by simp
  note oo = getOuterLoop_least [OF assms(1) lt]
  have "getOuterLoop bs ls ?o = ?o"
    using o oo by (metis le_less_trans linorder_neqE_nat not_less order_trans)
  then have w: "getOuterMostLoopForLoop bs ls ?o = Some ?o"
    unfolding getOuterMostLoopForLoop_def by (subst while_option_unfold) simp
  show ?thesis
  proof (cases "?o = k")
    case False
    then have "getOuterMostLoopForLoop bs ls k = getOuterMostLoopForLoop bs ls ?o"
      unfolding getOuterMostLoopForLoop_def by (subst while_option_unfold) auto
    then show ?thesis using w by simp
  qed (use w in simp)
qed

section \<open>Properties\<close>

text \<open>
  C1. For a connected graph with immediate dominators, \<open>buildLoops\<close> returns the natural loops: one for
  every edge from a reachable block into a dominator of it whose source does not end with a call, with
  that head and tail and the blocks that reach the tail without passing through the head; the loops
  are numbered by position, whatever order \<open>qsort\<close> leaves them in.
\<close>

theorem buildLoops_natural:
  assumes "\<And>c xs. mset (sortf c xs) = mset xs" and "mirrored bs" and "0 < length bs" and "length bs < 2 ^ 32"
    and "idom_ok (targetsOf bs) 0 (idomOf bs)"
  shows "\<exists>ls. buildLoops sortf bs [] = Inr ls \<and>
    (\<lambda>lp. (lp_head lp, lp_tail lp, members (lp_blocks lp))) ` set ls =
      {(h, t, insert h {n. (n, t) \<in> (avoiding (targetsOf bs) h)\<^sup>*}) | h t.
         t \<in> reachable (targetsOf bs) 0 \<and> h \<in> set (targetsOf bs t) \<and>
         dominates (targetsOf bs) 0 h t \<and> \<not> bb_endsWithCall (bs ! t)} \<and>
    (\<forall>i < length ls. lp_index (ls ! i) = of_nat i)"
proof -
  obtain ls where ls: "buildLoops sortf bs [] = Inr ls" "loop_key ` set ls = keys_of bs (loop_edges bs)"
    "\<forall>i < length ls. lp_index (ls ! i) = of_nat i" using buildLoops_ok [where sortf = sortf, OF assms] by blast
  have k1: "(\<lambda>lp. (lp_head lp, lp_tail lp, members (lp_blocks lp))) = loop_key"
    by (rule ext) (simp add: loop_key_def blocks_of_def)
  have k2: "keys_of bs (loop_edges bs) = {(h, t, insert h {n. (n, t) \<in> (avoiding (targetsOf bs) h)\<^sup>*}) | h t.
       t \<in> reachable (targetsOf bs) 0 \<and> h \<in> set (targetsOf bs t) \<and> dominates (targetsOf bs) 0 h t \<and> \<not> bb_endsWithCall (bs ! t)}"
    by (auto simp: keys_of_def loop_edges_def is_loop_edge_def natural_def)
  show ?thesis unfolding k1 k2 [symmetric] using ls by blast
qed

definition loop_blocks :: "BasicBlock list" where
  "loop_blocks = map (\<lambda>(a, sources, targets, d). \<lparr> bb_baseAddress = a, bb_targetAddress = 0, bb_controlFallsThrough = True,
     bb_findExitInstruction = False, bb_sourceBlocks = sources, bb_targetBlocks = targets, bb_isEntry = (a = 100),
     bb_isExit = False, bb_isNoPath = False, bb_numberOfBytes = 20, bb_endsWithCall = False, bb_immDominatedBy = d,
     bb_index = 0, bb_hashCode = HashCode0, bb_instructions = [(0, False), (1, True)] \<rparr>)
     [(100, [], [1], None), (120, [0, 2], [2], Some 0), (140, [1], [1], Some 1)]"

lemma loop_blocks_ok: "length loop_blocks = 3" "targetsOf loop_blocks = chain_targets" "idomOf loop_blocks = chain_idom"
  "mirrored loop_blocks"
proof -
  show l: "length loop_blocks = 3" by (simp add: loop_blocks_def)
  show t: "targetsOf loop_blocks = chain_targets"
    by (rule ext) (auto simp: targetsOf_def chain_targets_def loop_blocks_def less_Suc_eq numeral_3_eq_3)
  show "idomOf loop_blocks = chain_idom"
    by (rule ext) (auto simp: idomOf_def chain_idom_def loop_blocks_def less_Suc_eq numeral_3_eq_3)
  have "u \<in> set (sourcesOf loop_blocks v) \<longleftrightarrow> v \<in> set (chain_targets u)" for u v
    by (auto simp: sourcesOf_def chain_targets_def loop_blocks_def less_Suc_eq numeral_3_eq_3)
  then show "mirrored loop_blocks" unfolding mirrored_def t l using chain_ok(1) by simp
qed

theorem buildLoops_natural_witness:
  "\<exists>ls lp. buildLoops (\<lambda>c xs. xs) loop_blocks [] = Inr ls \<and> lp \<in> set ls \<and> lp_head lp = 1 \<and> lp_tail lp = 2"
proof -
  have n: "0 < length loop_blocks" "length loop_blocks < 2 ^ 32" by (simp_all add: loop_blocks_ok)
  from buildLoops_natural [where sortf = "\<lambda>c xs. xs", OF refl loop_blocks_ok(4) n, unfolded loop_blocks_ok(2,3), OF chain_ok(3)]
  obtain ls where ls: "buildLoops (\<lambda>c xs. xs) loop_blocks [] = Inr ls"
    "(\<lambda>lp. (lp_head lp, lp_tail lp, members (lp_blocks lp))) ` set ls =
      {(h, t, insert h {n. (n, t) \<in> (avoiding chain_targets h)\<^sup>*}) | h t.
         t \<in> reachable chain_targets 0 \<and> h \<in> set (chain_targets t) \<and>
         dominates chain_targets 0 h t \<and> \<not> bb_endsWithCall (loop_blocks ! t)}" by blast
  have "1 \<in> set (chain_targets 2)" "\<not> bb_endsWithCall (loop_blocks ! 2)" "2 \<in> reachable chain_targets 0"
    by (simp add: chain_targets_def, simp add: loop_blocks_def, simp add: chain_ok(2))
  with chain_ok(4)
  have "(1, 2, insert 1 {n. (n, 2) \<in> (avoiding chain_targets 1)\<^sup>*}) \<in>
      (\<lambda>lp. (lp_head lp, lp_tail lp, members (lp_blocks lp))) ` set ls" unfolding ls(2) by blast
  then obtain lp where "lp \<in> set ls" "lp_head lp = 1" "lp_tail lp = 2" by auto
  then show ?thesis using ls(1) by blast
qed

text \<open>
  C18. A loop is entered through its head only: the head dominates every reachable block of each
  loop \<open>buildLoops\<close> returns, and the head can be reached again from each of its blocks.
\<close>

theorem loop_single_entry:
  assumes "\<And>c xs. mset (sortf c xs) = mset xs" and "mirrored bs" and "0 < length bs" and "length bs < 2 ^ 32"
    and "idom_ok (targetsOf bs) 0 (idomOf bs)" and "buildLoops sortf bs [] = Inr ls" and "lp \<in> set ls"
    and "bs_contains (lp_blocks lp) n"
  shows "(n \<in> reachable (targetsOf bs) 0 \<longrightarrow> dominates (targetsOf bs) 0 (lp_head lp) n) \<and>
    lp_head lp \<in> reachable (targetsOf bs) n"
proof -
  let ?tg = "targetsOf bs"
  have "loop_key lp \<in> keys_of bs (loop_edges bs)"
    using buildLoops_ok [where sortf = sortf, OF assms(1-5)] assms(6,7) by auto
  then have lp: "lp_tail lp \<in> reachable ?tg 0" "lp_head lp \<in> set (?tg (lp_tail lp))" "dominates ?tg 0 (lp_head lp) (lp_tail lp)"
    "blocks_of lp = natural ?tg (lp_head lp) (lp_tail lp)"
    by (auto simp: keys_of_def loop_edges_def is_loop_edge_def loop_key_def)
  have n: "n = lp_head lp \<or> (n, lp_tail lp) \<in> (avoiding ?tg (lp_head lp))\<^sup>*"
    using assms(8) lp(4) by (auto simp: natural_def blocks_of_def bs.abs_has)
  have "dominates ?tg 0 (lp_head lp) n"
  proof (cases "n = lp_head lp \<or> lp_head lp = 0")
    case True
    then show ?thesis by (elim disjE) (simp_all only: dominates_refl dominates_def simp_thms)
  next
    case False
    then have "(0, n) \<notin> (avoiding ?tg (lp_head lp))\<^sup>*"
      using n lp(3) by (auto simp: dominates_def dest: rtrancl_trans)
    then show ?thesis by (simp add: dominates_def)
  qed
  moreover have "(lp_tail lp, lp_head lp) \<in> edges ?tg" using lp(2) by (simp add: edges_def)
  then have "lp_head lp \<in> reachable ?tg n"
    using n rtrancl_mono [OF avoiding_edges [of ?tg "lp_head lp"]]
    by (auto simp: reachable_def intro: rtrancl_into_rtrancl)
  ultimately show ?thesis by blast
qed

theorem loop_single_entry_witness:
  "\<exists>ls. buildLoops (\<lambda>c xs. xs) loop_blocks [] = Inr ls \<and>
    (\<forall>lp \<in> set ls. \<forall>n \<in> {n. bs_contains (lp_blocks lp) n}. lp_head lp \<in> reachable chain_targets n)"
proof -
  have n: "0 < length loop_blocks" "length loop_blocks < 2 ^ 32" by (simp_all add: loop_blocks_ok)
  have i: "idom_ok (targetsOf loop_blocks) 0 (idomOf loop_blocks)" by (simp only: loop_blocks_ok(2,3) chain_ok(3))
  obtain ls where ls: "buildLoops (\<lambda>c xs. xs) loop_blocks [] = Inr ls"
    using buildLoops_ok [where sortf = "\<lambda>c xs. xs", OF refl loop_blocks_ok(4) n i] by blast
  from loop_single_entry [where sortf = "\<lambda>c xs. xs", OF refl loop_blocks_ok(4) n i ls]
  have "\<forall>lp \<in> set ls. \<forall>n \<in> {n. bs_contains (lp_blocks lp) n}. lp_head lp \<in> reachable chain_targets n"
    by (simp add: loop_blocks_ok(2))
  with ls show ?thesis by blast
qed

text \<open>
  The relations between loops of one graph are those of their sets of blocks: \<open>isInnerLoopOf\<close> is
  inclusion, \<open>isIdenticalLoop\<close> equality (for functions at the same address), \<open>getAllBlocks\<close> lists the
  blocks in increasing order, and \<open>getNumberOfBlocks\<close> counts them.
\<close>

theorem loop_relations:
  assumes "bs_ok (lp_blocks a)" and "maximum (lp_blocks a) = length bs"
    and "bs_ok (lp_blocks b)" and "maximum (lp_blocks b) = length bs"
  shows "(isInnerLoopOf bs a b \<longleftrightarrow> members (lp_blocks a) \<subseteq> members (lp_blocks b)) \<and>
    (isIdenticalLoop bs fa fb a b \<longleftrightarrow> fa = fb \<and> members (lp_blocks a) = members (lp_blocks b)) \<and>
    getAllBlocks bs a = sorted_list_of_set (members (lp_blocks a)) \<and>
    unat (getNumberOfBlocks a) = length (getAllBlocks bs a)"
proof -
  have ok: "loop_ok (length bs) a" "loop_ok (length bs) b" using assms by (simp_all add: loop_ok_def)
  have set: "set (getAllBlocks bs a) = blocks_of a" using blocks_bound [OF ok(1)] by (auto simp: getAllBlocks_def)
  moreover have d: "sorted (getAllBlocks bs a)" "distinct (getAllBlocks bs a)"
    by (simp_all add: getAllBlocks_def sorted_wrt_filter)
  ultimately have "getAllBlocks bs a = sorted_list_of_set (blocks_of a)"
    by (metis distinct_remdups_id sorted_list_of_set_sort_remdups sorted_sort_id)
  moreover have "length (getAllBlocks bs a) = card (blocks_of a)" using d(2) set by (metis distinct_card)
  ultimately show ?thesis
    using isInnerLoopOf_subset [OF ok] isIdenticalLoop_eq [OF ok, of fa fb] getNumberOfBlocks_card [OF ok(1)]
    by (simp add: blocks_of_def)
qed

theorem loop_relations_witness:
  "isInnerLoopOf loop_blocks (Loop_new 1 2 loop_blocks (new_BitSet 3)) (Loop_new 0 2 loop_blocks (new_BitSet 3))"
proof -
  let ?a = "Loop_new 1 2 loop_blocks (new_BitSet 3)" and ?b = "Loop_new 0 2 loop_blocks (new_BitSet 3)"
  have n: "length loop_blocks < 2 ^ 32" "members (new_BitSet 3) \<subseteq> {..<length loop_blocks}"
    by (simp_all add: loop_blocks_ok new_ok)
  note a = Loop_new_ok(1,2) [OF n, of 1 2] and b = Loop_new_ok(1,2) [OF n, of 0 2]
  have ok: "bs_ok (lp_blocks ?a)" "maximum (lp_blocks ?a) = length loop_blocks"
    "bs_ok (lp_blocks ?b)" "maximum (lp_blocks ?b) = length loop_blocks"
    using a(1) b(1) by (simp_all add: loop_ok_def)
  from loop_relations [OF ok, of 0 0] a(2) b(2) show ?thesis by (simp add: blocks_of_def)
qed

text \<open>
  \<open>getInnermostLoopForBlock\<close> returns a loop with the block exactly when \<open>isBlockInLoop\<close> holds, and
  then the first of the smallest loops that have it.
\<close>

theorem getInnermostLoopForBlock_smallest:
  "case getInnermostLoopForBlock ls idx of
     None \<Rightarrow> \<not> isBlockInLoop ls idx
   | Some k \<Rightarrow> isBlockInLoop ls idx \<and> k < length ls \<and> isBlockIn (ls ! k) idx \<and>
       (\<forall>i \<in> {i. i < length ls \<and> isBlockIn (ls ! i) idx}. getNumberOfBlocks (ls ! k) \<le> getNumberOfBlocks (ls ! i) \<and>
         (getNumberOfBlocks (ls ! i) = getNumberOfBlocks (ls ! k) \<longrightarrow> k \<le> i))"
proof -
  have in_loop: "isBlockInLoop ls idx \<longleftrightarrow> {i. i < length ls \<and> idx \<in> blocks_of (ls ! i)} \<noteq> {}"
    by (fastforce simp: isBlockInLoop_def list_ex_iff in_set_conv_nth)
  show ?thesis
    using getInnermostLoopForBlock_prefix [of ls idx] in_loop
    by (auto split: option.splits simp: not_le [symmetric])
qed

theorem getInnermostLoopForBlock_smallest_witness: "getInnermostLoopForBlock [] 0 = None"
  using getInnermostLoopForBlock_smallest [of "[]" 0] by (simp split: option.splits)

text \<open>
  \<open>getOuterMostLoopForLoop\<close> ends after one step, with the first loop of the list that has all
  blocks of the given one. It comes no later than the given loop, so an enclosing loop that
  \<open>qsort\<close> left behind the given one is not found.
\<close>

theorem getOuterMostLoopForLoop_first:
  assumes "loops_ok bs ls" and "k < length ls"
  shows "\<exists>m. getOuterMostLoopForLoop bs ls k = Some m \<and> m = getOuterLoop bs ls k \<and> m \<le> k \<and>
    members (lp_blocks (ls ! k)) \<subseteq> members (lp_blocks (ls ! m)) \<and>
    (\<forall>i < m. \<not> members (lp_blocks (ls ! k)) \<subseteq> members (lp_blocks (ls ! i)))"
  using getOuterMost_once [OF assms] getOuterLoop_least [OF assms] by (simp add: blocks_of_def)

text \<open>Two loops, the second around the first.\<close>

definition nested_loops :: "Loop list" where
  "nested_loops = [
     \<lparr> lp_index = 0, lp_head = 1, lp_tail = 2, lp_blocks = \<lparr> maximum = 3, bits = [6], cardinality = 2 \<rparr>, lp_depth = 0 \<rparr>,
     \<lparr> lp_index = 1, lp_head = 0, lp_tail = 2, lp_blocks = \<lparr> maximum = 3, bits = [7], cardinality = 3 \<rparr>, lp_depth = 0 \<rparr>]"

lemma nested_loops_blocks: "blocks_of (nested_loops ! 0) = {1, 2}" "blocks_of (nested_loops ! 1) = {0, 1, 2}"
proof -
  have b: "bit (6 :: u32) n \<longleftrightarrow> n \<in> {1, 2}" "bit (7 :: u32) n \<longleftrightarrow> n \<in> {0, 1, 2}" if "n < 3" for n
    using that by (auto simp: less_Suc_eq numeral_3_eq_3)
  then show "blocks_of (nested_loops ! 0) = {1, 2}" "blocks_of (nested_loops ! 1) = {0, 1, 2}"
    by (auto simp: blocks_of_def members_def nested_loops_def)
qed

lemma nested_loops_ok: "loops_ok loop_blocks nested_loops"
proof -
  have c: "members (lp_blocks (nested_loops ! 0)) = {1, 2}" "members (lp_blocks (nested_loops ! 1)) = {0, 1, 2}"
    using nested_loops_blocks by (simp_all add: blocks_of_def)
  have f: "maximum (lp_blocks (nested_loops ! k)) = 3" "length (bits (lp_blocks (nested_loops ! k))) = 1"
    "cardinality (lp_blocks (nested_loops ! k)) = of_nat (k + 2)" "lp_index (nested_loops ! k) = of_nat k"
    "lp_depth (nested_loops ! k) = 0" if "k = 0 \<or> k = 1" for k
    using that by (auto simp: nested_loops_def)
  have "loop_ok 3 (nested_loops ! 0)" "loop_ok 3 (nested_loops ! 1)"
    using f [of 0] f [of 1] c by (simp_all add: loop_ok_def bs_ok_def internalCount_def)
  then have "loop_ok 3 (nested_loops ! k) \<and> lp_index (nested_loops ! k) = of_nat k \<and> lp_depth (nested_loops ! k) = 0"
    if "k < 2" for k
  proof -
    have "k = 0 \<or> k = 1" using that by linarith
    then show ?thesis using f [of k] \<open>loop_ok 3 (nested_loops ! 0)\<close> \<open>loop_ok 3 (nested_loops ! 1)\<close> by auto
  qed
  moreover have "length nested_loops = 2" by (simp add: nested_loops_def)
  ultimately show ?thesis by (simp add: loops_ok_def loop_blocks_ok)
qed

theorem getOuterMostLoopForLoop_first_witness:
  "getOuterMostLoopForLoop loop_blocks nested_loops 0 = Some 0 \<and> isInnerLoopOf loop_blocks (nested_loops ! 0) (nested_loops ! 1) \<and>
    \<not> isInnerLoopOf loop_blocks (nested_loops ! 1) (nested_loops ! 0)"
proof -
  have l: "0 < length nested_loops" "1 < length nested_loops" by (simp_all add: nested_loops_def)
  have ok: "loop_ok (length loop_blocks) (nested_loops ! 0)" "loop_ok (length loop_blocks) (nested_loops ! 1)"
    using nested_loops_ok l by (simp_all add: loops_ok_def)
  show ?thesis
    using getOuterMostLoopForLoop_first [OF nested_loops_ok l(1)] isInnerLoopOf_subset [OF ok] isInnerLoopOf_subset [OF ok(2,1)]
      nested_loops_blocks by auto
qed

text \<open>
  C28. \<open>getLoopDepth\<close> of a block is 0 outside every loop, and else one more than the number of other
  loops around its innermost loop. The cached depths stay right and nothing else of the loops changes.
\<close>

theorem getLoopDepth_counts:
  assumes "loops_ok bs ls"
  shows "\<exists>d ls'. getLoopDepth bs ls idx = (d, ls') \<and> loops_ok bs ls' \<and> same_loops ls ls' \<and>
    unat d = (case getInnermostLoopForBlock ls idx of None \<Rightarrow> 0
      | Some k \<Rightarrow> 1 + card {i. i < length ls \<and> i \<noteq> k \<and> members (lp_blocks (ls ! k)) \<subseteq> members (lp_blocks (ls ! i))})"
proof (cases "getInnermostLoopForBlock ls idx")
  case None
  then show ?thesis using assms by (simp add: getLoopDepth_def same_loops_refl)
next
  case (Some k)
  then have k: "k < length ls" using getInnermostLoopForBlock_prefix [of ls idx] by simp
  obtain ls' where r: "getLoopDepth_loop bs ls k = (of_nat (nesting ls k), ls')" "loops_ok bs ls'" "same_loops ls ls'"
    using getLoopDepth_loop_ok [OF assms k] by blast
  have "nesting ls k < 2 ^ 32" using nesting_bound [OF k] assms by (simp add: loops_ok_def)
  then have "unat (of_nat (nesting ls k) :: u32) = nesting ls k" by (simp add: unat_of_nat)
  then show ?thesis using r Some by (simp add: getLoopDepth_def nesting_def blocks_of_def)
qed

theorem getLoopDepth_counts_witness: "\<exists>d ls'. getLoopDepth loop_blocks nested_loops 5 = (d, ls') \<and> loops_ok loop_blocks ls'"
  using getLoopDepth_counts [OF nested_loops_ok, of 5] by blast

end
