(* ===== verification/Reg_Set.thy ===== *)
theory Reg_Set
  imports Bit_Set X86_Registers
begin

text \<open>
  The class \<open>RegisterSet\<close> of \<open>include/X86Instruction.h\<close> and \<open>src/X86Instruction.C\<close>: a \<open>BitSet\<close> of the 32
  flag bits followed by the 40 general, vector and x87 registers. The liveness analysis relies on
  the interface \<open>reg_sets\<close>.
\<close>

section \<open>Register sets\<close>

type_synonym RegisterSet = BitSet

definition RegisterSet_new :: RegisterSet where
  "RegisterSet_new = bs_clear (new_BitSet (X86_FLAG_BITS + X86_ALU_REGS))"

text \<open>The operators \<open>|\<close> and \<open>-\<close> copy their left side and use \<open>|=\<close> and \<open>-=\<close>.\<close>

definition rs_or :: "RegisterSet \<Rightarrow> RegisterSet \<Rightarrow> RegisterSet res" where
  "rs_or a b = bs_or a b"

definition rs_sub :: "RegisterSet \<Rightarrow> RegisterSet \<Rightarrow> RegisterSet res" where
  "rs_sub a b = bs_sub a b"

definition rs_eq :: "RegisterSet \<Rightarrow> RegisterSet \<Rightarrow> bool res" where
  "rs_eq a b = bs_eq a b"

definition containsFlag :: "RegisterSet \<Rightarrow> u32 \<Rightarrow> bool" where
  "containsFlag rs flagNum = bs_contains rs (unat flagNum)"

definition containsRegister :: "RegisterSet \<Rightarrow> u32 \<Rightarrow> bool" where
  "containsRegister rs regNum = bs_contains rs (unat (of_nat X86_FLAG_BITS + regNum))"

definition addRegister :: "u32 \<Rightarrow> RegisterSet \<Rightarrow> RegisterSet" where
  "addRegister regNum rs = bs_insert (unat (of_nat X86_FLAG_BITS + regNum)) rs"

definition addFlag :: "u32 \<Rightarrow> RegisterSet \<Rightarrow> RegisterSet" where
  "addFlag flagNum rs = bs_insert (unat flagNum) rs"

section \<open>The interface of the liveness analysis\<close>

text \<open>Sets below a bound with union, difference and equality, none of which fails.\<close>

locale reg_sets =
  fixes good :: "'r \<Rightarrow> bool"
    and mem :: "'r \<Rightarrow> nat set"
    and bound :: nat
    and join diff :: "'r \<Rightarrow> 'r \<Rightarrow> 'r res"
    and same :: "'r \<Rightarrow> 'r \<Rightarrow> bool res"
  assumes mem_bound: "good a \<Longrightarrow> mem a \<subseteq> {..<bound}"
    and join: "good a \<Longrightarrow> good b \<Longrightarrow> \<exists>c. join a b = Inr c \<and> good c \<and> mem c = mem a \<union> mem b"
    and diff: "good a \<Longrightarrow> good b \<Longrightarrow> \<exists>c. diff a b = Inr c \<and> good c \<and> mem c = mem a - mem b"
    and same: "good a \<Longrightarrow> good b \<Longrightarrow> same a b = Inr (mem a = mem b)"
begin

lemma finite_mem: "good a \<Longrightarrow> finite (mem a)"
  by (rule finite_subset [OF mem_bound]) simp_all

lemma card_mem: "good a \<Longrightarrow> card (mem a) \<le> bound"
  using card_mono [OF _ mem_bound] by fastforce

text \<open>Joining several sets into one, and the transfer function of a definition.\<close>

lemma join_all:
  assumes "good a" and "\<And>x. x \<in> set xs \<Longrightarrow> good (g x)"
  shows "\<exists>c. rfold (\<lambda>x c. join c (g x)) xs a = Inr c \<and> good c \<and> mem c = mem a \<union> (\<Union>x \<in> set xs. mem (g x))"
  using assms
proof (induction xs arbitrary: a)
  case Nil
  then show ?case by simp
next
  case (Cons x xs)
  obtain b where b: "join a (g x) = Inr b" "good b" "mem b = mem a \<union> mem (g x)"
    using join [OF Cons.prems(1), of "g x"] Cons.prems(2) by auto
  from Cons.IH [OF b(2)] Cons.prems(2) obtain c where
    "rfold (\<lambda>x c. join c (g x)) xs b = Inr c" "good c" "mem c = mem b \<union> (\<Union>x \<in> set xs. mem (g x))" by auto
  then show ?case using b by auto
qed

lemma transfer:
  assumes "good u" and "good s" and "good d"
  shows "\<exists>c. rbind (diff s d) (\<lambda>t. join u t) = Inr c \<and> good c \<and> mem c = mem u \<union> (mem s - mem d)"
proof -
  obtain t where t: "diff s d = Inr t" "good t" "mem t = mem s - mem d" using diff assms(2,3) by blast
  then show ?thesis using join [OF assms(1) t(2)] by auto
qed

end

definition rs_good :: "RegisterSet \<Rightarrow> bool" where
  "rs_good rs \<longleftrightarrow> bs_ok rs \<and> bs_clean rs \<and> maximum rs = X86_FLAG_BITS + X86_ALU_REGS"

interpretation rs: reg_sets rs_good members "X86_FLAG_BITS + X86_ALU_REGS" rs_or rs_sub rs_eq
proof
  fix a b :: RegisterSet
  assume a: "rs_good a"
  then show "members a \<subseteq> {..<X86_FLAG_BITS + X86_ALU_REGS}" using bs.abs_cap [of a] by (simp add: rs_good_def)
  assume b: "rs_good b"
  have o: "bs_ok a" "bs_ok b" "bs_clean a" "bs_clean b" "maximum a = maximum b" using a b by (simp_all add: rs_good_def)
  show "\<exists>c. rs_or a b = Inr c \<and> rs_good c \<and> members c = members a \<union> members b"
    using map2_op [OF bitwise_ops(2) o] o(5) a by (auto simp: rs_or_def bs_or_def rs_good_def)
  show "\<exists>c. rs_sub a b = Inr c \<and> rs_good c \<and> members c = members a - members b"
    using map2_op [OF bitwise_ops(3) o] o(5) a by (auto simp: rs_sub_def bs_sub_def rs_good_def)
  show "rs_eq a b = Inr (members a = members b)"
    using members_eq_bits [OF o] o(5) by (simp add: rs_eq_def bs_eq_def)
qed

lemma RegisterSet_new_ok: "rs_good RegisterSet_new" "members RegisterSet_new = {}"
proof -
  have n: "bs_ok (new_BitSet 72)" "maximum (new_BitSet 72) = 72" by (simp_all add: new_ok)
  show "members RegisterSet_new = {}"
    using bs.abs_clr [OF n(1)] by (simp add: RegisterSet_new_def X86_FLAG_BITS_def X86_ALU_REGS_value)
  have "bs_clean (bs_clear (new_BitSet 72))" by (auto simp: bs_clean_def bs_clear_def)
  then show "rs_good RegisterSet_new"
    using bs.ok_clr [OF n(1)] bs.cap_clr [of "new_BitSet 72"] n(2)
    by (simp add: rs_good_def RegisterSet_new_def X86_FLAG_BITS_def X86_ALU_REGS_value)
qed

lemma rs_good_bits: "rs_good rs \<Longrightarrow> length (bits rs) = internalCount (maximum rs)"
  by (simp add: rs_good_def bs_ok_def)

lemma reg_index: "r < X86_ALU_REGS \<Longrightarrow> unat (of_nat X86_FLAG_BITS + of_nat r :: u32) = X86_FLAG_BITS + r"
proof -
  assume r: "r < X86_ALU_REGS"
  have "(of_nat X86_FLAG_BITS + of_nat r :: u32) = of_nat (X86_FLAG_BITS + r)" by simp
  then show ?thesis using r by (simp only: unat_of_nat) (simp add: X86_FLAG_BITS_def X86_ALU_REGS_value)
qed

lemma add_good:
  assumes "rs_good rs"
  shows "rs_good (addRegister r rs)" "rs_good (addFlag f rs)"
  using assms bs.ok_ins [of rs] insert_clean [of rs] rs_good_bits [OF assms] bs.cap_ins
  by (simp_all add: rs_good_def addRegister_def addFlag_def)

lemma members_add:
  assumes "rs_good rs"
  shows "r < X86_ALU_REGS \<Longrightarrow> members (addRegister (of_nat r) rs) = insert (X86_FLAG_BITS + r) (members rs)"
    "f < X86_FLAG_BITS \<Longrightarrow> members (addFlag (of_nat f) rs) = insert f (members rs)"
proof -
  have ok: "bs_ok rs" "maximum rs = X86_FLAG_BITS + X86_ALU_REGS" using assms by (simp_all add: rs_good_def)
  show "r < X86_ALU_REGS \<Longrightarrow> members (addRegister (of_nat r) rs) = insert (X86_FLAG_BITS + r) (members rs)"
    using bs.abs_ins [OF ok(1)] ok(2) by (simp add: addRegister_def reg_index)
  show "f < X86_FLAG_BITS \<Longrightarrow> members (addFlag (of_nat f) rs) = insert f (members rs)"
    using bs.abs_ins [OF ok(1)] ok(2) by (simp add: addFlag_def unat_of_nat X86_FLAG_BITS_def)
qed

lemma contains_members:
  "r < X86_ALU_REGS \<Longrightarrow> containsRegister rs (of_nat r) \<longleftrightarrow> X86_FLAG_BITS + r \<in> members rs"
  "f < X86_FLAG_BITS \<Longrightarrow> containsFlag rs (of_nat f) \<longleftrightarrow> f \<in> members rs"
  by (simp add: containsRegister_def reg_index bs.abs_has)
    (simp add: containsFlag_def bs.abs_has unat_of_nat X86_FLAG_BITS_def)

end
