(* ===== verification/Liveness.thy ===== *)
theory Liveness
  imports Reg_Set
begin

text \<open>
  Register liveness: \<open>FlowGraph::computeLiveness\<close> of \<open>src/FlowGraph.C\<close>. The registers and flags an instruction
  uses and defines are attributes read from the disassembler; here they are fields of the
  instruction. The sweeps over the instructions are a loop without a bound in the code and here.
\<close>

section \<open>Instructions and their successors\<close>

record LiveInstruction =
  li_used :: RegisterSet
  li_defined :: RegisterSet
  li_liveIns :: "RegisterSet option"
  li_liveOuts :: "RegisterSet option"

record LiveBlock =
  lb_instructions :: "LiveInstruction list"
  lb_targets :: "nat list"

text \<open>The instructions are numbered through the blocks; a block starts with this number.\<close>

definition block_start :: "LiveBlock list \<Rightarrow> nat \<Rightarrow> nat" where
  "block_start bs i = sum_list (map (\<lambda>b. length (lb_instructions b)) (take i bs))"

definition all_instructions :: "LiveBlock list \<Rightarrow> LiveInstruction list" where
  "all_instructions bs = concat (map lb_instructions bs)"

text \<open>The successors are a \<open>std::set\<close>, iterated in increasing order; \<open>getLeader\<close> needs an instruction.\<close>

definition leader_succs :: "LiveBlock list \<Rightarrow> nat list \<Rightarrow> nat list res" where
  "leader_succs bs targets = rbind
     (rfold (\<lambda>k l. ASSERT (lb_instructions (bs ! k) \<noteq> []) (Inr (l @ [block_start bs k]))) targets [])
     (\<lambda>l. Inr (sort (remdups l)))"

definition instruction_succs :: "LiveBlock list \<Rightarrow> nat \<Rightarrow> nat \<Rightarrow> nat list res" where
  "instruction_succs bs i j =
     (if j = length (lb_instructions (bs ! i)) - 1 then leader_succs bs (lb_targets (bs ! i))
      else Inr [block_start bs i + j + 1])"

definition positions :: "LiveBlock list \<Rightarrow> (nat \<times> nat) list" where
  "positions bs = concat (map (\<lambda>i. map (Pair i) [0..<length (lb_instructions (bs ! i))]) [0..<length bs])"

definition all_succs :: "LiveBlock list \<Rightarrow> nat list list res" where
  "all_succs bs = rfold (\<lambda>(i, j) succs. rbind (instruction_succs bs i j) (\<lambda>s. Inr (succs @ [s]))) (positions bs) []"

section \<open>The sweeps\<close>

record LiveState =
  lv_ins :: "RegisterSet list"
  lv_outs :: "RegisterSet list"
  lv_ins_prime :: "RegisterSet list"
  lv_outs_prime :: "RegisterSet list"
  lv_same :: bool

definition live_step :: "nat list list \<Rightarrow> RegisterSet list \<Rightarrow> RegisterSet list \<Rightarrow> nat \<Rightarrow> LiveState \<Rightarrow> LiveState res" where
  "live_step succs uses defs i st = (
     let st = st \<lparr> lv_ins_prime := (lv_ins_prime st)[i := lv_ins st ! i],
                   lv_outs_prime := (lv_outs_prime st)[i := lv_outs st ! i] \<rparr> in
     rbind (rfold (\<lambda>s out. rs_or out (lv_ins st ! s)) (succs ! i) (lv_outs st ! i)) (\<lambda>out.
     rbind (rbind (rs_sub out (defs ! i)) (\<lambda>t. rs_or (uses ! i) t)) (\<lambda>new.
     Inr (st \<lparr> lv_outs := (lv_outs st)[i := out], lv_ins := (lv_ins st)[i := new] \<rparr>))))"

fun sets_same :: "LiveState \<Rightarrow> nat list \<Rightarrow> bool res" where
  "sets_same st [] = Inr True"
| "sets_same st (i # is) =
     rbind (rs_eq (lv_ins st ! i) (lv_ins_prime st ! i)) (\<lambda>e. if \<not> e then Inr False else
     rbind (rs_eq (lv_outs st ! i) (lv_outs_prime st ! i)) (\<lambda>e. if \<not> e then Inr False else sets_same st is))"

definition live_sweep :: "nat list list \<Rightarrow> RegisterSet list \<Rightarrow> RegisterSet list \<Rightarrow> nat \<Rightarrow> LiveState \<Rightarrow> LiveState res" where
  "live_sweep succs uses defs icount st =
     rbind (rfold (live_step succs uses defs) (rev [0..<icount]) st) (\<lambda>st.
     rbind (sets_same st [0..<icount]) (\<lambda>same. Inr (st \<lparr> lv_same := same \<rparr>)))"

definition live_start :: "nat \<Rightarrow> LiveState" where
  "live_start icount = (let sets = replicate icount RegisterSet_new in
     \<lparr> lv_ins = sets, lv_outs = sets, lv_ins_prime = sets, lv_outs_prime = sets, lv_same = False \<rparr>)"

definition live_loop :: "nat list list \<Rightarrow> RegisterSet list \<Rightarrow> RegisterSet list \<Rightarrow> nat \<Rightarrow> LiveState res option" where
  "live_loop succs uses defs icount = while_option
     (\<lambda>r. case r of Inl _ \<Rightarrow> False | Inr st \<Rightarrow> \<not> lv_same st)
     (\<lambda>r. rbind r (live_sweep succs uses defs icount)) (Inr (live_start icount))"

text \<open>\<open>setLiveIns\<close> and \<open>setLiveOuts\<close> insist on being the first call for their instruction.\<close>

definition set_live :: "RegisterSet list \<Rightarrow> RegisterSet list \<Rightarrow> LiveBlock list \<Rightarrow> LiveBlock list" where
  "set_live ins outs bs = map (\<lambda>i. (bs ! i) \<lparr> lb_instructions := map (\<lambda>j. (lb_instructions (bs ! i) ! j)
       \<lparr> li_liveIns := Some (ins ! (block_start bs i + j)), li_liveOuts := Some (outs ! (block_start bs i + j)) \<rparr>)
     [0..<length (lb_instructions (bs ! i))] \<rparr>) [0..<length bs]"

definition computeLiveness :: "LiveBlock list \<Rightarrow> LiveBlock list res" where
  "computeLiveness bs = rbind (all_succs bs) (\<lambda>succs.
     let uses = map li_used (all_instructions bs); defs = map li_defined (all_instructions bs) in
     case live_loop succs uses defs (length (all_instructions bs)) of
       None \<Rightarrow> Inl Diverges
     | Some r \<Rightarrow> rbind r (\<lambda>st.
         ASSERT (\<forall>x \<in> set (all_instructions bs). li_liveIns x = None \<and> li_liveOuts x = None)
           (Inr (set_live (lv_ins st) (lv_outs st) bs))))"

definition isRegDeadIn :: "LiveInstruction \<Rightarrow> u32 \<Rightarrow> bool" where
  "isRegDeadIn x r = (case li_liveIns x of None \<Rightarrow> False | Some s \<Rightarrow> \<not> containsRegister s r)"

definition isRegDeadOut :: "LiveInstruction \<Rightarrow> u32 \<Rightarrow> bool" where
  "isRegDeadOut x r = (case li_liveOuts x of None \<Rightarrow> False | Some s \<Rightarrow> \<not> containsRegister s r)"

definition isFlagDeadIn :: "LiveInstruction \<Rightarrow> u32 \<Rightarrow> bool" where
  "isFlagDeadIn x f = (case li_liveIns x of None \<Rightarrow> False | Some s \<Rightarrow> \<not> containsFlag s f)"

definition isFlagDeadOut :: "LiveInstruction \<Rightarrow> u32 \<Rightarrow> bool" where
  "isFlagDeadOut x f = (case li_liveOuts x of None \<Rightarrow> False | Some s \<Rightarrow> \<not> containsFlag s f)"

definition allFlagsDeadIn :: "LiveInstruction \<Rightarrow> bool" where
  "allFlagsDeadIn x = (case li_liveIns x of None \<Rightarrow> False
     | Some s \<Rightarrow> \<not> (\<exists>i \<in> set [0..<X86_FLAG_BITS]. containsFlag s (of_nat i)))"

definition allFlagsDeadOut :: "LiveInstruction \<Rightarrow> bool" where
  "allFlagsDeadOut x = (case li_liveOuts x of None \<Rightarrow> False
     | Some s \<Rightarrow> \<not> (\<exists>i \<in> set [0..<X86_FLAG_BITS]. containsFlag s (of_nat i)))"

section \<open>What liveness is\<close>

text \<open>
  A register is live before instruction \<open>n\<close> when some path from \<open>n\<close> leads to a use of it and no
  instruction on the way before the use defines it.
\<close>

inductive live :: "(nat \<Rightarrow> nat set) \<Rightarrow> (nat \<Rightarrow> nat set) \<Rightarrow> (nat \<Rightarrow> nat set) \<Rightarrow> nat \<Rightarrow> nat \<Rightarrow> bool"
  for succ uses defs where
  live_use: "r \<in> uses n \<Longrightarrow> live succ uses defs r n"
| live_step: "m \<in> succ n \<Longrightarrow> r \<notin> defs n \<Longrightarrow> live succ uses defs r m \<Longrightarrow> live succ uses defs r n"

definition live_out :: "(nat \<Rightarrow> nat set) \<Rightarrow> (nat \<Rightarrow> nat set) \<Rightarrow> (nat \<Rightarrow> nat set) \<Rightarrow> nat \<Rightarrow> nat \<Rightarrow> bool" where
  "live_out succ uses defs r n \<longleftrightarrow> (\<exists>m \<in> succ n. live succ uses defs r m)"

lemma live_eq: "live succ uses defs r n \<longleftrightarrow> r \<in> uses n \<or> r \<notin> defs n \<and> live_out succ uses defs r n"
  by (auto simp: live_out_def elim: live.cases intro: live.intros)

section \<open>One sweep\<close>

definition lives_ok :: "nat \<Rightarrow> LiveState \<Rightarrow> bool" where
  "lives_ok N st \<longleftrightarrow> (\<forall>xs \<in> {lv_ins st, lv_outs st, lv_ins_prime st, lv_outs_prime st}. length xs = N \<and> (\<forall>x \<in> set xs. rs_good x))"

lemma lives_okD:
  assumes "lives_ok N st"
  shows "length (lv_ins st) = N" "length (lv_outs st) = N" "length (lv_ins_prime st) = N" "length (lv_outs_prime st) = N"
    "i < N \<Longrightarrow> rs_good (lv_ins st ! i)" "i < N \<Longrightarrow> rs_good (lv_outs st ! i)"
    "i < N \<Longrightarrow> rs_good (lv_ins_prime st ! i)" "i < N \<Longrightarrow> rs_good (lv_outs_prime st ! i)"
  using assms by (auto simp: lives_ok_def)

text \<open>The input of the analysis: \<open>N\<close> instructions with good register sets and successors in range.\<close>

definition flow_ok :: "nat \<Rightarrow> nat list list \<Rightarrow> RegisterSet list \<Rightarrow> RegisterSet list \<Rightarrow> bool" where
  "flow_ok N succs uses defs \<longleftrightarrow> length succs = N \<and> length uses = N \<and> length defs = N \<and>
     (\<forall>s \<in> set succs. set s \<subseteq> {..<N}) \<and> (\<forall>x \<in> set uses \<union> set defs. rs_good x)"

abbreviation "In st i \<equiv> members (lv_ins st ! i)"
abbreviation "Out st i \<equiv> members (lv_outs st ! i)"

lemma live_step_ok:
  assumes f: "flow_ok N succs uses defs" and ok: "lives_ok N st" and i: "i < N"
  shows "\<exists>st'. live_step succs uses defs i st = Inr st' \<and> lives_ok N st' \<and>
    lv_ins_prime st' = (lv_ins_prime st)[i := lv_ins st ! i] \<and> lv_outs_prime st' = (lv_outs_prime st)[i := lv_outs st ! i] \<and>
    (\<forall>j < N. j \<noteq> i \<longrightarrow> lv_ins st' ! j = lv_ins st ! j \<and> lv_outs st' ! j = lv_outs st ! j) \<and>
    Out st' i = Out st i \<union> (\<Union>s \<in> set (succs ! i). In st s) \<and>
    In st' i = members (uses ! i) \<union> (Out st' i - members (defs ! i))"
proof -
  note l = lives_okD [OF ok]
  have s: "set (succs ! i) \<subseteq> {..<N}" and g: "rs_good (uses ! i)" "rs_good (defs ! i)"
    using f i by (auto simp: flow_ok_def)
  obtain out where out: "rfold (\<lambda>s out. rs_or out (lv_ins st ! s)) (succs ! i) (lv_outs st ! i) = Inr out"
    "rs_good out" "members out = Out st i \<union> (\<Union>s \<in> set (succs ! i). In st s)"
    using rs.join_all [OF l(6) [OF i], of "succs ! i" "\<lambda>s. lv_ins st ! s"] s l(5) by blast
  obtain new where new: "rbind (rs_sub out (defs ! i)) (\<lambda>t. rs_or (uses ! i) t) = Inr new" "rs_good new"
    "members new = members (uses ! i) \<union> (members out - members (defs ! i))"
    using rs.transfer [OF g(1) out(2) g(2)] by blast
  let ?st = "st \<lparr> lv_ins_prime := (lv_ins_prime st)[i := lv_ins st ! i], lv_outs_prime := (lv_outs_prime st)[i := lv_outs st ! i],
    lv_outs := (lv_outs st)[i := out], lv_ins := (lv_ins st)[i := new] \<rparr>"
  have "live_step succs uses defs i st = Inr ?st" unfolding live_step_def Let_def using out(1) new(1) by simp
  moreover have "lives_ok N ?st"
    using ok l out(2) new(2) i set_update_subset_insert by (fastforce simp: lives_ok_def)
  moreover have "Out ?st i = members out" "In ?st i = members new" using l(1,2) i by simp_all
  ultimately show ?thesis using out(3) new(3) l by (intro exI [of _ ?st]) simp
qed

text \<open>After the instructions from \<open>k\<close> on have been visited, downwards.\<close>

lemma live_sweep_prefix:
  assumes f: "flow_ok N succs uses defs" and ok: "lives_ok N st" and "k \<le> N"
  shows "\<exists>st'. rfold (live_step succs uses defs) (rev [k..<N]) st = Inr st' \<and> lives_ok N st' \<and>
    (\<forall>j < k. lv_ins st' ! j = lv_ins st ! j \<and> lv_outs st' ! j = lv_outs st ! j) \<and>
    (\<forall>j \<in> {k..<N}. lv_ins_prime st' ! j = lv_ins st ! j \<and> lv_outs_prime st' ! j = lv_outs st ! j \<and>
      Out st' j = Out st j \<union> (\<Union>s \<in> set (succs ! j). if s > j then In st' s else In st s) \<and>
      In st' j = members (uses ! j) \<union> (Out st' j - members (defs ! j)))"
  using assms(3)
proof (induction rule: inc_induct)
  case base
  then show ?case using ok by simp
next
  case (step k)
  then obtain st1 where st1: "rfold (live_step succs uses defs) (rev [Suc k..<N]) st = Inr st1" "lives_ok N st1"
    "\<forall>j < Suc k. lv_ins st1 ! j = lv_ins st ! j \<and> lv_outs st1 ! j = lv_outs st ! j"
    "\<forall>j \<in> {Suc k..<N}. lv_ins_prime st1 ! j = lv_ins st ! j \<and> lv_outs_prime st1 ! j = lv_outs st ! j \<and>
      Out st1 j = Out st j \<union> (\<Union>s \<in> set (succs ! j). if s > j then In st1 s else In st s) \<and>
      In st1 j = members (uses ! j) \<union> (Out st1 j - members (defs ! j))" by blast
  have k: "k < N" by fact
  from live_step_ok [OF f st1(2) k] obtain st2 where st2: "live_step succs uses defs k st1 = Inr st2" "lives_ok N st2"
    "lv_ins_prime st2 = (lv_ins_prime st1)[k := lv_ins st1 ! k]" "lv_outs_prime st2 = (lv_outs_prime st1)[k := lv_outs st1 ! k]"
    "\<forall>j < N. j \<noteq> k \<longrightarrow> lv_ins st2 ! j = lv_ins st1 ! j \<and> lv_outs st2 ! j = lv_outs st1 ! j"
    "Out st2 k = Out st1 k \<union> (\<Union>s \<in> set (succs ! k). In st1 s)"
    "In st2 k = members (uses ! k) \<union> (Out st2 k - members (defs ! k))" by blast
  have r: "rfold (live_step succs uses defs) (rev [k..<N]) st = Inr st2"
    using k st1(1) st2(1) by (simp add: upt_conv_Cons rfold_append)
  have succ: "set (succs ! j) \<subseteq> {..<N}" if "j < N" for j using f that by (auto simp: flow_ok_def)
  have low: "\<forall>j < k. lv_ins st2 ! j = lv_ins st ! j \<and> lv_outs st2 ! j = lv_outs st ! j"
    using st1(3) st2(5) k by simp
  have at_k: "Out st2 k = Out st k \<union> (\<Union>s \<in> set (succs ! k). if s > k then In st2 s else In st s)"
  proof -
    have "In st1 s = (if s > k then In st2 s else In st s)" if "s \<in> set (succs ! k)" for s
      using that succ [OF k] st1(3) st2(5) by auto
    then show ?thesis using st2(6) st1(3) by simp
  qed
  have high: "Out st2 j = Out st j \<union> (\<Union>s \<in> set (succs ! j). if s > j then In st2 s else In st s) \<and>
      In st2 j = members (uses ! j) \<union> (Out st2 j - members (defs ! j))" if j: "j \<in> {Suc k..<N}" for j
  proof -
    have "(if s > j then In st1 s else In st s) = (if s > j then In st2 s else In st s)" if "s \<in> set (succs ! j)" for s
      using that succ [of j] j st2(5) by auto
    then have "(\<Union>s \<in> set (succs ! j). if s > j then In st1 s else In st s) = (\<Union>s \<in> set (succs ! j). if s > j then In st2 s else In st s)"
      by (rule SUP_cong [OF refl])
    then show ?thesis using st1(4) st2(5) j by simp
  qed
  have prime: "lv_ins_prime st2 ! j = lv_ins st ! j \<and> lv_outs_prime st2 ! j = lv_outs st ! j" if "j \<in> {k..<N}" for j
    using that st1(3,4) st2(3,4) lives_okD(3,4) [OF st1(2)] by (cases "j = k") auto
  have all: "lv_ins_prime st2 ! j = lv_ins st ! j \<and> lv_outs_prime st2 ! j = lv_outs st ! j \<and>
      Out st2 j = Out st j \<union> (\<Union>s \<in> set (succs ! j). if s > j then In st2 s else In st s) \<and>
      In st2 j = members (uses ! j) \<union> (Out st2 j - members (defs ! j))" if j: "j \<in> {k..<N}" for j
  proof (cases "j = k")
    case True
    then show ?thesis using prime [OF j] at_k st2(7) by simp
  next
    case False
    then show ?thesis using prime [OF j] high [of j] j by simp
  qed
  show ?case by (rule exI [of _ st2]) (intro conjI r st2(2) low ballI all)
qed

lemma sets_same_ok:
  assumes "lives_ok N st" and "set is \<subseteq> {..<N}"
  shows "sets_same st is = Inr (\<forall>i \<in> set is. In st i = members (lv_ins_prime st ! i) \<and> Out st i = members (lv_outs_prime st ! i))"
  using assms(2)
proof (induction "is")
  case Nil
  then show ?case by simp
next
  case (Cons i "is")
  then have i: "i < N" by simp
  note l = lives_okD(5-8) [OF assms(1) i]
  show ?case using Cons rs.same [OF l(1,3)] rs.same [OF l(2,4)] by simp
qed

text \<open>The equations every state between sweeps satisfies on one side, and a stable one on both.\<close>

definition bounded_state :: "nat \<Rightarrow> nat list list \<Rightarrow> RegisterSet list \<Rightarrow> RegisterSet list \<Rightarrow> LiveState \<Rightarrow> bool" where
  "bounded_state N succs uses defs st \<longleftrightarrow> lives_ok N st \<and> (\<forall>j < N. In st j \<subseteq> members (uses ! j) \<union> (Out st j - members (defs ! j)) \<and>
     (\<forall>r \<in> Out st j. live_out (\<lambda>n. set (succs ! n)) (\<lambda>n. members (uses ! n)) (\<lambda>n. members (defs ! n)) r j) \<and>
     (\<forall>r \<in> In st j. live (\<lambda>n. set (succs ! n)) (\<lambda>n. members (uses ! n)) (\<lambda>n. members (defs ! n)) r j))"

definition stable_state :: "nat \<Rightarrow> nat list list \<Rightarrow> RegisterSet list \<Rightarrow> RegisterSet list \<Rightarrow> LiveState \<Rightarrow> bool" where
  "stable_state N succs uses defs st \<longleftrightarrow> (\<forall>j < N. In st j = members (uses ! j) \<union> (Out st j - members (defs ! j)) \<and>
     (\<forall>s \<in> set (succs ! j). In st s \<subseteq> Out st j))"

definition state_size :: "nat \<Rightarrow> LiveState \<Rightarrow> nat" where
  "state_size N st = (\<Sum>j < N. card (In st j)) + (\<Sum>j < N. card (Out st j))"

lemma sum_card_less:
  assumes "\<And>j. j < N \<Longrightarrow> A j \<subseteq> B j" and "\<And>j. j < N \<Longrightarrow> finite (B j)"
  shows "(\<Sum>j < N. card (A j)) \<le> (\<Sum>j < (N :: nat). card (B j))"
    and "i < N \<Longrightarrow> A i \<noteq> B i \<Longrightarrow> (\<Sum>j < N. card (A j)) < (\<Sum>j < N. card (B j))"
proof -
  have le: "card (A j) \<le> card (B j)" if "j < N" for j using assms that by (simp add: card_mono)
  then show "(\<Sum>j < N. card (A j)) \<le> (\<Sum>j < N. card (B j))" by (intro sum_mono) simp
  assume i: "i < N" "A i \<noteq> B i"
  then have "card (A i) < card (B i)" using assms by (intro psubset_card_mono) auto
  then show "(\<Sum>j < N. card (A j)) < (\<Sum>j < N. card (B j))"
    using le i(1) by (intro sum_strict_mono_ex1) auto
qed

text \<open>A sweep keeps every set below the live registers, and either changes nothing or grows.\<close>

lemma live_sweep_ok:
  assumes f: "flow_ok N succs uses defs" and b: "bounded_state N succs uses defs st"
  shows "\<exists>st'. live_sweep succs uses defs N st = Inr st' \<and> bounded_state N succs uses defs st' \<and>
    (if lv_same st' then stable_state N succs uses defs st' else state_size N st < state_size N st')"
proof -
  let ?succ = "\<lambda>n. set (succs ! n)" and ?U = "\<lambda>n. members (uses ! n)" and ?D = "\<lambda>n. members (defs ! n)"
  have ok: "lives_ok N st" using b by (simp add: bounded_state_def)
  obtain st1 where r: "rfold (live_step succs uses defs) (rev [0..<N]) st = Inr st1" and ok1: "lives_ok N st1"
    and e: "\<And>j. j < N \<Longrightarrow> lv_ins_prime st1 ! j = lv_ins st ! j \<and> lv_outs_prime st1 ! j = lv_outs st ! j"
    and o: "\<And>j. j < N \<Longrightarrow> Out st1 j = Out st j \<union> (\<Union>s \<in> ?succ j. if s > j then In st1 s else In st s)"
    and i: "\<And>j. j < N \<Longrightarrow> In st1 j = ?U j \<union> (Out st1 j - ?D j)"
    using live_sweep_prefix [OF f ok, of 0] by auto
  have out_grows: "Out st j \<subseteq> Out st1 j" if "j < N" for j using o [OF that] by blast
  have in_grows: "In st j \<subseteq> In st1 j" if "j < N" for j
    using b i [OF that] out_grows [OF that] that unfolding bounded_state_def by blast
  have succ: "?succ j \<subseteq> {..<N}" if "j < N" for j using f that by (auto simp: flow_ok_def)
  have old: "live ?succ ?U ?D x j" if "x \<in> In st j" "j < N" for x j using b that by (simp add: bounded_state_def)
  have sound: "(\<forall>x \<in> In st1 j. live ?succ ?U ?D x j) \<and> (\<forall>x \<in> Out st1 j. live_out ?succ ?U ?D x j)" if "j < N" for j
    using that
  proof (induction "N - j" arbitrary: j rule: less_induct)
    case less
    have "live ?succ ?U ?D x s" if "s \<in> ?succ j" "x \<in> (if s > j then In st1 s else In st s)" for x s
    proof (cases "s > j")
      case True
      then show ?thesis using less.hyps [of s] that succ [OF less.prems] less.prems by auto
    next
      case False
      then show ?thesis using old [of x s] that succ [OF less.prems] by auto
    qed
    then have out: "\<forall>x \<in> Out st1 j. live_out ?succ ?U ?D x j"
      using b less.prems unfolding o [OF less.prems] bounded_state_def by (fastforce simp: live_out_def)
    then show ?case using i [OF less.prems] live_eq [of ?succ ?U ?D] by blast
  qed
  let ?same = "\<forall>j \<in> set [0..<N]. In st1 j = members (lv_ins_prime st1 ! j) \<and> Out st1 j = members (lv_outs_prime st1 ! j)"
  let ?st = "st1 \<lparr> lv_same := ?same \<rparr>"
  have run: "live_sweep succs uses defs N st = Inr ?st"
  proof -
    have q: "sets_same st1 [0..<N] = Inr ?same" by (rule sets_same_ok [OF ok1]) auto
    show ?thesis unfolding live_sweep_def r rbind_Inr q by (rule refl)
  qed
  have same: "?same \<longleftrightarrow> (\<forall>j < N. In st1 j = In st j \<and> Out st1 j = Out st j)" using e by auto
  have bounded: "bounded_state N succs uses defs ?st"
    using ok1 i sound by (simp add: bounded_state_def lives_ok_def)
  show ?thesis
  proof (cases ?same)
    case True
    then have eq: "\<And>j. j < N \<Longrightarrow> In st1 j = In st j" using same by blast
    have "In st1 s \<subseteq> Out st1 j" if "j < N" "s \<in> ?succ j" for j s
    proof -
      have "(if s > j then In st1 s else In st s) \<subseteq> Out st1 j"
        unfolding o [OF that(1)] using that(2) by (intro le_supI2 UN_upper)
      moreover have "In st1 s = In st s" using eq [of s] succ [OF that(1)] that(2) by blast
      ultimately show ?thesis by (cases "s > j") simp_all
    qed
    then have "stable_state N succs uses defs ?st" using i by (simp add: stable_state_def)
    then show ?thesis using run bounded True by auto
  next
    case False
    then obtain j where j: "j < N" "In st j \<noteq> In st1 j \<or> Out st j \<noteq> Out st1 j" unfolding same by auto
    have I: "(\<Sum>j < N. card (In st j)) \<le> (\<Sum>j < N. card (In st1 j))"
      "In st j \<noteq> In st1 j \<Longrightarrow> (\<Sum>j < N. card (In st j)) < (\<Sum>j < N. card (In st1 j))"
      using sum_card_less [of N "In st" "In st1"] in_grows j(1) by simp_all
    have O: "(\<Sum>j < N. card (Out st j)) \<le> (\<Sum>j < N. card (Out st1 j))"
      "Out st j \<noteq> Out st1 j \<Longrightarrow> (\<Sum>j < N. card (Out st j)) < (\<Sum>j < N. card (Out st1 j))"
      using sum_card_less [of N "Out st" "Out st1"] out_grows j(1) by simp_all
    have "state_size N ?st = (\<Sum>j < N. card (In st1 j)) + (\<Sum>j < N. card (Out st1 j))" by (simp add: state_size_def)
    then have "state_size N st < state_size N ?st"
      unfolding state_size_def using j(2) add_less_le_mono [OF I(2) O(1)] add_le_less_mono [OF I(1) O(2)] by metis
    then show ?thesis using run bounded False by auto
  qed
qed

text \<open>A stable state holds exactly the live registers.\<close>

lemma stable_live:
  assumes f: "flow_ok N succs uses defs" and b: "bounded_state N succs uses defs st" "stable_state N succs uses defs st" and "j < N"
  shows "x \<in> In st j \<longleftrightarrow> live (\<lambda>n. set (succs ! n)) (\<lambda>n. members (uses ! n)) (\<lambda>n. members (defs ! n)) x j"
    "x \<in> Out st j \<longleftrightarrow> live_out (\<lambda>n. set (succs ! n)) (\<lambda>n. members (uses ! n)) (\<lambda>n. members (defs ! n)) x j"
proof -
  let ?live = "live (\<lambda>n. set (succs ! n)) (\<lambda>n. members (uses ! n)) (\<lambda>n. members (defs ! n))"
  have succ: "set (succs ! k) \<subseteq> {..<N}" if "k < N" for k using f that by (auto simp: flow_ok_def)
  have eq: "In st k = members (uses ! k) \<union> (Out st k - members (defs ! k))" "\<And>s. s \<in> set (succs ! k) \<Longrightarrow> In st s \<subseteq> Out st k"
    if "k < N" for k using b(2) that by (simp_all add: stable_state_def)
  have complete: "x \<in> In st k" if "?live x k" "k < N" for k
    using that
  proof (induction rule: live.induct)
    case (live_use r n)
    then show ?case using eq(1) [of n] by simp
  next
    case (live_step m n r)
    then have "r \<in> In st m" using succ [of n] by auto
    then show ?case using live_step eq [of n] by blast
  qed
  show "x \<in> In st j \<longleftrightarrow> ?live x j" using complete [OF _ assms(4)] b(1) assms(4) by (auto simp: bounded_state_def)
  show "x \<in> Out st j \<longleftrightarrow> live_out (\<lambda>n. set (succs ! n)) (\<lambda>n. members (uses ! n)) (\<lambda>n. members (defs ! n)) x j"
  proof
    assume "x \<in> Out st j"
    then show "live_out (\<lambda>n. set (succs ! n)) (\<lambda>n. members (uses ! n)) (\<lambda>n. members (defs ! n)) x j"
      using b(1) assms(4) by (simp add: bounded_state_def)
  next
    assume "live_out (\<lambda>n. set (succs ! n)) (\<lambda>n. members (uses ! n)) (\<lambda>n. members (defs ! n)) x j"
    then obtain s where "s \<in> set (succs ! j)" "?live x s" by (auto simp: live_out_def)
    then show "x \<in> Out st j" using complete [of s] succ [OF assms(4)] eq(2) [OF assms(4)] by auto
  qed
qed

lemma live_loop_ok:
  assumes f: "flow_ok N succs uses defs"
  shows "\<exists>st. live_loop succs uses defs N = Some (Inr st) \<and> bounded_state N succs uses defs st \<and> stable_state N succs uses defs st"
proof -
  let ?b = "\<lambda>r. case r of Inl _ \<Rightarrow> False | Inr st \<Rightarrow> \<not> lv_same st"
  let ?c = "\<lambda>r. rbind r (live_sweep succs uses defs N)"
  let ?P = "\<lambda>r. \<exists>st. r = Inr st \<and> bounded_state N succs uses defs st \<and> (lv_same st \<longrightarrow> stable_state N succs uses defs st)"
  let ?B = "2 * N * (X86_FLAG_BITS + X86_ALU_REGS)"
  let ?f = "\<lambda>r. case r of Inl _ \<Rightarrow> 0 | Inr st \<Rightarrow> if lv_same st then 0 else Suc ?B - state_size N st"
  have size: "state_size N st \<le> ?B" if "lives_ok N st" for st
  proof -
    have "(\<Sum>j < N. card (In st j)) \<le> (\<Sum>j < N. X86_FLAG_BITS + X86_ALU_REGS)" "(\<Sum>j < N. card (Out st j)) \<le> (\<Sum>j < N. X86_FLAG_BITS + X86_ALU_REGS)"
      using rs.card_mem lives_okD(5,6) [OF that] by (intro sum_mono; simp)+
    then show ?thesis by (simp add: state_size_def)
  qed
  have step: "?P (?c r) \<and> ?f (?c r) < ?f r" if P: "?P r" and b: "?b r" for r
  proof -
    obtain st where st: "r = Inr st" "bounded_state N succs uses defs st" "\<not> lv_same st" using P b by auto
    obtain st' where st': "live_sweep succs uses defs N st = Inr st'" "bounded_state N succs uses defs st'"
      "if lv_same st' then stable_state N succs uses defs st' else state_size N st < state_size N st'"
      using live_sweep_ok [OF f st(2)] by blast
    have "state_size N st \<le> ?B" "state_size N st' \<le> ?B"
      using size st(2) st'(2) by (simp_all add: bounded_state_def)
    then show ?thesis using st st' by (auto split: if_splits)
  qed
  have good: "lives_ok N (live_start N)" by (simp add: lives_ok_def live_start_def Let_def RegisterSet_new_ok(1))
  have empty: "In (live_start N) j = {}" "Out (live_start N) j = {}" if "j < N" for j
    using that by (simp_all add: live_start_def Let_def RegisterSet_new_ok(2))
  have start: "?P (Inr (live_start N))"
    using good empty by (simp add: bounded_state_def) (simp add: live_start_def Let_def)
  have "\<exists>r. while_option ?b ?c (Inr (live_start N)) = Some r"
    by (rule measure_while_option_Some [where P = ?P and f = ?f, OF _ start]) (rule step)
  then obtain r where r: "while_option ?b ?c (Inr (live_start N)) = Some r" ..
  have "?P r" by (rule while_option_rule [where P = ?P, OF _ r start]) (rule conjunct1 [OF step])
  then show ?thesis using while_option_stop [OF r] r unfolding live_loop_def by auto
qed

section \<open>Numbering the instructions\<close>

lemma concat_nth_take:
  "i < length xss \<Longrightarrow> j < length (xss ! i) \<Longrightarrow>
    sum_list (map length (take i xss)) + j < length (concat xss) \<and> concat xss ! (sum_list (map length (take i xss)) + j) = xss ! i ! j"
proof (induction xss arbitrary: i)
  case (Cons xs xss)
  show ?case
  proof (cases i)
    case 0
    then show ?thesis using Cons.prems by (simp add: nth_append)
  next
    case (Suc k)
    then show ?thesis using Cons by (simp add: nth_append add.assoc)
  qed
qed simp

lemma concat_nth_ex:
  "n < length (concat xss) \<Longrightarrow> \<exists>i j. i < length xss \<and> j < length (xss ! i) \<and> n = sum_list (map length (take i xss)) + j"
proof (induction xss arbitrary: n)
  case (Cons xs xss)
  show ?case
  proof (cases "n < length xs")
    case True
    then show ?thesis by (intro exI [of _ 0] exI [of _ n]) simp
  next
    case False
    then have "n - length xs < length (concat xss)" using Cons.prems by simp
    then obtain i j where ij: "i < length xss" "j < length (xss ! i)" "n - length xs = sum_list (map length (take i xss)) + j"
      using Cons.IH by blast
    then show ?thesis using False by (intro exI [of _ "Suc i"] exI [of _ j]) simp
  qed
qed simp

definition icount :: "LiveBlock list \<Rightarrow> nat" where
  "icount bs = length (all_instructions bs)"

definition in_block :: "LiveBlock list \<Rightarrow> nat \<Rightarrow> nat \<Rightarrow> bool" where
  "in_block bs i j \<longleftrightarrow> i < length bs \<and> j < length (lb_instructions (bs ! i))"

lemma block_start_take: "block_start bs i = sum_list (map length (take i (map lb_instructions bs)))"
  by (simp add: block_start_def take_map comp_def)

lemma positions_map: "positions bs = concat (map (\<lambda>i. map (Pair i) [0..<length (map lb_instructions bs ! i)]) [0..<length bs])"
  unfolding positions_def by (rule arg_cong [of _ _ concat]) simp

lemma numbering:
  assumes "in_block bs i j"
  shows "block_start bs i + j < icount bs" "all_instructions bs ! (block_start bs i + j) = lb_instructions (bs ! i) ! j"
    "positions bs ! (block_start bs i + j) = (i, j)" "length (positions bs) = icount bs"
proof -
  have i: "i < length bs" "j < length (map lb_instructions bs ! i)" using assms by (simp_all add: in_block_def)
  show "block_start bs i + j < icount bs" "all_instructions bs ! (block_start bs i + j) = lb_instructions (bs ! i) ! j"
    using concat_nth_take [of i "map lb_instructions bs" j] i
    by (simp_all add: icount_def all_instructions_def block_start_take)
  let ?p = "map (\<lambda>i. map (Pair i) [0..<length (lb_instructions (bs ! i))]) [0..<length bs]"
  have l: "map length ?p = map length (map lb_instructions bs)" by (rule nth_equalityI) simp_all
  then have "map length (take i ?p) = map length (take i (map lb_instructions bs))" by (metis take_map)
  then show "positions bs ! (block_start bs i + j) = (i, j)"
    using concat_nth_take [of i ?p j] i by (simp add: positions_def block_start_take)
  show "length (positions bs) = icount bs"
    unfolding icount_def all_instructions_def positions_def length_concat l ..
qed

lemma numbered: "n < icount bs \<Longrightarrow> \<exists>i j. in_block bs i j \<and> n = block_start bs i + j"
  using concat_nth_ex [of n "map lb_instructions bs"] by (auto simp: icount_def all_instructions_def in_block_def block_start_take)

lemma numbering_unique:
  "in_block bs i j \<Longrightarrow> in_block bs i' j' \<Longrightarrow> block_start bs i + j = block_start bs i' + j' \<Longrightarrow> i = i' \<and> j = j'"
  using numbering(3) by (metis prod.inject)

text \<open>Control flows to the next instruction of the block, and from the last one to the first ones of the targets.\<close>

definition flows :: "LiveBlock list \<Rightarrow> (nat \<times> nat) set" where
  "flows bs = {(block_start bs i + j, block_start bs i + j + 1) | i j. in_block bs i (j + 1)} \<union>
     {(block_start bs i + j, block_start bs k) | i j k. in_block bs i j \<and> j + 1 = length (lb_instructions (bs ! i)) \<and>
        k \<in> set (lb_targets (bs ! i))}"

definition targets_ok :: "LiveBlock list \<Rightarrow> bool" where
  "targets_ok bs \<longleftrightarrow> (\<forall>b \<in> set bs. \<forall>k \<in> set (lb_targets b). k < length bs \<and> lb_instructions (bs ! k) \<noteq> [])"

lemma leader_succs_ok:
  assumes "\<forall>k \<in> set ts. lb_instructions (bs ! k) \<noteq> []"
  shows "\<exists>l. leader_succs bs ts = Inr l \<and> set l = block_start bs ` set ts"
proof -
  have "rfold (\<lambda>k l. ASSERT (lb_instructions (bs ! k) \<noteq> []) (Inr (l @ [block_start bs k]))) ts l = Inr (l @ map (block_start bs) ts)" for l
    using assms by (induction ts arbitrary: l) simp_all
  then show ?thesis by (simp add: leader_succs_def)
qed

lemma instruction_succs_ok:
  assumes t: "targets_ok bs" and b: "in_block bs i j"
  shows "\<exists>l. instruction_succs bs i j = Inr l \<and> set l = {m. (block_start bs i + j, m) \<in> flows bs} \<and> set l \<subseteq> {..<icount bs}"
proof (cases "j = length (lb_instructions (bs ! i)) - 1")
  case True
  then have j: "j + 1 = length (lb_instructions (bs ! i))" using b by (auto simp: in_block_def)
  have ts: "\<forall>k \<in> set (lb_targets (bs ! i)). k < length bs \<and> lb_instructions (bs ! k) \<noteq> []"
    using t b nth_mem [of i bs] unfolding targets_ok_def in_block_def by blast
  obtain l where l: "leader_succs bs (lb_targets (bs ! i)) = Inr l" "set l = block_start bs ` set (lb_targets (bs ! i))"
    using leader_succs_ok [of "lb_targets (bs ! i)" bs] ts by blast
  have "block_start bs k < icount bs" if "k \<in> set (lb_targets (bs ! i))" for k
    using numbering(1) [of bs k 0] ts that by (simp add: in_block_def)
  moreover have "(block_start bs i + j, m) \<in> flows bs \<longleftrightarrow> m \<in> block_start bs ` set (lb_targets (bs ! i))" for m
  proof
    assume "(block_start bs i + j, m) \<in> flows bs"
    then consider (fall) i' j' where "in_block bs i' (j' + 1)" "block_start bs i + j = block_start bs i' + j'"
      | (jump) i' j' k where "in_block bs i' j'" "block_start bs i + j = block_start bs i' + j'" "k \<in> set (lb_targets (bs ! i'))" "m = block_start bs k"
      unfolding flows_def by blast
    then show "m \<in> block_start bs ` set (lb_targets (bs ! i))"
    proof cases
      case fall
      then have "in_block bs i' j'" by (simp add: in_block_def)
      then show ?thesis using numbering_unique [OF b _ fall(2)] fall(1) j by (simp add: in_block_def)
    next
      case jump
      then show ?thesis using numbering_unique [OF b jump(1,2)] by blast
    qed
  next
    assume "m \<in> block_start bs ` set (lb_targets (bs ! i))"
    then show "(block_start bs i + j, m) \<in> flows bs" using b j unfolding flows_def by blast
  qed
  ultimately show ?thesis using l True by (auto simp: instruction_succs_def)
next
  case False
  then have j: "in_block bs i (j + 1)" using b by (auto simp: in_block_def)
  have "(block_start bs i + j, m) \<in> flows bs \<longleftrightarrow> m = block_start bs i + j + 1" for m
  proof
    assume "(block_start bs i + j, m) \<in> flows bs"
    then consider (fall) i' j' where "in_block bs i' (j' + 1)" "block_start bs i + j = block_start bs i' + j'" "m = block_start bs i' + j' + 1"
      | (jump) i' j' where "in_block bs i' j'" "block_start bs i + j = block_start bs i' + j'" "j' + 1 = length (lb_instructions (bs ! i'))"
      unfolding flows_def by blast
    then show "m = block_start bs i + j + 1"
    proof cases
      case jump
      then show ?thesis using numbering_unique [OF b jump(1,2)] False by simp
    qed simp
  next
    assume "m = block_start bs i + j + 1"
    then show "(block_start bs i + j, m) \<in> flows bs" using j unfolding flows_def by blast
  qed
  then show ?thesis using False numbering(1) [OF j] by (auto simp: instruction_succs_def)
qed

section \<open>The analysis as a whole\<close>

lemma all_succs_ok:
  assumes "targets_ok bs"
  shows "\<exists>succs. all_succs bs = Inr succs \<and> length succs = icount bs \<and>
    (\<forall>n < icount bs. set (succs ! n) = {m. (n, m) \<in> flows bs} \<and> set (succs ! n) \<subseteq> {..<icount bs})"
proof (cases "icount bs = 0")
  case True
  have "positions bs = []"
  proof (rule ccontr)
    assume "positions bs \<noteq> []"
    then obtain i j where "(i, j) \<in> set (positions bs)" by (metis list.set_sel(1) surj_pair)
    then have "in_block bs i j" by (auto simp: positions_def in_block_def)
    from numbering(1) [OF this] True show False by simp
  qed
  then show ?thesis using True by (simp add: all_succs_def)
next
  case False
  let ?f = "\<lambda>(i, j) succs. rbind (instruction_succs bs i j) (\<lambda>s. Inr (succs @ [s]))"
  let ?g = "\<lambda>(i, j). projr (instruction_succs bs i j)"
  have run: "rfold ?f ps l = Inr (l @ map ?g ps)" if "\<forall>(i, j) \<in> set ps. in_block bs i j" for ps l
    using that
  proof (induction ps arbitrary: l)
    case (Cons p ps)
    obtain i j where p: "p = (i, j)" by fastforce
    then obtain s where "instruction_succs bs i j = Inr s" using instruction_succs_ok [OF assms, of i j] Cons.prems by auto
    then show ?case using Cons p by simp
  qed simp
  have in_pos: "\<forall>(i, j) \<in> set (positions bs). in_block bs i j" by (auto simp: positions_def in_block_def)
  define succs where "succs = map ?g (positions bs)"
  from run [OF in_pos, of "[]"] have "all_succs bs = Inr succs" by (simp add: all_succs_def succs_def)
  moreover have len: "length (positions bs) = icount bs"
    using False numbered [of 0 bs] numbering(4) by auto
  moreover have "set (succs ! n) = {m. (n, m) \<in> flows bs} \<and> set (succs ! n) \<subseteq> {..<icount bs}"
    if n: "n < icount bs" for n
  proof -
    obtain i j where ij: "in_block bs i j" "n = block_start bs i + j" using numbered [OF n] by blast
    then obtain l where l: "instruction_succs bs i j = Inr l" "set l = {m. (n, m) \<in> flows bs}" "set l \<subseteq> {..<icount bs}"
      using instruction_succs_ok [OF assms ij(1)] by blast
    then show ?thesis using n len numbering(3) [OF ij(1)] ij(2) by (simp add: succs_def)
  qed
  moreover have "length succs = icount bs" using len by (simp add: succs_def)
  ultimately show ?thesis by blast
qed

definition live_input :: "LiveBlock list \<Rightarrow> bool" where
  "live_input bs \<longleftrightarrow> targets_ok bs \<and> (\<forall>b \<in> set bs. \<forall>x \<in> set (lb_instructions b).
     rs_good (li_used x) \<and> rs_good (li_defined x) \<and> li_liveIns x = None \<and> li_liveOuts x = None)"

abbreviation "used_at bs n \<equiv> members (li_used (all_instructions bs ! n))"
abbreviation "defined_at bs n \<equiv> members (li_defined (all_instructions bs ! n))"

text \<open>The specification: liveness along \<open>flows\<close>.\<close>

definition live_before :: "LiveBlock list \<Rightarrow> nat \<Rightarrow> nat \<Rightarrow> bool" where
  "live_before bs r n \<longleftrightarrow> live (\<lambda>n. {m. (n, m) \<in> flows bs}) (used_at bs) (defined_at bs) r n"

definition live_after :: "LiveBlock list \<Rightarrow> nat \<Rightarrow> nat \<Rightarrow> bool" where
  "live_after bs r n \<longleftrightarrow> (\<exists>m. (n, m) \<in> flows bs \<and> live_before bs r m)"

lemma live_cong:
  assumes "\<And>n. n < N \<Longrightarrow> succ n = succ' n \<and> succ n \<subseteq> {..<N} \<and> U n = U' n \<and> D n = D' n" and "n < N"
  shows "live succ U D r n \<longleftrightarrow> live succ' U' D' r n"
proof -
  have "live succ' U' D' r n" if "live succ U D r n" "n < N"
      "\<And>n. n < N \<Longrightarrow> succ n = succ' n \<and> succ n \<subseteq> {..<N} \<and> U n = U' n \<and> D n = D' n" for succ U D succ' U' D'
    using that
  proof (induction rule: live.induct)
    case (live_use r n)
    then show ?case by (auto intro: live.live_use)
  next
    case (live_step m n r)
    then have "m \<in> succ' n" "r \<notin> D' n" "m < N" by blast+
    then show ?case using live_step by (blast intro: live.live_step)
  qed
  from this [of succ U D succ' U' D'] this [of succ' U' D' succ U D] show ?thesis using assms by metis
qed

lemma computeLiveness_ok:
  assumes "live_input bs"
  shows "\<exists>ins outs. computeLiveness bs = Inr (set_live ins outs bs) \<and> (\<forall>n < icount bs.
    rs_good (ins ! n) \<and> members (ins ! n) = {r. live_before bs r n} \<and>
    rs_good (outs ! n) \<and> members (outs ! n) = {r. live_after bs r n})"
proof -
  let ?N = "icount bs" and ?U = "map li_used (all_instructions bs)" and ?D = "map li_defined (all_instructions bs)"
  obtain succs where s: "all_succs bs = Inr succs" "length succs = ?N"
    "\<forall>n < ?N. set (succs ! n) = {m. (n, m) \<in> flows bs} \<and> set (succs ! n) \<subseteq> {..<?N}"
    using all_succs_ok [of bs] assms unfolding live_input_def by blast
  have all: "\<forall>x \<in> set (all_instructions bs). rs_good (li_used x) \<and> rs_good (li_defined x) \<and> li_liveIns x = None \<and> li_liveOuts x = None"
    using assms by (auto simp: live_input_def all_instructions_def)
  have f: "flow_ok ?N succs ?U ?D"
  proof -
    have "set x \<subseteq> {..<?N}" if "x \<in> set succs" for x using that s(2,3) by (metis in_set_conv_nth)
    then show ?thesis using s(2) all by (simp add: flow_ok_def icount_def ball_Un)
  qed
  obtain st where st: "live_loop succs ?U ?D ?N = Some (Inr st)" "bounded_state ?N succs ?U ?D st" "stable_state ?N succs ?U ?D st"
    using live_loop_ok [OF f] by blast
  have "computeLiveness bs = Inr (set_live (lv_ins st) (lv_outs st) bs)"
    using s(1) st(1) all by (simp add: computeLiveness_def icount_def)
  moreover have good: "lives_ok ?N st" using st(2) by (simp add: bounded_state_def)
  have lb: "live (\<lambda>n. set (succs ! n)) (\<lambda>n. members (?U ! n)) (\<lambda>n. members (?D ! n)) r n \<longleftrightarrow> live_before bs r n" if "n < ?N" for r n
    unfolding live_before_def using s(3) that by (intro live_cong [of ?N]) (auto simp: icount_def)
  have "members (lv_ins st ! n) = {r. live_before bs r n} \<and> members (lv_outs st ! n) = {r. live_after bs r n}" if n: "n < ?N" for n
  proof -
    have "live_out (\<lambda>n. set (succs ! n)) (\<lambda>n. members (?U ! n)) (\<lambda>n. members (?D ! n)) r n \<longleftrightarrow> live_after bs r n" for r
      using lb s(3) n unfolding live_out_def live_after_def by blast
    then show ?thesis using stable_live [OF f st(2,3) n] lb [OF n] by blast
  qed
  moreover have "rs_good (lv_ins st ! n)" "rs_good (lv_outs st ! n)" if "n < ?N" for n
    using lives_okD(5,6) [OF good that] .
  ultimately show ?thesis by blast
qed

section \<open>Dead registers of a function\<close>

text \<open>\<open>Function::findDeadRegs\<close> stops early when no register is left; \<open>getDeadGPR\<close> picks the one with the given number.\<close>

definition drop_live :: "LiveInstruction \<Rightarrow> BitSet \<Rightarrow> BitSet" where
  "drop_live x d = fold (\<lambda>j d. if \<not> isRegDeadIn x (of_nat j) \<or> \<not> isRegDeadOut x (of_nat j) then bs_remove j d else d)
     [0..<X86_64BIT_GPRS] d"

fun dead_loop :: "LiveInstruction list \<Rightarrow> BitSet \<Rightarrow> BitSet" where
  "dead_loop [] d = d"
| "dead_loop (x # xs) d = (let d = drop_live x d in if bs_empty d then d else dead_loop xs d)"

definition findDeadRegs :: "LiveInstruction list \<Rightarrow> BitSet" where
  "findDeadRegs xs = dead_loop xs (bs_setall (new_BitSet X86_64BIT_GPRS))"

fun pick_dead :: "BitSet \<Rightarrow> nat list \<Rightarrow> nat \<Rightarrow> nat \<Rightarrow> nat" where
  "pick_dead d [] n idx = X86_64BIT_GPRS"
| "pick_dead d (j # js) n idx = (if bs_contains d j then (if n = idx then j else pick_dead d js (n + 1) idx)
     else pick_dead d js n idx)"

definition getDeadGPR :: "LiveInstruction list \<Rightarrow> BitSet option \<Rightarrow> nat \<Rightarrow> nat \<times> BitSet option" where
  "getDeadGPR xs deadRegs idx = (
     let d = (case deadRegs of None \<Rightarrow> findDeadRegs xs | Some d \<Rightarrow> d) in
     (pick_dead d [0..<X86_64BIT_GPRS] 0 idx, Some d))"

definition reg_dead :: "LiveInstruction \<Rightarrow> nat \<Rightarrow> bool" where
  "reg_dead x j \<longleftrightarrow> isRegDeadIn x (of_nat j) \<and> isRegDeadOut x (of_nat j)"

lemma drop_live_ok:
  assumes "bs_ok d"
  shows "bs_ok (drop_live x d)" "members (drop_live x d) = members d - {j. j < X86_64BIT_GPRS \<and> \<not> reg_dead x j}"
proof -
  have "bs_ok (fold (\<lambda>j d. if \<not> isRegDeadIn x (of_nat j) \<or> \<not> isRegDeadOut x (of_nat j) then bs_remove j d else d) js d) \<and>
     members (fold (\<lambda>j d. if \<not> isRegDeadIn x (of_nat j) \<or> \<not> isRegDeadOut x (of_nat j) then bs_remove j d else d) js d) =
     members d - {j \<in> set js. \<not> reg_dead x j}" for js
    using assms
  proof (induction js arbitrary: d)
    case (Cons j js)
    then show ?case using Cons.IH [of "bs_remove j d"] bs.ok_rem [OF Cons.prems, of j] bs.abs_rem [OF Cons.prems, of j]
      by (auto simp: reg_dead_def)
  qed simp
  from this [of "[0..<X86_64BIT_GPRS]"]
  show "bs_ok (drop_live x d)" "members (drop_live x d) = members d - {j. j < X86_64BIT_GPRS \<and> \<not> reg_dead x j}"
    by (auto simp: drop_live_def)
qed

lemma dead_loop_ok:
  assumes "bs_ok d" and "members d \<subseteq> {..<X86_64BIT_GPRS}"
  shows "members (dead_loop xs d) = {j \<in> members d. \<forall>x \<in> set xs. reg_dead x j}"
  using assms
proof (induction xs arbitrary: d)
  case Nil
  then show ?case by simp
next
  case (Cons x xs)
  note d = drop_live_ok [OF Cons.prems(1), of x]
  have m: "members (drop_live x d) = {j \<in> members d. reg_dead x j}" using d(2) Cons.prems(2) by auto
  show ?case
  proof (cases "bs_empty (drop_live x d)")
    case True
    then have "card (members (drop_live x d)) = 0" using bs_size_card [OF d(1)] by (simp add: bs_empty_def bs_size_def)
    then have "members (drop_live x d) = {}" by simp
    then show ?thesis using m True by (auto simp: Let_def)
  next
    case False
    then show ?thesis using Cons.IH [OF d(1)] m Cons.prems(2) by (auto simp: Let_def)
  qed
qed

lemma findDeadRegs_ok: "members (findDeadRegs xs) = {j. j < X86_64BIT_GPRS \<and> (\<forall>x \<in> set xs. reg_dead x j)}"
proof -
  have n: "bs_ok (new_BitSet X86_64BIT_GPRS)" "maximum (new_BitSet X86_64BIT_GPRS) = X86_64BIT_GPRS"
    by (simp_all add: new_ok X86_64BIT_GPRS_def)
  have s: "members (bs_setall (new_BitSet X86_64BIT_GPRS)) = {..<X86_64BIT_GPRS}"
    using setall_members(1) [OF n(1)] n(2) by simp
  show ?thesis unfolding findDeadRegs_def
    by (subst dead_loop_ok [OF setall_members(2) [OF n(1)]]) (auto simp: s)
qed

lemma pick_dead_filter:
  "n \<le> idx \<Longrightarrow> pick_dead d js n idx =
    (if idx - n < length (filter (bs_contains d) js) then filter (bs_contains d) js ! (idx - n) else X86_64BIT_GPRS)"
proof (induction js arbitrary: n)
  case (Cons j js)
  show ?case
  proof (cases "bs_contains d j \<and> n \<noteq> idx")
    case True
    then have "idx - n = Suc (idx - (n + 1))" using Cons.prems by arith
    then show ?thesis using Cons.IH [of "n + 1"] Cons.prems True by simp
  next
    case False
    then show ?thesis using Cons by auto
  qed
qed simp

section \<open>Properties\<close>

text \<open>
  C5. \<open>computeLiveness\<close> ends, whatever the control flow, and then a register or flag counts as dead
  before (after) an instruction exactly when no path from there reaches a use of it
  before a definition of it.
\<close>

theorem computeLiveness_live:
  assumes "live_input bs"
  shows "\<exists>bs'. computeLiveness bs = Inr bs' \<and> map lb_targets bs' = map lb_targets bs \<and>
    (\<forall>i < length bs. length (lb_instructions (bs' ! i)) = length (lb_instructions (bs ! i)) \<and>
      (\<forall>j < length (lb_instructions (bs ! i)). \<forall>r < X86_ALU_REGS. \<forall>f < X86_FLAG_BITS.
        (let x = lb_instructions (bs' ! i) ! j; n = block_start bs i + j in
          (isRegDeadIn x (of_nat r) \<longleftrightarrow> \<not> live_before bs (X86_FLAG_BITS + r) n) \<and>
          (isRegDeadOut x (of_nat r) \<longleftrightarrow> \<not> live_after bs (X86_FLAG_BITS + r) n) \<and>
          (isFlagDeadIn x (of_nat f) \<longleftrightarrow> \<not> live_before bs f n) \<and>
          (isFlagDeadOut x (of_nat f) \<longleftrightarrow> \<not> live_after bs f n))))"
proof -
  obtain ins outs where r: "computeLiveness bs = Inr (set_live ins outs bs)"
    and m: "\<And>n. n < icount bs \<Longrightarrow> members (ins ! n) = {r. live_before bs r n} \<and> members (outs ! n) = {r. live_after bs r n}"
    using computeLiveness_ok [OF assms] by blast
  have "map lb_targets (set_live ins outs bs) = map lb_targets bs"
    by (rule nth_equalityI) (simp_all add: set_live_def)
  moreover have "length (lb_instructions (set_live ins outs bs ! i)) = length (lb_instructions (bs ! i))" if "i < length bs" for i
    using that by (simp add: set_live_def)
  moreover have "let x = lb_instructions (set_live ins outs bs ! i) ! j; n = block_start bs i + j in
          (isRegDeadIn x (of_nat r) \<longleftrightarrow> \<not> live_before bs (X86_FLAG_BITS + r) n) \<and>
          (isRegDeadOut x (of_nat r) \<longleftrightarrow> \<not> live_after bs (X86_FLAG_BITS + r) n) \<and>
          (isFlagDeadIn x (of_nat f) \<longleftrightarrow> \<not> live_before bs f n) \<and>
          (isFlagDeadOut x (of_nat f) \<longleftrightarrow> \<not> live_after bs f n)"
    if "i < length bs" "j < length (lb_instructions (bs ! i))" "r < X86_ALU_REGS" "f < X86_FLAG_BITS" for i j r f
  proof -
    have n: "block_start bs i + j < icount bs" using numbering(1) [of bs i j] that(1,2) by (simp add: in_block_def)
    have x: "li_liveIns (lb_instructions (set_live ins outs bs ! i) ! j) = Some (ins ! (block_start bs i + j))"
      "li_liveOuts (lb_instructions (set_live ins outs bs ! i) ! j) = Some (outs ! (block_start bs i + j))"
      using that(1,2) by (simp_all add: set_live_def)
    show ?thesis
      using m [OF n] contains_members(1) [OF that(3)] contains_members(2) [OF that(4)]
      by (simp add: Let_def x isRegDeadIn_def isRegDeadOut_def isFlagDeadIn_def isFlagDeadOut_def)
  qed
  ultimately show ?thesis using r by blast
qed

text \<open>A block that uses register 3 and jumps to itself.\<close>

definition spin_block :: LiveBlock where
  "spin_block = \<lparr> lb_instructions = [\<lparr> li_used = addRegister 3 RegisterSet_new, li_defined = RegisterSet_new,
     li_liveIns = None, li_liveOuts = None \<rparr>], lb_targets = [0] \<rparr>"

lemma spin_block_ok: "live_input [spin_block]" "live_before [spin_block] 35 0"
proof -
  show "live_input [spin_block]"
    by (simp add: live_input_def targets_ok_def spin_block_def add_good RegisterSet_new_ok)
  have "members (addRegister (of_nat 3) RegisterSet_new) = {35}"
    using members_add(1) [OF RegisterSet_new_ok(1), of 3] by (simp add: X86_ALU_REGS_value X86_FLAG_BITS_def RegisterSet_new_ok)
  then show "live_before [spin_block] 35 0"
    unfolding live_before_def by (intro live.live_use) (simp add: all_instructions_def spin_block_def)
qed

theorem computeLiveness_live_witness:
  "\<exists>bs'. computeLiveness [spin_block] = Inr bs' \<and> \<not> isRegDeadIn (lb_instructions (bs' ! 0) ! 0) 3"
proof -
  from computeLiveness_live [OF spin_block_ok(1)]
  obtain bs' where r: "computeLiveness [spin_block] = Inr bs'"
    and h: "\<forall>i < length [spin_block]. length (lb_instructions (bs' ! i)) = length (lb_instructions ([spin_block] ! i)) \<and>
      (\<forall>j < length (lb_instructions ([spin_block] ! i)). \<forall>r < X86_ALU_REGS. \<forall>f < X86_FLAG_BITS.
        (let x = lb_instructions (bs' ! i) ! j; n = block_start [spin_block] i + j in
          (isRegDeadIn x (of_nat r) \<longleftrightarrow> \<not> live_before [spin_block] (X86_FLAG_BITS + r) n) \<and>
          (isRegDeadOut x (of_nat r) \<longleftrightarrow> \<not> live_after [spin_block] (X86_FLAG_BITS + r) n) \<and>
          (isFlagDeadIn x (of_nat f) \<longleftrightarrow> \<not> live_before [spin_block] f n) \<and>
          (isFlagDeadOut x (of_nat f) \<longleftrightarrow> \<not> live_after [spin_block] f n)))" by blast
  have "0 < length (lb_instructions ([spin_block] ! 0))" "(3::nat) < X86_ALU_REGS" "(0::nat) < X86_FLAG_BITS"
    by (simp_all add: spin_block_def X86_ALU_REGS_value X86_FLAG_BITS_def)
  with h have "isRegDeadIn (lb_instructions (bs' ! 0) ! 0) (of_nat 3) \<longleftrightarrow> \<not> live_before [spin_block] (X86_FLAG_BITS + 3) (block_start [spin_block] 0 + 0)"
    unfolding Let_def by (metis length_Cons zero_less_Suc)
  then show ?thesis using r spin_block_ok(2) by (simp add: X86_FLAG_BITS_def block_start_def)
qed

text \<open>
  C29. \<open>getDeadGPR\<close> returns, in increasing order of its index, the registers that are dead before and
  after every instruction of the function, and 16 when there are no more; a second call reuses the set.
\<close>

theorem getDeadGPR_dead:
  "let dead = filter (\<lambda>j. \<forall>x \<in> set xs. isRegDeadIn x (of_nat j) \<and> isRegDeadOut x (of_nat j)) [0..<16] in
   fst (getDeadGPR xs None idx) = (if idx < length dead then dead ! idx else 16) \<and>
   getDeadGPR xs (snd (getDeadGPR xs None idx)) k = getDeadGPR xs None k"
proof -
  have "filter (bs_contains (findDeadRegs xs)) [0..<16] = filter (\<lambda>j. \<forall>x \<in> set xs. isRegDeadIn x (of_nat j) \<and> isRegDeadOut x (of_nat j)) [0..<16]"
    by (rule filter_cong) (simp_all add: bs.abs_has findDeadRegs_ok reg_dead_def X86_64BIT_GPRS_def)
  then show ?thesis
    using pick_dead_filter [of 0 idx "findDeadRegs xs" "[0..<16]"] by (simp add: getDeadGPR_def Let_def X86_64BIT_GPRS_def)
qed

text \<open>The same instruction after the analysis: register 3 is live before it.\<close>

definition spin_live :: LiveInstruction where
  "spin_live = \<lparr> li_used = addRegister 3 RegisterSet_new, li_defined = RegisterSet_new,
     li_liveIns = Some (addRegister 3 RegisterSet_new), li_liveOuts = Some RegisterSet_new \<rparr>"

lemma spin_live_dead: "fst (getDeadGPR [spin_live] None 3) = 4"
  by code_simp

theorem getDeadGPR_dead_witness:
  "getDeadGPR [spin_live] (snd (getDeadGPR [spin_live] None 3)) 5 = getDeadGPR [spin_live] None 5 \<and>
   fst (getDeadGPR [spin_live] None 3) = 4"
  using getDeadGPR_dead [of "[spin_live]" 3 5] spin_live_dead by (simp add: Let_def)

end
