(* ===== verification/Elf_Strings.thy ===== *)
theory Elf_Strings
  imports Pebil_Prelude
begin

text \<open>
  String tables of an executable: the class \<open>StringTable\<close> of \<open>src/StringTable.C\<close>. A string is the list of
  its bytes without the terminating zero; reading one that is not terminated runs out of the
  table.
\<close>

section \<open>The table\<close>

type_synonym cstring = "byte list"

text \<open>The buffer and its size as the class keeps it, a 32-bit number that wraps around.\<close>

record StringTable =
  strings :: "byte list"
  st_sizeInBytes :: u32

fun c_string :: "byte list \<Rightarrow> cstring res" where
  "c_string [] = Inl OutOfBounds"
| "c_string (b # bs) = (if b = 0 then Inr [] else rbind (c_string bs) (\<lambda>s. Inr (b # s)))"

definition getString :: "StringTable \<Rightarrow> u32 \<Rightarrow> cstring res" where
  "getString t offset = ASSERT (offset < st_sizeInBytes t) (c_string (drop (unat offset) (strings t)))"

definition addString :: "cstring \<Rightarrow> StringTable \<Rightarrow> u32 \<times> StringTable" where
  "addString name t = (st_sizeInBytes t, t \<lparr> strings := take (unat (st_sizeInBytes t)) (strings t) @ name @ [0],
     st_sizeInBytes := st_sizeInBytes t + of_nat (length name + 1) \<rparr>)"

text \<open>\<open>read\<close> makes the two agree; a table that is to take one more string must stay below 4 GB.\<close>

definition table_ok :: "StringTable \<Rightarrow> bool" where
  "table_ok t \<longleftrightarrow> unat (st_sizeInBytes t) = length (strings t)"

definition has_room :: "cstring \<Rightarrow> StringTable \<Rightarrow> bool" where
  "has_room name t \<longleftrightarrow> table_ok t \<and> length (strings t) + length name + 1 < 2 ^ 32"

section \<open>Lemmas\<close>

lemma c_string_append: "c_string bs = Inr s \<Longrightarrow> c_string (bs @ cs) = Inr s"
  by (induction bs arbitrary: s) (auto simp: rbind_eq_Inr split: if_splits)

lemma c_string_terminated: "0 \<notin> set s \<Longrightarrow> c_string (s @ 0 # bs) = Inr s"
  by (induction s) auto

lemma c_string_nonzero: "c_string bs = Inr s \<Longrightarrow> 0 \<notin> set s"
  by (induction bs arbitrary: s) (auto simp: rbind_eq_Inr split: if_splits)

lemma c_string_ok: "(\<exists>s. c_string bs = Inr s) \<longleftrightarrow> 0 \<in> set bs"
  by (induction bs) (auto simp: rbind_eq_Inr)

lemma getString_nonzero: "getString t off = Inr s \<Longrightarrow> 0 \<notin> set s"
  by (auto simp: getString_def dest: c_string_nonzero)

lemma addString_room:
  assumes "has_room name t"
  shows "strings (snd (addString name t)) = strings t @ name @ [0]"
    "unat (st_sizeInBytes (snd (addString name t))) = length (strings t) + length name + 1"
  using assms by (simp_all add: has_room_def table_ok_def addString_def unat_word_ariths unat_of_nat)

lemma getString_old:
  assumes "getString t off = Inr s" and "has_room name t"
  shows "getString (snd (addString name t)) off = Inr s"
proof -
  have o: "unat off < length (strings t)" "c_string (drop (unat off) (strings t)) = Inr s"
    using assms by (auto simp: getString_def has_room_def table_ok_def word_less_nat_alt ASSERT_eq_Inr)
  then show ?thesis using addString_room [OF assms(2)] c_string_append [OF o(2), of "name @ [0]"]
    by (simp add: getString_def word_less_nat_alt)
qed

lemma getString_new:
  assumes "0 \<notin> set name" and "has_room name t"
  shows "getString (snd (addString name t)) (fst (addString name t)) = Inr name"
proof -
  have "unat (fst (addString name t)) = length (strings t)" using assms(2) by (simp add: addString_def has_room_def table_ok_def)
  then show ?thesis using addString_room [OF assms(2)] c_string_terminated [OF assms(1), of "[]"]
    by (simp add: getString_def word_less_nat_alt)
qed

section \<open>Property\<close>

text \<open>
  C31. In a string table whose size and buffer agree and which stays below 4 GB, a string that is
  added is read back at the offset \<open>addString\<close> returns, every string that could be read before is
  read at its offset as before, and size and buffer agree again.
\<close>

theorem addString_getString:
  assumes "0 \<notin> set name" and "table_ok t" and "length (strings t) + length name + 1 < 2 ^ 32" and "addString name t = (off, t')"
  shows "getString t' off = Inr name \<and> (\<forall>o' s. getString t o' = Inr s \<longrightarrow> getString t' o' = Inr s) \<and> table_ok t'"
proof -
  have h: "has_room name t" using assms(2,3) by (simp add: has_room_def)
  have "table_ok (snd (addString name t))" using addString_room [OF h] by (simp add: table_ok_def)
  then show ?thesis using getString_new [OF assms(1) h] getString_old [OF _ h] assms(4) by simp
qed

theorem addString_getString_witness:
  "getString \<lparr> strings = [0, 97, 0, 98, 99, 0], st_sizeInBytes = 6 \<rparr> 3 = Inr [98, 99] \<and>
   getString \<lparr> strings = [0, 97, 0, 98, 99, 0], st_sizeInBytes = 6 \<rparr> 1 = Inr [97]"
proof -
  let ?t = "\<lparr> strings = [0, 97, 0], st_sizeInBytes = 3 \<rparr>" and ?u = "\<lparr> strings = [0, 97, 0, 98, 99, 0], st_sizeInBytes = 6 \<rparr>"
  have "addString [98, 99] ?t = (3, ?u)" by (simp add: addString_def)
  moreover have "getString ?t 1 = Inr [97]" "table_ok ?t" by (simp_all add: getString_def table_ok_def)
  ultimately show ?thesis using addString_getString [of "[98, 99]" ?t 3 ?u] by simp
qed

text \<open>At the limit the size wraps around to 0, and the string just added cannot be read.\<close>

lemma addString_wraps:
  assumes "st_sizeInBytes t = - 1" and "name = []"
  shows "getString (snd (addString name t)) (fst (addString name t)) = Inl AssertFailed"
  using assms by (simp add: addString_def getString_def)

end
