(* ===== verification/Elf_Symbols.thy ===== *)
theory Elf_Symbols
  imports Elf_Strings
begin

text \<open>
  Symbols and relocations of an executable: \<open>src/SymbolTable.C\<close>, \<open>src/RelocationTable.C\<close>, the version
  table of \<open>src/GnuVersion.C\<close>, and the hash functions of \<open>include/CStructuresElf.h\<close>. A symbol is in its
  table once, so the vector of pointers is a list of records.
\<close>

section \<open>Hash functions of names\<close>

text \<open>\<open>*name++\<close> is a \<open>char\<close>, which is signed on this machine.\<close>

definition sysv_step :: "byte \<Rightarrow> u32 \<Rightarrow> u32" where
  "sysv_step c h = (let h = push_bit 4 h + scast c; g = h AND 0xf0000000;
     h = (if g \<noteq> 0 then h XOR drop_bit 24 g else h) in h AND NOT g)"

definition elf_sysv_hash :: "cstring \<Rightarrow> u32" where
  "elf_sysv_hash name = fold sysv_step name 0"

definition elf_gnu_hash :: "cstring \<Rightarrow> u32" where
  "elf_gnu_hash name = fold (\<lambda>c h. h * 33 + ucast c) name 5381 AND 0xffffffff"

section \<open>Symbols\<close>

record Symbol =
  sym_index :: u32
  st_name :: u32
  st_info :: byte
  st_other :: byte
  st_shndx :: u16
  st_value :: u64
  st_size :: u64

record SymbolTable =
  symbols :: "Symbol list"
  stringTable :: "StringTable option"
  dynamic :: bool
  symtab_section :: nat
  symbolSize :: nat
  symtab_size :: nat

definition symbol_without_name :: cstring where
  "symbol_without_name = map of_char ''<__no_name__pebil>''"

definition STB_LOCAL :: byte where "STB_LOCAL = 0"
definition STT_FILE :: byte where "STT_FILE = 4"
definition STT_LOPROC :: byte where "STT_LOPROC = 13"
definition STT_HIPROC :: byte where "STT_HIPROC = 15"
definition SHN_ABS :: u16 where "SHN_ABS = 0xfff1"

definition ELF_ST_INFO :: "byte \<Rightarrow> byte \<Rightarrow> byte" where
  "ELF_ST_INFO bind type = push_bit 4 bind + (type AND 15)"

definition getSymbolBinding :: "Symbol \<Rightarrow> byte" where
  "getSymbolBinding s = drop_bit 4 (st_info s)"

definition getSymbolType :: "Symbol \<Rightarrow> byte" where
  "getSymbolType s = st_info s AND 15"

definition getSymbolName :: "SymbolTable \<Rightarrow> nat \<Rightarrow> cstring res" where
  "getSymbolName t idx = (case stringTable t of None \<Rightarrow> Inl AssertFailed
   | Some st \<Rightarrow> ASSERT (idx < length (symbols t))
       (if st_name (symbols t ! idx) = 0 then Inr symbol_without_name else getString st (st_name (symbols t ! idx))))"

text \<open>A table whose symbols have readable names.\<close>

definition symtab_names :: "SymbolTable \<Rightarrow> cstring list \<Rightarrow> bool" where
  "symtab_names t names \<longleftrightarrow> length names = length (symbols t) \<and> length names < 2 ^ 32 \<and>
     (\<forall>i < length names. getSymbolName t i = Inr (names ! i))"

text \<open>\<open>verify\<close> stops the run (\<open>PRINT_ERROR\<close>) on a bad symbol; symbol 0 is not looked at.\<close>

definition symbol_verify :: "Symbol \<Rightarrow> bool" where
  "symbol_verify s \<longleftrightarrow> (getSymbolType s = STT_FILE \<longrightarrow> st_shndx s = SHN_ABS \<and> getSymbolBinding s = STB_LOCAL) \<and>
     \<not> (STT_LOPROC \<le> getSymbolType s \<and> getSymbolType s \<le> STT_HIPROC)"

definition symtab_verify :: "SymbolTable \<Rightarrow> SymbolTable res" where
  "symtab_verify t = (if symtab_size t mod symbolSize t \<noteq> 0 \<or> \<not> list_all symbol_verify (tl (symbols t))
     then Inl PrintError else Inr t)"

text \<open>A 32-bit symbol keeps the low half of its value and size.\<close>

definition new_symbol :: "bool \<Rightarrow> u32 \<Rightarrow> u32 \<Rightarrow> u64 \<Rightarrow> u64 \<Rightarrow> byte \<Rightarrow> byte \<Rightarrow> u32 \<Rightarrow> u16 \<Rightarrow> Symbol" where
  "new_symbol is64 idx name val sz bind type oth shndx =
     \<lparr> sym_index = idx, st_name = name, st_info = ELF_ST_INFO bind type, st_other = ucast oth, st_shndx = shndx,
       st_value = (if is64 then val else ucast (ucast val :: u32)),
       st_size = (if is64 then sz else ucast (ucast sz :: u32)) \<rparr>"

definition addSymbol :: "bool \<Rightarrow> u32 \<Rightarrow> u64 \<Rightarrow> u64 \<Rightarrow> byte \<Rightarrow> byte \<Rightarrow> u32 \<Rightarrow> u16 \<Rightarrow> SymbolTable \<Rightarrow> (nat \<times> SymbolTable) res" where
  "addSymbol is64 name val sz bind type oth shndx t = rbind
     (symtab_verify (t \<lparr> symbols := symbols t @ [new_symbol is64 (of_nat (length (symbols t))) name val sz bind type oth shndx],
        symtab_size := symtab_size t + (if is64 then 24 else 16) \<rparr>))
     (\<lambda>t. Inr (length (symbols t) - 1, t))"

definition findSymbol4Addr :: "SymbolTable \<Rightarrow> u64 \<Rightarrow> nat \<Rightarrow> Symbol list" where
  "findSymbol4Addr t addr buffCnt =
     foldl (\<lambda>buffer s. if st_value s = addr \<and> length buffer < buffCnt then buffer @ [s] else buffer) [] (symbols t)"

text \<open>\<open>wedge\<close> moves every address but 0.\<close>

definition isWedgeAddress :: "u64 \<Rightarrow> bool" where
  "isWedgeAddress addr \<longleftrightarrow> addr > 0"

definition symtab_wedge :: "bool \<Rightarrow> u32 \<Rightarrow> SymbolTable \<Rightarrow> SymbolTable" where
  "symtab_wedge is64 shamt t = t \<lparr> symbols := map (\<lambda>s. if isWedgeAddress (st_value s)
     then s \<lparr> st_value := (if is64 then st_value s + ucast shamt else ucast (ucast (st_value s + ucast shamt) :: u32)) \<rparr> else s) (symbols t) \<rparr>"

section \<open>Relocations\<close>

text \<open>The four classes of relocations; \<open>Relocation64\<close> does not override \<open>getSymbol\<close> and \<open>getType\<close>, whose
  default is an assertion failure.\<close>

datatype RelocationClass = Relocation32 | Relocation64 | RelocationAddend32 | RelocationAddend64

record Relocation =
  rel_class :: RelocationClass
  r_offset :: u64
  r_info :: u64
  r_addend :: u64

record RelocationTable =
  rt_link :: nat
  relocations :: "Relocation list"

definition ELF32_R_SYM :: "u64 \<Rightarrow> u64" where "ELF32_R_SYM v = drop_bit 8 v"
definition ELF32_R_TYPE :: "u64 \<Rightarrow> u64" where "ELF32_R_TYPE v = v AND 0xff"
definition ELF32_R_INFO :: "u32 \<Rightarrow> u64 \<Rightarrow> u64" where "ELF32_R_INFO symi type = ucast (push_bit 8 symi) + (type AND 0xff)"
definition ELF64_R_SYM :: "u64 \<Rightarrow> u64" where "ELF64_R_SYM v = drop_bit 32 v"
definition ELF64_R_TYPE :: "u64 \<Rightarrow> u64" where "ELF64_R_TYPE v = v AND 0xffffffff"
definition ELF64_R_INFO :: "u32 \<Rightarrow> u64 \<Rightarrow> u64" where "ELF64_R_INFO symi type = push_bit 32 (ucast symi) + type"

definition rel_getSymbol :: "Relocation \<Rightarrow> u64 res" where
  "rel_getSymbol r = (case rel_class r of
     Relocation64 \<Rightarrow> Inl AssertFailed
   | RelocationAddend64 \<Rightarrow> Inr (ELF64_R_SYM (r_info r))
   | _ \<Rightarrow> Inr (ELF32_R_SYM (r_info r)))"

definition rel_getType :: "Relocation \<Rightarrow> u64 res" where
  "rel_getType r = (case rel_class r of
     Relocation64 \<Rightarrow> Inl AssertFailed
   | RelocationAddend64 \<Rightarrow> Inr (ELF64_R_TYPE (r_info r))
   | _ \<Rightarrow> Inr (ELF32_R_TYPE (r_info r)))"

text \<open>The field of a 32-bit relocation has 32 bits.\<close>

definition setSymbolInfo :: "u32 \<Rightarrow> Relocation \<Rightarrow> Relocation res" where
  "setSymbolInfo symi r = rbind (rel_getType r) (\<lambda>type. Inr (r \<lparr> r_info :=
     (if rel_class r = Relocation64 \<or> rel_class r = RelocationAddend64 then ELF64_R_INFO symi type
      else ucast (ucast (ELF32_R_INFO symi type) :: u32)) \<rparr>))"

end
