(* ===== verification/Elf_Sections.thy ===== *)
theory Elf_Sections
  imports Base_Align Elf_Symbols
begin

text \<open>
  The headers of an executable: \<open>src/FileHeader.C\<close>, \<open>src/ProgramHeader.C\<close>, \<open>src/SectionHeader.C\<close>, their
  consistency checks, and the operations of \<open>src/ElfFile.C\<close> that look sections up, sort them and
  add one. A field of an address or size has 64 bits here; a 32-bit file keeps its low half.
\<close>

section \<open>Headers\<close>

definition field :: "bool \<Rightarrow> u64 \<Rightarrow> u64" where
  "field is64 v = (if is64 then v else ucast (ucast v :: u32))"

record FileHeader =
  e_ident :: "byte list"
  e_type :: u16
  e_machine :: u16
  e_version :: u32
  e_entry :: u64
  e_phoff :: u64
  e_shoff :: u64
  e_ehsize :: u16
  e_phentsize :: u16
  e_phnum :: u16
  e_shentsize :: u16
  e_shnum :: u16
  e_shstrndx :: u16

record ProgramHeader =
  p_type :: u32
  p_flags :: u32
  p_offset :: u64
  p_vaddr :: u64
  p_paddr :: u64
  p_filesz :: u64
  p_memsz :: u64
  p_align :: u64

record SectionHeader =
  sectionNamePtr :: "cstring option"
  sh_index :: u16
  sh_type :: u32
  sh_flags :: u64
  sh_addr :: u64
  sh_offset :: u64
  sh_size :: u64
  sh_link :: u32
  sh_info :: u32
  sh_addralign :: u64
  sh_entsize :: u64

definition new_SectionHeader :: "u16 \<Rightarrow> SectionHeader" where
  "new_SectionHeader idx = \<lparr> sectionNamePtr = None, sh_index = idx, sh_type = 0, sh_flags = 0, sh_addr = 0, sh_offset = 0,
     sh_size = 0, sh_link = 0, sh_info = 0, sh_addralign = 0, sh_entsize = 0 \<rparr>"

definition SHT_NULL :: u32 where "SHT_NULL = 0"
definition SHT_NOBITS :: u32 where "SHT_NOBITS = 8"
definition SHT_HASH :: u32 where "SHT_HASH = 5"
definition SHT_GNU_HASH :: u32 where "SHT_GNU_HASH = 0x6ffffff6"
definition PT_LOAD :: u32 where "PT_LOAD = 1"
definition PT_INTERP :: u32 where "PT_INTERP = 3"
definition PT_PHDR :: u32 where "PT_PHDR = 6"
definition PT_GNU_STACK :: u32 where "PT_GNU_STACK = 0x6474e551"
definition SHN_LORESERVE :: u16 where "SHN_LORESERVE = 0xff00"

definition hasWriteBit :: "SectionHeader \<Rightarrow> bool" where "hasWriteBit h \<longleftrightarrow> sh_flags h AND 1 \<noteq> 0"
definition hasAllocBit :: "SectionHeader \<Rightarrow> bool" where "hasAllocBit h \<longleftrightarrow> sh_flags h AND 2 \<noteq> 0"
definition hasExecInstrBit :: "SectionHeader \<Rightarrow> bool" where "hasExecInstrBit h \<longleftrightarrow> sh_flags h AND 4 \<noteq> 0"

definition isExecutable :: "ProgramHeader \<Rightarrow> bool" where "isExecutable p \<longleftrightarrow> p_flags p AND 1 \<noteq> 0"
definition isWritable :: "ProgramHeader \<Rightarrow> bool" where "isWritable p \<longleftrightarrow> drop_bit 1 (p_flags p) AND 1 \<noteq> 0"
definition isReadable :: "ProgramHeader \<Rightarrow> bool" where "isReadable p \<longleftrightarrow> drop_bit 2 (p_flags p) AND 1 \<noteq> 0"

definition sh_inRange :: "SectionHeader \<Rightarrow> u64 \<Rightarrow> bool" where
  "sh_inRange h address \<longleftrightarrow> address \<ge> sh_addr h \<and> address < sh_addr h + sh_size h"

definition ph_inRange :: "ProgramHeader \<Rightarrow> u64 \<Rightarrow> bool" where
  "ph_inRange p address \<longleftrightarrow> address \<ge> p_vaddr p \<and> address < p_vaddr p + p_memsz p"

section \<open>Moving the program\<close>

definition fh_wedge :: "bool \<Rightarrow> u32 \<Rightarrow> FileHeader \<Rightarrow> FileHeader" where
  "fh_wedge is64 shamt h = h \<lparr> e_entry := field is64 (e_entry h + ucast shamt) \<rparr>"

definition ph_wedge :: "bool \<Rightarrow> u32 \<Rightarrow> ProgramHeader \<Rightarrow> ProgramHeader" where
  "ph_wedge is64 shamt p = (if p_type p = PT_GNU_STACK then p
     else p \<lparr> p_vaddr := field is64 (p_vaddr p + ucast shamt), p_paddr := field is64 (p_paddr p + ucast shamt) \<rparr>)"

definition sh_wedge :: "bool \<Rightarrow> u32 \<Rightarrow> SectionHeader \<Rightarrow> SectionHeader" where
  "sh_wedge is64 shamt h = (if isWedgeAddress (sh_addr h) then h \<lparr> sh_addr := field is64 (sh_addr h + ucast shamt) \<rparr> else h)"

section \<open>Checks\<close>

text \<open>A failed check prints an error and stops the run. \<open>bytes\<close> is the size of the header read.\<close>

definition fh_sizes :: "bool \<Rightarrow> nat \<Rightarrow> FileHeader \<Rightarrow> bool" where
  "fh_sizes is64 bytes h \<longleftrightarrow> bytes = (if is64 then 64 else 52) \<and> e_ehsize h = (if is64 then 64 else 52) \<and>
     (e_phentsize h \<noteq> 0 \<longrightarrow> e_phentsize h = (if is64 then 56 else 32)) \<and> e_shentsize h = (if is64 then 64 else 40)"

definition fh_verify :: "nat \<Rightarrow> FileHeader \<Rightarrow> unit res" where
  "fh_verify bytes h = (if take 4 (e_ident h) = [0x7f, 0x45, 0x4c, 0x46] \<and> e_ident h ! 5 \<noteq> 0 \<and> e_ident h ! 6 = 1 \<and>
       e_ident h ! 8 = 0 \<and> e_type h \<noteq> 0 \<and> e_type h \<le> 4 \<and> e_machine h \<in> {3, 7, 62} \<and> e_version h \<noteq> 0 \<and>
       (e_phoff h = 0 \<longrightarrow> e_phnum h = 0) \<and> (e_shoff h = 0 \<longrightarrow> e_shnum h = 0 \<and> e_shstrndx h = 0) \<and>
       (if e_ident h ! 4 = 2 then fh_sizes True bytes h else if e_ident h ! 4 = 1 then fh_sizes False bytes h else False)
     then Inr () else Inl PrintError)"

text \<open>\<open>isPowerOfTwo\<close> takes 32 bits of the alignment.\<close>

definition ph_verify :: "ProgramHeader \<Rightarrow> unit res" where
  "ph_verify p = (if (p_type p = PT_LOAD \<longrightarrow> p_filesz p \<le> p_memsz p) \<and> (isPowerOfTwo (ucast (p_align p)) \<or> p_align p = 0) \<and>
       (p_align p > 1 \<longrightarrow> p_vaddr p mod p_align p = p_offset p mod p_align p) \<and>
       p_vaddr p mod 0x1000 = p_paddr p mod 0x1000
     then Inr () else Inl PrintError)"

definition known_sections :: "u32 list" where
  "known_sections = [0, 1, 2, 3, 4, 5, 6, 7, 8, 9, 10, 11, 14, 15, 16, 17, 18, 19, 0x60000000, 0x6ffffff6, 0x6ffffff7,
     0x6ffffffd, 0x6ffffffe, 0x6fffffff]"

definition sh_verify :: "SectionHeader \<Rightarrow> unit res" where
  "sh_verify h = (if (sh_index h = 0 \<longrightarrow> sh_link h = 0 \<and> sh_info h = 0 \<and> sh_addralign h = 0 \<and> sh_entsize h = 0) \<and>
       sh_type h \<in> set known_sections \<and> \<not> sh_index h \<ge> SHN_LORESERVE \<and> (hasAllocBit h \<longrightarrow> sh_addr h \<noteq> 0) \<and>
       (isPowerOfTwo (ucast (sh_addralign h)) \<or> sh_addralign h = 0) \<and>
       (sh_addralign h \<noteq> 0 \<longrightarrow> sh_addr h mod sh_addralign h = 0)
     then Inr () else Inl PrintError)"

section \<open>Looking up, sorting and swapping sections\<close>

fun find_section :: "(SectionHeader \<Rightarrow> bool) \<Rightarrow> nat \<Rightarrow> SectionHeader list \<Rightarrow> nat" where
  "find_section P i [] = 0"
| "find_section P i (h # hs) = (if P h then i else find_section P (Suc i) hs)"

definition findSectionIdx_name :: "cstring \<Rightarrow> SectionHeader list \<Rightarrow> nat" where
  "findSectionIdx_name name hs = find_section (\<lambda>h. sectionNamePtr h = Some name) 1 (tl hs)"

definition findSectionIdx_addr :: "u64 \<Rightarrow> SectionHeader list \<Rightarrow> nat" where
  "findSectionIdx_addr addr hs = find_section (\<lambda>h. sh_addr h = addr) 1 (tl hs)"

definition swap_at :: "nat \<Rightarrow> nat \<Rightarrow> 'a list \<Rightarrow> 'a list" where
  "swap_at i j xs = xs[i := xs ! j, j := xs ! i]"

definition swapSections :: "nat \<Rightarrow> nat \<Rightarrow> SectionHeader list \<times> 'r list \<Rightarrow> (SectionHeader list \<times> 'r list) res" where
  "swapSections idx1 idx2 x = (case x of (hs, rs) \<Rightarrow> ASSERT (idx1 < length hs \<and> idx2 < length hs)
     (Inr (swap_at idx1 idx2 hs, swap_at idx1 idx2 rs)))"

definition sort_pair :: "nat \<Rightarrow> nat \<Rightarrow> SectionHeader list \<Rightarrow> SectionHeader list" where
  "sort_pair i j hs = (if sh_offset (hs ! i) < sh_offset (hs ! j) then swap_at i j hs else hs)"

definition sortSectionHeaders :: "SectionHeader list \<Rightarrow> SectionHeader list" where
  "sortSectionHeaders hs = fold (\<lambda>i. fold (sort_pair i) [0..<i]) [0..<length hs] hs"

lemma find_section_spec:
  "0 < i \<Longrightarrow> (find_section P i hs = 0 \<and> (\<forall>h \<in> set hs. \<not> P h)) \<or>
     (\<exists>k < length hs. find_section P i hs = i + k \<and> P (hs ! k) \<and> (\<forall>j < k. \<not> P (hs ! j)))"
proof (induction hs arbitrary: i)
  case (Cons h hs)
  have IH: "(find_section P (Suc i) hs = 0 \<and> (\<forall>h \<in> set hs. \<not> P h)) \<or>
     (\<exists>k < length hs. find_section P (Suc i) hs = Suc i + k \<and> P (hs ! k) \<and> (\<forall>j < k. \<not> P (hs ! j)))"
    by (rule Cons.IH) simp
  show ?case
  proof (cases "P h")
    case True
    then show ?thesis by (intro disjI2 exI [of _ 0]) simp
  next
    case False
    from IH show ?thesis
    proof (elim disjE exE conjE)
      fix k assume k: "k < length hs" "find_section P (Suc i) hs = Suc i + k" "P (hs ! k)" "\<forall>j < k. \<not> P (hs ! j)"
      have "\<not> P ((h # hs) ! j)" if "j < Suc k" for j using that k(4) False by (cases j) auto
      then show ?thesis using k False by (intro disjI2 exI [of _ "Suc k"]) simp
    qed (use False in simp)
  qed
qed simp

end
