(* ===== verification/Binary_File.thy ===== *)
theory Binary_File
  imports Pebil_Prelude
begin

text \<open>
  The files of \<open>src/BinaryFile.C\<close>: the input file is a buffer with a read position, the output file is
  written at offsets. Pointers into the buffer are positions.
\<close>

section \<open>The input file\<close>

record BinaryInputFile =
  inBuffer :: "byte list"
  inBufferPointer :: nat

definition copyBytes :: "nat \<Rightarrow> BinaryInputFile \<Rightarrow> byte list option" where
  "copyBytes n f = (if inBufferPointer f + n > length (inBuffer f) then None
     else Some (take n (drop (inBufferPointer f) (inBuffer f))))"

definition copyBytesIterate :: "nat \<Rightarrow> BinaryInputFile \<Rightarrow> (byte list \<times> BinaryInputFile) option" where
  "copyBytesIterate n f = (case copyBytes n f of None \<Rightarrow> None
     | Some bs \<Rightarrow> Some (bs, f \<lparr> inBufferPointer := inBufferPointer f + n \<rparr>))"

definition onlyIterate :: "nat \<Rightarrow> BinaryInputFile \<Rightarrow> BinaryInputFile option" where
  "onlyIterate n f = (if inBufferPointer f + n > length (inBuffer f) then None
     else Some (f \<lparr> inBufferPointer := inBufferPointer f + n \<rparr>))"

definition moreBytes :: "BinaryInputFile \<Rightarrow> nat option" where
  "moreBytes f = (if inBufferPointer f \<ge> length (inBuffer f) then None else Some (inBufferPointer f))"

definition fileOffsetToPointer :: "nat \<Rightarrow> BinaryInputFile \<Rightarrow> nat option" where
  "fileOffsetToPointer offset f = (if offset \<ge> length (inBuffer f) then None else Some offset)"

definition setInBufferPointer :: "nat \<Rightarrow> BinaryInputFile \<Rightarrow> BinaryInputFile" where
  "setInBufferPointer offset f = (case fileOffsetToPointer offset f of None \<Rightarrow> f
     | Some p \<Rightarrow> f \<lparr> inBufferPointer := p \<rparr>)"

definition isInBuffer :: "nat \<Rightarrow> BinaryInputFile \<Rightarrow> bool" where
  "isInBuffer p f \<longleftrightarrow> p < length (inBuffer f)"

definition setInPointer :: "nat \<Rightarrow> BinaryInputFile \<Rightarrow> BinaryInputFile" where
  "setInPointer p f = (if isInBuffer p f then f \<lparr> inBufferPointer := p \<rparr> else f)"

definition bytesLeftInBuffer :: "BinaryInputFile \<Rightarrow> nat" where
  "bytesLeftInBuffer f = length (inBuffer f) - inBufferPointer f"

definition alreadyRead :: "BinaryInputFile \<Rightarrow> nat" where
  "alreadyRead f = inBufferPointer f"

section \<open>The output file\<close>

text \<open>Writing behind the end leaves a gap of zeros, as \<open>fseek\<close> and \<open>fwrite\<close> do.\<close>

definition write_at :: "byte list \<Rightarrow> nat \<Rightarrow> byte list \<Rightarrow> byte list" where
  "write_at bs off out = (if bs = [] then out else take off (out @ replicate (off - length out) 0) @ bs @ drop (off + length bs) out)"

text \<open>Tables are written piece by piece; the offset of a piece is a 32-bit sum.\<close>

definition write_next :: "byte list \<Rightarrow> u32 \<times> byte list \<Rightarrow> u32 \<times> byte list" where
  "write_next bs x = (case x of (cur, out) \<Rightarrow> (cur + of_nat (length bs), write_at bs (unat cur) out))"

lemma length_write_at: "bs \<noteq> [] \<Longrightarrow> length (write_at bs off out) = max (length out) (off + length bs)"
  by (simp add: write_at_def)

lemma write_at_append: "write_at ys (off + length xs) (write_at xs off out) = write_at (xs @ ys) off out"
proof -
  have "off + (off + (length xs + length ys)) - (off - length out + min off (length out)) = off + (length xs + length ys)" by simp
  then show ?thesis by (simp add: write_at_def ac_simps)
qed

text \<open>Writing pieces one behind the other writes them as a whole, when the offsets do not wrap around.\<close>

lemma write_nexts:
  "bss \<noteq> [] \<Longrightarrow> unat off + length (concat bss) < 2 ^ 32 \<Longrightarrow>
   fold write_next bss (off, out) = (off + of_nat (length (concat bss)), write_at (concat bss) (unat off) out)"
proof (induction bss arbitrary: off out)
  case (Cons bs bss)
  have o: "unat (off + of_nat (length bs)) = unat off + length bs"
    using Cons.prems(2) by (simp add: unat_word_ariths unat_of_nat)
  show ?case
  proof (cases "bss = []")
    case False
    then show ?thesis using Cons.IH [of "off + of_nat (length bs)" "write_at bs (unat off) out"] Cons.prems(2) o
      by (simp add: write_next_def write_at_append add.assoc)
  qed (simp add: write_next_def)
qed simp

section \<open>Reading numbers\<close>

definition read32 :: "BinaryInputFile \<Rightarrow> (u32 \<times> BinaryInputFile) res" where
  "read32 f = (case copyBytesIterate 4 f of None \<Rightarrow> Inl PrintError
     | Some (bs, f) \<Rightarrow> Inr (of_nat (le_val bs), f))"

fun read_words :: "nat \<Rightarrow> BinaryInputFile \<Rightarrow> (u32 list \<times> BinaryInputFile) res" where
  "read_words 0 f = Inr ([], f)"
| "read_words (Suc n) f = rbind (read32 f) (\<lambda>(w, f). rbind (read_words n f) (\<lambda>(ws, f). Inr (w # ws, f)))"

text \<open>A file that holds some bytes at its read position.\<close>

definition holds :: "BinaryInputFile \<Rightarrow> byte list \<Rightarrow> bool" where
  "holds f bs \<longleftrightarrow> (\<exists>cs. drop (inBufferPointer f) (inBuffer f) = bs @ cs) \<and> inBufferPointer f \<le> length (inBuffer f)"

definition skip :: "nat \<Rightarrow> BinaryInputFile \<Rightarrow> BinaryInputFile" where
  "skip n f = f \<lparr> inBufferPointer := inBufferPointer f + n \<rparr>"

lemma skip_skip [simp]: "skip m (skip n f) = skip (n + m) f"
  by (simp add: skip_def ac_simps)

lemma copyBytesIterate_holds:
  assumes "holds f (bs @ cs)"
  shows "copyBytesIterate (length bs) f = Some (bs, skip (length bs) f) \<and> holds (skip (length bs) f) cs"
proof -
  obtain ds where d: "drop (inBufferPointer f) (inBuffer f) = bs @ cs @ ds" and le: "inBufferPointer f \<le> length (inBuffer f)"
    using assms by (auto simp: holds_def)
  from arg_cong [OF d, of length] le have l: "inBufferPointer f + length bs \<le> length (inBuffer f)" by simp
  have "drop (inBufferPointer f + length bs) (inBuffer f) = drop (length bs) (drop (inBufferPointer f) (inBuffer f))"
    by (simp add: ac_simps)
  also have "\<dots> = cs @ ds" unfolding d by simp
  finally show ?thesis using l by (simp add: copyBytesIterate_def copyBytes_def d skip_def holds_def)
qed

lemma read32_holds: "holds f (le_bytes32 w @ cs) \<Longrightarrow> read32 f = Inr (w, skip 4 f) \<and> holds (skip 4 f) cs"
  using copyBytesIterate_holds [of f "le_bytes32 w" cs] by (simp add: read32_def)

lemma read_words_holds:
  "holds f (concat (map le_bytes32 ws) @ cs) \<Longrightarrow>
   read_words (length ws) f = Inr (ws, skip (4 * length ws) f) \<and> holds (skip (4 * length ws) f) cs"
proof (induction ws arbitrary: f)
  case Nil
  then show ?case by (simp add: skip_def)
next
  case (Cons w ws)
  then have "read32 f = Inr (w, skip 4 f)" "holds (skip 4 f) (concat (map le_bytes32 ws) @ cs)"
    using read32_holds [of f w "concat (map le_bytes32 ws) @ cs"] by simp_all
  then show ?case using Cons.IH [of "skip 4 f"] by (simp add: ac_simps)
qed

lemma holds_write_at:
  assumes "bs \<noteq> []"
  shows "holds (setInPointer off \<lparr> inBuffer = write_at bs off out, inBufferPointer = p \<rparr>) bs"
proof -
  have "drop off (write_at bs off out) = bs @ drop (off + length bs) out"
    using assms by (simp add: write_at_def)
  then show ?thesis using assms
    by (simp add: holds_def setInPointer_def isInBuffer_def length_write_at) (simp add: length_write_at less_max_iff_disj)
qed

end
