(* ===== verification/Elf_Hash.thy ===== *)
theory Elf_Hash
  imports Elf_Sections Binary_File
begin

text \<open>
  The hash table in System V style: \<open>HashTable\<close> and \<open>SysvHashTable\<close> of \<open>src/HashTable.C\<close>. The arrays are
  lists; an access outside of them is an error. The section header and the symbol
  table it is linked to are arguments.
\<close>

section \<open>The table\<close>

record HashTable =
  numberOfBuckets :: u32
  buckets :: "u32 list"
  numberOfEntries :: u32
  entries :: "u32 list"
  hash_size :: u32

definition rnth :: "'a list \<Rightarrow> u32 \<Rightarrow> 'a res" where
  "rnth xs i = (if unat i < length xs then Inr (xs ! unat i) else Inl OutOfBounds)"

definition getBucket :: "HashTable \<Rightarrow> u32 \<Rightarrow> u32 res" where
  "getBucket h idx = ASSERT (idx < numberOfBuckets h) (rnth (buckets h) idx)"

definition getEntry :: "HashTable \<Rightarrow> u32 \<Rightarrow> u32 res" where
  "getEntry h idx = ASSERT (idx < numberOfEntries h) (rnth (entries h) idx)"

definition isGnuStyleHash :: "SectionHeader \<Rightarrow> bool res" where
  "isGnuStyleHash sh = (if sh_type sh = SHT_HASH then Inr False else if sh_type sh = SHT_GNU_HASH then Inr True
     else Inl AssertFailed)"

definition passedThreshold :: "HashTable \<Rightarrow> bool" where
  "passedThreshold h \<longleftrightarrow> numberOfBuckets h < numberOfEntries h div 2 \<or> numberOfBuckets h < 2"

section \<open>Searching\<close>

text \<open>The chain of a table read from a file may be a cycle, so the loop need not end.\<close>

partial_function (option) find_loop :: "SymbolTable \<Rightarrow> u32 list \<Rightarrow> cstring \<Rightarrow> u32 \<Rightarrow> u32 res option" where
  "find_loop t es name x = (case getSymbolName t (unat x) of
     Inl e \<Rightarrow> Some (Inl e)
   | Inr s \<Rightarrow> if s = name then Some (Inr x) else
       (case rnth es x of
          Inl e \<Rightarrow> Some (Inl e)
        | Inr y \<Rightarrow> if x = y then Some (Inl PrintError) else find_loop t es name y))"

definition sysv_findSymbol :: "SymbolTable \<Rightarrow> HashTable \<Rightarrow> cstring \<Rightarrow> u32 res" where
  "sysv_findSymbol t h name = (if numberOfBuckets h = 0 then Inl DivByZero else
     rbind (rnth (buckets h) (elf_sysv_hash name mod numberOfBuckets h)) (\<lambda>x.
       case find_loop t (entries h) name x of None \<Rightarrow> Inl Diverges | Some r \<Rightarrow> r))"

text \<open>\<open>verify\<close> searches for every named symbol, from 1 and again from 0.\<close>

definition check_symbol :: "SymbolTable \<Rightarrow> HashTable \<Rightarrow> nat \<Rightarrow> unit \<Rightarrow> unit res" where
  "check_symbol t h i u = (if st_name (symbols t ! i) = 0 then Inr () else
     rbind (getSymbolName t i) (\<lambda>name. rbind (sysv_findSymbol t h name) (\<lambda>x.
       if x \<noteq> of_nat i then Inl PrintError else Inr ())))"

definition sysv_verify :: "SectionHeader \<Rightarrow> SymbolTable \<Rightarrow> HashTable \<Rightarrow> unit res" where
  "sysv_verify sh t h = rbind (isGnuStyleHash sh) (\<lambda>gnu.
     if gnu \<or> numberOfEntries h \<noteq> of_nat (length (symbols t)) then Inl PrintError else
     rbind (rfold (check_symbol t h) [1..<unat (numberOfEntries h)] ()) (\<lambda>_.
     if sh_entsize sh \<noteq> 4 \<or> sh_type sh \<noteq> SHT_HASH \<and> sh_type sh \<noteq> SHT_GNU_HASH then Inl PrintError else
     rbind (rfold (check_symbol t h) [0..<length (symbols t)] ()) (\<lambda>_.
     if hash_size h \<noteq> 4 * (2 + numberOfEntries h + numberOfBuckets h) then Inl PrintError else Inr ())))"

section \<open>Building\<close>

text \<open>The loops that count down to the last index with a property.\<close>

fun last_below :: "(nat \<Rightarrow> bool) \<Rightarrow> nat \<Rightarrow> nat option" where
  "last_below P 0 = None"
| "last_below P (Suc k) = (if P k then Some k else last_below P k)"

definition entry_hash :: "SymbolTable \<Rightarrow> u32 \<Rightarrow> nat \<Rightarrow> u32 res" where
  "entry_hash t nb i = rbind (getSymbolName t i) (\<lambda>name. Inr (elf_sysv_hash name mod nb))"

definition last_bucket :: "u32 list \<Rightarrow> nat \<Rightarrow> u32" where
  "last_bucket es b = (case last_below (\<lambda>k. es ! k = of_nat b) (length es) of None \<Rightarrow> 0 | Some k \<Rightarrow> of_nat k)"

definition chain_entry :: "nat \<Rightarrow> u32 list \<Rightarrow> u32 list" where
  "chain_entry i es = es[i := (case last_below (\<lambda>j. es ! i = es ! j) i of None \<Rightarrow> 0 | Some j \<Rightarrow> of_nat j)]"

definition sysv_buildTable :: "SectionHeader \<Rightarrow> SymbolTable \<Rightarrow> u32 \<Rightarrow> u32 \<Rightarrow> HashTable res" where
  "sysv_buildTable sh t numEntries numBuckets = ASSERT (numBuckets > 0) (
     ASSERT (of_nat (length (symbols t)) = numEntries) (
       rbind (rmap (entry_hash t numBuckets) [0..<unat numEntries]) (\<lambda>es.
         let h = \<lparr> numberOfBuckets = numBuckets, buckets = map (last_bucket es) [0..<unat numBuckets],
                   numberOfEntries = numEntries, entries = fold chain_entry (rev [0..<unat numEntries]) es,
                   hash_size = 4 * (2 + numBuckets + numEntries) \<rparr> in
         rbind (sysv_verify sh t h) (\<lambda>_. Inr h))))"

definition sysv_addEntry :: "SectionHeader \<Rightarrow> SymbolTable \<Rightarrow> HashTable \<Rightarrow> HashTable res" where
  "sysv_addEntry sh t h = sysv_buildTable sh t (numberOfEntries h + 1) (numberOfBuckets h - 1)"

definition sysv_expandSize :: "SectionHeader \<Rightarrow> SymbolTable \<Rightarrow> u32 \<Rightarrow> HashTable \<Rightarrow> (u32 \<times> HashTable) res" where
  "sysv_expandSize sh t amt h = rbind (sysv_buildTable sh t (numberOfEntries h) (numberOfBuckets h + amt)) (\<lambda>h. Inr (amt, h))"

section \<open>The file\<close>

definition sysv_dump :: "u32 \<Rightarrow> HashTable \<Rightarrow> byte list \<Rightarrow> byte list" where
  "sysv_dump off h out = snd (fold write_next
     (map le_bytes32 (numberOfBuckets h # numberOfEntries h # map ((!) (buckets h)) [0..<unat (numberOfBuckets h)] @
        map ((!) (entries h)) [0..<unat (numberOfEntries h)])) (off, out))"

definition sysv_read :: "nat \<Rightarrow> u32 \<Rightarrow> BinaryInputFile \<Rightarrow> (HashTable \<times> BinaryInputFile) res" where
  "sysv_read rawDataPtr sz f = ASSERT (sz \<ge> 8) (
     rbind (read32 (setInPointer rawDataPtr f)) (\<lambda>(nb, f). rbind (read32 f) (\<lambda>(ne, f).
     ASSERT (unat sz = 4 * unat (nb + ne + 2)) (
     rbind (read_words (unat nb) f) (\<lambda>(bs, f). rbind (read_words (unat ne) f) (\<lambda>(es, f).
     Inr (\<lparr> numberOfBuckets = nb, buckets = bs, numberOfEntries = ne, entries = es, hash_size = sz \<rparr>, f)))))))"

section \<open>Chains of a bucket\<close>

lemma last_below_None: "last_below P n = None \<longleftrightarrow> (\<forall>k < n. \<not> P k)"
  by (induction n) (auto simp: less_Suc_eq)

lemma last_below_Some: "last_below P n = Some k \<longleftrightarrow> k < n \<and> P k \<and> (\<forall>j < n. k < j \<longrightarrow> \<not> P j)"
  by (induction n) (auto simp: less_Suc_eq)

lemma last_below_cong: "(\<And>k. k < n \<Longrightarrow> P k \<longleftrightarrow> Q k) \<Longrightarrow> last_below P n = last_below Q n"
  by (induction n) auto

lemma last_below_skip:
  assumes "m \<le> n" and "\<And>k. m \<le> k \<Longrightarrow> k < n \<Longrightarrow> \<not> P k"
  shows "last_below P n = last_below P m"
  using assms
proof (induction n)
  case (Suc n)
  then show ?case by (cases "m = Suc n") auto
qed simp

text \<open>
  What a search relies on: a bucket starts at the last name with its hash, and every name leads to the
  one with the same hash before it, or to 0.
\<close>

locale bucket_chains =
  fixes hash :: "'t \<Rightarrow> 'n \<Rightarrow> nat" and start :: "'t \<Rightarrow> nat \<Rightarrow> nat" and nxt :: "'t \<Rightarrow> nat \<Rightarrow> nat" and built :: "'n list \<Rightarrow> 't \<Rightarrow> bool"
  assumes start_last: "built ns t \<Longrightarrow> start t (hash t n) =
      (case last_below (\<lambda>k. hash t (ns ! k) = hash t n) (length ns) of None \<Rightarrow> 0 | Some k \<Rightarrow> k)"
    and nxt_last: "built ns t \<Longrightarrow> x < length ns \<Longrightarrow> nxt t x =
      (case last_below (\<lambda>j. hash t (ns ! x) = hash t (ns ! j)) x of None \<Rightarrow> 0 | Some j \<Rightarrow> j)"
begin

lemma walk:
  assumes "built ns t" and "x < length ns" and "hash t (ns ! x) = hash t n \<or> x = 0"
    and "\<And>y. y < length ns \<Longrightarrow> f y = (if ns ! y = n then found y else if nxt t y = y then missing else f (nxt t y))"
  shows "f x = (case last_below (\<lambda>k. ns ! k = n) (Suc x) of None \<Rightarrow> missing | Some k \<Rightarrow> found k)"
  using assms(2,3)
proof (induction x rule: less_induct)
  case (less x)
  show ?case
  proof (cases "ns ! x = n")
    case True
    then show ?thesis using assms(4) [OF less.prems(1)] by simp
  next
    case False
    note f = assms(4) [OF less.prems(1)]
    show ?thesis
    proof (cases "last_below (\<lambda>j. hash t (ns ! x) = hash t (ns ! j)) x")
      case None
      then have y: "nxt t x = 0" using nxt_last [OF assms(1) less.prems(1)] by simp
      show ?thesis
      proof (cases "x = 0")
        case True
        then show ?thesis using f False y by simp
      next
        case x: False
        then have h: "\<And>k. k < x \<Longrightarrow> ns ! k \<noteq> n" using None less.prems(2) by (auto simp: last_below_None)
        moreover have "ns \<noteq> []" using less.prems(1) by auto
        ultimately have "f 0 = missing" using less.IH [of 0] x by (simp add: last_below_None)
        moreover have "last_below (\<lambda>k. ns ! k = n) (Suc x) = None" using h False by (auto simp: last_below_None less_Suc_eq)
        ultimately show ?thesis using f False y x by simp
      qed
    next
      case (Some j)
      then have y: "nxt t x = j" using nxt_last [OF assms(1) less.prems(1)] by simp
      have j: "j < x" "hash t (ns ! x) = hash t (ns ! j)" "\<And>k. j < k \<Longrightarrow> k < x \<Longrightarrow> hash t (ns ! x) \<noteq> hash t (ns ! k)"
        using Some by (auto simp: last_below_Some)
      then have "hash t (ns ! x) = hash t n" using less.prems(2) by auto
      then have "last_below (\<lambda>k. ns ! k = n) (Suc x) = last_below (\<lambda>k. ns ! k = n) (Suc j)"
        using j False by (intro last_below_skip) (auto simp: less_Suc_eq Suc_le_eq)
      then show ?thesis using less.IH [OF j(1)] j less.prems f False y by auto
    qed
  qed
qed

lemma search:
  assumes "built ns t" and "ns \<noteq> []"
    and "\<And>y. y < length ns \<Longrightarrow> f y = (if ns ! y = n then found y else if nxt t y = y then missing else f (nxt t y))"
  shows "f (start t (hash t n)) = (case last_below (\<lambda>k. ns ! k = n) (length ns) of None \<Rightarrow> missing | Some k \<Rightarrow> found k)"
proof (cases "last_below (\<lambda>k. hash t (ns ! k) = hash t n) (length ns)")
  case None
  then have n: "\<And>k. k < length ns \<Longrightarrow> ns ! k \<noteq> n" by (auto simp: last_below_None)
  then have "last_below (\<lambda>k. ns ! k = n) (length ns) = None" "last_below (\<lambda>k. ns ! k = n) (Suc 0) = None"
    using assms(2) by (auto simp: last_below_None)
  then show ?thesis using None start_last [OF assms(1), of n] walk [OF assms(1) _ _ assms(3), of 0] assms(2) by simp
next
  case (Some k)
  then have k: "k < length ns" "hash t (ns ! k) = hash t n" "\<And>j. k < j \<Longrightarrow> j < length ns \<Longrightarrow> hash t (ns ! j) \<noteq> hash t n"
    by (auto simp: last_below_Some)
  then have "last_below (\<lambda>k. ns ! k = n) (length ns) = last_below (\<lambda>k. ns ! k = n) (Suc k)"
    by (intro last_below_skip) (auto simp: Suc_le_eq)
  then show ?thesis using Some start_last [OF assms(1), of n] walk [OF assms(1) k(1) _ assms(3)] k(2) by simp
qed

end

section \<open>What buildTable builds\<close>

lemma chain_entries:
  assumes "length cs = length es" and "k \<le> length es" and "\<And>i. i < k \<Longrightarrow> cs ! i = es ! i"
  shows "length (fold chain_entry (rev [0..<k]) cs) = length es \<and>
    (\<forall>i < length es. fold chain_entry (rev [0..<k]) cs ! i = (if i < k
      then (case last_below (\<lambda>j. es ! i = es ! j) i of None \<Rightarrow> 0 | Some j \<Rightarrow> of_nat j) else cs ! i))"
  using assms
proof (induction k arbitrary: cs)
  case (Suc k)
  let ?v = "case last_below (\<lambda>j. es ! k = es ! j) k of None \<Rightarrow> 0 | Some j \<Rightarrow> of_nat j"
  have "last_below (\<lambda>j. cs ! k = cs ! j) k = last_below (\<lambda>j. es ! k = es ! j) k"
    using Suc.prems by (intro last_below_cong) simp
  then have c: "chain_entry k cs = cs[k := ?v]" by (simp add: chain_entry_def)
  show ?case using Suc.IH [of "cs[k := ?v]"] Suc.prems by (auto simp: c less_Suc_eq)
qed simp

definition sysv_table :: "cstring list \<Rightarrow> u32 \<Rightarrow> HashTable" where
  "sysv_table names nb = (let es = map (\<lambda>s. elf_sysv_hash s mod nb) names in
     \<lparr> numberOfBuckets = nb, buckets = map (last_bucket es) [0..<unat nb], numberOfEntries = of_nat (length names),
       entries = fold chain_entry (rev [0..<length names]) es, hash_size = 4 * (2 + nb + of_nat (length names)) \<rparr>)"

definition sysv_built :: "cstring list \<Rightarrow> HashTable \<Rightarrow> bool" where
  "sysv_built names h \<longleftrightarrow> numberOfBuckets h > 0 \<and> length names < 2 ^ 32 \<and> h = sysv_table names (numberOfBuckets h)"

lemma unat_mod_less: "nb > 0 \<Longrightarrow> unat (w mod nb :: u32) < unat nb"
  by (simp add: unat_mod_distrib unat_gt_0)

lemma length_sysv_table [simp]: "length (entries (sysv_table names nb)) = length names" "length (buckets (sysv_table names nb)) = unat nb"
  using chain_entries [of "map (\<lambda>s. elf_sysv_hash s mod nb) names" "map (\<lambda>s. elf_sysv_hash s mod nb) names" "length names"]
  by (simp_all add: sysv_table_def Let_def)

interpretation sysv: bucket_chains "\<lambda>h name. unat (elf_sysv_hash name mod numberOfBuckets h)"
  "\<lambda>h b. unat (buckets h ! b)" "\<lambda>h x. unat (entries h ! x)" sysv_built
proof
  fix names h and name :: cstring
  assume b: "sysv_built names h"
  let ?nb = "numberOfBuckets h" let ?es = "map (\<lambda>s. elf_sysv_hash s mod ?nb) names"
  let ?b = "unat (elf_sysv_hash name mod ?nb)"
  have h: "h = sysv_table names ?nb" "?nb > 0" "length names < 4294967296" using b by (simp_all add: sysv_built_def)
  have "buckets h ! ?b = last_bucket ?es ?b"
    by (subst h(1)) (simp add: sysv_table_def Let_def unat_mod_less h(2))
  moreover have "last_below (\<lambda>k. ?es ! k = of_nat ?b) (length ?es) =
      last_below (\<lambda>k. unat (elf_sysv_hash (names ! k) mod ?nb) = ?b) (length names)"
    by simp (rule last_below_cong, simp add: word_unat_eq_iff)
  moreover note last_below_Some [of "\<lambda>k. unat (elf_sysv_hash (names ! k) mod ?nb) = ?b" "length names", THEN iffD1, THEN conjunct1]
  ultimately show "unat (buckets h ! ?b) = (case last_below (\<lambda>k. unat (elf_sysv_hash (names ! k) mod ?nb) = ?b) (length names)
      of None \<Rightarrow> 0 | Some k \<Rightarrow> k)"
    using h(3) by (cases "last_below (\<lambda>k. unat (elf_sysv_hash (names ! k) mod ?nb) = ?b) (length names)")
      (simp_all add: last_bucket_def of_nat_u32)
next
  fix names h x
  assume b: "sysv_built names h" and x: "x < length names"
  let ?nb = "numberOfBuckets h" let ?es = "map (\<lambda>s. elf_sysv_hash s mod ?nb) names"
  have h: "h = sysv_table names ?nb" "length names < 4294967296" using b by (simp_all add: sysv_built_def)
  have "entries h ! x = (case last_below (\<lambda>j. ?es ! x = ?es ! j) x of None \<Rightarrow> 0 | Some j \<Rightarrow> of_nat j)"
    using chain_entries [of ?es ?es "length names"] x by (subst h(1)) (simp add: sysv_table_def Let_def)
  moreover have "last_below (\<lambda>j. ?es ! x = ?es ! j) x =
      last_below (\<lambda>j. unat (elf_sysv_hash (names ! x) mod ?nb) = unat (elf_sysv_hash (names ! j) mod ?nb)) x"
    using x by (intro last_below_cong) (simp add: word_unat_eq_iff)
  moreover note last_below_Some [of "\<lambda>j. unat (elf_sysv_hash (names ! x) mod ?nb) = unat (elf_sysv_hash (names ! j) mod ?nb)" x,
    THEN iffD1, THEN conjunct1]
  ultimately show "unat (entries h ! x) = (case last_below (\<lambda>j. unat (elf_sysv_hash (names ! x) mod ?nb) =
      unat (elf_sysv_hash (names ! j) mod ?nb)) x of None \<Rightarrow> 0 | Some j \<Rightarrow> j)"
    using h(2) x by (cases "last_below (\<lambda>j. unat (elf_sysv_hash (names ! x) mod ?nb) =
      unat (elf_sysv_hash (names ! j) mod ?nb)) x") (simp_all add: of_nat_u32)
qed


lemma find_loop_sysv:
  assumes "symtab_names t names" and "sysv_built names h" and "y < length names"
  shows "find_loop t (entries h) name (of_nat y) = (if names ! y = name then Some (Inr (of_nat y))
    else if unat (entries h ! y) = y then Some (Inl PrintError) else find_loop t (entries h) name (of_nat (unat (entries h ! y))))"
proof -
  have n: "getSymbolName t y = Inr (names ! y)" using assms(1,3) by (simp add: symtab_names_def)
  have u: "unat (of_nat y :: u32) = y" using assms(1,3) by (intro of_nat_u32) (simp add: symtab_names_def)
  have "length (entries h) = length names" using assms(2) length_sysv_table by (metis sysv_built_def)
  then have "rnth (entries h) (of_nat y) = Inr (entries h ! y)" using u assms(3) by (simp add: rnth_def)
  moreover have "of_nat y = entries h ! y \<longleftrightarrow> unat (entries h ! y) = y" using u by (metis word_unat_eq_iff)
  ultimately show ?thesis by (subst find_loop.simps) (simp add: u n)
qed

lemma sysv_findSymbol_built:
  assumes "symtab_names t names" and "sysv_built names h" and "names \<noteq> []"
  shows "sysv_findSymbol t h name = (case last_below (\<lambda>k. names ! k = name) (length names) of None \<Rightarrow> Inl PrintError | Some k \<Rightarrow> Inr (of_nat k))"
proof -
  let ?b = "elf_sysv_hash name mod numberOfBuckets h"
  have nb: "numberOfBuckets h > 0" "length (buckets h) = unat (numberOfBuckets h)"
    using assms(2) length_sysv_table by (metis sysv_built_def)+
  have "find_loop t (entries h) name (of_nat (unat (buckets h ! unat ?b))) =
     (case last_below (\<lambda>k. names ! k = name) (length names) of None \<Rightarrow> Some (Inl PrintError) | Some k \<Rightarrow> Some (Inr (of_nat k)))"
    by (rule sysv.search [OF assms(2,3), where f = "\<lambda>y. find_loop t (entries h) name (of_nat y)"]) (rule find_loop_sysv [OF assms(1,2)])
  then show ?thesis using nb unat_mod_less [of "numberOfBuckets h" "elf_sysv_hash name"]
    by (simp add: sysv_findSymbol_def rnth_def split: option.splits)
qed

text \<open>A table passes when no name of a named symbol comes back later.\<close>

definition last_name :: "SymbolTable \<Rightarrow> cstring list \<Rightarrow> nat \<Rightarrow> bool" where
  "last_name t names i \<longleftrightarrow> (st_name (symbols t ! i) \<noteq> 0 \<longrightarrow> (\<forall>j < length names. i < j \<longrightarrow> names ! j \<noteq> names ! i))"

lemma check_symbols:
  assumes "symtab_names t names" and "sysv_built names h" and "names \<noteq> []"
  shows "\<forall>i \<in> set is. i < length names \<Longrightarrow> rfold (check_symbol t h) is () =
    (if \<forall>i \<in> set is. last_name t names i then Inr () else Inl PrintError)"
proof (induction "is")
  case (Cons i "is")
  have i: "i < length names" "length names < 2 ^ 32" using Cons.prems assms(1) by (simp_all add: symtab_names_def)
  have g: "getSymbolName t i = Inr (names ! i)" using assms(1) i by (simp add: symtab_names_def)
  obtain k where k: "last_below (\<lambda>k. names ! k = names ! i) (length names) = Some k"
    using i(1) last_below_None [of "\<lambda>k. names ! k = names ! i" "length names"]
    by (cases "last_below (\<lambda>k. names ! k = names ! i) (length names)") auto
  then have k': "k < length names" "names ! k = names ! i" "\<forall>j < length names. k < j \<longrightarrow> names ! j \<noteq> names ! i" "\<not> k < i"
    using i(1) by (auto simp: last_below_Some)
  have "unat (of_nat k :: u32) = k" "unat (of_nat i :: u32) = i" using k'(1) i by (auto intro!: of_nat_u32)
  then have "(of_nat k = (of_nat i :: u32)) \<longleftrightarrow> k = i" by metis
  moreover have "k = i \<longleftrightarrow> (\<forall>j < length names. i < j \<longrightarrow> names ! j \<noteq> names ! i)"
    using k' by (metis linorder_neqE_nat)
  ultimately have "check_symbol t h i () = (if last_name t names i then Inr () else Inl PrintError)"
    using k by (simp add: last_name_def check_symbol_def g sysv_findSymbol_built [OF assms])
  then show ?case using Cons by simp
qed simp


lemma sysv_built_fields:
  assumes "sysv_built names h"
  shows "numberOfEntries h = of_nat (length names)" "hash_size h = 4 * (2 + numberOfEntries h + numberOfBuckets h)"
proof -
  have "h = sysv_table names (numberOfBuckets h)" using assms by (simp add: sysv_built_def)
  from arg_cong [OF this, of numberOfEntries] arg_cong [OF this, of hash_size]
  show "numberOfEntries h = of_nat (length names)" "hash_size h = 4 * (2 + numberOfEntries h + numberOfBuckets h)"
    by (simp_all add: sysv_table_def Let_def algebra_simps)
qed

lemma sysv_verify_built:
  assumes "symtab_names t names" and "sysv_built names h" and "names \<noteq> []" and "sh_type sh = SHT_HASH" and "sh_entsize sh = 4"
  shows "sysv_verify sh t h = (if (\<forall>i < length names. last_name t names i) then Inr () else Inl PrintError)"
proof -
  have n: "length (symbols t) = length names" "length names < 4294967296" using assms(1) by (simp_all add: symtab_names_def)
  have h: "numberOfEntries h = of_nat (length names)" "hash_size h = 4 * (2 + numberOfEntries h + numberOfBuckets h)"
    using sysv_built_fields [OF assms(2)] by simp_all
  have a: "rfold (check_symbol t h) [0..<length names] () = (if (\<forall>i < length names. last_name t names i) then Inr () else Inl PrintError)"
    using check_symbols [OF assms(1-3), of "[0..<length names]"] by (simp add: Ball_def)
  have b: "rfold (check_symbol t h) [1..<length names] () = Inr ()" if "(\<forall>i < length names. last_name t names i)"
    using check_symbols [OF assms(1-3), of "[1..<length names]"] that by simp
  have c: "\<exists>e. rfold (check_symbol t h) [1..<length names] () = Inr () \<or> rfold (check_symbol t h) [1..<length names] () = Inl PrintError"
    using check_symbols [OF assms(1-3), of "[1..<length names]"] by simp
  have u: "unat (numberOfEntries h) = length names" using n(2) h(1) by (simp add: of_nat_u32)
  show ?thesis
    unfolding sysv_verify_def isGnuStyleHash_def u n(1) a using a b c assms(4,5) h
    by (cases "(\<forall>i < length names. last_name t names i)") (auto simp: n SHT_HASH_def)
qed

lemma sysv_buildTable_eq:
  assumes "symtab_names t names" and "nb > 0" and "names \<noteq> []" and "sh_type sh = SHT_HASH" and "sh_entsize sh = 4"
  shows "sysv_buildTable sh t (of_nat (length names)) nb = (if (\<forall>i < length names. last_name t names i) then Inr (sysv_table names nb) else Inl PrintError)"
    and "sysv_built names (sysv_table names nb)"
proof -
  have n: "length (symbols t) = length names" "length names < 4294967296" using assms(1) by (simp_all add: symtab_names_def)
  have u: "unat (of_nat (length names) :: u32) = length names" using n(2) by (rule of_nat_u32)
  show b: "sysv_built names (sysv_table names nb)"
    using assms(2) n(2) by (simp add: sysv_built_def sysv_table_def Let_def)
  have "rmap (entry_hash t nb) [0..<length names] = Inr (map (\<lambda>i. elf_sysv_hash (names ! i) mod nb) [0..<length names])"
    using assms(1) by (intro rmap_map) (simp add: entry_hash_def symtab_names_def)
  moreover have "map (\<lambda>i. elf_sysv_hash (names ! i) mod nb) [0..<length names] = map (\<lambda>s. elf_sysv_hash s mod nb) names"
    by (intro nth_equalityI) simp_all
  ultimately have "sysv_buildTable sh t (of_nat (length names)) nb = rbind (sysv_verify sh t (sysv_table names nb)) (\<lambda>_. Inr (sysv_table names nb))"
    using assms(2) by (simp add: sysv_buildTable_def n(1) u sysv_table_def Let_def)
  then show "sysv_buildTable sh t (of_nat (length names)) nb = (if (\<forall>i < length names. last_name t names i) then Inr (sysv_table names nb) else Inl PrintError)"
    by (simp add: sysv_verify_built [OF assms(1) b assms(3-5)])
qed


section \<open>Properties\<close>

text \<open>
  C14. \<open>buildTable\<close> succeeds exactly when no name of a named symbol comes back later in the table, and stops
  the run otherwise. Then a search ends, finds every name at its last index, and reports every
  name that is not in the symbol table.
\<close>

theorem sysv_buildTable_search:
  assumes "symtab_names t names" and "names \<noteq> []" and "nb > 0" and "sh_type sh = SHT_HASH" and "sh_entsize sh = 4"
  shows "if \<forall>i < length names. \<forall>j < length names. st_name (symbols t ! i) \<noteq> 0 \<and> i < j \<longrightarrow> names ! j \<noteq> names ! i
    then \<exists>h. sysv_buildTable sh t (of_nat (length names)) nb = Inr h \<and>
      (\<forall>k < length names. (\<forall>j < length names. k < j \<longrightarrow> names ! j \<noteq> names ! k) \<longrightarrow> sysv_findSymbol t h (names ! k) = Inr (of_nat k)) \<and>
      (\<forall>name. name \<notin> set names \<longrightarrow> sysv_findSymbol t h name = Inl PrintError)
    else sysv_buildTable sh t (of_nat (length names)) nb = Inl PrintError"
proof -
  note b = sysv_buildTable_eq [OF assms(1,3,2,4,5)]
  have l: "(\<forall>i < length names. last_name t names i) \<longleftrightarrow>
      (\<forall>i < length names. \<forall>j < length names. st_name (symbols t ! i) \<noteq> 0 \<and> i < j \<longrightarrow> names ! j \<noteq> names ! i)"
    by (auto simp: last_name_def)
  have "sysv_findSymbol t (sysv_table names nb) (names ! k) = Inr (of_nat k)"
    if "k < length names" "\<forall>j < length names. k < j \<longrightarrow> names ! j \<noteq> names ! k" for k
  proof -
    have "last_below (\<lambda>i. names ! i = names ! k) (length names) = Some k" using that by (simp add: last_below_Some)
    then show ?thesis by (simp add: sysv_findSymbol_built [OF assms(1) b(2) assms(2)])
  qed
  moreover have "sysv_findSymbol t (sysv_table names nb) name = Inl PrintError" if "name \<notin> set names" for name
  proof -
    have "last_below (\<lambda>i. names ! i = name) (length names) = None" using that by (auto simp: last_below_None in_set_conv_nth)
    then show ?thesis by (simp add: sysv_findSymbol_built [OF assms(1) b(2) assms(2)])
  qed
  ultimately show ?thesis unfolding l [symmetric] using b(1) by (cases "\<forall>i < length names. last_name t names i") auto
qed

definition hash_header :: "u32 \<Rightarrow> u64 \<Rightarrow> SectionHeader" where
  "hash_header type entsize = (new_SectionHeader 4) \<lparr> sh_type := type, sh_entsize := entsize \<rparr>"

lemma hash_header_simps [simp]: "sh_type (hash_header type entsize) = type" "sh_entsize (hash_header type entsize) = entsize"
  by (simp_all add: hash_header_def)

text \<open>Three symbols without a name, and one called \<open>a\<close>.\<close>

definition a_table :: SymbolTable where
  "a_table = \<lparr> symbols = map (\<lambda>(i, nm). \<lparr> sym_index = i, st_name = nm, st_info = 0, st_other = 0, st_shndx = 0, st_value = 0, st_size = 0 \<rparr>)
     [(0, 0), (1, 1), (2, 0)], stringTable = Some \<lparr> strings = [0, 97, 0], st_sizeInBytes = 3 \<rparr>, dynamic = True, symtab_section = 5, symbolSize = 24, symtab_size = 72 \<rparr>"

theorem sysv_buildTable_search_witness:
  "\<exists>h. sysv_buildTable (hash_header SHT_HASH 4) a_table 3 2 = Inr h \<and> sysv_findSymbol a_table h [97] = Inr 1 \<and>
    sysv_findSymbol a_table h [98] = Inl PrintError"
proof -
  let ?names = "[symbol_without_name, [97], symbol_without_name]"
  have n: "symtab_names a_table ?names"
    unfolding symtab_names_def by (auto simp: a_table_def getSymbolName_def getString_def less_Suc_eq)
  have d: "symbol_without_name \<noteq> [97]" "symbol_without_name \<noteq> [98]" by (simp_all add: symbol_without_name_def)
  have u: "\<forall>i < length ?names. \<forall>j < length ?names. st_name (symbols a_table ! i) \<noteq> 0 \<and> i < j \<longrightarrow> ?names ! j \<noteq> ?names ! i"
    using d by (auto simp: a_table_def less_Suc_eq)
  have l: "\<forall>j < length ?names. 1 < j \<longrightarrow> ?names ! j \<noteq> ?names ! 1" "1 < length ?names" "[98] \<notin> set ?names"
    using d by (auto simp: less_Suc_eq)
  have "?names \<noteq> []" "(2 :: u32) > 0" "sh_type (hash_header SHT_HASH 4) = SHT_HASH" "sh_entsize (hash_header SHT_HASH 4) = 4"
    by simp_all
  from iffD1 [OF if_P [OF u] sysv_buildTable_search [OF n this]]
  obtain h where h: "sysv_buildTable (hash_header SHT_HASH 4) a_table (of_nat (length ?names)) 2 = Inr h"
    and f: "\<forall>k < length ?names. (\<forall>j < length ?names. k < j \<longrightarrow> ?names ! j \<noteq> ?names ! k) \<longrightarrow> sysv_findSymbol a_table h (?names ! k) = Inr (of_nat k)"
    and g: "\<forall>name. name \<notin> set ?names \<longrightarrow> sysv_findSymbol a_table h name = Inl PrintError" by blast
  have "sysv_findSymbol a_table h (?names ! 1) = Inr (of_nat 1)" using f [rule_format, OF l(2)] l(1) by blast
  moreover have "sysv_findSymbol a_table h [98] = Inl PrintError" using g l(3) by blast
  ultimately show ?thesis using h by simp
qed

lemma sysv_dump_eq:
  assumes "length (buckets h) = unat (numberOfBuckets h)" and "length (entries h) = unat (numberOfEntries h)"
    and "unat off + 4 * (unat (numberOfBuckets h) + unat (numberOfEntries h) + 2) < 2 ^ 32"
  shows "sysv_dump off h out = write_at (le_bytes32 (numberOfBuckets h) @ le_bytes32 (numberOfEntries h) @
    concat (map le_bytes32 (buckets h)) @ concat (map le_bytes32 (entries h))) (unat off) out"
proof -
  have "map ((!) (buckets h)) [0..<unat (numberOfBuckets h)] = buckets h" "map ((!) (entries h)) [0..<unat (numberOfEntries h)] = entries h"
    using assms(1,2) by (metis map_nth)+
  moreover have "length (concat (map le_bytes32 xs)) = 4 * length xs" for xs by (induction xs) simp_all
  ultimately show ?thesis using assms unfolding sysv_dump_def by (subst write_nexts) (simp_all add: algebra_simps)
qed

text \<open>
  C30. A table written into a file at an offset with which its end stays below 4 GB is read back from
  there unchanged, whatever the file held before.
\<close>

theorem sysv_dump_read:
  assumes "length (buckets h) = unat (numberOfBuckets h)" and "length (entries h) = unat (numberOfEntries h)"
    and "unat (hash_size h) = 4 * (unat (numberOfBuckets h) + unat (numberOfEntries h) + 2)"
    and "unat off + unat (hash_size h) < 2 ^ 32"
  shows "\<exists>f. sysv_read (unat off) (hash_size h) \<lparr> inBuffer = sysv_dump off h out, inBufferPointer = p \<rparr> = Inr (h, f)"
proof -
  let ?nb = "numberOfBuckets h" let ?ne = "numberOfEntries h"
  let ?B = "concat (map le_bytes32 (buckets h))" let ?E = "concat (map le_bytes32 (entries h))"
  let ?f = "setInPointer (unat off) \<lparr> inBuffer = sysv_dump off h out, inBufferPointer = p \<rparr>"
  have "le_bytes32 ?nb @ le_bytes32 ?ne @ ?B @ ?E \<noteq> []" by (metis append_is_Nil_conv length_le_bytes32 list.size(3) zero_neq_numeral)
  then have f: "holds ?f (le_bytes32 ?nb @ le_bytes32 ?ne @ ?B @ ?E @ [])"
    unfolding sysv_dump_eq [OF assms(1,2) assms(4) [unfolded assms(3)]] using holds_write_at by simp
  have a: "read32 ?f = Inr (?nb, skip 4 ?f)" "holds (skip 4 ?f) (le_bytes32 ?ne @ ?B @ ?E @ [])"
    using read32_holds [OF f] by simp_all
  have b: "read32 (skip 4 ?f) = Inr (?ne, skip 8 ?f)" "holds (skip 8 ?f) (?B @ ?E @ [])"
    using read32_holds [OF a(2)] by simp_all
  have c: "read_words (unat ?nb) (skip 8 ?f) = Inr (buckets h, skip (8 + 4 * unat ?nb) ?f)" "holds (skip (8 + 4 * unat ?nb) ?f) (?E @ [])"
    using read_words_holds [OF b(2)] assms(1) by simp_all
  have d: "read_words (unat ?ne) (skip (8 + 4 * unat ?nb) ?f) = Inr (entries h, skip (8 + 4 * unat ?nb + 4 * unat ?ne) ?f)"
    using read_words_holds [OF c(2)] assms(2) by simp
  have s: "unat (?nb + ?ne + 2) = unat ?nb + unat ?ne + 2"
    using assms(3) u32_lt [of "hash_size h"] by (simp add: unat_word_ariths)
  have "hash_size h \<ge> 8" using assms(3) by (simp add: word_le_nat_alt)
  then show ?thesis using assms(3) by (simp add: sysv_read_def a(1) b(1) c(1) d s)
qed

theorem sysv_dump_read_witness:
  "\<exists>f. sysv_read 1 16 \<lparr> inBuffer = sysv_dump 1 \<lparr> numberOfBuckets = 1, buckets = [0], numberOfEntries = 1, entries = [0], hash_size = 16 \<rparr> [7],
     inBufferPointer = 0 \<rparr> = Inr (\<lparr> numberOfBuckets = 1, buckets = [0], numberOfEntries = 1, entries = [0], hash_size = 16 \<rparr>, f)"
  using sysv_dump_read [of "\<lparr> numberOfBuckets = 1, buckets = [0], numberOfEntries = 1, entries = [0], hash_size = 16 \<rparr>" 1 "[7]" 0] by simp

end
