(* ===== verification/Bubble_Sort.thy ===== *)
theory Bubble_Sort
  imports Pebil_Prelude "HOL-Library.Multiset"
begin

text \<open>
  The bubble sort of \<open>SymbolTable::sortForGnuHash\<close> by itself: exchanges by index are passes over the list, and as
  many passes as there are elements give the stable sort of the library.
\<close>

section \<open>Bubble sort\<close>

definition swap :: "nat \<Rightarrow> 'a list \<Rightarrow> 'a list" where
  "swap j xs = xs[j := xs ! (j + 1), j + 1 := xs ! j]"

definition bswap :: "('a \<Rightarrow> 'k :: linorder) \<Rightarrow> nat \<Rightarrow> 'a list \<Rightarrow> 'a list" where
  "bswap K j xs = (if K (xs ! j) > K (xs ! (j + 1)) then swap j xs else xs)"

fun bpass :: "('a \<Rightarrow> 'k :: linorder) \<Rightarrow> 'a list \<Rightarrow> 'a list" where
  "bpass K (x # y # zs) = (if K x > K y then y # bpass K (x # zs) else x # bpass K (y # zs))"
| "bpass K xs = xs"

lemma length_swap [simp]: "length (swap j xs) = length xs"
  by (simp add: swap_def)

lemma swap_append: "swap (length ys) (ys @ x # y # zs) = ys @ y # x # zs"
  by (simp add: swap_def nth_append list_update_append)

lemma fold_bswap: "fold (bswap K) [length ys..<length ys + length xs - 1] (ys @ xs) = ys @ bpass K xs"
proof (induction K xs arbitrary: ys rule: bpass.induct)
  case (1 K x y zs)
  have u: "[length ys..<length ys + length (x # y # zs) - 1] = length ys # [Suc (length ys)..<Suc (length ys) + length (y # zs) - 1]"
    by (simp add: upt_rec)
  have b: "bswap K (length ys) (ys @ x # y # zs) = (if K x > K y then ys @ y # x # zs else ys @ x # y # zs)"
    by (simp add: bswap_def nth_append swap_append)
  show ?case unfolding u using 1(1) [of "ys @ [y]"] 1(2) [of "ys @ [x]"] by (simp add: b)
qed simp_all

lemma mset_bpass [simp]: "mset (bpass K xs) = mset xs"
  by (induction K xs rule: bpass.induct) simp_all

lemma length_bpass [simp]: "length (bpass K xs) = length xs"
  by (metis mset_bpass size_mset)

lemma set_bpass [simp]: "set (bpass K xs) = set xs"
  by (metis mset_bpass set_mset_mset)

lemma filter_bpass: "filter (\<lambda>x. k = K x) (bpass K xs) = filter (\<lambda>x. k = K x) xs"
proof (induction K xs rule: bpass.induct)
  case (1 K x y zs)
  then show ?case by (cases "K y < K x"; cases "k = K x"; cases "k = K y") simp_all
qed simp_all

lemma bpass_sorted: "sorted (map K xs) \<Longrightarrow> bpass K xs = xs"
  by (induction K xs rule: bpass.induct) auto

lemma bpass_append:
  "us \<noteq> [] \<Longrightarrow> sorted (map K vs) \<Longrightarrow> (\<forall>u \<in> set us. \<forall>v \<in> set vs. K u \<le> K v) \<Longrightarrow> bpass K (us @ vs) = bpass K us @ vs"
proof (induction K us rule: bpass.induct)
  case (1 K x y zs)
  have l: "\<forall>u \<in> set (w # zs). \<forall>v \<in> set vs. K u \<le> K v" if "w = x \<or> w = y" for w using 1(5) that by auto
  show ?case
    using 1(1) [OF _ _ 1(4) l [of x]] 1(2) [OF _ _ 1(4) l [of y]] by (simp only: append_Cons bpass.simps) simp
qed (simp_all add: bpass_sorted)

lemma bpass_last: "xs \<noteq> [] \<Longrightarrow> \<exists>us m. bpass K xs = us @ [m] \<and> (\<forall>u \<in> set us. K u \<le> K m)"
proof (induction K xs rule: bpass.induct)
  case (1 K x y zs)
  define z w where "z = (if K x > K y then x else y)" and "w = (if K x > K y then y else x)"
  have "\<exists>us m. bpass K (z # zs) = us @ [m] \<and> (\<forall>u \<in> set us. K u \<le> K m)"
    using 1(1,2) unfolding z_def by (cases "K x > K y") simp_all
  then obtain us m where um: "bpass K (z # zs) = us @ [m]" "\<forall>u \<in> set us. K u \<le> K m" by blast
  have "z \<in> set (us @ [m])" using um(1) set_bpass [of K "z # zs"] by simp
  then have "K z \<le> K m" using um(2) by auto
  moreover have "K w \<le> K z" by (auto simp: z_def w_def)
  moreover have "bpass K (x # y # zs) = (w # us) @ [m]" using um(1) by (auto simp: z_def w_def)
  ultimately show ?case using um(2) by (intro exI [of _ "w # us"] exI [of _ m]) auto
qed simp_all

lemma bpasses_settled:
  "k \<le> length xs \<Longrightarrow> \<exists>us vs. (bpass K ^^ k) xs = us @ vs \<and> length vs = k \<and> sorted (map K vs) \<and>
     (\<forall>u \<in> set us. \<forall>v \<in> set vs. K u \<le> K v)"
proof (induction k)
  case (Suc k)
  then obtain us vs where uv: "(bpass K ^^ k) xs = us @ vs" "length vs = k" "sorted (map K vs)"
    "\<forall>u \<in> set us. \<forall>v \<in> set vs. K u \<le> K v" by auto
  have "length ((bpass K ^^ j) xs) = length xs" for j by (induction j) simp_all
  from this [of k] have "us \<noteq> []" using uv(1,2) Suc.prems by auto
  then obtain ws m where wm: "bpass K us = ws @ [m]" "\<forall>u \<in> set ws. K u \<le> K m" using bpass_last by blast
  have s: "set us = insert m (set ws)" using wm(1) set_bpass [of K us] by simp
  have "(bpass K ^^ Suc k) xs = ws @ (m # vs)" using bpass_append [OF \<open>us \<noteq> []\<close> uv(3,4)] by (simp add: uv(1) wm(1))
  moreover have "sorted (map K (m # vs))" "\<forall>u \<in> set ws. \<forall>v \<in> set (m # vs). K u \<le> K v" using uv(3,4) wm(2) s by auto
  ultimately show ?case using uv(2) by (intro exI [of _ ws] exI [of _ "m # vs"]) simp
qed simp

lemma bpasses_sort: "(bpass K ^^ length xs) xs = sort_key K xs"
proof -
  obtain us vs where uv: "(bpass K ^^ length xs) xs = us @ vs" "length vs = length xs" "sorted (map K vs)"
    using bpasses_settled [of "length xs" xs K] by auto
  have inv: "mset ((bpass K ^^ k) xs) = mset xs \<and> (\<forall>c. filter (\<lambda>x. c = K x) ((bpass K ^^ k) xs) = filter (\<lambda>x. c = K x) xs)" for k
    by (induction k) (simp_all add: filter_bpass)
  have "us = []" using inv [of "length xs"] uv(1,2) by (metis add_cancel_right_left length_0_conv length_append size_mset)
  then show ?thesis using inv [of "length xs"] uv by (intro properties_for_sort_key [symmetric]) auto
qed

end
