(* ===== verification/Elf_Sort.thy ===== *)
theory Elf_Sort
  imports Elf_Symbols Bubble_Sort
begin

text \<open>
  \<open>SymbolTable::sortForGnuHash\<close> of \<open>src/SymbolTable.C\<close>: a bubble sort of the dynamic symbols by hash bucket that
  moves the version numbers along, and the renumbering of the relocations after it.
\<close>

section \<open>Sorting for the hash table\<close>

record SortState =
  so_table :: SymbolTable
  so_versyms :: "u16 list"
  so_rep :: "u32 list"

text \<open>The hash of \<open>symbols[j]->getSymbolName()\<close>, which is the name of the symbol at its \<open>index\<close>.\<close>

definition gnu_bucket :: "SymbolTable \<Rightarrow> u32 \<Rightarrow> nat \<Rightarrow> u32 res" where
  "gnu_bucket t nb j = ASSERT (j < length (symbols t)) (rbind (getSymbolName t (unat (sym_index (symbols t ! j)))) (\<lambda>name.
     if nb = 0 then Inl DivByZero else Inr (elf_gnu_hash name mod nb)))"

definition sort_swap :: "nat \<Rightarrow> SortState \<Rightarrow> SortState" where
  "sort_swap j st = \<lparr>
     so_table = (so_table st) \<lparr> symbols := (symbols (so_table st))
        [j := (symbols (so_table st) ! (j + 1)) \<lparr> sym_index := of_nat j \<rparr>,
         j + 1 := (symbols (so_table st) ! j) \<lparr> sym_index := of_nat (j + 1) \<rparr>] \<rparr>,
     so_versyms = swap j (so_versyms st), so_rep = swap j (so_rep st) \<rparr>"

definition sort_step :: "u32 \<Rightarrow> nat \<Rightarrow> SortState \<Rightarrow> SortState res" where
  "sort_step nb j st = rbind (gnu_bucket (so_table st) nb j) (\<lambda>h1.
     rbind (gnu_bucket (so_table st) nb (j + 1)) (\<lambda>h2.
     Inr (if h1 > h2 then sort_swap j st else st)))"

definition sort_passes :: "nat \<Rightarrow> u32 \<Rightarrow> SortState \<Rightarrow> SortState res" where
  "sort_passes first nb st = (let n = length (symbols (so_table st)) in
     rfold (\<lambda>i. rfold (sort_step nb) [first..<n - 1]) [first..<n] st)"

text \<open>A relocation of a table linked to this symbol table is renumbered once.\<close>

definition renumber_reloc :: "u32 list \<Rightarrow> nat \<Rightarrow> Relocation \<times> bool \<Rightarrow> (Relocation \<times> bool) res" where
  "renumber_reloc rep i x = (case x of (r, doneMod) \<Rightarrow>
     rbind (rel_getSymbol r) (\<lambda>s. if s = ucast (rep ! i) \<and> \<not> doneMod
       then rbind (setSymbolInfo (of_nat i) r) (\<lambda>r. Inr (r, True)) else Inr (r, doneMod)))"

definition renumber_table :: "nat \<Rightarrow> u32 list \<Rightarrow> nat \<Rightarrow> nat \<times> (Relocation \<times> bool) list \<Rightarrow> (nat \<times> (Relocation \<times> bool) list) res" where
  "renumber_table sect rep i t = (if fst t = sect
     then rbind (rmap (renumber_reloc rep i) (snd t)) (\<lambda>rs. Inr (fst t, rs)) else Inr t)"

definition renumber :: "nat \<Rightarrow> u32 list \<Rightarrow> nat list \<Rightarrow> RelocationTable list \<Rightarrow> RelocationTable list res" where
  "renumber sect rep idx ts = rbind
     (rfold (\<lambda>i. rmap (renumber_table sect rep i)) idx (map (\<lambda>t. (rt_link t, map (\<lambda>r. (r, False)) (relocations t))) ts))
     (\<lambda>us. Inr (map (\<lambda>u. \<lparr> rt_link = fst u, relocations = map fst (snd u) \<rparr>) us))"

definition sortForGnuHash :: "nat \<Rightarrow> u32 \<Rightarrow> SymbolTable \<Rightarrow> u16 list \<Rightarrow> RelocationTable list \<Rightarrow>
    (SymbolTable \<times> u16 list \<times> RelocationTable list) res" where
  "sortForGnuHash firstSymIndex numberOfBuckets t vs rts = ASSERT (stringTable t \<noteq> None) (ASSERT (dynamic t)
     (ASSERT (length vs = length (symbols t)) (
       let n = length (symbols t) in
       rbind (sort_passes firstSymIndex numberOfBuckets \<lparr> so_table = t, so_versyms = vs, so_rep = map of_nat [0..<n] \<rparr>) (\<lambda>st.
       rbind (renumber (symtab_section t) (so_rep st) [firstSymIndex..<n] rts) (\<lambda>rts.
       Inr (so_table st, so_versyms st, rts))))))"

section \<open>The sort\<close>

text \<open>A table whose symbols also know their position.\<close>

definition symtab_ok :: "SymbolTable \<Rightarrow> cstring list \<Rightarrow> bool" where
  "symtab_ok t names \<longleftrightarrow> symtab_names t names \<and> (\<forall>i < length names. sym_index (symbols t ! i) = of_nat i)"

definition arranged :: "SymbolTable \<Rightarrow> nat list \<Rightarrow> SymbolTable" where
  "arranged t rep = t \<lparr> symbols := map (\<lambda>i. (symbols t ! (rep ! i)) \<lparr> sym_index := of_nat i \<rparr>) [0..<length rep] \<rparr>"

definition sort_at :: "SymbolTable \<Rightarrow> u16 list \<Rightarrow> nat list \<Rightarrow> SortState" where
  "sort_at t vs rep = \<lparr> so_table = arranged t rep, so_versyms = map ((!) vs) rep, so_rep = map of_nat rep \<rparr>"

definition positions_of :: "nat \<Rightarrow> nat list \<Rightarrow> bool" where
  "positions_of n rep \<longleftrightarrow> mset rep = mset [0..<n]"

lemma positions_of_facts:
  assumes "positions_of n rep"
  shows "length rep = n" "set rep = {..<n}" "distinct rep"
proof -
  have m: "mset rep = mset [0..<n]" using assms by (simp add: positions_of_def)
  show "length rep = n" using arg_cong [OF m, of size] by simp
  show "set rep = {..<n}" using arg_cong [OF m, of set_mset] by (simp add: atLeast0LessThan)
  show "distinct rep" using mset_eq_imp_distinct_iff [OF m] by simp
qed

lemma mset_swap: "j + 1 < length xs \<Longrightarrow> mset (swap j xs) = mset xs"
  by (simp add: swap_def mset_swap)

lemma mset_bswap: "j + 1 < length xs \<Longrightarrow> mset (bswap K j xs) = mset xs"
  by (simp add: bswap_def mset_swap)

lemma arranged_name:
  assumes "symtab_ok t names" and "positions_of (length names) rep" and "i < length names"
  shows "getSymbolName (arranged t rep) i = Inr (names ! (rep ! i))"
proof -
  have l: "length rep = length names" and r: "rep ! i < length names"
    using positions_of_facts [OF assms(2)] assms(3) by (auto simp: set_conv_nth)
  have n: "getSymbolName t (rep ! i) = Inr (names ! (rep ! i))" using assms(1) r by (simp add: symtab_ok_def symtab_names_def)
  have "length names = length (symbols t)" using assms(1) by (simp add: symtab_ok_def symtab_names_def)
  then show ?thesis using n l assms(3) r 
    by (cases "stringTable t"; cases "st_name (symbols t ! (rep ! i)) = 0") (simp_all add: getSymbolName_def arranged_def)
qed

lemma arranged_bucket:
  assumes "symtab_ok t names" and "positions_of (length names) rep" and "j < length names" and "nb \<noteq> 0"
  shows "gnu_bucket (arranged t rep) nb j = Inr (elf_gnu_hash (names ! (rep ! j)) mod nb)"
proof -
  have l: "length rep = length names" using positions_of_facts [OF assms(2)] by simp
  have "sym_index (symbols (arranged t rep) ! j) = of_nat j" "length (symbols (arranged t rep)) = length names"
    using assms(3) by (simp_all add: arranged_def l)
  moreover have "unat (of_nat j :: u32) = j" using assms(1,3) by (intro of_nat_u32) (simp add: symtab_ok_def symtab_names_def)
  ultimately show ?thesis using assms(3,4) arranged_name [OF assms(1,2,3)] by (simp add: gnu_bucket_def)
qed

lemma arranged_swap:
  assumes "j + 1 < length rep"
  shows "sort_swap j (sort_at t vs rep) = sort_at t vs (swap j rep)"
proof -
  have "symbols (so_table (sort_swap j (sort_at t vs rep))) = symbols (arranged t (swap j rep))"
    using assms by (intro nth_equalityI) (auto simp: sort_swap_def sort_at_def arranged_def swap_def nth_list_update)
  then have "so_table (sort_swap j (sort_at t vs rep)) = arranged t (swap j rep)"
    by (simp add: sort_swap_def sort_at_def arranged_def)
  then show ?thesis
    using assms by (simp add: sort_swap_def sort_at_def swap_def map_update)
qed

abbreviation bucket_key :: "cstring list \<Rightarrow> u32 \<Rightarrow> nat \<Rightarrow> u32" where
  "bucket_key names nb r \<equiv> elf_gnu_hash (names ! r) mod nb"

lemma sort_step_at:
  assumes "symtab_ok t names" and "positions_of (length names) rep" and "j + 1 < length names" and "nb \<noteq> 0"
  shows "sort_step nb j (sort_at t vs rep) = Inr (sort_at t vs (bswap (bucket_key names nb) j rep))"
  using arranged_bucket [OF assms(1,2) _ assms(4)] assms(3) positions_of_facts(1) [OF assms(2)] arranged_swap [of j rep t vs]
  by (simp add: sort_step_def bswap_def) (simp add: sort_at_def)

lemma sort_steps_at:
  assumes "symtab_ok t names" and "nb \<noteq> 0" and "positions_of (length names) rep" and "\<forall>j \<in> set js. j + 1 < length names"
  shows "rfold (sort_step nb) js (sort_at t vs rep) = Inr (sort_at t vs (fold (bswap (bucket_key names nb)) js rep)) \<and>
    positions_of (length names) (fold (bswap (bucket_key names nb)) js rep)"
  using assms(3,4)
proof (induction js arbitrary: rep)
  case (Cons j js)
  have "positions_of (length names) (bswap (bucket_key names nb) j rep)"
    using Cons.prems positions_of_facts(1) [OF Cons.prems(1)] by (simp add: positions_of_def mset_bswap)
  then show ?case using Cons.IH [of "bswap (bucket_key names nb) j rep"] Cons.prems sort_step_at [OF assms(1) Cons.prems(1) _ assms(2)] by simp
qed simp

lemma fold_bswaps: "a + length xs = n \<Longrightarrow> length ys = a \<Longrightarrow>
    (fold (bswap K) [a..<n - 1] ^^ k) (ys @ xs) = ys @ (bpass K ^^ k) xs"
proof (induction k)
  case (Suc k)
  have "length ((bpass K ^^ k) xs) = length xs" by (induction k) simp_all
  then show ?case using Suc fold_bswap [of K ys "(bpass K ^^ k) xs"] by simp
qed simp

definition gnu_order :: "cstring list \<Rightarrow> nat \<Rightarrow> u32 \<Rightarrow> nat list" where
  "gnu_order names a nb = [0..<a] @ sort_key (bucket_key names nb) [a..<length names]"

lemma gnu_order_positions: "a \<le> length names \<Longrightarrow> positions_of (length names) (gnu_order names a nb)"
  using upt_add_eq_append [of 0 a "length names - a"] by (simp add: positions_of_def gnu_order_def)
 
lemma sort_passes_at:
  assumes "symtab_ok t names" and "nb \<noteq> 0" and "a \<le> length names"
  shows "sort_passes a nb (sort_at t vs [0..<length names]) = Inr (sort_at t vs (gnu_order names a nb))"
proof -
  let ?n = "length names" let ?f = "fold (bswap (bucket_key names nb)) [a..<?n - 1]"
  have *: "rfold (\<lambda>i. rfold (sort_step nb) [a..<?n - 1]) is (sort_at t vs rep) = Inr (sort_at t vs ((?f ^^ length is) rep))"
    if "positions_of ?n rep" for "is" :: "nat list" and rep
    using that
  proof (induction "is" arbitrary: rep)
    case (Cons i "is")
    have "\<forall>j \<in> set [a..<?n - 1]. j + 1 < ?n" by auto
    from sort_steps_at [OF assms(1,2) Cons.prems this]
    show ?case using Cons.IH [of "?f rep"] by (simp add: funpow_swap1)
  qed simp
  have "[0..<?n] = [0..<a] @ [a..<?n]" using upt_add_eq_append [of 0 a "?n - a"] assms(3) by simp
  then have "(?f ^^ (?n - a)) [0..<?n] = [0..<a] @ (bpass (bucket_key names nb) ^^ (?n - a)) [a..<?n]"
    using fold_bswaps [of a "[a..<?n]" ?n "[0..<a]"] assms(3) by simp
  also have "\<dots> = gnu_order names a nb"
    using bpasses_sort [of "[a..<?n]" "bucket_key names nb"] by (simp add: gnu_order_def)
  finally have "(?f ^^ (?n - a)) [0..<?n] = gnu_order names a nb" .
  moreover have "positions_of ?n [0..<?n]" by (simp add: positions_of_def)
  ultimately show ?thesis using * [of "[0..<?n]" "[a..<?n]"] by (simp add: sort_passes_def Let_def) (simp add: sort_at_def arranged_def)
qed

section \<open>The relocations\<close>

text \<open>The symbol and type of a relocation that is not of the class \<open>Relocation64\<close>.\<close>

definition reloc_symbol :: "Relocation \<Rightarrow> nat" where
  "reloc_symbol r = unat (if rel_class r = RelocationAddend64 then ELF64_R_SYM (r_info r) else ELF32_R_SYM (r_info r))"

definition reloc_type :: "Relocation \<Rightarrow> u64" where
  "reloc_type r = (if rel_class r = RelocationAddend64 then ELF64_R_TYPE (r_info r) else ELF32_R_TYPE (r_info r))"

text \<open>The field of a 32-bit relocation has 24 bits for the number of the symbol.\<close>

definition reloc_ok :: "nat \<Rightarrow> Relocation \<Rightarrow> bool" where
  "reloc_ok n r \<longleftrightarrow> rel_class r \<noteq> Relocation64 \<and> (rel_class r \<noteq> RelocationAddend64 \<longrightarrow> n \<le> 2 ^ 24 \<and> unat (r_info r) < 2 ^ 32)"

lemma mask_32: "v AND 0xffffffff = take_bit 32 (v :: u64)"
  by (simp add: take_bit_eq_mask mask_eq_exp_minus_1)

lemma mask_8: "v AND 0xff = take_bit 8 (v :: u64)"
  by (simp add: take_bit_eq_mask mask_eq_exp_minus_1)

lemma unat_mask: "unat ((v :: u64) AND 0xffffffff) = unat v mod 4294967296" "unat ((v :: u64) AND 0xff) = unat v mod 256"
  unfolding mask_32 mask_8 unsigned_take_bit_eq by (simp_all add: take_bit_eq_mod)

lemma R_INFO_64:
  fixes s :: u32 and v :: u64
  assumes "unat v < 2 ^ 32"
  shows "unat (ELF64_R_SYM (ELF64_R_INFO s v)) = unat s" "ELF64_R_TYPE (ELF64_R_INFO s v) = v"
proof -
  have p: "unat (push_bit 32 (ucast s) :: u64) = unat s * 2 ^ 32"
    using u32_lt [of s] by (subst unat_push_bit) simp_all
  have i: "unat (ELF64_R_INFO s v) = unat s * 2 ^ 32 + unat v"
    using u32_lt [of s] assms by (simp add: ELF64_R_INFO_def unat_word_ariths p)
  show "unat (ELF64_R_SYM (ELF64_R_INFO s v)) = unat s"
    using assms by (simp add: ELF64_R_SYM_def unat_drop_bit i)
  show "ELF64_R_TYPE (ELF64_R_INFO s v) = v"
    using assms by (intro word_eq_unatI) (simp add: ELF64_R_TYPE_def unat_mask i)
qed

lemma R_INFO_32:
  fixes s :: u32 and v :: u64
  assumes "unat s < 2 ^ 24" and "unat v < 2 ^ 8"
  defines "w \<equiv> ucast (ucast (ELF32_R_INFO s v) :: u32) :: u64"
  shows "unat (ELF32_R_SYM w) = unat s" "ELF32_R_TYPE w = v" "unat w < 2 ^ 32"
proof -
  have p: "unat (push_bit 8 s) = unat s * 2 ^ 8"
    using assms(1) by (subst unat_push_bit) simp_all
  have "v AND 0xff = v" using assms(2) by (intro word_eq_unatI) (simp add: unat_mask)
  then have i: "unat (ELF32_R_INFO s v) = unat s * 2 ^ 8 + unat v"
    using assms(1,2) by (simp add: ELF32_R_INFO_def unat_word_ariths p)
  have w: "unat w = unat s * 2 ^ 8 + unat v"
    using assms(1,2) by (simp add: w_def unat_ucast i)
  show "unat (ELF32_R_SYM w) = unat s" using assms(2) by (simp add: ELF32_R_SYM_def unat_drop_bit w)
  show "ELF32_R_TYPE w = v"
    using assms(2) by (intro word_eq_unatI) (simp add: ELF32_R_TYPE_def unat_mask w)
  show "unat w < 2 ^ 32" using assms(1,2) by (simp add: w)
qed

lemma setSymbolInfo_ok:
  assumes "reloc_ok n r" and "i < n" and "n < 2 ^ 32"
  obtains r' where "setSymbolInfo (of_nat i) r = Inr r'" "reloc_ok n r'" "reloc_symbol r' = i" "reloc_type r' = reloc_type r"
    "rel_class r' = rel_class r" "r_offset r' = r_offset r" "r_addend r' = r_addend r"
proof -
  have i: "unat (of_nat i :: u32) = i" using assms(2,3) by (intro of_nat_u32) simp
  have t64: "unat (ELF64_R_TYPE v) < 2 ^ 32" for v by (simp add: ELF64_R_TYPE_def unat_mask)
  have t8: "unat (ELF32_R_TYPE v) < 2 ^ 8" for v by (simp add: ELF32_R_TYPE_def unat_mask)
  have c: "rel_class r = RelocationAddend64 \<or> rel_class r = Relocation32 \<or> rel_class r = RelocationAddend32"
    using assms(1) by (cases "rel_class r") (simp_all add: reloc_ok_def)
  show thesis
  proof (cases "rel_class r = RelocationAddend64")
    case True
    then show thesis
      using R_INFO_64 [OF t64, of "of_nat i" "r_info r"] i assms(1)
      by (intro that [of "r \<lparr> r_info := ELF64_R_INFO (of_nat i) (ELF64_R_TYPE (r_info r)) \<rparr>"])
        (simp_all add: setSymbolInfo_def rel_getType_def reloc_ok_def reloc_symbol_def reloc_type_def)
  next
    case False
    then have "unat (of_nat i :: u32) < 2 ^ 24" using assms(1,2) i by (simp add: reloc_ok_def)
    from R_INFO_32 [OF this t8, of "r_info r"] show thesis
      using False c i assms(1)
      by (intro that [of "r \<lparr> r_info := ucast (ucast (ELF32_R_INFO (of_nat i) (ELF32_R_TYPE (r_info r))) :: u32) \<rparr>"])
        (auto simp: setSymbolInfo_def rel_getType_def reloc_ok_def reloc_symbol_def reloc_type_def)
  qed
qed


lemma rel_getSymbol_ok: "reloc_ok n r \<Longrightarrow> \<exists>s. rel_getSymbol r = Inr s \<and> unat s = reloc_symbol r"
  by (cases "rel_class r") (simp_all add: reloc_ok_def rel_getSymbol_def reloc_symbol_def)

text \<open>What renumbering does to one relocation.\<close>

definition renumbered :: "Relocation \<Rightarrow> nat \<Rightarrow> Relocation \<Rightarrow> bool" where
  "renumbered r i r' \<longleftrightarrow> reloc_symbol r' = i \<and> reloc_type r' = reloc_type r \<and> rel_class r' = rel_class r \<and>
     r_offset r' = r_offset r \<and> r_addend r' = r_addend r"

lemma renumbered_refl: "renumbered r (reloc_symbol r) r"
  by (simp add: renumbered_def)

definition reloc_set :: "nat \<Rightarrow> Relocation \<Rightarrow> Relocation" where
  "reloc_set i r = (case setSymbolInfo (of_nat i) r of Inr r' \<Rightarrow> r' | Inl _ \<Rightarrow> r)"

definition reloc_visit :: "nat list \<Rightarrow> nat \<Rightarrow> Relocation \<times> bool \<Rightarrow> Relocation \<times> bool" where
  "reloc_visit rep i x = (if rep ! i = reloc_symbol (fst x) \<and> \<not> snd x then (reloc_set i (fst x), True) else x)"

lemma reloc_set_ok:
  assumes "reloc_ok n r" and "i < n" and "n < 2 ^ 32"
  shows "setSymbolInfo (of_nat i) r = Inr (reloc_set i r)" "reloc_ok n (reloc_set i r)" "renumbered r i (reloc_set i r)"
proof -
  obtain r' where "setSymbolInfo (of_nat i) r = Inr r'" "reloc_ok n r'" "renumbered r i r'"
    unfolding renumbered_def by (rule setSymbolInfo_ok [OF assms]) blast
  then show "setSymbolInfo (of_nat i) r = Inr (reloc_set i r)" "reloc_ok n (reloc_set i r)" "renumbered r i (reloc_set i r)"
    by (simp_all add: reloc_set_def)
qed

lemma renumber_reloc_ok:
  assumes "reloc_ok n (fst x)" and "i < n" and "n < 2 ^ 32" and "length rep = n" and "\<forall>s \<in> set rep. s < n"
  shows "renumber_reloc (map of_nat rep) i x = Inr (reloc_visit rep i x) \<and> reloc_ok n (fst (reloc_visit rep i x))"
proof -
  obtain r d where x: "x = (r, d)" by (cases x)
  obtain s where s: "rel_getSymbol r = Inr s" "unat s = reloc_symbol r" using rel_getSymbol_ok assms(1) x by auto
  have "rep ! i < n" using assms(2,4,5) by simp
  then have u: "unat (of_nat (rep ! i) :: u32) = rep ! i" using assms(3) by (intro of_nat_u32) simp
  have e: "s = ucast (of_nat (rep ! i) :: u32) \<longleftrightarrow> rep ! i = reloc_symbol r"
    unfolding word_unat_eq_iff by (simp only: s(2) unat_ucast_u32_u64 u eq_commute)
  show ?thesis using assms(1,2,4) s(1) e reloc_set_ok [OF _ assms(2,3), of r] by (auto simp: x renumber_reloc_def reloc_visit_def)
qed

lemma rfold_rmap:
  assumes "\<And>i x. i \<in> set is \<Longrightarrow> P x \<Longrightarrow> g i x = Inr (G i x) \<and> P (G i x)" and "\<forall>x \<in> set xs. P x"
  shows "rfold (\<lambda>i. rmap (g i)) is xs = Inr (map (fold G is) xs) \<and> (\<forall>x \<in> set xs. P (fold G is x))"
  using assms
proof (induction "is" arbitrary: xs)
  case (Cons i "is")
  have "rmap (g i) xs = Inr (map (G i) xs)" using Cons.prems by (intro rmap_map) auto
  then show ?case using Cons.IH [of "map (G i) xs"] Cons.prems by (simp add: comp_def)
qed simp

lemma reloc_visit_done: "fold (reloc_visit rep) is (r, True) = (r, True)"
  by (induction "is") (simp_all add: reloc_visit_def)

text \<open>Each relocation is renumbered at the first place that held its symbol.\<close>

lemma reloc_visits:
  "(\<exists>i \<in> set is. rep ! i = reloc_symbol r \<and> fst (fold (reloc_visit rep) is (r, False)) = reloc_set i r) \<or>
   (\<forall>i \<in> set is. rep ! i \<noteq> reloc_symbol r) \<and> fst (fold (reloc_visit rep) is (r, False)) = r"
proof (induction "is")
  case (Cons i "is")
  have "reloc_visit rep i (r, False) = (if rep ! i = reloc_symbol r then (reloc_set i r, True) else (r, False))"
    by (simp add: reloc_visit_def)
  then show ?case using Cons reloc_visit_done [of rep "is" "reloc_set i r"]
    by (cases "rep ! i = reloc_symbol r") simp_all
qed simp


definition relocated :: "nat list \<Rightarrow> nat list \<Rightarrow> Relocation \<Rightarrow> Relocation" where
  "relocated rep idx r = fst (fold (reloc_visit rep) idx (r, False))"

definition table_visit :: "nat \<Rightarrow> nat list \<Rightarrow> nat \<Rightarrow> nat \<times> (Relocation \<times> bool) list \<Rightarrow> nat \<times> (Relocation \<times> bool) list" where
  "table_visit sect rep i u = (if fst u = sect then (fst u, map (reloc_visit rep i) (snd u)) else u)"

lemma table_visits: "fold (table_visit sect rep) is (l, xs) = (l, if l = sect then map (fold (reloc_visit rep) is) xs else xs)"
  by (induction "is" arbitrary: xs) (auto simp: table_visit_def)

lemma renumber_ok:
  assumes "\<forall>t \<in> set ts. rt_link t = sect \<longrightarrow> (\<forall>r \<in> set (relocations t). reloc_ok n r)"
    and "\<forall>i \<in> set idx. i < n" and "n < 2 ^ 32" and "length rep = n" and "\<forall>s \<in> set rep. s < n"
  shows "renumber sect (map of_nat rep) idx ts =
    Inr (map (\<lambda>t. if rt_link t = sect then t \<lparr> relocations := map (relocated rep idx) (relocations t) \<rparr> else t) ts)"
proof -
  let ?P = "\<lambda>u. fst u = sect \<longrightarrow> (\<forall>x \<in> set (snd u). reloc_ok n (fst x))"
  let ?u = "\<lambda>t. (rt_link t, map (\<lambda>r. (r, False)) (relocations t))"
  have step: "renumber_table sect (map of_nat rep) i u = Inr (table_visit sect rep i u) \<and> ?P (table_visit sect rep i u)"
    if "i \<in> set idx" and "?P u" for i and u :: "nat \<times> (Relocation \<times> bool) list"
  proof (cases "fst u = sect")
    case True
    have "rmap (renumber_reloc (map of_nat rep) i) (snd u) = Inr (map (reloc_visit rep i) (snd u))"
      using renumber_reloc_ok [OF _ _ assms(3,4,5)] that True assms(2) by (intro rmap_map) simp
    moreover have "reloc_ok n (fst (reloc_visit rep i x))" if "x \<in> set (snd u)" for x
      using renumber_reloc_ok [OF _ _ assms(3,4,5)] that \<open>?P u\<close> True assms(2) \<open>i \<in> set idx\<close> by simp
    ultimately show ?thesis using True by (simp add: renumber_table_def table_visit_def)
  qed (simp add: renumber_table_def table_visit_def)
  have "\<forall>u \<in> set (map ?u ts). ?P u" using assms(1) by auto
  then have "rfold (\<lambda>i. rmap (renumber_table sect (map of_nat rep) i)) idx (map ?u ts)
      = Inr (map (fold (table_visit sect rep) idx) (map ?u ts))"
    using rfold_rmap [where P = ?P and g = "renumber_table sect (map of_nat rep)" and G = "table_visit sect rep", OF step] by blast
  then show ?thesis
    by (simp add: renumber_def table_visits comp_def relocated_def)
qed

text \<open>After the sort a relocation refers to the same symbol.\<close>

lemma relocated_ok:
  assumes "reloc_ok n r" and "n < 2 ^ 32" and "positions_of n rep" and "a \<le> n" and "\<forall>i < a. rep ! i = i"
  shows "reloc_symbol r < n \<Longrightarrow> reloc_symbol (relocated rep [a..<n] r) < n \<and> rep ! reloc_symbol (relocated rep [a..<n] r) = reloc_symbol r"
    and "\<not> reloc_symbol r < n \<Longrightarrow> relocated rep [a..<n] r = r"
    and "renumbered r (reloc_symbol (relocated rep [a..<n] r)) (relocated rep [a..<n] r)"
proof -
  let ?r = "relocated rep [a..<n] r"
  note p = positions_of_facts [OF assms(3)]
  from reloc_visits [of "[a..<n]" rep r]
  consider i where "a \<le> i" "i < n" "rep ! i = reloc_symbol r" "?r = reloc_set i r"
    | "\<forall>i \<in> set [a..<n]. rep ! i \<noteq> reloc_symbol r" "?r = r"
    unfolding relocated_def by fastforce
  note c = this
  have ex: "\<exists>i < n. rep ! i = reloc_symbol r" if "reloc_symbol r < n"
    using that p(1,2) by (metis in_set_conv_nth lessThan_iff)
  show "reloc_symbol r < n \<Longrightarrow> reloc_symbol ?r < n \<and> rep ! reloc_symbol ?r = reloc_symbol r"
  proof (cases rule: c)
    case (1 i)
    then show ?thesis using reloc_set_ok(3) [OF assms(1) 1(2) assms(2)] by (simp add: renumbered_def)
  next
    case 2
    assume l: "reloc_symbol r < n"
    then obtain i where i: "i < n" "rep ! i = reloc_symbol r" using ex by blast
    then have "i < a" using 2(1) by (cases "a \<le> i") auto
    then show ?thesis using i assms(5) l 2(2) by simp
  qed
  show "\<not> reloc_symbol r < n \<Longrightarrow> ?r = r"
  proof (cases rule: c)
    case (1 i)
    then have "reloc_symbol r \<in> set rep" using p(1) nth_mem [of i rep] by simp
    then show "\<not> reloc_symbol r < n \<Longrightarrow> ?r = r" using p(2) by simp
  qed
  show "renumbered r (reloc_symbol ?r) ?r"
  proof (cases rule: c)
    case (1 i)
    then show ?thesis using reloc_set_ok(3) [OF assms(1) 1(2) assms(2)] by (simp add: renumbered_def)
  qed (simp add: renumbered_refl)
qed


lemma arranged_ok:
  assumes "symtab_ok t names" and "positions_of (length names) rep"
  shows "symtab_ok (arranged t rep) (map ((!) names) rep)"
  using arranged_name [OF assms] positions_of_facts(1) [OF assms(2)] assms(1)
  by (simp add: symtab_ok_def symtab_names_def) (simp add: arranged_def)

lemma gnu_order_prefix: "i < a \<Longrightarrow> a \<le> length names \<Longrightarrow> gnu_order names a nb ! i = i"
  by (simp add: gnu_order_def nth_append)

lemma length_gnu_order: "a \<le> length names \<Longrightarrow> length (gnu_order names a nb) = length names"
  by (simp add: gnu_order_def)

lemma sortForGnuHash_ok:
  assumes "symtab_ok t names" and "stringTable t \<noteq> None" and "dynamic t" and "length vs = length names"
    and "nb \<noteq> 0" and "a \<le> length names"
    and "\<forall>rt \<in> set rts. rt_link rt = symtab_section t \<longrightarrow> (\<forall>r \<in> set (relocations rt). reloc_ok (length names) r)"
  shows "sortForGnuHash a nb t vs rts = Inr (arranged t (gnu_order names a nb), map ((!) vs) (gnu_order names a nb),
    map (\<lambda>rt. if rt_link rt = symtab_section t
      then rt \<lparr> relocations := map (relocated (gnu_order names a nb) [a..<length names]) (relocations rt) \<rparr> else rt) rts)"
proof -
  let ?n = "length names" let ?o = "gnu_order names a nb"
  have n: "length (symbols t) = ?n" "?n < 2 ^ 32" using assms(1) by (simp_all add: symtab_ok_def symtab_names_def)
  have "arranged t [0..<?n] = t"
  proof -
    have "map (\<lambda>i. (symbols t ! ([0..<?n] ! i)) \<lparr> sym_index := of_nat i \<rparr>) [0..<?n] = symbols t"
      using assms(1) n by (intro nth_equalityI) (simp_all add: symtab_ok_def symtab_names_def)
    then show ?thesis by (simp add: arranged_def)
  qed
  moreover have "map ((!) vs) [0..<?n] = vs" using assms(4) by (metis map_nth)
  ultimately have s: "sort_at t vs [0..<?n] = \<lparr> so_table = t, so_versyms = vs, so_rep = map of_nat [0..<?n] \<rparr>"
    by (simp add: sort_at_def)
  note p = positions_of_facts [OF gnu_order_positions [OF assms(6), of nb]]
  have "renumber (symtab_section t) (map of_nat ?o) [a..<?n] rts = Inr (map (\<lambda>rt. if rt_link rt = symtab_section t
      then rt \<lparr> relocations := map (relocated ?o [a..<?n]) (relocations rt) \<rparr> else rt) rts)"
    using p by (intro renumber_ok [OF assms(7) _ n(2)]) auto
  then show ?thesis
    using sort_passes_at [OF assms(1,5,6), of vs] assms(2-4) n(1) s
    by (simp add: sortForGnuHash_def Let_def) (simp add: sort_at_def)
qed

section \<open>Property\<close>

text \<open>
  C13. \<open>sortForGnuHash\<close> leaves the symbols below the first hashed one in place and stably sorts the
  others by their bucket; versions move with their symbols, and every relocation of a linked table
  is renumbered so that it refers to the symbol it referred to before.
\<close>

theorem sortForGnuHash_stable:
  assumes "symtab_ok t names" and "stringTable t \<noteq> None" and "dynamic t" and "length vs = length names"
    and "nb \<noteq> 0" and "a \<le> length names"
    and "\<forall>rt \<in> set rts. rt_link rt = symtab_section t \<longrightarrow> (\<forall>r \<in> set (relocations rt). reloc_ok (length names) r)"
  shows "\<exists>t' vs' rts'. sortForGnuHash a nb t vs rts = Inr (t', vs', rts') \<and>
    (let order = [0..<a] @ sort_key (\<lambda>i. elf_gnu_hash (names ! i) mod nb) [a..<length names] in
      symtab_ok t' (map ((!) names) order) \<and> vs' = map ((!) vs) order \<and>
      (\<forall>i < length names. symbols t' ! i = (symbols t ! (order ! i)) \<lparr> sym_index := of_nat i \<rparr>) \<and>
      length rts' = length rts \<and>
      (\<forall>k < length rts. length (relocations (rts' ! k)) = length (relocations (rts ! k)) \<and>
        (rt_link (rts ! k) \<noteq> symtab_section t \<longrightarrow> rts' ! k = rts ! k) \<and>
        (rt_link (rts ! k) = symtab_section t \<longrightarrow> (\<forall>j < length (relocations (rts ! k)).
          let r = relocations (rts ! k) ! j; r' = relocations (rts' ! k) ! j in
          renumbered r (reloc_symbol r') r' \<and>
          (if reloc_symbol r < length names then reloc_symbol r' < length names \<and> order ! reloc_symbol r' = reloc_symbol r else r' = r)))))"
proof -
  let ?n = "length names" let ?o = "gnu_order names a nb"
  have n: "?n < 2 ^ 32" using assms(1) by (simp add: symtab_ok_def symtab_names_def)
  note p = gnu_order_positions [OF assms(6), of nb]
  have l: "length ?o = ?n" using length_gnu_order [OF assms(6)] .
  have ok: "reloc_ok ?n (relocations (rts ! k) ! j)"
    if "k < length rts" "rt_link (rts ! k) = symtab_section t" "j < length (relocations (rts ! k))" for k j
    using assms(7) nth_mem [OF that(1)] nth_mem [OF that(3)] that(2) by blast
  note rel = relocated_ok [OF ok n p assms(6), OF _ _ _ allI, OF _ _ _ impI, OF _ _ _ gnu_order_prefix [OF _ assms(6)]]
  show ?thesis
    unfolding gnu_order_def [symmetric] Let_def sortForGnuHash_ok [OF assms]
    by (intro exI conjI, rule refl)
      (use arranged_ok [OF assms(1) p] rel l in \<open>auto simp: arranged_def\<close>)
qed

text \<open>Symbols \<open>b\<close> and \<open>a\<close> in the wrong order, and a relocation that refers to \<open>b\<close>.\<close>

definition ba_table :: SymbolTable where
  "ba_table = \<lparr> symbols = map (\<lambda>(i, nm). \<lparr> sym_index = i, st_name = nm, st_info = 0, st_other = 0, st_shndx = 0, st_value = 0, st_size = 0 \<rparr>)
     [(0, 0), (1, 1), (2, 3)], stringTable = Some \<lparr> strings = [0, 98, 0, 97, 0], st_sizeInBytes = 5 \<rparr>, dynamic = True, symtab_section = 5, symbolSize = 24, symtab_size = 72 \<rparr>"

definition b_relocations :: RelocationTable where
  "b_relocations = \<lparr> rt_link = 5, relocations = [\<lparr> rel_class = RelocationAddend64, r_offset = 0, r_info = 0x100000006, r_addend = 0 \<rparr>] \<rparr>"

lemma ba_table_ok: "symtab_ok ba_table [symbol_without_name, [98], [97]]"
  unfolding symtab_ok_def symtab_names_def by (auto simp: ba_table_def getSymbolName_def getString_def less_Suc_eq)

lemma ba_order: "[0..<1] @ sort_key (\<lambda>i. elf_gnu_hash ([symbol_without_name, [98], [97]] ! i) mod 2) [1..<3] = [0, 2, 1]"
  by (simp add: upt_rec elf_gnu_hash_def)

theorem sortForGnuHash_stable_witness:
  "\<exists>t' vs' rts'. sortForGnuHash 1 2 ba_table [0, 7, 9] [b_relocations] = Inr (t', vs', rts') \<and> vs' = [0, 9, 7] \<and>
     st_name (symbols t' ! 1) = 3 \<and> reloc_symbol (relocations (rts' ! 0) ! 0) = 2"
proof -
  let ?names = "[symbol_without_name, [98], [97]]" let ?o = "[0, 2, 1 :: nat]"
  have sym: "reloc_symbol (relocations b_relocations ! 0) = 1" "length (relocations b_relocations) = 1" "rt_link b_relocations = symtab_section ba_table"
    by (simp_all add: b_relocations_def ba_table_def reloc_symbol_def ELF64_R_SYM_def)
  have r: "\<forall>rt \<in> set [b_relocations]. rt_link rt = symtab_section ba_table \<longrightarrow> (\<forall>r \<in> set (relocations rt). reloc_ok (length ?names) r)"
    by (simp add: b_relocations_def reloc_ok_def)
  have "stringTable ba_table \<noteq> None" "dynamic ba_table" "length [0, 7, 9 :: u16] = length ?names" "(2 :: u32) \<noteq> 0" "1 \<le> length ?names"
    by (simp_all add: ba_table_def)
  note T = sortForGnuHash_stable [OF ba_table_ok this r]
  have L: "length ?names = 3" "length [b_relocations] = 1" by simp_all
  obtain t' vs' rts' where s: "sortForGnuHash 1 2 ba_table [0, 7, 9] [b_relocations] = Inr (t', vs', rts')"
    and v: "vs' = map ((!) [0, 7, 9]) ?o" and t: "\<forall>i < 3. symbols t' ! i = (symbols ba_table ! (?o ! i)) \<lparr> sym_index := of_nat i \<rparr>"
    and q: "\<forall>k < 1. length (relocations (rts' ! k)) = length (relocations ([b_relocations] ! k)) \<and>
        (rt_link ([b_relocations] ! k) \<noteq> symtab_section ba_table \<longrightarrow> rts' ! k = [b_relocations] ! k) \<and>
        (rt_link ([b_relocations] ! k) = symtab_section ba_table \<longrightarrow> (\<forall>j < length (relocations ([b_relocations] ! k)).
          renumbered (relocations ([b_relocations] ! k) ! j) (reloc_symbol (relocations (rts' ! k) ! j)) (relocations (rts' ! k) ! j) \<and>
          (if reloc_symbol (relocations ([b_relocations] ! k) ! j) < 3
           then reloc_symbol (relocations (rts' ! k) ! j) < 3 \<and> ?o ! reloc_symbol (relocations (rts' ! k) ! j) = reloc_symbol (relocations ([b_relocations] ! k) ! j)
           else relocations (rts' ! k) ! j = relocations ([b_relocations] ! k) ! j)))"
    using T unfolding Let_def L ba_order by blast
  from q [rule_format, of 0] sym have i: "reloc_symbol (relocations (rts' ! 0) ! 0) < 3" "?o ! reloc_symbol (relocations (rts' ! 0) ! 0) = 1"
    by simp_all
  then have "reloc_symbol (relocations (rts' ! 0) ! 0) = 0 \<or> reloc_symbol (relocations (rts' ! 0) ! 0) = 1 \<or> reloc_symbol (relocations (rts' ! 0) ! 0) = 2"
    by linarith
  then have "reloc_symbol (relocations (rts' ! 0) ! 0) = 2" using i(2) by (elim disjE) simp_all
  moreover from t have "symbols t' ! 1 = (symbols ba_table ! (?o ! 1)) \<lparr> sym_index := of_nat 1 \<rparr>" by simp
  then have "st_name (symbols t' ! 1) = 3" by (simp add: ba_table_def)
  ultimately show ?thesis using s v by simp
qed

end
