(* ===== verification/Elf_Gnu_Hash.thy ===== *)
theory Elf_Gnu_Hash
  imports Elf_Hash Elf_Sort Base_Align
begin

text \<open>
  The hash table in GNU style: \<open>GnuHashTable\<close> of \<open>src/HashTable.C\<close>. The symbols from \<open>firstSymIndex\<close> on are
  sorted by bucket; a bucket holds its first symbol, and the low bit of an entry ends its chain.
\<close>

section \<open>The table\<close>

record GnuHashTable = HashTable +
  numberOfBloomFilters :: u32
  bloomFilters :: "u64 list"
  firstSymIndex :: u32
  shiftCount :: u32
  hashEntrySize :: u32

definition entryHasStopBit :: "GnuHashTable \<Rightarrow> u32 \<Rightarrow> bool res" where
  "entryHasStopBit h idx = ASSERT (idx < numberOfEntries h) (rbind (rnth (entries h) idx) (\<lambda>e. Inr (e AND 1 \<noteq> 0)))"

definition matchesEntry :: "GnuHashTable \<Rightarrow> u32 \<Rightarrow> u32 \<Rightarrow> bool res" where
  "matchesEntry h idx val = ASSERT (idx < numberOfEntries h) (rbind (rnth (entries h) idx) (\<lambda>e. Inr (e AND NOT 1 = val AND NOT 1)))"

section \<open>Searching\<close>

partial_function (option) gnu_walk :: "SymbolTable \<Rightarrow> GnuHashTable \<Rightarrow> cstring \<Rightarrow> u32 \<Rightarrow> u32 res option" where
  "gnu_walk t h name x = (if \<not> x - firstSymIndex h < numberOfEntries h then Some (Inr x) else
     (case entryHasStopBit h (x - firstSymIndex h) of
        Inl e \<Rightarrow> Some (Inl e)
      | Inr stop \<Rightarrow> if stop then Some (Inr x) else
          (case getSymbolName t (unat x) of
             Inl e \<Rightarrow> Some (Inl e)
           | Inr s \<Rightarrow> if s = name then Some (Inr x) else gnu_walk t h name (x + 1))))"

text \<open>In \<open>bloomFilters[n] & bitmask != bitmask\<close> the comparison binds more tightly, so the filter is read and
  never rejects a name.\<close>

definition bloom_rejects :: "GnuHashTable \<Rightarrow> cstring \<Rightarrow> bool res" where
  "bloom_rejects h name = (let h1 = elf_gnu_hash name; h2 = drop_bit (unat (shiftCount h)) h1;
     bitmask = push_bit (unat (h1 mod hashEntrySize h)) 1 OR push_bit (unat (h2 mod hashEntrySize h)) (1 :: u32) in
     if hashEntrySize h = 0 then Inl DivByZero else
     rbind (rnth (bloomFilters h) (h1 div hashEntrySize h AND (numberOfBloomFilters h - 1))) (\<lambda>w.
       Inr (w AND (if bitmask \<noteq> bitmask then 1 else 0) \<noteq> 0)))"

definition gnu_findSymbol :: "SymbolTable \<Rightarrow> GnuHashTable \<Rightarrow> cstring \<Rightarrow> u32 res" where
  "gnu_findSymbol t h name = rbind (bloom_rejects h name) (\<lambda>r. if r then Inl PrintError else
     if numberOfBuckets h = 0 then Inl DivByZero else
     rbind (rnth (buckets h) (elf_gnu_hash name mod numberOfBuckets h)) (\<lambda>x.
     rbind (case gnu_walk t h name x of None \<Rightarrow> Inl Diverges | Some r \<Rightarrow> r) (\<lambda>x.
     rbind (getSymbolName t (unat x)) (\<lambda>s. if s \<noteq> name then Inl PrintError else Inr x))))"

definition gnu_check :: "SymbolTable \<Rightarrow> GnuHashTable \<Rightarrow> nat \<Rightarrow> unit \<Rightarrow> unit res" where
  "gnu_check t h i u = rbind (getSymbolName t i) (\<lambda>name. rbind (gnu_findSymbol t h name) (\<lambda>x.
     if x \<noteq> of_nat i then Inl PrintError else Inr ()))"

definition gnu_verify :: "SectionHeader \<Rightarrow> SymbolTable \<Rightarrow> GnuHashTable \<Rightarrow> unit res" where
  "gnu_verify sh t h = (if sh_entsize sh \<noteq> (if hashEntrySize h = 4 then 4 else 0) then Inl PrintError else
     if \<not> isPowerOfTwo (numberOfBloomFilters h) then Inl PrintError else
     if numberOfEntries h = 0 then Inr () else
     rfold (gnu_check t h) [unat (firstSymIndex h)..<length (symbols t)] ())"

section \<open>Building\<close>

definition gnu_fill :: "SymbolTable \<Rightarrow> u32 \<Rightarrow> nat \<Rightarrow> u32 list \<Rightarrow> u32 list res" where
  "gnu_fill t nb i bs = rbind (getSymbolName t i) (\<lambda>name. Inr (bs[unat (elf_gnu_hash name mod nb) := of_nat i]))"

text \<open>The counter of the loop down to \<open>firstSymIndex\<close> is unsigned: from index 0 it goes on behind the table.\<close>

definition gnu_buckets :: "SymbolTable \<Rightarrow> u32 \<Rightarrow> u32 \<Rightarrow> u32 list res" where
  "gnu_buckets t a nb = rbind
     (rfold (gnu_fill t nb) (rev [unat a..<length (symbols t)]) (replicate (unat nb) 0))
     (\<lambda>bs. if a = 0 \<or> symbols t = [] then Inl AssertFailed else Inr bs)"

definition stop_bit :: "u32 \<Rightarrow> u32 \<Rightarrow> u32 \<Rightarrow> bool list \<Rightarrow> bool list res" where
  "stop_bit a ne x stopBits = (if x > a then
     (if x - a - 1 < ne then Inr (stopBits[unat (x - a - 1) := True]) else Inl OutOfBounds) else Inr stopBits)"

definition gnu_entry :: "SymbolTable \<Rightarrow> u32 \<Rightarrow> bool list \<Rightarrow> nat \<Rightarrow> u32 res" where
  "gnu_entry t a stopBits i = rbind (getSymbolName t (unat (of_nat i + a))) (\<lambda>name.
     let e = elf_gnu_hash name AND NOT 1 in Inr (if stopBits ! i then e OR 1 else e))"

definition gnu_buildTable :: "SectionHeader \<Rightarrow> u32 \<Rightarrow> u32 \<Rightarrow> GnuHashTable \<Rightarrow> SymbolTable \<times> u16 list \<times> RelocationTable list \<Rightarrow>
    (GnuHashTable \<times> SymbolTable \<times> u16 list \<times> RelocationTable list) res" where
  "gnu_buildTable sh numEntries numBuckets h elf = (if numberOfEntries h = 0 then Inr (h, elf) else
     let ne = numEntries; nb = numBuckets + numberOfBloomFilters h - 1; a = firstSymIndex h in
     case elf of (t, vs, rts) \<Rightarrow>
     rbind (sortForGnuHash (unat a) nb t vs rts) (\<lambda>(t, vs, rts).
     ASSERT (nb \<noteq> 0) (
     rbind (gnu_buckets t a nb) (\<lambda>bs.
     rbind (rfold (stop_bit a ne) bs (replicate (unat ne) False)) (\<lambda>stopBits.
     rbind (rmap (gnu_entry t a stopBits) [0..<unat ne]) (\<lambda>es.
       let h = h \<lparr> numberOfBuckets := nb, buckets := bs, numberOfEntries := ne, entries := es,
                   numberOfBloomFilters := 1, bloomFilters := [0xffffffffffffffff],
                   hash_size := 16 + hashEntrySize h + 4 * nb + 4 * ne \<rparr> in
       rbind (gnu_verify sh t h) (\<lambda>_. Inr (h, t, vs, rts))))))))"

definition gnu_passedThreshold :: "GnuHashTable \<Rightarrow> bool" where
  "gnu_passedThreshold h \<longleftrightarrow> numberOfBuckets h < numberOfEntries h div 2 \<or> numberOfBuckets h < 2"

definition gnu_addEntry :: "SectionHeader \<Rightarrow> GnuHashTable \<Rightarrow> SymbolTable \<times> u16 list \<times> RelocationTable list \<Rightarrow>
    (GnuHashTable \<times> SymbolTable \<times> u16 list \<times> RelocationTable list) res" where
  "gnu_addEntry sh h elf = gnu_buildTable sh (numberOfEntries h + 1) (numberOfBuckets h - 1) h elf"

definition gnu_expandSize :: "SectionHeader \<Rightarrow> u32 \<Rightarrow> GnuHashTable \<Rightarrow> SymbolTable \<times> u16 list \<times> RelocationTable list \<Rightarrow>
    (GnuHashTable \<times> SymbolTable \<times> u16 list \<times> RelocationTable list) res" where
  "gnu_expandSize sh amt h elf = gnu_buildTable sh (numberOfEntries h) (numberOfBuckets h + amt) h elf"

section \<open>Sorted chains\<close>

text \<open>
  What a search relies on: the names from \<open>first\<close> on are sorted by hash, a bucket starts at the first name
  with its hash or at 0, and a chain stops where the next name has another hash.
\<close>

locale sorted_chains =
  fixes hash :: "'t \<Rightarrow> 'n \<Rightarrow> nat" and first :: "'t \<Rightarrow> nat" and start :: "'t \<Rightarrow> nat \<Rightarrow> nat" and stop :: "'t \<Rightarrow> nat \<Rightarrow> bool"
    and built :: "'n list \<Rightarrow> 't \<Rightarrow> bool"
  assumes hash_mono: "built ns t \<Longrightarrow> first t \<le> i \<Longrightarrow> i \<le> j \<Longrightarrow> j < length ns \<Longrightarrow> hash t (ns ! i) \<le> hash t (ns ! j)"
    and start_some: "built ns t \<Longrightarrow> first t \<le> i \<Longrightarrow> i < length ns \<Longrightarrow> hash t (ns ! i) = hash t n \<Longrightarrow>
      first t \<le> start t (hash t n) \<and> start t (hash t n) \<le> i \<and> hash t (ns ! start t (hash t n)) = hash t n"
    and start_none: "built ns t \<Longrightarrow> (\<And>i. first t \<le> i \<Longrightarrow> i < length ns \<Longrightarrow> hash t (ns ! i) \<noteq> hash t n) \<Longrightarrow> start t (hash t n) = 0"
    and first_pos: "built ns t \<Longrightarrow> 0 < first t"
    and stop_iff: "built ns t \<Longrightarrow> first t \<le> i \<Longrightarrow> i < length ns \<Longrightarrow>
      stop t i \<longleftrightarrow> Suc i < length ns \<and> hash t (ns ! i) \<noteq> hash t (ns ! Suc i)"
begin

lemma walk_to:
  assumes "built ns t" and "first t \<le> x" and "x \<le> k" and "k < length ns" and "hash t (ns ! x) = hash t (ns ! k)"
    and "\<And>i. x \<le> i \<Longrightarrow> i < k \<Longrightarrow> ns ! i \<noteq> n"
    and "\<And>y. first t \<le> y \<Longrightarrow> y < length ns \<Longrightarrow> f y = (if stop t y \<or> ns ! y = n then fin y else f (Suc y))"
  shows "f x = f k"
  using assms(2,3,5,6)
proof (induction "k - x" arbitrary: x)
  case (Suc d)
  then have x: "x < k" by simp
  have "hash t (ns ! x) \<le> hash t (ns ! Suc x)" by (rule hash_mono [OF assms(1)]) (use Suc.prems x assms(4) in auto)
  moreover have "hash t (ns ! Suc x) \<le> hash t (ns ! k)" by (rule hash_mono [OF assms(1)]) (use Suc.prems x assms(4) in auto)
  ultimately have h: "hash t (ns ! Suc x) = hash t (ns ! k)" using Suc.prems by simp
  then have "\<not> stop t x" using stop_iff [OF assms(1) Suc.prems(1)] x assms(4) Suc.prems by simp
  then have "f x = f (Suc x)" using assms(7) [OF Suc.prems(1)] Suc.prems(4) [of x] x assms(4) by simp
  also have "\<dots> = f k" using Suc x h by simp
  finally show ?case .
qed simp

lemma search_present:
  assumes "built ns t" and "first t \<le> k" and "k < length ns" and "\<And>i. first t \<le> i \<Longrightarrow> i < k \<Longrightarrow> ns ! i \<noteq> ns ! k"
    and "\<And>y. first t \<le> y \<Longrightarrow> y < length ns \<Longrightarrow> f y = (if stop t y \<or> ns ! y = ns ! k then fin y else f (Suc y))"
  shows "f (start t (hash t (ns ! k))) = fin k"
proof -
  note s = start_some [OF assms(1-3) refl]
  have "f (start t (hash t (ns ! k))) = f k"
    using s assms(4) by (intro walk_to [OF assms(1) _ _ assms(3) _ _ assms(5)]) auto
  then show ?thesis using assms(5) [OF assms(2,3)] by simp
qed

lemma search_absent:
  assumes "built ns t" and "\<And>i. first t \<le> i \<Longrightarrow> i < length ns \<Longrightarrow> ns ! i \<noteq> n"
    and "\<And>y. first t \<le> y \<Longrightarrow> y < length ns \<Longrightarrow> f y = (if stop t y \<or> ns ! y = n then fin y else f (Suc y))"
    and "\<And>y. \<not> (first t \<le> y \<and> y < length ns) \<Longrightarrow> f y = fin y"
  shows "\<exists>y. f (start t (hash t n)) = fin y \<and> (y = 0 \<or> y = length ns \<or> first t \<le> y \<and> y < length ns \<and> ns ! y \<noteq> n)"
proof (cases "\<exists>i. first t \<le> i \<and> i < length ns \<and> hash t (ns ! i) = hash t n")
  case False
  then have "start t (hash t n) = 0" using start_none [OF assms(1)] by blast
  then show ?thesis using assms(4) [of 0] first_pos [OF assms(1)] by auto
next
  case True
  have *: "\<exists>y. f x = fin y \<and> (y = length ns \<or> first t \<le> y \<and> y < length ns)" if "first t \<le> x" "x \<le> length ns" for x
    using that
  proof (induction "length ns - x" arbitrary: x)
    case 0
    then show ?case using assms(4) [of x] by auto
  next
    case (Suc d)
    then have "x < length ns" by simp
    then show ?case using assms(3) [OF Suc.prems(1)] Suc.hyps(1) [of "Suc x"] Suc.hyps(2) Suc.prems by (cases "stop t x \<or> ns ! x = n") auto
  qed
  from True obtain i where i: "first t \<le> i" "i < length ns" "hash t (ns ! i) = hash t n" by blast
  from start_some [OF assms(1) i] i(2) show ?thesis using * [of "start t (hash t n)"] assms(2) by (metis order.trans less_imp_le)
qed

end

section \<open>Filling buckets and stop bits\<close>

lemma fill_first:
  assumes "\<forall>i. a \<le> i \<and> i < n \<longrightarrow> K i < length bs"
  shows "length (fold (\<lambda>i bs. bs[K i := of_nat i]) (rev [a..<n]) bs) = length bs \<and>
    (\<forall>b < length bs. (\<exists>i. a \<le> i \<and> i < n \<and> K i = b \<and> (\<forall>j. a \<le> j \<and> j < i \<longrightarrow> K j \<noteq> b) \<and>
        fold (\<lambda>i bs. bs[K i := of_nat i]) (rev [a..<n]) bs ! b = (of_nat i :: u32)) \<or>
      (\<forall>i. a \<le> i \<and> i < n \<longrightarrow> K i \<noteq> b) \<and> fold (\<lambda>i bs. bs[K i := of_nat i]) (rev [a..<n]) bs ! b = bs ! b)"
  using assms
proof (induction "n - a" arbitrary: a)
  case (Suc d)
  let ?f = "\<lambda>i bs. bs[K i := of_nat i]"
  have a: "a < n" "Suc a \<le> n" using Suc.hyps(2) by simp_all
  have r: "rev [a..<n] = rev [Suc a..<n] @ [a]" using a by (simp add: upt_rec)
  have IH: "length (fold ?f (rev [Suc a..<n]) bs) = length bs"
    "\<And>b. b < length bs \<Longrightarrow> (\<exists>i. Suc a \<le> i \<and> i < n \<and> K i = b \<and> (\<forall>j. Suc a \<le> j \<and> j < i \<longrightarrow> K j \<noteq> b) \<and> fold ?f (rev [Suc a..<n]) bs ! b = of_nat i) \<or>
      (\<forall>i. Suc a \<le> i \<and> i < n \<longrightarrow> K i \<noteq> b) \<and> fold ?f (rev [Suc a..<n]) bs ! b = bs ! b"
    using Suc.hyps(1) [of "Suc a"] Suc.hyps(2) Suc.prems by auto
  have v: "fold ?f (rev [a..<n]) bs = (fold ?f (rev [Suc a..<n]) bs)[K a := of_nat a]" by (simp add: r)
  show ?case
  proof (intro conjI allI impI)
    show "length (fold ?f (rev [a..<n]) bs) = length bs" by (simp add: v IH(1))
    fix b assume b: "b < length bs"
    show "(\<exists>i. a \<le> i \<and> i < n \<and> K i = b \<and> (\<forall>j. a \<le> j \<and> j < i \<longrightarrow> K j \<noteq> b) \<and> fold ?f (rev [a..<n]) bs ! b = of_nat i) \<or>
      (\<forall>i. a \<le> i \<and> i < n \<longrightarrow> K i \<noteq> b) \<and> fold ?f (rev [a..<n]) bs ! b = bs ! b"
    proof (cases "K a = b")
      case True
      then show ?thesis using a b IH(1) by (intro disjI1 exI [of _ a]) (simp add: v)
    next
      case False
      have e: "fold ?f (rev [a..<n]) bs ! b = fold ?f (rev [Suc a..<n]) bs ! b" using False by (simp add: v)
      have s: "a \<le> j \<and> j < i \<longrightarrow> K j \<noteq> b" if "Suc a \<le> j \<and> j < i \<longrightarrow> K j \<noteq> b" for i j
        using that False by (cases "j = a") auto
      from IH(2) [OF b] show ?thesis
      proof (elim disjE exE conjE)
        fix i assume "Suc a \<le> i" "i < n" "K i = b" "\<forall>j. Suc a \<le> j \<and> j < i \<longrightarrow> K j \<noteq> b" "fold ?f (rev [Suc a..<n]) bs ! b = of_nat i"
        then show ?thesis using s e by (intro disjI1 exI [of _ i]) auto
      next
        assume "\<forall>i. Suc a \<le> i \<and> i < n \<longrightarrow> K i \<noteq> b" "fold ?f (rev [Suc a..<n]) bs ! b = bs ! b"
        then show ?thesis using s e by (intro disjI2) auto
      qed
    qed
  qed
qed auto

lemma stop_bits:
  assumes "\<forall>x \<in> set bs. x > a \<longrightarrow> unat x - unat a - 1 < unat ne" and "length st = unat ne"
  shows "\<exists>st'. rfold (stop_bit a ne) bs st = Inr st' \<and> length st' = unat ne \<and>
    (\<forall>j < unat ne. st' ! j \<longleftrightarrow> st ! j \<or> (\<exists>x \<in> set bs. unat x = unat a + j + 1))"
  using assms
proof (induction bs arbitrary: st)
  case (Cons x bs)
  show ?case
  proof (cases "x > a")
    case True
    then have d: "unat (x - a) = unat x - unat a" "unat a < unat x" by (simp_all add: unat_sub word_le_nat_alt word_less_nat_alt)
    then have u: "unat (x - a - 1) = unat x - unat a - 1"
      by (simp add: unat_sub word_le_nat_alt word_less_nat_alt)
    then have "stop_bit a ne x st = Inr (st[unat x - unat a - 1 := True])"
      using Cons.prems(1) True by (simp add: stop_bit_def word_less_nat_alt)
    moreover obtain st' where "rfold (stop_bit a ne) bs (st[unat x - unat a - 1 := True]) = Inr st'" "length st' = unat ne"
      "\<forall>j < unat ne. st' ! j \<longleftrightarrow> st[unat x - unat a - 1 := True] ! j \<or> (\<exists>x \<in> set bs. unat x = unat a + j + 1)"
      using Cons.IH [of "st[unat x - unat a - 1 := True]"] Cons.prems by auto
    ultimately show ?thesis using Cons.prems d(2) True by (auto simp: nth_list_update)
  next
    case False
    then have "unat x \<le> unat a" by (simp add: word_less_nat_alt)
    then show ?thesis using False Cons by (auto simp: stop_bit_def)
  qed
qed simp


section \<open>What buildTable builds\<close>

lemma stop_bit_test: "(e AND NOT 1) AND 1 = (0 :: u32)" "((e AND NOT 1) OR 1) AND 1 = (1 :: u32)"
  by (rule bit_word_eqI, auto simp: bit_simps)+

text \<open>A table over \<open>names\<close> with the first hashed symbol \<open>a\<close> (\<open>length names - a\<close> entries).\<close>

abbreviation gnu_key :: "cstring list \<Rightarrow> u32 \<Rightarrow> nat \<Rightarrow> nat" where
  "gnu_key names nb i \<equiv> unat (elf_gnu_hash (names ! i) mod nb)"

definition gnu_built :: "cstring list \<Rightarrow> GnuHashTable \<Rightarrow> bool" where
  "gnu_built names h \<longleftrightarrow> (let a = unat (firstSymIndex h); n = length names; nb = numberOfBuckets h in
     0 < a \<and> a < n \<and> n < 2 ^ 32 \<and> nb > 0 \<and> length (buckets h) = unat nb \<and> unat (numberOfEntries h) = n - a \<and>
     length (entries h) = n - a \<and> hashEntrySize h > 0 \<and> numberOfBloomFilters h = 1 \<and> length (bloomFilters h) = 1 \<and>
     sorted (map (gnu_key names nb) [a..<n]) \<and>
     (\<forall>b < unat nb. (\<exists>i. a \<le> i \<and> i < n \<and> gnu_key names nb i = b \<and> (\<forall>j. a \<le> j \<and> j < i \<longrightarrow> gnu_key names nb j \<noteq> b) \<and> buckets h ! b = of_nat i) \<or>
        (\<forall>i. a \<le> i \<and> i < n \<longrightarrow> gnu_key names nb i \<noteq> b) \<and> buckets h ! b = 0) \<and>
     (\<forall>j < n - a. (entries h ! j) AND 1 \<noteq> 0 \<longleftrightarrow> (\<exists>x \<in> set (buckets h). unat x = a + j + 1)))"

lemma gnu_key_mono:
  assumes "sorted (map K [a..<n])" and "a \<le> i" and "i \<le> j" and "j < n"
  shows "K i \<le> (K j :: nat)"
  using sorted_nth_mono [OF assms(1), of "i - a" "j - a"] assms(2-4) by simp

lemma gnu_stop:
  assumes "gnu_built names h" and "unat (firstSymIndex h) \<le> i" and "i < length names"
  shows "(entries h ! (i - unat (firstSymIndex h))) AND 1 \<noteq> 0 \<longleftrightarrow> Suc i < length names \<and>
    gnu_key names (numberOfBuckets h) i \<noteq> gnu_key names (numberOfBuckets h) (Suc i)"
proof -
  let ?a = "unat (firstSymIndex h)" let ?n = "length names" let ?nb = "numberOfBuckets h" let ?K = "gnu_key names ?nb"
  have B: "\<forall>b < unat ?nb. (\<exists>i. ?a \<le> i \<and> i < ?n \<and> ?K i = b \<and> (\<forall>j. ?a \<le> j \<and> j < i \<longrightarrow> ?K j \<noteq> b) \<and> buckets h ! b = of_nat i) \<or>
        (\<forall>i. ?a \<le> i \<and> i < ?n \<longrightarrow> ?K i \<noteq> b) \<and> buckets h ! b = 0"
    and S: "sorted (map ?K [?a..<?n])" and nb: "?nb > 0" "length (buckets h) = unat ?nb" and n: "?n < 4294967296"
    using assms(1) by (simp_all add: gnu_built_def Let_def)
  have e: "(entries h ! (i - ?a)) AND 1 \<noteq> 0 \<longleftrightarrow> (\<exists>x \<in> set (buckets h). unat x = Suc i)"
    using assms by (simp add: gnu_built_def Let_def)
  have "(\<exists>x \<in> set (buckets h). unat x = Suc i) \<longleftrightarrow> Suc i < ?n \<and> (\<forall>j. ?a \<le> j \<and> j < Suc i \<longrightarrow> ?K j \<noteq> ?K (Suc i))" (is "?L \<longleftrightarrow> ?R")
  proof
    assume ?L
    then obtain b where b: "b < unat ?nb" "unat (buckets h ! b) = Suc i" using nb(2) by (auto simp: in_set_conv_nth)
    then have "buckets h ! b \<noteq> 0" by auto
    then obtain k where k: "?a \<le> k" "k < ?n" "?K k = b" "\<forall>j. ?a \<le> j \<and> j < k \<longrightarrow> ?K j \<noteq> b" "buckets h ! b = of_nat k"
      using B b(1) by blast
    then have "k = Suc i" using b(2) n by (simp add: of_nat_u32)
    then show ?R using k by auto
  next
    assume r: ?R
    have "?K (Suc i) < unat ?nb" by (rule unat_mod_less [OF nb(1)])
    with B obtain k where k: "?a \<le> k" "k < ?n" "?K k = ?K (Suc i)" "\<forall>j. ?a \<le> j \<and> j < k \<longrightarrow> ?K j \<noteq> ?K (Suc i)" "buckets h ! ?K (Suc i) = of_nat k"
      using r assms(2) by (metis le_Suc_eq)
    have "unat (buckets h ! ?K (Suc i)) = k" using k(2,5) n by (simp add: of_nat_u32)
    moreover have "k = Suc i" using k(1,3,4) r assms(2) by (metis le_SucI linorder_neqE_nat)
    ultimately have "unat (buckets h ! ?K (Suc i)) = Suc i" by simp
    then show ?L using nb(2) \<open>?K (Suc i) < unat ?nb\<close> nth_mem by metis
  qed
  moreover have "(\<forall>j. ?a \<le> j \<and> j < Suc i \<longrightarrow> ?K j \<noteq> ?K (Suc i)) \<longleftrightarrow> ?K i \<noteq> ?K (Suc i)" if "Suc i < ?n"
  proof
    assume "?K i \<noteq> ?K (Suc i)"
    then have "?K i < ?K (Suc i)" using gnu_key_mono [OF S assms(2), of "Suc i"] that by simp
    then show "\<forall>j. ?a \<le> j \<and> j < Suc i \<longrightarrow> ?K j \<noteq> ?K (Suc i)"
      using gnu_key_mono [OF S, of _ i] assms(3) by (metis less_Suc_eq_le not_less)
  qed (use assms(2) in auto)
  ultimately show ?thesis using e by auto
qed


interpretation gnu: sorted_chains "\<lambda>h name. unat (elf_gnu_hash name mod numberOfBuckets h)" "\<lambda>h. unat (firstSymIndex h)"
  "\<lambda>h b. unat (buckets h ! b)" "\<lambda>h i. (entries h ! (i - unat (firstSymIndex h))) AND 1 \<noteq> 0" gnu_built
proof
  fix names h i j assume "gnu_built names h" "unat (firstSymIndex h) \<le> i" "i \<le> j" "j < length names"
  then show "gnu_key names (numberOfBuckets h) i \<le> gnu_key names (numberOfBuckets h) j"
    using gnu_key_mono [of "gnu_key names (numberOfBuckets h)" "unat (firstSymIndex h)" "length names" i j] by (simp add: gnu_built_def Let_def)
next
  fix names i and h :: GnuHashTable and name :: cstring
  let ?a = "unat (firstSymIndex h)" let ?nb = "numberOfBuckets h" let ?b = "unat (elf_gnu_hash name mod ?nb)"
  assume g: "gnu_built names h" and i: "?a \<le> i" "i < length names" "gnu_key names ?nb i = ?b"
  then have "?b < unat ?nb" by (intro unat_mod_less) (simp add: gnu_built_def Let_def)
  then obtain k where k: "?a \<le> k" "k < length names" "gnu_key names ?nb k = ?b" "\<forall>j. ?a \<le> j \<and> j < k \<longrightarrow> gnu_key names ?nb j \<noteq> ?b" "buckets h ! ?b = of_nat k"
    using g i unfolding gnu_built_def Let_def by blast
  have "unat (buckets h ! ?b) = k" using k(2,5) g by (simp add: of_nat_u32 gnu_built_def Let_def)
  moreover have "k \<le> i"
  proof (rule ccontr)
    assume "\<not> k \<le> i"
    then show False using k(4) i(1,3) by simp
  qed
  ultimately show "?a \<le> unat (buckets h ! ?b) \<and> unat (buckets h ! ?b) \<le> i \<and> gnu_key names ?nb (unat (buckets h ! ?b)) = ?b"
    using k(1,3) by simp
next
  fix names and h :: GnuHashTable and name :: cstring
  let ?a = "unat (firstSymIndex h)" let ?nb = "numberOfBuckets h" let ?b = "unat (elf_gnu_hash name mod ?nb)"
  assume g: "gnu_built names h" and i: "\<And>i. ?a \<le> i \<Longrightarrow> i < length names \<Longrightarrow> gnu_key names ?nb i \<noteq> ?b"
  then have "?b < unat ?nb" by (intro unat_mod_less) (simp add: gnu_built_def Let_def)
  then have "buckets h ! ?b = 0" using g i unfolding gnu_built_def Let_def by blast
  then show "unat (buckets h ! ?b) = 0" by simp
next
  fix names h assume "gnu_built names h"
  then show "0 < unat (firstSymIndex h)" by (simp add: gnu_built_def Let_def)
qed (rule gnu_stop)

text \<open>The loop of the search on a table that has been built.\<close>

lemma gnu_walk_built:
  assumes "symtab_names t names" and "gnu_built names h" and "y \<le> length names"
  shows "gnu_walk t h name (of_nat y) = (if \<not> (unat (firstSymIndex h) \<le> y \<and> y < length names) then Some (Inr (of_nat y))
    else if (entries h ! (y - unat (firstSymIndex h))) AND 1 \<noteq> 0 \<or> names ! y = name then Some (Inr (of_nat y))
    else gnu_walk t h name (of_nat (Suc y)))"
proof -
  let ?a = "firstSymIndex h" let ?n = "length names"
  have g: "0 < unat ?a" "unat ?a < ?n" "?n < 4294967296" "unat (numberOfEntries h) = ?n - unat ?a" "length (entries h) = ?n - unat ?a"
    using assms(2) by (simp_all add: gnu_built_def Let_def)
  have u: "unat (of_nat y :: u32) = y" using assms(3) g(3) by (intro of_nat_u32) simp
  have in_range: "of_nat y - ?a < numberOfEntries h \<longleftrightarrow> unat ?a \<le> y \<and> y < ?n" 
  proof (cases "unat ?a \<le> y")
    case True
    then have "unat (of_nat y - ?a) = y - unat ?a" using u by (simp add: unat_sub word_le_nat_alt)
    then show ?thesis using True g by (auto simp: word_less_nat_alt)
  next
    case False
    then have "unat (of_nat y - ?a) = 2 ^ 32 + y - unat ?a"
      using u u32_lt [of ?a] by (simp add: unat_sub_if')
    then show ?thesis using False g by (auto simp: word_less_nat_alt)
  qed
  show ?thesis
  proof (cases "unat ?a \<le> y \<and> y < ?n")
    case True
    then have "unat (of_nat y - ?a) = y - unat ?a" using u by (simp add: unat_sub word_le_nat_alt)
    moreover have "y - unat ?a < ?n - unat ?a" using True by (intro diff_less_mono) auto
    ultimately have "entryHasStopBit h (of_nat y - ?a) = Inr ((entries h ! (y - unat ?a)) AND 1 \<noteq> 0)"
      using in_range True g(5) by (simp add: entryHasStopBit_def rnth_def)
    moreover have "getSymbolName t y = Inr (names ! y)" using assms(1) True by (simp add: symtab_names_def)
    ultimately show ?thesis using in_range True by (subst gnu_walk.simps) (simp add: u add.commute)
  next
    case False
    then show ?thesis using in_range by (subst gnu_walk.simps) simp
  qed
qed

lemma gnu_findSymbol_start:
  assumes "gnu_built names h"
  shows "gnu_findSymbol t h name = rbind (case gnu_walk t h name (of_nat (unat (buckets h ! unat (elf_gnu_hash name mod numberOfBuckets h))))
     of None \<Rightarrow> Inl Diverges | Some r \<Rightarrow> r) (\<lambda>x. rbind (getSymbolName t (unat x)) (\<lambda>s. if s \<noteq> name then Inl PrintError else Inr x))"
proof -
  have g: "hashEntrySize h > 0" "numberOfBloomFilters h = 1" "length (bloomFilters h) = 1" "numberOfBuckets h > 0" "length (buckets h) = unat (numberOfBuckets h)"
    using assms by (simp_all add: gnu_built_def Let_def)
  then have "bloom_rejects h name = Inr False" by (simp add: bloom_rejects_def rnth_def Let_def)
  moreover have "rnth (buckets h) (elf_gnu_hash name mod numberOfBuckets h) = Inr (buckets h ! unat (elf_gnu_hash name mod numberOfBuckets h))"
    using unat_mod_less [OF g(4)] g(5) by (simp add: rnth_def)
  moreover have "numberOfBuckets h \<noteq> 0" using g(4) by force
  ultimately show ?thesis by (simp add: gnu_findSymbol_def)
qed

lemma gnu_findSymbol_present:
  assumes "symtab_names t names" and "gnu_built names h" and "unat (firstSymIndex h) \<le> k" and "k < length names"
    and "\<And>i. unat (firstSymIndex h) \<le> i \<Longrightarrow> i < k \<Longrightarrow> names ! i \<noteq> names ! k"
  shows "gnu_findSymbol t h (names ! k) = Inr (of_nat k)"
proof -
  have "gnu_walk t h (names ! k) (of_nat (unat (buckets h ! gnu_key names (numberOfBuckets h) k))) = Some (Inr (of_nat k))"
    by (rule gnu.search_present [OF assms(2-5), where f = "\<lambda>y. gnu_walk t h (names ! k) (of_nat y)" and fin = "\<lambda>y. Some (Inr (of_nat y))"])
      (use gnu_walk_built [OF assms(1,2)] in simp_all)
  moreover have "unat (of_nat k :: u32) = k" using assms(2,4) by (intro of_nat_u32) (simp add: gnu_built_def Let_def)
  ultimately show ?thesis using assms(1,4) by (simp add: gnu_findSymbol_start [OF assms(2)] symtab_names_def)
qed

lemma gnu_findSymbol_absent:
  assumes "symtab_names t names" and "gnu_built names h" and "name \<notin> set names"
  shows "gnu_findSymbol t h name = Inl PrintError \<or> gnu_findSymbol t h name = Inl AssertFailed"
proof -
  let ?f = "\<lambda>y. if y \<le> length names then gnu_walk t h name (of_nat y) else Some (Inr (of_nat y))"
  let ?s = "unat (buckets h ! unat (elf_gnu_hash name mod numberOfBuckets h))"
  have n: "length names < 4294967296" "0 < length names" using assms(2) by (auto simp: gnu_built_def Let_def)
  have "\<exists>y. ?f ?s = Some (Inr (of_nat y)) \<and> (y = 0 \<or> y = length names \<or> unat (firstSymIndex h) \<le> y \<and> y < length names \<and> names ! y \<noteq> name)"
  proof (rule gnu.search_absent [OF assms(2), where f = ?f and fin = "\<lambda>y. Some (Inr (of_nat y))"])
    fix y assume "unat (firstSymIndex h) \<le> y" "y < length names"
    then show "?f y = (if (entries h ! (y - unat (firstSymIndex h))) AND 1 \<noteq> 0 \<or> names ! y = name then Some (Inr (of_nat y)) else ?f (Suc y))"
      using gnu_walk_built [OF assms(1,2), of y] by simp
  next
    fix y assume "\<not> (unat (firstSymIndex h) \<le> y \<and> y < length names)"
    then show "?f y = Some (Inr (of_nat y))" using gnu_walk_built [OF assms(1,2), of y name] by (cases "y \<le> length names") simp_all
  qed (use assms(3) in auto)
  then obtain y where y: "?f ?s = Some (Inr (of_nat y))" "y \<le> length names" by auto
  have "?s \<le> length names"
  proof (cases "\<exists>i. unat (firstSymIndex h) \<le> i \<and> i < length names \<and> gnu_key names (numberOfBuckets h) i = unat (elf_gnu_hash name mod numberOfBuckets h)")
    case True
    then obtain i where i: "unat (firstSymIndex h) \<le> i" "i < length names"
      "gnu_key names (numberOfBuckets h) i = unat (elf_gnu_hash name mod numberOfBuckets h)" by blast
    then show ?thesis using gnu.start_some [OF assms(2) i] by linarith
  next
    case False
    then show ?thesis using gnu.start_none [OF assms(2), of name] by auto
  qed
  then have w: "gnu_walk t h name (of_nat ?s) = Some (Inr (of_nat y))" using y(1) by simp
  have u: "unat (of_nat y :: u32) = y" using y(2) n by (intro of_nat_u32) simp
  show ?thesis
  proof (cases "y < length names")
    case True
    then have "getSymbolName t y = Inr (names ! y)" "names ! y \<noteq> name" using assms(1,3) by (auto simp: symtab_names_def)
    then show ?thesis using w u by (simp add: gnu_findSymbol_start [OF assms(2)])
  next
    case False
    then have "getSymbolName t y = Inl AssertFailed" using assms(1) y(2) by (simp add: getSymbolName_def symtab_names_def split: option.splits)
    then show ?thesis using w u by (simp add: gnu_findSymbol_start [OF assms(2)])
  qed
qed


lemma gnu_buckets_ok:
  assumes "symtab_names t names" and "0 < unat a" and "unat a < length names" and "nb > 0"
  shows "\<exists>bs. gnu_buckets t a nb = Inr bs \<and> length bs = unat nb \<and>
    (\<forall>b < unat nb. (\<exists>i. unat a \<le> i \<and> i < length names \<and> gnu_key names nb i = b \<and>
        (\<forall>j. unat a \<le> j \<and> j < i \<longrightarrow> gnu_key names nb j \<noteq> b) \<and> bs ! b = of_nat i) \<or>
      (\<forall>i. unat a \<le> i \<and> i < length names \<longrightarrow> gnu_key names nb i \<noteq> b) \<and> bs ! b = 0)"
proof -
  let ?n = "length names" let ?f = "\<lambda>i bs. bs[gnu_key names nb i := (of_nat i :: u32)]"
  have n: "length (symbols t) = ?n" using assms(1) by (simp add: symtab_names_def)
  have "rfold (gnu_fill t nb) (rev [unat a..<?n]) (replicate (unat nb) 0) = Inr (fold ?f (rev [unat a..<?n]) (replicate (unat nb) 0)) \<and> True"
    using assms(1) by (intro rfold_fold) (simp_all add: gnu_fill_def symtab_names_def)
  then have "gnu_buckets t a nb = Inr (fold ?f (rev [unat a..<?n]) (replicate (unat nb) 0))"
    using assms(2,3) n by (auto simp: gnu_buckets_def)
  moreover have "\<forall>i. unat a \<le> i \<and> i < ?n \<longrightarrow> gnu_key names nb i < length (replicate (unat nb) (0 :: u32))"
    using unat_mod_less [OF assms(4)] by simp
  from fill_first [OF this] have "length (fold ?f (rev [unat a..<?n]) (replicate (unat nb) 0)) = unat nb"
    "\<And>b. b < unat nb \<Longrightarrow> (\<exists>i. unat a \<le> i \<and> i < ?n \<and> gnu_key names nb i = b \<and> (\<forall>j. unat a \<le> j \<and> j < i \<longrightarrow> gnu_key names nb j \<noteq> b) \<and>
        fold ?f (rev [unat a..<?n]) (replicate (unat nb) 0) ! b = of_nat i) \<or>
      (\<forall>i. unat a \<le> i \<and> i < ?n \<longrightarrow> gnu_key names nb i \<noteq> b) \<and> fold ?f (rev [unat a..<?n]) (replicate (unat nb) 0) ! b = 0"
    by auto
  ultimately show ?thesis by blast
qed

lemma gnu_entries_ok:
  assumes "symtab_names t names" and "unat a < length names" and "length st = length names - unat a"
  shows "\<exists>es. rmap (gnu_entry t a st) [0..<length names - unat a] = Inr es \<and> length es = length names - unat a \<and>
    (\<forall>j < length names - unat a. (es ! j) AND 1 \<noteq> 0 \<longleftrightarrow> st ! j)"
proof -
  let ?e = "\<lambda>j. if st ! j then (elf_gnu_hash (names ! (j + unat a)) AND NOT 1) OR 1 else elf_gnu_hash (names ! (j + unat a)) AND NOT 1"
  have "gnu_entry t a st j = Inr (?e j)" if "j \<in> set [0..<length names - unat a]" for j
  proof -
    have "length names < 4294967296" using assms(1) by (simp add: symtab_names_def)
    then have "unat (of_nat j + a) = j + unat a" using that by (simp add: unat_word_ariths unat_of_nat)
    moreover have "getSymbolName t (j + unat a) = Inr (names ! (j + unat a))" using that assms(1) by (simp add: symtab_names_def)
    ultimately show ?thesis by (simp add: gnu_entry_def Let_def)
  qed
  then have "rmap (gnu_entry t a st) [0..<length names - unat a] = Inr (map ?e [0..<length names - unat a])" by (rule rmap_map)
  then show ?thesis using stop_bit_test by simp
qed

lemma gnu_checks:
  assumes "symtab_names t names" and "gnu_built names h"
  shows "\<forall>i \<in> set is. unat (firstSymIndex h) \<le> i \<and> i < length names \<Longrightarrow> rfold (gnu_check t h) is () =
    (if \<forall>i \<in> set is. \<forall>j. unat (firstSymIndex h) \<le> j \<and> j < i \<longrightarrow> names ! j \<noteq> names ! i then Inr () else Inl PrintError)"
proof (induction "is")
  case (Cons i "is")
  let ?a = "unat (firstSymIndex h)"
  have i: "?a \<le> i" "i < length names" "length names < 4294967296" using Cons.prems assms(2) by (auto simp: gnu_built_def Let_def)
  obtain k where k: "?a \<le> k" "names ! k = names ! i" "k \<le> i" and m: "\<And>j. ?a \<le> j \<Longrightarrow> j < k \<Longrightarrow> names ! j \<noteq> names ! i"
  proof -
    let ?P = "\<lambda>k. ?a \<le> k \<and> names ! k = names ! i"
    have "?P (LEAST k. ?P k)" using LeastI [of ?P i] i(1) by simp
    moreover have "(LEAST k. ?P k) \<le> i" using Least_le [of ?P i] i(1) by simp
    moreover have "\<not> ?P j" if "j < (LEAST k. ?P k)" for j using not_less_Least [OF that] .
    ultimately show thesis using that by blast
  qed
  have "gnu_findSymbol t h (names ! k) = Inr (of_nat k)"
    using k i m by (intro gnu_findSymbol_present [OF assms]) auto
  moreover have "unat (of_nat k :: u32) = k" "unat (of_nat i :: u32) = i" using k i by (auto intro!: of_nat_u32)
  then have "(of_nat k = (of_nat i :: u32)) \<longleftrightarrow> k = i" by metis
  moreover have "k = i \<longleftrightarrow> (\<forall>j. ?a \<le> j \<and> j < i \<longrightarrow> names ! j \<noteq> names ! i)"
  proof
    assume "\<forall>j. ?a \<le> j \<and> j < i \<longrightarrow> names ! j \<noteq> names ! i"
    then have "\<not> k < i" using k(1,2) by blast
    then show "k = i" using k(3) by simp
  qed (use m in auto)
  moreover have "getSymbolName t i = Inr (names ! i)" using assms(1) i by (simp add: symtab_names_def)
  ultimately have "gnu_check t h i () = (if \<forall>j. ?a \<le> j \<and> j < i \<longrightarrow> names ! j \<noteq> names ! i then Inr () else Inl PrintError)"
    using k(2) by (simp add: gnu_check_def)
  moreover have "rfold (gnu_check t h) is () =
    (if \<forall>i \<in> set is. \<forall>j. ?a \<le> j \<and> j < i \<longrightarrow> names ! j \<noteq> names ! i then Inr () else Inl PrintError)"
    using Cons by simp
  ultimately show ?case by simp
qed simp

lemma distinct_from: "distinct (drop a names) \<longleftrightarrow> (\<forall>i \<in> set [a..<length names]. \<forall>j. a \<le> j \<and> j < i \<longrightarrow> names ! j \<noteq> names ! i)"
proof
  assume d: "distinct (drop a names)"
  show "\<forall>i \<in> set [a..<length names]. \<forall>j. a \<le> j \<and> j < i \<longrightarrow> names ! j \<noteq> names ! i"
  proof (intro ballI allI impI)
    fix i j assume "i \<in> set [a..<length names]" "a \<le> j \<and> j < i"
    then have "a \<le> j" "j < i" "a \<le> i" "i - a < length (drop a names)" "j - a < length (drop a names)" by auto
    then show "names ! j \<noteq> names ! i" using nth_eq_iff_index_eq [OF d, of "j - a" "i - a"] by auto
  qed
next
  assume *: "\<forall>i \<in> set [a..<length names]. \<forall>j. a \<le> j \<and> j < i \<longrightarrow> names ! j \<noteq> names ! i"
  have "names ! (a + j) \<noteq> names ! (a + i)" if "j < i" "i < length names - a" for i j
    using *[rule_format, of "a + i" "a + j"] that by simp
  then show "distinct (drop a names)" unfolding distinct_conv_nth by (auto simp: nat_neq_iff dest: sym)
qed


lemma gnu_verify_built:
  assumes "symtab_names t names" and "gnu_built names h" and "sh_entsize sh = (if hashEntrySize h = 4 then 4 else 0)"
  shows "gnu_verify sh t h = (if distinct (drop (unat (firstSymIndex h)) names) then Inr () else Inl PrintError)"
proof -
  have g: "numberOfBloomFilters h = 1" "unat (numberOfEntries h) = length names - unat (firstSymIndex h)" "unat (firstSymIndex h) < length names"
    using assms(2) by (simp_all add: gnu_built_def Let_def)
  then have "numberOfEntries h \<noteq> 0" by auto
  moreover have "isPowerOfTwo 1" by code_simp
  moreover have "length (symbols t) = length names" using assms(1) by (simp add: symtab_names_def)
  ultimately show ?thesis using assms(3) gnu_checks [OF assms(1,2), of "[unat (firstSymIndex h)..<length names]"] g(1)
    by (simp add: gnu_verify_def distinct_from)
qed

text \<open>The table built over names that are sorted already.\<close>

lemma gnu_build_sorted:
  assumes "symtab_names t names" and "0 < unat a" and "unat a < length names" and "nb > 0" and "unat ne = length names - unat a"
    and "sorted (map (gnu_key names nb) [unat a..<length names])" and "firstSymIndex h = a" and "hashEntrySize h > 0"
  shows "\<exists>bs st es. gnu_buckets t a nb = Inr bs \<and> rfold (stop_bit a ne) bs (replicate (unat ne) False) = Inr st \<and>
    rmap (gnu_entry t a st) [0..<unat ne] = Inr es \<and>
    gnu_built names (h \<lparr> numberOfBuckets := nb, buckets := bs, numberOfEntries := ne, entries := es,
      numberOfBloomFilters := 1, bloomFilters := [0xffffffffffffffff], hash_size := sz \<rparr>)"
proof -
  let ?n = "length names"
  have n: "?n < 4294967296" using assms(1) by (simp add: symtab_names_def)
  obtain bs where bs: "gnu_buckets t a nb = Inr bs" "length bs = unat nb"
    "\<forall>b < unat nb. (\<exists>i. unat a \<le> i \<and> i < ?n \<and> gnu_key names nb i = b \<and>
        (\<forall>j. unat a \<le> j \<and> j < i \<longrightarrow> gnu_key names nb j \<noteq> b) \<and> bs ! b = of_nat i) \<or>
      (\<forall>i. unat a \<le> i \<and> i < ?n \<longrightarrow> gnu_key names nb i \<noteq> b) \<and> bs ! b = 0"
    using gnu_buckets_ok [OF assms(1-4)] by blast
  have "unat x < ?n" if "x \<in> set bs" for x
  proof -
    from that bs(2) obtain b where b: "b < unat nb" "x = bs ! b" by (auto simp: in_set_conv_nth)
    with bs(3) have "x = 0 \<or> (\<exists>i. i < ?n \<and> x = of_nat i)" by blast
    then show ?thesis using n assms(3) by (auto simp: of_nat_u32)
  qed
  then have "\<forall>x \<in> set bs. x > a \<longrightarrow> unat x - unat a - 1 < unat ne"
    using assms(5) by (fastforce simp: word_less_nat_alt)
  from stop_bits [OF this, of "replicate (unat ne) False"]
  obtain st where st: "rfold (stop_bit a ne) bs (replicate (unat ne) False) = Inr st" "length st = unat ne"
    "\<forall>j < unat ne. st ! j \<longleftrightarrow> (\<exists>x \<in> set bs. unat x = unat a + j + 1)" by auto
  obtain es where es: "rmap (gnu_entry t a st) [0..<unat ne] = Inr es" "length es = unat ne" "\<forall>j < unat ne. (es ! j) AND 1 \<noteq> 0 \<longleftrightarrow> st ! j"
    using gnu_entries_ok [OF assms(1,3)] st(2) assms(5) by metis
  have "gnu_built names (h \<lparr> numberOfBuckets := nb, buckets := bs, numberOfEntries := ne, entries := es,
      numberOfBloomFilters := 1, bloomFilters := [0xffffffffffffffff], hash_size := sz \<rparr>)"
    unfolding gnu_built_def Let_def using assms(2-8) bs(2,3) es(2,3) st(3) n by simp
  then show ?thesis using bs(1) st(1) es(1) by blast
qed

lemma sorted_gnu_order:
  assumes "a \<le> length names"
  shows "sorted (map (gnu_key (map ((!) names) (gnu_order names a nb)) nb) [a..<length names])"
proof -
  let ?o = "gnu_order names a nb" let ?s = "sort_key (bucket_key names nb) [a..<length names]"
  have "map (gnu_key (map ((!) names) ?o) nb) [a..<length names] = map (\<lambda>i. unat (bucket_key names nb i)) ?s"
    using assms by (intro nth_equalityI) (simp_all add: gnu_order_def nth_append)
  moreover have "sorted (map (\<lambda>i. unat (bucket_key names nb i)) ?s)"
    using sorted_sort_key [of "bucket_key names nb" "[a..<length names]"] by (simp add: sorted_iff_nth_mono word_le_nat_alt)
  ultimately show ?thesis by simp
qed

lemma gnu_buildTable_ok:
  assumes "symtab_ok t names" and "stringTable t \<noteq> None" and "dynamic t" and "length vs = length names"
    and "\<forall>rt \<in> set rts. rt_link rt = symtab_section t \<longrightarrow> (\<forall>r \<in> set (relocations rt). reloc_ok (length names) r)"
    and "numberOfEntries h \<noteq> 0" and "0 < firstSymIndex h" and "unat (firstSymIndex h) < length names"
    and "unat ne = length names - unat (firstSymIndex h)" and "numBuckets + numberOfBloomFilters h - 1 > 0"
    and "hashEntrySize h > 0" and "sh_entsize sh = (if hashEntrySize h = 4 then 4 else 0)"
  shows "let a = unat (firstSymIndex h); nb = numBuckets + numberOfBloomFilters h - 1; names' = map ((!) names) (gnu_order names a nb) in
    \<exists>h' t' vs' rts'. gnu_buildTable sh ne numBuckets h (t, vs, rts) =
        (if distinct (drop a names) then Inr (h', t', vs', rts') else Inl PrintError) \<and>
      firstSymIndex h' = firstSymIndex h \<and> gnu_built names' h' \<and> symtab_ok t' names' \<and> set names' = set names \<and>
      mset (drop a names') = mset (drop a names)"
proof -
  let ?a = "firstSymIndex h" let ?nb = "numBuckets + numberOfBloomFilters h - 1" let ?n = "length names"
  let ?o = "gnu_order names (unat ?a) ?nb" let ?names = "map ((!) names) ?o" let ?t = "arranged t ?o"
  have a: "unat ?a \<le> ?n" "?nb \<noteq> 0" "0 < unat ?a" using assms(7,8,10) by (auto simp: word_less_nat_alt)
  note p = gnu_order_positions [OF a(1), of ?nb]
  have t: "symtab_ok ?t ?names" by (rule arranged_ok [OF assms(1) p])
  then have tn: "symtab_names ?t ?names" by (simp add: symtab_ok_def)
  have l: "length ?names = ?n" using length_gnu_order [OF a(1)] by simp
  let ?h = "\<lambda>bs es. h \<lparr> numberOfBuckets := ?nb, buckets := bs, numberOfEntries := ne, entries := es,
      numberOfBloomFilters := 1, bloomFilters := [0xffffffffffffffff], hash_size := 16 + hashEntrySize h + 4 * ?nb + 4 * ne \<rparr>"
  obtain bs st es where b: "gnu_buckets ?t ?a ?nb = Inr bs" "rfold (stop_bit ?a ne) bs (replicate (unat ne) False) = Inr st"
    "rmap (gnu_entry ?t ?a st) [0..<unat ne] = Inr es" "gnu_built ?names (?h bs es)"
    using gnu_build_sorted [OF tn a(3) _ assms(10) _ _ refl assms(11)] sorted_gnu_order [OF a(1)] assms(8,9) unfolding l by blast
  define rts' where "rts' = map (\<lambda>rt. if rt_link rt = symtab_section t
      then rt \<lparr> relocations := map (relocated ?o [unat ?a..<?n]) (relocations rt) \<rparr> else rt) rts"
  have build: "gnu_buildTable sh ne numBuckets h (t, vs, rts) = rbind (gnu_verify sh ?t (?h bs es)) (\<lambda>_. Inr (?h bs es, ?t, map ((!) vs) ?o, rts'))"
    using sortForGnuHash_ok [OF assms(1-4) a(2,1) assms(5)] assms(6) a(2) b(1-3) by (simp add: gnu_buildTable_def Let_def rts'_def)
  have s: "mset (drop (unat ?a) ?names) = mset (drop (unat ?a) names)"
  proof -
    have "drop (unat ?a) ?names = map ((!) names) (sort_key (bucket_key names ?nb) [unat ?a..<?n])" by (simp add: gnu_order_def)
    then have "mset (drop (unat ?a) ?names) = mset (map ((!) names) [unat ?a..<?n])" by (simp add: mset_map)
    also have "map ((!) names) [unat ?a..<?n] = drop (unat ?a) names" by (intro nth_equalityI) simp_all
    finally show ?thesis .
  qed
  have v: "gnu_verify sh ?t (?h bs es) = (if distinct (drop (unat ?a) names) then Inr () else Inl PrintError)"
    using gnu_verify_built [OF tn b(4), of sh] assms(12) mset_eq_imp_distinct_iff [OF s] by simp
  have "set ?names = (!) names ` {..<?n}" using positions_of_facts(2) [OF p] by simp
  also have "\<dots> = set names" by (auto simp: set_conv_nth)
  finally have names: "set ?names = set names" .
  have "gnu_buildTable sh ne numBuckets h (t, vs, rts) = (if distinct (drop (unat ?a) names)
      then Inr (?h bs es, ?t, map ((!) vs) ?o, rts') else Inl PrintError)"
    using build v by simp
  moreover have "firstSymIndex (?h bs es) = ?a" by simp
  ultimately show ?thesis using b(4) t names s unfolding Let_def by blast
qed

section \<open>Property\<close>

text \<open>
  C12. \<open>buildTable\<close> of a GNU hash table sorts the symbols and succeeds exactly when the hashed names are
  distinct, stopping the run otherwise. Then every hashed symbol of the sorted table is found at
  its index, and a search for a name that is not in the table stops the run.
\<close>

theorem gnu_buildTable_search:
  assumes "symtab_ok t names" and "stringTable t \<noteq> None" and "dynamic t" and "length vs = length names"
    and "\<forall>rt \<in> set rts. rt_link rt = symtab_section t \<longrightarrow> (\<forall>r \<in> set (relocations rt). reloc_ok (length names) r)"
    and "numberOfEntries h \<noteq> 0" and "0 < firstSymIndex h" and "unat (firstSymIndex h) < length names"
    and "unat ne = length names - unat (firstSymIndex h)" and "numBuckets + numberOfBloomFilters h - 1 > 0"
    and "hashEntrySize h > 0" and "sh_entsize sh = (if hashEntrySize h = 4 then 4 else 0)"
  shows "let a = unat (firstSymIndex h); nb = numBuckets + numberOfBloomFilters h - 1;
      names' = map ((!) names) ([0..<a] @ sort_key (\<lambda>i. elf_gnu_hash (names ! i) mod nb) [a..<length names]) in
    if distinct (drop a names)
    then \<exists>h' t' vs' rts'. gnu_buildTable sh ne numBuckets h (t, vs, rts) = Inr (h', t', vs', rts') \<and> symtab_ok t' names' \<and>
      (\<forall>k. a \<le> k \<and> k < length names \<longrightarrow> gnu_findSymbol t' h' (names' ! k) = Inr (of_nat k)) \<and>
      (\<forall>name. name \<notin> set names \<longrightarrow> gnu_findSymbol t' h' name = Inl PrintError \<or> gnu_findSymbol t' h' name = Inl AssertFailed)
    else gnu_buildTable sh ne numBuckets h (t, vs, rts) = Inl PrintError"
proof -
  let ?a = "unat (firstSymIndex h)" let ?nb = "numBuckets + numberOfBloomFilters h - 1"
  let ?names = "map ((!) names) (gnu_order names ?a ?nb)"
  obtain h' t' vs' rts' where b: "gnu_buildTable sh ne numBuckets h (t, vs, rts) =
      (if distinct (drop ?a names) then Inr (h', t', vs', rts') else Inl PrintError)"
    and f: "firstSymIndex h' = firstSymIndex h" and g: "gnu_built ?names h'" and t: "symtab_ok t' ?names"
    and n: "set ?names = set names" "mset (drop ?a ?names) = mset (drop ?a names)"
    using gnu_buildTable_ok [OF assms] unfolding Let_def by blast
  have tn: "symtab_names t' ?names" using t by (simp add: symtab_ok_def)
  have l: "length ?names = length names" using assms(8) by (simp add: length_gnu_order)
  have "gnu_findSymbol t' h' (?names ! k) = Inr (of_nat k)" if "distinct (drop ?a names)" "?a \<le> k \<and> k < length names" for k
  proof -
    have "distinct (drop ?a ?names)" using that(1) mset_eq_imp_distinct_iff [OF n(2)] by simp
    then show ?thesis using that(2) l f distinct_from [of ?a ?names] by (intro gnu_findSymbol_present [OF tn g]) auto
  qed
  moreover have "gnu_findSymbol t' h' name = Inl PrintError \<or> gnu_findSymbol t' h' name = Inl AssertFailed" if "name \<notin> set names" for name
    using gnu_findSymbol_absent [OF tn g] that n(1) by blast
  ultimately show ?thesis using b t unfolding gnu_order_def [symmetric] Let_def by (cases "distinct (drop ?a names)") auto
qed

text \<open>
  The table \<open>buildTable\<close> makes has no stop bit at its end, so the chain of the last bucket is open: a
  reader that relies on the bit walks past the table.
\<close>

theorem gnu_last_chain_open:
  assumes "symtab_ok t names" and "stringTable t \<noteq> None" and "dynamic t" and "length vs = length names"
    and "\<forall>rt \<in> set rts. rt_link rt = symtab_section t \<longrightarrow> (\<forall>r \<in> set (relocations rt). reloc_ok (length names) r)"
    and "numberOfEntries h \<noteq> 0" and "0 < firstSymIndex h" and "unat (firstSymIndex h) < length names"
    and "unat ne = length names - unat (firstSymIndex h)" and "numBuckets + numberOfBloomFilters h - 1 > 0"
    and "hashEntrySize h > 0" and "sh_entsize sh = (if hashEntrySize h = 4 then 4 else 0)"
    and "distinct (drop (unat (firstSymIndex h)) names)"
  shows "\<exists>h' t' vs' rts'. gnu_buildTable sh ne numBuckets h (t, vs, rts) = Inr (h', t', vs', rts') \<and>
    unat (numberOfEntries h') = length (entries h') \<and> entries h' \<noteq> [] \<and> last (entries h') AND 1 = 0"
proof -
  let ?a = "unat (firstSymIndex h)"
  obtain h' t' vs' rts' names' where b: "gnu_buildTable sh ne numBuckets h (t, vs, rts) = Inr (h', t', vs', rts')"
    and f: "firstSymIndex h' = firstSymIndex h" and g: "gnu_built names' h'"
    using gnu_buildTable_ok [OF assms(1-12)] assms(13) unfolding Let_def by auto
  have e: "?a < length names'" "length (entries h') = length names' - ?a" "unat (numberOfEntries h') = length (entries h')"
    using g f by (simp_all add: gnu_built_def Let_def)
  then have l: "last (entries h') = entries h' ! (length names' - 1 - ?a)" by (subst last_conv_nth) auto
  have i: "?a \<le> length names' - 1" "length names' - 1 < length names'" "Suc (length names' - 1) = length names'" using e(1) by auto
  have "last (entries h') AND 1 = 0" using gnu_stop [OF g, of "length names' - 1"] i f l by simp
  then show ?thesis using b e by auto
qed

definition ba_hash :: GnuHashTable where
  "ba_hash = \<lparr> numberOfBuckets = 2, buckets = [], numberOfEntries = 1, entries = [], hash_size = 0, numberOfBloomFilters = 1,
     bloomFilters = [], firstSymIndex = 1, shiftCount = 0, hashEntrySize = 8 \<rparr>"

lemma ba_hash_inputs:
  "stringTable ba_table \<noteq> None" "dynamic ba_table" "length [0, 7, 9 :: u16] = length [symbol_without_name, [98], [97]]"
  "\<forall>rt \<in> set []. rt_link rt = symtab_section ba_table \<longrightarrow> (\<forall>r \<in> set (relocations rt). reloc_ok (length [symbol_without_name, [98], [97]]) r)"
  "numberOfEntries ba_hash \<noteq> 0" "0 < firstSymIndex ba_hash" "unat (firstSymIndex ba_hash) < length [symbol_without_name, [98], [97]]"
  "unat (2 :: u32) = length [symbol_without_name, [98], [97]] - unat (firstSymIndex ba_hash)" "2 + numberOfBloomFilters ba_hash - 1 > 0"
  "hashEntrySize ba_hash > 0" "sh_entsize (hash_header SHT_GNU_HASH 0) = (if hashEntrySize ba_hash = 4 then 4 else 0)"
  "distinct (drop (unat (firstSymIndex ba_hash)) [symbol_without_name, [98], [97]])"
  by (simp_all add: ba_table_def ba_hash_def)

theorem gnu_buildTable_search_witness:
  "\<exists>h' t' vs' rts'. gnu_buildTable (hash_header SHT_GNU_HASH 0) 2 2 ba_hash (ba_table, [0, 7, 9], []) = Inr (h', t', vs', rts') \<and>
     gnu_findSymbol t' h' [97] = Inr 1"
proof -
  let ?names = "[symbol_without_name, [98], [97]]"
  note T = gnu_buildTable_search [OF ba_table_ok ba_hash_inputs(1-11)]
  have e: "unat (firstSymIndex ba_hash) = 1" "2 + numberOfBloomFilters ba_hash - 1 = 2" "length ?names = 3" by (simp_all add: ba_hash_def)
  have d: "distinct (drop 1 ?names)" by simp
  obtain h' t' vs' rts' where b: "gnu_buildTable (hash_header SHT_GNU_HASH 0) 2 2 ba_hash (ba_table, [0, 7, 9], []) = Inr (h', t', vs', rts')"
    and f: "\<forall>k. 1 \<le> k \<and> k < 3 \<longrightarrow> gnu_findSymbol t' h' (map ((!) ?names) [0, 2, 1] ! k) = Inr (of_nat k)"
    using T d unfolding Let_def e ba_order if_P [OF d] by blast
  have "gnu_findSymbol t' h' [97] = Inr 1" using f [rule_format, of 1] by simp
  then show ?thesis using b by blast
qed

theorem gnu_last_chain_open_witness:
  "\<exists>h' t' vs' rts'. gnu_buildTable (hash_header SHT_GNU_HASH 0) 2 2 ba_hash (ba_table, [0, 7, 9], []) = Inr (h', t', vs', rts') \<and>
     last (entries h') AND 1 = 0"
  using gnu_last_chain_open [OF ba_table_ok ba_hash_inputs] by blast

end
