(* ===== verification/Elf_Dynamic.thy ===== *)
theory Elf_Dynamic
  imports Elf_Sections Binary_File
begin

text \<open>
  The dynamic table: \<open>src/DynamicTable.C\<close>. An entry is an object of class \<open>Dynamic64\<close> or \<open>Dynamic32\<close>;
  its tag is read as a 64-bit number in both, and a 32-bit entry keeps the low half of what is
  stored. The two members of the union \<open>d_un\<close> are the same bytes.
\<close>

section \<open>Entries\<close>

record Dynamic =
  is_Dynamic64 :: bool
  d_tag :: u64
  d_un :: u64

definition DT_NULL :: u32 where "DT_NULL = 0"
definition DT_NEEDED :: u32 where "DT_NEEDED = 1"
definition DT_PLTRELSZ :: u32 where "DT_PLTRELSZ = 2"
definition DT_PLTGOT :: u32 where "DT_PLTGOT = 3"
definition DT_HASH :: u32 where "DT_HASH = 4"
definition DT_STRTAB :: u32 where "DT_STRTAB = 5"
definition DT_SYMTAB :: u32 where "DT_SYMTAB = 6"
definition DT_RELA :: u32 where "DT_RELA = 7"
definition DT_RELASZ :: u32 where "DT_RELASZ = 8"
definition DT_RELAENT :: u32 where "DT_RELAENT = 9"
definition DT_STRSZ :: u32 where "DT_STRSZ = 10"
definition DT_SYMENT :: u32 where "DT_SYMENT = 11"
definition DT_INIT :: u32 where "DT_INIT = 12"
definition DT_FINI :: u32 where "DT_FINI = 13"
definition DT_RPATH :: u32 where "DT_RPATH = 15"
definition DT_REL :: u32 where "DT_REL = 17"
definition DT_RELSZ :: u32 where "DT_RELSZ = 18"
definition DT_RELENT :: u32 where "DT_RELENT = 19"
definition DT_PLTREL :: u32 where "DT_PLTREL = 20"
definition DT_JMPREL :: u32 where "DT_JMPREL = 23"
definition DT_RUNPATH :: u32 where "DT_RUNPATH = 29"
definition DT_GNU_HASH :: u32 where "DT_GNU_HASH = 0x6ffffef5"
definition DT_VERSYM :: u32 where "DT_VERSYM = 0x6ffffff0"
definition DT_VERNEED :: u32 where "DT_VERNEED = 0x6ffffffe"

lemmas DT_defs = DT_NULL_def DT_NEEDED_def DT_PLTRELSZ_def DT_PLTGOT_def DT_HASH_def DT_STRTAB_def DT_SYMTAB_def
  DT_RELA_def DT_RELASZ_def DT_RELAENT_def DT_STRSZ_def DT_SYMENT_def DT_INIT_def DT_FINI_def DT_RPATH_def DT_REL_def
  DT_RELSZ_def DT_RELENT_def DT_PLTREL_def DT_JMPREL_def DT_RUNPATH_def DT_GNU_HASH_def DT_VERSYM_def DT_VERNEED_def

definition has_tag :: "u32 \<Rightarrow> Dynamic \<Rightarrow> bool" where
  "has_tag type d \<longleftrightarrow> d_tag d = ucast type"

definition set_tag :: "u32 \<Rightarrow> Dynamic \<Rightarrow> Dynamic" where
  "set_tag type d = d \<lparr> d_tag := (if is_Dynamic64 d then ucast type else scast type) \<rparr>"

definition set_un :: "u64 \<Rightarrow> Dynamic \<Rightarrow> Dynamic" where
  "set_un v d = d \<lparr> d_un := field (is_Dynamic64 d) v \<rparr>"

datatype DynamicValueType = ignored | val | pointer

definition getValueType :: "Dynamic \<Rightarrow> DynamicValueType res" where
  "getValueType d = (let t = sint (d_tag d) in
     if t \<in> {0, 22, 16} then Inr ignored
     else if t \<in> {8, 9, 10, 11, 1, 2, 14, 15, 18, 19, 20, 0x6ffffffd, 0x6fffffff, 0x6ffffff9, 0x6ffffffa} then Inr val
     else if t \<in> {3, 4, 5, 6, 7, 12, 13, 17, 21, 23, 0x6ffffffc, 0x6ffffffe, 0x6ffffff0} then Inr pointer
     else if 0x6ffffd00 < t \<and> t < 0x6ffffdff then Inr val
     else if 0x6ffffe00 < t \<and> t < 0x6ffffeff then Inr pointer
     else Inl PrintError)"

section \<open>The table\<close>

record DynamicTable =
  table64 :: bool
  dynamicSize :: nat
  dyn_bytes :: nat
  dynamics :: "Dynamic list"

definition findEmptyDynamic :: "DynamicTable \<Rightarrow> nat" where
  "findEmptyDynamic t = length (takeWhile (\<lambda>d. \<not> has_tag DT_NULL d) (dynamics t))"

definition countDynamics :: "u32 \<Rightarrow> DynamicTable \<Rightarrow> nat" where
  "countDynamics type t = length (filter (has_tag type) (dynamics t))"

text \<open>The entry found is given by its index.\<close>

fun by_type :: "u32 \<Rightarrow> nat \<Rightarrow> nat \<Rightarrow> Dynamic list \<Rightarrow> nat option" where
  "by_type type idx i [] = None"
| "by_type type idx i (d # ds) = (if has_tag type d then (if idx = 0 then Some i else by_type type (idx - 1) (Suc i) ds)
     else by_type type idx (Suc i) ds)"

definition getDynamicByType :: "u32 \<Rightarrow> nat \<Rightarrow> DynamicTable \<Rightarrow> nat option" where
  "getDynamicByType type idx t = by_type type idx 0 (dynamics t)"

definition dyn_wedge_entry :: "u32 \<Rightarrow> Dynamic \<Rightarrow> Dynamic res" where
  "dyn_wedge_entry shamt d = rbind (getValueType d) (\<lambda>v.
     Inr (if v = pointer \<and> isWedgeAddress (d_un d) then set_un (d_un d + ucast shamt) d else d))"

definition dyn_wedge :: "u32 \<Rightarrow> DynamicTable \<Rightarrow> DynamicTable res" where
  "dyn_wedge shamt t = rbind (rmap (dyn_wedge_entry shamt) (dynamics t)) (\<lambda>ds. Inr (t \<lparr> dynamics := ds \<rparr>))"

text \<open>From slot \<open>n - 1\<close> down to 0, every entry of the type is copied to the place of the one behind it.\<close>

fun shuffle_down :: "u32 \<Rightarrow> nat \<Rightarrow> nat option \<Rightarrow> Dynamic list \<Rightarrow> nat option \<times> Dynamic list" where
  "shuffle_down type 0 prev ds = (prev, ds)"
| "shuffle_down type (Suc i) prev ds = (if has_tag type (ds ! i)
     then shuffle_down type i (Some i) (case prev of None \<Rightarrow> ds
       | Some p \<Rightarrow> ds[p := set_un (d_un (ds ! i)) (set_tag type (ds ! p))])
     else shuffle_down type i prev ds)"

definition prependEntry :: "u32 \<Rightarrow> u32 \<Rightarrow> DynamicTable \<Rightarrow> (nat \<times> DynamicTable) res" where
  "prependEntry type strOffset t = (let e = findEmptyDynamic t in ASSERT (e < length (dynamics t))
     (let type = (if type = DT_RPATH \<and> countDynamics DT_RUNPATH t \<noteq> 0 then DT_RUNPATH else type);
          ds = (dynamics t)[e := set_tag type (dynamics t ! e)]
      in case shuffle_down type (Suc e) None ds of
        (None, _) \<Rightarrow> Inl AssertFailed
      | (Some p, ds) \<Rightarrow> Inr (p, t \<lparr> dynamics := ds[p := set_un (ucast strOffset) (set_tag type (ds ! p))] \<rparr>)))"

text \<open>Only the branch of 32-bit files does anything.\<close>

definition relocateStringTable :: "u64 \<Rightarrow> DynamicTable \<Rightarrow> DynamicTable" where
  "relocateStringTable newAddr t = (if table64 t then t
     else t \<lparr> dynamics := map (\<lambda>d. if has_tag DT_STRTAB d then set_un newAddr d else d) (dynamics t) \<rparr>)"

section \<open>Checking the table\<close>

record DynScan =
  entryCounts :: "nat list"
  relocDynamicAddr :: u64
  relocDynamicSize :: u64
  relocDynamicEnt :: u64
  relocAddendDynamicAddr :: u64
  relocAddendDynamicSize :: u64
  relocAddendDynamicEnt :: u64
  gnuHashTableAddress :: u64
  sysvHashTableAddress :: u64
  stringTableAddress :: u64
  symbolTableAddress :: u64
  pltgotAddress :: u64
  finiFunctionAddress :: u64
  initFunctionAddress :: u64
  verneedAddress :: u64
  versymAddress :: u64

definition scan_start :: DynScan where
  "scan_start = \<lparr> entryCounts = replicate 24 0, relocDynamicAddr = 0, relocDynamicSize = 0, relocDynamicEnt = 0,
     relocAddendDynamicAddr = 0, relocAddendDynamicSize = 0, relocAddendDynamicEnt = 0, gnuHashTableAddress = 0,
     sysvHashTableAddress = 0, stringTableAddress = 0, symbolTableAddress = 0, pltgotAddress = 0, finiFunctionAddress = 0,
     initFunctionAddress = 0, verneedAddress = 0, versymAddress = 0 \<rparr>"

definition count_at :: "nat \<Rightarrow> DynScan \<Rightarrow> DynScan" where
  "count_at i s = s \<lparr> entryCounts := (entryCounts s)[i := entryCounts s ! i + 1] \<rparr>"

text \<open>The counts: a negative tag passes the test against \<open>DT_JMPREL\<close> and indexes before the array.\<close>

definition scan_count :: "Dynamic \<Rightarrow> DynScan \<Rightarrow> DynScan res" where
  "scan_count d s = (if sint (d_tag d) \<le> 23 then
       if sint (d_tag d) < 0 then Inl OutOfBounds else Inr (count_at (nat (sint (d_tag d))) s)
     else if has_tag DT_GNU_HASH d then Inr (count_at 4 s) else Inr s)"

definition rela_size :: "bool \<Rightarrow> u64" where "rela_size is64 = (if is64 then 24 else 12)"
definition rel_size :: "bool \<Rightarrow> u64" where "rel_size is64 = (if is64 then 16 else 8)"

definition scan_checks :: "bool \<Rightarrow> Dynamic \<Rightarrow> bool" where
  "scan_checks is64 d \<longleftrightarrow> (has_tag DT_PLTREL d \<longrightarrow> d_un d = ucast DT_REL \<or> d_un d = ucast DT_RELA) \<and>
     (has_tag DT_RELAENT d \<longrightarrow> d_un d = rela_size is64) \<and> (has_tag DT_RELENT d \<longrightarrow> d_un d = rel_size is64)"

definition scan_store :: "Dynamic \<Rightarrow> DynScan \<Rightarrow> DynScan" where
  "scan_store d s = (let v = d_un d in
     if has_tag DT_RELAENT d then s \<lparr> relocAddendDynamicEnt := v \<rparr>
     else if has_tag DT_RELENT d then s \<lparr> relocDynamicEnt := v \<rparr>
     else if has_tag DT_RELA d then s \<lparr> relocAddendDynamicAddr := v \<rparr>
     else if has_tag DT_REL d then s \<lparr> relocDynamicAddr := v \<rparr>
     else if has_tag DT_RELASZ d then s \<lparr> relocAddendDynamicSize := v \<rparr>
     else if has_tag DT_RELSZ d then s \<lparr> relocDynamicSize := v \<rparr>
     else if has_tag DT_PLTGOT d then s \<lparr> pltgotAddress := v \<rparr>
     else if has_tag DT_HASH d then s \<lparr> sysvHashTableAddress := v \<rparr>
     else if has_tag DT_GNU_HASH d then s \<lparr> gnuHashTableAddress := v \<rparr>
     else if has_tag DT_INIT d then s \<lparr> initFunctionAddress := v \<rparr>
     else if has_tag DT_FINI d then s \<lparr> finiFunctionAddress := v \<rparr>
     else if has_tag DT_STRTAB d then s \<lparr> stringTableAddress := v \<rparr>
     else if has_tag DT_SYMTAB d then s \<lparr> symbolTableAddress := v \<rparr>
     else if has_tag DT_VERNEED d then s \<lparr> verneedAddress := v \<rparr>
     else if has_tag DT_VERSYM d then s \<lparr> versymAddress := v \<rparr>
     else s)"

definition scan_step :: "bool \<Rightarrow> Dynamic \<Rightarrow> DynScan \<Rightarrow> DynScan res" where
  "scan_step is64 d s = rbind (scan_count d s) (\<lambda>s. if scan_checks is64 d then Inr (scan_store d s) else Inl PrintError)"

text \<open>The entry that ends the table is looked at, those behind it are not.\<close>

fun scan_entries :: "bool \<Rightarrow> Dynamic list \<Rightarrow> DynScan \<Rightarrow> DynScan res" where
  "scan_entries is64 [] s = Inr s"
| "scan_entries is64 (d # ds) s = rbind (scan_step is64 d s) (\<lambda>s. if has_tag DT_NULL d then Inr s else scan_entries is64 ds s)"

definition order_ok :: "DynScan \<Rightarrow> bool" where
  "order_ok s \<longleftrightarrow> gnuHashTableAddress s < symbolTableAddress s \<and> symbolTableAddress s < stringTableAddress s \<and>
     stringTableAddress s < versymAddress s \<and> versymAddress s < verneedAddress s \<and>
     (initFunctionAddress s \<noteq> 0 \<longrightarrow> verneedAddress s < initFunctionAddress s) \<and>
     (finiFunctionAddress s \<noteq> 0 \<longrightarrow> verneedAddress s < finiFunctionAddress s) \<and>
     max (initFunctionAddress s) (finiFunctionAddress s) < pltgotAddress s"

definition hashes_ok :: "SectionHeader list \<Rightarrow> DynScan \<Rightarrow> bool" where
  "hashes_ok hashes s \<longleftrightarrow> list_all (\<lambda>h. (sh_type h = SHT_HASH \<longrightarrow> sysvHashTableAddress s = sh_addr h) \<and>
       (sh_type h = SHT_GNU_HASH \<longrightarrow> gnuHashTableAddress s = sh_addr h)) hashes \<and>
     (let n = entryCounts s ! 4; sysv = sysvHashTableAddress s; gnu = gnuHashTableAddress s in
      if n = 0 then sysv = 0 \<and> gnu = 0 else if n = 1 then sysv AND gnu = 0
      else if n = 2 then sysv \<noteq> 0 \<and> gnu \<noteq> 0 else False)"

definition counts_ok :: "DynScan \<Rightarrow> bool" where
  "counts_ok s \<longleftrightarrow> (let c = \<lambda>tag. entryCounts s ! unat (tag :: u32) in
     c DT_STRTAB = 1 \<and> c DT_SYMTAB = 1 \<and> c DT_RELA + c DT_REL \<ge> 1 \<and> c DT_RELA \<le> 1 \<and> c DT_REL \<le> 1 \<and>
     (c DT_RELA \<noteq> 0 \<longrightarrow> c DT_RELASZ = 1 \<and> c DT_RELAENT = 1) \<and> (c DT_REL \<noteq> 0 \<longrightarrow> c DT_RELSZ = 1 \<and> c DT_RELENT = 1) \<and>
     c DT_STRSZ = 1 \<and> c DT_SYMENT = 1 \<and> (c DT_JMPREL \<noteq> 0 \<longrightarrow> c DT_PLTRELSZ \<noteq> 0 \<and> c DT_PLTREL \<noteq> 0))"

text \<open>The address is set to 0 where a table matches, and compared again with the tables behind it.\<close>

fun reloc_match :: "u64 \<Rightarrow> u64 \<Rightarrow> SectionHeader list \<Rightarrow> bool" where
  "reloc_match addr bytes [] \<longleftrightarrow> addr = 0"
| "reloc_match addr bytes (h # hs) \<longleftrightarrow> (if sh_addr h = addr then sh_size h = bytes \<and> reloc_match 0 bytes hs
     else reloc_match addr bytes hs)"

definition relocs_ok :: "bool \<Rightarrow> SectionHeader list \<Rightarrow> DynScan \<Rightarrow> bool" where
  "relocs_ok is64 relocs s \<longleftrightarrow>
     (relocAddendDynamicAddr s \<noteq> 0 \<longrightarrow> relocAddendDynamicEnt s = rela_size is64 \<and>
        reloc_match (relocAddendDynamicAddr s) (relocAddendDynamicSize s) relocs) \<and>
     (relocDynamicAddr s \<noteq> 0 \<longrightarrow> relocDynamicEnt s = rel_size is64 \<and>
        reloc_match (relocDynamicAddr s) (relocDynamicSize s) relocs)"

text \<open>The arguments are the headers of the hash sections and of the relocation sections.\<close>

definition dyn_verify :: "SectionHeader list \<Rightarrow> SectionHeader list \<Rightarrow> DynamicTable \<Rightarrow> unit res" where
  "dyn_verify hashes relocs t =
     (if dyn_bytes t mod dynamicSize t \<noteq> 0 \<or> dyn_bytes t div dynamicSize t \<noteq> length (dynamics t) then Inl PrintError
      else rbind (scan_entries (table64 t) (dynamics t) scan_start) (\<lambda>s.
        if order_ok s \<and> hashes_ok hashes s \<and> counts_ok s \<and> relocs_ok (table64 t) relocs s then Inr () else Inl PrintError))"

text \<open>The new entries are objects of class \<open>Dynamic64\<close> in a 32-bit file as well.\<close>

definition extendTable :: "SectionHeader list \<Rightarrow> SectionHeader list \<Rightarrow> nat \<Rightarrow> DynamicTable \<Rightarrow> (nat \<times> DynamicTable) res" where
  "extendTable hashes relocs num t = (let extraSize = num * dynamicSize t;
     t = t \<lparr> dynamics := dynamics t @ replicate num \<lparr> is_Dynamic64 = True, d_tag = 0, d_un = 0 \<rparr>, dyn_bytes := dyn_bytes t + extraSize \<rparr>
   in rbind (dyn_verify hashes relocs t) (\<lambda>_. Inr (extraSize, t)))"

section \<open>Reading and writing\<close>

lemma le_bytes64_halves: "le_bytes64 w = le_bytes32 (ucast w) @ le_bytes32 (ucast (drop_bit 32 w))"
proof -
  have "(ucast (drop_bit k w) :: byte) = ucast (drop_bit k (ucast w :: u32))" if "k \<le> 24" for k
    using that by (intro bit_word_eqI) (auto simp: bit_simps dest: bit_imp_le_length)
  moreover have "(ucast w :: byte) = ucast (ucast w :: u32)"
    by (intro bit_word_eqI) (auto simp: bit_simps dest: bit_imp_le_length)
  moreover have hi: "(ucast (drop_bit (32 + k) w) :: byte) = ucast (drop_bit k (ucast (drop_bit 32 w) :: u32))" if "k \<le> 24" for k
    using that by (intro bit_word_eqI) (auto simp: bit_simps ac_simps dest: bit_imp_le_length)
  moreover have "(ucast (drop_bit 32 w) :: byte) = ucast (ucast (drop_bit 32 w) :: u32)"
    by (intro bit_word_eqI) (auto simp: bit_simps dest: bit_imp_le_length)
  ultimately show ?thesis using hi [of 8] hi [of 16] hi [of 24] by (simp add: le_bytes64_def le_bytes32_def upt_8)
qed

definition charStream :: "Dynamic \<Rightarrow> byte list" where
  "charStream d = (if is_Dynamic64 d then le_bytes64 (d_tag d) @ le_bytes64 (d_un d)
     else le_bytes32 (ucast (d_tag d)) @ le_bytes32 (ucast (d_un d)))"

definition dyn_dump :: "u32 \<Rightarrow> DynamicTable \<Rightarrow> byte list \<Rightarrow> byte list" where
  "dyn_dump offset t out = snd (fold (\<lambda>d. write_next (take (dynamicSize t) (charStream d))) (dynamics t) (offset, out))"

definition read64 :: "BinaryInputFile \<Rightarrow> (u64 \<times> BinaryInputFile) res" where
  "read64 f = rbind (read32 f) (\<lambda>(lo, f). rbind (read32 f) (\<lambda>(hi, f). Inr (push_bit 32 (ucast hi) OR ucast lo, f)))"

definition dyn_read_entry :: "bool \<Rightarrow> nat \<Rightarrow> BinaryInputFile \<Rightarrow> (Dynamic \<times> BinaryInputFile) res" where
  "dyn_read_entry is64 dynPtr f = (let f = setInPointer dynPtr f in
     if is64 then rbind (read64 f) (\<lambda>(t, f). rbind (read64 f) (\<lambda>(v, f). Inr (\<lparr> is_Dynamic64 = True, d_tag = t, d_un = v \<rparr>, f)))
     else rbind (read32 f) (\<lambda>(t, f). rbind (read32 f) (\<lambda>(v, f). Inr (\<lparr> is_Dynamic64 = False, d_tag = scast t, d_un = ucast v \<rparr>, f))))"

fun dyn_read_entries :: "bool \<Rightarrow> nat \<Rightarrow> nat \<Rightarrow> nat \<Rightarrow> BinaryInputFile \<Rightarrow> (Dynamic list \<times> BinaryInputFile) res" where
  "dyn_read_entries is64 entsize ptr 0 f = Inr ([], f)"
| "dyn_read_entries is64 entsize ptr (Suc n) f = rbind (dyn_read_entry is64 ptr f) (\<lambda>(d, f).
     rbind (dyn_read_entries is64 entsize (ptr + entsize) n f) (\<lambda>(ds, f). Inr (d # ds, f)))"

definition dyn_read :: "SectionHeader list \<Rightarrow> SectionHeader list \<Rightarrow> nat \<Rightarrow> DynamicTable \<Rightarrow> BinaryInputFile \<Rightarrow> (DynamicTable \<times> BinaryInputFile) res" where
  "dyn_read hashes relocs rawDataPtr t f = (let n = dyn_bytes t div dynamicSize t in
     rbind (dyn_read_entries (table64 t) (dynamicSize t) rawDataPtr n (setInPointer rawDataPtr f)) (\<lambda>(ds, f).
     ASSERT (dyn_bytes t = n * dynamicSize t) (let t = t \<lparr> dynamics := dynamics t @ ds \<rparr>
     in rbind (dyn_verify hashes relocs t) (\<lambda>_. Inr (t, f)))))"

section \<open>The first entry of a type: correctness\<close>

definition tag_values :: "u32 \<Rightarrow> Dynamic list \<Rightarrow> u64 list" where
  "tag_values type ds = map d_un (filter (has_tag type) ds)"

text \<open>An entry of a class, whose value fits into it.\<close>

definition dyn_fits :: "bool \<Rightarrow> Dynamic \<Rightarrow> bool" where
  "dyn_fits c d \<longleftrightarrow> is_Dynamic64 d = c \<and> field c (d_un d) = d_un d"

lemma ucast_u64_u32 [simp]: "(ucast (ucast (v :: u32) :: u64) :: u32) = v"
  by (intro bit_word_eqI) (auto simp: bit_simps dest: bit_imp_le_length)

lemma field_ucast [simp]: "field c (ucast (v :: u32)) = ucast v"
  by (simp add: field_def)

lemma field_field [simp]: "field c (field c v) = field c v"
  using field_ucast [of c "ucast v"] by (cases c) (simp_all add: field_def)

lemma scast_ucast_small: "unat (type :: u32) < 2 ^ 31 \<Longrightarrow> (scast type :: u64) = ucast type"
proof -
  assume "unat type < 2 ^ 31"
  then have "unat (type div 2 ^ 31) = 0" by (simp add: unat_div)
  then have "type div 2 ^ 31 = 0" by (simp only: unat_eq_0)
  then have "\<not> bit type 31" by (simp add: bit_iff_odd)
  moreover have "n < 32" if "bit type n" for n using bit_imp_le_length [OF that] by simp
  ultimately have b: "n < 31" if "bit type n" for n using that by (cases "n = 31") (auto simp: less_Suc_eq numeral_eq_Suc)
  then show ?thesis by (intro bit_word_eqI) (auto simp: bit_simps min_def dest: b)
qed

lemma set_simps [simp]:
  "is_Dynamic64 (set_tag type d) = is_Dynamic64 d" "d_un (set_tag type d) = d_un d"
  "is_Dynamic64 (set_un v d) = is_Dynamic64 d" "d_tag (set_un v d) = d_tag d" "d_un (set_un v d) = field (is_Dynamic64 d) v"
  "has_tag type (set_un v d) = has_tag type d"
  by (simp_all add: set_tag_def set_un_def has_tag_def)

lemma d_tag_set_tag: "unat type < 2 ^ 31 \<Longrightarrow> d_tag (set_tag type d) = ucast type"
  by (simp add: set_tag_def scast_ucast_small)

lemma has_tag_set_tag [simp]: "unat type < 2 ^ 31 \<Longrightarrow> has_tag type (set_tag type d)"
  by (simp add: has_tag_def d_tag_set_tag)

lemma set_tag_same: "unat type < 2 ^ 31 \<Longrightarrow> has_tag type d \<Longrightarrow> set_tag type d = d"
  by (simp add: has_tag_def set_tag_def scast_ucast_small)

text \<open>What the loop leaves as it is, whatever the classes of the entries.\<close>

lemma shuffle_down_frame:
  assumes "unat type < 2 ^ 31"
  shows "shuffle_down type n (Some p) ds = (r, ds') \<Longrightarrow> n \<le> p \<Longrightarrow> p < length ds \<Longrightarrow> has_tag type (ds ! p) \<Longrightarrow>
    (\<exists>q. r = Some q \<and> q \<le> p \<and> has_tag type (ds ! q) \<and> (q < p \<longrightarrow> q < n) \<and> (\<forall>i < min n q. \<not> has_tag type (ds ! i))) \<and>
    length ds' = length ds \<and> (\<forall>i < length ds. d_tag (ds' ! i) = d_tag (ds ! i) \<and> is_Dynamic64 (ds' ! i) = is_Dynamic64 (ds ! i)) \<and>
    (\<forall>i < length ds. (\<not> has_tag type (ds ! i) \<or> p < i) \<longrightarrow> ds' ! i = ds ! i)"
proof (induction n arbitrary: p ds)
  case 0
  then show ?case by (intro conjI exI [of _ p]) auto
next
  case (Suc n)
  show ?case
  proof (cases "has_tag type (ds ! n)")
    case True
    let ?ds = "ds[p := set_un (d_un (ds ! n)) (set_tag type (ds ! p))]"
    have n: "n < p" "n < length ds" using Suc.prems by simp_all
    have e: "shuffle_down type n (Some n) ?ds = (r, ds')" "has_tag type (?ds ! n)" using Suc.prems(1) True n by simp_all
    have t: "d_tag (?ds ! i) = d_tag (ds ! i) \<and> is_Dynamic64 (?ds ! i) = is_Dynamic64 (ds ! i)" if "i < length ds" for i
      using that Suc.prems(4) d_tag_set_tag [OF assms] by (cases "i = p") (simp_all add: has_tag_def)
    then have h: "has_tag type (?ds ! i) = has_tag type (ds ! i)" if "i < length ds" for i using that by (simp add: has_tag_def)
    have IH: "(\<exists>q. r = Some q \<and> q \<le> n \<and> has_tag type (?ds ! q) \<and> (q < n \<longrightarrow> q < n) \<and> (\<forall>i < min n q. \<not> has_tag type (?ds ! i))) \<and>
      length ds' = length ?ds \<and> (\<forall>i < length ?ds. d_tag (ds' ! i) = d_tag (?ds ! i) \<and> is_Dynamic64 (ds' ! i) = is_Dynamic64 (?ds ! i)) \<and>
      (\<forall>i < length ?ds. (\<not> has_tag type (?ds ! i) \<or> n < i) \<longrightarrow> ds' ! i = ?ds ! i)"
      by (rule Suc.IH [OF e(1)]) (use n e(2) in simp_all)
    then obtain q where q: "r = Some q" "q \<le> n" "has_tag type (?ds ! q)" "\<forall>i < min n q. \<not> has_tag type (?ds ! i)" by blast
    have "\<forall>i < min (Suc n) q. \<not> has_tag type (ds ! i)" using q(2,4) h n by simp
    then have "\<exists>q. r = Some q \<and> q \<le> p \<and> has_tag type (ds ! q) \<and> (q < p \<longrightarrow> q < Suc n) \<and> (\<forall>i < min (Suc n) q. \<not> has_tag type (ds ! i))"
      using q(1,2,3) h n by (intro exI [of _ q]) simp
    moreover have "ds' ! i = ds ! i" if i: "i < length ds" and c: "\<not> has_tag type (ds ! i) \<or> p < i" for i
    proof -
      have "i \<noteq> p" using c Suc.prems(4) by auto
      moreover have "\<not> has_tag type (?ds ! i) \<or> n < i" using c h [OF i] n by auto
      ultimately show ?thesis using IH i by simp
    qed
    ultimately show ?thesis using IH t by simp
  next
    case False
    have e: "shuffle_down type n (Some p) ds = (r, ds')" using Suc.prems(1) False by simp
    have IH: "(\<exists>q. r = Some q \<and> q \<le> p \<and> has_tag type (ds ! q) \<and> (q < p \<longrightarrow> q < n) \<and> (\<forall>i < min n q. \<not> has_tag type (ds ! i))) \<and>
      length ds' = length ds \<and> (\<forall>i < length ds. d_tag (ds' ! i) = d_tag (ds ! i) \<and> is_Dynamic64 (ds' ! i) = is_Dynamic64 (ds ! i)) \<and>
      (\<forall>i < length ds. (\<not> has_tag type (ds ! i) \<or> p < i) \<longrightarrow> ds' ! i = ds ! i)"
      by (rule Suc.IH [OF e]) (use Suc.prems in simp_all)
    then obtain q where q: "r = Some q" "q \<le> p" "has_tag type (ds ! q)" "q < p \<longrightarrow> q < n" "\<forall>i < min n q. \<not> has_tag type (ds ! i)" by blast
    have "\<not> has_tag type (ds ! i)" if "i < min (Suc n) q" for i using that q(5) False by (cases "i = n") auto
    then have "\<exists>q. r = Some q \<and> q \<le> p \<and> has_tag type (ds ! q) \<and> (q < p \<longrightarrow> q < Suc n) \<and> (\<forall>i < min (Suc n) q. \<not> has_tag type (ds ! i))"
      using q by (intro exI [of _ q]) auto
    then show ?thesis using IH by blast
  qed
qed

text \<open>The values of the type move down by one place, and the new one comes first.\<close>

definition finish :: "u32 \<Rightarrow> u64 \<Rightarrow> nat option \<times> Dynamic list \<Rightarrow> Dynamic list" where
  "finish type v x = (case x of (None, ds) \<Rightarrow> ds | (Some q, ds) \<Rightarrow> ds[q := set_un v (set_tag type (ds ! q))])"

lemma tag_values_snoc: "tag_values type (ds @ [d]) = tag_values type ds @ (if has_tag type d then [d_un d] else [])"
  by (simp add: tag_values_def)

lemma finish_frame:
  assumes "unat type < 2 ^ 31" "n \<le> p" "p < length ds" "has_tag type (ds ! p)"
  shows "length (finish type v (shuffle_down type n (Some p) ds)) = length ds \<and>
    (\<forall>i < length ds. d_tag (finish type v (shuffle_down type n (Some p) ds) ! i) = d_tag (ds ! i) \<and>
       is_Dynamic64 (finish type v (shuffle_down type n (Some p) ds) ! i) = is_Dynamic64 (ds ! i)) \<and>
    (\<forall>i < length ds. \<not> has_tag type (ds ! i) \<or> p < i \<longrightarrow> finish type v (shuffle_down type n (Some p) ds) ! i = ds ! i)"
proof -
  obtain r ds' where s: "shuffle_down type n (Some p) ds = (r, ds')" by fastforce
  note F = shuffle_down_frame [OF assms(1) s assms(2-4)]
  then obtain q where q: "r = Some q" "q \<le> p" "has_tag type (ds ! q)" by blast
  have f: "finish type v (r, ds') = ds'[q := set_un v (set_tag type (ds' ! q))]" by (simp add: finish_def q(1))
  have "d_tag (ds' ! q) = ucast type" using F q assms(3) by (simp add: has_tag_def)
  then show ?thesis unfolding s f using F q assms(1,3) by (auto simp: nth_list_update d_tag_set_tag)
qed

lemma shuffle_down_values:
  assumes "unat type < 2 ^ 31"
  shows "list_all (dyn_fits c) ds \<Longrightarrow> n \<le> p \<Longrightarrow> p < length ds \<Longrightarrow> has_tag type (ds ! p) \<Longrightarrow>
    tag_values type (take n (finish type v (shuffle_down type n (Some p) ds)) @ [finish type v (shuffle_down type n (Some p) ds) ! p]) =
    field c v # tag_values type (take n ds)"
proof (induction n arbitrary: p ds)
  case 0
  then have "is_Dynamic64 (ds ! p) = c" by (auto simp: list_all_length dyn_fits_def)
  then show ?case using 0 assms by (simp add: tag_values_def finish_def)
next
  case (Suc n)
  have np: "n < p" "n < length ds" using Suc.prems by simp_all
  show ?case
  proof (cases "has_tag type (ds ! n)")
    case True
    let ?x = "set_un (d_un (ds ! n)) (set_tag type (ds ! p))"
    let ?fin = "finish type v (shuffle_down type n (Some n) (ds[p := ?x]))"
    have u: "d_un ?x = d_un (ds ! n)" "dyn_fits c ?x"
      using Suc.prems(1,3) np by (auto simp: list_all_length dyn_fits_def)
    have l: "list_all (dyn_fits c) (ds[p := ?x])"
      using Suc.prems(1) u(2) by (auto simp: list_all_iff dest: set_update_subset_insert [THEN subsetD])
    have IH: "tag_values type (take n ?fin @ [?fin ! n]) = field c v # tag_values type (take n ds)"
      using Suc.IH [OF l, of n] np True by simp
    have F: "length ?fin = length ds" "?fin ! p = ?x"
      using finish_frame [OF assms, of n n "ds[p := ?x]" v] np True Suc.prems(3) by simp_all
    have "take (Suc n) ?fin = take n ?fin @ [?fin ! n]" using F(1) np by (simp add: take_Suc_conv_app_nth)
    moreover have "has_tag type ?x" using assms by simp
    ultimately have "tag_values type (take (Suc n) ?fin @ [?fin ! p]) = field c v # tag_values type (take n ds) @ [d_un (ds ! n)]"
      using u(1) by (simp only: F(2) tag_values_snoc [of type "take n ?fin @ [?fin ! n]"] IH if_True append_Cons)
    moreover have "tag_values type (take (Suc n) ds) = tag_values type (take n ds) @ [d_un (ds ! n)]"
      using np True by (simp add: take_Suc_conv_app_nth tag_values_snoc)
    ultimately show ?thesis using True by simp
  next
    case False
    let ?fin = "finish type v (shuffle_down type n (Some p) ds)"
    have IH: "tag_values type (take n ?fin @ [?fin ! p]) = field c v # tag_values type (take n ds)"
      using Suc.IH [of ds p] Suc.prems np by simp
    have F: "length ?fin = length ds" "?fin ! n = ds ! n"
      using finish_frame [OF assms, of n p ds v] np Suc.prems False by simp_all
    have "take (Suc n) ?fin = take n ?fin @ [ds ! n]" "take (Suc n) ds = take n ds @ [ds ! n]"
      using F np by (simp_all add: take_Suc_conv_app_nth)
    then show ?thesis using IH False by (simp add: tag_values_def)
  qed
qed

section \<open>Checking is not disturbed by names\<close>

text \<open>Entries the checks do not look at: names of libraries and paths.\<close>

definition neutral :: "Dynamic \<Rightarrow> bool" where
  "neutral d \<longleftrightarrow> has_tag DT_NEEDED d \<or> has_tag DT_RPATH d \<or> has_tag DT_RUNPATH d"

text \<open>A scan without its counts of names.\<close>

definition core :: "DynScan \<Rightarrow> DynScan" where
  "core s = s \<lparr> entryCounts := (entryCounts s)[1 := 0, 15 := 0] \<rparr>"

definition core_res :: "DynScan res \<Rightarrow> DynScan res" where
  "core_res r = rbind r (\<lambda>s. Inr (core s))"

lemma update_twice:
  "xs[1 := a, 15 := b, 1 := c, 15 := e] = (xs[1 := c, 15 := e] :: nat list)"
  "xs[1 := a, 15 := v, 15 := b] = (xs[1 := a, 15 := b] :: nat list)"
  "xs[15 := v, 1 := a, 15 := b] = (xs[1 := a, 15 := b] :: nat list)"
  using list_update_swap [of 15 1 "xs[1 := a]" b c] list_update_swap [of 15 1 xs v a] by simp_all

lemma core_simps [simp]:
  "relocDynamicAddr (core s) = relocDynamicAddr s" "relocDynamicSize (core s) = relocDynamicSize s"
  "relocDynamicEnt (core s) = relocDynamicEnt s" "relocAddendDynamicAddr (core s) = relocAddendDynamicAddr s"
  "relocAddendDynamicSize (core s) = relocAddendDynamicSize s" "relocAddendDynamicEnt (core s) = relocAddendDynamicEnt s"
  "gnuHashTableAddress (core s) = gnuHashTableAddress s" "sysvHashTableAddress (core s) = sysvHashTableAddress s"
  "stringTableAddress (core s) = stringTableAddress s" "symbolTableAddress (core s) = symbolTableAddress s"
  "pltgotAddress (core s) = pltgotAddress s" "finiFunctionAddress (core s) = finiFunctionAddress s"
  "initFunctionAddress (core s) = initFunctionAddress s" "verneedAddress (core s) = verneedAddress s"
  "versymAddress (core s) = versymAddress s" "i \<noteq> 1 \<Longrightarrow> i \<noteq> 15 \<Longrightarrow> entryCounts (core s) ! i = entryCounts s ! i"
  "core (core s) = core s"
  using update_twice(1) [of "entryCounts s" 0 0 0 0] by (simp_all add: core_def)

lemma core_count_at: "core (count_at i (core s)) = core (count_at i s)"
proof (cases "i = 1 \<or> i = 15")
  case True
  have "xs[1 := 0, 15 := 0, i := v, 1 := 0, 15 := 0] = xs[i := w, 1 := 0, 15 := 0]" for xs :: "nat list" and v w
    using True update_twice(1) [of xs 0 0 0 0] update_twice(1) [of xs 0 v 0 0] update_twice(3) [of xs w 0 0] by auto
  then show ?thesis by (simp add: core_def count_at_def)
next
  case False
  then have "(entryCounts s)[1 := 0, 15 := 0] ! i = entryCounts s ! i" by simp
  moreover have "xs[1 := 0, 15 := 0, i := v, 1 := 0, 15 := 0] = xs[i := v, 1 := 0, 15 := 0]" for xs :: "nat list" and v
    using False update_twice(1) [of "xs[i := v]" 0 0 0 0] list_update_swap [of i 15 "xs[1 := 0]" v 0] list_update_swap [of i 1 xs v 0] by simp
  ultimately show ?thesis by (simp add: core_def count_at_def)
qed

lemma core_scan_store: "core (scan_store d s) = scan_store d (core s)"
  by (simp add: scan_store_def Let_def core_def)

lemma core_scan_step: "core_res (scan_step is64 d (core s)) = core_res (scan_step is64 d s)"
proof -
  consider "sint (d_tag d) < 0" | "\<exists>i. scan_count d = (\<lambda>s. Inr (count_at i s))" | "scan_count d = Inr"
    unfolding scan_count_def fun_eq_iff by (cases "sint (d_tag d) \<le> 23"; cases "sint (d_tag d) < 0"; cases "has_tag DT_GNU_HASH d") auto
  then show ?thesis
  proof cases
    case 1
    then show ?thesis by (simp add: scan_step_def scan_count_def core_res_def)
  next
    case 2
    then obtain i where "scan_count d = (\<lambda>s. Inr (count_at i s))" by blast
    then show ?thesis by (simp add: scan_step_def core_res_def core_scan_store core_count_at)
  qed (simp add: scan_step_def core_res_def core_scan_store)
qed

lemma scan_step_neutral:
  assumes "neutral d"
  shows "core_res (scan_step is64 d s) = Inr (core s)"
proof -
  have t: "d_tag d = 1 \<or> d_tag d = 15 \<or> d_tag d = 29" using assms by (simp add: neutral_def has_tag_def DT_defs)
  then have "scan_checks is64 d" by (elim disjE) (simp_all add: scan_checks_def has_tag_def DT_defs)
  moreover have "scan_store d s' = s'" for s' using t by (elim disjE) (simp_all add: scan_store_def has_tag_def DT_defs)
  moreover have "scan_count d s = Inr (count_at 1 s) \<or> scan_count d s = Inr (count_at 15 s) \<or> scan_count d s = Inr s"
    using t by (elim disjE) (simp_all add: scan_count_def has_tag_def DT_defs)
  moreover have "core (count_at 1 s) = core s" "core (count_at 15 s) = core s"
    using update_twice(3) [of "entryCounts s" _ 0 0] by (simp_all add: core_def count_at_def)
  ultimately show ?thesis by (elim disjE) (simp_all add: scan_step_def core_res_def)
qed

lemma core_scan_all: "core s = core s' \<Longrightarrow> core_res (rfold (scan_step is64) ds s) =
    core_res (rfold (scan_step is64) (filter (\<lambda>d. \<not> neutral d) ds) s')"
proof (induction ds arbitrary: s s')
  case Nil
  then show ?case by (simp add: core_res_def)
next
  case (Cons d ds)
  show ?case
  proof (cases "neutral d")
    case True
    obtain s1 where s1: "scan_step is64 d s = Inr s1" "core s1 = core s"
      using scan_step_neutral [OF True, of is64 s] by (cases "scan_step is64 d s") (auto simp: core_res_def)
    then show ?thesis using Cons True by simp
  next
    case False
    have e: "core_res (scan_step is64 d s) = core_res (scan_step is64 d s')"
      using core_scan_step [of is64 d s] core_scan_step [of is64 d s'] Cons.prems by simp
    show ?thesis
    proof (cases "scan_step is64 d s")
      case (Inl er)
      then show ?thesis using e False by (cases "scan_step is64 d s'") (auto simp: core_res_def)
    next
      case (Inr s1)
      then obtain s2 where "scan_step is64 d s' = Inr s2" "core s1 = core s2"
        using e by (cases "scan_step is64 d s'") (auto simp: core_res_def)
      then show ?thesis using Cons.IH [of s1 s2] Inr False by simp
    qed
  qed
qed

text \<open>The type an entry gets: a run path if the table has one.\<close>

definition entry_type :: "u32 \<Rightarrow> DynamicTable \<Rightarrow> u32" where
  "entry_type type t = (if type = DT_RPATH \<and> countDynamics DT_RUNPATH t \<noteq> 0 then DT_RUNPATH else type)"

definition prepended :: "u32 \<Rightarrow> u32 \<Rightarrow> DynamicTable \<Rightarrow> Dynamic list" where
  "prepended type strOffset t = (let e = findEmptyDynamic t in
     finish type (ucast strOffset) (shuffle_down type e (Some e) ((dynamics t)[e := set_tag type (dynamics t ! e)])))"

lemma findEmptyDynamic_null:
  "findEmptyDynamic t < length (dynamics t) \<Longrightarrow> has_tag DT_NULL (dynamics t ! findEmptyDynamic t)"
  "\<forall>d \<in> set (take (findEmptyDynamic t) (dynamics t)). \<not> has_tag DT_NULL d"
  using nth_length_takeWhile [of "\<lambda>d. \<not> has_tag DT_NULL d" "dynamics t"]
  by (auto simp: findEmptyDynamic_def simp flip: takeWhile_eq_take dest: set_takeWhileD)

lemma entry_type_small: "unat type < 2 ^ 31 \<Longrightarrow> type \<noteq> DT_NULL \<Longrightarrow> unat (entry_type type t) < 2 ^ 31 \<and> entry_type type t \<noteq> DT_NULL"
  by (simp add: entry_type_def DT_defs)

lemma prependEntry_form:
  assumes "unat type < 2 ^ 31" "findEmptyDynamic t < length (dynamics t)"
  shows "\<exists>p. prependEntry type strOffset t = Inr (p, t \<lparr> dynamics := prepended (entry_type type t) strOffset t \<rparr>) \<and>
    has_tag (entry_type type t) (prepended (entry_type type t) strOffset t ! p) \<and> p \<le> findEmptyDynamic t \<and>
    (\<forall>i < p. \<not> has_tag (entry_type type t) (prepended (entry_type type t) strOffset t ! i))"
proof -
  let ?T = "entry_type type t" and ?e = "findEmptyDynamic t"
  let ?ds = "(dynamics t)[?e := set_tag ?T (dynamics t ! ?e)]"
  have T: "unat ?T < 2 ^ 31" using assms(1) by (simp add: entry_type_def DT_defs)
  have h: "has_tag ?T (?ds ! ?e)" "?e < length ?ds" using assms(2) T by simp_all
  obtain r ds' where s: "shuffle_down ?T ?e (Some ?e) ?ds = (r, ds')" by fastforce
  obtain q where q: "r = Some q" "q \<le> ?e" "has_tag ?T (?ds ! q)" "\<forall>i < min ?e q. \<not> has_tag ?T (?ds ! i)"
    using shuffle_down_frame [OF T s le_refl h(2,1)] by blast
  have f: "prepended ?T strOffset t = ds'[q := set_un (ucast strOffset) (set_tag ?T (ds' ! q))]"
    unfolding prepended_def Let_def s by (simp add: finish_def q(1))
  have "\<forall>i < length ?ds. has_tag ?T (prepended ?T strOffset t ! i) = has_tag ?T (?ds ! i)"
    using finish_frame [OF T le_refl h(2,1), of "ucast strOffset"] by (simp add: prepended_def Let_def has_tag_def)
  moreover have "prependEntry type strOffset t = Inr (q, t \<lparr> dynamics := prepended ?T strOffset t \<rparr>)"
    unfolding prependEntry_def Let_def entry_type_def [symmetric] using assms(2) h s q(1) f by simp
  ultimately show ?thesis using q h(2) by (intro exI [of _ q]) simp
qed

lemma prepended_spec:
  assumes "unat type < 2 ^ 31" and e: "e = findEmptyDynamic t" "e < length (dynamics t)" and "type \<noteq> DT_NULL"
  shows "length (prepended type strOffset t) = length (dynamics t) \<and> has_tag type (prepended type strOffset t ! e) \<and>
    (\<forall>i < length (dynamics t). i \<noteq> e \<longrightarrow> d_tag (prepended type strOffset t ! i) = d_tag (dynamics t ! i)) \<and>
    (\<forall>i < length (dynamics t). i \<noteq> e \<and> \<not> has_tag type (dynamics t ! i) \<or> e < i \<longrightarrow> prepended type strOffset t ! i = dynamics t ! i) \<and>
    is_Dynamic64 (prepended type strOffset t ! e) = is_Dynamic64 (dynamics t ! e)"
proof -
  let ?ds = "(dynamics t)[e := set_tag type (dynamics t ! e)]"
  have h: "has_tag type (?ds ! e)" "e < length ?ds" using assms(1) e by simp_all
  show ?thesis using finish_frame [OF assms(1) le_refl h(2,1), of "ucast strOffset"] h e
    by (simp add: prepended_def Let_def has_tag_def nth_list_update)
qed

lemma prepended_values:
  assumes "unat type < 2 ^ 31" and e: "e = findEmptyDynamic t" "e < length (dynamics t)" and "list_all (dyn_fits c) (dynamics t)"
  shows "tag_values type (take (Suc e) (prepended type strOffset t)) = ucast strOffset # tag_values type (take e (dynamics t))"
proof -
  let ?ds = "(dynamics t)[e := set_tag type (dynamics t ! e)]"
  have h: "has_tag type (?ds ! e)" "e < length ?ds" using assms(1) e by simp_all
  have "dyn_fits c (set_tag type (dynamics t ! e))" using assms(4) e(2) by (simp add: list_all_length dyn_fits_def)
  then have "list_all (dyn_fits c) ?ds" using assms(4) by (auto simp: list_all_iff dest: set_update_subset_insert [THEN subsetD])
  from shuffle_down_values [OF assms(1) this le_refl h(2,1), of "ucast strOffset"]
  have "tag_values type (take e (prepended type strOffset t) @ [prepended type strOffset t ! e]) = ucast strOffset # tag_values type (take e (dynamics t))"
    by (simp add: prepended_def Let_def e(1) [symmetric])
  moreover have "length (prepended type strOffset t) = length ?ds"
    using finish_frame [OF assms(1) le_refl h(2,1), of "ucast strOffset"] by (simp add: prepended_def Let_def e(1) [symmetric])
  ultimately show ?thesis using e(2) by (simp add: take_Suc_conv_app_nth)
qed

lemma filter_list_all2: "list_all2 (\<lambda>x y. P x \<and> P y \<or> x = y) xs ys \<Longrightarrow> filter (\<lambda>x. \<not> P x) xs = filter (\<lambda>x. \<not> P x) ys"
  by (induction rule: list_all2_induct) auto

lemma scan_entries_null:
  "(\<forall>d \<in> set ds. \<not> has_tag DT_NULL d) \<Longrightarrow> has_tag DT_NULL d \<Longrightarrow>
   scan_entries is64 (ds @ d # es) s = rfold (scan_step is64) (ds @ [d]) s"
proof (induction ds arbitrary: s)
  case (Cons x xs)
  then have "(\<lambda>s. scan_entries is64 (xs @ d # es) s) = rfold (scan_step is64) (xs @ [d])" by (intro ext) simp
  then show ?case using Cons.prems by simp
qed (simp add: rbind_def split: sum.splits)

lemma scan_step_null: "has_tag DT_NULL d \<Longrightarrow> has_tag DT_NULL d' \<Longrightarrow> scan_step is64 d = scan_step is64 d'"
  by (intro ext) (simp add: scan_step_def scan_count_def scan_checks_def scan_store_def has_tag_def DT_defs)

definition verdict :: "bool \<Rightarrow> SectionHeader list \<Rightarrow> SectionHeader list \<Rightarrow> DynScan \<Rightarrow> bool" where
  "verdict is64 hashes relocs s \<longleftrightarrow> order_ok s \<and> hashes_ok hashes s \<and> counts_ok s \<and> relocs_ok is64 relocs s"

lemma verdict_core: "verdict is64 hashes relocs (core s) = verdict is64 hashes relocs s"
  by (simp add: verdict_def order_ok_def hashes_ok_def counts_ok_def relocs_ok_def DT_defs Let_def)

lemma verdict_core_res:
  assumes "core_res r = core_res r'"
  shows "rbind r (\<lambda>s. if verdict is64 hashes relocs s then Inr () else Inl PrintError) =
    rbind r' (\<lambda>s. if verdict is64 hashes relocs s then Inr () else Inl PrintError)"
proof (cases r; cases r')
  fix s s' assume r: "r = Inr s" "r' = Inr s'"
  then have "core s = core s'" using assms by (simp add: core_res_def)
  then have "verdict is64 hashes relocs s = verdict is64 hashes relocs s'" using verdict_core by metis
  then show ?thesis by (simp add: r)
qed (use assms in \<open>auto simp: core_res_def\<close>)

section \<open>Reading back what was written\<close>

text \<open>An entry of the class of its file, whose fields fit.\<close>

definition dyn_entry_ok :: "bool \<Rightarrow> Dynamic \<Rightarrow> bool" where
  "dyn_entry_ok c d \<longleftrightarrow> dyn_fits c d \<and> (\<not> c \<longrightarrow> scast (ucast (d_tag d) :: u32) = d_tag d)"

lemma word_halves: "push_bit 32 (ucast (ucast (drop_bit 32 w) :: u32)) OR ucast (ucast w :: u32) = (w :: u64)"
  by (intro bit_word_eqI) (auto simp: bit_simps)

lemma read64_holds: "holds f (le_bytes64 w @ cs) \<Longrightarrow> read64 f = Inr (w, skip 8 f) \<and> holds (skip 8 f) cs"
  using read32_holds [of f "ucast w" "le_bytes32 (ucast (drop_bit 32 w)) @ cs"]
    read32_holds [of "skip 4 f" "ucast (drop_bit 32 w)" cs] by (simp add: le_bytes64_halves read64_def word_halves)

lemma length_charStream: "length (charStream d) = (if is_Dynamic64 d then 16 else 8)"
  by (simp add: charStream_def le_bytes64_halves)

lemma setInPointer_here: "setInPointer (inBufferPointer f) f = f"
  by (simp add: setInPointer_def)

lemma dyn_read_entry_holds:
  assumes "dyn_entry_ok c d" and "holds f (charStream d @ cs)"
  shows "dyn_read_entry c (inBufferPointer f) f = Inr (d, skip (if c then 16 else 8) f) \<and> holds (skip (if c then 16 else 8) f) cs"
proof (cases c)
  case True
  then have "holds f (le_bytes64 (d_tag d) @ le_bytes64 (d_un d) @ cs)" "is_Dynamic64 d"
    using assms by (simp_all add: charStream_def dyn_entry_ok_def dyn_fits_def)
  with read64_holds [OF this(1)] read64_holds [of "skip 8 f" "d_un d" cs] show ?thesis
    using True by (simp add: dyn_read_entry_def setInPointer_here)
next
  case False
  then have "holds f (le_bytes32 (ucast (d_tag d)) @ le_bytes32 (ucast (d_un d)) @ cs)" "\<not> is_Dynamic64 d"
      "scast (ucast (d_tag d) :: u32) = d_tag d" "ucast (ucast (d_un d) :: u32) = d_un d"
    using assms by (simp_all add: charStream_def dyn_entry_ok_def dyn_fits_def field_def)
  with read32_holds [OF this(1)] read32_holds [of "skip 4 f" "ucast (d_un d)" cs] show ?thesis
    using False by (simp add: dyn_read_entry_def setInPointer_here)
qed

lemma dyn_read_entries_holds:
  "list_all (dyn_entry_ok c) ds \<Longrightarrow> holds f (concat (map charStream ds) @ cs) \<Longrightarrow>
   dyn_read_entries c (if c then 16 else 8) (inBufferPointer f) (length ds) f = Inr (ds, skip (length ds * (if c then 16 else 8)) f)"
proof (induction ds arbitrary: f)
  case Nil
  then show ?case by (simp add: skip_def)
next
  case (Cons d ds)
  let ?n = "if c then 16 else 8 :: nat"
  have r: "dyn_read_entry c (inBufferPointer f) f = Inr (d, skip ?n f)" "holds (skip ?n f) (concat (map charStream ds) @ cs)"
    using dyn_read_entry_holds [of c d f "concat (map charStream ds) @ cs"] Cons.prems by simp_all
  have "inBufferPointer (skip ?n f) = inBufferPointer f + ?n" by (simp add: skip_def)
  then show ?case using Cons.IH [OF _ r(2)] Cons.prems(1) r(1) by simp
qed

lemma dyn_dump_eq:
  assumes "list_all (\<lambda>d. is_Dynamic64 d = table64 t) (dynamics t)" and "dynamicSize t = (if table64 t then 16 else 8)" and "dynamics t \<noteq> []"
    and "unat offset + length (concat (map charStream (dynamics t))) < 2 ^ 32"
  shows "dyn_dump offset t out = write_at (concat (map charStream (dynamics t))) (unat offset) out"
proof -
  have "take (dynamicSize t) (charStream d) = charStream d" if "d \<in> set (dynamics t)" for d
    using that assms by (simp add: length_charStream list_all_iff)
  then have "fold (\<lambda>d. write_next (take (dynamicSize t) (charStream d))) (dynamics t) (offset, out) =
      fold (\<lambda>d. write_next (charStream d)) (dynamics t) (offset, out)" by (intro fold_cong) simp_all
  then show ?thesis using write_nexts [of "map charStream (dynamics t)" offset out] assms(3,4)
    by (simp add: dyn_dump_def fold_map o_def)
qed

section \<open>Properties\<close>

text \<open>
  C35. A library or search path added to the dynamic table takes the first place among the entries of
  its type, which keep their order behind it; every other entry before the end of the table stays
  as it is, and so does everything behind. A search path becomes a run path where there is one.
\<close>

theorem prependEntry_first:
  assumes "unat type < 2 ^ 31" and "type \<noteq> DT_NULL" and "list_all (dyn_fits c) (dynamics t)"
    and "e = findEmptyDynamic t" and "e < length (dynamics t)"
    and "T = (if type = DT_RPATH \<and> countDynamics DT_RUNPATH t \<noteq> 0 then DT_RUNPATH else type)"
  shows "\<exists>p ds. prependEntry type strOffset t = Inr (p, t \<lparr> dynamics := ds \<rparr>) \<and> length ds = length (dynamics t) \<and>
    tag_values T (take (Suc e) ds) = ucast strOffset # tag_values T (take e (dynamics t)) \<and>
    p \<le> e \<and> has_tag T (ds ! p) \<and> (\<forall>i < p. \<not> has_tag T (ds ! i)) \<and>
    (\<forall>i < length ds. i \<noteq> e \<and> \<not> has_tag T (dynamics t ! i) \<or> e < i \<longrightarrow> ds ! i = dynamics t ! i)"
proof -
  have T: "T = entry_type type t" "unat T < 2 ^ 31" "T \<noteq> DT_NULL"
    using assms(6) entry_type_small [OF assms(1,2)] by (simp_all add: entry_type_def)
  note e = assms(4,5)
  obtain p where p: "prependEntry type strOffset t = Inr (p, t \<lparr> dynamics := prepended T strOffset t \<rparr>)" "p \<le> e"
      "has_tag T (prepended T strOffset t ! p)" "\<forall>i < p. \<not> has_tag T (prepended T strOffset t ! i)"
    using prependEntry_form [OF assms(1), of t strOffset] e unfolding T(1) by blast
  show ?thesis
    using p prepended_values [OF T(2) e assms(3), of strOffset] prepended_spec [OF T(2) e T(3), of strOffset]
    by (intro exI [of _ p] exI [of _ "prepended T strOffset t"]) simp
qed

text \<open>A table that passes the checks: two libraries, and no or some empty entries.\<close>

definition sample_entries :: "bool \<Rightarrow> Dynamic list" where
  "sample_entries is64 = map (\<lambda>(type, v). \<lparr> is_Dynamic64 = is64, d_tag = ucast type, d_un = v \<rparr>)
     [(DT_NEEDED, 1), (DT_HASH, 0x200), (DT_NEEDED, 9), (DT_SYMTAB, 0x300), (DT_STRTAB, 0x400), (DT_STRSZ, 40), (DT_SYMENT, 24),
      (DT_VERSYM, 0x500), (DT_VERNEED, 0x520), (DT_RELA, 0x600), (DT_RELASZ, 48), (DT_RELAENT, rela_size is64), (DT_PLTGOT, 0x2000)]"

definition sample_table :: "bool \<Rightarrow> nat \<Rightarrow> DynamicTable" where
  "sample_table is64 n = \<lparr> table64 = is64, dynamicSize = (if is64 then 16 else 8), dyn_bytes = (13 + n) * (if is64 then 16 else 8),
     dynamics = sample_entries is64 @ replicate n \<lparr> is_Dynamic64 = is64, d_tag = 0, d_un = 0 \<rparr> \<rparr>"

definition sample_rela :: SectionHeader where
  "sample_rela = (new_SectionHeader 9) \<lparr> sh_addr := 0x600, sh_size := 48 \<rparr>"

lemma sample_table_simps:
  "findEmptyDynamic (sample_table True 2) = 13" "countDynamics DT_RUNPATH (sample_table is64 2) = 0"
  "length (dynamics (sample_table is64 n)) = 13 + n" "list_all (dyn_fits True) (dynamics (sample_table True n))"
  by (simp_all add: findEmptyDynamic_def countDynamics_def sample_table_def sample_entries_def has_tag_def DT_defs dyn_fits_def field_def
      list_all_iff)

theorem prependEntry_first_witness:
  "\<exists>p ds. prependEntry DT_NEEDED 30 (sample_table True 2) = Inr (p, sample_table True 2 \<lparr> dynamics := ds \<rparr>) \<and>
     tag_values DT_NEEDED (take 14 ds) = [30, 1, 9]"
proof -
  let ?t = "sample_table True 2"
  have a: "unat DT_NEEDED < 2 ^ 31" "DT_NEEDED \<noteq> DT_NULL" "13 = findEmptyDynamic ?t" "13 < length (dynamics ?t)"
    "DT_NEEDED = (if DT_NEEDED = DT_RPATH \<and> countDynamics DT_RUNPATH ?t \<noteq> 0 then DT_RUNPATH else DT_NEEDED)"
    by (simp_all add: sample_table_simps) (simp_all add: DT_defs)
  have "tag_values DT_NEEDED (take 13 (dynamics ?t)) = [1, 9]"
    by (simp add: sample_table_def sample_entries_def tag_values_def has_tag_def DT_defs)
  then show ?thesis using prependEntry_first [OF a(1,2) sample_table_simps(4) a(3,4,5), of 30] by auto
qed

text \<open>
  C36. Adding a library or a search path does not disturb the checks of the dynamic table, as long as
  another empty entry follows the one it takes: \<open>verify\<close> gives the same result before and after.
\<close>

theorem prependEntry_verify:
  assumes "type = DT_NEEDED \<or> type = DT_RPATH \<or> type = DT_RUNPATH"
    and "e = findEmptyDynamic t" and "Suc e < length (dynamics t)" and "has_tag DT_NULL (dynamics t ! Suc e)"
    and "prependEntry type strOffset t = Inr (p, t')"
  shows "dyn_verify hashes relocs t' = dyn_verify hashes relocs t"
proof -
  let ?T = "entry_type type t" and ?L = "take e (dynamics t)"
  have T: "unat type < 2 ^ 31" "unat ?T < 2 ^ 31" "?T \<noteq> DT_NULL" "?T = DT_NEEDED \<or> ?T = DT_RPATH \<or> ?T = DT_RUNPATH"
    using assms(1) by (auto simp: entry_type_def DT_defs)
  have e: "e = findEmptyDynamic t" "e < length (dynamics t)" using assms(2,3) by simp_all
  have t': "t' = t \<lparr> dynamics := prepended ?T strOffset t \<rparr>"
    using prependEntry_form [OF T(1), of t strOffset] e assms(5) by auto
  let ?ds = "prepended ?T strOffset t"
  note S = prepended_spec [OF T(2) e T(3), of strOffset]
  have null: "\<forall>d \<in> set ?L. \<not> has_tag DT_NULL d" "has_tag DT_NULL (dynamics t ! e)" using findEmptyDynamic_null [of t] e by auto
  have L': "take (Suc e) ?ds = take e ?ds @ [?ds ! e]" using S e(2) by (simp add: take_Suc_conv_app_nth)
  have tags: "has_tag ty (?ds ! i) = has_tag ty (dynamics t ! i)" if "i < e" for ty i using S that e(2) by (simp add: has_tag_def)
  have n0: "\<not> has_tag DT_NULL (?ds ! e)" using S T(4) by (auto simp: has_tag_def DT_defs)
  have "\<not> has_tag DT_NULL (?ds ! i)" if "i < e" for i
  proof -
    have "dynamics t ! i \<in> set ?L" using that e(2) by (auto simp: in_set_conv_nth)
    then show ?thesis using null(1) tags [OF that] by simp
  qed
  then have null': "\<forall>d \<in> set (take (Suc e) ?ds). \<not> has_tag DT_NULL d"
    using n0 S e(2) by (auto simp: L' in_set_conv_nth)
  have "dynamics t = ?L @ (dynamics t ! e) # drop (Suc e) (dynamics t)" by (rule id_take_nth_drop [OF e(2)])
  then have a: "scan_entries c (dynamics t) scan_start = rfold (scan_step c) (?L @ [dynamics t ! e]) scan_start" for c
    using scan_entries_null [OF null(1,2)] by metis
  have "?ds ! Suc e = dynamics t ! Suc e" using S assms(3) by simp
  then have ns: "has_tag DT_NULL (?ds ! Suc e)" using assms(4) by simp
  have "Suc e < length ?ds" using S assms(3) by simp
  then have "?ds = take (Suc e) ?ds @ (?ds ! Suc e) # drop (Suc (Suc e)) ?ds" by (rule id_take_nth_drop)
  then have b: "scan_entries c ?ds scan_start = rfold (scan_step c) (take (Suc e) ?ds @ [?ds ! Suc e]) scan_start" for c
    using scan_entries_null [OF null' ns] by metis
  have neutral_T: "neutral d" if "has_tag ?T d" for d using that T(4) by (auto simp: neutral_def)
  have "neutral (dynamics t ! i) \<and> neutral (?ds ! i) \<or> dynamics t ! i = ?ds ! i" if i: "i < e" for i
  proof (cases "has_tag ?T (dynamics t ! i)")
    case True
    then show ?thesis using neutral_T tags [OF i] by blast
  next
    case False
    then show ?thesis using S i e(2) by simp
  qed
  moreover have "length (take e ?ds) = length ?L" using S by simp
  ultimately have "list_all2 (\<lambda>x y. neutral x \<and> neutral y \<or> x = y) ?L (take e ?ds)"
    using e(2) by (simp add: list_all2_conv_all_nth)
  from filter_list_all2 [OF this] have f: "filter (\<lambda>d. \<not> neutral d) (take (Suc e) ?ds) = filter (\<lambda>d. \<not> neutral d) ?L"
    using neutral_T [of "?ds ! e"] S by (simp add: L')
  have n: "\<not> neutral d" if "has_tag DT_NULL d" for d using that by (simp add: neutral_def has_tag_def DT_defs)
  have one: "rfold (scan_step c) [?ds ! Suc e] = rfold (scan_step c) [dynamics t ! e]" for c
    using scan_step_null [OF ns null(2), of c] by (intro ext) simp
  have "core_res (scan_entries c ?ds scan_start) = core_res (scan_entries c (dynamics t) scan_start)" for c
    using core_scan_all [OF refl, of c "take (Suc e) ?ds @ [?ds ! Suc e]" scan_start] core_scan_all [OF refl, of c "?L @ [dynamics t ! e]" scan_start]
    by (simp add: a b f n null(2) ns rfold_append one del: rfold.simps)
  then have "rbind (scan_entries (table64 t) ?ds scan_start) (\<lambda>s. if verdict (table64 t) hashes relocs s then Inr () else Inl PrintError) =
      rbind (scan_entries (table64 t) (dynamics t) scan_start) (\<lambda>s. if verdict (table64 t) hashes relocs s then Inr () else Inl PrintError)"
    using verdict_core_res by blast
  then show ?thesis using S by (simp add: t' dyn_verify_def flip: verdict_def)
qed

lemma sample_scan:
  "rfold (scan_step is64) (sample_entries is64) scan_start = Inr \<lparr>
     entryCounts = [0, 2, 0, 1, 1, 1, 1, 1, 1, 1, 1, 1, 0, 0, 0, 0, 0, 0, 0, 0, 0, 0, 0, 0], relocDynamicAddr = 0, relocDynamicSize = 0,
     relocDynamicEnt = 0, relocAddendDynamicAddr = 0x600, relocAddendDynamicSize = 48, relocAddendDynamicEnt = rela_size is64,
     gnuHashTableAddress = 0, sysvHashTableAddress = 0x200, stringTableAddress = 0x400, symbolTableAddress = 0x300, pltgotAddress = 0x2000,
     finiFunctionAddress = 0, initFunctionAddress = 0, verneedAddress = 0x520, versymAddress = 0x500 \<rparr>"
  by (cases is64; simp only:; code_simp)

lemma sample_verify:
  assumes "dynamics t = sample_entries (table64 t) @ d # ds" and "has_tag DT_NULL d" and "dyn_bytes t = length (dynamics t) * dynamicSize t"
    and "0 < dynamicSize t"
  shows "dyn_verify [] [sample_rela] t = Inr ()"
proof -
  have n: "\<forall>d \<in> set (sample_entries (table64 t)). \<not> has_tag DT_NULL d" by (simp add: sample_entries_def has_tag_def DT_defs)
  have z: "scan_step (table64 t) d = (\<lambda>s. Inr (count_at 0 s))"
    using assms(2) by (intro ext) (simp add: has_tag_def DT_defs scan_step_def scan_count_def scan_checks_def scan_store_def)
  have "verdict (table64 t) [] [sample_rela] (count_at 0 \<lparr>
     entryCounts = [0, 2, 0, 1, 1, 1, 1, 1, 1, 1, 1, 1, 0, 0, 0, 0, 0, 0, 0, 0, 0, 0, 0, 0], relocDynamicAddr = 0, relocDynamicSize = 0,
     relocDynamicEnt = 0, relocAddendDynamicAddr = 0x600, relocAddendDynamicSize = 48, relocAddendDynamicEnt = rela_size (table64 t),
     gnuHashTableAddress = 0, sysvHashTableAddress = 0x200, stringTableAddress = 0x400, symbolTableAddress = 0x300, pltgotAddress = 0x2000,
     finiFunctionAddress = 0, initFunctionAddress = 0, verneedAddress = 0x520, versymAddress = 0x500 \<rparr>)"
    by (simp add: verdict_def order_ok_def hashes_ok_def counts_ok_def relocs_ok_def DT_defs Let_def count_at_def sample_rela_def)
  then show ?thesis using assms(3,4) unfolding dyn_verify_def assms(1) scan_entries_null [OF n assms(2)] rfold_append sample_scan
    by (simp add: z flip: verdict_def)
qed

lemma sample_table_verify: "dyn_verify [] [sample_rela] (sample_table is64 (Suc n)) = Inr ()"
  by (rule sample_verify [of _ "\<lparr> is_Dynamic64 = is64, d_tag = 0, d_un = 0 \<rparr>" "replicate n \<lparr> is_Dynamic64 = is64, d_tag = 0, d_un = 0 \<rparr>"])
    (simp_all add: sample_table_def sample_entries_def has_tag_def DT_NULL_def)

theorem prependEntry_verify_witness:
  "\<exists>p t'. prependEntry DT_NEEDED 30 (sample_table True 2) = Inr (p, t') \<and> dyn_verify [] [sample_rela] t' = Inr ()"
proof -
  let ?t = "sample_table True 2"
  obtain p t' where p: "prependEntry DT_NEEDED 30 ?t = Inr (p, t')"
  proof -
    have "unat DT_NEEDED < 2 ^ 31" "findEmptyDynamic ?t < length (dynamics ?t)" by (simp_all add: sample_table_simps DT_NEEDED_def)
    from prependEntry_form [OF this, of 30] show ?thesis using that by blast
  qed
  have "has_tag DT_NULL (dynamics ?t ! Suc 13)"
    by (simp add: sample_table_def sample_entries_def has_tag_def DT_defs)
  moreover have "Suc 13 < length (dynamics ?t)" by (simp add: sample_table_simps)
  ultimately have "dyn_verify [] [sample_rela] t' = dyn_verify [] [sample_rela] ?t"
    using prependEntry_verify [OF disjI1 [OF refl] sample_table_simps(1) [symmetric] _ _ p] by blast
  then show ?thesis using p sample_table_verify [of True 1] by (auto simp: numeral_2_eq_2)
qed

text \<open>
  What \<open>dump\<close> writes, \<open>read\<close> reads back: a dynamic table whose entries are of the class of the
  file, written at an offset of the output file, is read from there entry by entry.
\<close>

theorem dyn_dump_read:
  assumes "list_all (dyn_entry_ok (table64 t)) (dynamics t)" and "dynamics t \<noteq> []"
    and "dynamicSize t = (if table64 t then 16 else 8)" and "dyn_bytes t = length (dynamics t) * dynamicSize t"
    and "dyn_verify hashes relocs t = Inr ()" and "unat off + dyn_bytes t < 2 ^ 32"
  shows "\<exists>f. dyn_read hashes relocs (unat off) (t \<lparr> dynamics := [] \<rparr>) \<lparr> inBuffer = dyn_dump off t out, inBufferPointer = 0 \<rparr> = Inr (t, f)"
proof -
  let ?bs = "concat (map charStream (dynamics t))"
  define offset where "offset = unat off"
  have "length ?bs = length (dynamics t) * dynamicSize t" if "list_all (dyn_entry_ok c) ds" "c = table64 t" "ds = dynamics t" for c ds
  proof -
    have "list_all (dyn_entry_ok c) xs \<Longrightarrow> length (concat (map charStream xs)) = length xs * (if c then 16 else 8)" for xs
      by (induction xs) (auto simp: length_charStream dyn_entry_ok_def dyn_fits_def)
    then show ?thesis using that assms(3) by simp
  qed
  then have l: "length ?bs = dyn_bytes t" using assms(1,4) by simp
  have "unat off + length ?bs < 2 ^ 32" using assms(6) by (simp only: l)
  then have d: "dyn_dump off t out = write_at ?bs offset out"
    using dyn_dump_eq [of t off out] assms(1-3) unfolding offset_def by (auto simp: list_all_iff dyn_entry_ok_def dyn_fits_def)
  have ne: "?bs \<noteq> []" using assms(2) length_charStream [of "hd (dynamics t)"] by (cases "dynamics t") (auto split: if_splits)
  define f where "f = setInPointer offset \<lparr> inBuffer = write_at ?bs offset out, inBufferPointer = 0 \<rparr>"
  have h: "holds f ?bs" using holds_write_at [OF ne] by (simp add: f_def)
  have "inBufferPointer f = offset"
  proof -
    have "0 < length ?bs" using ne by blast
    then have "offset < length (write_at ?bs offset out)" using length_write_at [OF ne, of offset out] by linarith
    then show ?thesis by (simp add: f_def setInPointer_def isInBuffer_def)
  qed
  then have r: "dyn_read_entries (table64 t) (dynamicSize t) offset (length (dynamics t)) f =
      Inr (dynamics t, skip (length (dynamics t) * dynamicSize t) f)"
    using dyn_read_entries_holds [OF assms(1), of f "[]"] h assms(3) by simp
  have n: "dyn_bytes t div dynamicSize t = length (dynamics t)" using assms(3,4) by simp
  show ?thesis unfolding d dyn_read_def offset_def [symmetric] f_def [symmetric] using r n assms(4,5) by (simp add: Let_def)
qed

theorem dyn_dump_read_witness:
  "\<exists>f. dyn_read [] [sample_rela] 4 (sample_table True 2 \<lparr> dynamics := [] \<rparr>)
     \<lparr> inBuffer = dyn_dump 4 (sample_table True 2) [], inBufferPointer = 0 \<rparr> = Inr (sample_table True 2, f)"
proof -
  have v: "dyn_verify [] [sample_rela] (sample_table True 2) = Inr ()" using sample_table_verify [of True 1] by (simp add: numeral_2_eq_2)
  have e: "list_all (dyn_entry_ok (table64 (sample_table True 2))) (dynamics (sample_table True 2))"
    by (simp add: sample_table_def sample_entries_def dyn_entry_ok_def dyn_fits_def field_def list_all_iff)
  show ?thesis using dyn_dump_read [OF e _ _ _ v, of 4 "[]"] by (simp add: sample_table_def sample_entries_def)
qed

text \<open>
  In a 32-bit file the entries \<open>extendTable\<close> adds are objects of class \<open>Dynamic64\<close>, of which \<open>dump\<close>
  writes the first eight bytes: when the added entry is used for a library or a search path, the
  file gets the type and a value of zero, whatever the value is.
\<close>

theorem extendTable_32_value_lost:
  assumes "\<not> table64 t" and "dynamicSize t = 8" and "unat type < 2 ^ 31" and "type \<noteq> DT_NULL"
    and "findEmptyDynamic t = length (dynamics t)" and "0 < num"
    and "extendTable hashes relocs num t = Inr (extra, t1)" and "prependEntry type strOffset t1 = Inr (p, t2)"
  shows "take (dynamicSize t2) (charStream (dynamics t2 ! length (dynamics t))) =
    le_bytes32 (if type = DT_RPATH \<and> countDynamics DT_RUNPATH t1 \<noteq> 0 then DT_RUNPATH else type) @ [0, 0, 0, 0]"
proof -
  let ?z = "\<lparr> is_Dynamic64 = True, d_tag = 0, d_un = 0 \<rparr>" and ?T = "entry_type type t1"
  have t1: "dynamics t1 = dynamics t @ replicate num ?z" "dynamicSize t1 = 8"
    using assms(2,7) by (auto simp: extendTable_def Let_def rbind_eq_Inr)
  have nn: "\<forall>d \<in> set (dynamics t). \<not> has_tag DT_NULL d"
    using assms(5) findEmptyDynamic_null(2) [of t] by simp
  have e: "length (dynamics t) = findEmptyDynamic t1" "length (dynamics t) < length (dynamics t1)"
    using nn assms(6) by (simp_all add: t1 findEmptyDynamic_def takeWhile_append has_tag_def DT_NULL_def)
  have T: "unat ?T < 2 ^ 31" "?T \<noteq> DT_NULL" using entry_type_small [OF assms(3,4)] by simp_all
  have t2: "t2 = t1 \<lparr> dynamics := prepended ?T strOffset t1 \<rparr>"
    using prependEntry_form [OF assms(3), of t1 strOffset] e assms(8) by auto
  have "has_tag ?T (dynamics t2 ! length (dynamics t))" "is_Dynamic64 (dynamics t2 ! length (dynamics t))"
    using prepended_spec [OF T(1) e T(2), of strOffset] assms(6) by (simp_all add: t2 t1 nth_append)
  moreover have "(ucast (drop_bit 32 (ucast ?T :: u64)) :: u32) = 0" by (intro bit_word_eqI) (auto simp: bit_simps dest: bit_imp_le_length)
  ultimately show ?thesis
    unfolding entry_type_def [symmetric] by (simp add: t2 t1(2) charStream_def le_bytes64_halves has_tag_def) (simp add: le_bytes32_def)
qed

theorem extendTable_32_value_lost_witness:
  "\<exists>extra t1 p t2. extendTable [] [sample_rela] 2 (sample_table False 0) = Inr (extra, t1) \<and> prependEntry DT_NEEDED 30 t1 = Inr (p, t2) \<and>
     take (dynamicSize t2) (charStream (dynamics t2 ! 13)) = [1, 0, 0, 0, 0, 0, 0, 0]"
proof -
  let ?t = "sample_table False 0"
  let ?z = "\<lparr> is_Dynamic64 = True, d_tag = 0, d_un = 0 \<rparr>"
  have r: "replicate 2 ?z = [?z, ?z]" by (simp add: numeral_2_eq_2)
  let ?t1 = "?t \<lparr> dynamics := dynamics ?t @ [?z, ?z], dyn_bytes := dyn_bytes ?t + 16 \<rparr>"
  have "dyn_verify [] [sample_rela] ?t1 = Inr ()"
    by (rule sample_verify [of _ ?z "[?z]"]) (simp_all add: sample_table_def sample_entries_def has_tag_def DT_NULL_def)
  then have "extendTable [] [sample_rela] 2 ?t = Inr (16, ?t1)" by (simp add: extendTable_def Let_def r) (simp add: sample_table_def)
  moreover have "findEmptyDynamic ?t1 = 13"
    by (simp add: findEmptyDynamic_def sample_table_def sample_entries_def has_tag_def DT_defs)
  moreover have "length (dynamics ?t1) = 15" by (simp add: sample_table_def sample_entries_def)
  ultimately obtain extra t1 where t1: "extendTable [] [sample_rela] 2 ?t = Inr (extra, t1)" "findEmptyDynamic t1 < length (dynamics t1)"
    by simp
  have n: "unat DT_NEEDED < 2 ^ 31" "DT_NEEDED \<noteq> DT_NULL" by (simp_all add: DT_defs)
  from prependEntry_form [OF n(1) t1(2), of 30]
  obtain p t2 where p: "prependEntry DT_NEEDED 30 t1 = Inr (p, t2)" by blast
  have s: "\<not> table64 ?t" "dynamicSize ?t = 8" "findEmptyDynamic ?t = length (dynamics ?t)" "length (dynamics ?t) = 13"
    by (simp_all add: findEmptyDynamic_def sample_table_def sample_entries_def has_tag_def DT_defs)
  have "DT_NEEDED \<noteq> DT_RPATH" by (simp add: DT_defs)
  then have "take (dynamicSize t2) (charStream (dynamics t2 ! 13)) = le_bytes32 DT_NEEDED @ [0, 0, 0, 0]"
    using extendTable_32_value_lost [OF s(1,2) n s(3) _ t1(1) p] s(4) by simp
  then show ?thesis using t1(1) p by (simp add: le_bytes32_def DT_NEEDED_def)
qed

end
