(* ===== verification/Priority_Queue.thy ===== *)
theory Priority_Queue
  imports Pebil_Prelude "HOL-Library.Multiset"
begin

text \<open>
  The binary heap of \<open>include/PriorityQueue.h\<close>. The elements the queue holds are the list \<open>entries\<close>: the code
  counts them from 1, its slot 0 and the slots behind \<open>elementCount\<close> are never read. The member
  \<open>minimumPriority\<close> is never read either.
\<close>

section \<open>The heap\<close>

record ('p, 't) PriorityQueue =
  bufferCount :: nat
  entries :: "('p \<times> 't) list"

definition elementCount :: "('p, 't) PriorityQueue \<Rightarrow> nat" where
  "elementCount q = length (entries q)"

definition entry :: "('p \<times> 't) list \<Rightarrow> nat \<Rightarrow> 'p \<times> 't" where
  "entry es i = es ! (i - 1)"

definition exchange :: "nat \<Rightarrow> nat \<Rightarrow> ('p \<times> 't) list \<Rightarrow> ('p \<times> 't) list" where
  "exchange i j es = es[i - 1 := entry es j, j - 1 := entry es i]"

definition prio :: "('p \<times> 't) list \<Rightarrow> nat \<Rightarrow> 'p" where
  "prio es i = fst (entry es i)"

definition min_child :: "nat \<Rightarrow> ('p :: linorder \<times> 't) list \<Rightarrow> nat" where
  "min_child i es = (let l = 2 * i; r = 2 * i + 1;
     minIdx = (if l \<le> length es \<and> prio es l < prio es i then l else i)
   in if r \<le> length es \<and> prio es r < prio es minIdx then r else minIdx)"

lemma length_exchange [simp]: "length (exchange i j es) = length es"
  by (simp add: exchange_def)

lemma min_child_cases:
  "min_child i es = i \<or> (i < min_child i es \<and> min_child i es \<le> length es)"
proof (cases "i = 0")
  case True
  then show ?thesis by (simp add: min_child_def Let_def prio_def entry_def)
qed (auto simp: min_child_def Let_def)

function heapify :: "nat \<Rightarrow> ('p :: linorder \<times> 't) list \<Rightarrow> ('p \<times> 't) list" where
  "heapify i es = (let minIdx = min_child i es in if minIdx \<noteq> i then heapify minIdx (exchange i minIdx es) else es)"
  by pat_completeness auto
termination
proof (relation "measure (\<lambda>(i, es). Suc (length es) - i)")
  fix i m :: nat and es :: "('p :: linorder \<times> 't) list"
  assume "m = min_child i es" "m \<noteq> i"
  then show "((m, exchange i m es), (i, es)) \<in> measure (\<lambda>(i, es). Suc (length es) - i)"
    using min_child_cases [of i es] by auto
qed simp

fun sift_up :: "nat \<Rightarrow> ('p :: linorder \<times> 't) list \<Rightarrow> ('p \<times> 't) list" where
  "sift_up i es = (if 1 < i \<and> prio es (i div 2) > prio es i then sift_up (i div 2) (exchange i (i div 2) es) else es)"

declare heapify.simps [simp del] sift_up.simps [simp del]

section \<open>Operations\<close>

definition pq_new :: "nat \<Rightarrow> ('p, 't) PriorityQueue" where
  "pq_new n = \<lparr> bufferCount = n, entries = [] \<rparr>"

definition pq_isEmpty :: "('p, 't) PriorityQueue \<Rightarrow> bool" where
  "pq_isEmpty q \<longleftrightarrow> elementCount q = 0"

definition doubleSize :: "('p, 't) PriorityQueue \<Rightarrow> ('p, 't) PriorityQueue" where
  "doubleSize q = q \<lparr> bufferCount := elementCount q * 2 \<rparr>"

definition findMin :: "('p, 't) PriorityQueue \<Rightarrow> 't res" where
  "findMin q = ASSERT (\<not> pq_isEmpty q) (Inr (snd (entry (entries q) 1)))"

definition deleteMin :: "('p :: linorder, 't) PriorityQueue \<Rightarrow> (('p \<times> 't) \<times> ('p, 't) PriorityQueue) res" where
  "deleteMin q = ASSERT (elementCount q \<ge> 1)
     (let m = entry (entries q) 1; es = butlast ((entries q)[0 := entry (entries q) (elementCount q)])
      in Inr (m, q \<lparr> entries := (if es \<noteq> [] then heapify 1 es else es) \<rparr>))"

definition pq_insert :: "'t \<Rightarrow> 'p :: linorder \<Rightarrow> ('p, 't) PriorityQueue \<Rightarrow> ('p, 't) PriorityQueue res" where
  "pq_insert d p q = (let q = (if elementCount q = bufferCount q then doubleSize q else q) in
     ASSERT (elementCount q < bufferCount q)
       (let es = entries q @ [(p, d)] in Inr (q \<lparr> entries := sift_up (length es) es \<rparr>)))"

section \<open>The heap order\<close>

definition heap_ok :: "('p :: linorder \<times> 't) list \<Rightarrow> bool" where
  "heap_ok es \<longleftrightarrow> (\<forall>i. 1 < i \<and> i \<le> length es \<longrightarrow> prio es (i div 2) \<le> prio es i)"

text \<open>The order holds but below node \<open>i\<close>, or but above it.\<close>

definition heap_below :: "nat \<Rightarrow> ('p :: linorder \<times> 't) list \<Rightarrow> bool" where
  "heap_below i es \<longleftrightarrow> (\<forall>j. 1 < j \<and> j \<le> length es \<and> j div 2 \<noteq> i \<longrightarrow> prio es (j div 2) \<le> prio es j) \<and>
     (\<forall>j. 1 < i \<and> j \<le> length es \<and> j div 2 = i \<longrightarrow> prio es (i div 2) \<le> prio es j)"

definition heap_above :: "nat \<Rightarrow> ('p :: linorder \<times> 't) list \<Rightarrow> bool" where
  "heap_above i es \<longleftrightarrow> (\<forall>j. 1 < j \<and> j \<le> length es \<and> j \<noteq> i \<longrightarrow> prio es (j div 2) \<le> prio es j) \<and>
     (\<forall>j. 1 < i \<and> j \<le> length es \<and> j div 2 = i \<longrightarrow> prio es (i div 2) \<le> prio es j)"

lemma prio_exchange:
  assumes "0 < i" "i \<le> length es" "0 < j" "j \<le> length es" "0 < k" "k \<le> length es"
  shows "prio (exchange i j es) k = (if k = j then prio es i else if k = i then prio es j else prio es k)"
proof -
  have "i - 1 \<noteq> k - 1 \<longleftrightarrow> i \<noteq> k" "j - 1 \<noteq> k - 1 \<longleftrightarrow> j \<noteq> k" using assms by auto
  then show ?thesis using assms by (auto simp: prio_def exchange_def entry_def nth_list_update)
qed

lemma mset_exchange:
  "0 < i \<Longrightarrow> i \<le> length es \<Longrightarrow> 0 < j \<Longrightarrow> j \<le> length es \<Longrightarrow> mset (exchange i j es) = mset es"
  using mset_swap [of "j - 1" es "i - 1"] by (simp add: exchange_def entry_def)

lemma min_child_min:
  assumes "0 < i" "j \<le> length es" "j div 2 = i"
  shows "prio es (min_child i es) \<le> prio es j"
proof -
  have "j = 2 * i \<or> j = 2 * i + 1" using assms(3) by auto
  then show ?thesis using assms by (auto simp: min_child_def Let_def)
qed

lemma min_child_less:
  assumes "min_child i es \<noteq> i"
  shows "min_child i es div 2 = i" and "prio es (min_child i es) < prio es i"
proof -
  show "min_child i es div 2 = i" using assms by (auto simp: min_child_def Let_def)
  show "prio es (min_child i es) < prio es i" using assms by (auto simp: min_child_def Let_def split: if_splits)
qed

lemma heap_below_step:
  assumes h: "heap_below i es" and i: "0 < i" and m: "m = min_child i es" "m \<noteq> i"
  shows "heap_below m (exchange i m es)"
proof -
  have mi: "m div 2 = i" and lt: "prio es m < prio es i" using min_child_less [of i es] m by auto
  have r: "i < m" "m \<le> length es" using min_child_cases [of i es] m by auto
  have p: "prio (exchange i m es) k = (if k = m then prio es i else if k = i then prio es m else prio es k)"
    if "0 < k" "k \<le> length es" for k using prio_exchange [of i es m k] that r i by simp
  show ?thesis unfolding heap_below_def length_exchange
  proof (intro conjI allI impI)
    fix j assume j: "1 < j \<and> j \<le> length es \<and> j div 2 \<noteq> m"
    then have j2: "0 < j div 2" "j div 2 \<le> length es" by auto
    show "prio (exchange i m es) (j div 2) \<le> prio (exchange i m es) j"
    proof (cases "j div 2 = i")
      case True
      then show ?thesis using p [of j] p [of "j div 2"] j j2 r lt min_child_min [OF i _ True, of es] m(1) by auto
    next
      case False
      then have n: "j \<noteq> m" using mi by auto
      have jm: "j div 2 \<noteq> m" using j by simp
      show ?thesis
      proof (cases "j = i")
        case True
        then have "prio es (i div 2) \<le> prio es m" using h mi r j by (auto simp: heap_below_def)
        moreover have "prio (exchange i m es) j = prio es m" using p [of j] True r i by simp
        moreover have "prio (exchange i m es) (j div 2) = prio es (i div 2)"
          using p [of "j div 2"] j2 jm False True by simp
        ultimately show ?thesis by simp
      next
        case ji: False
        have "prio es (j div 2) \<le> prio es j" using h j False by (auto simp: heap_below_def)
        moreover have "prio (exchange i m es) j = prio es j" using p [of j] n ji j by simp
        moreover have "prio (exchange i m es) (j div 2) = prio es (j div 2)" using p [OF j2] jm False by simp
        ultimately show ?thesis by simp
      qed
    qed
  next
    fix j assume j: "1 < m \<and> j \<le> length es \<and> j div 2 = m"
    then have k: "m < j" using r i by auto
    then have "prio es m \<le> prio es j" using h j r by (auto simp: heap_below_def)
    moreover have "prio (exchange i m es) i = prio es m" using p [of i] r i by simp
    moreover have "prio (exchange i m es) j = prio es j" using p [of j] j k r by simp
    ultimately show "prio (exchange i m es) (m div 2) \<le> prio (exchange i m es) j" unfolding mi by simp
  qed
qed

lemma heapify_spec:
  "0 < i \<Longrightarrow> heap_below i es \<Longrightarrow> heap_ok (heapify i es) \<and> mset (heapify i es) = mset es"
proof (induction i es rule: heapify.induct)
  case (1 i es)
  show ?case
  proof (cases "min_child i es = i")
    case True
    have "prio es (j div 2) \<le> prio es j" if "1 < j \<and> j \<le> length es" for j
    proof (cases "j div 2 = i")
      case T: True
      then show ?thesis using min_child_min [OF 1(2), of j es] that True by simp
    qed (use 1(3) that in \<open>auto simp: heap_below_def\<close>)
    then show ?thesis using True by (simp add: heap_ok_def heapify.simps [of i es])
  next
    case False
    have r: "i < min_child i es" "min_child i es \<le> length es" using min_child_cases [of i es] False by auto
    have e: "heapify i es = heapify (min_child i es) (exchange i (min_child i es) es)"
      using False by (simp add: heapify.simps [of i es] Let_def)
    have "heap_below (min_child i es) (exchange i (min_child i es) es)"
      using heap_below_step [OF 1(3,2) refl False] .
    moreover have "mset (exchange i (min_child i es) es) = mset es" using r 1(2) by (simp add: mset_exchange)
    ultimately show ?thesis using 1(1) [OF refl False] r by (simp add: e)
  qed
qed

lemma heap_above_step:
  assumes h: "heap_above i es" and i: "1 < i" "i \<le> length es" and gt: "prio es (i div 2) > prio es i"
  shows "heap_above (i div 2) (exchange i (i div 2) es)"
proof -
  let ?k = "i div 2"
  have k: "0 < ?k" "?k < i" using i by auto
  have p: "prio (exchange i ?k es) j = (if j = ?k then prio es i else if j = i then prio es ?k else prio es j)"
    if "0 < j" "j \<le> length es" for j using prio_exchange [of i es ?k j] that i k by simp
  have ok: "prio es (j div 2) \<le> prio es j" if "1 < j" "j \<le> length es" "j \<noteq> i" for j
    using h that by (auto simp: heap_above_def)
  show ?thesis unfolding heap_above_def length_exchange
  proof (intro conjI allI impI)
    fix j assume j: "1 < j \<and> j \<le> length es \<and> j \<noteq> ?k"
    then have j2: "0 < j div 2" "j div 2 \<le> length es" by auto
    have sj: "prio (exchange i ?k es) j = (if j = i then prio es ?k else prio es j)" using p [of j] j by simp
    consider "j = i" | "j \<noteq> i" "j div 2 = ?k" | "j div 2 = i" | "j \<noteq> i" "j div 2 \<noteq> ?k" "j div 2 \<noteq> i" by blast
    then show "prio (exchange i ?k es) (j div 2) \<le> prio (exchange i ?k es) j"
    proof cases
      case 1
      then show ?thesis using p [OF j2] sj gt by simp
    next
      case 2
      then have "prio es ?k \<le> prio es j" using ok [of j] j by simp
      then show ?thesis using p [OF j2] sj gt 2 by simp
    next
      case 3
      then have n: "j \<noteq> i" "i \<noteq> ?k" using i by auto
      have "prio es ?k \<le> prio es j" using h 3 j i by (auto simp: heap_above_def)
      then show ?thesis using p [OF j2] sj n 3 by simp
    next
      case 4
      then show ?thesis using p [OF j2] sj ok [of j] j by simp
    qed
  next
    fix j assume j: "1 < ?k \<and> j \<le> length es \<and> j div 2 = ?k"
    then have g: "prio es (?k div 2) \<le> prio es ?k" using ok [of ?k] k i by auto
    have jk: "?k < j" using j by auto
    then have sj: "prio (exchange i ?k es) j = (if j = i then prio es ?k else prio es j)" using p [of j] j by simp
    have j0: "0 < ?k div 2" "?k div 2 \<le> length es" "?k div 2 \<noteq> ?k" "?k div 2 \<noteq> i" using j i k by auto
    have "prio (exchange i ?k es) (?k div 2) = prio es (?k div 2)" using p [OF j0(1,2)] j0 by simp
    moreover have "prio es ?k \<le> prio es j" if "j \<noteq> i" using ok [of j] that j jk by simp
    ultimately show "prio (exchange i ?k es) (?k div 2) \<le> prio (exchange i ?k es) j" using g sj by fastforce
  qed
qed

lemma sift_up_spec:
  "0 < i \<Longrightarrow> i \<le> length es \<Longrightarrow> heap_above i es \<Longrightarrow> heap_ok (sift_up i es) \<and> mset (sift_up i es) = mset es"
proof (induction i es rule: sift_up.induct)
  case (1 i es)
  show ?case
  proof (cases "1 < i \<and> prio es (i div 2) > prio es i")
    case True
    then have "heap_above (i div 2) (exchange i (i div 2) es)" using heap_above_step 1(3,4) by blast
    moreover have "mset (exchange i (i div 2) es) = mset es" using True 1(3) by (simp add: mset_exchange)
    ultimately show ?thesis using 1(1) [OF True] True 1(3) by (simp add: sift_up.simps [of i es])
  next
    case False
    have "prio es (j div 2) \<le> prio es j" if "1 < j \<and> j \<le> length es" for j
      using 1(4) that False by (cases "j = i") (auto simp: heap_above_def)
    moreover have "sift_up i es = es" by (simp only: sift_up.simps [of i es] False if_False)
    ultimately show ?thesis by (simp add: heap_ok_def)
  qed
qed

lemma heap_ok_root:
  assumes "heap_ok es" "0 < i" "i \<le> length es"
  shows "prio es 1 \<le> prio es i"
  using assms(2,3)
proof (induction i rule: less_induct)
  case (less i)
  show ?case
  proof (cases "i = 1")
    case False
    then have i: "1 < i" using less.prems by simp
    then have "prio es 1 \<le> prio es (i div 2)" using less.IH [of "i div 2"] less.prems by simp
    also have "\<dots> \<le> prio es i" using assms(1) i less.prems by (auto simp: heap_ok_def)
    finally show ?thesis .
  qed simp
qed

section \<open>The contract of a priority queue\<close>

text \<open>A loop that takes out the elements one after the other and passes them to its body.\<close>

fun drain_loop :: "('q \<Rightarrow> ('x \<times> 'q) res) \<Rightarrow> ('x \<Rightarrow> 's \<Rightarrow> 's res) \<Rightarrow> nat \<Rightarrow> 'q \<Rightarrow> 's \<Rightarrow> 's res" where
  "drain_loop del f 0 q s = Inr s"
| "drain_loop del f (Suc n) q s = rbind (del q) (\<lambda>(x, q). rbind (f x s) (drain_loop del f n q))"

text \<open>The queue is a multiset of elements with priorities, of which a deletion takes out a least one.\<close>

locale min_queue =
  fixes invar :: "'q \<Rightarrow> bool"
    and elems :: "'q \<Rightarrow> ('p :: linorder \<times> 't) multiset"
    and ins :: "'t \<Rightarrow> 'p \<Rightarrow> 'q \<Rightarrow> 'q res"
    and del :: "'q \<Rightarrow> (('p \<times> 't) \<times> 'q) res"
  assumes ins: "invar q \<Longrightarrow> \<exists>q'. ins d p q = Inr q' \<and> invar q' \<and> elems q' = add_mset (p, d) (elems q)"
    and del: "invar q \<Longrightarrow> elems q \<noteq> {#} \<Longrightarrow> \<exists>x q'. del q = Inr (x, q') \<and> invar q' \<and>
      x \<in># elems q \<and> elems q' = elems q - {#x#} \<and> (\<forall>y \<in># elems q. fst x \<le> fst y)"
begin

lemma ins_all:
  "invar q \<Longrightarrow> \<exists>q'. rfold (\<lambda>(p, d). ins d p) xs q = Inr q' \<and> invar q' \<and> elems q' = mset xs + elems q"
proof (induction xs arbitrary: q)
  case (Cons x xs)
  obtain p d where x: "x = (p, d)" by (cases x)
  obtain q1 where q1: "ins d p q = Inr q1" "invar q1" "elems q1 = add_mset (p, d) (elems q)" using ins [OF Cons.prems] by blast
  then show ?case using Cons.IH [OF q1(2)] by (simp add: x)
qed simp

lemma drain:
  "invar q \<Longrightarrow> n = size (elems q) \<Longrightarrow>
   \<exists>xs. sorted (map fst xs) \<and> mset xs = elems q \<and> (\<forall>(f :: 'p \<times> 't \<Rightarrow> 's \<Rightarrow> 's res) s. drain_loop del f n q s = rfold f xs s)"
proof (induction n arbitrary: q)
  case 0
  then show ?case by (intro exI [of _ "[]"]) simp
next
  case (Suc n)
  then have "elems q \<noteq> {#}" by auto
  then obtain x q' where q': "del q = Inr (x, q')" "invar q'" "x \<in># elems q" "elems q' = elems q - {#x#}" "\<forall>y \<in># elems q. fst x \<le> fst y"
    using del Suc.prems(1) by meson
  have "n = size (elems q')" using q'(3,4) Suc.prems(2) by (simp add: size_Diff_singleton)
  then obtain xs where xs: "sorted (map fst xs)" "mset xs = elems q'"
      "\<forall>(f :: 'p \<times> 't \<Rightarrow> 's \<Rightarrow> 's res) s. drain_loop del f n q' s = rfold f xs s"
    using Suc.IH [OF q'(2)] by blast
  have "set xs \<subseteq> set_mset (elems q)" using xs(2) q'(4) by (metis in_diffD set_mset_mset subsetI)
  then have "sorted (map fst (x # xs))" using xs(1) q'(5) by auto
  moreover have "mset (x # xs) = elems q" using xs(2) q'(3,4) by simp
  moreover have "drain_loop del f (Suc n) q s = rfold f (x # xs) s" for f :: "'p \<times> 't \<Rightarrow> 's \<Rightarrow> 's res" and s
    using xs(3) by (cases "f x s") (simp_all add: q'(1))
  ultimately show ?case by blast
qed

end

definition pq_invar :: "('p :: linorder, 't) PriorityQueue \<Rightarrow> bool" where
  "pq_invar q \<longleftrightarrow> heap_ok (entries q) \<and> length (entries q) \<le> bufferCount q \<and> 0 < bufferCount q"

definition pq_elems :: "('p, 't) PriorityQueue \<Rightarrow> ('p \<times> 't) multiset" where
  "pq_elems q = mset (entries q)"

lemma pq_new_ok: "0 < n \<Longrightarrow> pq_invar (pq_new n) \<and> pq_elems (pq_new n) = {#}"
  by (simp add: pq_new_def pq_invar_def pq_elems_def heap_ok_def)

lemma prio_append: "0 < k \<Longrightarrow> k \<le> length es \<Longrightarrow> prio (es @ fs) k = prio es k"
  by (cases k) (simp_all add: prio_def entry_def nth_append)

lemma heap_above_append: "heap_ok es \<Longrightarrow> heap_above (length (es @ [x])) (es @ [x])"
  unfolding heap_above_def heap_ok_def by (auto simp: prio_append)

lemma pq_insert_spec:
  assumes "pq_invar q"
  shows "\<exists>q'. pq_insert d p q = Inr q' \<and> pq_invar q' \<and> pq_elems q' = add_mset (p, d) (pq_elems q)"
proof -
  define q1 where "q1 = (if elementCount q = bufferCount q then doubleSize q else q)"
  have q1: "entries q1 = entries q" "length (entries q) < bufferCount q1"
    using assms by (auto simp: q1_def doubleSize_def elementCount_def pq_invar_def)
  let ?es = "entries q @ [(p, d)]"
  have s: "heap_ok (sift_up (length ?es) ?es)" "mset (sift_up (length ?es) ?es) = mset ?es"
    using sift_up_spec [of "length ?es" ?es] heap_above_append [of "entries q" "(p, d)"] assms by (auto simp: pq_invar_def)
  have l: "length (sift_up (length ?es) ?es) = length ?es" using s(2) by (metis size_mset)
  have "pq_insert d p q = Inr (q1 \<lparr> entries := sift_up (length ?es) ?es \<rparr>)"
    using q1 unfolding pq_insert_def q1_def [symmetric] by (simp add: elementCount_def Let_def)
  then show ?thesis using s l q1 by (simp add: pq_invar_def pq_elems_def)
qed

lemma heap_below_root:
  assumes "heap_ok es" "\<forall>k. 1 < k \<and> k \<le> length fs \<longrightarrow> prio fs k = prio es k" "length fs \<le> length es"
  shows "heap_below 1 fs"
proof -
  have "prio fs (j div 2) \<le> prio fs j" if j: "1 < j \<and> j \<le> length fs \<and> j div 2 \<noteq> 1" for j
  proof -
    have "1 < j div 2" using j by linarith
    moreover have "j div 2 \<le> length fs" using j by auto
    ultimately show ?thesis using assms j by (auto simp: heap_ok_def)
  qed
  then show ?thesis by (simp add: heap_below_def)
qed

lemma deleteMin_spec:
  assumes "pq_invar q" and ne: "pq_elems q \<noteq> {#}"
  shows "\<exists>x q'. deleteMin q = Inr (x, q') \<and> pq_invar q' \<and> x \<in># pq_elems q \<and> pq_elems q' = pq_elems q - {#x#} \<and>
    (\<forall>y \<in># pq_elems q. fst x \<le> fst y)"
proof -
  let ?es = "entries q"
  let ?fs = "butlast (?es[0 := entry ?es (length ?es)])"
  have h: "heap_ok ?es" using assms by (simp add: pq_invar_def)
  have n: "0 < length ?es" using ne by (simp add: pq_elems_def)
  obtain x ys where es: "?es = x # ys" using n by (cases ?es) auto
  have fs: "mset ?fs = mset ys"
  proof (cases "ys = []")
    case False
    then have "?es[0 := entry ?es (length ?es)] = last ys # ys" unfolding es by (simp add: entry_def last_conv_nth nth_Cons')
    then have "?fs = last ys # butlast ys" using False by simp
    then show ?thesis using False by (metis add_mset_add_single append_butlast_last_id mset.simps(2) mset_append mset_single_iff)
  qed (simp add: es)
  have lf: "length ?fs = length ?es - 1" by simp
  have "prio ?fs k = prio ?es k" if "1 < k \<and> k \<le> length ?fs" for k
    using that by (cases k) (simp_all add: prio_def entry_def nth_butlast)
  then have b: "heap_below 1 ?fs" using heap_below_root [OF h, of ?fs] by simp
  define gs where "gs = (if ?fs \<noteq> [] then heapify 1 ?fs else ?fs)"
  have g: "heap_ok gs \<and> mset gs = mset ys"
    using heapify_spec [OF _ b] fs by (auto simp: gs_def heap_ok_def)
  have lg: "length gs = length ys" using g by (metis size_mset)
  have d: "deleteMin q = Inr (x, q \<lparr> entries := gs \<rparr>)"
    using n by (simp add: deleteMin_def elementCount_def Let_def gs_def Suc_le_eq) (simp add: entry_def es)
  have "\<forall>y \<in> set ?es. fst x \<le> fst y"
  proof
    fix y assume "y \<in> set ?es"
    then obtain i where i: "i < length ?es" "?es ! i = y" by (auto simp: in_set_conv_nth)
    then show "fst x \<le> fst y" using heap_ok_root [OF h, of "Suc i"] by (simp add: prio_def entry_def) (simp add: es)
  qed
  then show ?thesis using d g lg assms(1) by (simp add: pq_invar_def pq_elems_def es)
qed

interpretation pq: min_queue "pq_invar :: ('p :: linorder, 't) PriorityQueue \<Rightarrow> bool" pq_elems pq_insert deleteMin
  proof unfold_locales
  show "\<exists>q'. pq_insert d p q = Inr q' \<and> pq_invar q' \<and> pq_elems q' = add_mset (p, d) (pq_elems q)" if "pq_invar q"
    for q :: "('p :: linorder, 't) PriorityQueue" and d p
    by (rule pq_insert_spec [OF that])
  show "\<exists>x q'. deleteMin q = Inr (x, q') \<and> pq_invar q' \<and> x \<in># pq_elems q \<and> pq_elems q' = pq_elems q - {#x#} \<and>
      (\<forall>y \<in># pq_elems q. fst x \<le> fst y)" if "pq_invar q" "pq_elems q \<noteq> {#}" for q :: "('p :: linorder, 't) PriorityQueue"
    by (rule deleteMin_spec [OF that])
qed

end
