(* ===== verification/Elf_Layout.thy ===== *)
theory Elf_Layout
  imports Elf_Sections Priority_Queue
begin

text \<open>
  The layout of an executable: the checks of \<open>ElfFile::verify\<close> on segments and on the ranges of
  bytes its parts occupy, and \<open>addSegment\<close> and \<open>addSection\<close>, which insert a header and correct the
  indices of the others.
\<close>

section \<open>Ranges\<close>

text \<open>The product of two 16-bit fields is a signed 32-bit number.\<close>

definition table_size :: "u16 \<Rightarrow> u16 \<Rightarrow> u64" where
  "table_size entsize num = scast (ucast entsize * ucast num :: u32)"

definition file_ranges :: "FileHeader \<Rightarrow> SectionHeader list \<Rightarrow> (u64 \<times> u64) list" where
  "file_ranges fh hs = [(0, ucast (e_ehsize fh)), (e_phoff fh, table_size (e_phentsize fh) (e_phnum fh)),
     (e_shoff fh, table_size (e_shentsize fh) (e_shnum fh))] @
     map (\<lambda>h. (sh_offset h, sh_size h)) (filter (\<lambda>h. sh_type h \<noteq> SHT_NOBITS) (tl hs))"

definition range_step :: "u64 \<times> u64 \<Rightarrow> u64 \<times> u64 \<Rightarrow> (u64 \<times> u64) res" where
  "range_step cur prev = (if fst prev + snd prev > fst cur \<and> snd cur \<noteq> 0 then Inl PrintError else Inr cur)"

definition verify_ranges :: "FileHeader \<Rightarrow> SectionHeader list \<Rightarrow> unit res" where
  "verify_ranges fh hs =
     rbind (rfold (\<lambda>(p, d). pq_insert d p) (file_ranges fh hs) (pq_new (length hs + 3))) (\<lambda>addrs.
     ASSERT (\<not> pq_isEmpty addrs) (rbind (deleteMin addrs) (\<lambda>(prev, addrs).
     rbind (drain_loop deleteMin range_step (elementCount addrs) addrs prev) (\<lambda>_. Inr ()))))"

section \<open>Segments\<close>

definition segment_step :: "nat \<times> ProgramHeader \<Rightarrow> nat \<times> nat \<Rightarrow> (nat \<times> nat) res" where
  "segment_step ip idxs = (case ip of (i, p) \<Rightarrow>
     if p_type p = PT_LOAD then
       if isReadable p \<and> isExecutable p then Inr (i, snd idxs)
       else if isReadable p \<and> isWritable p then Inr (fst idxs, i) else Inl PrintError
     else Inr idxs)"

definition interp_step :: "nat \<Rightarrow> nat \<times> ProgramHeader \<Rightarrow> nat \<Rightarrow> nat res" where
  "interp_step n ip k = (case ip of (i, p) \<Rightarrow>
     if p_type p = PT_INTERP then if k < n then Inl PrintError else Inr i else Inr k)"

text \<open>The result is the index of the text segment and that of the data segment.\<close>

definition verify_segments :: "bool \<Rightarrow> ProgramHeader list \<Rightarrow> nat \<times> nat \<Rightarrow> (nat \<times> nat) res" where
  "verify_segments staticLinked phs idxs = rbind (rfold segment_step (enumerate 0 phs) idxs) (\<lambda>idxs.
     rbind (rfold (interp_step (length phs)) (enumerate 0 phs) (length phs)) (\<lambda>k.
     if k < length phs \<and> (list_ex (\<lambda>p. p_type p = PT_LOAD) (take k phs) \<or> staticLinked) then Inl PrintError
     else Inr idxs))"

definition getProgramHeaderPHDR :: "ProgramHeader list \<Rightarrow> nat option res" where
  "getProgramHeaderPHDR phs = ASSERT (0 < length phs) (Inr (if p_type (phs ! 0) = PT_PHDR then Some 0 else None))"

section \<open>Adding a segment\<close>

definition insert_nth :: "'a \<Rightarrow> nat \<Rightarrow> 'a list \<Rightarrow> 'a list" where
  "insert_nth x idx xs = take idx xs @ x # drop idx xs"

definition grow_phdr :: "bool \<Rightarrow> FileHeader \<Rightarrow> ProgramHeader \<Rightarrow> ProgramHeader" where
  "grow_phdr is64 fh p = p \<lparr> p_memsz := field is64 (p_memsz p + ucast (e_phentsize fh)),
     p_filesz := field is64 (p_filesz p + ucast (e_phentsize fh)) \<rparr>"

definition addSegment :: "bool \<Rightarrow> nat \<Rightarrow> ProgramHeader \<Rightarrow> FileHeader \<times> ProgramHeader list \<Rightarrow> (FileHeader \<times> ProgramHeader list) res" where
  "addSegment is64 idx p x = (case x of (fh, phs) \<Rightarrow> ASSERT (idx \<le> length phs)
     (let phs = insert_nth p idx phs; fh = fh \<lparr> e_phnum := e_phnum fh + 1 \<rparr>
      in rbind (getProgramHeaderPHDR phs) (\<lambda>k. Inr (fh, case k of None \<Rightarrow> phs | Some k \<Rightarrow> phs[k := grow_phdr is64 fh (phs ! k)]))))"

section \<open>Adding a section\<close>

datatype SectionClass = no_type | RawSection | TextSection | DataSection | SymbolTableSection | StringTableSection | RelocationSection |
  SysvHashSection | DynamicSection | NoteSection | GnuHashSection | GnuVerneedSection | GnuVersymSection

definition setSectionType :: "SectionHeader \<Rightarrow> SectionClass res" where
  "setSectionType h = (let t = sh_type h in
     if t = 1 then Inr (if hasExecInstrBit h then TextSection else if hasWriteBit h then DataSection else RawSection)
     else if t = 2 \<or> t = 11 then Inr SymbolTableSection
     else if t = 3 then Inr StringTableSection
     else if t = 4 \<or> t = 9 then Inr RelocationSection
     else if t = SHT_HASH then Inr SysvHashSection
     else if t = 6 then Inr DynamicSection
     else if t = 7 then Inr NoteSection
     else if t = SHT_GNU_HASH then Inr GnuHashSection
     else if t = 0x6ffffffe then Inr GnuVerneedSection
     else if t = 0x6fffffff then Inr GnuVersymSection
     else if t \<in> {0, 8, 10, 14, 15, 16, 17, 18, 19, 0x6ffffff7, 0x6ffffffd} then Inr no_type
     else Inl PrintError)"

text \<open>The state: the file header, the section headers, the class and index of the raw sections and the
  symbols of every table.\<close>

type_synonym sections = "FileHeader \<times> SectionHeader list \<times> (SectionClass \<times> nat) list \<times> Symbol list list"

definition relink :: "nat \<Rightarrow> nat \<Rightarrow> SectionHeader \<Rightarrow> SectionHeader" where
  "relink idx n h = (if unat (sh_link h) \<ge> idx \<and> unat (sh_link h) < n then h \<lparr> sh_link := sh_link h + 1 \<rparr> else h)"

definition resymbol :: "nat \<Rightarrow> nat \<Rightarrow> Symbol \<Rightarrow> Symbol" where
  "resymbol idx n s = (if unat (st_shndx s) \<ge> idx \<and> unat (st_shndx s) < n then s \<lparr> st_shndx := st_shndx s + 1 \<rparr> else s)"

definition addSection :: "nat \<Rightarrow> SectionClass \<Rightarrow> SectionHeader \<Rightarrow> sections \<Rightarrow> (u64 \<times> sections) res" where
  "addSection idx classtype h x = (case x of (fh, hs, raws, syms) \<Rightarrow> ASSERT (idx \<le> length hs)
     (rbind (setSectionType h) (\<lambda>_. ASSERT ((classtype = TextSection \<or> classtype = DataSection) \<and> idx \<le> length raws)
     (let hs = map (\<lambda>(i, h). h \<lparr> sh_index := of_nat i \<rparr>) (enumerate 0 (insert_nth h idx hs)); n = length hs;
          raws = map (\<lambda>(i, c, _). (c, i)) (enumerate 0 (insert_nth (classtype, idx) idx raws));
          fh = fh \<lparr> e_shnum := e_shnum fh + 1 \<rparr>;
          fh = (if idx < unat (e_shstrndx fh) then fh \<lparr> e_shstrndx := e_shstrndx fh + 1 \<rparr> else fh)
      in Inr (sh_offset h, fh, map (relink idx n) hs, raws, map (map (resymbol idx n)) syms)))))"

section \<open>Ranges: correctness\<close>

text \<open>One range ends before the other begins; two ranges that do not meet.\<close>

definition before :: "u64 \<times> u64 \<Rightarrow> u64 \<times> u64 \<Rightarrow> bool" where
  "before x y \<longleftrightarrow> unat (fst x) + unat (snd x) \<le> unat (fst y)"

definition disjoint :: "u64 \<times> u64 \<Rightarrow> u64 \<times> u64 \<Rightarrow> bool" where
  "disjoint x y \<longleftrightarrow> before x y \<or> before y x"

definition proper_range :: "u64 \<times> u64 \<Rightarrow> bool" where
  "proper_range x \<longleftrightarrow> snd x \<noteq> 0 \<and> unat (fst x) + unat (snd x) < 2 ^ 64"

lemma sorted_wrt_perm:
  assumes "symp R" "mset xs = mset ys" "sorted_wrt R xs"
  shows "sorted_wrt R ys"
  using assms(2,3)
proof (induction xs arbitrary: ys)
  case (Cons x xs)
  then obtain us vs where ys: "ys = us @ x # vs" by (metis list.set_intros(1) mset_eq_setD split_list)
  then have m: "mset xs = mset (us @ vs)" using Cons.prems(1) by simp
  then have s: "sorted_wrt R (us @ vs)" "\<forall>y \<in> set (us @ vs). R x y"
    using Cons.IH [OF m] Cons.prems(2) mset_eq_setD [OF m] by simp_all
  then show ?case using \<open>symp R\<close> by (auto simp: ys sorted_wrt_append dest: sympD)
qed simp

lemma range_step_chain:
  "rfold range_step xs x = (if (\<forall>i < length xs. \<not> (fst ((x # xs) ! i) + snd ((x # xs) ! i) > fst (xs ! i) \<and> snd (xs ! i) \<noteq> 0))
     then Inr (last (x # xs)) else Inl PrintError)"
proof (induction xs arbitrary: x)
  case (Cons y ys)
  have "(\<forall>i < length (y # ys). P i) \<longleftrightarrow> P 0 \<and> (\<forall>i < length ys. P (Suc i))" for P
    by (simp add: All_less_Suc2)
  then show ?case using Cons [of y] by (simp add: range_step_def)
qed simp

lemma chain_before:
  assumes "\<forall>x \<in> set xs. proper_range x"
  shows "(\<forall>i. Suc i < length xs \<longrightarrow> \<not> (fst (xs ! i) + snd (xs ! i) > fst (xs ! Suc i) \<and> snd (xs ! Suc i) \<noteq> 0)) \<longleftrightarrow> sorted_wrt before xs"
proof -
  have t: "transp before" by (auto simp: transp_def before_def)
  have e: "\<not> (fst (xs ! i) + snd (xs ! i) > fst (xs ! Suc i) \<and> snd (xs ! Suc i) \<noteq> 0) \<longleftrightarrow> before (xs ! i) (xs ! Suc i)"
    if "Suc i < length xs" for i
  proof -
    have p: "proper_range (xs ! i)" "proper_range (xs ! Suc i)" using assms that by (auto simp: Suc_lessD)
    have "unat (fst (xs ! i) + snd (xs ! i)) = unat (fst (xs ! i)) + unat (snd (xs ! i))"
      using p(1) by (simp add: proper_range_def unat_add_lem [THEN iffD1])
    then show ?thesis using p(2) by (simp add: proper_range_def before_def word_less_nat_alt not_less)
  qed
  show ?thesis unfolding sorted_wrt_iff_nth_Suc_transp [OF t] using e by blast
qed

lemma sorted_disjoint:
  assumes "sorted (map fst xs)" "\<forall>x \<in> set xs. proper_range x"
  shows "sorted_wrt before xs \<longleftrightarrow> sorted_wrt disjoint xs"
proof
  assume d: "sorted_wrt disjoint xs"
  have "before (xs ! i) (xs ! j)" if ij: "i < j" "j < length xs" for i j
  proof -
    have le: "fst (xs ! i) \<le> fst (xs ! j)" using sorted_wrt_nth_less [OF assms(1), of i j] ij by simp
    have "0 < unat (snd (xs ! j))" using assms(2) ij by (auto simp: proper_range_def unat_gt_0)
    then have "\<not> before (xs ! j) (xs ! i)" using le by (simp add: before_def word_le_nat_alt)
    then show ?thesis using sorted_wrt_nth_less [OF d ij] by (simp add: disjoint_def)
  qed
  then show "sorted_wrt before xs" by (simp add: sorted_wrt_iff_nth_less)
qed (auto simp: disjoint_def elim: sorted_wrt_mono_rel [rotated])

lemma symp_disjoint: "symp disjoint"
  by (auto simp: symp_def disjoint_def)

lemma verify_ranges_drain:
  "\<exists>x xs. sorted (map fst (x # xs)) \<and> mset (x # xs) = mset (file_ranges fh hs) \<and>
     verify_ranges fh hs = rbind (rfold range_step xs x) (\<lambda>_. Inr ())"
proof -
  obtain q where q: "rfold (\<lambda>(p, d). pq_insert d p) (file_ranges fh hs) (pq_new (length hs + 3)) = Inr q"
      "pq_invar q" "pq_elems q = mset (file_ranges fh hs)"
  proof -
    have "pq_invar (pq_new (length hs + 3) :: (u64, u64) PriorityQueue)" "pq_elems (pq_new (length hs + 3) :: (u64, u64) PriorityQueue) = {#}"
      by (rule pq_new_ok [THEN conjunct1], simp) (rule pq_new_ok [THEN conjunct2], simp)
    then show ?thesis using that pq.ins_all [of "pq_new (length hs + 3)" "file_ranges fh hs"] by auto
  qed
  have ne: "pq_elems q \<noteq> {#}" by (simp add: q(3) file_ranges_def)
  obtain x q' where d: "deleteMin q = Inr (x, q')" "pq_invar q'" "x \<in># pq_elems q" "pq_elems q' = pq_elems q - {#x#}"
      "\<forall>y \<in># pq_elems q. fst x \<le> fst y" using pq.del [OF q(2) ne] by blast
  obtain xs where xs: "sorted (map fst xs)" "mset xs = pq_elems q'"
      "\<forall>f s. drain_loop deleteMin (f :: u64 \<times> u64 \<Rightarrow> u64 \<times> u64 \<Rightarrow> (u64 \<times> u64) res) (size (pq_elems q')) q' s = rfold f xs s"
    using pq.drain [OF d(2) refl] by blast
  have n: "elementCount q' = size (pq_elems q')" by (simp add: elementCount_def pq_elems_def)
  have "set xs \<subseteq> set_mset (pq_elems q)" using xs(2) d(4) by (metis in_diffD set_mset_mset subsetI)
  then have "sorted (map fst (x # xs))" using xs(1) d(5) by auto
  moreover have "mset (x # xs) = mset (file_ranges fh hs)" using xs(2) d(3,4) q(3) by simp
  moreover have "\<not> pq_isEmpty q" using ne by (simp add: pq_isEmpty_def elementCount_def pq_elems_def)
  moreover have "drain_loop deleteMin range_step (size (pq_elems q')) q' x = rfold range_step xs x" using xs(3) by blast
  ultimately have "verify_ranges fh hs = rbind (rfold range_step xs x) (\<lambda>_. Inr ())"
    by (simp add: verify_ranges_def q(1) d(1) n)
  with \<open>sorted (map fst (x # xs))\<close> \<open>mset (x # xs) = mset (file_ranges fh hs)\<close> show ?thesis by blast
qed

text \<open>Ranges that begin at different places are compared in the order of their places.\<close>

lemma verify_ranges_sorted:
  assumes "inj_on fst (set (file_ranges fh hs))" and "sort_key fst (file_ranges fh hs) = y # ys"
  shows "verify_ranges fh hs = rbind (rfold range_step ys y) (\<lambda>_. Inr ())"
proof -
  obtain x xs where xs: "sorted (map fst (x # xs))" "mset (x # xs) = mset (file_ranges fh hs)"
      "verify_ranges fh hs = rbind (rfold range_step xs x) (\<lambda>_. Inr ())" using verify_ranges_drain by blast
  have "sort_key fst (file_ranges fh hs) = x # xs" using sort_key_inj_key_eq [OF xs(2) [symmetric] assms(1) xs(1)] .
  then show ?thesis using xs(3) assms(2) by simp
qed

section \<open>Adding a section: correctness\<close>

text \<open>Where a section is found after a section was inserted.\<close>

definition moved :: "nat \<Rightarrow> nat \<Rightarrow> nat" where
  "moved idx i = (if i < idx then i else i + 1)"

lemma insert_nth_moved: "idx \<le> length xs \<Longrightarrow> i < length xs \<Longrightarrow> insert_nth x idx xs ! moved idx i = xs ! i"
  by (simp add: insert_nth_def moved_def nth_append min_def)

lemma length_insert_nth [simp]: "idx \<le> length xs \<Longrightarrow> length (insert_nth x idx xs) = Suc (length xs)"
  by (simp add: insert_nth_def)

lemma moved_less: "i < n \<Longrightarrow> moved idx i < Suc n"
  by (simp add: moved_def)

lemma relink_moved:
  assumes "unat (sh_link h) < n" and "n < 2 ^ 16"
  shows "relink idx (Suc n) h = h \<lparr> sh_link := of_nat (moved idx (unat (sh_link h))) \<rparr>"
  using assms by (auto simp: relink_def moved_def of_nat_u32)

lemma resymbol_moved:
  assumes "unat (st_shndx s) < n" and "n < 2 ^ 16"
  shows "resymbol idx (Suc n) s = s \<lparr> st_shndx := of_nat (moved idx (unat (st_shndx s))) \<rparr>"
  using assms by (auto simp: resymbol_def moved_def)

section \<open>Properties\<close>

text \<open>
  C37. The check of the layout: when no part of the file is empty or wraps around, \<open>verify\<close> accepts
  the ranges of the headers and sections exactly when no two of them meet.
\<close>

theorem verify_ranges_iff:
  assumes "\<forall>x \<in> set (file_ranges fh hs). proper_range x"
  shows "verify_ranges fh hs = Inr () \<longleftrightarrow>
    (\<forall>i j. i < j \<longrightarrow> j < length (file_ranges fh hs) \<longrightarrow> disjoint (file_ranges fh hs ! i) (file_ranges fh hs ! j))"
proof -
  obtain x xs where xs: "sorted (map fst (x # xs))" "mset (x # xs) = mset (file_ranges fh hs)"
      "verify_ranges fh hs = rbind (rfold range_step xs x) (\<lambda>_. Inr ())" using verify_ranges_drain by blast
  have p: "\<forall>y \<in> set (x # xs). proper_range y" using assms mset_eq_setD [OF xs(2)] by simp
  have "verify_ranges fh hs = Inr () \<longleftrightarrow> sorted_wrt before (x # xs)"
    unfolding xs(3) range_step_chain using chain_before [OF p] by auto
  also have "\<dots> \<longleftrightarrow> sorted_wrt disjoint (x # xs)" by (rule sorted_disjoint [OF xs(1) p])
  also have "\<dots> \<longleftrightarrow> sorted_wrt disjoint (file_ranges fh hs)"
    using sorted_wrt_perm [OF symp_disjoint xs(2)] sorted_wrt_perm [OF symp_disjoint xs(2) [symmetric]] by blast
  finally show ?thesis by (simp add: sorted_wrt_iff_nth_less)
qed

definition sample_header :: FileHeader where
  "sample_header = \<lparr> e_ident = [], e_type = 2, e_machine = 62, e_version = 1, e_entry = 0, e_phoff = 64, e_shoff = 0x3000,
     e_ehsize = 64, e_phentsize = 56, e_phnum = 2, e_shentsize = 64, e_shnum = 3, e_shstrndx = 2 \<rparr>"

definition sample_section :: "u16 \<Rightarrow> u64 \<Rightarrow> u64 \<Rightarrow> SectionHeader" where
  "sample_section idx offset bytes = (new_SectionHeader idx) \<lparr> sh_type := 1, sh_offset := offset, sh_size := bytes, sh_link := 1 \<rparr>"

theorem verify_ranges_iff_witness:
  "verify_ranges sample_header [new_SectionHeader 0, sample_section 1 0x1000 0x200, sample_section 2 0x1200 0x100] = Inr () \<and>
   verify_ranges sample_header [new_SectionHeader 0, sample_section 1 0x1000 0x200, sample_section 2 0x1180 0x100] \<noteq> Inr ()"
proof -
  let ?hs = "\<lambda>off. [new_SectionHeader 0, sample_section 1 0x1000 0x200, sample_section 2 off 0x100]"
  have r: "file_ranges sample_header (?hs off) = [(0, 64), (64, 112), (0x3000, 192), (0x1000, 0x200), (off, 0x100)]" for off
    by (simp add: file_ranges_def sample_header_def sample_section_def table_size_def SHT_NOBITS_def new_SectionHeader_def)
  have p: "\<forall>x \<in> set (file_ranges sample_header (?hs 0x1200)). proper_range x"
      "\<forall>x \<in> set (file_ranges sample_header (?hs 0x1180)). proper_range x"
    unfolding r by (simp_all add: proper_range_def)
  have "\<forall>i j. i < j \<longrightarrow> j < length (file_ranges sample_header (?hs 0x1200)) \<longrightarrow>
      disjoint (file_ranges sample_header (?hs 0x1200) ! i) (file_ranges sample_header (?hs 0x1200) ! j)"
    unfolding r by (auto simp: less_Suc_eq disjoint_def before_def)
  then have "verify_ranges sample_header (?hs 0x1200) = Inr ()" using verify_ranges_iff [OF p(1)] by blast
  moreover have "\<not> disjoint (file_ranges sample_header (?hs 0x1180) ! 3) (file_ranges sample_header (?hs 0x1180) ! 4)"
    unfolding r by (simp add: disjoint_def before_def)
  moreover have "4 < length (file_ranges sample_header (?hs 0x1180))" unfolding r by simp
  ultimately show ?thesis using verify_ranges_iff [OF p(2)] by fastforce
qed

text \<open>
  An empty section between two others hides that they overlap: the check compares a range with
  the one before it only.
\<close>

theorem verify_ranges_empty_section:
  "verify_ranges sample_header [new_SectionHeader 0, sample_section 1 0x1000 0x200, sample_section 2 0x1100 0,
     sample_section 3 0x1180 0x100] = Inr () \<and> \<not> disjoint (0x1000, 0x200) (0x1180, 0x100)"
proof
  let ?hs = "[new_SectionHeader 0, sample_section 1 0x1000 0x200, sample_section 2 0x1100 0, sample_section 3 0x1180 0x100]"
  have r: "file_ranges sample_header ?hs = [(0, 64), (64, 112), (0x3000, 192), (0x1000, 0x200), (0x1100, 0), (0x1180, 0x100)]"
    by (simp add: file_ranges_def sample_header_def sample_section_def table_size_def SHT_NOBITS_def new_SectionHeader_def)
  have "sort_key fst (file_ranges sample_header ?hs) = (0, 64) # [(64, 112), (0x1000, 0x200), (0x1100, 0), (0x1180, 0x100), (0x3000, 192)]"
    unfolding r by (simp add: sort_key_def)
  moreover have "inj_on fst (set (file_ranges sample_header ?hs))" unfolding r by (auto simp: inj_on_def)
  ultimately show "verify_ranges sample_header ?hs = Inr ()" by (simp add: verify_ranges_sorted range_step_def)
qed (simp add: disjoint_def before_def)

text \<open>
  C38. A section can be inserted anywhere: every other section and symbol keeps its meaning. A
  section is found at its new index with its link naming the same section as before, and a symbol
  keeps the section it is defined in. The name table is found again as well, unless the new section
  takes its place: then the file header names the new section.
\<close>

theorem addSection_links:
  assumes "idx \<le> length hs" "length raws = length hs" "length hs + 1 < 2 ^ 16" "setSectionType h = Inr c"
    and "classtype = TextSection \<or> classtype = DataSection"
    and "\<forall>h \<in> set hs. unat (sh_link h) < length hs" "unat (e_shstrndx fh) < length hs"
    and "addSection idx classtype h (fh, hs, raws, syms) = Inr (off, fh', hs', raws', syms')"
  shows "(\<forall>i < length hs. hs' ! moved idx i = (hs ! i) \<lparr> sh_index := of_nat (moved idx i),
        sh_link := of_nat (moved idx (unat (sh_link (hs ! i)))) \<rparr>) \<and>
    (\<forall>k < length syms. \<forall>s \<in> set (syms ! k). unat (st_shndx s) < length hs \<longrightarrow>
        s \<lparr> st_shndx := of_nat (moved idx (unat (st_shndx s))) \<rparr> \<in> set (syms' ! k)) \<and>
    unat (e_shstrndx fh') = (if unat (e_shstrndx fh) = idx then idx else moved idx (unat (e_shstrndx fh)))"
proof -
  let ?new = "map (\<lambda>(i, h). h \<lparr> sh_index := of_nat i \<rparr>) (enumerate 0 (insert_nth h idx hs))"
  have n: "length ?new = Suc (length hs)" using assms(1) by simp
  have r: "hs' = map (relink idx (length ?new)) ?new" "syms' = map (map (resymbol idx (length ?new))) syms"
      "e_shstrndx fh' = (if idx < unat (e_shstrndx fh) then e_shstrndx fh + 1 else e_shstrndx fh)"
    using assms(1,2,4,5,8) by (auto simp: addSection_def Let_def split: if_splits)
  have "hs' ! moved idx i = (hs ! i) \<lparr> sh_index := of_nat (moved idx i), sh_link := of_nat (moved idx (unat (sh_link (hs ! i)))) \<rparr>"
    if i: "i < length hs" for i
  proof -
    have "?new ! moved idx i = (hs ! i) \<lparr> sh_index := of_nat (moved idx i) \<rparr>"
      using moved_less [OF i] n insert_nth_moved [OF assms(1) i] by (simp add: nth_enumerate_eq)
    then show ?thesis unfolding r(1) n using moved_less [OF i] n i assms(3,6) by (simp add: relink_moved)
  qed
  moreover have "s \<lparr> st_shndx := of_nat (moved idx (unat (st_shndx s))) \<rparr> \<in> set (syms' ! k)"
    if "k < length syms" "s \<in> set (syms ! k)" "unat (st_shndx s) < length hs" for k s
    unfolding r(2) n using that assms(3) resymbol_moved [of s "length hs" idx] by force
  moreover have "unat (e_shstrndx fh') = (if unat (e_shstrndx fh) = idx then idx else moved idx (unat (e_shstrndx fh)))"
  proof -
    have "unat (e_shstrndx fh + 1) = unat (e_shstrndx fh) + 1" using assms(3,7) by (simp add: unat_add_lem [THEN iffD1])
    then show ?thesis by (simp add: r(3) moved_def)
  qed
  ultimately show ?thesis by blast
qed

theorem addSection_links_witness:
  "\<exists>off fh' hs' raws' syms'. addSection 1 DataSection (sample_section 0 0x2000 8) (sample_header, [new_SectionHeader 0, sample_section 1 0 0,
       sample_section 2 0 0], [(no_type, 0), (DataSection, 1), (StringTableSection, 2)], []) = Inr (off, fh', hs', raws', syms') \<and>
     sh_link (hs' ! 3) = 2 \<and> e_shstrndx fh' = 3"
proof -
  let ?hs = "[new_SectionHeader 0, sample_section 1 0 0, sample_section 2 0 0]"
  let ?raws = "[(no_type, 0), (DataSection, 1), (StringTableSection, 2)]"
  have c: "setSectionType (sample_section 0 0x2000 8) = Inr RawSection"
    by (simp add: setSectionType_def sample_section_def new_SectionHeader_def hasExecInstrBit_def hasWriteBit_def)
  obtain off fh' hs' raws' syms' where a: "addSection 1 DataSection (sample_section 0 0x2000 8) (sample_header, ?hs, ?raws, []) =
      Inr (off, fh', hs', raws', syms')" using c by (simp add: addSection_def Let_def)
  have l: "\<forall>h \<in> set ?hs. unat (sh_link h) < length ?hs" "unat (e_shstrndx sample_header) < length ?hs"
    by (simp_all add: sample_section_def new_SectionHeader_def sample_header_def)
  have q: "1 \<le> length ?hs" "length ?raws = length ?hs" "length ?hs + 1 < 2 ^ 16" by simp_all
  note T = addSection_links [OF q c disjI2 [OF refl] l a]
  have "hs' ! moved 1 2 = (?hs ! 2) \<lparr> sh_index := of_nat (moved 1 2), sh_link := of_nat (moved 1 (unat (sh_link (?hs ! 2)))) \<rparr>"
    using T [THEN conjunct1, rule_format, of 2] by simp
  then have "sh_link (hs' ! 3) = 2" by (simp add: moved_def sample_section_def)
  moreover have "unat (e_shstrndx fh') = 3" using T [THEN conjunct2, THEN conjunct2] by (simp add: sample_header_def moved_def)
  then have "e_shstrndx fh' = 3" by (simp add: unsigned_word_eqI)
  ultimately show ?thesis using a by blast
qed

end
