(* ===== verification/Elf_Link.thy ===== *)
theory Elf_Link
  imports Elf_Dynamic Elf_Layout
begin

text \<open>
  Linking an executable against the instrumentation library: the part of \<open>src/ElfFileInst.C\<close> that
  adds strings to the dynamic string table and libraries and search paths to the dynamic table.
  The sections between the string table and \<open>.init\<close> move to make room, and the addresses in the
  dynamic table move with them. Each operation ends with \<open>verify()\<close>, which changes nothing but may
  stop the run: the parameter \<open>ver\<close> of the operations. The checks it makes on the tables and on the layout
  are modelled in their theories.
\<close>

section \<open>The executable\<close>

datatype ElfInstPhases = no_phase | extend_space | user_declare | user_reserve | modify_control | generate_instrumentation | dump_file

text \<open>A string table comes with the index of its section; \<open>dynamicStringTable\<close> is an index into the
  string tables.\<close>

record ElfFileInst =
  is64Bit :: bool
  currentPhase :: ElfInstPhases
  sectionHeaders :: "SectionHeader list"
  stringTables :: "(nat \<times> StringTable) list"
  dynamicStringTable :: nat
  dynamicTable :: DynamicTable

definition MAX_STRING_SIZE :: nat where
  "MAX_STRING_SIZE = 1024"

definition name_init :: cstring where
  "name_init = map of_char ''.init''"

section \<open>Moving sections\<close>

definition sh_shift :: "bool \<Rightarrow> u32 \<Rightarrow> SectionHeader \<Rightarrow> SectionHeader" where
  "sh_shift is64 extra h = h \<lparr> sh_offset := field is64 (sh_offset h + ucast extra), sh_addr := field is64 (sh_addr h + ucast extra) \<rparr>"

fun shift_sections :: "bool \<Rightarrow> nat \<Rightarrow> nat \<Rightarrow> u32 \<Rightarrow> SectionHeader list \<Rightarrow> (u32 \<times> SectionHeader list) res" where
  "shift_sections is64 0 i extraSize hs = Inr (extraSize, hs)"
| "shift_sections is64 (Suc n) i extraSize hs = ASSERT (i < length hs)
     (let h = hs ! i in rbind (nextAlignAddress (sh_addr h + ucast extraSize) (ucast (sh_addralign h))) (\<lambda>a.
      let extraSize = ucast (a - sh_addr h) in shift_sections is64 n (Suc i) extraSize (hs[i := sh_shift is64 extraSize h])))"

text \<open>The last section before \<open>.init\<close>; the index is a 16-bit number and wraps around when there is none.\<close>

definition last_moved :: "SectionHeader list \<Rightarrow> nat" where
  "last_moved hs = unat (of_nat (findSectionIdx_name name_init hs) - 1 :: u16)"

definition points_behind :: "Dynamic \<Rightarrow> bool" where
  "points_behind d \<longleftrightarrow> has_tag DT_VERSYM d \<or> has_tag DT_VERNEED d \<or> has_tag DT_REL d \<or> has_tag DT_RELA d \<or> has_tag DT_JMPREL d"

definition shift_pointer :: "u64 \<Rightarrow> u32 \<Rightarrow> Dynamic \<Rightarrow> Dynamic res" where
  "shift_pointer addr extra d = (if points_behind d then ASSERT (d_un d > addr) (Inr (set_un (d_un d + ucast extra) d)) else Inr d)"

section \<open>Adding strings and libraries\<close>

definition find_string_table :: "u64 \<Rightarrow> ElfFileInst \<Rightarrow> nat res" where
  "find_string_table addr elf =
     ASSERT (list_all (\<lambda>(s, st). s < length (sectionHeaders elf)) (stringTables elf))
     (case filter (\<lambda>i. sh_addr (sectionHeaders elf ! fst (stringTables elf ! i)) = addr) [0..<length (stringTables elf)] of
        [i] \<Rightarrow> Inr i
      | _ \<Rightarrow> Inl AssertFailed)"

definition dyn_value :: "u32 \<Rightarrow> DynamicTable \<Rightarrow> u64 res" where
  "dyn_value type t = (case getDynamicByType type 0 t of None \<Rightarrow> Inl NullDeref | Some i \<Rightarrow> Inr (d_un (dynamics t ! i)))"

definition addStringToDynamicStringTable :: "(ElfFileInst \<Rightarrow> unit res) \<Rightarrow> cstring \<Rightarrow> ElfFileInst \<Rightarrow> (u32 \<times> ElfFileInst) res" where
  "addStringToDynamicStringTable ver str elf = ASSERT (currentPhase elf = user_declare)
     (rbind (dyn_value DT_STRTAB (dynamicTable elf)) (\<lambda>stringTableAddr.
      rbind (find_string_table stringTableAddr elf) (\<lambda>k.
      let (idx, st) = stringTables elf ! k; origSize = st_sizeInBytes st; (_, st) = addString str st;
          extraSize = ucast (nextAlignAddressDouble (of_nat (length str + 1))); hs = sectionHeaders elf; is64 = is64Bit elf;
          hs = hs[idx := (hs ! idx) \<lparr> sh_size := field is64 (sh_size (hs ! idx) + ucast extraSize) \<rparr>]
      in rbind (shift_sections is64 (Suc (last_moved hs) - Suc idx) (Suc idx) extraSize hs) (\<lambda>(extraSize, hs).
         rbind (rmap (shift_pointer (sh_addr (hs ! idx)) extraSize) (dynamics (dynamicTable elf))) (\<lambda>ds.
         let elf = elf \<lparr> sectionHeaders := hs, stringTables := (stringTables elf)[k := (idx, st)],
            dynamicTable := (dynamicTable elf) \<lparr> dynamics := ds \<rparr> \<rparr>
         in rbind (ver elf) (\<lambda>_. Inr (origSize, elf)))))))"

definition addSharedLibraryPath :: "(ElfFileInst \<Rightarrow> unit res) \<Rightarrow> cstring option \<Rightarrow> ElfFileInst \<Rightarrow> (u32 \<times> ElfFileInst) res" where
  "addSharedLibraryPath ver path elf = ASSERT (currentPhase elf = user_declare)
     (case path of None \<Rightarrow> Inr (0, elf) | Some path \<Rightarrow>
      rbind (ver elf) (\<lambda>_.
      rbind (addStringToDynamicStringTable ver path elf) (\<lambda>(strOffset, elf).
      rbind (ver elf) (\<lambda>_.
      let t = dynamicTable elf; e = findEmptyDynamic t in ASSERT (e < length (dynamics t))
        (let d = set_tag (if countDynamics DT_RUNPATH t \<noteq> 0 then DT_RUNPATH else DT_RPATH) (dynamics t ! e);
             elf = elf \<lparr> dynamicTable := t \<lparr> dynamics := (dynamics t)[e := set_un (ucast strOffset) d] \<rparr> \<rparr>
         in rbind (ver elf) (\<lambda>_. Inr (strOffset, elf)))))))"

definition getDynamicString :: "ElfFileInst \<Rightarrow> Dynamic \<Rightarrow> cstring res" where
  "getDynamicString elf d = ASSERT (dynamicStringTable elf < length (stringTables elf))
     (getString (snd (stringTables elf ! dynamicStringTable elf)) (ucast (d_un d)))"

text \<open>The first entry among those given that has a name.\<close>

fun first_named :: "ElfFileInst \<Rightarrow> cstring \<Rightarrow> nat list \<Rightarrow> nat option res" where
  "first_named elf name [] = Inr None"
| "first_named elf name (i # is) = rbind (getDynamicString elf (dynamics (dynamicTable elf) ! i)) (\<lambda>s.
     if s = name then Inr (Some i) else first_named elf name is)"

definition needed_entries :: "ElfFileInst \<Rightarrow> nat list" where
  "needed_entries elf = filter (\<lambda>i. has_tag DT_NEEDED (dynamics (dynamicTable elf) ! i)) [0..<length (dynamics (dynamicTable elf))]"

text \<open>A name that begins with \<open>+\<close> replaces the library of that name by one with the extension of the
  run; other libraries come first. The buffer of the name has \<open>MAX_STRING_SIZE\<close> bytes.\<close>

definition addSharedLibrary :: "(ElfFileInst \<Rightarrow> unit res) \<Rightarrow> cstring \<Rightarrow> cstring \<Rightarrow> ElfFileInst \<Rightarrow> (u32 \<times> ElfFileInst) res" where
  "addSharedLibrary ver extension libname elf = ASSERT (currentPhase elf = user_declare)
     (let overwrite = (libname \<noteq> [] \<and> hd libname = of_char (CHR ''+''));
          libraryReal = (if overwrite then tl libname @ [of_char (CHR ''.'')] @ extension else libname)
      in if length libraryReal \<ge> MAX_STRING_SIZE then Inl OutOfBounds else
      rbind (first_named elf libraryReal (needed_entries elf)) (\<lambda>found.
      if found \<noteq> None then Inr (0, elf) else
      rbind (addStringToDynamicStringTable ver libraryReal elf) (\<lambda>(strOffset, elf).
      if overwrite then rbind (first_named elf (tl libname) (needed_entries elf)) (\<lambda>w. case w of
          None \<Rightarrow> Inr (0, elf)
        | Some i \<Rightarrow> let t = dynamicTable elf; elf = elf \<lparr> dynamicTable := t \<lparr> dynamics := (dynamics t)[i :=
            set_un (ucast strOffset) (set_tag DT_NEEDED (dynamics t ! i))] \<rparr> \<rparr> in rbind (ver elf) (\<lambda>_. Inr (strOffset, elf)))
      else rbind (prependEntry DT_NEEDED strOffset (dynamicTable elf)) (\<lambda>(_, t).
        let elf = elf \<lparr> dynamicTable := t \<rparr> in rbind (ver elf) (\<lambda>_. Inr (strOffset, elf))))))"

section \<open>Moving sections: correctness\<close>

text \<open>A section that keeps its alignment when it moves by a multiple of 8.\<close>

definition movable :: "u32 \<Rightarrow> SectionHeader \<Rightarrow> bool" where
  "movable extra h \<longleftrightarrow> sh_addralign h \<in> {0, 1, 2, 4, 8} \<and> (sh_addralign h \<noteq> 0 \<longrightarrow> unat (sh_addralign h) dvd unat (sh_addr h)) \<and>
     unat (sh_addr h) + unat extra < 2 ^ 32"

definition shifted :: "bool \<Rightarrow> nat \<Rightarrow> nat \<Rightarrow> u32 \<Rightarrow> SectionHeader list \<Rightarrow> SectionHeader list" where
  "shifted is64 i n extra hs = map (\<lambda>(j, h). if i \<le> j \<and> j < i + n then sh_shift is64 extra h else h) (enumerate 0 hs)"

lemma length_shifted [simp]: "length (shifted is64 i n extra hs) = length hs"
  by (simp add: shifted_def)

lemma nth_shifted [simp]: "j < length hs \<Longrightarrow> shifted is64 i n extra hs ! j = (if i \<le> j \<and> j < i + n then sh_shift is64 extra (hs ! j) else hs ! j)"
  by (simp add: shifted_def nth_enumerate_eq)

lemma nextAlignAddress_exact:
  assumes "align \<in> {0, 1, 2, 4, 8}" "addr \<noteq> 0" "unat addr < 2 ^ 32" "align \<noteq> 0 \<longrightarrow> unat align dvd unat addr"
  shows "nextAlignAddress addr align = Inr addr"
proof (cases "align = 0")
  case False
  have p: "isPowerOfTwo 1" "isPowerOfTwo 2" "isPowerOfTwo 4" "isPowerOfTwo 8" by code_simp+
  then obtain r where r: "nextAlignAddress addr align = Inr r" "unat r = round_up (unat addr) (unat align)"
    using nextAlignAddress_round_up [of align addr] assms False by auto
  obtain m where m: "unat addr = unat align * m" using assms(4) False by (auto elim: dvdE)
  then have "round_up (unat addr) (unat align) = unat addr" using False by (simp add: round_up_def unat_gt_0 div_add1_eq)
  then show ?thesis using r by (simp add: unsigned_word_eqI)
qed (simp add: nextAlignAddress_def)

lemma movable_align:
  assumes "movable extra h" "8 dvd unat extra" "extra \<noteq> 0"
  shows "nextAlignAddress (sh_addr h + ucast extra) (ucast (sh_addralign h)) = Inr (sh_addr h + ucast extra)"
proof (rule nextAlignAddress_exact)
  have u: "unat (ucast extra :: u64) = unat extra" by (simp add: unsigned_ucast_eq)
  have s: "unat (sh_addr h + ucast extra) = unat (sh_addr h) + unat extra"
    using assms(1) by (simp add: movable_def u unat_add_lem [THEN iffD1])
  then show "unat (sh_addr h + ucast extra) < 2 ^ 32" using assms(1) by (simp add: movable_def)
  have "0 < unat extra" using assms(3) by (simp add: unat_gt_0)
  then show "sh_addr h + ucast extra \<noteq> 0" using s by (metis add_is_0 less_not_refl unat_0)
  show "(ucast (sh_addralign h) :: u32) \<in> {0, 1, 2, 4, 8}" using assms(1) by (auto simp: movable_def)
  show "(ucast (sh_addralign h) :: u32) \<noteq> 0 \<longrightarrow> unat (ucast (sh_addralign h) :: u32) dvd unat (sh_addr h + ucast extra)"
  proof
    assume "(ucast (sh_addralign h) :: u32) \<noteq> 0"
    then have a: "sh_addralign h = 1 \<or> sh_addralign h = 2 \<or> sh_addralign h = 4 \<or> sh_addralign h = 8"
      using assms(1) by (auto simp: movable_def)
    then have "unat (ucast (sh_addralign h) :: u32) = unat (sh_addralign h)" "unat (sh_addralign h) dvd 8" by auto
    moreover have "unat (sh_addralign h) dvd unat (sh_addr h)" using assms(1) a by (auto simp: movable_def)
    ultimately show "unat (ucast (sh_addralign h) :: u32) dvd unat (sh_addr h + ucast extra)"
      using assms(2) s by (metis dvd_add dvd_trans)
  qed
qed

lemma shift_sections_movable:
  assumes "8 dvd unat extra" "extra \<noteq> 0"
  shows "i + n \<le> length hs \<Longrightarrow> \<forall>j. i \<le> j \<and> j < i + n \<longrightarrow> movable extra (hs ! j) \<Longrightarrow>
    shift_sections is64 n i extra hs = Inr (extra, shifted is64 i n extra hs)"
proof (induction n arbitrary: i hs)
  case 0
  then show ?case by (auto simp: shifted_def intro!: nth_equalityI simp: nth_enumerate_eq)
next
  case (Suc n)
  let ?hs = "hs[i := sh_shift is64 extra (hs ! i)]"
  have IH: "shift_sections is64 n (Suc i) extra ?hs = Inr (extra, shifted is64 (Suc i) n extra ?hs)"
    by (rule Suc.IH) (use Suc.prems in auto)
  have "shifted is64 (Suc i) n extra ?hs = shifted is64 i (Suc n) extra hs"
    using Suc.prems(1) by (intro nth_equalityI) (auto simp: nth_list_update)
  then show ?case using Suc.prems IH movable_align [OF _ assms, of "hs ! i"] by (simp add: Let_def)
qed

lemma find_section_names:
  "map sectionNamePtr hs = map sectionNamePtr hs' \<Longrightarrow>
   find_section (\<lambda>h. sectionNamePtr h = n) i hs = find_section (\<lambda>h. sectionNamePtr h = n) i hs'"
proof (induction hs arbitrary: i hs')
  case (Cons h hs)
  then show ?case by (cases hs') auto
qed simp

lemma last_moved_names: "map sectionNamePtr hs = map sectionNamePtr hs' \<Longrightarrow> last_moved hs = last_moved hs'"
  using find_section_names [of "tl hs" "tl hs'" "Some name_init" 1] by (simp add: last_moved_def findSectionIdx_name_def map_tl)

lemma shift_pointer_map:
  assumes "\<forall>d \<in> set ds. points_behind d \<longrightarrow> d_un d > addr"
  shows "rmap (shift_pointer addr extra) ds = Inr (map (\<lambda>d. if points_behind d then set_un (d_un d + ucast extra) d else d) ds)"
  using assms by (intro rmap_map) (simp add: shift_pointer_def)

text \<open>What the size of a string makes the sections move by.\<close>

definition string_shift :: "cstring \<Rightarrow> u32" where
  "string_shift str = ucast (nextAlignAddressDouble (of_nat (length str + 1)))"

lemma string_shift_8:
  assumes "length str < 2 ^ 31"
  shows "8 dvd unat (string_shift str)" "string_shift str \<noteq> 0" "unat (string_shift str) < length str + 9"
proof -
  let ?a = "of_nat (length str + 1) :: u64"
  have a: "unat ?a = length str + 1" using assms by (simp add: unat_of_nat del: of_nat_add of_nat_Suc)
  have r: "unat (nextAlignAddressDouble ?a) = round_up (length str + 1) 8"
    using nextAlignAddress_fixed_round_up(3) [of ?a] a assms by simp
  have b: "8 dvd round_up (length str + 1) 8" "0 < round_up (length str + 1) 8" "round_up (length str + 1) 8 < length str + 9"
    unfolding round_up_def Let_def by presburger+
  have "unat (string_shift str) = round_up (length str + 1) 8"
    using r b(3) assms by (simp add: string_shift_def unsigned_ucast_eq take_bit_nat_eq_self)
  then show "8 dvd unat (string_shift str)" "string_shift str \<noteq> 0" "unat (string_shift str) < length str + 9" using b by auto
qed

section \<open>Libraries: correctness\<close>

text \<open>The names of the libraries the executable needs, in the order of the dynamic table.\<close>

definition needed_names :: "ElfFileInst \<Rightarrow> cstring list res" where
  "needed_names elf = ASSERT (dynamicStringTable elf < length (stringTables elf))
     (rmap (\<lambda>v. getString (snd (stringTables elf ! dynamicStringTable elf)) (ucast v)) (tag_values DT_NEEDED (dynamics (dynamicTable elf))))"

lemma rmap_comp: "rmap f (map g xs) = rmap (\<lambda>x. f (g x)) xs"
  by (induction xs) simp_all

lemma rmap_Inr_iff: "rmap f xs = Inr ys \<longleftrightarrow> list_all2 (\<lambda>x y. f x = Inr y) xs ys"
  by (induction xs arbitrary: ys) (auto simp: rbind_eq_Inr list_all2_Cons1)

lemma filter_nths: "map ((!) xs) (filter (\<lambda>i. P (xs ! i)) [0..<length xs]) = filter P xs"
proof -
  have "filter P xs = filter P (map ((!) xs) [0..<length xs])" by (simp only: map_nth)
  then show ?thesis by (simp add: filter_map o_def)
qed

lemma first_named_None: "rmap (\<lambda>i. getDynamicString elf (dynamics (dynamicTable elf) ! i)) is = Inr names \<Longrightarrow> name \<notin> set names \<Longrightarrow>
  first_named elf name is = Inr None"
  by (induction "is" arbitrary: names) (auto simp: rbind_eq_Inr)

lemma first_named_needed:
  assumes "needed_names elf = Inr names" and "name \<notin> set names"
  shows "first_named elf name (needed_entries elf) = Inr None"
proof (rule first_named_None [OF _ assms(2)])
  let ?ds = "dynamics (dynamicTable elf)"
  have "map ((!) ?ds) (needed_entries elf) = filter (has_tag DT_NEEDED) ?ds" unfolding needed_entries_def by (rule filter_nths)
  then have "tag_values DT_NEEDED ?ds = map d_un (map ((!) ?ds) (needed_entries elf))" by (simp only: tag_values_def)
  then have "tag_values DT_NEEDED ?ds = map (\<lambda>i. d_un (?ds ! i)) (needed_entries elf)" by (simp add: o_def)
  then show "rmap (\<lambda>i. getDynamicString elf (dynamics (dynamicTable elf) ! i)) (needed_entries elf) = Inr names"
    using assms(1) by (simp add: needed_names_def rmap_comp getDynamicString_def)
qed

lemma tag_values_shift:
  assumes "rmap (shift_pointer addr extra) ds = Inr ds'"
  shows "tag_values DT_NEEDED ds' = tag_values DT_NEEDED ds \<and> map d_tag ds' = map d_tag ds \<and> map is_Dynamic64 ds' = map is_Dynamic64 ds"
  using assms
proof (induction ds arbitrary: ds')
  case (Cons d ds)
  then obtain d' es where d: "shift_pointer addr extra d = Inr d'" "rmap (shift_pointer addr extra) ds = Inr es" "ds' = d' # es"
    by (auto simp: rbind_eq_Inr)
  have "d_tag d' = d_tag d" "is_Dynamic64 d' = is_Dynamic64 d" using d(1) by (auto simp: shift_pointer_def split: if_splits)
  moreover have "has_tag DT_NEEDED d \<Longrightarrow> d' = d"
    using d(1) by (auto simp: shift_pointer_def points_behind_def has_tag_def DT_defs split: if_splits)
  ultimately show ?case using Cons.IH [OF d(2)] by (auto simp: d(3) tag_values_def has_tag_def)
qed (simp add: tag_values_def)

lemma dyn_fits_shift:
  assumes "rmap (shift_pointer addr extra) ds = Inr ds'" and "list_all (dyn_fits c) ds"
  shows "list_all (dyn_fits c) ds'"
  using assms
proof (induction ds arbitrary: ds')
  case (Cons d ds)
  then obtain d' es where d: "shift_pointer addr extra d = Inr d'" "rmap (shift_pointer addr extra) ds = Inr es" "ds' = d' # es"
    by (auto simp: rbind_eq_Inr)
  have "dyn_fits c d'" using d(1) Cons.prems(2) by (auto simp: shift_pointer_def dyn_fits_def split: if_splits)
  then show ?case using Cons.IH [OF d(2)] Cons.prems(2) d(3) by simp
qed simp

text \<open>What adding a string does, whatever the sections are like.\<close>

lemma addString_frame:
  assumes "addStringToDynamicStringTable ver str elf = Inr (off, elf1)"
  obtains k idx st ds addr extra where "k < length (stringTables elf)" "stringTables elf ! k = (idx, st)" "off = st_sizeInBytes st"
    "stringTables elf1 = (stringTables elf)[k := (idx, snd (addString str st))]" "dynamicStringTable elf1 = dynamicStringTable elf"
    "rmap (shift_pointer addr extra) (dynamics (dynamicTable elf)) = Inr ds" "dynamicTable elf1 = dynamicTable elf \<lparr> dynamics := ds \<rparr>"
    "currentPhase elf1 = currentPhase elf" "is64Bit elf1 = is64Bit elf"
    "\<exists>a. dyn_value DT_STRTAB (dynamicTable elf) = Inr a \<and> find_string_table a elf = Inr k"
proof -
  obtain a k where a: "dyn_value DT_STRTAB (dynamicTable elf) = Inr a" "find_string_table a elf = Inr k"
    using assms by (auto simp: addStringToDynamicStringTable_def rbind_eq_Inr)
  obtain idx st where st: "stringTables elf ! k = (idx, st)" by fastforce
  have f: "filter (\<lambda>i. sh_addr (sectionHeaders elf ! fst (stringTables elf ! i)) = a) [0..<length (stringTables elf)] = [k]"
    using a(2) by (auto simp: find_string_table_def split: list.splits)
  have "k \<in> set (filter (\<lambda>i. sh_addr (sectionHeaders elf ! fst (stringTables elf ! i)) = a) [0..<length (stringTables elf)])"
    unfolding f by simp
  then have k: "k < length (stringTables elf)" by simp
  show ?thesis using assms that a k st
    by (auto simp: addStringToDynamicStringTable_def rbind_eq_Inr Let_def addString_def)
qed

section \<open>Properties\<close>

text \<open>
  C34. Adding a string to a dynamic string table that stays below 4 GB, when every section between
  the string table and \<open>.init\<close> is aligned to at most 8 bytes and lies below 4 GB, and the entries of the
  dynamic table are of the class of the file and those the code moves lie behind the string table: the
  operation comes to its closing \<open>verify\<close>; the string is read back at the offset returned; the size of the
  string section grows, and address and file offset of each of these sections grow, by the same
  multiple of 8 bytes, while the other sections keep theirs; and of the entries for the symbol versions, the
  version needs and the three relocation tables, those that named the address of a section that moved name
  its new address, and all entries of other types stay.
\<close>

theorem addString_consistent:
  assumes "currentPhase elf = user_declare" and "dyn_value DT_STRTAB (dynamicTable elf) = Inr addr"
    and "find_string_table addr elf = Inr k" and "stringTables elf ! k = (idx, st)"
    and "0 \<notin> set str" and "length str < 2 ^ 31" and "table_ok st" and "length (strings st) + length str + 1 < 2 ^ 32"
    and "list_all (dyn_fits (is64Bit elf)) (dynamics (dynamicTable elf))"
    and "last_moved (sectionHeaders elf) < length (sectionHeaders elf)"
    and "\<forall>i. idx < i \<and> i \<le> last_moved (sectionHeaders elf) \<longrightarrow> movable (string_shift str) (sectionHeaders elf ! i)"
    and "\<forall>d \<in> set (dynamics (dynamicTable elf)). points_behind d \<longrightarrow> d_un d > sh_addr (sectionHeaders elf ! idx)"
  shows "\<exists>off elf'. addStringToDynamicStringTable ver str elf = rbind (ver elf') (\<lambda>_. Inr (off, elf')) \<and>
    getString (snd (stringTables elf' ! k)) off = Inr str \<and> 8 dvd unat (string_shift str) \<and> length str + 1 \<le> unat (string_shift str) \<and>
    sh_size (sectionHeaders elf' ! idx) = field (is64Bit elf) (sh_size (sectionHeaders elf ! idx) + ucast (string_shift str)) \<and>
    (\<forall>i < length (sectionHeaders elf).
      if idx < i \<and> i \<le> last_moved (sectionHeaders elf)
      then sh_addr (sectionHeaders elf' ! i) = field (is64Bit elf) (sh_addr (sectionHeaders elf ! i) + ucast (string_shift str)) \<and>
        sh_offset (sectionHeaders elf' ! i) = field (is64Bit elf) (sh_offset (sectionHeaders elf ! i) + ucast (string_shift str))
      else sh_addr (sectionHeaders elf' ! i) = sh_addr (sectionHeaders elf ! i) \<and>
        sh_offset (sectionHeaders elf' ! i) = sh_offset (sectionHeaders elf ! i)) \<and>
    (\<forall>j < length (dynamics (dynamicTable elf)). let d = dynamics (dynamicTable elf) ! j; d' = dynamics (dynamicTable elf') ! j in
      if points_behind d then \<forall>i. idx < i \<and> i \<le> last_moved (sectionHeaders elf) \<and> d_un d = sh_addr (sectionHeaders elf ! i) \<longrightarrow>
        d_un d' = sh_addr (sectionHeaders elf' ! i)
      else d' = d)"
proof -
  let ?x = "string_shift str" and ?hs = "sectionHeaders elf" and ?c = "is64Bit elf" and ?ds = "dynamics (dynamicTable elf)"
  note x8 = string_shift_8 [OF assms(6)]
  have f: "filter (\<lambda>i. sh_addr (?hs ! fst (stringTables elf ! i)) = addr) [0..<length (stringTables elf)] = [k]"
    and s: "list_all (\<lambda>(s, st). s < length ?hs) (stringTables elf)"
    using assms(3) by (auto simp: find_string_table_def split: list.splits)
  have "k \<in> set (filter (\<lambda>i. sh_addr (?hs ! fst (stringTables elf ! i)) = addr) [0..<length (stringTables elf)])"
    unfolding f by simp
  then have k: "k < length (stringTables elf)" by simp
  have idx: "idx < length ?hs" using s k assms(4) by (auto simp: list_all_length)
  define hs1 where "hs1 = ?hs[idx := (?hs ! idx) \<lparr> sh_size := field ?c (sh_size (?hs ! idx) + ucast ?x) \<rparr>]"
  have n: "map sectionNamePtr hs1 = map sectionNamePtr ?hs"
    using idx by (simp add: hs1_def map_update) (metis list_update_id map_update)
  have l: "last_moved hs1 = last_moved ?hs" by (rule last_moved_names [OF n])
  have h1: "length hs1 = length ?hs" "\<And>i. i \<noteq> idx \<Longrightarrow> hs1 ! i = ?hs ! i" "sh_addr (hs1 ! i) = sh_addr (?hs ! i)" "sh_offset (hs1 ! i) = sh_offset (?hs ! i)" for i
    using idx by (simp_all add: hs1_def nth_list_update) 
  let ?n = "Suc (last_moved hs1) - Suc idx"
  let ?hs' = "shifted ?c (Suc idx) ?n ?x hs1"
  let ?ds' = "map (\<lambda>d. if points_behind d then set_un (d_un d + ucast ?x) d else d) ?ds"
  have S: "shift_sections ?c ?n (Suc idx) ?x hs1 = Inr (?x, ?hs')"
  proof (rule shift_sections_movable [OF x8(1,2)])
    show "Suc idx + ?n \<le> length hs1" using idx assms(10) by (simp add: l h1(1))
    show "\<forall>j. Suc idx \<le> j \<and> j < Suc idx + ?n \<longrightarrow> movable ?x (hs1 ! j)" using assms(11) by (auto simp: l h1(2))
  qed
  have a0: "sh_addr (?hs' ! idx) = sh_addr (?hs ! idx)" using idx h1 by simp
  have P: "rmap (shift_pointer (sh_addr (?hs' ! idx)) ?x) ?ds = Inr ?ds'"
    unfolding a0 by (rule shift_pointer_map [OF assms(12)])
  define elf' where "elf' = elf \<lparr> sectionHeaders := ?hs', stringTables := (stringTables elf)[k := (idx, snd (addString str st))],
      dynamicTable := dynamicTable elf \<lparr> dynamics := ?ds' \<rparr> \<rparr>"
  have room: "has_room str st" using assms(7,8) by (simp add: has_room_def)
  have R: "addStringToDynamicStringTable ver str elf = rbind (ver elf') (\<lambda>_. Inr (st_sizeInBytes st, elf'))"
    using S P unfolding addStringToDynamicStringTable_def string_shift_def [symmetric]
    by (simp add: assms(1,2,3,4) Let_def addString_def hs1_def [symmetric] elf'_def)
  have G: "getString (snd (stringTables elf' ! k)) (st_sizeInBytes st) = Inr str"
    using getString_new [OF assms(5) room] k by (simp add: elf'_def addString_def)
  have A: "sh_addr (sectionHeaders elf' ! i) = (if idx < i \<and> i \<le> last_moved ?hs then field ?c (sh_addr (?hs ! i) + ucast ?x) else sh_addr (?hs ! i))"
    if "i < length ?hs" for i
    using that h1(1,3) by (auto simp: elf'_def l sh_shift_def)
  have O: "sh_offset (sectionHeaders elf' ! i) = (if idx < i \<and> i \<le> last_moved ?hs then field ?c (sh_offset (?hs ! i) + ucast ?x) else sh_offset (?hs ! i))"
    if "i < length ?hs" for i
    using that h1(1,4) by (auto simp: elf'_def l sh_shift_def)
  have Z: "sh_size (sectionHeaders elf' ! idx) = field ?c (sh_size (?hs ! idx) + ucast ?x)"
    using idx by (simp add: elf'_def hs1_def)
  have X: "length str + 1 \<le> unat ?x"
  proof -
    have a: "unat (of_nat (length str + 1) :: u64) = length str + 1" using assms(6) by (simp add: unat_of_nat del: of_nat_add of_nat_Suc)
    have "unat (nextAlignAddressDouble (of_nat (length str + 1))) = round_up (length str + 1) 8"
      using nextAlignAddress_fixed_round_up(3) [of "of_nat (length str + 1)"] a assms(6) by simp
    moreover have "length str + 1 \<le> round_up (length str + 1) 8" "round_up (length str + 1) 8 < length str + 9"
      unfolding round_up_def Let_def by presburger+
    ultimately show ?thesis using assms(6) by (simp add: string_shift_def unsigned_ucast_eq take_bit_nat_eq_self)
  qed
  have D: "let d = ?ds ! j; d' = dynamics (dynamicTable elf') ! j in
      if points_behind d then \<forall>i. idx < i \<and> i \<le> last_moved ?hs \<and> d_un d = sh_addr (?hs ! i) \<longrightarrow> d_un d' = sh_addr (sectionHeaders elf' ! i)
      else d' = d" if j: "j < length ?ds" for j
  proof -
    have c: "is_Dynamic64 (?ds ! j) = ?c" using assms(9) j by (auto simp: list_all_length dyn_fits_def)
    have d': "dynamics (dynamicTable elf') ! j = (if points_behind (?ds ! j) then set_un (d_un (?ds ! j) + ucast ?x) (?ds ! j) else ?ds ! j)"
      using j by (simp add: elf'_def)
    have "i < length ?hs" if "i \<le> last_moved ?hs" for i using that assms(10) by simp
    then show ?thesis using A c by (simp add: Let_def d')
  qed
  show ?thesis
  proof (intro exI conjI)
    show "addStringToDynamicStringTable ver str elf = rbind (ver elf') (\<lambda>_. Inr (st_sizeInBytes st, elf'))" by (rule R)
  qed (use G x8(1) X Z A O D in simp_all)
qed

text \<open>
  C33. A library that is added under a name without \<open>+\<close> is the first the executable needs. Let the dynamic entries be
  of one class, as they are in a 64-bit run (\<open>extendDynamicTable\<close> adds 64-bit entries in 32-bit
  runs too), with a free entry behind all libraries; let the libraries have names, none of which is the
  new one, and the dynamic string table stay below 4 GB. When the string can be added, the
  executable handed to the closing \<open>verify\<close> needs the new library and behind it the old ones in
  their order.
\<close>

theorem addSharedLibrary_needed:
  assumes "needed_names elf = Inr names" and "libname \<notin> set names" and "length libname < MAX_STRING_SIZE"
    and "0 \<notin> set libname" and "libname = [] \<or> hd libname \<noteq> of_char (CHR ''+'')"
    and "find_string_table addr elf = Inr (dynamicStringTable elf)" and "dyn_value DT_STRTAB (dynamicTable elf) = Inr addr"
    and "has_room libname (snd (stringTables elf ! dynamicStringTable elf))"
    and "list_all (dyn_fits c) (dynamics (dynamicTable elf))" and "findEmptyDynamic (dynamicTable elf) < length (dynamics (dynamicTable elf))"
    and "\<forall>d \<in> set (drop (findEmptyDynamic (dynamicTable elf)) (dynamics (dynamicTable elf))). \<not> has_tag DT_NEEDED d"
    and "addStringToDynamicStringTable ver libname elf = Inr (off, elf1)"
  shows "\<exists>elf'. addSharedLibrary ver extension libname elf = rbind (ver elf') (\<lambda>_. Inr (off, elf')) \<and>
    needed_names elf' = Inr (libname # names)"
proof -
  obtain k idx st ds b extra where A: "k < length (stringTables elf)" "stringTables elf ! k = (idx, st)" "off = st_sizeInBytes st"
    "stringTables elf1 = (stringTables elf)[k := (idx, snd (addString libname st))]" "dynamicStringTable elf1 = dynamicStringTable elf"
    "rmap (shift_pointer b extra) (dynamics (dynamicTable elf)) = Inr ds" "dynamicTable elf1 = dynamicTable elf \<lparr> dynamics := ds \<rparr>"
    "currentPhase elf1 = currentPhase elf" "is64Bit elf1 = is64Bit elf"
    "\<exists>a. dyn_value DT_STRTAB (dynamicTable elf) = Inr a \<and> find_string_table a elf = Inr k"
    using addString_frame [OF assms(12)] .
  let ?e = "findEmptyDynamic (dynamicTable elf)" and ?ds0 = "dynamics (dynamicTable elf)" and ?n = DT_NEEDED
  have k: "k = dynamicStringTable elf" using A(10) assms(6,7) by auto
  have ph: "currentPhase elf = user_declare" using assms(12) by (auto simp: addStringToDynamicStringTable_def ASSERT_def split: if_splits)
  note T = tag_values_shift [OF A(6)]
  have len: "length ds = length ?ds0" using T by (metis length_map)
  have tag: "has_tag ty (ds ! i) = has_tag ty (?ds0 ! i)" if "i < length ?ds0" for ty i
    using T that len by (metis has_tag_def nth_map)
  have e: "?e = findEmptyDynamic (dynamicTable elf1)"
  proof -
    have "length (takeWhile P xs) = length (takeWhile (\<lambda>t. \<not> t = ucast DT_NULL) (map d_tag xs))" if "P = (\<lambda>d. \<not> has_tag DT_NULL d)" for P xs
      by (simp add: that takeWhile_map o_def has_tag_def)
    then show ?thesis using T by (simp add: findEmptyDynamic_def A(7))
  qed
  have e2: "?e < length (dynamics (dynamicTable elf1))" using assms(10) len by (simp add: A(7))
  have fits: "list_all (dyn_fits c) (dynamics (dynamicTable elf1))" using dyn_fits_shift [OF A(6) assms(9)] by (simp add: A(7))
  have n: "unat ?n < 2 ^ 31" "?n \<noteq> DT_NULL" "entry_type ?n t = ?n" for t by (simp_all add: entry_type_def DT_defs)
  obtain p where p: "prependEntry ?n off (dynamicTable elf1) = Inr (p, dynamicTable elf1 \<lparr> dynamics := prepended ?n off (dynamicTable elf1) \<rparr>)"
    using prependEntry_form [OF n(1), of "dynamicTable elf1" off] e e2 n(3) by auto
  let ?pre = "prepended ?n off (dynamicTable elf1)"
  define elf' where "elf' = elf1 \<lparr> dynamicTable := dynamicTable elf1 \<lparr> dynamics := ?pre \<rparr> \<rparr>"
  have R: "addSharedLibrary ver extension libname elf = rbind (ver elf') (\<lambda>_. Inr (off, elf'))"
    using assms(3,5) ph p first_named_needed [OF assms(1,2)]
    by (auto simp: addSharedLibrary_def Let_def assms(12) elf'_def)
  note S = prepended_spec [OF n(1) e e2 n(2), of off]
  have "tag_values ?n (drop (Suc ?e) ?pre) = []"
  proof -
    have "\<not> has_tag ?n (?pre ! i)" if "?e < i" "i < length ?pre" for i
    proof -
      have "?ds0 ! i \<in> set (drop ?e ?ds0)" using that S len A(7) by (auto simp: in_set_conv_nth intro: exI [of _ "i - ?e"])
      then have "\<not> has_tag ?n (?ds0 ! i)" using assms(11) by blast
      then show ?thesis using that S tag [of i ?n] len A(7) by simp
    qed
    then show ?thesis by (auto simp: tag_values_def filter_empty_conv in_set_conv_nth)
  qed
  then have v1: "tag_values ?n ?pre = tag_values ?n (take (Suc ?e) ?pre)"
    by (metis append_Nil2 append_take_drop_id filter_append map_append tag_values_def)
  have v2: "tag_values ?n (take (Suc ?e) ?pre) = ucast off # tag_values ?n (take ?e ds)"
    using prepended_values [OF n(1) e e2 fits, of off] by (simp add: A(7))
  have "tag_values ?n (drop ?e ds) = []"
  proof -
    have "\<not> has_tag ?n (ds ! i)" if "?e \<le> i" "i < length ds" for i
    proof -
      have "?ds0 ! i \<in> set (drop ?e ?ds0)" using that len by (auto simp: in_set_conv_nth intro: exI [of _ "i - ?e"])
      then show ?thesis using assms(11) tag [of i ?n] that len by simp
    qed
    then show ?thesis by (auto simp: tag_values_def filter_empty_conv in_set_conv_nth)
  qed
  then have v3: "tag_values ?n (take ?e ds) = tag_values ?n ds"
    by (metis append_Nil2 append_take_drop_id filter_append map_append tag_values_def)
  have v: "tag_values ?n (dynamics (dynamicTable elf')) = ucast off # tag_values ?n ?ds0"
    using v1 v2 v3 T by (simp add: elf'_def)
  have st: "snd (stringTables elf' ! dynamicStringTable elf') = snd (addString libname st)" "dynamicStringTable elf' < length (stringTables elf')"
    using A(1,4,5) k by (simp_all add: elf'_def)
  have "getString (snd (addString libname st)) off = Inr libname"
    using getString_new [OF assms(4), of st] assms(8) A(2,3) k by (simp add: addString_def [of libname st])
  moreover have "rmap (\<lambda>v. getString (snd (addString libname st)) (ucast v)) (tag_values ?n ?ds0) = Inr names"
  proof -
    have "rmap (\<lambda>v. getString st (ucast v)) (tag_values ?n ?ds0) = Inr names"
      using assms(1) A(2) k by (simp add: needed_names_def)
    moreover have "has_room libname st" using assms(8) A(2) k by simp
    ultimately show ?thesis unfolding rmap_Inr_iff by (auto elim!: list_all2_mono intro: getString_old)
  qed
  ultimately have "needed_names elf' = Inr (libname # names)" using st by (simp add: needed_names_def v)
  then show ?thesis using R by blast
qed

text \<open>An executable with two libraries, whose sections move as a block, or not.\<close>

definition sample_header_at :: "u16 \<Rightarrow> u64 \<Rightarrow> u64 \<Rightarrow> SectionHeader" where
  "sample_header_at idx addr align = (new_SectionHeader idx) \<lparr> sh_addr := addr, sh_offset := addr, sh_size := 16, sh_addralign := align \<rparr>"

definition sample_elf :: "u64 \<Rightarrow> ElfFileInst" where
  "sample_elf align = \<lparr> is64Bit = True, currentPhase = user_declare, sectionHeaders =
     [new_SectionHeader 0, sample_header_at 1 0x400 1, sample_header_at 2 0x500 2, sample_header_at 3 0x520 align, sample_header_at 4 0x600 8,
      (sample_header_at 5 0x700 4) \<lparr> sectionNamePtr := Some name_init \<rparr>],
     stringTables = [(1, \<lparr> strings = [0, 97, 97, 97, 97, 97, 97, 97, 0, 98, 0], st_sizeInBytes = 11 \<rparr>)], dynamicStringTable = 0,
     dynamicTable = sample_table True 2 \<rparr>"

lemma sample_elf_simps:
  "currentPhase (sample_elf al) = user_declare" "is64Bit (sample_elf al) = True" "dynamicStringTable (sample_elf al) = 0"
  "stringTables (sample_elf al) = [(1, \<lparr> strings = [0, 97, 97, 97, 97, 97, 97, 97, 0, 98, 0], st_sizeInBytes = 11 \<rparr>)]"
  "dynamicTable (sample_elf al) = sample_table True 2" "length (sectionHeaders (sample_elf al)) = 6"
  "last_moved (sectionHeaders (sample_elf al)) = 4" "sh_addr (sectionHeaders (sample_elf al) ! Suc 0) = 0x400"
  by (simp_all add: sample_elf_def last_moved_def findSectionIdx_name_def sample_header_at_def new_SectionHeader_def)

lemma sample_strtab: "dyn_value DT_STRTAB (sample_table True 2) = Inr 0x400"
  by (simp add: dyn_value_def getDynamicByType_def sample_table_def sample_entries_def has_tag_def DT_defs)

lemma sample_find: "find_string_table 0x400 (sample_elf al) = Inr 0"
  by (simp add: find_string_table_def sample_elf_simps)

theorem addString_consistent_witness:
  "\<exists>off elf'. addStringToDynamicStringTable (\<lambda>_. Inr ()) [99] (sample_elf 8) = Inr (off, elf') \<and>
     getString (snd (stringTables elf' ! 0)) off = Inr [99] \<and> sh_addr (sectionHeaders elf' ! 2) = 0x508 \<and>
     sh_offset (sectionHeaders elf' ! 2) = 0x508 \<and> d_un (dynamics (dynamicTable elf') ! 7) = 0x508"
proof -
  let ?elf = "sample_elf 8"
  have x: "string_shift [99] = 8" by (simp add: string_shift_def nextAlignAddressDouble_def)
  have m: "\<forall>i. 1 < i \<and> i \<le> last_moved (sectionHeaders ?elf) \<longrightarrow> movable (string_shift [99]) (sectionHeaders ?elf ! i)"
  proof (intro allI impI)
    fix i assume "1 < i \<and> i \<le> last_moved (sectionHeaders ?elf)"
    then have "i = 2 \<or> i = 3 \<or> i = 4" by (auto simp: sample_elf_simps)
    then show "movable (string_shift [99]) (sectionHeaders ?elf ! i)"
      by (elim disjE) (simp_all add: movable_def x sample_elf_def sample_header_at_def new_SectionHeader_def)
  qed
  have d: "\<forall>d \<in> set (dynamics (dynamicTable ?elf)). points_behind d \<longrightarrow> d_un d > sh_addr (sectionHeaders ?elf ! 1)"
    by (simp add: sample_elf_simps sample_table_def sample_entries_def points_behind_def has_tag_def DT_defs)
  have s: "stringTables ?elf ! 0 = (1, \<lparr> strings = [0, 97, 97, 97, 97, 97, 97, 97, 0, 98, 0], st_sizeInBytes = 11 \<rparr>)" by (simp add: sample_elf_simps)
  have v: "dyn_value DT_STRTAB (dynamicTable ?elf) = Inr 0x400" by (simp only: sample_elf_simps sample_strtab)
  have f: "list_all (dyn_fits (is64Bit ?elf)) (dynamics (dynamicTable ?elf))" by (simp only: sample_elf_simps sample_table_simps)
  have l: "last_moved (sectionHeaders ?elf) < length (sectionHeaders ?elf)" by (simp add: sample_elf_simps)
  define st :: StringTable where "st = \<lparr> strings = [0, 97, 97, 97, 97, 97, 97, 97, 0, 98, 0], st_sizeInBytes = 11 \<rparr>"
  have t: "table_ok st" "length (strings st) + length [99 :: byte] + 1 < 2 ^ 32" "0 \<notin> set [99 :: byte]" "length [99 :: byte] < 2 ^ 31"
    by (simp_all add: st_def table_ok_def)
  from addString_consistent [OF sample_elf_simps(1) v sample_find s [folded st_def] t(3,4,1,2) f l m d, of "\<lambda>_. Inr ()"]
  obtain off elf' where r: "addStringToDynamicStringTable (\<lambda>_. Inr ()) [99] ?elf = Inr (off, elf')" "getString (snd (stringTables elf' ! 0)) off = Inr [99]"
    and a: "\<forall>i < length (sectionHeaders ?elf). if 1 < i \<and> i \<le> last_moved (sectionHeaders ?elf)
      then sh_addr (sectionHeaders elf' ! i) = field (is64Bit ?elf) (sh_addr (sectionHeaders ?elf ! i) + ucast (string_shift [99])) \<and>
        sh_offset (sectionHeaders elf' ! i) = field (is64Bit ?elf) (sh_offset (sectionHeaders ?elf ! i) + ucast (string_shift [99]))
      else sh_addr (sectionHeaders elf' ! i) = sh_addr (sectionHeaders ?elf ! i) \<and> sh_offset (sectionHeaders elf' ! i) = sh_offset (sectionHeaders ?elf ! i)"
    and b: "\<forall>j < length (dynamics (dynamicTable ?elf)). let d = dynamics (dynamicTable ?elf) ! j; d' = dynamics (dynamicTable elf') ! j in
      if points_behind d then \<forall>i. 1 < i \<and> i \<le> last_moved (sectionHeaders ?elf) \<and> d_un d = sh_addr (sectionHeaders ?elf ! i) \<longrightarrow>
        d_un d' = sh_addr (sectionHeaders elf' ! i) else d' = d" by auto
  have o: "sh_addr (sectionHeaders ?elf ! 2) = 0x500" "sh_offset (sectionHeaders ?elf ! 2) = 0x500"
    by (simp_all add: sample_elf_def sample_header_at_def new_SectionHeader_def)
  then have a2: "sh_addr (sectionHeaders elf' ! 2) = 0x508" "sh_offset (sectionHeaders elf' ! 2) = 0x508"
    using a [rule_format, of 2] by (simp_all add: sample_elf_simps x field_def)
  have d7: "points_behind (dynamics (dynamicTable ?elf) ! 7)" "d_un (dynamics (dynamicTable ?elf) ! 7) = 0x500" "7 < length (dynamics (dynamicTable ?elf))"
    by (simp_all add: sample_elf_simps sample_table_def sample_entries_def points_behind_def has_tag_def DT_defs)
  have "d_un (dynamics (dynamicTable elf') ! 7) = sh_addr (sectionHeaders elf' ! 2)"
    using b [rule_format, OF d7(3)] d7(1,2) o(1) by (simp add: Let_def sample_elf_simps)
  then show ?thesis using r a2 by auto
qed

theorem addSharedLibrary_needed_witness:
  "\<exists>off elf'. addSharedLibrary (\<lambda>_. Inr ()) [] [99] (sample_elf 8) = Inr (off, elf') \<and>
     needed_names elf' = Inr [[99], [97, 97, 97, 97, 97, 97, 97], [98]]"
proof -
  let ?elf = "sample_elf 8"
  have t: "tag_values DT_NEEDED (dynamics (dynamicTable ?elf)) = [1, 9]"
    by (simp add: sample_elf_simps sample_table_def sample_entries_def tag_values_def has_tag_def DT_defs)
  have n: "needed_names ?elf = Inr [[97, 97, 97, 97, 97, 97, 97], [98]]"
    unfolding needed_names_def t by (simp add: sample_elf_simps getString_def)
  have z: "\<forall>d \<in> set (drop (findEmptyDynamic (dynamicTable ?elf)) (dynamics (dynamicTable ?elf))). \<not> has_tag DT_NEEDED d"
    unfolding sample_elf_simps sample_table_simps by (simp add: sample_table_def sample_entries_def has_tag_def DT_defs)
  have "case addStringToDynamicStringTable (\<lambda>_. Inr ()) [99] ?elf of Inr _ \<Rightarrow> True | Inl _ \<Rightarrow> False" by code_simp
  then obtain off elf1 where a: "addStringToDynamicStringTable (\<lambda>_. Inr ()) [99] ?elf = Inr (off, elf1)" by (auto split: sum.splits)
  have v: "dyn_value DT_STRTAB (dynamicTable ?elf) = Inr 0x400" by (simp only: sample_elf_simps sample_strtab)
  have f: "find_string_table 0x400 ?elf = Inr (dynamicStringTable ?elf)" by (simp only: sample_elf_simps sample_find)
  have l: "list_all (dyn_fits True) (dynamics (dynamicTable ?elf))"
    "findEmptyDynamic (dynamicTable ?elf) < length (dynamics (dynamicTable ?elf))"
    by (simp_all only: sample_elf_simps sample_table_simps)
  have "\<exists>elf'. addSharedLibrary (\<lambda>_. Inr ()) [] [99] ?elf = Inr (off, elf') \<and> needed_names elf' = Inr [[99], [97, 97, 97, 97, 97, 97, 97], [98]]"
    using addSharedLibrary_needed [OF n _ _ _ _ f v _ l z a, of "[]"] by (simp add: MAX_STRING_SIZE_def sample_elf_simps has_room_def table_ok_def)
  then show ?thesis by (intro exI [of _ off])
qed

text \<open>
  With a section aligned to 16 bytes among those that move, the entries of the dynamic table lose
  their sections: a section before it moves by 8 bytes, its entry in the dynamic table by 16.
\<close>

theorem addString_misaligned:
  "\<exists>off elf'. addStringToDynamicStringTable (\<lambda>_. Inr ()) [99] (sample_elf 16) = Inr (off, elf') \<and>
     has_tag DT_VERSYM (dynamics (dynamicTable (sample_elf 16)) ! 7) \<and>
     d_un (dynamics (dynamicTable (sample_elf 16)) ! 7) = sh_addr (sectionHeaders (sample_elf 16) ! 2) \<and>
     sh_addr (sectionHeaders elf' ! 2) = 0x508 \<and> d_un (dynamics (dynamicTable elf') ! 7) = 0x510"
proof -
  have "case addStringToDynamicStringTable (\<lambda>_. Inr ()) [99] (sample_elf 16) of Inl _ \<Rightarrow> False
    | Inr (off, elf') \<Rightarrow> sh_addr (sectionHeaders elf' ! 2) = 0x508 \<and> d_un (dynamics (dynamicTable elf') ! 7) = 0x510" by code_simp
  moreover have "has_tag DT_VERSYM (dynamics (dynamicTable (sample_elf 16)) ! 7)"
    "d_un (dynamics (dynamicTable (sample_elf 16)) ! 7) = sh_addr (sectionHeaders (sample_elf 16) ! 2)"
    by (simp_all add: sample_elf_def sample_table_def sample_entries_def has_tag_def DT_defs sample_header_at_def new_SectionHeader_def)
  ultimately show ?thesis by (auto split: sum.splits)
qed

end
