(* ===== verification/Cache_Lru.thy ===== *)
theory Cache_Lru
  imports Pebil_Prelude
begin

text \<open>
  The order in which the lines of a cache set were used: the array of \<open>history\<close> records that
  \<open>CacheLevel\<close> of \<open>instcode/Simulation.cpp\<close> keeps for each set under the policy \<open>trulru\<close>,
  the three ways it is changed, and what it stands for, a list of the lines with the least recently
  used one first. The last section is the specification of a least-recently-used set:
  the most recent distinct entries of the trace.
\<close>

section \<open>The array of history records\<close>

record history =
  prev :: u32
  nxt :: u32

text \<open>Reads and writes of an array that may be out of its bounds.\<close>

definition aget :: "'a list \<Rightarrow> nat \<Rightarrow> 'a res" where
  "aget xs i = (if i < length xs then Inr (xs ! i) else Inl OutOfBounds)"

definition aput :: "nat \<Rightarrow> 'a \<Rightarrow> 'a list \<Rightarrow> 'a list res" where
  "aput i x xs = (if i < length xs then Inr (xs[i := x]) else Inl OutOfBounds)"

lemma aget_Inr [simp]: "i < length xs \<Longrightarrow> aget xs i = Inr (xs ! i)"
  by (simp add: aget_def)

lemma aput_Inr [simp]: "i < length xs \<Longrightarrow> aput i x xs = Inr (xs[i := x])"
  by (simp add: aput_def)

lemma aget_eq_Inr: "aget xs i = Inr x \<longleftrightarrow> i < length xs \<and> x = xs ! i"
  by (auto simp: aget_def)

lemma aput_eq_Inr: "aput i x xs = Inr ys \<longleftrightarrow> i < length xs \<and> ys = xs[i := x]"
  by (auto simp: aput_def)

definition set_prev :: "u32 \<Rightarrow> u32 \<Rightarrow> history list \<Rightarrow> history list res" where
  "set_prev i v h = rbind (aget h (unat i)) (\<lambda>e. aput (unat i) (e \<lparr> prev := v \<rparr>) h)"

definition set_nxt :: "u32 \<Rightarrow> u32 \<Rightarrow> history list \<Rightarrow> history list res" where
  "set_nxt i v h = rbind (aget h (unat i)) (\<lambda>e. aput (unat i) (e \<lparr> nxt := v \<rparr>) h)"

text \<open>What \<open>Init\<close> writes: element 0 first, without the reduction modulo \<open>assoc\<close> the others have.\<close>

definition init_history :: "u32 \<Rightarrow> history list res" where
  "init_history assoc = (if assoc = 0 then Inl OutOfBounds
     else Inr (\<lparr> prev = assoc - 1, nxt = 1 \<rparr> #
       map (\<lambda>a. \<lparr> prev = of_nat a - 1, nxt = (of_nat a + 1) mod assoc \<rparr>) [1..<unat assoc]))"

text \<open>
  The body of \<open>MarkUsed\<close> under \<open>trulru\<close>: \<open>head\<close> is \<open>recentlyUsed[setid]\<close>, \<open>h\<close> is \<open>historyUsed[setid]\<close>.
\<close>

definition mark_history :: "u32 \<Rightarrow> u32 \<times> history list \<Rightarrow> (u32 \<times> history list) res" where
  "mark_history lineid = (\<lambda>(head, h).
     if head = lineid then rbind (aget h (unat lineid)) (\<lambda>e. Inr (nxt e, h))
     else
       rbind (aget h (unat lineid)) (\<lambda>e.
       rbind (set_prev (nxt e) (prev e) h) (\<lambda>h.
       rbind (aget h (unat lineid)) (\<lambda>e.
       rbind (set_nxt (prev e) (nxt e) h) (\<lambda>h.
       rbind (aget h (unat head)) (\<lambda>e.
       rbind (set_prev lineid (prev e) h) (\<lambda>h.
       rbind (set_prev head lineid h) (\<lambda>h.
       rbind (set_nxt lineid head h) (\<lambda>h.
       rbind (aget h (unat lineid)) (\<lambda>e.
       rbind (set_nxt (prev e) lineid h) (\<lambda>h. Inr (head, h))))))))))))"

section \<open>Chains of links\<close>

text \<open>
  \<open>chain p n x ys y\<close>: following \<open>n\<close> from \<open>x\<close> leads through \<open>ys\<close> to \<open>y\<close>, and \<open>p\<close> leads back.
\<close>

fun chain :: "(nat \<Rightarrow> nat) \<Rightarrow> (nat \<Rightarrow> nat) \<Rightarrow> nat \<Rightarrow> nat list \<Rightarrow> nat \<Rightarrow> bool" where
  "chain p n x [] y \<longleftrightarrow> n x = y \<and> p y = x"
| "chain p n x (a # as) y \<longleftrightarrow> n x = a \<and> p a = x \<and> chain p n a as y"

lemma chain_append: "chain p n x (as @ l # bs) y \<longleftrightarrow> chain p n x as l \<and> chain p n l bs y"
  by (induction as arbitrary: x) auto

lemma chain_first: "chain p n x ys y \<Longrightarrow> n x = hd (ys @ [y])"
  by (cases ys) simp_all

lemma chain_last: "chain p n x ys y \<Longrightarrow> p y = last (x # ys)"
  by (induction ys arbitrary: x) simp_all

lemma last_in_chain: "last (x # ys) \<in> insert x (set ys)"
  using last_in_set [of "x # ys"] by simp

text \<open>The last link of a chain is sent elsewhere.\<close>

lemma chain_retarget:
  assumes "chain p n x ys y" and "distinct (x # ys)"
    and "\<And>z. z \<in> insert x (set ys) \<Longrightarrow> z \<noteq> last (x # ys) \<Longrightarrow> n' z = n z"
    and "\<And>z. z \<in> set ys \<Longrightarrow> p' z = p z"
    and "n' (last (x # ys)) = y'" and "p' y' = last (x # ys)"
  shows "chain p' n' x ys y'"
  using assms
proof (induction ys arbitrary: x)
  case Nil
  then show ?case by simp
next
  case (Cons a as)
  have "last (a # as) \<in> insert a (set as)" by (rule last_in_chain)
  with Cons.prems(2) have x: "x \<noteq> last (a # as)" by auto
  have "chain p' n' a as y'"
  proof (rule Cons.IH)
    show "chain p n a as y" "distinct (a # as)" using Cons.prems(1,2) by simp_all
    show "n' z = n z" if "z \<in> insert a (set as)" "z \<noteq> last (a # as)" for z
      using Cons.prems(3) [of z] that by auto
    show "p' z = p z" if "z \<in> set as" for z using Cons.prems(4) [of z] that by simp
  qed (use Cons.prems(5,6) in simp_all)
  moreover have "n' x = a" using Cons.prems(1,3) x by auto
  moreover have "p' a = x" using Cons.prems(1,4) by auto
  ultimately show ?case by simp
qed

lemma chain_cong:
  assumes "chain p n x ys y"
    and "\<And>z. z \<in> insert x (set ys) \<Longrightarrow> n' z = n z"
    and "\<And>z. z \<in> insert y (set ys) \<Longrightarrow> p' z = p z"
  shows "chain p' n' x ys y"
  using assms by (induction ys arbitrary: x) auto

text \<open>Taking \<open>l\<close> out of the ring that starts at \<open>h\<close> and putting it back before \<open>h\<close>.\<close>

lemma chain_move:
  assumes c: "chain p n h (as @ l # bs) h" and d: "distinct (h # as @ l # bs)"
    and p': "p1 = p(n l := p l)" "p2 = p1(l := p1 h)" "p' = p2(h := l)"
    and n': "n' = n(p1 l := n l, l := h, p' l := l)"
  shows "chain p' n' h (as @ bs @ [l]) h"
proof -
  define a where "a = last (h # as)"
  have a: "a \<in> insert h (set as)" "a \<noteq> l" using last_in_chain [of h as] d by (auto simp: a_def)
  have ca: "chain p n h as l" and cb: "chain p n l bs h" using c by (simp_all add: chain_append)
  have pl: "p l = a" using chain_last [OF ca] by (simp add: a_def)
  have nl: "n l = hd (bs @ [h])" by (rule chain_first [OF cb])
  have nll: "n l \<noteq> l" using nl d by (cases bs) auto
  have p1l: "p1 l = a" using nll pl by (simp add: p'(1))
  show ?thesis
  proof (cases bs)
    case Nil
    then have eqs: "p1 h = a" "n l = h" using nl by (simp_all add: p'(1) pl)
    have p'l: "p' l = a" using d eqs by (simp add: p' pl)
    have n'a: "n' a = l" by (simp add: n' p'l)
    have "chain p' n' h as l"
    proof (rule chain_retarget [OF ca])
      show "distinct (h # as)" using d by simp
      show "n' z = n z" if "z \<in> insert h (set as)" "z \<noteq> last (h # as)" for z
        using that d by (auto simp: n' p1l p'l a_def)
      show "p' z = p z" if "z \<in> set as" for z using that d by (auto simp: p' eqs)
    qed (use n'a p'l in \<open>simp_all add: a_def\<close>)
    moreover have "n' l = h" using a d by (auto simp: n' p'l)
    moreover have "p' h = l" by (simp add: p')
    ultimately show ?thesis by (simp add: Nil chain_append)
  next
    case (Cons b cs)
    define q where "q = last (b # cs)"
    have q: "q \<in> insert b (set cs)" using last_in_chain [of b cs] by (simp add: q_def)
    with d Cons have ql: "q \<noteq> l" and qa: "q \<noteq> a" using a by auto
    have bl: "n l = b" using nl Cons by simp
    have bh: "b \<noteq> h" "b \<noteq> l" using d Cons by auto
    have "p h = q" using chain_last [OF cb] Cons by (simp add: q_def)
    then have p1h: "p1 h = q" using bl bh by (simp add: p'(1))
    have p'l: "p' l = q" using d p1h by (simp add: p')
    have n': "n' = n(a := b, l := h, q := l)" by (simp add: n' p1l p'l bl)
    have p': "p' = p(b := a, l := q, h := l)" using p1h by (simp add: p' pl bl)
    have cb': "chain p n b cs h" using cb Cons by simp
    have "chain p' n' h as b"
    proof (rule chain_retarget [OF ca])
      show "distinct (h # as)" using d by simp
      show "n' z = n z" if "z \<in> insert h (set as)" "z \<noteq> last (h # as)" for z
        using that d q Cons by (auto simp: n' a_def)
      show "p' z = p z" if "z \<in> set as" for z using that d Cons by (auto simp: p')
    qed (use a bh qa in \<open>auto simp: n' p' a_def\<close>)
    moreover have "chain p' n' b cs l"
    proof (rule chain_retarget [OF cb'])
      show "distinct (b # cs)" using d Cons by simp
      show "n' z = n z" if "z \<in> insert b (set cs)" "z \<noteq> last (b # cs)" for z
        using that d Cons a by (auto simp: n' q_def)
      show "p' z = p z" if "z \<in> set cs" for z using that d Cons by (auto simp: p')
    qed (use d in \<open>auto simp: n' p' q_def\<close>)
    moreover have "n' l = h" using ql by (simp add: n')
    moreover have "p' h = l" by (simp add: p')
    ultimately show ?thesis by (simp add: Cons chain_append)
  qed
qed

section \<open>The array as a ring\<close>

definition pv :: "history list \<Rightarrow> nat \<Rightarrow> nat" where
  "pv h i = unat (prev (h ! i))"

definition nx :: "history list \<Rightarrow> nat \<Rightarrow> nat" where
  "nx h i = unat (nxt (h ! i))"

definition lru_order :: "u32 \<times> history list \<Rightarrow> nat list \<Rightarrow> bool" where
  "lru_order s xs \<longleftrightarrow> xs \<noteq> [] \<and> hd xs = unat (fst s) \<and> distinct xs \<and> set xs = {..<length (snd s)} \<and>
     chain (pv (snd s)) (nx (snd s)) (hd xs) (tl xs) (hd xs)"

lemma lru_orderE:
  assumes "lru_order (head, h) xs"
  obtains ys where "xs = unat head # ys" and "unat head \<notin> set ys" and "distinct ys"
    and "insert (unat head) (set ys) = {..<length h}" and "chain (pv h) (nx h) (unat head) ys (unat head)"
  using assms by (cases xs) (simp_all add: lru_order_def)

lemma lru_orderI:
  assumes "x = unat head" and "x \<notin> set ys" and "distinct ys"
    and "insert x (set ys) = {..<length h}" and "chain (pv h) (nx h) x ys x"
  shows "lru_order (head, h) (x # ys)"
  using assms by (simp add: lru_order_def)

lemma set_prev_Inr:
  assumes "unat i < length h"
  shows "\<exists>h'. set_prev i v h = Inr h' \<and> length h' = length h \<and> nx h' = nx h \<and> pv h' = (pv h)(unat i := unat v) \<and>
    h' = h[unat i := (h ! unat i) \<lparr> prev := v \<rparr>]"
  using assms by (auto simp: set_prev_def nx_def pv_def fun_eq_iff nth_list_update)

lemma set_nxt_Inr:
  assumes "unat i < length h"
  shows "\<exists>h'. set_nxt i v h = Inr h' \<and> length h' = length h \<and> pv h' = pv h \<and> nx h' = (nx h)(unat i := unat v) \<and>
    h' = h[unat i := (h ! unat i) \<lparr> nxt := v \<rparr>]"
  using assms by (auto simp: set_nxt_def nx_def pv_def fun_eq_iff nth_list_update)

text \<open>The ring order has every link inside the array.\<close>

lemma lru_order_bounds:
  assumes "lru_order (head, h) xs" and "i < length h"
  shows "nx h i < length h" and "pv h i < length h"
proof -
  obtain ys where ys: "xs = unat head # ys" "chain (pv h) (nx h) (unat head) ys (unat head)"
    using assms(1) by (cases xs) (auto simp: lru_order_def)
  have sub: "set xs = {..<length h}" using assms(1) by (simp add: lru_order_def)
  have gen: "chain p n x zs y \<Longrightarrow> i \<in> insert x (set zs) \<Longrightarrow> n i \<in> insert y (set zs)" for p n x zs y
    by (induction zs arbitrary: x) auto
  have gen2: "chain p n x zs y \<Longrightarrow> i \<in> insert y (set zs) \<Longrightarrow> p i \<in> insert x (set zs)" for p n x zs y
    by (induction zs arbitrary: x) auto
  have i: "i \<in> insert (unat head) (set ys)" using assms(2) sub ys(1) by auto
  have "nx h i \<in> set xs" using gen [OF ys(2) i] ys(1) by simp
  then show "nx h i < length h" using sub by simp
  have "pv h i \<in> set xs" using gen2 [OF ys(2) i] ys(1) by simp
  then show "pv h i < length h" using sub by simp
qed

lemma lru_order_init:
  assumes "2 \<le> unat assoc"
  shows "\<exists>h. init_history assoc = Inr h \<and> length h = unat assoc \<and> lru_order (0, h) [0..<unat assoc]"
proof -
  define n where "n = unat assoc"
  have n: "2 \<le> n" "n < 4294967296" using assms u32_lt [of assoc] by (simp_all add: n_def)
  define h where "h = \<lparr> prev = assoc - 1, nxt = 1 \<rparr> #
       map (\<lambda>a. \<lparr> prev = of_nat a - 1, nxt = (of_nat a + 1) mod assoc \<rparr>) [1..<n]"
  have len: "length h = n" using n by (simp add: h_def)
  have as: "assoc \<noteq> 0" using n by (auto simp: n_def)
  have as1: "unat (assoc - 1) = n - 1"
    using as by (simp add: n_def unat_minus_one)
  have nz: "h ! a = \<lparr> prev = of_nat a - 1, nxt = (of_nat a + 1) mod assoc \<rparr>" if "0 < a" "a < n" for a
    using that by (cases a) (simp_all add: h_def nth_map)
  have pvS: "pv h (Suc a) = a" if "Suc a < n" for a
  proof -
    have "(of_nat (Suc a) - 1 :: u32) = of_nat a" by simp
    then show ?thesis using that n nz [of "Suc a"] by (simp add: pv_def of_nat_u32 del: of_nat_Suc)
  qed
  have nxa: "nx h a = Suc a" if "Suc a < n" for a
  proof (cases a)
    case 0
    then show ?thesis by (simp add: nx_def h_def)
  next
    case (Suc b)
    have "(of_nat a + 1 :: u32) = of_nat (Suc a)" by simp
    then show ?thesis using that n nz [of a] Suc
      by (simp add: nx_def unat_mod of_nat_u32 n_def del: of_nat_Suc)
  qed
  have nxl: "nx h (n - 1) = 0"
  proof -
    have "(of_nat (n - 1) + 1 :: u32) = of_nat (Suc (n - 1))" by simp
    also have "\<dots> = assoc" using n by (simp add: n_def)
    finally show ?thesis using n nz [of "n - 1"] by (simp add: nx_def)
  qed
  have pv0: "pv h 0 = n - 1" by (simp add: pv_def h_def as1)
  have ch: "chain (pv h) (nx h) k [Suc k..<n] 0" if "k < n" for k
    using that
  proof (induction "n - k" arbitrary: k)
    case (Suc d)
    show ?case
    proof (cases "Suc k = n")
      case True
      then have "k = n - 1" by simp
      then show ?thesis using nxl pv0 True by simp
    next
      case False
      then have "[Suc k..<n] = Suc k # [Suc (Suc k)..<n]" using Suc.prems by (simp add: upt_conv_Cons)
      then show ?thesis using Suc False nxa [of k] pvS [of k] by simp
    qed
  qed simp
  have cons: "[0..<n] = 0 # [1..<n]" using n by (simp add: upt_conv_Cons)
  have "lru_order (0, h) [0..<n]"
    using ch [of 0] n by (auto simp: lru_order_def len cons simp flip: One_nat_def)
  moreover have "init_history assoc = Inr h" using as by (simp add: init_history_def h_def n_def)
  ultimately show ?thesis by (auto simp: len n_def)
qed

lemma mark_history_ring:
  assumes ord: "lru_order (head, h) xs" and l: "unat l < length h"
  obtains head' h' where "mark_history l (head, h) = Inr (head', h')" and "length h' = length h"
    and "lru_order (head', h') (removeAll (unat l) xs @ [unat l])"
proof (cases "head = l")
  case True
  obtain ys where xs: "xs = unat l # ys" and d: "unat l \<notin> set ys" "distinct ys"
    and set: "insert (unat l) (set ys) = {..<length h}" and c: "chain (pv h) (nx h) (unat l) ys (unat l)"
    using ord True by (auto elim: lru_orderE)
  have nl: "nx h (unat l) = hd (ys @ [unat l])" by (rule chain_first [OF c])
  have "lru_order (nxt (h ! unat l), h) (ys @ [unat l])"
  proof (cases ys)
    case Nil
    then show ?thesis using c nl set by (simp add: lru_orderI nx_def)
  next
    case (Cons y zs)
    have "lru_order (nxt (h ! unat l), h) (y # (zs @ [unat l]))"
    proof (rule lru_orderI)
      show "insert y (set (zs @ [unat l])) = {..<length h}" using set Cons by auto
      show "chain (pv h) (nx h) y (zs @ [unat l]) y" using c Cons by (simp add: chain_append)
    qed (use d nl Cons in \<open>simp_all add: nx_def\<close>)
    then show ?thesis by (simp add: Cons)
  qed
  moreover have "removeAll (unat l) xs = ys" using d xs by simp
  ultimately show ?thesis
    using True l by (intro that [of "nxt (h ! unat l)" h]) (simp_all add: mark_history_def)
next
  case False
  have hd: "unat head \<noteq> unat l" using False word_eq_unatI by blast
  obtain ys where xs: "xs = unat head # ys" and d1: "unat head \<notin> set ys" "distinct ys"
    and set: "insert (unat head) (set ys) = {..<length h}" and c1: "chain (pv h) (nx h) (unat head) ys (unat head)"
    using ord by (rule lru_orderE)
  have "unat l \<in> insert (unat head) (set ys)" by (simp only: set lessThan_iff l)
  then have "unat l \<in> set ys" using hd by simp
  then obtain as bs where ys: "ys = as @ unat l # bs" by (auto simp: in_set_conv_decomp)
  have c: "chain (pv h) (nx h) (unat head) (as @ unat l # bs) (unat head)" using c1 ys by simp
  have d: "distinct (unat head # as @ unat l # bs)" using d1 ys by simp
  have "unat head \<in> {..<length h}" by (simp only: set [symmetric] insertI1)
  then have hl: "unat head < length h" by simp
  have b: "nx h (unat l) < length h" "pv h (unat l) < length h" "pv h (unat head) < length h"
    using lru_order_bounds [OF ord] l hl by auto
  define hl1 where "hl1 = (pv h)(nx h (unat l) := pv h (unat l))"
  have nll: "nx h (unat l) \<noteq> unat l"
    using chain_first [of "pv h" "nx h" "unat l" bs "unat head"] c d by (cases bs) (auto simp: chain_append)
  obtain h1 where h1: "set_prev (nxt (h ! unat l)) (prev (h ! unat l)) h = Inr h1" "length h1 = length h"
      "nx h1 = nx h" "pv h1 = hl1"
    using set_prev_Inr [of "nxt (h ! unat l)" h "prev (h ! unat l)"] b by (auto simp: nx_def pv_def hl1_def)
  have p1l: "pv h1 (unat l) = pv h (unat l)" using nll by (simp add: h1 hl1_def)
  obtain h2 where h2: "set_nxt (prev (h1 ! unat l)) (nxt (h1 ! unat l)) h1 = Inr h2" "length h2 = length h"
      "pv h2 = hl1" "nx h2 = (nx h)(hl1 (unat l) := nx h (unat l))"
    using set_nxt_Inr [of "prev (h1 ! unat l)" h1 "nxt (h1 ! unat l)"] b p1l h1
    by (auto simp: pv_def [symmetric] nx_def [symmetric])
  obtain h3 where h3: "set_prev l (prev (h2 ! unat head)) h2 = Inr h3" "length h3 = length h"
      "nx h3 = nx h2" "pv h3 = hl1(unat l := hl1 (unat head))"
    using set_prev_Inr [of l h2 "prev (h2 ! unat head)"] l h2 by (auto simp: pv_def [symmetric])
  obtain h4 where h4: "set_prev head l h3 = Inr h4" "length h4 = length h"
      "nx h4 = nx h2" "pv h4 = hl1(unat l := hl1 (unat head), unat head := unat l)"
    using set_prev_Inr [of head h3 l] hl h3 by auto
  obtain h5 where h5: "set_nxt l head h4 = Inr h5" "length h5 = length h"
      "pv h5 = pv h4" "nx h5 = (nx h2)(unat l := unat head)"
    using set_nxt_Inr [of l h4 head] l h4 by auto
  have p5: "pv h5 (unat l) = hl1 (unat head)" using hd by (simp add: h5 h4)
  have "hl1 (unat head) < length h" using b by (simp add: hl1_def)
  then obtain h6 where h6: "set_nxt (prev (h5 ! unat l)) l h5 = Inr h6" "length h6 = length h"
      "pv h6 = pv h4" "nx h6 = (nx h2)(unat l := unat head, hl1 (unat head) := unat l)"
    using set_nxt_Inr [of "prev (h5 ! unat l)" h5 l] h5 p5 by (auto simp: pv_def [symmetric])
  have run: "mark_history l (head, h) = Inr (head, h6)"
    using False l hl by (simp add: mark_history_def h1 h2 h3 h4 h5 h6)
  have "chain (pv h6) (nx h6) (unat head) (as @ bs @ [unat l]) (unat head)"
    by (rule chain_move [OF c d, where ?p1.0 = hl1 and ?p2.0 = "hl1(unat l := hl1 (unat head))"])
      (use hd in \<open>simp_all add: hl1_def [symmetric] h6 h4 h2\<close>)
  moreover have "insert (unat head) (set (as @ bs @ [unat l])) = {..<length h6}" using set ys h6(2) by auto
  ultimately have "lru_order (head, h6) (unat head # as @ bs @ [unat l])"
    using d by (intro lru_orderI) auto
  moreover have "removeAll (unat l) xs @ [unat l] = unat head # as @ bs @ [unat l]"
    using d xs ys by simp
  ultimately show ?thesis using run h6(2) by (intro that [of head h6]) simp_all
qed

section \<open>A least-recently-used set\<close>

text \<open>
  What a set with \<open>A\<close> lines should hold after a trace: the \<open>A\<close> distinct entries used most
  recently, the last one first.
\<close>

definition recent :: "'a list \<Rightarrow> 'a list" where
  "recent t = rev (remdups t)"

definition lru_set :: "nat \<Rightarrow> 'a list \<Rightarrow> 'a list" where
  "lru_set A t = take A (recent t)"

definition touch :: "'a \<Rightarrow> 'a list \<Rightarrow> 'a list" where
  "touch x ys = x # removeAll x ys"

lemma remdups_snoc: "remdups (t @ [x]) = removeAll x (remdups t) @ [x]"
  by (induction t) auto

lemma recent_snoc: "recent (t @ [x]) = touch x (recent t)"
  by (simp add: recent_def remdups_snoc touch_def removeAll_filter_not_eq rev_filter)

lemma recent_Nil [simp]: "recent [] = []"
  by (simp add: recent_def)

lemma distinct_recent [simp]: "distinct (recent t)"
  by (simp add: recent_def)

lemma set_recent [simp]: "set (recent t) = set t"
  by (simp add: recent_def)

lemma take_removeAll_take:
  assumes "distinct ys"
  shows "take A (removeAll x (take (Suc A) ys)) = take A (removeAll x ys)"
  using assms
proof (induction ys arbitrary: A)
  case (Cons y ys)
  show ?case
  proof (cases A)
    case (Suc n)
    show ?thesis
    proof (cases "y = x")
      case True
      then have "removeAll x ys = ys" "removeAll x (take (Suc n) ys) = take (Suc n) ys"
        using Cons.prems by (auto dest: in_set_takeD intro!: removeAll_id)
      then show ?thesis using True Suc by simp
    next
      case False
      then show ?thesis using Cons Suc by simp
    qed
  qed simp
qed simp

text \<open>Keeping \<open>A\<close> entries from use to use loses nothing.\<close>

lemma lru_set_snoc: "0 < A \<Longrightarrow> lru_set A (t @ [x]) = take A (touch x (lru_set A t))"
  using take_removeAll_take [of "recent t" "A - 1" x]
  by (cases A) (simp_all add: lru_set_def recent_snoc touch_def)

text \<open>The stack distance: an entry is still held iff fewer than \<open>A\<close> others were used after it.\<close>

lemma in_lru_set:
  assumes "x \<notin> set u"
  shows "x \<in> set (lru_set A (t @ x # u)) \<longleftrightarrow> card (set u) < A"
proof -
  have r: "recent (t @ x # u) = recent u @ x # removeAll x (filter (\<lambda>y. y \<notin> set u) (recent t))" for t
  proof (induction t)
    case Nil
    then show ?case using assms by (simp add: recent_def)
  next
    case (Cons a t)
    then show ?case using assms by (auto simp: recent_def)
  qed
  have len: "length (recent u) = card (set u)" by (simp add: recent_def length_remdups_card_conv)
  show ?thesis
  proof (cases "card (set u) < A")
    case True
    then obtain k where "A - card (set u) = Suc k" by (cases "A - card (set u)") auto
    then show ?thesis using True by (simp add: lru_set_def r len)
  next
    case False
    then show ?thesis using assms by (auto simp: lru_set_def r len dest: in_set_takeD)
  qed
qed

lemma lru_set_mono: "A \<le> B \<Longrightarrow> set (lru_set A t) \<subseteq> set (lru_set B t)"
  by (simp add: lru_set_def set_take_subset_set_take)

end
