(* ===== verification/Cache_Stats.thy ===== *)
theory Cache_Stats
  imports Cache_Lru
begin

text \<open>
  The counters of the cache simulator: the classes \<open>CacheStats\<close>, \<open>RangeStats\<close>, \<open>AddressRangeHandler\<close> and
  \<open>SamplingMethod\<close> of \<open>instcode/Simulation.hpp\<close> and \<open>instcode/Simulation.cpp\<close>. The rates
  in floating point are not modelled, the sums they are computed from are.
\<close>

definition umod :: "'a :: len word \<Rightarrow> 'a word \<Rightarrow> 'a word res" where
  "umod x n = (if n = 0 then Inl DivByZero else Inr (x mod n))"

lemma umod_Inr [simp]: "n \<noteq> 0 \<Longrightarrow> umod x n = Inr (x mod n)"
  by (simp add: umod_def)

section \<open>Hits and misses\<close>

record LevelStats =
  hitCount :: u64
  missCount :: u64

record CacheStats =
  LevelCount :: u32
  SysId :: u32
  Capacity :: u32
  Stats :: "LevelStats list list"

definition no_stats :: LevelStats where
  "no_stats = \<lparr> hitCount = 0, missCount = 0 \<rparr>"

definition GetLevelStats :: "u32 \<Rightarrow> u32 \<Rightarrow> CacheStats \<Rightarrow> LevelStats res" where
  "GetLevelStats memid lvl st = rbind (aget (Stats st) (unat memid)) (\<lambda>row. aget row (unat lvl))"

definition update_stats :: "(LevelStats \<Rightarrow> LevelStats) \<Rightarrow> u32 \<Rightarrow> u32 \<Rightarrow> CacheStats \<Rightarrow> CacheStats res" where
  "update_stats f memid lvl st =
     rbind (aget (Stats st) (unat memid)) (\<lambda>row.
     rbind (aget row (unat lvl)) (\<lambda>l.
     Inr (st \<lparr> Stats := (Stats st)[unat memid := row[unat lvl := f l]] \<rparr>)))"

definition Hit_count :: "u32 \<Rightarrow> u32 \<Rightarrow> u32 \<Rightarrow> CacheStats \<Rightarrow> CacheStats res" where
  "Hit_count memid lvl cnt = update_stats (\<lambda>l. l \<lparr> hitCount := hitCount l + ucast cnt \<rparr>) memid lvl"

definition Miss_count :: "u32 \<Rightarrow> u32 \<Rightarrow> u32 \<Rightarrow> CacheStats \<Rightarrow> CacheStats res" where
  "Miss_count memid lvl cnt = update_stats (\<lambda>l. l \<lparr> missCount := missCount l + ucast cnt \<rparr>) memid lvl"

definition Hit :: "u32 \<Rightarrow> u32 \<Rightarrow> CacheStats \<Rightarrow> CacheStats res" where
  "Hit memid lvl = Hit_count memid lvl 1"

definition Miss :: "u32 \<Rightarrow> u32 \<Rightarrow> CacheStats \<Rightarrow> CacheStats res" where
  "Miss memid lvl = Miss_count memid lvl 1"

definition GetHits :: "u32 \<Rightarrow> u32 \<Rightarrow> CacheStats \<Rightarrow> u64 res" where
  "GetHits memid lvl st = rbind (GetLevelStats memid lvl st) (\<lambda>l. Inr (hitCount l))"

definition GetMisses :: "u32 \<Rightarrow> u32 \<Rightarrow> CacheStats \<Rightarrow> u64 res" where
  "GetMisses memid lvl st = rbind (GetLevelStats memid lvl st) (\<lambda>l. Inr (missCount l))"

definition GetHits_all :: "u32 \<Rightarrow> CacheStats \<Rightarrow> u64 res" where
  "GetHits_all lvl st = rfold (\<lambda>i hits. rbind (GetHits (of_nat i) lvl st) (\<lambda>h. Inr (hits + h))) [0..<unat (Capacity st)] 0"

definition GetMisses_all :: "u32 \<Rightarrow> CacheStats \<Rightarrow> u64 res" where
  "GetMisses_all lvl st = rfold (\<lambda>i hits. rbind (GetMisses (of_nat i) lvl st) (\<lambda>h. Inr (hits + h))) [0..<unat (Capacity st)] 0"

definition CacheStats_HasMemId :: "u32 \<Rightarrow> CacheStats \<Rightarrow> bool" where
  "CacheStats_HasMemId memid st \<longleftrightarrow> \<not> memid \<ge> Capacity st"

definition GetAccessCount :: "u32 \<Rightarrow> CacheStats \<Rightarrow> u64 res" where
  "GetAccessCount memid st = rbind (GetLevelStats memid 0 st) (\<lambda>l1. Inr (hitCount l1 + missCount l1))"

text \<open>The numerator of \<open>GetCumulativeHitRate\<close>.\<close>

definition cumulative_hits :: "u32 \<Rightarrow> u32 \<Rightarrow> CacheStats \<Rightarrow> u64 res" where
  "cumulative_hits memid lvl st =
     rfold (\<lambda>i hits. rbind (GetLevelStats memid (of_nat i) st) (\<lambda>l. Inr (hits + hitCount l))) [0..<unat lvl] 0"

fun verify_row :: "u64 \<Rightarrow> LevelStats list \<Rightarrow> bool" where
  "verify_row prevMisses [] \<longleftrightarrow> True"
| "verify_row prevMisses (l # ls) \<longleftrightarrow>
     (if hitCount l + missCount l \<noteq> prevMisses then False else verify_row (missCount l) ls)"

fun verify_memids :: "LevelStats list list \<Rightarrow> bool res" where
  "verify_memids [] = Inr True"
| "verify_memids (row # rows) = rbind (aget row 0) (\<lambda>l.
     if verify_row (missCount l) (tl row) then verify_memids rows else Inr False)"

definition CacheStats_Verify :: "CacheStats \<Rightarrow> bool res" where
  "CacheStats_Verify st = verify_memids (Stats st)"

definition CacheStats_new :: "u32 \<Rightarrow> u32 \<Rightarrow> u32 \<Rightarrow> CacheStats res" where
  "CacheStats_new lvl sysid capacity =
     (let st = \<lparr> LevelCount = lvl, SysId = sysid, Capacity = capacity,
        Stats = replicate (unat capacity) (replicate (unat lvl) no_stats) \<rparr> in
      rbind (CacheStats_Verify st) (\<lambda>ok. ASSERT ok (Inr st)))"

text \<open>The shape the constructor allocates.\<close>

definition stats_shape :: "u32 \<Rightarrow> CacheStats \<Rightarrow> bool" where
  "stats_shape n st \<longleftrightarrow> LevelCount st = n \<and> length (Stats st) = unat (Capacity st) \<and>
     (\<forall>row \<in> set (Stats st). length row = unat n)"

definition level_stats :: "CacheStats \<Rightarrow> u32 \<Rightarrow> nat \<Rightarrow> LevelStats" where
  "level_stats st memid i = Stats st ! unat memid ! i"

lemma GetLevelStats_shape:
  assumes "stats_shape n st" and "memid < Capacity st" and "lvl < n"
  shows "GetLevelStats memid lvl st = Inr (level_stats st memid (unat lvl))"
  using assms by (simp add: GetLevelStats_def stats_shape_def level_stats_def word_less_nat_alt)

lemma update_stats_shape:
  assumes "stats_shape n st" and "memid < Capacity st" and "lvl < n"
  obtains st' where "update_stats f memid lvl st = Inr st'" and "stats_shape n st'" and "Capacity st' = Capacity st"
    and "\<And>m i. m < Capacity st \<Longrightarrow> i < unat n \<Longrightarrow>
      level_stats st' m i = (if m = memid \<and> i = unat lvl then f (level_stats st m i) else level_stats st m i)"
proof
  have b: "unat memid < length (Stats st)" "unat lvl < length (Stats st ! unat memid)"
    using assms by (simp_all add: stats_shape_def word_less_nat_alt)
  let ?st' = "st \<lparr> Stats := (Stats st)[unat memid := (Stats st ! unat memid)[unat lvl := f (Stats st ! unat memid ! unat lvl)]] \<rparr>"
  show "update_stats f memid lvl st = Inr ?st'" using b by (simp add: update_stats_def)
  have "\<forall>row \<in> set (Stats ?st'). length row = unat n"
    using assms(1) b nth_mem [OF b(1)] by (auto simp: stats_shape_def dest!: set_update_subset_insert [THEN subsetD])
  then show "stats_shape n ?st'" using assms(1) by (simp add: stats_shape_def)
  show "Capacity ?st' = Capacity st" by simp
  show "level_stats ?st' m i = (if m = memid \<and> i = unat lvl then f (level_stats st m i) else level_stats st m i)"
    if "m < Capacity st" "i < unat n" for m i
    using b that assms(1) by (auto simp: level_stats_def nth_list_update stats_shape_def dest: word_eq_unatI)
qed

text \<open>\<open>Verify\<close> as a property of every memory operation and every pair of levels.\<close>

definition consistent :: "u32 \<Rightarrow> CacheStats \<Rightarrow> bool" where
  "consistent n st \<longleftrightarrow> (\<forall>m < Capacity st. \<forall>i. Suc i < unat n \<longrightarrow>
     hitCount (level_stats st m (Suc i)) + missCount (level_stats st m (Suc i)) = missCount (level_stats st m i))"

lemma verify_row_iff: "verify_row p ls \<longleftrightarrow> (\<forall>i < length ls. hitCount (ls ! i) + missCount (ls ! i) =
    (case i of 0 \<Rightarrow> p | Suc j \<Rightarrow> missCount (ls ! j)))"
proof (induction ls arbitrary: p)
  case (Cons l ls)
  have "(\<forall>i < length (l # ls). hitCount ((l # ls) ! i) + missCount ((l # ls) ! i) = (case i of 0 \<Rightarrow> p | Suc j \<Rightarrow> missCount ((l # ls) ! j)))
    \<longleftrightarrow> hitCount l + missCount l = p \<and> (\<forall>i < length ls. hitCount (ls ! i) + missCount (ls ! i) = missCount ((l # ls) ! i))"
    by (simp add: All_less_Suc2)
  also have "(\<forall>i < length ls. hitCount (ls ! i) + missCount (ls ! i) = missCount ((l # ls) ! i)) \<longleftrightarrow> verify_row (missCount l) ls"
    unfolding Cons.IH by (intro all_cong) (simp split: nat.split)
  finally show ?case by simp
qed simp

lemma verify_memids_iff:
  assumes "\<forall>row \<in> set rows. row \<noteq> []"
  shows "verify_memids rows = Inr (\<forall>row \<in> set rows. \<forall>i. Suc i < length row \<longrightarrow>
    hitCount (row ! Suc i) + missCount (row ! Suc i) = missCount (row ! i))"
  using assms
proof (induction rows)
  case (Cons row rows)
  obtain l ls where row: "row = l # ls" using Cons.prems by (cases row) auto
  have "verify_row (missCount l) ls \<longleftrightarrow>
    (\<forall>i. Suc i < length row \<longrightarrow> hitCount (row ! Suc i) + missCount (row ! Suc i) = missCount (row ! i))"
    unfolding verify_row_iff row by (simp, intro all_cong, simp split: nat.split)
  with Cons show ?case by (auto simp: row)
qed simp

lemma CacheStats_Verify_iff:
  assumes "stats_shape n st" and "0 < n"
  shows "CacheStats_Verify st = Inr (consistent n st)"
proof -
  have n: "0 < unat n" using assms(2) by (simp add: word_less_nat_alt)
  have "\<forall>row \<in> set (Stats st). row \<noteq> []" using assms(1) n by (auto simp: stats_shape_def)
  from verify_memids_iff [OF this] have "CacheStats_Verify st = Inr (\<forall>row \<in> set (Stats st). \<forall>i. Suc i < length row \<longrightarrow>
    hitCount (row ! Suc i) + missCount (row ! Suc i) = missCount (row ! i))" by (simp add: CacheStats_Verify_def)
  also have "(\<forall>row \<in> set (Stats st). \<forall>i. Suc i < length row \<longrightarrow>
    hitCount (row ! Suc i) + missCount (row ! Suc i) = missCount (row ! i)) \<longleftrightarrow> consistent n st"
  proof -
    have "(\<forall>row \<in> set (Stats st). P row) \<longleftrightarrow> (\<forall>m < Capacity st. P (Stats st ! unat m))" for P
    proof
      assume a: "\<forall>m < Capacity st. P (Stats st ! unat m)"
      show "\<forall>row \<in> set (Stats st). P row"
      proof
        fix row assume "row \<in> set (Stats st)"
        then obtain k where k: "k < unat (Capacity st)" "row = Stats st ! k"
          using assms(1) by (auto simp: in_set_conv_nth stats_shape_def)
        have "unat (of_nat k :: u32) = k" by (rule of_nat_u32) (use k(1) u32_lt [of "Capacity st"] in simp)
        then show "P row" using a k by (metis word_less_nat_alt)
      qed
    qed (use assms(1) in \<open>auto simp: stats_shape_def word_less_nat_alt\<close>)
    then show ?thesis using assms(1) by (auto simp: consistent_def level_stats_def stats_shape_def word_less_nat_alt)
  qed
  finally show ?thesis .
qed

lemma CacheStats_new_consistent:
  assumes "0 < lvl"
  obtains st where "CacheStats_new lvl sysid capacity = Inr st" and "stats_shape lvl st" and "consistent lvl st"
    and "Capacity st = capacity" and "\<And>m i. m < capacity \<Longrightarrow> i < unat lvl \<Longrightarrow> level_stats st m i = no_stats"
proof -
  let ?st = "\<lparr> LevelCount = lvl, SysId = sysid, Capacity = capacity,
    Stats = replicate (unat capacity) (replicate (unat lvl) no_stats) \<rparr>"
  have sh: "stats_shape lvl ?st" by (simp add: stats_shape_def)
  have z: "level_stats ?st m i = no_stats" if "m < capacity" "i < unat lvl" for m i
    using that by (simp add: level_stats_def word_less_nat_alt)
  then have c: "consistent lvl ?st" by (simp add: consistent_def no_stats_def)
  have "CacheStats_new lvl sysid capacity = Inr ?st"
    using CacheStats_Verify_iff [OF sh assms] c by (simp add: CacheStats_new_def Let_def)
  then show ?thesis using sh c z by (intro that [of ?st]) simp_all
qed

section \<open>Address ranges\<close>

record AddressRange =
  Minimum :: u64
  Maximum :: u64

record RangeStats =
  range_Capacity :: u32
  Ranges :: "AddressRange list"
  Counts :: "u64 list"

definition RangeStats_new :: "u32 \<Rightarrow> RangeStats" where
  "RangeStats_new capacity = \<lparr> range_Capacity = capacity,
     Ranges = replicate (unat capacity) \<lparr> Minimum = 0xffffffffffffffff, Maximum = 0 \<rparr>,
     Counts = replicate (unat capacity) 0 \<rparr>"

definition RangeStats_HasMemId :: "u32 \<Rightarrow> RangeStats \<Rightarrow> bool" where
  "RangeStats_HasMemId memid rs \<longleftrightarrow> memid < range_Capacity rs"

definition GetMinimum :: "u32 \<Rightarrow> RangeStats \<Rightarrow> u64 res" where
  "GetMinimum memid rs = ASSERT (RangeStats_HasMemId memid rs) (rbind (aget (Ranges rs) (unat memid)) (\<lambda>r. Inr (Minimum r)))"

definition GetMaximum :: "u32 \<Rightarrow> RangeStats \<Rightarrow> u64 res" where
  "GetMaximum memid rs = ASSERT (RangeStats_HasMemId memid rs) (rbind (aget (Ranges rs) (unat memid)) (\<lambda>r. Inr (Maximum r)))"

definition RangeStats_GetAccessCount :: "u32 \<Rightarrow> RangeStats \<Rightarrow> u64 res" where
  "RangeStats_GetAccessCount memid rs = aget (Counts rs) (unat memid)"

definition widen :: "u64 \<Rightarrow> AddressRange \<Rightarrow> AddressRange" where
  "widen addr r = (let r = (if addr < Minimum r then r \<lparr> Minimum := addr \<rparr> else r) in
     if addr > Maximum r then r \<lparr> Maximum := addr \<rparr> else r)"

definition RangeStats_Update_count :: "u32 \<Rightarrow> u64 \<Rightarrow> u32 \<Rightarrow> RangeStats \<Rightarrow> RangeStats res" where
  "RangeStats_Update_count memid addr count rs =
     rbind (aget (Ranges rs) (unat memid)) (\<lambda>r.
     rbind (aget (Counts rs) (unat memid)) (\<lambda>c.
     Inr (rs \<lparr> Ranges := (Ranges rs)[unat memid := widen addr r],
               Counts := (Counts rs)[unat memid := c + ucast count] \<rparr>)))"

definition RangeStats_Update :: "u32 \<Rightarrow> u64 \<Rightarrow> RangeStats \<Rightarrow> RangeStats res" where
  "RangeStats_Update memid addr = RangeStats_Update_count memid addr 1"

record BufferEntry =
  address :: u64
  memseq :: u64
  imageid :: u64
  threadid :: u64

definition AddressRange_Process :: "BufferEntry \<Rightarrow> RangeStats \<Rightarrow> RangeStats res" where
  "AddressRange_Process access rs = RangeStats_Update (ucast (memseq access)) (address access) rs"

text \<open>What the ranges hold after a trace: the number of accesses of each memory operation and their extremes.\<close>

definition of_memop :: "nat \<Rightarrow> BufferEntry list \<Rightarrow> u64 list" where
  "of_memop m t = map address (filter (\<lambda>a. unat (ucast (memseq a) :: u32) = m) t)"

definition ranges_of :: "u32 \<Rightarrow> BufferEntry list \<Rightarrow> RangeStats" where
  "ranges_of capacity t = \<lparr> range_Capacity = capacity,
     Ranges = map (\<lambda>m. \<lparr> Minimum = fold min (of_memop m t) 0xffffffffffffffff, Maximum = fold max (of_memop m t) 0 \<rparr>)
       [0..<unat capacity],
     Counts = map (\<lambda>m. of_nat (length (of_memop m t))) [0..<unat capacity] \<rparr>"

lemma widen_min_max: "r \<lparr> Minimum := a, Maximum := b \<rparr> = r' \<Longrightarrow>
    widen x r' = r \<lparr> Minimum := min x a, Maximum := max x b \<rparr>"
  by (auto simp: widen_def Let_def min_def max_def)

lemma of_memop_snoc: "of_memop m (t @ [a]) =
    of_memop m t @ (if unat (ucast (memseq a) :: u32) = m then [address a] else [])"
  by (simp add: of_memop_def)

lemma ranges_of_step:
  assumes "(ucast (memseq a) :: u32) < capacity"
  shows "AddressRange_Process a (ranges_of capacity t) = Inr (ranges_of capacity (t @ [a]))"
proof -
  define m where "m = unat (ucast (memseq a) :: u32)"
  have m: "m < unat capacity" using assms by (simp add: m_def word_less_nat_alt)
  have "AddressRange_Process a (ranges_of capacity t) = Inr (ranges_of capacity t
      \<lparr> Ranges := (Ranges (ranges_of capacity t))[m := widen (address a) (Ranges (ranges_of capacity t) ! m)],
        Counts := (Counts (ranges_of capacity t))[m := Counts (ranges_of capacity t) ! m + 1] \<rparr>)"
    using m by (simp add: AddressRange_Process_def RangeStats_Update_def RangeStats_Update_count_def
        ranges_of_def m_def [symmetric])
  also have "\<dots> = Inr (ranges_of capacity (t @ [a]))"
  proof -
    have "(Ranges (ranges_of capacity t))[m := widen (address a) (Ranges (ranges_of capacity t) ! m)] =
        Ranges (ranges_of capacity (t @ [a]))"
      using m by (intro nth_equalityI)
        (auto simp: ranges_of_def nth_list_update of_memop_snoc m_def [symmetric] widen_def Let_def min_def max_def)
    moreover have "(Counts (ranges_of capacity t))[m := Counts (ranges_of capacity t) ! m + 1] =
        Counts (ranges_of capacity (t @ [a]))"
      using m by (intro nth_equalityI)
        (auto simp: ranges_of_def nth_list_update of_memop_snoc m_def [symmetric])
    ultimately show ?thesis by (simp add: ranges_of_def)
  qed
  finally show ?thesis .
qed

lemma ranges_of_Nil: "RangeStats_new capacity = ranges_of capacity []"
  by (simp add: RangeStats_new_def ranges_of_def of_memop_def map_replicate_const)

text \<open>
  C40. After a sequence of accesses each memory operation has the extremes and the number of its own
  addresses.
\<close>

theorem AddressRange_trace:
  assumes "\<forall>a \<in> set t. (ucast (memseq a) :: u32) < capacity"
  shows "rfold AddressRange_Process t (RangeStats_new capacity) = Inr (ranges_of capacity t)"
  using assms
proof (induction t rule: rev_induct)
  case (snoc a t)
  then show ?case by (simp add: rfold_append ranges_of_step)
qed (simp add: ranges_of_Nil)

lemma AddressRange_trace_witness:
  "rfold AddressRange_Process [\<lparr> address = 64, memseq = 0, imageid = 1, threadid = 1 \<rparr>,
     \<lparr> address = 32, memseq = 0, imageid = 1, threadid = 1 \<rparr>] (RangeStats_new 1) =
   Inr \<lparr> range_Capacity = 1, Ranges = [\<lparr> Minimum = 32, Maximum = 64 \<rparr>], Counts = [2] \<rparr>"
proof -
  let ?t = "[\<lparr> address = 64, memseq = 0, imageid = 1, threadid = 1 \<rparr>, \<lparr> address = 32, memseq = 0, imageid = 1, threadid = 1 \<rparr>]"
  have "rfold AddressRange_Process ?t (RangeStats_new 1) = Inr (ranges_of 1 ?t)"
    by (rule AddressRange_trace) simp
  moreover have "ranges_of 1 ?t = \<lparr> range_Capacity = 1, Ranges = [\<lparr> Minimum = 32, Maximum = 64 \<rparr>], Counts = [2] \<rparr>"
    by code_simp
  ultimately show ?thesis by (simp only:)
qed

section \<open>Sampling\<close>

record SamplingMethod =
  AccessLimit :: u32
  SampleOn :: u32
  SampleOff :: u32
  AccessCount :: u64

definition SamplingMethod_new :: "u32 \<Rightarrow> u32 \<Rightarrow> u32 \<Rightarrow> SamplingMethod" where
  "SamplingMethod_new limit on off = \<lparr> AccessLimit = limit, SampleOn = on, SampleOff = off, AccessCount = 0 \<rparr>"

definition IncrementAccessCount :: "u64 \<Rightarrow> SamplingMethod \<Rightarrow> SamplingMethod" where
  "IncrementAccessCount count s = s \<lparr> AccessCount := AccessCount s + count \<rparr>"

definition CurrentlySampling_at :: "u64 \<Rightarrow> SamplingMethod \<Rightarrow> bool res" where
  "CurrentlySampling_at count s = (let PeriodLength = SampleOn s + SampleOff s in
     if SampleOn s = 0 then Inr False
     else let res = (PeriodLength = 0) in
       rbind (umod (AccessCount s + count) (ucast PeriodLength)) (\<lambda>x.
       Inr (if x < ucast (SampleOn s) then True else res)))"

definition CurrentlySampling :: "SamplingMethod \<Rightarrow> bool res" where
  "CurrentlySampling = CurrentlySampling_at 0"

definition SwitchesMode :: "u64 \<Rightarrow> SamplingMethod \<Rightarrow> bool res" where
  "SwitchesMode count s = rbind (CurrentlySampling_at 0 s) (\<lambda>a. rbind (CurrentlySampling_at count s) (\<lambda>b. Inr (a \<noteq> b)))"

definition ExceedsAccessLimit :: "u64 \<Rightarrow> SamplingMethod \<Rightarrow> bool" where
  "ExceedsAccessLimit count s \<longleftrightarrow> AccessLimit s > 0 \<and> count > ucast (AccessLimit s)"

lemma CurrentlySampling_iff:
  assumes "0 < SampleOn s" and "unat (SampleOn s) + unat (SampleOff s) < 2 ^ 32"
    and "unat (AccessCount s) + unat count < 2 ^ 64"
  shows "CurrentlySampling_at count s = Inr ((unat (AccessCount s) + unat count) mod
    (unat (SampleOn s) + unat (SampleOff s)) < unat (SampleOn s))"
proof -
  have p: "unat (SampleOn s + SampleOff s) = unat (SampleOn s) + unat (SampleOff s)"
    using assms(2) by (intro unat_add_lem [THEN iffD1]) simp
  have a: "unat (AccessCount s + count) = unat (AccessCount s) + unat count"
    using assms(3) by (intro unat_add_lem [THEN iffD1]) simp
  have on: "0 < unat (SampleOn s)" using assms(1) by (simp add: word_less_nat_alt)
  have nz: "SampleOn s + SampleOff s \<noteq> 0"
  proof
    assume "SampleOn s + SampleOff s = 0"
    then have "unat (SampleOn s + SampleOff s) = 0" by simp
    with p on show False by simp
  qed
  have nz': "(ucast (SampleOn s + SampleOff s) :: u64) \<noteq> 0"
  proof
    assume "(ucast (SampleOn s + SampleOff s) :: u64) = 0"
    then have "unat (ucast (SampleOn s + SampleOff s) :: u64) = 0" by simp
    with p on show False by simp
  qed
  have "SampleOn s \<noteq> 0" using assms(1) by auto
  then show ?thesis using nz nz'
    by (simp add: CurrentlySampling_at_def Let_def word_less_nat_alt unat_mod p a)
qed

text \<open>
  The guard for an empty period is not a return: the remainder is still taken. The period is
  empty when the two lengths add up to \<open>2 ^ 32\<close>.
\<close>

lemma CurrentlySampling_empty_period:
  "CurrentlySampling_at count (SamplingMethod_new 0 0x80000000 0x80000000) = Inl DivByZero"
  by (simp add: CurrentlySampling_at_def SamplingMethod_new_def umod_def Let_def)

end
