(* ===== verification/Cache_Level.thy ===== *)
theory Cache_Level
  imports Cache_Stats
begin

text \<open>
  One level of the simulated cache: the class \<open>CacheLevel\<close> of \<open>instcode/Simulation.hpp\<close> and
  \<open>instcode/Simulation.cpp\<close> and the classes derived from it. A virtual call is resolved by the
  field \<open>ctype\<close>, which every \<open>Init\<close> sets. An array that \<open>Init\<close> leaves \<open>NULL\<close> has no elements.
  The value \<open>rand()\<close> returns is the argument \<open>rnd\<close>.
\<close>

section \<open>Data\<close>

datatype CacheLevelType =
    CacheLevelType_Undefined
  | CacheLevelType_InclusiveLowassoc
  | CacheLevelType_ExclusiveLowassoc
  | CacheLevelType_InclusiveHighassoc
  | CacheLevelType_ExclusiveHighassoc

datatype ReplacementPolicy =
    ReplacementPolicy_Undefined
  | ReplacementPolicy_trulru
  | ReplacementPolicy_nmru
  | ReplacementPolicy_random
  | ReplacementPolicy_direct

record EvictionInfo =
  evict_addr :: u64
  evict_level :: u32
  evict_setid :: u32
  evict_lineid :: u32

definition INVALID_CACHE_LEVEL :: u32 where
  "INVALID_CACHE_LEVEL = 0xffffffff"

record CacheLevel =
  ctype :: CacheLevelType
  level :: u32
  sizeInBytes :: u32
  associativity :: u32
  linesize :: u32
  replpolicy :: ReplacementPolicy
  countsets :: u32
  linesizeBits :: u32
  contents :: "u64 list list"
  recentlyUsed :: "u32 list"
  historyUsed :: "history list list"
  fastcontents :: "(u64 \<rightharpoonup> u32) list"
  FirstExclusive :: u32
  LastExclusive :: u32

definition IsExclusive :: "CacheLevel \<Rightarrow> bool" where
  "IsExclusive c \<longleftrightarrow> ctype c = CacheLevelType_ExclusiveLowassoc \<or> ctype c = CacheLevelType_ExclusiveHighassoc"

definition high_assoc :: "CacheLevel \<Rightarrow> bool" where
  "high_assoc c \<longleftrightarrow> ctype c = CacheLevelType_InclusiveHighassoc \<or> ctype c = CacheLevelType_ExclusiveHighassoc"

section \<open>Construction\<close>

function line_bits :: "u32 \<Rightarrow> u32 \<Rightarrow> u32" where
  "line_bits bits lineSz = (if lineSz > 0 then line_bits (bits + 1) (drop_bit 1 lineSz) else bits)"
  by auto
termination
proof (relation "measure (\<lambda>(bits, lineSz). unat lineSz)")
  show "((bits + 1, drop_bit 1 lineSz), bits, lineSz) \<in> measure (\<lambda>(bits, lineSz). unat lineSz)"
    if "lineSz > 0" for bits lineSz :: u32
    using that by (simp add: unat_drop_bit word_less_nat_alt)
qed simp

declare line_bits.simps [simp del]

definition CacheLevel_Init :: "u32 \<Rightarrow> u32 \<Rightarrow> u32 \<Rightarrow> u32 \<Rightarrow> ReplacementPolicy \<Rightarrow> CacheLevel res" where
  "CacheLevel_Init lvl sizeBytes assoc lineSz pol =
     (if lineSz * assoc = 0 then Inl DivByZero else
      let sets = sizeBytes div (lineSz * assoc);
          c = \<lparr> ctype = CacheLevelType_Undefined, level = lvl, sizeInBytes = sizeBytes, associativity = assoc,
            linesize = lineSz, replpolicy = pol, countsets = sets, linesizeBits = line_bits 0 lineSz - 1,
            contents = replicate (unat sets) (replicate (unat assoc) 0), recentlyUsed = [], historyUsed = [],
            fastcontents = [], FirstExclusive = 0, LastExclusive = 0 \<rparr>
      in if pol = ReplacementPolicy_nmru then Inr (c \<lparr> recentlyUsed := replicate (unat sets) 0 \<rparr>)
         else if pol = ReplacementPolicy_trulru then
           rbind (init_history assoc) (\<lambda>h.
           Inr (c \<lparr> recentlyUsed := replicate (unat sets) 0, historyUsed := replicate (unat sets) h \<rparr>))
         else Inr c)"

definition HighlyAssociative_Init :: "u32 \<Rightarrow> CacheLevel \<Rightarrow> CacheLevel res" where
  "HighlyAssociative_Init MinimumHighAssociativity c =
     ASSERT (associativity c \<ge> MinimumHighAssociativity)
       (Inr (c \<lparr> fastcontents := replicate (unat (countsets c)) Map.empty \<rparr>))"

definition Inclusive_Init :: "u32 \<Rightarrow> u32 \<Rightarrow> u32 \<Rightarrow> u32 \<Rightarrow> ReplacementPolicy \<Rightarrow> CacheLevel res" where
  "Inclusive_Init lvl sizeBytes assoc lineSz pol =
     rbind (CacheLevel_Init lvl sizeBytes assoc lineSz pol) (\<lambda>c.
     Inr (c \<lparr> ctype := CacheLevelType_InclusiveLowassoc \<rparr>))"

definition Exclusive_Init :: "u32 \<Rightarrow> u32 \<Rightarrow> u32 \<Rightarrow> u32 \<Rightarrow> ReplacementPolicy \<Rightarrow> u32 \<Rightarrow> u32 \<Rightarrow> CacheLevel res" where
  "Exclusive_Init lvl sizeBytes assoc lineSz pol firstExcl lastExcl =
     rbind (CacheLevel_Init lvl sizeBytes assoc lineSz pol) (\<lambda>c.
     Inr (c \<lparr> ctype := CacheLevelType_ExclusiveLowassoc, FirstExclusive := firstExcl, LastExclusive := lastExcl \<rparr>))"

definition HighlyAssociativeInclusive_Init ::
  "u32 \<Rightarrow> u32 \<Rightarrow> u32 \<Rightarrow> u32 \<Rightarrow> u32 \<Rightarrow> ReplacementPolicy \<Rightarrow> CacheLevel res" where
  "HighlyAssociativeInclusive_Init mha lvl sizeBytes assoc lineSz pol =
     rbind (Inclusive_Init lvl sizeBytes assoc lineSz pol) (\<lambda>c.
     rbind (HighlyAssociative_Init mha c) (\<lambda>c.
     Inr (c \<lparr> ctype := CacheLevelType_InclusiveHighassoc \<rparr>)))"

definition HighlyAssociativeExclusive_Init ::
  "u32 \<Rightarrow> u32 \<Rightarrow> u32 \<Rightarrow> u32 \<Rightarrow> u32 \<Rightarrow> ReplacementPolicy \<Rightarrow> u32 \<Rightarrow> u32 \<Rightarrow> CacheLevel res" where
  "HighlyAssociativeExclusive_Init mha lvl sizeBytes assoc lineSz pol firstExcl lastExcl =
     rbind (Exclusive_Init lvl sizeBytes assoc lineSz pol firstExcl lastExcl) (\<lambda>c.
     rbind (HighlyAssociative_Init mha c) (\<lambda>c.
     Inr (c \<lparr> ctype := CacheLevelType_ExclusiveHighassoc \<rparr>)))"

section \<open>Operations\<close>

definition CountColdMisses :: "CacheLevel \<Rightarrow> u64" where
  "CountColdMisses c = ucast (countsets c * associativity c)"

definition GetStorage :: "u64 \<Rightarrow> CacheLevel \<Rightarrow> u64" where
  "GetStorage addr c = drop_bit (unat (linesizeBits c)) addr"

definition GetSet :: "u64 \<Rightarrow> CacheLevel \<Rightarrow> u32 res" where
  "GetSet store c = rbind (umod store (ucast (countsets c))) (\<lambda>s. Inr (ucast s))"

definition RandomInt :: "u32 \<Rightarrow> u32 \<Rightarrow> u32 res" where
  "RandomInt rnd m = umod rnd m"

definition LineToReplace :: "u32 \<Rightarrow> u32 \<Rightarrow> CacheLevel \<Rightarrow> u32 res" where
  "LineToReplace rnd setid c =
     (if replpolicy c = ReplacementPolicy_nmru then
        rbind (aget (recentlyUsed c) (unat setid)) (\<lambda>r. umod (r + 1) (associativity c))
      else if replpolicy c = ReplacementPolicy_trulru then aget (recentlyUsed c) (unat setid)
      else if replpolicy c = ReplacementPolicy_random then RandomInt rnd (associativity c)
      else if replpolicy c = ReplacementPolicy_direct then Inr 0
      else Inl AssertFailed)"

definition MarkUsed :: "u32 \<Rightarrow> u32 \<Rightarrow> CacheLevel \<Rightarrow> CacheLevel res" where
  "MarkUsed setid lineid c =
     (if replpolicy c = ReplacementPolicy_nmru then
        rbind (aput (unat setid) lineid (recentlyUsed c)) (\<lambda>r. Inr (c \<lparr> recentlyUsed := r \<rparr>))
      else if replpolicy c = ReplacementPolicy_trulru then
        rbind (aget (recentlyUsed c) (unat setid)) (\<lambda>head.
        rbind (aget (historyUsed c) (unat setid)) (\<lambda>h.
        rbind (mark_history lineid (head, h)) (\<lambda>(head, h).
        Inr (c \<lparr> recentlyUsed := (recentlyUsed c)[unat setid := head],
                 historyUsed := (historyUsed c)[unat setid := h] \<rparr>))))
      else Inr c)"

definition replace_contents :: "u64 \<Rightarrow> u32 \<Rightarrow> u32 \<Rightarrow> CacheLevel \<Rightarrow> (CacheLevel \<times> u64) res" where
  "replace_contents store setid lineid c =
     rbind (aget (contents c) (unat setid)) (\<lambda>row.
     rbind (aget row (unat lineid)) (\<lambda>old.
     Inr (c \<lparr> contents := (contents c)[unat setid := row[unat lineid := store]] \<rparr>, old)))"

definition CacheLevel_Replace :: "u64 \<Rightarrow> u32 \<Rightarrow> u32 \<Rightarrow> CacheLevel \<Rightarrow> (CacheLevel \<times> u64) res" where
  "CacheLevel_Replace store setid lineid c =
     rbind (replace_contents store setid lineid c) (\<lambda>(c, old).
     rbind (MarkUsed setid lineid c) (\<lambda>c. Inr (c, old)))"

definition HighlyAssociative_Replace :: "u64 \<Rightarrow> u32 \<Rightarrow> u32 \<Rightarrow> CacheLevel \<Rightarrow> (CacheLevel \<times> u64) res" where
  "HighlyAssociative_Replace store setid lineid c =
     rbind (replace_contents store setid lineid c) (\<lambda>(c, old).
     rbind (aget (fastcontents c) (unat setid)) (\<lambda>fastset.
     let fastset = (if fastset old \<noteq> None then fastset(old := None) else fastset);
         c = c \<lparr> fastcontents := (fastcontents c)[unat setid := fastset(store \<mapsto> lineid)] \<rparr> in
     rbind (MarkUsed setid lineid c) (\<lambda>c. Inr (c, old))))"

definition Replace :: "u64 \<Rightarrow> u32 \<Rightarrow> u32 \<Rightarrow> CacheLevel \<Rightarrow> (CacheLevel \<times> u64) res" where
  "Replace store setid lineid c =
     (if high_assoc c then HighlyAssociative_Replace else CacheLevel_Replace) store setid lineid c"

text \<open>The scan of a set for a line that holds \<open>store\<close>.\<close>

fun scan_set :: "u64 \<Rightarrow> u64 list \<Rightarrow> nat \<Rightarrow> nat \<Rightarrow> u32 option res" where
  "scan_set store row i 0 = Inr None"
| "scan_set store row i (Suc k) = rbind (aget row i) (\<lambda>v.
     if v = store then Inr (Some (of_nat i)) else scan_set store row (Suc i) k)"

text \<open>A search gives the set, and the line if the store was found.\<close>

definition CacheLevel_Search :: "u64 \<Rightarrow> CacheLevel \<Rightarrow> (u32 \<times> u32 option) res" where
  "CacheLevel_Search store c =
     rbind (GetSet store c) (\<lambda>setId.
     rbind (aget (contents c) (unat setId)) (\<lambda>thisset.
     rbind (scan_set store thisset 0 (unat (associativity c))) (\<lambda>l. Inr (setId, l))))"

definition HighlyAssociative_Search :: "u64 \<Rightarrow> CacheLevel \<Rightarrow> (u32 \<times> u32 option) res" where
  "HighlyAssociative_Search store c =
     rbind (GetSet store c) (\<lambda>setId.
     rbind (aget (fastcontents c) (unat setId)) (\<lambda>fastset. Inr (setId, fastset store)))"

definition Search :: "u64 \<Rightarrow> CacheLevel \<Rightarrow> (u32 \<times> u32 option) res" where
  "Search store c = (if high_assoc c then HighlyAssociative_Search else CacheLevel_Search) store c"

text \<open>What \<open>Process\<close> works on: the level, the counters and the eviction record.\<close>

type_synonym pstate = "CacheLevel \<times> CacheStats \<times> EvictionInfo"

definition CacheLevel_Process :: "u32 \<Rightarrow> u32 \<Rightarrow> u64 \<Rightarrow> pstate \<Rightarrow> (pstate \<times> u32) res" where
  "CacheLevel_Process rnd memid addr = (\<lambda>(c, stats, e).
     let store = GetStorage addr c in
     rbind (Search store c) (\<lambda>(set, found).
     case found of
       Some lineInSet \<Rightarrow>
         rbind (Hit memid (level c) stats) (\<lambda>stats.
         rbind (MarkUsed set lineInSet c) (\<lambda>c. Inr ((c, stats, e), INVALID_CACHE_LEVEL)))
     | None \<Rightarrow>
         rbind (Miss memid (level c) stats) (\<lambda>stats.
         rbind (LineToReplace rnd set c) (\<lambda>line.
         rbind (Replace store set line c) (\<lambda>(c, _). Inr ((c, stats, e), level c + 1))))))"

definition Exclusive_Process :: "u32 \<Rightarrow> u32 \<Rightarrow> u64 \<Rightarrow> pstate \<Rightarrow> (pstate \<times> u32) res" where
  "Exclusive_Process rnd memid addr = (\<lambda>(c, stats, e).
     let store = GetStorage addr c in
     if evict_level e \<noteq> INVALID_CACHE_LEVEL then
       rbind (GetSet (evict_addr e) c) (\<lambda>set.
       rbind (LineToReplace rnd set c) (\<lambda>lineInSet.
       let lineInSet = (if level c = evict_level e \<and> evict_setid e = set then evict_lineid e else lineInSet) in
       rbind (Replace (evict_addr e) set lineInSet c) (\<lambda>(c, old).
       Inr ((c, stats, e \<lparr> evict_addr := old \<rparr>),
         if level c = evict_level e then INVALID_CACHE_LEVEL else level c + 1))))
     else
       rbind (Search store c) (\<lambda>(set, found).
       case found of
         Some lineInSet \<Rightarrow>
           rbind (Hit memid (level c) stats) (\<lambda>stats.
           rbind (MarkUsed set lineInSet c) (\<lambda>c.
           Inr ((c, stats, \<lparr> evict_addr = store, evict_level = level c, evict_setid = set, evict_lineid = lineInSet \<rparr>),
             if level c = FirstExclusive c then INVALID_CACHE_LEVEL else FirstExclusive c)))
       | None \<Rightarrow>
           rbind (Miss memid (level c) stats) (\<lambda>stats.
           if level c = LastExclusive c then
             Inr ((c, stats, e \<lparr> evict_level := LastExclusive c + 1, evict_addr := store \<rparr>), FirstExclusive c)
           else Inr ((c, stats, e), level c + 1))))"

definition Level_Process :: "u32 \<Rightarrow> u32 \<Rightarrow> u64 \<Rightarrow> pstate \<Rightarrow> (pstate \<times> u32) res" where
  "Level_Process rnd memid addr s = (if IsExclusive (fst s) then Exclusive_Process else CacheLevel_Process) rnd memid addr s"

section \<open>Well-formed levels\<close>

definition config :: "CacheLevel \<Rightarrow> CacheLevel" where
  "config c = c \<lparr> contents := [], recentlyUsed := [], historyUsed := [], fastcontents := [] \<rparr>"

lemma config_fields:
  assumes "config c' = config c"
  shows "ctype c' = ctype c" "level c' = level c" "associativity c' = associativity c"
    "replpolicy c' = replpolicy c" "countsets c' = countsets c" "linesizeBits c' = linesizeBits c"
    "FirstExclusive c' = FirstExclusive c" "LastExclusive c' = LastExclusive c"
    "high_assoc c' = high_assoc c" "IsExclusive c' = IsExclusive c" "GetStorage a c' = GetStorage a c"
    "GetSet a c' = GetSet a c"
  using assms by (cases c; cases c'; simp add: config_def high_assoc_def IsExclusive_def GetStorage_def GetSet_def)+

definition lru_wf :: "CacheLevel \<Rightarrow> bool" where
  "lru_wf c \<longleftrightarrow> length (recentlyUsed c) = unat (countsets c) \<and> length (historyUsed c) = unat (countsets c) \<and>
     (\<forall>s < unat (countsets c). length (historyUsed c ! s) = unat (associativity c) \<and>
       (\<exists>xs. lru_order (recentlyUsed c ! s, historyUsed c ! s) xs))"

definition nmru_wf :: "CacheLevel \<Rightarrow> bool" where
  "nmru_wf c \<longleftrightarrow> length (recentlyUsed c) = unat (countsets c) \<and> (\<forall>r \<in> set (recentlyUsed c). r < associativity c)"

definition fast_wf :: "CacheLevel \<Rightarrow> bool" where
  "fast_wf c \<longleftrightarrow> length (fastcontents c) = unat (countsets c) \<and>
     (\<forall>s < unat (countsets c). \<forall>x l. (fastcontents c ! s) x = Some l \<longrightarrow>
       unat l < unat (associativity c) \<and> contents c ! s ! unat l = x)"

definition rows_wf :: "CacheLevel \<Rightarrow> bool" where
  "rows_wf c \<longleftrightarrow> 0 < countsets c \<and> 0 < associativity c \<and> length (contents c) = unat (countsets c) \<and>
     (\<forall>s < unat (countsets c). length (contents c ! s) = unat (associativity c))"

definition level_wf :: "CacheLevel \<Rightarrow> bool" where
  "level_wf c \<longleftrightarrow> rows_wf c \<and> replpolicy c \<noteq> ReplacementPolicy_Undefined \<and>
     (replpolicy c = ReplacementPolicy_trulru \<longrightarrow> lru_wf c) \<and> (replpolicy c = ReplacementPolicy_nmru \<longrightarrow> nmru_wf c) \<and>
     (high_assoc c \<longrightarrow> fast_wf c)"

lemma level_wfD:
  assumes "level_wf c"
  shows "countsets c \<noteq> 0" "associativity c \<noteq> 0" "length (contents c) = unat (countsets c)"
    "s < unat (countsets c) \<Longrightarrow> length (contents c ! s) = unat (associativity c)"
  using assms by (auto simp: level_wf_def rows_wf_def)

lemma GetSet_wf:
  assumes "countsets c \<noteq> 0"
  obtains s where "GetSet store c = Inr s" and "unat s = unat store mod unat (countsets c)" and "s < countsets c"
proof
  define n where "n = unat (countsets c)"
  have n: "0 < n" "n < 4294967296" using assms u32_lt [of "countsets c"] by (simp_all add: n_def unat_gt_0)
  have nz: "(ucast (countsets c) :: u64) \<noteq> 0"
  proof
    assume "(ucast (countsets c) :: u64) = 0"
    then have "unat (ucast (countsets c) :: u64) = 0" by simp
    with n show False by (simp add: n_def)
  qed
  let ?s = "ucast (store mod ucast (countsets c)) :: u32"
  show "GetSet store c = Inr ?s" using nz by (simp add: GetSet_def)
  have lt: "unat store mod n < n" using n by simp
  then show s: "unat ?s = unat store mod unat (countsets c)"
    using n by (simp add: unat_ucast unat_mod n_def)
  show "?s < countsets c" using lt by (simp add: word_less_nat_alt s n_def)
qed

lemma scan_set_eq:
  assumes "i + k \<le> length row" and "i + k < 4294967296"
  shows "\<exists>f. scan_set store row i k = Inr f \<and>
    (case f of None \<Rightarrow> \<forall>j. i \<le> j \<and> j < i + k \<longrightarrow> row ! j \<noteq> store
       | Some l \<Rightarrow> i \<le> unat l \<and> unat l < i + k \<and> row ! unat l = store)"
  using assms
proof (induction k arbitrary: i)
  case (Suc k)
  show ?case
  proof (cases "row ! i = store")
    case True
    then show ?thesis using Suc.prems by (simp add: of_nat_u32)
  next
    case False
    from Suc.IH [of "Suc i"] Suc.prems obtain f where f: "scan_set store row (Suc i) k = Inr f"
      "case f of None \<Rightarrow> \<forall>j. Suc i \<le> j \<and> j < Suc i + k \<longrightarrow> row ! j \<noteq> store
       | Some l \<Rightarrow> Suc i \<le> unat l \<and> unat l < Suc i + k \<and> row ! unat l = store" by auto
    have "scan_set store row i (Suc k) = Inr f" using False Suc.prems f(1) by simp
    moreover have "case f of None \<Rightarrow> \<forall>j. i \<le> j \<and> j < i + Suc k \<longrightarrow> row ! j \<noteq> store
       | Some l \<Rightarrow> i \<le> unat l \<and> unat l < i + Suc k \<and> row ! unat l = store"
    proof (cases f)
      case None
      then show ?thesis using f(2) False by (auto simp: Suc_le_eq) (metis le_neq_implies_less)
    next
      case (Some l)
      then show ?thesis using f(2) by auto
    qed
    ultimately show ?thesis by blast
  qed
qed auto

lemma Search_wf:
  assumes wf: "level_wf c"
  obtains set found where "Search store c = Inr (set, found)" and "GetSet store c = Inr set" and "set < countsets c"
    and "unat set = unat store mod unat (countsets c)"
    and "\<And>l. found = Some l \<Longrightarrow> l < associativity c \<and> contents c ! unat set ! unat l = store"
    and "\<not> high_assoc c \<Longrightarrow> found = None \<Longrightarrow> store \<notin> List.set (contents c ! unat set)"
    and "high_assoc c \<Longrightarrow> found = (fastcontents c ! unat set) store"
proof -
  note D = level_wfD [OF wf]
  obtain s where s: "GetSet store c = Inr s" "unat s = unat store mod unat (countsets c)" "s < countsets c"
    using GetSet_wf [OF D(1)] .
  have su: "unat s < unat (countsets c)" using s(3) by (simp add: word_less_nat_alt)
  show ?thesis
  proof (cases "high_assoc c")
    case True
    then have f: "fast_wf c" using wf by (simp add: level_wf_def)
    then have "Search store c = Inr (s, (fastcontents c ! unat s) store)"
      using True s su by (simp add: Search_def HighlyAssociative_Search_def fast_wf_def)
    then show ?thesis using f su s True
      by (intro that [of s "(fastcontents c ! unat s) store"]) (auto simp: fast_wf_def word_less_nat_alt)
  next
    case False
    have len: "length (contents c ! unat s) = unat (associativity c)" using D(4) su by simp
    obtain f where f: "scan_set store (contents c ! unat s) 0 (unat (associativity c)) = Inr f"
      "case f of None \<Rightarrow> \<forall>j. 0 \<le> j \<and> j < 0 + unat (associativity c) \<longrightarrow> contents c ! unat s ! j \<noteq> store
       | Some l \<Rightarrow> 0 \<le> unat l \<and> unat l < 0 + unat (associativity c) \<and> contents c ! unat s ! unat l = store"
      using scan_set_eq [of 0 "unat (associativity c)" "contents c ! unat s" store] len u32_lt [of "associativity c"] by auto
    have "Search store c = Inr (s, f)"
      using False s su D(3) f(1) by (simp add: Search_def CacheLevel_Search_def)
    then show ?thesis using f(2) s False len
      by (intro that [of s f]) (auto simp: word_less_nat_alt in_set_conv_nth split: option.splits)
  qed
qed

lemma LineToReplace_wf:
  assumes wf: "level_wf c" and s: "s < countsets c"
  obtains l where "LineToReplace rnd s c = Inr l" and "l < associativity c"
    and "replpolicy c = ReplacementPolicy_trulru \<Longrightarrow> l = recentlyUsed c ! unat s"
proof -
  note D = level_wfD [OF wf]
  have su: "unat s < unat (countsets c)" using s by (simp add: word_less_nat_alt)
  have A: "0 < associativity c" using D(2) by (simp add: word_neq_0_conv)
  have md: "x mod associativity c < associativity c" for x :: u32 using A by (rule word_mod_less_divisor)
  show ?thesis
  proof (cases "replpolicy c")
    case ReplacementPolicy_trulru
    then have l: "lru_wf c" using wf by (simp add: level_wf_def)
    then obtain xs where xs: "lru_order (recentlyUsed c ! unat s, historyUsed c ! unat s) xs" using su by (auto simp: lru_wf_def)
    then have "unat (recentlyUsed c ! unat s) < length (historyUsed c ! unat s)" by (auto elim!: lru_orderE)
    then have "recentlyUsed c ! unat s < associativity c" using l su by (simp add: lru_wf_def word_less_nat_alt)
    then show ?thesis using ReplacementPolicy_trulru l su by (intro that) (simp_all add: LineToReplace_def lru_wf_def)
  next
    case ReplacementPolicy_nmru
    then have "nmru_wf c" using wf by (simp add: level_wf_def)
    then show ?thesis using ReplacementPolicy_nmru su D(2) md by (intro that) (simp_all add: LineToReplace_def nmru_wf_def)
  next
    case ReplacementPolicy_random
    then show ?thesis using D(2) md by (intro that) (simp_all add: LineToReplace_def RandomInt_def)
  next
    case ReplacementPolicy_direct
    then show ?thesis using A by (intro that) (simp_all add: LineToReplace_def)
  next
    case ReplacementPolicy_Undefined
    then show ?thesis using wf by (simp add: level_wf_def)
  qed
qed

lemma MarkUsed_wf:
  assumes wf: "level_wf c" and s: "s < countsets c" and l: "l < associativity c"
  obtains c' where "MarkUsed s l c = Inr c'" and "config c' = config c" and "contents c' = contents c"
    and "fastcontents c' = fastcontents c" and "level_wf c'"
    and "\<And>x xs. replpolicy c = ReplacementPolicy_trulru \<Longrightarrow> x < unat (countsets c) \<Longrightarrow>
      lru_order (recentlyUsed c ! x, historyUsed c ! x) xs \<Longrightarrow>
      lru_order (recentlyUsed c' ! x, historyUsed c' ! x) (if x = unat s then removeAll (unat l) xs @ [unat l] else xs)"
proof (cases "replpolicy c = ReplacementPolicy_trulru")
  case False
  show ?thesis
  proof (cases "replpolicy c = ReplacementPolicy_nmru")
    case True
    then have n: "nmru_wf c" using wf by (simp add: level_wf_def)
    let ?c = "c \<lparr> recentlyUsed := (recentlyUsed c)[unat s := l] \<rparr>"
    have "nmru_wf ?c" using n l by (auto simp: nmru_wf_def dest: set_update_subset_insert [THEN subsetD])
    then have "level_wf ?c" using wf False by (simp add: level_wf_def rows_wf_def high_assoc_def fast_wf_def)
    moreover have "MarkUsed s l c = Inr ?c" using True n s by (simp add: MarkUsed_def nmru_wf_def word_less_nat_alt)
    ultimately show ?thesis using False by (intro that [of ?c]) (simp_all add: config_def)
  next
    case F2: False
    then show ?thesis using False wf by (intro that [of c]) (simp_all add: MarkUsed_def)
  qed
next
  case True
  then have L: "lru_wf c" using wf by (simp add: level_wf_def)
  have su: "unat s < unat (countsets c)" using s by (simp add: word_less_nat_alt)
  let ?hd = "recentlyUsed c ! unat s" and ?h = "historyUsed c ! unat s"
  obtain xs where xs: "lru_order (?hd, ?h) xs" using L su by (auto simp: lru_wf_def)
  have lh: "unat l < length ?h" using L su l by (simp add: lru_wf_def word_less_nat_alt)
  obtain hd' h' where m: "mark_history l (?hd, ?h) = Inr (hd', h')" "length h' = length ?h"
    using mark_history_ring [OF xs lh] by metis
  have ord: "lru_order (hd', h') (removeAll (unat l) ys @ [unat l])" if "lru_order (?hd, ?h) ys" for ys
    using mark_history_ring [OF that lh] m(1) by auto
  let ?c = "c \<lparr> recentlyUsed := (recentlyUsed c)[unat s := hd'], historyUsed := (historyUsed c)[unat s := h'] \<rparr>"
  have len: "length (recentlyUsed c) = unat (countsets c)" "length (historyUsed c) = unat (countsets c)"
    using L by (simp_all add: lru_wf_def)
  have run: "MarkUsed s l c = Inr ?c" using True su len m(1) by (simp add: MarkUsed_def)
  have ord': "lru_order (recentlyUsed ?c ! x, historyUsed ?c ! x) (if x = unat s then removeAll (unat l) ys @ [unat l] else ys)"
    if "lru_order (recentlyUsed c ! x, historyUsed c ! x) ys" for x ys
    using that ord [of ys] su len by (cases "x = unat s") simp_all
  have "lru_wf ?c"
    unfolding lru_wf_def
  proof (intro conjI allI impI)
    fix x assume x: "x < unat (countsets ?c)"
    then show "length (historyUsed ?c ! x) = unat (associativity ?c)" using L m(2) su
      by (simp add: lru_wf_def nth_list_update)
    obtain ys where "lru_order (recentlyUsed c ! x, historyUsed c ! x) ys" using L x by (auto simp: lru_wf_def)
    then show "\<exists>ys. lru_order (recentlyUsed ?c ! x, historyUsed ?c ! x) ys" using ord' by blast
  qed (use len in simp_all)
  then have "level_wf ?c" using wf True by (simp add: level_wf_def rows_wf_def high_assoc_def fast_wf_def)
  then show ?thesis using run ord' by (intro that [of ?c]) (simp_all add: config_def)
qed

text \<open>A replacement writes one line, keeps the map of a highly associative level right and marks the line.\<close>

definition fast_replace :: "u64 \<Rightarrow> u64 \<Rightarrow> u32 \<Rightarrow> (u64 \<rightharpoonup> u32) \<Rightarrow> (u64 \<rightharpoonup> u32)" where
  "fast_replace old store l m = (m(old := None))(store \<mapsto> l)"

lemma Replace_wf:
  assumes wf: "level_wf c" and s: "s < countsets c" and l: "l < associativity c"
  obtains c' where "Replace store s l c = Inr (c', contents c ! unat s ! unat l)" and "config c' = config c"
    and "contents c' = (contents c)[unat s := (contents c ! unat s)[unat l := store]]"
    and "high_assoc c \<Longrightarrow> fastcontents c' =
      (fastcontents c)[unat s := fast_replace (contents c ! unat s ! unat l) store l (fastcontents c ! unat s)]"
    and "level_wf c'"
    and "\<And>x xs. replpolicy c = ReplacementPolicy_trulru \<Longrightarrow> x < unat (countsets c) \<Longrightarrow>
      lru_order (recentlyUsed c ! x, historyUsed c ! x) xs \<Longrightarrow>
      lru_order (recentlyUsed c' ! x, historyUsed c' ! x) (if x = unat s then removeAll (unat l) xs @ [unat l] else xs)"
proof -
  note D = level_wfD [OF wf]
  have su: "unat s < unat (countsets c)" and lu: "unat l < unat (associativity c)"
    using s l by (simp_all add: word_less_nat_alt)
  let ?old = "contents c ! unat s ! unat l"
  let ?rows = "(contents c)[unat s := (contents c ! unat s)[unat l := store]]"
  define c0 where "c0 = c \<lparr> contents := ?rows \<rparr>"
  define c1 where "c1 = (if high_assoc c then c0 \<lparr> fastcontents := (fastcontents c)[unat s :=
    fast_replace ?old store l (fastcontents c ! unat s)] \<rparr> else c0)"
  have rc: "replace_contents store s l c = Inr (c0, ?old)" using su lu D by (simp add: replace_contents_def c0_def)
  have cfg: "config c1 = config c" by (simp add: c1_def c0_def config_def)
  note F = config_fields [OF cfg]
  have c1c: "contents c1 = ?rows" by (simp add: c1_def c0_def)
  have c1o: "recentlyUsed c1 = recentlyUsed c" "historyUsed c1 = historyUsed c" by (simp_all add: c1_def c0_def)
  have rows: "rows_wf c1" using wf su by (auto simp: level_wf_def rows_wf_def F c1c nth_list_update)
  have fast: "fast_wf c1" if h: "high_assoc c"
  proof -
    have fw: "fast_wf c" using wf h by (simp add: level_wf_def)
    then have len: "length (fastcontents c) = unat (countsets c)" by (simp add: fast_wf_def)
    have fc: "fastcontents c1 = (fastcontents c)[unat s := fast_replace ?old store l (fastcontents c ! unat s)]"
      using h by (simp add: c1_def)
    show ?thesis
      unfolding fast_wf_def F
    proof (intro conjI allI impI)
      show "length (fastcontents c1) = unat (countsets c)" using len fc by simp
      fix t x k assume t: "t < unat (countsets c)" and m: "(fastcontents c1 ! t) x = Some k"
      have both: "unat k < unat (associativity c) \<and> contents c1 ! t ! unat k = x"
      proof (cases "t = unat s")
        case False
        then have "(fastcontents c ! t) x = Some k" using m fc by simp
        then show ?thesis using False fw t by (simp add: fast_wf_def c1c)
      next
        case True
        then have m': "fast_replace ?old store l (fastcontents c ! unat s) x = Some k" using m fc su len by simp
        show ?thesis
        proof (cases "x = store")
          case x: True
          then have "k = l" using m' by (simp add: fast_replace_def)
          then show ?thesis using True x lu D su by (simp add: c1c)
        next
          case x: False
          then have o: "x \<noteq> ?old" "(fastcontents c ! unat s) x = Some k"
            using m' by (auto simp: fast_replace_def split: if_splits)
          then have k: "unat k < unat (associativity c)" "contents c ! unat s ! unat k = x"
            using fw su by (auto simp: fast_wf_def)
          then have "unat k \<noteq> unat l" using o(1) by metis
          then show ?thesis using True k su D by (simp add: c1c)
        qed
      qed
      then show "unat k < unat (associativity c)" and "contents c1 ! t ! unat k = x" by simp_all
    qed
  qed
  have "level_wf c1" using wf rows fast by (simp add: level_wf_def lru_wf_def nmru_wf_def F c1o)
  then obtain c' where c': "MarkUsed s l c1 = Inr c'" "config c' = config c1" "contents c' = contents c1"
      "fastcontents c' = fastcontents c1" "level_wf c'"
      "\<And>x xs. replpolicy c1 = ReplacementPolicy_trulru \<Longrightarrow> x < unat (countsets c1) \<Longrightarrow>
        lru_order (recentlyUsed c1 ! x, historyUsed c1 ! x) xs \<Longrightarrow>
        lru_order (recentlyUsed c' ! x, historyUsed c' ! x) (if x = unat s then removeAll (unat l) xs @ [unat l] else xs)"
    using MarkUsed_wf [of c1 s l] s l by (auto simp: F)
  have "Replace store s l c = Inr (c', ?old)"
  proof (cases "high_assoc c")
    case False
    then have "c1 = c0" by (simp add: c1_def)
    then show ?thesis using False c'(1) by (simp add: Replace_def CacheLevel_Replace_def rc)
  next
    case True
    have len: "length (fastcontents c) = unat (countsets c)" using wf True by (simp add: level_wf_def fast_wf_def)
    have "fastcontents c0 = fastcontents c" by (simp add: c0_def)
    then have "aget (fastcontents c0) (unat s) = Inr (fastcontents c ! unat s)" using len su by simp
    moreover have "c0 \<lparr> fastcontents := (fastcontents c0)[unat s := fast_replace ?old store l (fastcontents c ! unat s)] \<rparr> = c1"
      using True by (simp add: c1_def c0_def)
    moreover have "(fastcontents c ! unat s) ?old = None \<Longrightarrow>
        fast_replace ?old store l (fastcontents c ! unat s) = (fastcontents c ! unat s)(store \<mapsto> l)"
      by (simp add: fast_replace_def fun_upd_idem)
    ultimately show ?thesis using True c'(1)
      by (cases "(fastcontents c ! unat s) ?old")
        (simp_all add: Replace_def HighlyAssociative_Replace_def rc Let_def fast_replace_def)
  qed
  then show ?thesis
    using c' c1o cfg F by (intro that [of c']) (simp_all add: c1c, simp add: c1_def)
qed

section \<open>A set under true least-recently-used replacement\<close>

text \<open>
  \<open>set_rep A row xs R\<close>: the lines \<open>row\<close>, read in the order \<open>xs\<close> from the most recent use to the oldest,
  are the stores \<open>R\<close> and then lines that were never filled.
\<close>

definition set_rep :: "nat \<Rightarrow> u64 list \<Rightarrow> nat list \<Rightarrow> u64 list \<Rightarrow> bool" where
  "set_rep A row xs R \<longleftrightarrow> distinct xs \<and> set xs = {..<A} \<and> length row = A \<and> distinct R \<and> 0 \<notin> set R \<and>
     map ((!) row) (rev xs) = R @ replicate (A - length R) 0"

lemma set_rep_length:
  assumes "set_rep A row xs R"
  shows "length xs = A" "length R \<le> A"
proof -
  show x: "length xs = A" using assms distinct_card [of xs] by (simp add: set_rep_def)
  have "length (map ((!) row) (rev xs)) = length (R @ replicate (A - length R) 0)" using assms by (simp add: set_rep_def)
  then show "length R \<le> A" using x by simp
qed

lemma set_rep_mem:
  assumes "set_rep A row xs R" and "x \<noteq> 0"
  shows "x \<in> set R \<longleftrightarrow> x \<in> set row"
proof -
  have "set (map ((!) row) (rev xs)) = set row"
  proof -
    have "set xs = {..<A}" "length row = A" using assms(1) by (simp_all add: set_rep_def)
    then show ?thesis using nth_image [of "length row" row] by (simp add: lessThan_atLeast0)
  qed
  moreover have "set (map ((!) row) (rev xs)) = set (R @ replicate (A - length R) 0)"
    using assms(1) by (simp add: set_rep_def)
  ultimately show ?thesis using assms(2) by auto
qed

lemma removeAll_map_inj:
  assumes "\<And>j. j \<in> set ys \<Longrightarrow> f j = f i \<Longrightarrow> j = i"
  shows "map f (removeAll i ys) = removeAll (f i) (map f ys)"
  using assms
proof (induction ys)
  case (Cons a ys)
  have "f a = f i \<longleftrightarrow> a = i" using Cons.prems [of a] by auto
  then show ?case using Cons by auto
qed simp

lemma removeAll_rev: "removeAll x (rev ys) = rev (removeAll x ys)"
  by (simp add: removeAll_filter_not_eq rev_filter)

lemma set_rep_hit:
  assumes r: "set_rep A row xs R" and x: "x \<noteq> 0" "x \<in> set R" and i: "i < A" "row ! i = x"
  shows "set_rep A row (removeAll i xs @ [i]) (take A (touch x R))"
proof -
  note L = set_rep_length [OF r]
  have m: "map ((!) row) (rev xs) = R @ replicate (A - length R) 0" using r by (simp add: set_rep_def)
  have inj: "j = i" if j: "j \<in> set (rev xs)" "row ! j = row ! i" for j
  proof (rule ccontr)
    assume "j \<noteq> i"
    have ix: "i \<in> set xs" using r i(1) by (simp add: set_rep_def)
    have "\<not> distinct (filter ((\<lambda>y. y = x) \<circ> (!) row) xs) \<or> 2 \<le> length (filter ((\<lambda>y. y = x) \<circ> (!) row) xs)"
    proof -
      have "{i, j} \<subseteq> set (filter ((\<lambda>y. y = x) \<circ> (!) row) xs)" using ix j i(2) by auto
      then have "card {i, j} \<le> card (set (filter ((\<lambda>y. y = x) \<circ> (!) row) xs))" by (intro card_mono) simp_all
      also have "\<dots> \<le> length (filter ((\<lambda>y. y = x) \<circ> (!) row) xs)" by (rule card_length)
      finally show ?thesis using \<open>j \<noteq> i\<close> by simp
    qed
    moreover have "distinct (filter ((\<lambda>y. y = x) \<circ> (!) row) xs)" using r by (simp add: set_rep_def)
    ultimately have "2 \<le> length (filter ((\<lambda>y. y = x) \<circ> (!) row) xs)" by simp
    also have "length (filter ((\<lambda>y. y = x) \<circ> (!) row) xs) = length (filter (\<lambda>y. y = x) (map ((!) row) (rev xs)))"
      by (simp add: filter_map rev_filter [symmetric] rev_map [symmetric])
    also have "\<dots> = length (filter (\<lambda>y. y = x) R)" using x(1) by (simp add: m)
    also have "\<dots> = card (set (filter (\<lambda>y. y = x) R))" using r by (intro distinct_card [symmetric]) (simp add: set_rep_def)
    also have "\<dots> \<le> card {x}" by (intro card_mono) auto
    finally show False by simp
  qed
  have "map ((!) row) (rev (removeAll i xs @ [i])) = x # map ((!) row) (removeAll i (rev xs))"
    using i(2) by (simp add: removeAll_rev)
  also have "\<dots> = x # removeAll x (R @ replicate (A - length R) 0)"
    using removeAll_map_inj [of "rev xs" "(!) row" i] inj i(2) m by simp
  also have "\<dots> = touch x R @ replicate (A - length R) 0"
    using x(1) by (simp add: touch_def removeAll_id)
  finally have a: "map ((!) row) (rev (removeAll i xs @ [i])) = touch x R @ replicate (A - length R) 0" .
  have "distinct R" using r by (simp add: set_rep_def)
  then have "length (removeAll x R) = length R - 1" using x(2)
    by (simp add: distinct_remove1_removeAll [symmetric] length_remove1)
  moreover have "0 < length R" using x(2) by (cases R) auto
  ultimately have len: "length (touch x R) = length R" by (simp add: touch_def)
  have t: "take A (touch x R) = touch x R" using len L(2) by simp
  have dx: "distinct xs" "set xs = {..<A}" "length row = A" using r by (simp_all add: set_rep_def)
  show ?thesis
    unfolding set_rep_def t len
  proof (intro conjI)
    show "distinct (touch x R)" "0 \<notin> set (touch x R)" using r x(1)
      by (simp_all add: set_rep_def touch_def removeAll_filter_not_eq)
    show "distinct (removeAll i xs @ [i])" using dx(1) by (simp add: removeAll_filter_not_eq)
    show "set (removeAll i xs @ [i]) = {..<A}" using i(1) by (simp add: dx(2) insert_absorb)
    show "length row = A" by (rule dx(3))
  qed (rule a)
qed

lemma set_rep_miss:
  assumes r: "set_rep A row xs R" and x: "x \<noteq> 0" "x \<notin> set R" and i: "xs \<noteq> []" "i = hd xs"
  shows "set_rep A (row[i := x]) (removeAll i xs @ [i]) (take A (touch x R))"
proof -
  note L = set_rep_length [OF r]
  obtain ys where xs: "xs = i # ys" using i by (cases xs) auto
  have d: "distinct xs" "set xs = {..<A}" "length row = A" using r by (simp_all add: set_rep_def)
  have ia: "i < A" and iy: "i \<notin> set ys" using d xs by auto
  have rm: "removeAll i xs = ys" using iy xs by simp
  have "map ((!) (row[i := x])) (rev ys) = map ((!) row) (rev ys)"
    using iy by (intro map_cong refl nth_list_update_neq) auto
  also have "\<dots> = butlast (map ((!) row) (rev xs))" by (simp add: xs)
  also have "\<dots> = butlast (R @ replicate (A - length R) 0)" using r by (simp add: set_rep_def)
  also have "\<dots> = take (A - 1) R @ replicate (A - 1 - length R) 0"
  proof (cases "length R = A")
    case True
    then show ?thesis by (simp add: butlast_conv_take)
  next
    case False
    then obtain k where "A - length R = Suc k" using L(2) by (cases "A - length R") auto
    then show ?thesis by (simp add: replicate_append_same [symmetric] butlast_append)
  qed
  finally have a: "map ((!) (row[i := x])) (rev (ys @ [i])) = x # take (A - 1) R @ replicate (A - 1 - length R) 0"
    using ia d(3) by simp
  have A: "A = Suc (A - 1)" using ia by simp
  then have t: "take A (touch x R) = x # take (A - 1) R"
    using x(2) by (cases A) (simp_all add: touch_def removeAll_id)
  have "map ((!) (row[i := x])) (rev (ys @ [i])) = take A (touch x R) @ replicate (A - length (take A (touch x R))) 0"
  proof -
    have "A - length (take A (touch x R)) = A - 1 - length R"
      unfolding t using A L(2) by (simp add: min_def)
    then show ?thesis using a t by simp
  qed
  moreover have "distinct (take A (touch x R))" "0 \<notin> set (take A (touch x R))"
    using r x t by (auto simp: set_rep_def dest: in_set_takeD)
  moreover have "set (ys @ [i]) = {..<A}" using d(2) xs by auto
  ultimately show ?thesis using d iy xs rm by (simp add: set_rep_def)
qed

end
