(* ===== verification/Cache_Policy.thy ===== *)
theory Cache_Policy
  imports Cache_Level "HOL-Library.Log_Nat"
begin

text \<open>
  A level that \<open>Init\<close> builds is well formed, \<open>Process\<close> keeps it so and never leaves an
  array, and under \<open>trulru\<close> a set level_holds exactly the stores its associativity allows, most recently used
  first, whether the set is scanned or looked up in the map of a highly associative level.
\<close>

section \<open>What the constructors build\<close>

lemma CacheLevel_Init_Inr:
  assumes i: "CacheLevel_Init lvl sz assoc lineSz pol = Inr c"
  shows "level c = lvl" "associativity c = assoc" "replpolicy c = pol" "countsets c = sz div (lineSz * assoc)"
    "linesizeBits c = line_bits 0 lineSz - 1"
    "contents c = replicate (unat (countsets c)) (replicate (unat assoc) 0)" "assoc \<noteq> 0" "lineSz * assoc \<noteq> 0"
    "pol = ReplacementPolicy_nmru \<Longrightarrow> recentlyUsed c = replicate (unat (countsets c)) 0"
    "pol = ReplacementPolicy_trulru \<Longrightarrow> \<exists>h. init_history assoc = Inr h \<and>
      recentlyUsed c = replicate (unat (countsets c)) 0 \<and> historyUsed c = replicate (unat (countsets c)) h"
  using i by (auto simp: CacheLevel_Init_def Let_def rbind_eq_Inr split: if_splits)

lemma CacheLevel_Init_wf:
  assumes i: "CacheLevel_Init lvl sz assoc lineSz pol = Inr c" and n: "countsets c \<noteq> 0"
    and pol: "pol \<noteq> ReplacementPolicy_Undefined" and lru: "pol = ReplacementPolicy_trulru \<Longrightarrow> 2 \<le> unat assoc"
  shows "rows_wf c" "pol = ReplacementPolicy_trulru \<Longrightarrow> lru_wf c" "pol = ReplacementPolicy_nmru \<Longrightarrow> nmru_wf c"
    "pol = ReplacementPolicy_trulru \<Longrightarrow> s < unat (countsets c) \<Longrightarrow>
      lru_order (recentlyUsed c ! s, historyUsed c ! s) [0..<unat assoc]"
proof -
  note I = CacheLevel_Init_Inr [OF i]
  show "rows_wf c" using I(2,6,7) n by (simp add: rows_wf_def word_neq_0_conv [symmetric])
  show "nmru_wf c" if "pol = ReplacementPolicy_nmru"
    using I(2,7) I(9) [OF that] by (auto simp: nmru_wf_def word_neq_0_conv)
  assume p: "pol = ReplacementPolicy_trulru"
  obtain h where h: "init_history assoc = Inr h" "recentlyUsed c = replicate (unat (countsets c)) 0"
    "historyUsed c = replicate (unat (countsets c)) h" using I(10) [OF p] by blast
  have "length h = unat assoc \<and> lru_order (0, h) [0..<unat assoc]"
    using lru_order_init [OF lru [OF p]] h(1) by auto
  then show "lru_wf c" and "s < unat (countsets c) \<Longrightarrow> lru_order (recentlyUsed c ! s, historyUsed c ! s) [0..<unat assoc]"
    by (auto simp: lru_wf_def h I(2))
qed

text \<open>The four ways a level is built; all but the kind and the map come from \<open>CacheLevel_Init\<close>.\<close>

definition built :: "CacheLevelType \<Rightarrow> u32 \<Rightarrow> u32 \<Rightarrow> u32 \<Rightarrow> u32 \<Rightarrow> u32 \<Rightarrow> ReplacementPolicy \<Rightarrow> u32 \<Rightarrow> u32 \<Rightarrow> CacheLevel res" where
  "built ty mha lvl sz assoc lineSz pol f l =
     (case ty of
        CacheLevelType_InclusiveLowassoc \<Rightarrow> Inclusive_Init lvl sz assoc lineSz pol
      | CacheLevelType_ExclusiveLowassoc \<Rightarrow> Exclusive_Init lvl sz assoc lineSz pol f l
      | CacheLevelType_InclusiveHighassoc \<Rightarrow> HighlyAssociativeInclusive_Init mha lvl sz assoc lineSz pol
      | CacheLevelType_ExclusiveHighassoc \<Rightarrow> HighlyAssociativeExclusive_Init mha lvl sz assoc lineSz pol f l
      | CacheLevelType_Undefined \<Rightarrow> Inl AssertFailed)"

lemma built_Inr:
  assumes "built ty mha lvl sz assoc lineSz pol f l = Inr c"
  obtains c0 where "CacheLevel_Init lvl sz assoc lineSz pol = Inr c0" and "ctype c = ty"
    and "level c = lvl" "associativity c = assoc" "replpolicy c = pol" "countsets c = countsets c0"
    "linesizeBits c = linesizeBits c0" "contents c = contents c0" "recentlyUsed c = recentlyUsed c0"
    "historyUsed c = historyUsed c0" "high_assoc c \<Longrightarrow> fastcontents c = replicate (unat (countsets c)) Map.empty"
    "IsExclusive c \<Longrightarrow> FirstExclusive c = f \<and> LastExclusive c = l"
proof (cases ty)
  case CacheLevelType_Undefined
  then show ?thesis using assms by (simp add: built_def)
next
  case CacheLevelType_InclusiveLowassoc
  then obtain c0 where "CacheLevel_Init lvl sz assoc lineSz pol = Inr c0"
    "c = c0 \<lparr> ctype := CacheLevelType_InclusiveLowassoc \<rparr>"
    using assms by (auto simp: built_def Inclusive_Init_def rbind_eq_Inr)
  then show ?thesis using CacheLevelType_InclusiveLowassoc CacheLevel_Init_Inr(1-3)
    by (intro that [of c0]) (simp_all add: high_assoc_def IsExclusive_def)
next
  case CacheLevelType_ExclusiveLowassoc
  then obtain c0 where "CacheLevel_Init lvl sz assoc lineSz pol = Inr c0"
    "c = c0 \<lparr> ctype := CacheLevelType_ExclusiveLowassoc, FirstExclusive := f, LastExclusive := l \<rparr>"
    using assms by (auto simp: built_def Exclusive_Init_def rbind_eq_Inr)
  then show ?thesis using CacheLevelType_ExclusiveLowassoc CacheLevel_Init_Inr(1-3)
    by (intro that [of c0]) (simp_all add: high_assoc_def)
next
  case CacheLevelType_InclusiveHighassoc
  then obtain c0 where "CacheLevel_Init lvl sz assoc lineSz pol = Inr c0"
    "c = c0 \<lparr> fastcontents := replicate (unat (countsets c0)) Map.empty, ctype := CacheLevelType_InclusiveHighassoc \<rparr>"
    using assms by (auto simp: built_def Inclusive_Init_def HighlyAssociativeInclusive_Init_def HighlyAssociative_Init_def rbind_eq_Inr)
  then show ?thesis using CacheLevelType_InclusiveHighassoc CacheLevel_Init_Inr(1-3)
    by (intro that [of c0]) (simp_all add: IsExclusive_def)
next
  case CacheLevelType_ExclusiveHighassoc
  then obtain c0 where "CacheLevel_Init lvl sz assoc lineSz pol = Inr c0"
    "c = c0 \<lparr> FirstExclusive := f, LastExclusive := l,
      fastcontents := replicate (unat (countsets c0)) Map.empty, ctype := CacheLevelType_ExclusiveHighassoc \<rparr>"
    using assms by (auto simp: built_def Exclusive_Init_def HighlyAssociativeExclusive_Init_def HighlyAssociative_Init_def rbind_eq_Inr)
  then show ?thesis using CacheLevelType_ExclusiveHighassoc CacheLevel_Init_Inr(1-3)
    by (intro that [of c0]) simp_all
qed

lemma built_wf:
  assumes b: "built ty mha lvl sz assoc lineSz pol f l = Inr c" and n: "countsets c \<noteq> 0"
    and pol: "pol \<noteq> ReplacementPolicy_Undefined" and lru: "pol = ReplacementPolicy_trulru \<Longrightarrow> 2 \<le> unat assoc"
  shows "level_wf c"
proof -
  obtain c0 where c0: "CacheLevel_Init lvl sz assoc lineSz pol = Inr c0"
    and F: "associativity c = assoc" "replpolicy c = pol" "countsets c = countsets c0"
    "contents c = contents c0" "recentlyUsed c = recentlyUsed c0" "historyUsed c = historyUsed c0"
    and h: "high_assoc c \<Longrightarrow> fastcontents c = replicate (unat (countsets c)) Map.empty"
    using built_Inr [OF b] by metis
  note W = CacheLevel_Init_wf [OF c0 _ pol lru] and I = CacheLevel_Init_Inr(2,3) [OF c0]
  have "countsets c0 \<noteq> 0" using n F by simp
  note W = W [OF this]
  have "rows_wf c" using W(1) by (simp add: rows_wf_def F I)
  moreover have "pol = ReplacementPolicy_trulru \<Longrightarrow> lru_wf c" using W(2) by (simp add: lru_wf_def F I)
  moreover have "pol = ReplacementPolicy_nmru \<Longrightarrow> nmru_wf c" using W(3) by (simp add: nmru_wf_def F I)
  moreover have "fast_wf c" if "high_assoc c" using h [OF that] by (simp add: fast_wf_def)
  ultimately show ?thesis using pol by (simp add: level_wf_def F)
qed

section \<open>Every access stays inside the arrays\<close>

definition stats_ok :: "u32 \<Rightarrow> u32 \<Rightarrow> u32 \<Rightarrow> CacheStats \<Rightarrow> bool" where
  "stats_ok n memid lvl st \<longleftrightarrow> stats_shape n st \<and> memid < Capacity st \<and> lvl < n"

lemma Hit_Inr:
  assumes "stats_ok n memid lvl st"
  obtains st' where "Hit memid lvl st = Inr st'" and "stats_shape n st'" and "Capacity st' = Capacity st"
    and "\<And>m i. m < Capacity st \<Longrightarrow> i < unat n \<Longrightarrow> level_stats st' m i = (if m = memid \<and> i = unat lvl
      then (level_stats st m i) \<lparr> hitCount := hitCount (level_stats st m i) + 1 \<rparr> else level_stats st m i)"
proof -
  have "Hit memid lvl st = update_stats (\<lambda>l. l \<lparr> hitCount := hitCount l + 1 \<rparr>) memid lvl st"
    by (simp add: Hit_def Hit_count_def)
  moreover obtain st' where "update_stats (\<lambda>l. l \<lparr> hitCount := hitCount l + 1 \<rparr>) memid lvl st = Inr st'"
    "stats_shape n st'" "Capacity st' = Capacity st"
    "\<And>m i. m < Capacity st \<Longrightarrow> i < unat n \<Longrightarrow> level_stats st' m i = (if m = memid \<and> i = unat lvl
      then (level_stats st m i) \<lparr> hitCount := hitCount (level_stats st m i) + 1 \<rparr> else level_stats st m i)"
    using update_stats_shape [of n st memid lvl "\<lambda>l. l \<lparr> hitCount := hitCount l + 1 \<rparr>"] assms
    by (auto simp: stats_ok_def)
  ultimately show ?thesis by (intro that [of st']) simp_all
qed

lemma Miss_Inr:
  assumes "stats_ok n memid lvl st"
  obtains st' where "Miss memid lvl st = Inr st'" and "stats_shape n st'" and "Capacity st' = Capacity st"
    and "\<And>m i. m < Capacity st \<Longrightarrow> i < unat n \<Longrightarrow> level_stats st' m i = (if m = memid \<and> i = unat lvl
      then (level_stats st m i) \<lparr> missCount := missCount (level_stats st m i) + 1 \<rparr> else level_stats st m i)"
proof -
  have "Miss memid lvl st = update_stats (\<lambda>l. l \<lparr> missCount := missCount l + 1 \<rparr>) memid lvl st"
    by (simp add: Miss_def Miss_count_def)
  moreover obtain st' where "update_stats (\<lambda>l. l \<lparr> missCount := missCount l + 1 \<rparr>) memid lvl st = Inr st'"
    "stats_shape n st'" "Capacity st' = Capacity st"
    "\<And>m i. m < Capacity st \<Longrightarrow> i < unat n \<Longrightarrow> level_stats st' m i = (if m = memid \<and> i = unat lvl
      then (level_stats st m i) \<lparr> missCount := missCount (level_stats st m i) + 1 \<rparr> else level_stats st m i)"
    using update_stats_shape [of n st memid lvl "\<lambda>l. l \<lparr> missCount := missCount l + 1 \<rparr>"] assms
    by (auto simp: stats_ok_def)
  ultimately show ?thesis by (intro that [of st']) simp_all
qed

lemma Hit_Miss_shape:
  assumes r: "(if b then Hit else Miss) memid lvl st = Inr st'" and ok: "stats_ok n memid lvl st"
  shows "stats_shape n st' \<and> Capacity st' = Capacity st"
proof (cases b)
  case True
  obtain st1 where "Hit memid lvl st = Inr st1" "stats_shape n st1" "Capacity st1 = Capacity st"
    by (rule Hit_Inr [OF ok])
  then show ?thesis using r True by simp
next
  case False
  obtain st1 where "Miss memid lvl st = Inr st1" "stats_shape n st1" "Capacity st1 = Capacity st"
    by (rule Miss_Inr [OF ok])
  then show ?thesis using r False by simp
qed

text \<open>One access to an inclusive level: what is counted, what is returned.\<close>

lemma CacheLevel_Process_wf:
  assumes wf: "level_wf c" and st: "stats_ok n memid (level c) st"
  obtains c' st' hit where "CacheLevel_Process rnd memid addr (c, st, e) =
      Inr ((c', st', e), if hit then INVALID_CACHE_LEVEL else level c + 1)"
    and "config c' = config c" and "level_wf c'"
    and "(if hit then Hit else Miss) memid (level c) st = Inr st'"
proof -
  let ?store = "GetStorage addr c"
  obtain s found where s: "Search ?store c = Inr (s, found)" "s < countsets c"
    and l: "\<And>l. found = Some l \<Longrightarrow> l < associativity c"
    using Search_wf [OF wf, of ?store] by metis
  show ?thesis
  proof (cases found)
    case (Some l)
    obtain st' where h: "Hit memid (level c) st = Inr st'" using Hit_Inr [OF st] by metis
    obtain c' where m: "MarkUsed s l c = Inr c'" "config c' = config c" "level_wf c'"
      using MarkUsed_wf [OF wf s(2) l [OF Some]] by metis
    show ?thesis by (rule that [of c' st' True]) (simp_all add: CacheLevel_Process_def Let_def s Some h m)
  next
    case None
    obtain st' where h: "Miss memid (level c) st = Inr st'" using Miss_Inr [OF st] by metis
    obtain k where k: "LineToReplace rnd s c = Inr k" "k < associativity c" using LineToReplace_wf [OF wf s(2)] by metis
    obtain c' where m: "Replace ?store s k c = Inr (c', contents c ! unat s ! unat k)" "config c' = config c" "level_wf c'"
      using Replace_wf [OF wf s(2) k(2)] by metis
    show ?thesis by (rule that [of c' st' False])
        (simp_all add: CacheLevel_Process_def Let_def s None h k m config_fields(2) [OF m(2)])
  qed
qed

text \<open>What the eviction record may hold when a level processes it.\<close>

definition evict_ok :: "EvictionInfo \<Rightarrow> CacheLevel \<Rightarrow> bool" where
  "evict_ok e c \<longleftrightarrow> (level c = evict_level e \<longrightarrow> evict_lineid e < associativity c)"

lemma Exclusive_Process_evict:
  assumes wf: "level_wf c" and e: "evict_level e \<noteq> INVALID_CACHE_LEVEL" "evict_ok e c"
  obtains c' a where "Exclusive_Process rnd memid addr (c, st, e) =
      Inr ((c', st, e \<lparr> evict_addr := a \<rparr>), if level c = evict_level e then INVALID_CACHE_LEVEL else level c + 1)"
    and "config c' = config c" and "level_wf c'"
proof -
  obtain s where s: "GetSet (evict_addr e) c = Inr s" "s < countsets c" using GetSet_wf [OF level_wfD(1) [OF wf]] by metis
  obtain k where k: "LineToReplace rnd s c = Inr k" "k < associativity c" using LineToReplace_wf [OF wf s(2)] by metis
  let ?l = "if level c = evict_level e \<and> evict_setid e = s then evict_lineid e else k"
  have "?l < associativity c" using e(2) k(2) by (simp add: evict_ok_def)
  then obtain c' where m: "Replace (evict_addr e) s ?l c = Inr (c', contents c ! unat s ! unat ?l)" "config c' = config c" "level_wf c'"
    using Replace_wf [OF wf s(2)] by metis
  show ?thesis
    by (rule that [of c' "contents c ! unat s ! unat ?l"])
      (use e(1) m(2,3) in \<open>simp_all add: Exclusive_Process_def Let_def s k m(1) config_fields(2) [OF m(2)]\<close>)
qed

lemma Exclusive_Process_lookup:
  assumes wf: "level_wf c" and st: "stats_ok n memid (level c) st" and e: "evict_level e = INVALID_CACHE_LEVEL"
  obtains (hit) c' st' s l where "Exclusive_Process rnd memid addr (c, st, e) =
      Inr ((c', st', \<lparr> evict_addr = GetStorage addr c, evict_level = level c, evict_setid = s, evict_lineid = l \<rparr>),
        if level c = FirstExclusive c then INVALID_CACHE_LEVEL else FirstExclusive c)"
      "config c' = config c" "level_wf c'" "l < associativity c" "Hit memid (level c) st = Inr st'"
      "unat s = unat (GetStorage addr c) mod unat (countsets c)" "contents c ! unat s ! unat l = GetStorage addr c"
      "contents c' = contents c"
  | (miss) st' where "Exclusive_Process rnd memid addr (c, st, e) = Inr ((c, st', e), level c + 1)"
      "level c \<noteq> LastExclusive c" "Miss memid (level c) st = Inr st'"
      "\<not> high_assoc c \<Longrightarrow> GetStorage addr c \<notin> set (contents c ! (unat (GetStorage addr c) mod unat (countsets c)))"
  | (last) st' where "Exclusive_Process rnd memid addr (c, st, e) = Inr ((c, st',
        e \<lparr> evict_level := LastExclusive c + 1, evict_addr := GetStorage addr c \<rparr>), FirstExclusive c)"
      "level c = LastExclusive c" "Miss memid (level c) st = Inr st'"
      "\<not> high_assoc c \<Longrightarrow> GetStorage addr c \<notin> set (contents c ! (unat (GetStorage addr c) mod unat (countsets c)))"
proof -
  let ?store = "GetStorage addr c"
  obtain s found where s: "Search ?store c = Inr (s, found)" "s < countsets c"
    and us: "unat s = unat ?store mod unat (countsets c)"
    and l: "\<And>l. found = Some l \<Longrightarrow> l < associativity c \<and> contents c ! unat s ! unat l = ?store"
    and low: "\<not> high_assoc c \<Longrightarrow> found = None \<Longrightarrow> ?store \<notin> set (contents c ! unat s)"
    using Search_wf [OF wf, of ?store] by metis
  show ?thesis
  proof (cases found)
    case (Some l')
    obtain st' where h: "Hit memid (level c) st = Inr st'" using Hit_Inr [OF st] by metis
    obtain c' where m: "MarkUsed s l' c = Inr c'" "config c' = config c" "level_wf c'" "contents c' = contents c"
      using MarkUsed_wf [OF wf s(2) conjunct1 [OF l [OF Some]]] by metis
    show ?thesis
      by (rule hit [of c' st' s l']) (use e l [OF Some] m us in
        \<open>simp_all add: Exclusive_Process_def Let_def s Some h config_fields(2,7) [OF m(2)]\<close>)
  next
    case None
    obtain st' where h: "Miss memid (level c) st = Inr st'" using Miss_Inr [OF st] by metis
    show ?thesis
    proof (cases "level c = LastExclusive c")
      case True
      have "Miss memid (LastExclusive c) st = Inr st'" using h True by simp
      then show ?thesis by (intro last [of st']) (use e True low None us in \<open>simp_all add: Exclusive_Process_def Let_def s None\<close>)
    next
      case False
      show ?thesis by (rule miss [of st']) (use e False low None us in \<open>simp_all add: Exclusive_Process_def Let_def s None h\<close>)
    qed
  qed
qed

section \<open>True least-recently-used levels\<close>

definition stores_of :: "nat \<Rightarrow> nat \<Rightarrow> u64 list \<Rightarrow> u64 list" where
  "stores_of S s T = filter (\<lambda>y. unat y mod S = s) T"

definition level_holds :: "CacheLevel \<Rightarrow> u64 list \<Rightarrow> bool" where
  "level_holds c T \<longleftrightarrow> level_wf c \<and> replpolicy c = ReplacementPolicy_trulru \<and>
     (\<forall>s < unat (countsets c). let R = lru_set (unat (associativity c)) (stores_of (unat (countsets c)) s T) in
        (\<exists>xs. lru_order (recentlyUsed c ! s, historyUsed c ! s) xs \<and> set_rep (unat (associativity c)) (contents c ! s) xs R) \<and>
        (high_assoc c \<longrightarrow> dom (fastcontents c ! s) = set R))"

lemma stores_of_snoc: "stores_of S s (T @ [x]) = (if unat x mod S = s then stores_of S s T @ [x] else stores_of S s T)"
  by (simp add: stores_of_def)

lemma built_level_holds:
  assumes b: "built ty mha lvl sz assoc lineSz ReplacementPolicy_trulru f l = Inr c"
    and n: "countsets c \<noteq> 0" and a: "2 \<le> unat assoc"
  shows "level_holds c []"
proof -
  obtain c0 where c0: "CacheLevel_Init lvl sz assoc lineSz ReplacementPolicy_trulru = Inr c0"
    and F: "associativity c = assoc" "replpolicy c = ReplacementPolicy_trulru" "countsets c = countsets c0"
    "contents c = contents c0" "recentlyUsed c = recentlyUsed c0" "historyUsed c = historyUsed c0"
    and h: "high_assoc c \<Longrightarrow> fastcontents c = replicate (unat (countsets c)) Map.empty"
    using built_Inr [OF b] by metis
  have n0: "countsets c0 \<noteq> 0" using n F by simp
  have ord: "lru_order (recentlyUsed c ! s, historyUsed c ! s) [0..<unat assoc]" if "s < unat (countsets c)" for s
    using CacheLevel_Init_wf(4) [OF c0 n0 _ a] that F by simp
  have rep: "set_rep (unat assoc) (contents c ! s) [0..<unat assoc] []" if "s < unat (countsets c)" for s
  proof -
    have "contents c ! s = replicate (unat assoc) 0" using CacheLevel_Init_Inr(6) [OF c0] that F by simp
    moreover have "map ((!) (replicate k (0 :: u64))) (rev [0..<k]) = replicate k 0" for k
      by (rule nth_equalityI) (simp_all add: rev_nth)
    ultimately show ?thesis by (auto simp: set_rep_def)
  qed
  have "level_wf c" by (rule built_wf [OF b n]) (use a in simp_all)
  then show ?thesis using ord rep h F by (auto simp: level_holds_def stores_of_def lru_set_def Let_def)
qed

text \<open>
  One access with a store other than 0: it hits iff the store is among those the specification
  keeps, and what the level level_holds afterwards is again what the specification keeps.
\<close>

lemma holds_Search:
  assumes h: "level_holds c T" and z: "store \<noteq> 0"
  defines "n \<equiv> unat (countsets c)" and "A \<equiv> unat (associativity c)"
  obtains s found where "Search store c = Inr (s, found)" and "s < countsets c" and "unat s = unat store mod n"
    and "found \<noteq> None \<longleftrightarrow> store \<in> set (lru_set A (stores_of n (unat store mod n) T))"
    and "\<And>l. found = Some l \<Longrightarrow> l < associativity c \<and> contents c ! unat s ! unat l = store"
proof -
  have wf: "level_wf c" using h by (simp add: level_holds_def)
  obtain s found where s: "Search store c = Inr (s, found)" "s < countsets c" "unat s = unat store mod n"
    and l: "\<And>l. found = Some l \<Longrightarrow> l < associativity c \<and> contents c ! unat s ! unat l = store"
    and low: "\<not> high_assoc c \<Longrightarrow> found = None \<Longrightarrow> store \<notin> set (contents c ! unat s)"
    and high: "high_assoc c \<Longrightarrow> found = (fastcontents c ! unat s) store"
    using Search_wf [OF wf, of store] unfolding n_def by metis
  have su: "unat s < unat (countsets c)" using s(2) by (simp add: word_less_nat_alt)
  let ?R = "lru_set A (stores_of n (unat s) T)"
  obtain xs where xs: "set_rep A (contents c ! unat s) xs ?R" and d: "high_assoc c \<Longrightarrow> dom (fastcontents c ! unat s) = set ?R"
    using h su by (auto simp: level_holds_def Let_def n_def A_def)
  have "found \<noteq> None \<longleftrightarrow> store \<in> set ?R"
  proof (cases "high_assoc c")
    case True
    then show ?thesis using high d by auto
  next
    case False
    have "length (contents c ! unat s) = A" using level_wfD(4) [OF wf su] by (simp add: A_def)
    then have "found \<noteq> None \<longleftrightarrow> store \<in> set (contents c ! unat s)"
      using low [OF False] l by (auto simp: A_def word_less_nat_alt intro!: nth_mem)
    then show ?thesis using set_rep_mem [OF xs z] by simp
  qed
  then have f: "found \<noteq> None \<longleftrightarrow> store \<in> set (lru_set A (stores_of n (unat store mod n) T))" unfolding s(3) .
  show ?thesis by (rule that [OF s f l])
qed

lemma lru_order_unique_hd: "lru_order (head, h) xs \<Longrightarrow> xs \<noteq> [] \<and> hd xs = unat head"
  by (simp add: lru_order_def)

lemma set_rep_touch:
  assumes r: "set_rep A row xs R" and x: "x \<in> set R"
  shows "set (take A (touch x R)) = set R"
proof -
  have d: "distinct R" using r by (simp add: set_rep_def)
  have "length (removeAll x R) = length R - 1" using d x
    by (simp add: distinct_remove1_removeAll [symmetric] length_remove1)
  moreover have "0 < length R" using x by (cases R) auto
  ultimately have "length (touch x R) \<le> A" using set_rep_length(2) [OF r] by (simp add: touch_def)
  then show ?thesis using x by (auto simp: touch_def)
qed

text \<open>What a miss drops is the entry of the line it fills.\<close>

lemma lru_evicts:
  assumes r: "set_rep A row xs R" and x: "x \<noteq> 0" "x \<notin> set R" and i: "xs \<noteq> []" "hd xs = i" and o: "row ! i = old"
  shows "set (take A (touch x R)) = insert x (set R - {old})"
proof -
  note L = set_rep_length [OF r]
  have A: "0 < A" using L(1) i(1) by auto
  have "last (map ((!) row) (rev xs)) = old" using i o by (simp add: last_map last_rev)
  then have lst: "last (R @ replicate (A - length R) 0) = old" using r by (simp add: set_rep_def)
  have t: "take A (touch x R) = x # take (A - 1) R" using x(2) A by (cases A) (simp_all add: touch_def removeAll_id)
  have dR: "distinct R" "0 \<notin> set R" using r by (simp_all add: set_rep_def)
  show ?thesis
  proof (cases "length R = A")
    case True
    then have "R \<noteq> []" using A by auto
    then have R: "R = butlast R @ [old]" using lst True append_butlast_last_id [of R] by simp
    have "old \<notin> set (butlast R)" using dR(1) by (subst (asm) R) simp
    then have "set R - {old} = set (butlast R)" by (subst R) auto
    then show ?thesis using t True by (simp add: butlast_conv_take)
  next
    case False
    then have "old = 0" using lst L(2) by (simp add: last_append split: if_splits)
    then show ?thesis using t dR(2) False L(2) by simp
  qed
qed

lemma holds_Process:
  assumes h: "level_holds c T" and st: "stats_ok n memid (level c) st" and z: "GetStorage addr c \<noteq> 0"
  defines "S \<equiv> unat (countsets c)" and "A \<equiv> unat (associativity c)" and "x \<equiv> GetStorage addr c"
  defines "hit \<equiv> x \<in> set (lru_set A (stores_of S (unat x mod S) T))"
  obtains c' st' where "CacheLevel_Process rnd memid addr (c, st, e) =
      Inr ((c', st', e), if hit then INVALID_CACHE_LEVEL else level c + 1)"
    and "(if hit then Hit else Miss) memid (level c) st = Inr st'"
    and "config c' = config c" and "level_holds c' (T @ [x])"
proof -
  have wf: "level_wf c" and pol: "replpolicy c = ReplacementPolicy_trulru" using h by (simp_all add: level_holds_def)
  have A0: "0 < A" using level_wfD(2) [OF wf] by (simp add: A_def unat_gt_0)
  have x0: "x \<noteq> 0" using z by (simp add: x_def)
  obtain s found where s: "Search x c = Inr (s, found)" "s < countsets c" "unat s = unat x mod S"
    and f: "found \<noteq> None \<longleftrightarrow> hit"
    and l: "\<And>l. found = Some l \<Longrightarrow> l < associativity c \<and> contents c ! unat s ! unat l = x"
    using holds_Search [OF h x0] unfolding hit_def S_def A_def by metis
  have su: "unat s < unat (countsets c)" using s(2) by (simp add: word_less_nat_alt)
  define R where "R = (\<lambda>t. lru_set A (stores_of S t T))"
  define R' where "R' = (\<lambda>t. lru_set A (stores_of S t (T @ [x])))"
  have R': "R' t = (if t = unat s then take A (touch x (R t)) else R t)" for t
    by (simp add: R'_def R_def stores_of_snoc lru_set_snoc [OF A0] s(3))
  have hit: "hit \<longleftrightarrow> x \<in> set (R (unat s))" by (simp add: hit_def R_def s(3))
  have ex: "\<exists>xs. lru_order (recentlyUsed c ! t, historyUsed c ! t) xs \<and> set_rep A (contents c ! t) xs (R t)"
    and dm: "high_assoc c \<Longrightarrow> dom (fastcontents c ! t) = set (R t)" if "t < unat (countsets c)" for t
    using h that by (auto simp: level_holds_def Let_def R_def A_def S_def)
  show ?thesis
  proof (cases found)
    case (Some i)
    then have ht: hit using f by simp
    note li = l [OF Some]
    obtain st' where hs: "Hit memid (level c) st = Inr st'" using Hit_Inr [OF st] by metis
    obtain c' where m: "MarkUsed s i c = Inr c'" "config c' = config c" "contents c' = contents c"
      "fastcontents c' = fastcontents c" "level_wf c'"
      and o: "\<And>t xs. t < unat (countsets c) \<Longrightarrow> lru_order (recentlyUsed c ! t, historyUsed c ! t) xs \<Longrightarrow>
        lru_order (recentlyUsed c' ! t, historyUsed c' ! t) (if t = unat s then removeAll (unat i) xs @ [unat i] else xs)"
      using MarkUsed_wf [OF wf s(2) conjunct1 [OF li]] pol by metis
    note F = config_fields [OF m(2)]
    have "\<exists>xs. lru_order (recentlyUsed c' ! t, historyUsed c' ! t) xs \<and> set_rep A (contents c' ! t) xs (R' t)"
      if t: "t < unat (countsets c)" for t
    proof -
      obtain xs where xs: "lru_order (recentlyUsed c ! t, historyUsed c ! t) xs" "set_rep A (contents c ! t) xs (R t)"
        using ex [OF t] by blast
      have "set_rep A (contents c ! t) (removeAll (unat i) xs @ [unat i]) (take A (touch x (R t)))" if "t = unat s"
        using set_rep_hit [OF xs(2) x0, of "unat i"] that ht hit li by (simp add: A_def word_less_nat_alt)
      then show ?thesis using o [OF t xs(1)] xs(2) by (auto simp: R' m(3))
    qed
    moreover have "dom (fastcontents c' ! t) = set (R' t)" if t: "t < unat (countsets c)" and hi: "high_assoc c" for t
    proof -
      have "set (take A (touch x (R t))) = set (R t)" if "t = unat s"
      proof -
        obtain xs where xs: "set_rep A (contents c ! t) xs (R t)" using ex [OF t] by blast
        show ?thesis by (rule set_rep_touch [OF xs]) (use ht hit that in simp)
      qed
      then show ?thesis using dm [OF t hi] by (simp add: R' m(4))
    qed
    ultimately have "level_holds c' (T @ [x])"
      using m(5) pol by (simp add: level_holds_def Let_def F R'_def A_def S_def)
    moreover have "CacheLevel_Process rnd memid addr (c, st, e) = Inr ((c', st', e), INVALID_CACHE_LEVEL)"
      using s(1) by (simp add: CacheLevel_Process_def Let_def x_def [symmetric] Some hs m)
    ultimately show ?thesis using ht hs m(2) by (intro that [of c' st']) simp_all
  next
    case None
    then have ht: "\<not> hit" using f by simp
    obtain st' where hs: "Miss memid (level c) st = Inr st'" using Miss_Inr [OF st] by metis
    obtain k where k: "LineToReplace rnd s c = Inr k" "k < associativity c" "k = recentlyUsed c ! unat s"
      using LineToReplace_wf [OF wf s(2)] pol by metis
    let ?old = "contents c ! unat s ! unat k"
    obtain c' where m: "Replace x s k c = Inr (c', ?old)" "config c' = config c"
      "contents c' = (contents c)[unat s := (contents c ! unat s)[unat k := x]]" "level_wf c'"
      and fc: "high_assoc c \<Longrightarrow> fastcontents c' = (fastcontents c)[unat s := fast_replace ?old x k (fastcontents c ! unat s)]"
      and o: "\<And>t xs. t < unat (countsets c) \<Longrightarrow> lru_order (recentlyUsed c ! t, historyUsed c ! t) xs \<Longrightarrow>
        lru_order (recentlyUsed c' ! t, historyUsed c' ! t) (if t = unat s then removeAll (unat k) xs @ [unat k] else xs)"
      using Replace_wf [OF wf s(2) k(2)] pol by metis
    note F = config_fields [OF m(2)] and D = level_wfD(3) [OF wf]
    have rep: "set_rep A (contents c' ! t) (if t = unat s then removeAll (unat k) xs @ [unat k] else xs) (R' t)"
      if t: "t < unat (countsets c)" and xs: "lru_order (recentlyUsed c ! t, historyUsed c ! t) xs"
        "set_rep A (contents c ! t) xs (R t)" for t xs
    proof (cases "t = unat s")
      case True
      have "set_rep A ((contents c ! t)[unat k := x]) (removeAll (unat k) xs @ [unat k]) (take A (touch x (R t)))"
        by (rule set_rep_miss [OF xs(2) x0]) (use True ht hit k(3) lru_order_unique_hd [OF xs(1)] in simp_all)
      then show ?thesis using True su D by (simp add: R' m(3))
    next
      case False
      then show ?thesis using xs(2) by (simp add: R' m(3))
    qed
    have ex': "\<exists>xs. lru_order (recentlyUsed c' ! t, historyUsed c' ! t) xs \<and> set_rep A (contents c' ! t) xs (R' t)"
      if t: "t < unat (countsets c)" for t
      using ex [OF t] rep [OF t] o [OF t] by blast
    moreover have "dom (fastcontents c' ! t) = set (R' t)" if t: "t < unat (countsets c)" and hi: "high_assoc c" for t
    proof (cases "t = unat s")
      case False
      then show ?thesis using dm [OF t hi] by (simp add: R' fc [OF hi])
    next
      case True
      have len: "length (fastcontents c) = unat (countsets c)" using wf hi by (simp add: level_wf_def fast_wf_def)
      obtain xs where xs: "lru_order (recentlyUsed c ! t, historyUsed c ! t) xs" "set_rep A (contents c ! t) xs (R t)"
        using ex [OF t] by blast
      have kh: "xs \<noteq> []" "hd xs = unat k" using lru_order_unique_hd [OF xs(1)] k(3) True by simp_all
      have "set (take A (touch x (R t))) = insert x (set (R t) - {?old})"
        by (rule lru_evicts [OF xs(2) x0]) (use True ht hit kh in simp_all)
      moreover have "dom (fastcontents c' ! t) = insert x (set (R t) - {?old})"
        using dm [OF t hi] fc [OF hi] True su len by (auto simp: fast_replace_def)
      ultimately show ?thesis using True by (simp add: R')
    qed
    ultimately have "level_holds c' (T @ [x])"
      using m(4) pol by (simp add: level_holds_def Let_def F R'_def A_def S_def)
    moreover have "CacheLevel_Process rnd memid addr (c, st, e) = Inr ((c', st', e), level c + 1)"
      using s(1) by (simp add: CacheLevel_Process_def Let_def x_def [symmetric] None hs k(1) m(1) F)
    ultimately show ?thesis using ht hs m(2) by (intro that [of c' st']) simp_all
  qed
qed

section \<open>Runs\<close>

text \<open>A sequence of accesses to one level, with what each returned.\<close>

definition level_step :: "u32 \<times> u32 \<times> u64 \<Rightarrow> pstate \<times> u32 list \<Rightarrow> (pstate \<times> u32 list) res" where
  "level_step = (\<lambda>(rnd, memid, addr) (s, outs).
     rbind (CacheLevel_Process rnd memid addr s) (\<lambda>(s, r). Inr (s, outs @ [r])))"

definition lru_result :: "u32 \<Rightarrow> nat \<Rightarrow> nat \<Rightarrow> u64 list \<Rightarrow> u64 \<Rightarrow> u32" where
  "lru_result lvl S A T x = (if x \<in> set (lru_set A (stores_of S (unat x mod S) T)) then INVALID_CACHE_LEVEL else lvl + 1)"

definition lru_results :: "u32 \<Rightarrow> nat \<Rightarrow> nat \<Rightarrow> u64 list \<Rightarrow> u32 list" where
  "lru_results lvl S A xs = map (\<lambda>k. lru_result lvl S A (take k xs) (xs ! k)) [0..<length xs]"

lemma lru_results_snoc: "lru_results lvl S A (xs @ [x]) = lru_results lvl S A xs @ [lru_result lvl S A xs x]"
  by (simp add: lru_results_def nth_append)

lemma holds_run:
  assumes "level_holds c []" and "stats_shape n st" and "level c < n"
    and "\<forall>(rnd, memid, addr) \<in> set trace. memid < Capacity st \<and> GetStorage addr c \<noteq> 0"
  defines "xs \<equiv> map (\<lambda>(rnd, memid, addr). GetStorage addr c) trace"
  shows "\<exists>c' st'. rfold level_step trace ((c, st, e), []) = Inr ((c', st', e),
      lru_results (level c) (unat (countsets c)) (unat (associativity c)) xs) \<and>
    config c' = config c \<and> level_holds c' xs \<and> stats_shape n st' \<and> Capacity st' = Capacity st"
  using assms(4) unfolding xs_def
proof (induction trace rule: rev_induct)
  case Nil
  then show ?case using assms(1,2) by (simp add: lru_results_def)
next
  case (snoc a trace)
  obtain rnd memid addr where a: "a = (rnd, memid, addr)" by (cases a)
  let ?xs = "map (\<lambda>(rnd, memid, addr). GetStorage addr c) trace"
  obtain c' st' where IH: "rfold level_step trace ((c, st, e), []) = Inr ((c', st', e),
      lru_results (level c) (unat (countsets c)) (unat (associativity c)) ?xs)"
    and cfg: "config c' = config c" and h: "level_holds c' ?xs" and st: "stats_shape n st'" "Capacity st' = Capacity st"
    using snoc by auto
  note F = config_fields [OF cfg]
  have ok: "stats_ok n memid (level c') st'" and z: "GetStorage addr c' \<noteq> 0"
    using snoc.prems st assms(3) by (auto simp: a stats_ok_def F)
  obtain c'' st'' where run: "CacheLevel_Process rnd memid addr (c', st', e) = Inr ((c'', st'', e),
      lru_result (level c) (unat (countsets c)) (unat (associativity c)) ?xs (GetStorage addr c))"
    and hm: "(if GetStorage addr c \<in> set (lru_set (unat (associativity c)) (stores_of (unat (countsets c))
        (unat (GetStorage addr c) mod unat (countsets c)) ?xs)) then Hit else Miss) memid (level c) st' = Inr st''"
    and c'': "config c'' = config c'" "level_holds c'' (?xs @ [GetStorage addr c])"
    using holds_Process [OF h ok z, of rnd e] unfolding F lru_result_def by metis
  have "stats_shape n st'' \<and> Capacity st'' = Capacity st"
  proof -
    have ok': "stats_ok n memid (level c) st'" using ok F by simp
    show ?thesis using Hit_Miss_shape [OF hm ok'] st(2) by simp
  qed
  then show ?case using IH run c'' cfg
    by (simp add: rfold_append level_step_def a lru_results_snoc)
qed

text \<open>
  C6. A trulru level with at least one set and at least two lines for each set, of either
  associativity kind, ends every run of accesses by memory operations that have counters to
  stores other than store 0, and an access hits exactly
  when the store is among the most recently used ones of its set, as many as it has lines.
  With one line the program writes out of bounds (\<open>trulru_one_line_out_of_bounds\<close>), and
  store 0 is found in every empty line (\<open>first_access_store_zero\<close>).
\<close>

theorem trulru_level_correct:
  assumes "built ty mha lvl sz assoc lineSz ReplacementPolicy_trulru f l = Inr c"
    and "countsets c \<noteq> 0" and "2 \<le> assoc" and "stats_shape n st" and "lvl < n"
    and "\<forall>(rnd, memid, addr) \<in> set trace. memid < Capacity st \<and> GetStorage addr c \<noteq> 0"
  shows "\<exists>c' st'. rfold level_step trace ((c, st, e), []) = Inr ((c', st', e),
    lru_results lvl (unat (countsets c)) (unat assoc) (map (\<lambda>(rnd, memid, addr). GetStorage addr c) trace))"
proof -
  have "2 \<le> unat assoc" using assms(3) by (simp add: word_le_nat_alt)
  with built_level_holds [OF assms(1,2)] have h: "level_holds c []" by simp
  have la: "level c = lvl" "associativity c = assoc" using built_Inr [OF assms(1)] by metis+
  have "level c < n" using la assms(5) by simp
  from holds_run [OF h assms(4) this assms(6), of e] show ?thesis by (auto simp: la)
qed

text \<open>
  C11. In a trulru level with at least one set and at least two lines for each set, in a run of accesses
  by memory operations that have counters to
  stores other than store 0, a store is found again exactly when fewer other stores of its
  set were used since than the set has lines.
\<close>

theorem trulru_stack_distance:
  assumes "built ty mha lvl sz assoc lineSz ReplacementPolicy_trulru f l = Inr c"
    and "countsets c \<noteq> 0" and "2 \<le> assoc" and "lvl + 1 \<noteq> INVALID_CACHE_LEVEL" and "stats_shape n st" and "lvl < n"
    and "\<forall>(rnd, memid, addr) \<in> set (t1 @ (r1, m1, a1) # t2 @ [(r2, m2, a2)]). memid < Capacity st \<and> GetStorage addr c \<noteq> 0"
    and "GetStorage a2 c = GetStorage a1 c" and "\<forall>(rnd, memid, addr) \<in> set t2. GetStorage addr c \<noteq> GetStorage a1 c"
  shows "\<exists>s outs r. rfold level_step (t1 @ (r1, m1, a1) # t2 @ [(r2, m2, a2)]) ((c, st, e), []) = Inr (s, outs @ [r]) \<and>
    (r = INVALID_CACHE_LEVEL \<longleftrightarrow> card {GetStorage addr c | rnd memid addr. (rnd, memid, addr) \<in> set t2 \<and>
      unat (GetStorage addr c) mod unat (countsets c) = unat (GetStorage a1 c) mod unat (countsets c)} < unat assoc)"
proof -
  define S where "S = unat (countsets c)"
  define g where "g = (\<lambda>(rnd :: u32, memid :: u32, addr). GetStorage addr c)"
  define x where "x = GetStorage a1 c"
  let ?t = "t1 @ (r1, m1, a1) # t2"
  have "2 \<le> unat assoc" using assms(3) by (simp add: word_le_nat_alt)
  with built_level_holds [OF assms(1,2)] have h: "level_holds c []" by simp
  have la: "level c = lvl" "associativity c = assoc" using built_Inr [OF assms(1)] by metis+
  obtain s where run: "rfold level_step (?t @ [(r2, m2, a2)]) ((c, st, e), []) = Inr (s,
      lru_results lvl S (unat assoc) (map g (?t @ [(r2, m2, a2)])))"
  proof -
    have "level c < n" using la assms(6) by simp
    moreover have "\<forall>(rnd, memid, addr) \<in> set (?t @ [(r2, m2, a2)]). memid < Capacity st \<and> GetStorage addr c \<noteq> 0"
      using assms(7) by simp
    ultimately show ?thesis using that holds_run [OF h assms(5), of "?t @ [(r2, m2, a2)]" e] unfolding la S_def g_def by blast
  qed
  have lst: "map g (?t @ [(r2, m2, a2)]) = map g ?t @ [x]" using assms(8) by (simp add: g_def x_def)
  let ?r = "lru_result lvl S (unat assoc) (map g ?t) x"
  have "x \<notin> set (stores_of S (unat x mod S) (map g t2))" using assms(9) by (auto simp: g_def x_def stores_of_def)
  moreover have "stores_of S (unat x mod S) (map g ?t) = stores_of S (unat x mod S) (map g t1) @ x # stores_of S (unat x mod S) (map g t2)"
    by (simp add: stores_of_def g_def x_def)
  ultimately have "?r = INVALID_CACHE_LEVEL \<longleftrightarrow> card (set (stores_of S (unat x mod S) (map g t2))) < unat assoc"
    using assms(4) by (simp add: lru_result_def in_lru_set)
  moreover have "set (stores_of S (unat x mod S) (map g t2)) = {GetStorage addr c | rnd memid addr. (rnd, memid, addr) \<in> set t2 \<and>
      unat (GetStorage addr c) mod unat (countsets c) = unat (GetStorage a1 c) mod unat (countsets c)}"
    by (auto simp: stores_of_def g_def x_def S_def image_iff) force
  moreover have "rfold level_step (t1 @ (r1, m1, a1) # t2 @ [(r2, m2, a2)]) ((c, st, e), []) =
      Inr (s, lru_results lvl S (unat assoc) (map g ?t) @ [?r])"
    using run unfolding lst lru_results_snoc by simp
  ultimately show ?thesis by (intro exI conjI) simp_all
qed

text \<open>A level with two sets of two lines, looked up through the map, and the accesses it is tried on.\<close>

definition ex_level :: "CacheLevel res" where
  "ex_level = built CacheLevelType_InclusiveHighassoc 2 0 256 2 64 ReplacementPolicy_trulru 0 0"

definition ex_trace :: "(u32 \<times> u32 \<times> u64) list" where
  "ex_trace = [(0, 0, 64), (0, 0, 192), (0, 0, 320), (0, 0, 200)]"

definition no_evict :: EvictionInfo where
  "no_evict = \<lparr> evict_addr = 0, evict_level = INVALID_CACHE_LEVEL, evict_setid = 0, evict_lineid = 0 \<rparr>"

lemma ex_level_ok: obtains c where "ex_level = Inr c" and "countsets c = 2"
  and "\<forall>(rnd, memid, addr) \<in> set ex_trace. memid = 0 \<and> GetStorage addr c \<noteq> 0"
  and "GetStorage 200 c = GetStorage 192 c" and "GetStorage 320 c \<noteq> GetStorage 192 c"
proof -
  have "case ex_level of Inr c \<Rightarrow> countsets c = 2 \<and>
    (\<forall>(rnd, memid, addr) \<in> set ex_trace. memid = 0 \<and> GetStorage addr c \<noteq> 0) \<and>
    GetStorage 200 c = GetStorage 192 c \<and> GetStorage 320 c \<noteq> GetStorage 192 c | Inl _ \<Rightarrow> False"
    by code_simp
  then obtain c where "ex_level = Inr c" "countsets c = 2 \<and>
    (\<forall>(rnd, memid, addr) \<in> set ex_trace. memid = 0 \<and> GetStorage addr c \<noteq> 0) \<and>
    GetStorage 200 c = GetStorage 192 c \<and> GetStorage 320 c \<noteq> GetStorage 192 c" by (rule res_caseE)
  then show ?thesis by (intro that [of c]) blast+
qed

lemma trulru_level_correct_witness:
  "\<exists>c st c' st'. ex_level = Inr c \<and> rfold level_step ex_trace ((c, st, no_evict), []) = Inr ((c', st', no_evict),
     lru_results 0 (unat (countsets c)) (unat (2 :: u32)) (map (\<lambda>(rnd, memid, addr). GetStorage addr c) ex_trace))"
proof -
  obtain c where c: "ex_level = Inr c" "countsets c = 2"
    "\<forall>(rnd, memid, addr) \<in> set ex_trace. memid = 0 \<and> GetStorage addr c \<noteq> 0" by (rule ex_level_ok)
  obtain st where st: "stats_shape 1 st" "Capacity st = 1" by (rule CacheStats_new_consistent [of 1 0 1]) simp_all
  have "\<exists>c' st'. rfold level_step ex_trace ((c, st, no_evict), []) = Inr ((c', st', no_evict),
     lru_results 0 (unat (countsets c)) (unat (2 :: u32)) (map (\<lambda>(rnd, memid, addr). GetStorage addr c) ex_trace))"
    by (rule trulru_level_correct [OF c(1) [unfolded ex_level_def], of 1]) (use c st in auto)
  then show ?thesis using c(1) by blast
qed

lemma trulru_stack_distance_witness:
  "\<exists>c st s outs. ex_level = Inr c \<and>
     rfold level_step ([(0, 0, 64)] @ (0, 0, 192) # [(0, 0, 320)] @ [(0, 0, 200)]) ((c, st, no_evict), []) =
     Inr (s, outs @ [INVALID_CACHE_LEVEL])"
proof -
  obtain c where c: "ex_level = Inr c" "countsets c = 2"
    "\<forall>(rnd, memid, addr) \<in> set ex_trace. memid = 0 \<and> GetStorage addr c \<noteq> 0"
    "GetStorage 200 c = GetStorage 192 c" "GetStorage 320 c \<noteq> GetStorage 192 c" by (rule ex_level_ok)
  obtain st where st: "stats_shape 1 st" "Capacity st = 1" by (rule CacheStats_new_consistent [of 1 0 1]) simp_all
  let ?set = "{GetStorage addr c | rnd memid addr. (rnd, memid, addr) \<in> set [(0 :: u32, 0 :: u32, 320)] \<and>
      unat (GetStorage addr c) mod unat (countsets c) = unat (GetStorage 192 c) mod unat (countsets c)}"
  have "card ?set \<le> card {GetStorage 320 c}" by (intro card_mono) auto
  then have "card ?set < unat (2 :: u32)" by simp
  moreover have "\<exists>s outs r. rfold level_step ([(0, 0, 64)] @ (0, 0, 192) # [(0, 0, 320)] @ [(0, 0, 200)]) ((c, st, no_evict), []) =
      Inr (s, outs @ [r]) \<and> (r = INVALID_CACHE_LEVEL \<longleftrightarrow> card ?set < unat (2 :: u32))"
    by (rule trulru_stack_distance [OF c(1) [unfolded ex_level_def], of 1])
      (use c st in \<open>auto simp: ex_trace_def INVALID_CACHE_LEVEL_def\<close>)
  ultimately show ?thesis using c(1) by blast
qed

section \<open>Lines and addresses\<close>

lemma line_bits_floorlog:
  "unat bits + floorlog 2 (unat n) < 2 ^ 32 \<Longrightarrow> unat (line_bits bits n) = unat bits + floorlog 2 (unat n)"
proof (induction bits n rule: line_bits.induct)
  case (1 bits n)
  show ?case
  proof (cases "n = 0")
    case True
    then show ?thesis by (subst line_bits.simps) (simp add: floorlog_def)
  next
    case False
    then have n: "n > 0" by (simp add: word_neq_0_conv)
    have u: "unat n > 0" using n by (simp add: word_less_nat_alt)
    have f: "floorlog 2 (unat n) = Suc (floorlog 2 (unat (drop_bit 1 n)))"
      using u by (subst compute_floorlog) (simp add: unat_drop_bit)
    have b: "unat (bits + 1) = Suc (unat bits)"
      using 1(2) f unat_add_lem [of bits 1] by simp
    show ?thesis using 1 n f b by (subst line_bits.simps) simp
  qed
qed

theorem GetStorage_line:
  assumes "built ty mha lvl sz assoc lineSz pol f l = Inr c" and "unat lineSz = 2 ^ k"
  shows "unat (GetStorage addr c) = unat addr div unat lineSz"
proof -
  obtain c0 where "CacheLevel_Init lvl sz assoc lineSz pol = Inr c0" "linesizeBits c = linesizeBits c0"
    using built_Inr [OF assms(1)] by metis
  then have b: "linesizeBits c = line_bits 0 lineSz - 1" using CacheLevel_Init_Inr(5) by simp
  have "(2 :: nat) ^ k < 2 ^ 32" using u32_lt [of lineSz] assms(2) by simp
  then have k: "k < 32" by (rule power_less_imp_less_exp [rotated]) simp
  have "floorlog 2 (2 ^ k) = k + 1" using floorlog_power [of 1 2 k] by (simp add: floorlog_def)
  then have u: "unat (line_bits 0 lineSz) = k + 1" using line_bits_floorlog [of 0 lineSz] assms(2) k by simp
  then have "line_bits 0 lineSz \<noteq> 0" by auto
  then have "unat (linesizeBits c) = k" using u b by (simp add: unat_minus_one)
  then show ?thesis using assms(2) by (simp add: GetStorage_def unat_drop_bit)
qed

section \<open>Where the simulation departs from a cache\<close>

text \<open>
  The lines start as 0 and nothing marks them as empty: a scan finds store 0 in a cache nothing was
  loaded into, a look-up in the map does not.
\<close>

text \<open>
  The first access to store 0 hits in a new level that scans its sets and misses in one that
  looks them up.
\<close>

theorem first_access_store_zero:
  assumes "built ty mha lvl sz assoc lineSz pol f l = Inr c" and "\<not> IsExclusive c" and "countsets c \<noteq> 0"
    and "pol \<noteq> ReplacementPolicy_Undefined" and "pol \<noteq> ReplacementPolicy_trulru \<or> 2 \<le> assoc"
    and "stats_shape n st" and "memid < Capacity st" and "lvl < n" and "GetStorage addr c = 0"
  shows "\<exists>s. CacheLevel_Process rnd memid addr (c, st, e) =
    Inr (s, if ty = CacheLevelType_InclusiveLowassoc then INVALID_CACHE_LEVEL else lvl + 1)"
proof -
  have wf: "level_wf c" by (rule built_wf [OF assms(1,3,4)]) (use assms(5) in \<open>simp add: word_le_nat_alt\<close>)
  obtain c0 where c0: "CacheLevel_Init lvl sz assoc lineSz pol = Inr c0" and F: "ctype c = ty" "level c = lvl"
    "associativity c = assoc" "countsets c = countsets c0" "contents c = contents c0"
    and h: "high_assoc c \<Longrightarrow> fastcontents c = replicate (unat (countsets c)) Map.empty"
    using built_Inr [OF assms(1)] by metis
  have ok: "stats_ok n memid (level c) st" using assms(6-8) F by (simp add: stats_ok_def)
  obtain s found where s: "Search 0 c = Inr (s, found)" "s < countsets c"
    and fl: "\<And>l. found = Some l \<Longrightarrow> l < associativity c"
    and low: "\<not> high_assoc c \<Longrightarrow> found = None \<Longrightarrow> 0 \<notin> set (contents c ! unat s)"
    and high: "high_assoc c \<Longrightarrow> found = (fastcontents c ! unat s) 0"
    using Search_wf [OF wf, of 0] by metis
  have su: "unat s < unat (countsets c)" using s(2) by (simp add: word_less_nat_alt)
  have "contents c ! unat s = replicate (unat assoc) 0" using CacheLevel_Init_Inr(6) [OF c0] su F by simp
  moreover have "unat assoc \<noteq> 0" using level_wfD(2) [OF wf] F by (simp add: unat_eq_0)
  ultimately have f: "found = None \<longleftrightarrow> high_assoc c" using low high h su by auto
  have ty: "high_assoc c \<longleftrightarrow> ty \<noteq> CacheLevelType_InclusiveLowassoc"
  proof -
    have "ty \<noteq> CacheLevelType_Undefined" using assms(1) by (auto simp: built_def)
    then show ?thesis using assms(2) F(1) by (cases ty) (auto simp: high_assoc_def IsExclusive_def)
  qed
  show ?thesis
  proof (cases found)
    case (Some k)
    obtain st' where hs: "Hit memid (level c) st = Inr st'" using Hit_Inr [OF ok] by metis
    obtain c' where m: "MarkUsed s k c = Inr c'" using MarkUsed_wf [OF wf s(2) fl [OF Some]] by metis
    have "ty = CacheLevelType_InclusiveLowassoc" using f Some ty by simp
    then show ?thesis using s(1) assms(9) by (simp add: CacheLevel_Process_def Let_def Some hs m)
  next
    case None
    obtain st' where hs: "Miss memid (level c) st = Inr st'" using Miss_Inr [OF ok] by metis
    obtain k where k: "LineToReplace rnd s c = Inr k" "k < associativity c" using LineToReplace_wf [OF wf s(2)] by metis
    obtain c' where m: "Replace 0 s k c = Inr (c', contents c ! unat s ! unat k)" "config c' = config c"
      using Replace_wf [OF wf s(2) k(2)] by metis
    have "ty \<noteq> CacheLevelType_InclusiveLowassoc" using f None ty by simp
    then show ?thesis using s(1) assms(9) config_fields(2) [OF m(2)] hs
      by (simp add: CacheLevel_Process_def Let_def None k m(1) F(2))
  qed
qed

lemma first_access_store_zero_witness:
  "\<exists>c st s. ex_level = Inr c \<and> CacheLevel_Process 0 0 0 (c, st, no_evict) = Inr (s, 1)"
proof -
  obtain c where c: "ex_level = Inr c" "countsets c = 2" by (rule ex_level_ok)
  obtain st where st: "stats_shape 1 st" "Capacity st = 1" by (rule CacheStats_new_consistent [of 1 0 1]) simp_all
  have "ctype c = CacheLevelType_InclusiveHighassoc" using built_Inr [OF c(1) [unfolded ex_level_def]] by metis
  then have "\<not> IsExclusive c" by (simp add: IsExclusive_def)
  then have "\<exists>s. CacheLevel_Process 0 0 0 (c, st, no_evict) = Inr (s,
      if CacheLevelType_InclusiveHighassoc = CacheLevelType_InclusiveLowassoc then INVALID_CACHE_LEVEL else 0 + 1)"
    by (rule first_access_store_zero [OF c(1) [unfolded ex_level_def], where n = 1])
      (use c st in \<open>simp_all add: GetStorage_def\<close>)
  then have "\<exists>s. CacheLevel_Process 0 0 0 (c, st, no_evict) = Inr (s, 1)" by simp
  then show ?thesis using c(1) by blast
qed

text \<open>
  With one line in a set the successor of line 0 is line 1: the first access moves the head of the
  set to a line that does not exist, the next miss writes there.
\<close>

theorem trulru_one_line_out_of_bounds:
  "rbind (Inclusive_Init 0 64 1 64 ReplacementPolicy_trulru) (\<lambda>c. rbind (CacheStats_new 1 0 1) (\<lambda>st.
     rfold level_step [(0, 0, 64), (0, 0, 128)] ((c, st, no_evict), []))) = Inl OutOfBounds"
proof -
  have "case rbind (Inclusive_Init 0 64 1 64 ReplacementPolicy_trulru) (\<lambda>c. rbind (CacheStats_new 1 0 1) (\<lambda>st.
     rfold level_step [(0, 0, 64), (0, 0, 128)] ((c, st, no_evict), []))) of Inl e \<Rightarrow> e = OutOfBounds | Inr _ \<Rightarrow> False"
    by code_simp
  then show ?thesis by (simp split: sum.splits)
qed

section \<open>Not the most recently used line\<close>

text \<open>Under \<open>nmru\<close> the line of the last access to a set is not the one the next miss replaces.\<close>

lemma nmru_protects:
  assumes wf: "level_wf c" and pol: "replpolicy c = ReplacementPolicy_nmru" and a: "2 \<le> associativity c"
    and s: "s < countsets c" and l: "l < associativity c" and m: "MarkUsed s l c = Inr c'"
    and k: "LineToReplace rnd s c' = Inr k"
  shows "k \<noteq> l"
proof -
  have len: "unat s < length (recentlyUsed c)" using wf pol s by (simp add: level_wf_def nmru_wf_def word_less_nat_alt)
  have c': "c' = c \<lparr> recentlyUsed := (recentlyUsed c)[unat s := l] \<rparr>" using m pol len by (simp add: MarkUsed_def)
  have nz: "associativity c \<noteq> 0" using l by auto
  have k': "k = (l + 1) mod associativity c" using k pol len nz by (simp add: c' LineToReplace_def)
  have b: "unat l < unat (associativity c)" "2 \<le> unat (associativity c)"
    using l a by (simp_all add: word_less_nat_alt word_le_nat_alt)
  have "unat (l + 1) = unat l + 1" using b(1) u32_lt [of "associativity c"] by (simp add: unat_word_ariths)
  then have uk: "unat k = (unat l + 1) mod unat (associativity c)" by (simp add: k' unat_mod)
  show ?thesis
  proof (cases "unat l + 1 = unat (associativity c)")
    case True
    then have "unat k = 0" using uk by simp
    then show ?thesis using True b(2) by auto
  next
    case False
    then have "unat k = unat l + 1" using uk b(1) by simp
    then show ?thesis by auto
  qed
qed

end
