(* ===== verification/Cache_Structure.thy ===== *)
theory Cache_Structure
  imports Cache_Policy
begin

text \<open>
  A whole simulated cache: the class \<open>CacheStructureHandler\<close> of \<open>instcode/Simulation.hpp\<close> and
  \<open>instcode/Simulation.cpp\<close> with the parsing of a line of the description file, the check of the structure
  and the walk of one access through the levels. A pointer of the array of levels that is not set
  yet is \<open>None\<close>.
\<close>

section \<open>Numbers in a description\<close>

text \<open>
  \<open>stream >> val\<close> with an \<open>int32_t\<close>: an optional sign, then digits. Without a digit the value
  is 0 and outside the range of the type it is the nearest bound; both fail.
\<close>

definition is_digit :: "char \<Rightarrow> bool" where
  "is_digit c \<longleftrightarrow> (of_char c :: nat) \<ge> 48 \<and> (of_char c :: nat) \<le> 57"

definition digits_val :: "string \<Rightarrow> int" where
  "digits_val ds = foldl (\<lambda>v d. 10 * v + int (of_char d - 48)) 0 ds"

definition read_int32 :: "string \<Rightarrow> bool \<times> int \<times> string" where
  "read_int32 s =
     (let neg = (take 1 s = ''-'');
          body = (if take 1 s = ''-'' \<or> take 1 s = ''+'' then drop 1 s else s);
          ds = takeWhile is_digit body;
          v = (if neg then - digits_val ds else digits_val ds);
          rest = dropWhile is_digit body
      in if ds = [] then (False, 0, rest)
         else if v > 2147483647 then (False, 2147483647, rest)
         else if v < -2147483648 then (False, -2147483648, rest)
         else (True, v, rest))"

definition ToLowerCase :: "char \<Rightarrow> char" where
  "ToLowerCase c = (let b = word_of_nat (of_char c) :: byte in if sint b < 97 then char_of (unat (b + 32)) else c)"

text \<open>
  The suffix. \<open>get\<close> at the end of the stream leaves its argument as it is, and \<open>eof\<close> is
  not set by the read of the last character.
\<close>

definition parse_suffix :: "string \<Rightarrow> u32 \<times> bool" where
  "parse_suffix rest = (case rest of
     [] \<Rightarrow> (1, True)
   | c # cs \<Rightarrow>
       let c = ToLowerCase c;
           (mult, ok) = (if c = CHR ''k'' then (1024, True) else if c = CHR ''m'' then (1048576, True)
             else if c = CHR ''g'' then (1073741824, True) else (1, False));
           c = ToLowerCase (case cs of [] \<Rightarrow> c | d # _ \<Rightarrow> d)
       in (mult, ok \<and> c = CHR ''b''))"

text \<open>The comparison with \<open>min\<close> is one of unsigned numbers.\<close>

definition ParseInt32 :: "string \<Rightarrow> u32 \<Rightarrow> bool \<times> u32" where
  "ParseInt32 token mn =
     (let (got, v, rest) = read_int32 token;
          (mult, ok) = (if got then parse_suffix rest else (1, True));
          ok = (if (word_of_int v :: u32) < mn then False else ok)
      in (ok, word_of_int v * mult))"

definition ParsePositiveInt32 :: "string \<Rightarrow> bool \<times> u32" where
  "ParsePositiveInt32 token = ParseInt32 token 1"

definition IsEmptyComment :: "string \<Rightarrow> bool" where
  "IsEmptyComment str \<longleftrightarrow> str = '''' \<or> take 1 str = ''#''"

section \<open>The handler\<close>

record CacheStructureHandler =
  sysId :: u32
  levelCount :: u32
  levels :: "CacheLevel option list"

definition get_level :: "CacheLevel option list \<Rightarrow> nat \<Rightarrow> CacheLevel res" where
  "get_level ls i = rbind (aget ls i) (\<lambda>p. case p of None \<Rightarrow> Inl UninitRead | Some c \<Rightarrow> Inr c)"

fun first_exclusive :: "CacheLevel option list \<Rightarrow> nat \<Rightarrow> nat \<Rightarrow> CacheLevel option res" where
  "first_exclusive ls i 0 = Inr None"
| "first_exclusive ls i (Suc k) = rbind (get_level ls i) (\<lambda>c.
     if IsExclusive c then Inr (Some c) else first_exclusive ls (Suc i) k)"

text \<open>Levels with different numbers of sets only cause a warning.\<close>

definition CacheStructure_Verify :: "CacheStructureHandler \<Rightarrow> bool res" where
  "CacheStructure_Verify h =
     (let passes = \<not> (levelCount h < 1 \<or> levelCount h > 3) in
      rbind (first_exclusive (levels h) 0 (unat (levelCount h))) (\<lambda>firstvc.
      case firstvc of
        None \<Rightarrow> Inr passes
      | Some v \<Rightarrow> rfold (\<lambda>i passes. rbind (get_level (levels h) i) (\<lambda>c. Inr (if \<not> IsExclusive c then False else passes)))
          [unat (level v)..<Suc (unat (LastExclusive v))] passes))"

definition parse_policy :: "string \<Rightarrow> ReplacementPolicy option" where
  "parse_policy token =
     (if take 3 token = ''lru'' then Some ReplacementPolicy_nmru
      else if take 4 token = ''rand'' then Some ReplacementPolicy_random
      else if take 6 token = ''trulru'' then Some ReplacementPolicy_trulru
      else if take 3 token = ''dir'' then Some ReplacementPolicy_direct
      else None)"

definition is_victim :: "string \<Rightarrow> bool" where
  "is_victim token \<longleftrightarrow> drop (length token - 3) token = ''_vc''"

text \<open>The variables of the loop of \<open>Init\<close> besides the members.\<close>

record init_state =
  ini_handler :: CacheStructureHandler
  cacheValues :: "u32 list"
  firstExcl :: u32

definition level_type :: "u32 \<Rightarrow> u32 \<Rightarrow> u32 \<Rightarrow> CacheLevelType" where
  "level_type mha assoc first =
     (if assoc \<ge> mha then
        (if first \<noteq> INVALID_CACHE_LEVEL then CacheLevelType_ExclusiveHighassoc else CacheLevelType_InclusiveHighassoc)
      else (if first \<noteq> INVALID_CACHE_LEVEL then CacheLevelType_ExclusiveLowassoc else CacheLevelType_InclusiveLowassoc))"

text \<open>
  The last token of a level: policy, victim cache, then the level itself. \<open>None\<close> is \<open>return false\<close>.
\<close>

definition init_level :: "u32 \<Rightarrow> string \<Rightarrow> u32 \<Rightarrow> init_state \<Rightarrow> init_state option res" where
  "init_level mha token levelId s = (case parse_policy token of
     None \<Rightarrow> Inr None
   | Some repl \<Rightarrow>
       let s = (if is_victim token \<and> firstExcl s = INVALID_CACHE_LEVEL then s \<lparr> firstExcl := levelId \<rparr> else s);
           h = ini_handler s;
           sz = cacheValues s ! 0; assoc = cacheValues s ! 1; lineSize = cacheValues s ! 2
       in if sz < lineSize then Inr None
          else rbind (built (level_type mha assoc (firstExcl s)) mha levelId sz assoc lineSize repl (firstExcl s) (levelCount h - 1)) (\<lambda>c.
               rbind (aput (unat levelId) (Some c) (levels h)) (\<lambda>ls.
               Inr (Some (s \<lparr> ini_handler := h \<lparr> levels := ls \<rparr> \<rparr>)))))"

definition init_token :: "u32 \<Rightarrow> string \<Rightarrow> u32 \<Rightarrow> init_state \<Rightarrow> init_state option res" where
  "init_token mha token whichTok s =
     (if whichTok = 0 then
        let (ok, v) = ParseInt32 token 0 in
        Inr (if ok then Some (s \<lparr> ini_handler := (ini_handler s) \<lparr> sysId := v \<rparr> \<rparr>) else None)
      else if whichTok = 1 then
        let (ok, v) = ParsePositiveInt32 token in
        Inr (if ok then Some (s \<lparr> ini_handler := (ini_handler s) \<lparr> levelCount := v, levels := replicate (unat v) None \<rparr> \<rparr>) else None)
      else let idx = (whichTok - 2) mod 4 in
        if idx < 3 then
          let (ok, v) = ParsePositiveInt32 token in
          Inr (if ok then Some (s \<lparr> cacheValues := (cacheValues s)[unat idx := v] \<rparr>) else None)
        else init_level mha token ((whichTok - 2) div 4) s)"

fun init_loop :: "u32 \<Rightarrow> string list \<Rightarrow> u32 \<Rightarrow> init_state \<Rightarrow> (u32 \<times> init_state) option res" where
  "init_loop mha [] whichTok s = Inr (Some (whichTok, s))"
| "init_loop mha (token # ts) whichTok s =
     (if take 1 token = ''#'' then Inr (Some (whichTok, s))
      else rbind (init_token mha token whichTok s) (\<lambda>r.
        case r of None \<Rightarrow> Inr None | Some s \<Rightarrow> init_loop mha ts (whichTok + 1) s))"

text \<open>The tokens \<open>stringstream\<close> gives: the runs of characters between white space.\<close>

definition is_space :: "char \<Rightarrow> bool" where
  "is_space c \<longleftrightarrow> (of_char c :: nat) = 32 \<or> (of_char c :: nat) \<in> {9..13}"

function tokens :: "string \<Rightarrow> string list" where
  "tokens s = (let s = dropWhile is_space s in
     if s = [] then [] else takeWhile (\<lambda>c. \<not> is_space c) s # tokens (dropWhile (\<lambda>c. \<not> is_space c) s))"
  by auto
termination
proof (relation "measure length")
  fix s x :: string
  assume x: "x = dropWhile is_space s" and n: "x \<noteq> []"
  have "\<not> is_space (hd x)" using hd_dropWhile [of is_space s] x n by simp
  then have "length (dropWhile (\<lambda>c. \<not> is_space c) x) < length x"
    using n by (cases x) (simp_all add: length_dropWhile_le le_imp_less_Suc)
  also have "length x \<le> length s" unfolding x by (rule length_dropWhile_le)
  finally show "(dropWhile (\<lambda>c. \<not> is_space c) x, s) \<in> measure length" by simp
qed simp

declare tokens.simps [simp del]

definition CacheStructure_Init :: "u32 \<Rightarrow> string \<Rightarrow> CacheStructureHandler option res" where
  "CacheStructure_Init mha desc =
     rbind (init_loop mha (tokens desc) 0 \<lparr> ini_handler = \<lparr> sysId = 0, levelCount = 0, levels = [] \<rparr>,
       cacheValues = [0, 0, 0], firstExcl = INVALID_CACHE_LEVEL \<rparr>) (\<lambda>r.
     case r of
       None \<Rightarrow> Inr None
     | Some (whichTok, s) \<Rightarrow>
         if whichTok \<noteq> levelCount (ini_handler s) * 4 + 2 then Inr None
         else rbind (CacheStructure_Verify (ini_handler s)) (\<lambda>ok. Inr (if ok then Some (ini_handler s) else None)))"

text \<open>The copy constructor builds every level anew.\<close>

definition copy_level :: "u32 \<Rightarrow> CacheLevel \<Rightarrow> CacheLevel res" where
  "copy_level mha c = ASSERT (ctype c \<noteq> CacheLevelType_Undefined)
     (built (ctype c) mha (level c) (sizeInBytes c) (associativity c) (linesize c) (replpolicy c) (FirstExclusive c) (LastExclusive c))"

definition CacheStructure_copy :: "u32 \<Rightarrow> CacheStructureHandler \<Rightarrow> CacheStructureHandler res" where
  "CacheStructure_copy mha h =
     rbind (rmap (\<lambda>i. rbind (get_level (levels h) i) (copy_level mha)) [0..<unat (levelCount h)]) (\<lambda>ls.
     Inr (h \<lparr> levels := map Some ls \<rparr>))"

section \<open>One access\<close>

type_synonym hstate = "CacheLevel option list \<times> CacheStats \<times> EvictionInfo"

text \<open>
  The loop of \<open>Process\<close>. \<open>rnd k\<close> is what \<open>rand()\<close> returns if it is called when \<open>k\<close> rounds are
  left; a run that needs more rounds than given does not end.
\<close>

fun process_loop :: "nat \<Rightarrow> (nat \<Rightarrow> u32) \<Rightarrow> u32 \<Rightarrow> u64 \<Rightarrow> u32 \<Rightarrow> u32 \<Rightarrow> hstate \<Rightarrow> hstate res" where
  "process_loop 0 rnd memid victim count cur s = (if cur < count then Inl Diverges else Inr s)"
| "process_loop (Suc k) rnd memid victim count cur s = (if cur < count then
     (case s of (ls, st, e) \<Rightarrow>
       rbind (get_level ls (unat cur)) (\<lambda>c.
       rbind (Level_Process (rnd k) memid victim (c, st, e)) (\<lambda>((c, st, e), cur').
       process_loop k rnd memid victim count cur' (ls[unat cur := Some c], st, e))))
     else Inr s)"

text \<open>\<open>evictInfo\<close> starts with only its level set; the other members are written before they are read.\<close>

definition CacheStructure_Process ::
  "nat \<Rightarrow> (nat \<Rightarrow> u32) \<Rightarrow> BufferEntry \<Rightarrow> CacheStructureHandler \<times> CacheStats \<Rightarrow> (CacheStructureHandler \<times> CacheStats) res" where
  "CacheStructure_Process rounds rnd access = (\<lambda>(h, stats).
     rbind (process_loop rounds rnd (ucast (memseq access)) (address access) (levelCount h) 0 (levels h, stats, no_evict)) (\<lambda>(ls, stats, e).
     Inr (h \<lparr> levels := ls \<rparr>, stats)))"

section \<open>Well-formed structures\<close>

text \<open>
  \<open>n\<close> levels, each set and numbered by its place; from level \<open>F\<close> on they are exclusive and know
  the first and the last of their kind.
\<close>

definition struct_wf :: "u32 \<Rightarrow> nat \<Rightarrow> CacheLevel option list \<Rightarrow> bool" where
  "struct_wf n F ls \<longleftrightarrow> n < INVALID_CACHE_LEVEL \<and> length ls = unat n \<and> (\<forall>i < unat n. \<exists>c. ls ! i = Some c \<and>
     unat (level c) = i \<and> level_wf c \<and> (IsExclusive c \<longleftrightarrow> F \<le> i) \<and>
     (F \<le> i \<longrightarrow> unat (FirstExclusive c) = F \<and> LastExclusive c = n - 1))"

lemma struct_wfE:
  assumes "struct_wf n F ls" and "i < unat n"
  obtains c where "get_level ls i = Inr c" and "ls ! i = Some c" and "unat (level c) = i" and "level_wf c"
    and "IsExclusive c \<longleftrightarrow> F \<le> i" and "F \<le> i \<Longrightarrow> unat (FirstExclusive c) = F \<and> LastExclusive c = n - 1"
  using assms by (auto simp: struct_wf_def get_level_def)

lemma struct_wf_update:
  assumes "struct_wf n F ls" and "ls ! i = Some c" and "i < unat n" and "config c' = config c" and "level_wf c'"
  shows "struct_wf n F (ls[i := Some c'])"
  using assms config_fields [OF assms(4)] by (auto simp: struct_wf_def nth_list_update)

lemma unat_Suc_level: "unat (l :: u32) < unat n \<Longrightarrow> n < INVALID_CACHE_LEVEL \<Longrightarrow> unat (l + 1) = Suc (unat l)"
  using unat_add_lem [of l 1] by (simp add: INVALID_CACHE_LEVEL_def word_less_nat_alt)

lemma below_INVALID: "n < INVALID_CACHE_LEVEL \<Longrightarrow> unat (l :: u32) \<le> unat n \<Longrightarrow> l \<noteq> INVALID_CACHE_LEVEL"
  by (auto simp: word_less_nat_alt)

section \<open>The walk through the levels\<close>

text \<open>Moving the evicted stores outwards, up to the level the store was found in.\<close>

lemma evict_walk:
  assumes "struct_wf n F ls" and "unat cur + d = unat (evict_level e)" and "F \<le> unat cur"
    and "unat (evict_level e) \<le> unat n" and "Suc d \<le> k"
    and "\<And>c. unat (evict_level e) < unat n \<Longrightarrow> ls ! unat (evict_level e) = Some c \<Longrightarrow> evict_lineid e < associativity c"
  shows "\<exists>ls' e'. process_loop k rnd memid victim n cur (ls, st, e) = Inr (ls', st, e') \<and> struct_wf n F ls'"
  using assms
proof (induction k arbitrary: cur d ls e)
  case (Suc k)
  have nI: "n < INVALID_CACHE_LEVEL" using Suc.prems(1) by (simp add: struct_wf_def)
  show ?case
  proof (cases "cur < n")
    case False
    then show ?thesis using Suc.prems(1) by simp
  next
    case True
    then have cn: "unat cur < unat n" by (simp add: word_less_nat_alt)
    obtain c where c: "get_level ls (unat cur) = Inr c" "ls ! unat cur = Some c" "unat (level c) = unat cur" "level_wf c"
      "IsExclusive c" using struct_wfE [OF Suc.prems(1) cn] Suc.prems(3) by metis
    have lc: "level c = cur" using c(3) by (rule word_eq_unatI)
    have "evict_ok e c" using Suc.prems(6) [of c] c(2) lc cn by (auto simp: evict_ok_def)
    then obtain c' a where p: "Exclusive_Process (rnd k) memid victim (c, st, e) =
        Inr ((c', st, e \<lparr> evict_addr := a \<rparr>), if cur = evict_level e then INVALID_CACHE_LEVEL else cur + 1)"
      and c': "config c' = config c" "level_wf c'"
      using Exclusive_Process_evict [OF c(4) below_INVALID [OF nI Suc.prems(4)], of "rnd k" memid victim st] unfolding lc by metis
    let ?ls = "ls[unat cur := Some c']"
    have wf': "struct_wf n F ?ls" by (rule struct_wf_update [OF Suc.prems(1) c(2) cn c'])
    show ?thesis
    proof (cases d)
      case 0
      then have "cur = evict_level e" using Suc.prems(2) by (intro word_eq_unatI) simp
      moreover have "\<not> INVALID_CACHE_LEVEL < n" using nI by auto
      then have "process_loop k rnd memid victim n INVALID_CACHE_LEVEL (?ls, st, e \<lparr> evict_addr := a \<rparr>) = Inr (?ls, st, e \<lparr> evict_addr := a \<rparr>)"
        by (cases k) simp_all
      ultimately show ?thesis using True wf' c(1,5) p by (simp add: Level_Process_def)
    next
      case (Suc d')
      have u: "unat (cur + 1) = Suc (unat cur)" by (rule unat_Suc_level [OF cn nI])
      have neu: "unat cur \<noteq> unat (evict_level e)" using Suc.prems(2) Suc by simp
      then have ne: "cur \<noteq> evict_level e" by blast
      have "\<exists>ls' e'. process_loop k rnd memid victim n (cur + 1) (?ls, st, e \<lparr> evict_addr := a \<rparr>) = Inr (ls', st, e') \<and> struct_wf n F ls'"
      proof (rule Suc.IH [OF wf'])
        show "unat (cur + 1) + d' = unat (evict_level (e \<lparr> evict_addr := a \<rparr>))" using Suc.prems(2) u Suc by simp
        show "evict_lineid (e \<lparr> evict_addr := a \<rparr>) < associativity c1"
          if "unat (evict_level (e \<lparr> evict_addr := a \<rparr>)) < unat n" "?ls ! unat (evict_level (e \<lparr> evict_addr := a \<rparr>)) = Some c1" for c1
          using Suc.prems(6) [of c1] that neu by simp
      qed (use Suc.prems u Suc in simp_all)
      then show ?thesis using True c(1,5) p ne by (simp add: Level_Process_def)
    qed
  qed
qed simp

text \<open>What one access adds to the counters: a miss at every level it passes and a hit at level \<open>m\<close>.\<close>

definition bump :: "nat \<Rightarrow> nat \<Rightarrow> LevelStats \<Rightarrow> LevelStats" where
  "bump m j l = (if j < m then l \<lparr> missCount := missCount l + 1 \<rparr>
     else if j = m then l \<lparr> hitCount := hitCount l + 1 \<rparr> else l)"

definition walked :: "u32 \<Rightarrow> u32 \<Rightarrow> nat \<Rightarrow> nat \<Rightarrow> CacheStats \<Rightarrow> CacheStats \<Rightarrow> bool" where
  "walked n memid i m st st' \<longleftrightarrow> stats_shape n st' \<and> Capacity st' = Capacity st \<and>
     (\<forall>a < Capacity st. \<forall>j < unat n. level_stats st' a j =
        (if a = memid \<and> i \<le> j then bump m j (level_stats st a j) else level_stats st a j))"

lemma walked_refl: "stats_shape n st \<Longrightarrow> walked n memid (unat n) m st st"
  by (simp add: walked_def)

lemma walked_hit:
  assumes "Hit memid lvl st = Inr st'" and "stats_ok n memid lvl st"
  shows "walked n memid (unat lvl) (unat lvl) st st'"
proof -
  obtain st2 where st2: "Hit memid lvl st = Inr st2" "stats_shape n st2" "Capacity st2 = Capacity st"
    "\<And>a j. a < Capacity st \<Longrightarrow> j < unat n \<Longrightarrow> level_stats st2 a j = (if a = memid \<and> j = unat lvl
      then (level_stats st a j) \<lparr> hitCount := hitCount (level_stats st a j) + 1 \<rparr> else level_stats st a j)"
    using Hit_Inr [OF assms(2)] by metis
  have "st2 = st'" using st2(1) assms(1) by simp
  with st2 show ?thesis by (simp add: walked_def bump_def)
qed

lemma walked_miss:
  assumes "Miss memid lvl st = Inr st1" and ok: "stats_ok n memid lvl st"
    and w: "walked n memid (Suc (unat lvl)) m st1 st'" and m: "unat lvl < m"
  shows "walked n memid (unat lvl) m st st'"
proof -
  obtain st2 where st2: "Miss memid lvl st = Inr st2" "Capacity st2 = Capacity st"
    "\<And>a j. a < Capacity st \<Longrightarrow> j < unat n \<Longrightarrow> level_stats st2 a j = (if a = memid \<and> j = unat lvl
      then (level_stats st a j) \<lparr> missCount := missCount (level_stats st a j) + 1 \<rparr> else level_stats st a j)"
    using Miss_Inr [OF ok] by metis
  have "st2 = st1" using st2(1) assms(1) by simp
  with st2 have c: "Capacity st1 = Capacity st"
    and l: "\<And>a j. a < Capacity st \<Longrightarrow> j < unat n \<Longrightarrow> level_stats st1 a j = (if a = memid \<and> j = unat lvl
      then (level_stats st a j) \<lparr> missCount := missCount (level_stats st a j) + 1 \<rparr> else level_stats st a j)"
    by simp_all
  show ?thesis
    unfolding walked_def
  proof (intro conjI allI impI)
    fix a j assume a: "a < Capacity st" and j: "j < unat n"
    have "level_stats st' a j = (if a = memid \<and> Suc (unat lvl) \<le> j then bump m j (level_stats st1 a j) else level_stats st1 a j)"
      using w a j c by (simp add: walked_def)
    then show "level_stats st' a j = (if a = memid \<and> unat lvl \<le> j then bump m j (level_stats st a j) else level_stats st a j)"
      using l [OF a j] m by (auto simp: bump_def)
  qed (use w c in \<open>simp_all add: walked_def\<close>)
qed

lemma process_loop_stop: "n < INVALID_CACHE_LEVEL \<Longrightarrow> process_loop k rnd memid victim n INVALID_CACHE_LEVEL s = Inr s"
  by (cases k) (auto simp: INVALID_CACHE_LEVEL_def)

lemma lookup_walk:
  assumes "struct_wf n F ls" and "unat cur \<le> unat n" and "stats_shape n st" and "memid < Capacity st"
    and "evict_level e = INVALID_CACHE_LEVEL" and "F \<le> unat n" and "(unat n - unat cur) + (unat n - F) + 1 \<le> k"
  shows "\<exists>ls' st' e' m. process_loop k rnd memid victim n cur (ls, st, e) = Inr (ls', st', e') \<and> struct_wf n F ls' \<and>
    unat cur \<le> m \<and> m \<le> unat n \<and> walked n memid (unat cur) m st st'"
  using assms
proof (induction k arbitrary: cur ls st)
  case (Suc k)
  have nI: "n < INVALID_CACHE_LEVEL" using Suc.prems(1) by (simp add: struct_wf_def)
  show ?case
  proof (cases "cur < n")
    case False
    then have "unat cur = unat n" using Suc.prems(2) by (simp add: word_less_nat_alt)
    then show ?thesis using Suc.prems(1,3) False walked_refl by (auto intro!: exI [of _ "unat n"])
  next
    case True
    then have cn: "unat cur < unat n" by (simp add: word_less_nat_alt)
    obtain c where c: "get_level ls (unat cur) = Inr c" "ls ! unat cur = Some c" "unat (level c) = unat cur" "level_wf c"
      and ex: "IsExclusive c \<longleftrightarrow> F \<le> unat cur" and fl: "F \<le> unat cur \<Longrightarrow> unat (FirstExclusive c) = F \<and> LastExclusive c = n - 1"
      using struct_wfE [OF Suc.prems(1) cn] by metis
    have lc: "level c = cur" using c(3) by (rule word_eq_unatI)
    have ok: "stats_ok n memid cur st" using Suc.prems(3,4) True by (simp add: stats_ok_def)
    have u: "unat (cur + 1) = Suc (unat cur)" by (rule unat_Suc_level [OF cn nI])
    have cont: "\<exists>ls' st'' e' m. process_loop k rnd memid victim n (cur + 1) (ls1, st', e) = Inr (ls', st'', e') \<and> struct_wf n F ls' \<and>
        unat cur \<le> m \<and> m \<le> unat n \<and> walked n memid (unat cur) m st st''"
      if wf1: "struct_wf n F ls1" and miss: "Miss memid cur st = Inr st'" for ls1 st'
    proof -
      have sh: "stats_shape n st' \<and> Capacity st' = Capacity st"
        using Hit_Miss_shape [of False memid cur st st' n] miss ok by simp
      then have "\<exists>ls' st'' e' m. process_loop k rnd memid victim n (cur + 1) (ls1, st', e) = Inr (ls', st'', e') \<and> struct_wf n F ls' \<and>
        unat (cur + 1) \<le> m \<and> m \<le> unat n \<and> walked n memid (unat (cur + 1)) m st' st''"
        using Suc.prems cn u by (intro Suc.IH [OF wf1]) auto
      then obtain ls' st'' e' m where r: "process_loop k rnd memid victim n (cur + 1) (ls1, st', e) = Inr (ls', st'', e')"
        "struct_wf n F ls'" "Suc (unat cur) \<le> m" "m \<le> unat n" "walked n memid (Suc (unat cur)) m st' st''" using u by auto
      have "walked n memid (unat cur) m st st''" by (rule walked_miss [OF miss ok r(5)]) (use r(3) in simp)
      then show ?thesis using r by (intro exI [of _ ls'] exI [of _ st''] exI [of _ e'] exI [of _ m]) simp
    qed
    show ?thesis
    proof (cases "F \<le> unat cur")
      case False
      obtain c' st' hit where p: "CacheLevel_Process (rnd k) memid victim (c, st, e) =
          Inr ((c', st', e), if hit then INVALID_CACHE_LEVEL else cur + 1)"
        and c': "config c' = config c" "level_wf c'" and hm: "(if hit then Hit else Miss) memid cur st = Inr st'"
        using CacheLevel_Process_wf [OF c(4), of n memid st "rnd k" victim e] ok unfolding lc by metis
      let ?ls = "ls[unat cur := Some c']"
      have wf': "struct_wf n F ?ls" by (rule struct_wf_update [OF Suc.prems(1) c(2) cn c'])
      have run: "process_loop (Suc k) rnd memid victim n cur (ls, st, e) =
          process_loop k rnd memid victim n (if hit then INVALID_CACHE_LEVEL else cur + 1) (?ls, st', e)"
        using True c(1) ex False p by (simp add: Level_Process_def)
      show ?thesis
      proof (cases hit)
        case True
        then have "walked n memid (unat cur) (unat cur) st st'" using hm ok by (intro walked_hit) simp_all
        then show ?thesis using run wf' True cn process_loop_stop [OF nI] by auto
      next
        case False
        then show ?thesis using run cont [OF wf'] hm by simp
      qed
    next
      case True
      have ix: "IsExclusive c" using ex True by simp
      note fl = fl [OF True]
      have ok': "stats_ok n memid (level c) st" using ok lc by simp
      show ?thesis
      proof (cases rule: Exclusive_Process_lookup [OF c(4) ok' Suc.prems(5), of "rnd k" victim, case_names hit miss last])
        case (hit c' st' s l)
        let ?ls = "ls[unat cur := Some c']"
        let ?e = "\<lparr> evict_addr = GetStorage victim c, evict_level = cur, evict_setid = s, evict_lineid = l \<rparr>"
        have wf': "struct_wf n F ?ls" by (rule struct_wf_update [OF Suc.prems(1) c(2) cn hit(2,3)])
        have w: "walked n memid (unat cur) (unat cur) st st'" using hit(5) ok lc by (intro walked_hit) simp_all
        have run: "process_loop (Suc k) rnd memid victim n cur (ls, st, e) =
            process_loop k rnd memid victim n (if cur = FirstExclusive c then INVALID_CACHE_LEVEL else FirstExclusive c) (?ls, st', ?e)"
          using \<open>cur < n\<close> c(1) ix hit(1) lc by (simp add: Level_Process_def)
        show ?thesis
        proof (cases "cur = FirstExclusive c")
          case True
          then show ?thesis using run wf' w cn process_loop_stop [OF nI] by auto
        next
          case False
          have "\<exists>ls' e'. process_loop k rnd memid victim n (FirstExclusive c) (?ls, st', ?e) = Inr (ls', st', e') \<and> struct_wf n F ls'"
          proof (rule evict_walk [OF wf', where d = "unat cur - F"])
            show "evict_lineid ?e < associativity c1" if "?ls ! unat (evict_level ?e) = Some c1" for c1
              using that hit(2,4) cn Suc.prems(1) config_fields(3) [OF hit(2)] by (auto simp: struct_wf_def)
          qed (use fl True cn Suc.prems(7) in simp_all)
          then obtain ls' e' where r: "process_loop k rnd memid victim n (FirstExclusive c) (?ls, st', ?e) = Inr (ls', st', e')"
            "struct_wf n F ls'" by blast
          then show ?thesis using w cn False unfolding run
            by (intro exI [of _ ls'] exI [of _ st'] exI [of _ e'] exI [of _ "unat cur"]) simp
        qed
      next
        case (miss st')
        have wf': "struct_wf n F (ls[unat cur := Some c])" by (rule struct_wf_update [OF Suc.prems(1) c(2) cn refl c(4)])
        have "Miss memid cur st = Inr st'" using miss(3) lc by simp
        from cont [OF wf' this] show ?thesis using \<open>cur < n\<close> c(1) ix miss(1) lc by (simp add: Level_Process_def)
      next
        case (last st')
        let ?ls = "ls[unat cur := Some c]"
        let ?e = "e \<lparr> evict_level := LastExclusive c + 1, evict_addr := GetStorage victim c \<rparr>"
        have wf': "struct_wf n F ?ls" by (rule struct_wf_update [OF Suc.prems(1) c(2) cn refl c(4)])
        have ms: "Miss memid cur st = Inr st'" using last(3) lc by simp
        have cl: "cur = n - 1" using last(2) lc fl by simp
        have ln: "LastExclusive c + 1 = n" using fl by simp
        have un: "unat n = Suc (unat cur)" using u cl by simp
        have sh: "stats_shape n st' \<and> Capacity st' = Capacity st"
          using Hit_Miss_shape [of False memid cur st st' n] ms ok by simp
        have w: "walked n memid (unat cur) (unat n) st st'"
          by (rule walked_miss [OF ms ok]) (use walked_refl [of n st' memid "unat n"] sh un in simp_all)
        have "\<exists>ls' e'. process_loop k rnd memid victim n (FirstExclusive c) (?ls, st', ?e) = Inr (ls', st', e') \<and> struct_wf n F ls'"
          by (rule evict_walk [OF wf', where d = "unat n - F"]) (use fl ln Suc.prems(6,7) cn in simp_all)
        then obtain ls' e' where r: "process_loop k rnd memid victim n (FirstExclusive c) (?ls, st', ?e) = Inr (ls', st', e')"
          "struct_wf n F ls'" by blast
        have run: "process_loop (Suc k) rnd memid victim n cur (ls, st, e) =
            process_loop k rnd memid victim n (FirstExclusive c) (?ls, st', ?e)"
          using \<open>cur < n\<close> c(1) ix last(1) lc by (simp add: Level_Process_def)
        show ?thesis using r w cn unfolding run
          by (intro exI [of _ ls'] exI [of _ st'] exI [of _ e'] exI [of _ "unat n"]) simp
      qed
    qed
  qed
qed simp

section \<open>Runs of the whole structure\<close>

definition handler_wf :: "CacheStructureHandler \<Rightarrow> bool" where
  "handler_wf h \<longleftrightarrow> 0 < levelCount h \<and> (\<exists>F \<le> unat (levelCount h). struct_wf (levelCount h) F (levels h))"

text \<open>Twice the number of levels, and one round more, are enough for every access.\<close>

definition enough_rounds :: "CacheStructureHandler \<Rightarrow> nat \<Rightarrow> bool" where
  "enough_rounds h k \<longleftrightarrow> 2 * unat (levelCount h) + 1 \<le> k"

lemma CacheStructure_Process_walk:
  assumes h: "handler_wf h" and st: "stats_shape (levelCount h) st" "(ucast (memseq access) :: u32) < Capacity st"
    and k: "enough_rounds h k"
  obtains h' st' m where "CacheStructure_Process k rnd access (h, st) = Inr (h', st')" and "handler_wf h'"
    and "levelCount h' = levelCount h" and "m \<le> unat (levelCount h)"
    and "walked (levelCount h) (ucast (memseq access)) 0 m st st'"
proof -
  obtain F where F: "F \<le> unat (levelCount h)" "struct_wf (levelCount h) F (levels h)" using h by (auto simp: handler_wf_def)
  have "\<exists>ls' st' e' m. process_loop k rnd (ucast (memseq access)) (address access) (levelCount h) 0 (levels h, st, no_evict) =
      Inr (ls', st', e') \<and> struct_wf (levelCount h) F ls' \<and> unat (0 :: u32) \<le> m \<and> m \<le> unat (levelCount h) \<and>
      walked (levelCount h) (ucast (memseq access)) (unat (0 :: u32)) m st st'"
    by (rule lookup_walk [OF F(2)]) (use st F(1) k in \<open>simp_all add: no_evict_def enough_rounds_def\<close>)
  then obtain ls' st' e' m where r: "process_loop k rnd (ucast (memseq access)) (address access) (levelCount h) 0 (levels h, st, no_evict) =
      Inr (ls', st', e')" "struct_wf (levelCount h) F ls'" "m \<le> unat (levelCount h)"
      "walked (levelCount h) (ucast (memseq access)) 0 m st st'" by auto
  show ?thesis
    by (rule that [of "h \<lparr> levels := ls' \<rparr>" st' m])
      (use r h F(1) in \<open>auto simp: CacheStructure_Process_def handler_wf_def\<close>)
qed

text \<open>
  C39. One access ends within twice the number of levels and one more rounds, on well-formed
  structures, and leaves a well-formed structure.
\<close>

theorem Process_ends:
  assumes "handler_wf h" and "stats_shape (levelCount h) st" and "(ucast (memseq access) :: u32) < Capacity st"
    and "enough_rounds h k"
  shows "\<exists>h' st'. CacheStructure_Process k rnd access (h, st) = Inr (h', st') \<and> handler_wf h' \<and>
    levelCount h' = levelCount h \<and> stats_shape (levelCount h) st' \<and> Capacity st' = Capacity st"
  using CacheStructure_Process_walk [OF assms] unfolding walked_def by metis

text \<open>A well-formed structure: one level of one line.\<close>

lemma small_handler: obtains h where "CacheStructure_Init 256 ''1 1 64 1 64 dir'' = Inr (Some h)"
  and "handler_wf h" and "levelCount h = 1"
proof -
  have "case CacheStructure_Init 256 ''1 1 64 1 64 dir'' of Inr r \<Rightarrow> (case r of Some h \<Rightarrow> levelCount h = 1 \<and> length (levels h) = 1 \<and>
      (case levels h ! 0 of None \<Rightarrow> False | Some c \<Rightarrow> countsets c = 1 \<and> associativity c = 1 \<and> level c = 0 \<and>
        contents c = [[0]] \<and> replpolicy c = ReplacementPolicy_direct \<and> ctype c = CacheLevelType_InclusiveLowassoc)
      | None \<Rightarrow> False) | Inl _ \<Rightarrow> False"
    by code_simp
  then obtain h c where h: "CacheStructure_Init 256 ''1 1 64 1 64 dir'' = Inr (Some h)" "levelCount h = 1" "length (levels h) = 1"
    "levels h ! 0 = Some c" "countsets c = 1" "associativity c = 1" "level c = 0" "contents c = [[0]]"
    "replpolicy c = ReplacementPolicy_direct" "ctype c = CacheLevelType_InclusiveLowassoc"
    by (auto split: sum.splits option.splits)
  have "level_wf c" using h by (simp add: level_wf_def rows_wf_def high_assoc_def)
  then have "struct_wf 1 1 (levels h)"
    using h by (simp add: struct_wf_def INVALID_CACHE_LEVEL_def IsExclusive_def)
  then show ?thesis using h(1,2) by (intro that [of h]) (auto simp: handler_wf_def intro!: exI [of _ "1 :: nat"])
qed

lemma Process_ends_witness:
  "\<exists>h st h' st'. CacheStructure_Process 3 (\<lambda>_. 0) \<lparr> address = 64, memseq = 0, imageid = 1, threadid = 1 \<rparr> (h, st) =
     Inr (h', st') \<and> handler_wf h'"
proof -
  obtain h where h: "CacheStructure_Init 256 ''1 1 64 1 64 dir'' = Inr (Some h)" "handler_wf h" "levelCount h = 1"
    by (rule small_handler)
  obtain st where st: "stats_shape 1 st" "Capacity st = 1" by (rule CacheStats_new_consistent [of 1 0 1]) simp_all
  let ?a = "\<lparr> address = 64, memseq = 0, imageid = 1, threadid = 1 \<rparr>"
  have "\<exists>h' st'. CacheStructure_Process 3 (\<lambda>_. 0) ?a (h, st) = Inr (h', st') \<and> handler_wf h' \<and>
    levelCount h' = levelCount h \<and> stats_shape (levelCount h) st' \<and> Capacity st' = Capacity st"
    by (rule Process_ends) (use h st in \<open>simp_all add: enough_rounds_def\<close>)
  then show ?thesis by blast
qed

text \<open>A sequence of accesses, as \<open>ProcessBuffer\<close> makes them. Each comes with the numbers that \<open>rand\<close>
  returns while it is processed, one for each replacement it may make.\<close>

definition process_trace :: "nat \<Rightarrow> ((nat \<Rightarrow> u32) \<times> BufferEntry) list \<Rightarrow> CacheStructureHandler \<times> CacheStats \<Rightarrow>
    (CacheStructureHandler \<times> CacheStats) res" where
  "process_trace k = rfold (\<lambda>(rnd, x). CacheStructure_Process k rnd x)"

lemma walked_consistent:
  assumes w: "walked n memid 0 m st st'" and c: "consistent n st"
  shows "consistent n st'"
  unfolding consistent_def
proof (intro allI impI)
  fix a i assume a: "a < Capacity st'" and i: "Suc i < unat n"
  have ca: "a < Capacity st" using a w by (simp add: walked_def)
  have l: "level_stats st' a j = (if a = memid then bump m j (level_stats st a j) else level_stats st a j)" if "j < unat n" for j
    using w ca that by (simp add: walked_def)
  have "hitCount (level_stats st a (Suc i)) + missCount (level_stats st a (Suc i)) = missCount (level_stats st a i)"
    using c ca i by (simp add: consistent_def)
  then show "hitCount (level_stats st' a (Suc i)) + missCount (level_stats st' a (Suc i)) = missCount (level_stats st' a i)"
    using l [of i] l [of "Suc i"] i by (auto simp: bump_def algebra_simps)
qed

definition count_of :: "u32 \<Rightarrow> ((nat \<Rightarrow> u32) \<times> BufferEntry) list \<Rightarrow> nat" where
  "count_of a t = length (filter (\<lambda>(rnd, x). ucast (memseq x) = a) t)"

theorem process_trace_consistent:
  assumes "handler_wf h" and "enough_rounds h k" and "CacheStats_new (levelCount h) sysid cap = Inr st"
    and "\<forall>(rnd, x) \<in> set t. (ucast (memseq x) :: u32) < cap"
  shows "\<exists>h' st'. process_trace k t (h, st) = Inr (h', st') \<and> handler_wf h' \<and>
    CacheStats_Verify st' = Inr True \<and> (\<forall>a < cap. GetAccessCount a st' = Inr (of_nat (count_of a t)))"
proof -
  let ?n = "levelCount h"
  have n: "0 < ?n" using assms(1) by (simp add: handler_wf_def)
  have st: "stats_shape ?n st" "consistent ?n st" "Capacity st = cap"
    "\<And>a i. a < cap \<Longrightarrow> i < unat ?n \<Longrightarrow> level_stats st a i = no_stats"
    using CacheStats_new_consistent [OF n, of sysid cap] assms(3) by (metis sum.inject(2))+
  have "\<exists>h' st'. rfold (\<lambda>(rnd, x). CacheStructure_Process k rnd x) t (h, st) = Inr (h', st') \<and> handler_wf h' \<and> levelCount h' = ?n \<and>
    stats_shape ?n st' \<and> Capacity st' = cap \<and> consistent ?n st' \<and>
    (\<forall>a < cap. hitCount (level_stats st' a 0) + missCount (level_stats st' a 0) = of_nat (count_of a t))"
    using assms(4)
  proof (induction t rule: rev_induct)
    case Nil
    have "0 < unat ?n" using n by (simp add: word_less_nat_alt)
    then show ?case using st assms(1) by (simp add: count_of_def no_stats_def)
  next
    case (snoc rx t)
    obtain rnd x where rx: "rx = (rnd, x)" by (cases rx) simp
    note snoc = snoc [unfolded rx]
    from snoc obtain h1 st1 where IH: "rfold (\<lambda>(rnd, x). CacheStructure_Process k rnd x) t (h, st) = Inr (h1, st1)" "handler_wf h1"
      "levelCount h1 = ?n" "stats_shape ?n st1" "Capacity st1 = cap" "consistent ?n st1"
      "\<forall>a < cap. hitCount (level_stats st1 a 0) + missCount (level_stats st1 a 0) = of_nat (count_of a t)" by auto
    have "(ucast (memseq x) :: u32) < Capacity st1" "enough_rounds h1 k"
      using snoc.prems assms(2) IH(3,5) by (auto simp: rx enough_rounds_def)
    then obtain h2 st2 m where p: "CacheStructure_Process k rnd x (h1, st1) = Inr (h2, st2)" "handler_wf h2"
      "levelCount h2 = ?n" "m \<le> unat ?n" "walked ?n (ucast (memseq x)) 0 m st1 st2"
      using CacheStructure_Process_walk [OF IH(2), of st1 x k rnd] IH(3,4) by metis
    have "hitCount (level_stats st2 a 0) + missCount (level_stats st2 a 0) = of_nat (count_of a (t @ [rx]))" if a: "a < cap" for a
    proof -
      have "level_stats st2 a 0 = (if a = ucast (memseq x) then bump m 0 (level_stats st1 a 0) else level_stats st1 a 0)"
        using p(5) a IH(5) n by (simp add: walked_def word_less_nat_alt)
      then show ?thesis using IH(7) a by (auto simp: rx bump_def count_of_def algebra_simps)
    qed
    moreover have "consistent ?n st2" by (rule walked_consistent [OF p(5) IH(6)])
    ultimately show ?case using IH(1,5) p by (simp add: rx rfold_append walked_def)
  qed
  then obtain h' st' where r: "rfold (\<lambda>(rnd, x). CacheStructure_Process k rnd x) t (h, st) = Inr (h', st')" "handler_wf h'"
    "stats_shape ?n st'" "Capacity st' = cap" "consistent ?n st'"
    "\<forall>a < cap. hitCount (level_stats st' a 0) + missCount (level_stats st' a 0) = of_nat (count_of a t)" by blast
  have "CacheStats_Verify st' = Inr True" using CacheStats_Verify_iff [OF r(3) n] r(5) by simp
  moreover have "GetAccessCount a st' = Inr (of_nat (count_of a t))" if "a < cap" for a
    using GetLevelStats_shape [OF r(3), of a 0] that n r(4,6) by (simp add: GetAccessCount_def)
  ultimately show ?thesis using r(1,2) by (simp add: process_trace_def)
qed

section \<open>What \<open>Init\<close> accepts\<close>

definition level_ok :: "u32 \<Rightarrow> u32 \<Rightarrow> u32 \<Rightarrow> nat \<Rightarrow> CacheLevel \<Rightarrow> bool" where
  "level_ok mha n f i c \<longleftrightarrow> unat (level c) = i \<and>
     (\<exists>sz lineSz f l. built (ctype c) mha (level c) sz (associativity c) lineSz (replpolicy c) f l = Inr c) \<and>
     replpolicy c \<noteq> ReplacementPolicy_Undefined \<and> (IsExclusive c \<longleftrightarrow> f \<noteq> INVALID_CACHE_LEVEL \<and> unat f \<le> i) \<and>
     (IsExclusive c \<longrightarrow> FirstExclusive c = f \<and> LastExclusive c = n - 1)"

definition init_inv :: "u32 \<Rightarrow> nat \<Rightarrow> init_state \<Rightarrow> bool" where
  "init_inv mha j s \<longleftrightarrow> length (cacheValues s) = 3 \<and>
     (if j < 2 then firstExcl s = INVALID_CACHE_LEVEL
      else length (levels (ini_handler s)) = unat (levelCount (ini_handler s)) \<and>
        (j - 2) div 4 \<le> unat (levelCount (ini_handler s)) \<and>
        (firstExcl s = INVALID_CACHE_LEVEL \<or> unat (firstExcl s) < (j - 2) div 4) \<and>
        (\<forall>i < (j - 2) div 4. \<exists>c. levels (ini_handler s) ! i = Some c \<and>
          level_ok mha (levelCount (ini_handler s)) (firstExcl s) i c))"

lemma parse_policy_not_Undefined: "parse_policy t = Some p \<Longrightarrow> p \<noteq> ReplacementPolicy_Undefined"
  by (auto simp: parse_policy_def split: if_splits)

lemma init_level_inv:
  assumes inv: "init_inv mha j s" and j: "2 \<le> j" "j < 2 ^ 32" "(j - 2) mod 4 = 3"
    and r: "init_level mha token (of_nat ((j - 2) div 4)) s = Inr (Some s')"
  shows "init_inv mha (Suc j) s'"
proof -
  define q where "q = (j - 2) div 4"
  have q: "q < 2 ^ 30" using j(2) by (simp add: q_def)
  then have uq: "unat (of_nat q :: u32) = q" by (intro of_nat_u32) simp
  have qs: "(Suc j - 2) div 4 = Suc q"
  proof -
    have "j - 2 = 4 * q + 3" using mult_div_mod_eq [of 4 "j - 2"] j(3) by (simp add: q_def)
    then have "Suc j - 2 = 4 * Suc q" using j(1) by simp
    then show ?thesis by (simp only:) simp
  qed
  have qI: "of_nat q \<noteq> INVALID_CACHE_LEVEL"
  proof
    assume "of_nat q = INVALID_CACHE_LEVEL"
    then have "q = unat INVALID_CACHE_LEVEL" using uq by simp
    then show False using q by (simp add: INVALID_CACHE_LEVEL_def)
  qed
  obtain repl where repl: "parse_policy token = Some repl" using r by (cases "parse_policy token") (simp_all add: init_level_def)
  define s1 where "s1 = (if is_victim token \<and> firstExcl s = INVALID_CACHE_LEVEL then s \<lparr> firstExcl := of_nat q \<rparr> else s)"
  define f where "f = firstExcl s1"
  define h where "h = ini_handler s"
  have s1: "ini_handler s1 = h" "cacheValues s1 = cacheValues s" by (simp_all add: s1_def h_def)
  obtain c ls where c: "built (level_type mha (cacheValues s ! 1) f) mha (of_nat q) (cacheValues s ! 0) (cacheValues s ! 1)
      (cacheValues s ! 2) repl f (levelCount h - 1) = Inr c"
    and ls: "aput q (Some c) (levels h) = Inr ls" and s': "s' = s1 \<lparr> ini_handler := h \<lparr> levels := ls \<rparr> \<rparr>"
    using r repl by (auto simp: init_level_def Let_def s1_def [symmetric] q_def [symmetric] s1 f_def [symmetric] uq rbind_eq_Inr split: if_splits)
  have bi: "length (cacheValues s) = 3" "length (levels h) = unat (levelCount h)" "q \<le> unat (levelCount h)"
    "firstExcl s = INVALID_CACHE_LEVEL \<or> unat (firstExcl s) < q"
    "\<And>i. i < q \<Longrightarrow> \<exists>c. levels h ! i = Some c \<and> level_ok mha (levelCount h) (firstExcl s) i c"
    using inv j(1) by (simp_all add: init_inv_def q_def h_def)
  have lsq: "q < unat (levelCount h)" "ls = (levels h)[q := Some c]" using ls bi(2) by (auto simp: aput_eq_Inr)
  have f: "f = INVALID_CACHE_LEVEL \<or> unat f < Suc q" using bi(4) uq by (auto simp: f_def s1_def)
  have B: "ctype c = level_type mha (cacheValues s ! 1) f" "level c = of_nat q" "associativity c = cacheValues s ! 1"
    "replpolicy c = repl" "IsExclusive c \<Longrightarrow> FirstExclusive c = f \<and> LastExclusive c = levelCount h - 1"
    using built_Inr [OF c] by metis+
  have exq: "IsExclusive c \<longleftrightarrow> f \<noteq> INVALID_CACHE_LEVEL" by (simp add: IsExclusive_def B(1) level_type_def)
  have okq: "level_ok mha (levelCount h) f q c"
    using c f exq B uq parse_policy_not_Undefined [OF repl] unfolding level_ok_def by (auto simp del: of_nat_u32)
  have oki: "level_ok mha (levelCount h) f i d" if "i < q" "level_ok mha (levelCount h) (firstExcl s) i d" for i d
    using that uq qI by (auto simp: f_def s1_def level_ok_def)
  have all: "\<exists>d. ls ! i = Some d \<and> level_ok mha (levelCount h) f i d" if "i < Suc q" for i
  proof (cases "i = q")
    case True
    then show ?thesis using okq bi(2) lsq by simp
  next
    case False
    then have "i < q" using that by simp
    moreover from bi(5) [OF this] obtain d where "levels h ! i = Some d" "level_ok mha (levelCount h) (firstExcl s) i d" by blast
    ultimately show ?thesis using oki lsq(2) by auto
  qed
  show ?thesis
    unfolding init_inv_def qs using j(1) s' s1 bi(1,2) lsq f all by (simp add: f_def [symmetric])
qed

lemma of_nat_minus2: "2 \<le> j \<Longrightarrow> (of_nat j - 2 :: u32) = of_nat (j - 2)"
  by (simp add: of_nat_diff)

lemma init_token_inv:
  assumes inv: "init_inv mha j s" and j: "j < 2 ^ 32"
    and r: "init_token mha token (of_nat j) s = Inr (Some s')"
  shows "init_inv mha (Suc j) s'"
proof -
  have j0: "(of_nat j :: u32) = 0 \<longleftrightarrow> j = 0" and j1: "(of_nat j :: u32) = 1 \<longleftrightarrow> j = 1"
    using j by (simp_all add: word_unat_eq_iff unat_of_nat)
  consider "j = 0" | "j = 1" | "2 \<le> j" by linarith
  then show ?thesis
  proof cases
    case 1
    then show ?thesis using inv r by (auto simp: init_token_def init_inv_def split: prod.splits if_splits)
  next
    case 2
    then show ?thesis using inv r by (auto simp: init_token_def init_inv_def split: prod.splits if_splits)
  next
    case 3
    have um: "unat ((of_nat j - 2 :: u32) mod 4) = (j - 2) mod 4" and ud: "(of_nat j - 2 :: u32) div 4 = of_nat ((j - 2) div 4)"
    proof -
      have u: "unat (of_nat (j - 2) :: u32) = j - 2" by (rule of_nat_u32) (use j in simp)
      show "unat ((of_nat j - 2 :: u32) mod 4) = (j - 2) mod 4" by (simp only: of_nat_minus2 [OF 3] unat_mod u) simp
      have "unat (of_nat ((j - 2) div 4) :: u32) = (j - 2) div 4" by (rule of_nat_u32) (use j in simp)
      then show "(of_nat j - 2 :: u32) div 4 = of_nat ((j - 2) div 4)"
        by (intro word_eq_unatI) (simp only: of_nat_minus2 [OF 3] unat_div u, simp)
    qed
    have lt: "((of_nat j - 2 :: u32) mod 4 < 3) \<longleftrightarrow> (j - 2) mod 4 < 3" using um by (simp add: word_less_nat_alt)
    show ?thesis
    proof (cases "(j - 2) mod 4 < 3")
      case True
      obtain ok v where pv: "ParsePositiveInt32 token = (ok, v)" by (cases "ParsePositiveInt32 token")
      have n01: "(of_nat j :: u32) \<noteq> 0" "(of_nat j :: u32) \<noteq> 1" using j0 j1 3 by simp_all
      have "init_token mha token (of_nat j) s = Inr (if ok then
          Some (s \<lparr> cacheValues := (cacheValues s)[unat ((of_nat j - 2 :: u32) mod 4) := v] \<rparr>) else None)"
        by (simp only: init_token_def if_not_P [OF n01(1)] if_not_P [OF n01(2)] Let_def lt if_P [OF True] pv prod.case)
      then have s': "s' = s \<lparr> cacheValues := (cacheValues s)[(j - 2) mod 4 := v] \<rparr>"
        using r unfolding um by (cases ok) simp_all
      have "Suc j - 2 = 4 * ((j - 2) div 4) + Suc ((j - 2) mod 4)" using mult_div_mod_eq [of 4 "j - 2"] 3 by simp
      moreover have "(4 * a + Suc r) div 4 = a" if "r < 3" for a r :: nat using that by simp
      ultimately have "(Suc j - 2) div 4 = (j - 2) div 4" using True by metis
      then show ?thesis using inv 3 s' by (simp add: init_inv_def)
    next
      case False
      have "(j - 2) mod 4 < 4" by simp
      with False have "(j - 2) mod 4 = 3" by linarith
      moreover have n01: "(of_nat j :: u32) \<noteq> 0" "(of_nat j :: u32) \<noteq> 1" using j0 j1 3 by simp_all
      have "init_token mha token (of_nat j) s = init_level mha token (of_nat ((j - 2) div 4)) s"
        by (simp only: init_token_def if_not_P [OF n01(1)] if_not_P [OF n01(2)] Let_def lt if_not_P [OF False] ud)
      with r have "init_level mha token (of_nat ((j - 2) div 4)) s = Inr (Some s')" by (simp only:)
      ultimately show ?thesis using init_level_inv [OF inv 3 j] by blast
    qed
  qed
qed

lemma init_loop_inv:
  assumes "init_loop mha ts (of_nat j) s = Inr (Some (w, s'))" and "init_inv mha j s" and "j + length ts < 2 ^ 32"
  shows "\<exists>k. w = of_nat k \<and> k < 2 ^ 32 \<and> init_inv mha k s'"
  using assms
proof (induction ts arbitrary: j s)
  case Nil
  then show ?case by auto
next
  case (Cons t ts)
  show ?case
  proof (cases "take 1 t = ''#''")
    case True
    then show ?thesis using Cons.prems by auto
  next
    case False
    then obtain s1 where s1: "init_token mha t (of_nat j) s = Inr (Some s1)"
      "init_loop mha ts (of_nat j + 1) s1 = Inr (Some (w, s'))"
      using Cons.prems(1) by (auto simp: rbind_eq_Inr split: option.splits)
    have "init_inv mha (Suc j) s1" using init_token_inv [OF Cons.prems(2) _ s1(1)] Cons.prems(3) by simp
    moreover have "init_loop mha ts (of_nat (Suc j)) s1 = Inr (Some (w, s'))" using s1(2) by (simp add: add.commute)
    ultimately show ?thesis using Cons.IH [of "Suc j" s1] Cons.prems(3) by simp
  qed
qed

lemma verify_rfold_True:
  "rfold (\<lambda>i passes. rbind (get_level ls i) (\<lambda>c. Inr (if \<not> IsExclusive c then False else passes))) is p = Inr True \<Longrightarrow> p"
proof (induction "is" arbitrary: p)
  case (Cons i "is")
  then obtain c where "rfold (\<lambda>i passes. rbind (get_level ls i) (\<lambda>c. Inr (if \<not> IsExclusive c then False else passes))) is
      (if \<not> IsExclusive c then False else p) = Inr True" by (auto simp: rbind_eq_Inr)
  from Cons.IH [OF this] show ?case by (simp split: if_splits)
qed simp

lemma CacheStructure_Verify_True: "CacheStructure_Verify h = Inr True \<Longrightarrow> 1 \<le> levelCount h \<and> levelCount h \<le> 3"
  by (auto simp: CacheStructure_Verify_def Let_def rbind_eq_Inr not_less word_le_nat_alt word_less_nat_alt
      dest!: verify_rfold_True split: option.splits)

text \<open>
  \<open>Init\<close> does not reject a level with no set, and not one line per set under \<open>trulru\<close>;
  without those every structure it returns is well formed.
\<close>

definition usable :: "CacheStructureHandler \<Rightarrow> bool" where
  "usable h \<longleftrightarrow> (\<forall>p \<in> set (levels h). case p of None \<Rightarrow> False | Some c \<Rightarrow>
     countsets c \<noteq> 0 \<and> (replpolicy c = ReplacementPolicy_trulru \<longrightarrow> 2 \<le> associativity c))"

lemma Init_handler_wf:
  assumes i: "CacheStructure_Init mha desc = Inr (Some h)" and len: "length (tokens desc) < 2 ^ 32" and u: "usable h"
  shows "handler_wf h \<and> levelCount h \<le> 3"
proof -
  let ?s0 = "\<lparr> ini_handler = \<lparr> sysId = 0, levelCount = 0, levels = [] \<rparr>, cacheValues = [0, 0, 0], firstExcl = INVALID_CACHE_LEVEL \<rparr>"
  obtain w s where loop: "init_loop mha (tokens desc) (of_nat 0) ?s0 = Inr (Some (w, s))"
    and w: "w = levelCount h * 4 + 2" and v: "CacheStructure_Verify h = Inr True" and h: "h = ini_handler s"
    using i by (auto simp: CacheStructure_Init_def rbind_eq_Inr split: option.splits if_splits)
  have "init_inv mha 0 ?s0" by (simp add: init_inv_def)
  then obtain j where j: "w = of_nat j" "j < 2 ^ 32" "init_inv mha j s" using init_loop_inv [OF loop] len by auto
  have n: "1 \<le> levelCount h" "levelCount h \<le> 3" using CacheStructure_Verify_True [OF v] by simp_all
  define n where "n = unat (levelCount h)"
  have n3: "1 \<le> n" "n \<le> 3" using n by (simp_all add: n_def word_le_nat_alt)
  have "unat (levelCount h * 4 + 2) = n * 4 + 2"
    using n3 by (simp add: n_def unat_word_ariths)
  moreover have "unat w = j" unfolding j(1) by (rule of_nat_u32) (use j(2) in simp)
  ultimately have jn: "j = n * 4 + 2" using w by simp
  have q: "(j - 2) div 4 = n" by (simp add: jn)
  have "2 \<le> j" by (simp add: jn)
  then have I: "length (levels h) = n" "firstExcl s = INVALID_CACHE_LEVEL \<or> unat (firstExcl s) < n"
    "\<And>i. i < n \<Longrightarrow> \<exists>c. levels h ! i = Some c \<and> level_ok mha (levelCount h) (firstExcl s) i c"
    using j(3) by (simp_all add: init_inv_def q h [symmetric] n_def)
  define F where "F = (if firstExcl s = INVALID_CACHE_LEVEL then n else unat (firstExcl s))"
  have Fn: "F \<le> n" using I(2) by (auto simp: F_def)
  have "struct_wf (levelCount h) F (levels h)"
    unfolding struct_wf_def n_def [symmetric]
  proof (intro conjI allI impI)
    show "levelCount h < INVALID_CACHE_LEVEL" using n(2) by (simp add: INVALID_CACHE_LEVEL_def word_le_nat_alt word_less_nat_alt)
    fix i assume i: "i < n"
    from I(3) [OF i] obtain c where c: "levels h ! i = Some c" "level_ok mha (levelCount h) (firstExcl s) i c" by blast
    then obtain sz lineSz f l where b: "built (ctype c) mha (level c) sz (associativity c) lineSz (replpolicy c) f l = Inr c"
      by (auto simp: level_ok_def)
    have "Some c \<in> set (levels h)" using c(1) i I(1) by (metis nth_mem)
    then have uc: "countsets c \<noteq> 0" "replpolicy c = ReplacementPolicy_trulru \<Longrightarrow> 2 \<le> unat (associativity c)"
      using u by (auto simp: usable_def word_le_nat_alt)
    have "level_wf c" by (rule built_wf [OF b uc(1) _ uc(2)]) (use c(2) in \<open>simp add: level_ok_def\<close>)
    moreover have "IsExclusive c \<longleftrightarrow> F \<le> i" using c(2) i by (auto simp: level_ok_def F_def split: if_splits)
    moreover have "F \<le> i \<Longrightarrow> unat (FirstExclusive c) = F" using c(2) i by (auto simp: level_ok_def F_def split: if_splits)
    moreover have "F \<le> i \<Longrightarrow> LastExclusive c = levelCount h - 1" using c(2) i by (auto simp: level_ok_def F_def split: if_splits)
    ultimately show "\<exists>c. levels h ! i = Some c \<and> unat (level c) = i \<and> level_wf c \<and> (IsExclusive c \<longleftrightarrow> F \<le> i) \<and>
        (F \<le> i \<longrightarrow> unat (FirstExclusive c) = F \<and> LastExclusive c = levelCount h - 1)"
      using c by (auto simp: level_ok_def)
  qed (use I(1) in simp)
  moreover have "0 < levelCount h" using n3 by (simp add: n_def word_less_nat_alt)
  ultimately show ?thesis using Fn n(2) by (auto simp: handler_wf_def n_def)
qed

text \<open>
  C10. A cache built from a description, when every level of it has a set and every level
  under trulru at least two lines for each set, processes every sequence of accesses of memory
  operations that have counters to its end, in at most
  seven rounds each and whatever \<open>rand\<close> returns. It counts every access at the first level, and the hits and misses of each
  level add up to the misses of the one before. (The parser also accepts levels without a set,
  where an access divides by zero, and trulru with one line, where it writes out of bounds.)
\<close>

theorem described_cache_consistent:
  assumes "CacheStructure_Init mha desc = Inr (Some h)" and "length (tokens desc) < 2 ^ 32" and "usable h"
    and "CacheStats_new (levelCount h) sysid cap = Inr st" and "\<forall>(rnd, x) \<in> set t. (ucast (memseq x) :: u32) < cap"
  shows "\<exists>h' st'. process_trace 7 t (h, st) = Inr (h', st') \<and> CacheStats_Verify st' = Inr True \<and>
    (\<forall>a < cap. GetAccessCount a st' = Inr (of_nat (count_of a t)))"
proof -
  have h: "handler_wf h" "levelCount h \<le> 3" using Init_handler_wf [OF assms(1-3)] by simp_all
  then have "enough_rounds h 7" by (simp add: enough_rounds_def word_le_nat_alt)
  from process_trace_consistent [OF h(1) this assms(4,5)] show ?thesis by blast
qed

definition ex_description :: string where
  "ex_description = ''1 2 1KB 2 64 lru 4KB 4 64 trulru_vc''"

lemma ex_description_ok: obtains h where "CacheStructure_Init 256 ex_description = Inr (Some h)" and "usable h" and "levelCount h = 2"
proof -
  have "case CacheStructure_Init 256 ex_description of Inr r \<Rightarrow> (case r of Some h \<Rightarrow> usable h \<and> levelCount h = 2 | None \<Rightarrow> False) | Inl _ \<Rightarrow> False"
    by code_simp
  then show ?thesis using that by (auto split: sum.splits option.splits)
qed

lemma described_cache_consistent_witness:
  "\<exists>h st h' st'. CacheStructure_Init 256 ex_description = Inr (Some h) \<and>
     process_trace 7 [((\<lambda>_. 0), \<lparr> address = 4096, memseq = 0, imageid = 1, threadid = 1 \<rparr>), (of_nat, \<lparr> address = 4096, memseq = 0, imageid = 1, threadid = 1 \<rparr>)] (h, st) = Inr (h', st')"
proof -
  obtain h where h: "CacheStructure_Init 256 ex_description = Inr (Some h)" "usable h" "levelCount h = 2" by (rule ex_description_ok)
  have "length (tokens ex_description) = 10" by code_simp
  then have "length (tokens ex_description) < 2 ^ 32" by simp
  moreover have "0 < levelCount h" using h(3) by simp
  then obtain st where "CacheStats_new (levelCount h) 1 1 = Inr st" by (rule CacheStats_new_consistent [of _ 1 1])
  ultimately have "\<exists>h' st'. process_trace 7 [((\<lambda>_. 0), \<lparr> address = 4096, memseq = 0, imageid = 1, threadid = 1 \<rparr>), (of_nat, \<lparr> address = 4096, memseq = 0, imageid = 1, threadid = 1 \<rparr>)] (h, st) = Inr (h', st') \<and>
      CacheStats_Verify st' = Inr True \<and> (\<forall>a < 1. GetAccessCount a st' =
      Inr (of_nat (count_of a [((\<lambda>_. 0), \<lparr> address = 4096, memseq = 0, imageid = 1, threadid = 1 \<rparr>), (of_nat, \<lparr> address = 4096, memseq = 0, imageid = 1, threadid = 1 \<rparr>)])))"
    by (rule described_cache_consistent [OF h(1) _ h(2)]) simp_all
  then show ?thesis using h(1) by blast
qed

text \<open>Numbers: a negative one passes the test for a positive one, and a large one times its suffix wraps to 0.\<close>

lemma ParsePositiveInt32_accepts:
  "ParsePositiveInt32 ''-5'' = (True, 4294967291)" "ParsePositiveInt32 ''4gb'' = (True, 0)"
  "ParsePositiveInt32 ''32k'' = (False, 32768)" "ParsePositiveInt32 ''32KB'' = (True, 32768)"
  by code_simp+

end
