(* ===== verification/Cache_Exclusive.thy ===== *)
theory Cache_Exclusive
  imports Cache_Structure "HOL-Library.Multiset"
begin

text \<open>
  Exclusive levels together: \<open>ExclusiveCacheLevel::Process\<close> of \<open>instcode/Simulation.cpp\<close> over a whole
  access. A store found at an outer level is moved to the first one and the stores it displaces are
  moved outwards into the line it leaves, so the levels together hold what they held before; a store
  found nowhere is added and one store is dropped.
\<close>

section \<open>Contents of the exclusive levels\<close>

definition row :: "CacheLevel option list \<Rightarrow> nat \<Rightarrow> nat \<Rightarrow> u64 list" where
  "row ls i s = (case ls ! i of None \<Rightarrow> [] | Some c \<Rightarrow> contents c ! s)"

definition held :: "CacheLevel option list \<Rightarrow> nat \<Rightarrow> nat \<Rightarrow> nat \<Rightarrow> u64 multiset" where
  "held ls F n s = (\<Sum>i \<in> {F..<n}. mset (row ls i s))"

text \<open>
  \<open>S\<close> sets and lines of \<open>2 ^ b\<close> bytes at every exclusive level, none of them highly associative, and
  every line in the set its store belongs to.
\<close>

definition placed :: "nat \<Rightarrow> CacheLevel \<Rightarrow> bool" where
  "placed S c \<longleftrightarrow> (\<forall>s < S. \<forall>x \<in> set (contents c ! s). unat x mod S = s)"

definition excl_level :: "nat \<Rightarrow> nat \<Rightarrow> CacheLevel \<Rightarrow> bool" where
  "excl_level S b c \<longleftrightarrow> unat (countsets c) = S \<and> unat (linesizeBits c) = b \<and> \<not> high_assoc c \<and> placed S c"

definition excl_wf :: "u32 \<Rightarrow> nat \<Rightarrow> nat \<Rightarrow> nat \<Rightarrow> CacheLevel option list \<Rightarrow> bool" where
  "excl_wf n F S b ls \<longleftrightarrow> struct_wf n F ls \<and> (\<forall>i < unat n. F \<le> i \<longrightarrow> (\<exists>c. ls ! i = Some c \<and> excl_level S b c))"

lemma row_update: "i < length ls \<Longrightarrow> row (ls[i := Some c]) j s = (if i = j then contents c ! s else row ls j s)"
  by (simp add: row_def nth_list_update)

lemma sum_replace:
  fixes f g :: "nat \<Rightarrow> 'a :: cancel_comm_monoid_add"
  assumes "finite A" and "i \<in> A" and "\<And>j. j \<in> A \<Longrightarrow> j \<noteq> i \<Longrightarrow> g j = f j" and "g i + a = f i + b"
  shows "sum g A + a = sum f A + b"
proof -
  have "sum g A = g i + sum g (A - {i})" and "sum f A = f i + sum f (A - {i})"
    using assms(1,2) by (simp_all add: sum.remove)
  moreover have "sum g (A - {i}) = sum f (A - {i})" using assms(3) by (intro sum.cong) auto
  ultimately show ?thesis using assms(4) by (simp add: ac_simps) (metis add.assoc add.commute)
qed

lemma mset_list_update: "i < length xs \<Longrightarrow> mset (xs[i := x]) + {#xs ! i#} = mset xs + {#x#}"
  by (simp add: mset_update)

text \<open>One line of one level is written.\<close>

lemma held_replace:
  assumes len: "length ls = n" and i: "F \<le> i" "i < n" and c: "ls ! i = Some c" and s: "s < length (contents c)"
    and k: "k < length (contents c ! s)" and c': "contents c' = (contents c)[s := (contents c ! s)[k := x]]"
  shows "held (ls[i := Some c']) F n s + {#contents c ! s ! k#} = held ls F n s + {#x#}"
    and "t \<noteq> s \<Longrightarrow> held (ls[i := Some c']) F n t = held ls F n t"
proof -
  have r: "row (ls[i := Some c']) j u = (if i = j \<and> u = s then (contents c ! s)[k := x] else row ls j u)" for j u
    using i c s len by (auto simp: row_update c' row_def nth_list_update)
  have rc: "row ls i s = contents c ! s" using c by (simp add: row_def)
  show "held (ls[i := Some c']) F n s + {#contents c ! s ! k#} = held ls F n s + {#x#}"
    unfolding held_def
    by (rule sum_replace [where i = i]) (use i k r rc mset_list_update in auto)
  show "held (ls[i := Some c']) F n t = held ls F n t" if "t \<noteq> s"
    unfolding held_def using that r by simp
qed

lemma placed_replace:
  assumes "placed S c" and "contents c' = (contents c)[s := (contents c ! s)[k := x]]" and "unat x mod S = s"
    and "s < length (contents c)"
  shows "placed S c'"
  using assms by (auto simp: placed_def nth_list_update dest!: set_update_subset_insert [THEN subsetD])

lemma excl_wf_update:
  assumes e: "excl_wf n F S b ls" and c: "ls ! i = Some c" "i < unat n" and c': "config c' = config c" "level_wf c'"
    and p: "F \<le> i \<Longrightarrow> placed S c'"
  shows "excl_wf n F S b (ls[i := Some c'])"
proof -
  have "struct_wf n F (ls[i := Some c'])" using e c c' by (intro struct_wf_update) (simp_all add: excl_wf_def)
  moreover have "\<exists>d. ls[i := Some c'] ! j = Some d \<and> excl_level S b d" if j: "j < unat n" "F \<le> j" for j
  proof (cases "j = i")
    case True
    have "excl_level S b c'" using e c p j True config_fields [OF c'(1)] by (auto simp: excl_wf_def excl_level_def)
    moreover have "length ls = unat n" using e by (simp add: excl_wf_def struct_wf_def)
    ultimately show ?thesis using True c(2) by simp
  next
    case False
    then show ?thesis using e j by (simp add: excl_wf_def)
  qed
  ultimately show ?thesis by (simp add: excl_wf_def)
qed

section \<open>Moving the displaced stores outwards\<close>

text \<open>One level takes the evicted store in and gives another one of the same set.\<close>

lemma Exclusive_Process_moves:
  assumes wf: "level_wf c" and e: "evict_level e \<noteq> INVALID_CACHE_LEVEL" "evict_ok e c"
    and ex: "excl_level S b c" and es: "level c = evict_level e \<Longrightarrow> unat (evict_setid e) = unat (evict_addr e) mod S"
  defines "s \<equiv> unat (evict_addr e) mod S"
  obtains c' k where "Exclusive_Process rnd memid addr (c, st, e) = Inr ((c', st, e \<lparr> evict_addr := contents c ! s ! k \<rparr>),
      if level c = evict_level e then INVALID_CACHE_LEVEL else level c + 1)"
    and "config c' = config c" and "level_wf c'" and "s < length (contents c)" and "k < length (contents c ! s)"
    and "contents c' = (contents c)[s := (contents c ! s)[k := evict_addr e]]"
    and "level c = evict_level e \<Longrightarrow> k = unat (evict_lineid e)"
proof -
  note D = level_wfD [OF wf]
  obtain g where g: "GetSet (evict_addr e) c = Inr g" "g < countsets c" "unat g = s"
    using GetSet_wf [OF D(1)] ex unfolding s_def excl_level_def by metis
  have gs: "s < unat (countsets c)" using g(2,3) by (simp add: word_less_nat_alt)
  obtain k where k: "LineToReplace rnd g c = Inr k" "k < associativity c" using LineToReplace_wf [OF wf g(2)] by metis
  let ?l = "if level c = evict_level e \<and> evict_setid e = g then evict_lineid e else k"
  have l: "?l < associativity c" using e(2) k(2) by (simp add: evict_ok_def)
  then obtain c' where m: "Replace (evict_addr e) g ?l c = Inr (c', contents c ! unat g ! unat ?l)" "config c' = config c"
    "contents c' = (contents c)[unat g := (contents c ! unat g)[unat ?l := evict_addr e]]" "level_wf c'"
    using Replace_wf [OF wf g(2)] by metis
  have eg: "evict_setid e = g" if "level c = evict_level e"
    using es [OF that] g(3) by (intro word_eq_unatI) (simp add: s_def)
  show ?thesis
  proof (rule that [of c' "unat ?l"])
    show "Exclusive_Process rnd memid addr (c, st, e) = Inr ((c', st, e \<lparr> evict_addr := contents c ! s ! unat ?l \<rparr>),
      if level c = evict_level e then INVALID_CACHE_LEVEL else level c + 1)"
      using e(1) by (simp add: Exclusive_Process_def Let_def g(1) k(1) m(1) config_fields(2) [OF m(2)] g(3) [symmetric])
    show "s < length (contents c)" "unat ?l < length (contents c ! s)"
      using D(3) D(4) [OF gs] gs l by (simp_all add: word_less_nat_alt)
  qed (use m g(3) eg in simp_all)
qed

lemma evict_walk_moves:
  assumes "excl_wf n F S b ls" and "unat cur + d = unat (evict_level e)" and "F \<le> unat cur"
    and "unat (evict_level e) \<le> unat n" and "Suc d \<le> k" and "unat (evict_addr e) mod S = s"
    and "\<And>c. unat (evict_level e) < unat n \<Longrightarrow> ls ! unat (evict_level e) = Some c \<Longrightarrow>
      evict_lineid e < associativity c \<and> unat (evict_setid e) = s \<and> contents c ! s ! unat (evict_lineid e) = x"
  shows "\<exists>ls' e'. process_loop k rnd memid victim n cur (ls, st, e) = Inr (ls', st, e') \<and> excl_wf n F S b ls' \<and>
    held ls' F (unat n) s + {#evict_addr e'#} = held ls F (unat n) s + {#evict_addr e#} \<and>
    (\<forall>t. t \<noteq> s \<longrightarrow> held ls' F (unat n) t = held ls F (unat n) t) \<and>
    (unat (evict_level e) < unat n \<longrightarrow> evict_addr e' = x)"
  using assms
proof (induction k arbitrary: cur d ls e)
  case (Suc k)
  have sw: "struct_wf n F ls" using Suc.prems(1) by (simp add: excl_wf_def)
  then have nI: "n < INVALID_CACHE_LEVEL" and len: "length ls = unat n" by (simp_all add: struct_wf_def)
  show ?case
  proof (cases "cur < n")
    case False
    then have "\<not> unat (evict_level e) < unat n" using Suc.prems(2) by (simp add: word_less_nat_alt)
    then show ?thesis using Suc.prems(1) False by (intro exI [of _ ls] exI [of _ e]) simp
  next
    case True
    then have cn: "unat cur < unat n" by (simp add: word_less_nat_alt)
    obtain c where c: "get_level ls (unat cur) = Inr c" "ls ! unat cur = Some c" "unat (level c) = unat cur" "level_wf c"
      "IsExclusive c" using struct_wfE [OF sw cn] Suc.prems(3) by metis
    have lc: "level c = cur" using c(3) by (rule word_eq_unatI)
    have ok: "evict_ok e c" using Suc.prems(7) [of c] c(2) lc cn by (auto simp: evict_ok_def)
    have exl: "excl_level S b c" using Suc.prems(1,3) c(2) cn by (auto simp: excl_wf_def)
    have es: "level c = evict_level e \<Longrightarrow> unat (evict_setid e) = unat (evict_addr e) mod S"
      using Suc.prems(6,7) c(2) lc cn by auto
    obtain c' i where p: "Exclusive_Process (rnd k) memid victim (c, st, e) = Inr ((c', st, e \<lparr> evict_addr := contents c ! s ! i \<rparr>),
        if cur = evict_level e then INVALID_CACHE_LEVEL else cur + 1)"
      and c': "config c' = config c" "level_wf c'" and b: "s < length (contents c)" "i < length (contents c ! s)"
      and cc: "contents c' = (contents c)[s := (contents c ! s)[i := evict_addr e]]"
      and il: "cur = evict_level e \<Longrightarrow> i = unat (evict_lineid e)"
      using Exclusive_Process_moves [OF c(4) below_INVALID [OF nI Suc.prems(4)] ok exl es, of "rnd k" memid victim st]
      unfolding lc Suc.prems(6) by metis
    let ?ls = "ls[unat cur := Some c']" and ?old = "contents c ! s ! i"
    let ?e = "e \<lparr> evict_addr := ?old \<rparr>"
    have pl: "placed S c" using exl by (simp add: excl_level_def)
    have wf': "excl_wf n F S b ?ls"
      by (rule excl_wf_update [OF Suc.prems(1) c(2) cn c'])
        (use placed_replace [OF pl cc Suc.prems(6) b(1)] in simp)
    have sS: "s < S" using b(1) exl level_wfD(3) [OF c(4)] by (simp add: excl_level_def)
    have olds: "unat ?old mod S = s" using pl sS b(2) by (simp add: placed_def)
    note H = held_replace [OF len Suc.prems(3) cn c(2) b cc]
    have run: "process_loop (Suc k) rnd memid victim n cur (ls, st, e) =
        process_loop k rnd memid victim n (if cur = evict_level e then INVALID_CACHE_LEVEL else cur + 1) (?ls, st, ?e)"
      using True c(1,5) p by (simp add: Level_Process_def)
    show ?thesis
    proof (cases d)
      case 0
      then have ce: "cur = evict_level e" using Suc.prems(2) by (intro word_eq_unatI) simp
      have "?old = x" using Suc.prems(7) [of c] c(2) cn ce il by auto
      then show ?thesis using wf' H ce process_loop_stop [OF nI] unfolding run
        by (intro exI [of _ ?ls] exI [of _ ?e]) simp
    next
      case (Suc d')
      have u: "unat (cur + 1) = Suc (unat cur)" by (rule unat_Suc_level [OF cn nI])
      have neu: "unat cur \<noteq> unat (evict_level e)" using Suc.prems(2) Suc by simp
      then have ne: "cur \<noteq> evict_level e" by blast
      have "\<exists>ls' e'. process_loop k rnd memid victim n (cur + 1) (?ls, st, ?e) = Inr (ls', st, e') \<and> excl_wf n F S b ls' \<and>
        held ls' F (unat n) s + {#evict_addr e'#} = held ?ls F (unat n) s + {#evict_addr ?e#} \<and>
        (\<forall>t. t \<noteq> s \<longrightarrow> held ls' F (unat n) t = held ?ls F (unat n) t) \<and>
        (unat (evict_level ?e) < unat n \<longrightarrow> evict_addr e' = x)"
        by (rule Suc.IH [OF wf', where d = d']) (use Suc.prems u Suc olds neu in simp_all)
      then show ?thesis using H ne unfolding run by auto
    qed
  qed
qed simp

section \<open>One access\<close>

definition exchanged :: "u32 \<Rightarrow> nat \<Rightarrow> nat \<Rightarrow> u64 \<Rightarrow> CacheLevel option list \<Rightarrow> CacheLevel option list \<Rightarrow> bool" where
  "exchanged n F S x ls ls' \<longleftrightarrow>
     (\<forall>t. t \<noteq> unat x mod S \<longrightarrow> held ls' F (unat n) t = held ls F (unat n) t) \<and>
     (let H = held ls F (unat n) (unat x mod S); H' = held ls' F (unat n) (unat x mod S) in
        if x \<in># H then H' = H else \<exists>y. H' + {#y#} = H + {#x#})"

lemma held_same:
  assumes "\<And>i s. F \<le> i \<Longrightarrow> i < n \<Longrightarrow> row ls' i s = row ls i s"
  shows "held ls' F n s = held ls F n s"
  using assms by (simp add: held_def)

lemma in_held: "x \<in># held ls F n s \<longleftrightarrow> (\<exists>i. F \<le> i \<and> i < n \<and> x \<in> set (row ls i s))"
  by (auto simp: held_def set_mset_sum)

lemma exclusive_lookup:
  assumes "excl_wf n F S b ls" and "F \<le> unat cur" and "unat cur < unat n" and "stats_shape n st" and "memid < Capacity st"
    and "evict_level e = INVALID_CACHE_LEVEL" and "(unat n - unat cur) + (unat n - F) + 1 \<le> k"
    and "x = drop_bit b victim" and "\<And>i. F \<le> i \<Longrightarrow> i < unat cur \<Longrightarrow> x \<notin> set (row ls i (unat x mod S))"
  shows "\<exists>ls' st' e'. process_loop k rnd memid victim n cur (ls, st, e) = Inr (ls', st', e') \<and>
    excl_wf n F S b ls' \<and> exchanged n F S x ls ls'"
  using assms
proof (induction k arbitrary: cur ls st)
  case (Suc k)
  have sw: "struct_wf n F ls" using Suc.prems(1) by (simp add: excl_wf_def)
  then have nI: "n < INVALID_CACHE_LEVEL" and len: "length ls = unat n" by (simp_all add: struct_wf_def)
  note cn = Suc.prems(3)
  have cur: "cur < n" using cn by (simp add: word_less_nat_alt)
  obtain c where c: "get_level ls (unat cur) = Inr c" "ls ! unat cur = Some c" "unat (level c) = unat cur" "level_wf c"
    "IsExclusive c" and fl: "unat (FirstExclusive c) = F" "LastExclusive c = n - 1"
    using struct_wfE [OF sw cn] Suc.prems(2) by metis
  have lc: "level c = cur" using c(3) by (rule word_eq_unatI)
  have exl: "excl_level S b c" using Suc.prems(1,2) c(2) cn by (auto simp: excl_wf_def)
  then have S: "unat (countsets c) = S" and nh: "\<not> high_assoc c" and pl: "placed S c" and gx: "GetStorage victim c = x"
    using Suc.prems(8) by (simp_all add: excl_level_def GetStorage_def)
  define s where "s = unat x mod S"
  have S0: "0 < S" using level_wfD(1) [OF c(4)] S by (simp add: unat_gt_0 [symmetric])
  then have sS: "s < S" by (simp add: s_def)
  have rc: "row ls (unat cur) t = contents c ! t" for t using c(2) by (simp add: row_def)
  have ok: "stats_ok n memid (level c) st" using Suc.prems(4,5) cur lc by (simp add: stats_ok_def)
  have u: "unat (cur + 1) = Suc (unat cur)" by (rule unat_Suc_level [OF cn nI])
  show ?case
  proof (cases rule: Exclusive_Process_lookup [OF c(4) ok Suc.prems(6), of "rnd k" victim, case_names hit miss last])
    case (hit c' st' g l)
    let ?ls = "ls[unat cur := Some c']"
    let ?e = "\<lparr> evict_addr = x, evict_level = cur, evict_setid = g, evict_lineid = l \<rparr>"
    have "placed S c'" using pl hit(8) by (simp add: placed_def)
    then have wf': "excl_wf n F S b ?ls" by (intro excl_wf_update [OF Suc.prems(1) c(2) cn hit(2,3)])
    have gs: "unat g = s" using hit(6) S gx by (simp add: s_def)
    have hx: "contents c ! s ! unat l = x" using hit(7) gs gx by simp
    have ll: "unat l < length (contents c ! s)"
      using hit(4) level_wfD(4) [OF c(4), of s] sS S by (simp add: word_less_nat_alt)
    have same: "held ?ls F (unat n) t = held ls F (unat n) t" for t
      using rc cn len hit(8) by (intro held_same) (auto simp: row_update)
    have xin: "x \<in># held ls F (unat n) s"
      unfolding in_held using Suc.prems(2) cn rc hx nth_mem [OF ll] by (intro exI [of _ "unat cur"]) simp
    have run: "process_loop (Suc k) rnd memid victim n cur (ls, st, e) =
        process_loop k rnd memid victim n (if cur = FirstExclusive c then INVALID_CACHE_LEVEL else FirstExclusive c) (?ls, st', ?e)"
      using cur c(1,5) hit(1) lc gx by (simp add: Level_Process_def)
    show ?thesis
    proof (cases "cur = FirstExclusive c")
      case True
      have "exchanged n F S x ls ?ls" using same xin by (simp add: exchanged_def s_def [symmetric])
      then show ?thesis using wf' True process_loop_stop [OF nI] unfolding run by auto
    next
      case False
      have "\<exists>ls' e'. process_loop k rnd memid victim n (FirstExclusive c) (?ls, st', ?e) = Inr (ls', st', e') \<and> excl_wf n F S b ls' \<and>
        held ls' F (unat n) s + {#evict_addr e'#} = held ?ls F (unat n) s + {#evict_addr ?e#} \<and>
        (\<forall>t. t \<noteq> s \<longrightarrow> held ls' F (unat n) t = held ?ls F (unat n) t) \<and>
        (unat (evict_level ?e) < unat n \<longrightarrow> evict_addr e' = x)"
      proof (rule evict_walk_moves [OF wf', where d = "unat cur - F"])
        show "evict_lineid ?e < associativity c1 \<and> unat (evict_setid ?e) = s \<and> contents c1 ! s ! unat (evict_lineid ?e) = x"
          if "?ls ! unat (evict_level ?e) = Some c1" for c1
          using that hit(4,8) cn len gs hx config_fields(3) [OF hit(2)] by simp
      qed (use fl Suc.prems(2,7) cn s_def in simp_all)
      then obtain ls' e' where r: "process_loop k rnd memid victim n (FirstExclusive c) (?ls, st', ?e) = Inr (ls', st', e')"
        "excl_wf n F S b ls'" "held ls' F (unat n) s = held ls F (unat n) s"
        "\<forall>t. t \<noteq> s \<longrightarrow> held ls' F (unat n) t = held ls F (unat n) t"
        using cn unfolding same by auto
      have "exchanged n F S x ls ls'" using r(3,4) xin by (simp add: exchanged_def s_def [symmetric])
      then show ?thesis using r(1,2) False unfolding run by auto
    qed
  next
    case (miss st')
    let ?ls = "ls[unat cur := Some c]"
    have ls: "?ls = ls" using c(2) by (simp add: list_update_same_conv len cn)
    have sh: "stats_shape n st' \<and> Capacity st' = Capacity st"
      using Hit_Miss_shape [of False memid "level c" st st' n] miss(3) ok by simp
    have nl: "unat cur + 1 < unat n"
    proof (rule ccontr)
      assume "\<not> unat cur + 1 < unat n"
      then have "cur + 1 = n" using u cn by (intro word_eq_unatI) simp
      then have "cur = n - 1" by auto
      then show False using miss(2) lc fl by simp
    qed
    have xn: "x \<notin> set (row ls i (unat x mod S))" if "F \<le> i" "i < unat (cur + 1)" for i
      using that Suc.prems(9) [of i] miss(4) nh gx S u rc by (cases "i = unat cur") auto
    have "\<exists>ls' st'' e'. process_loop k rnd memid victim n (cur + 1) (ls, st', e) = Inr (ls', st'', e') \<and>
      excl_wf n F S b ls' \<and> exchanged n F S x ls ls'"
      by (rule Suc.IH [OF Suc.prems(1)]) (use Suc.prems(2,5,6,7,8) sh u nl cn xn in auto)
    then show ?thesis using cur c(1,5) miss(1) lc ls by (simp add: Level_Process_def)
  next
    case (last st')
    let ?e = "e \<lparr> evict_level := n, evict_addr := x \<rparr>"
    have ls: "ls[unat cur := Some c] = ls" using c(2) by (simp add: list_update_same_conv len cn)
    have un: "unat n = Suc (unat cur)" using u last(2) lc fl by simp
    have xn: "x \<notin># held ls F (unat n) s"
    proof
      assume "x \<in># held ls F (unat n) s"
      then obtain i where i: "F \<le> i" "i < unat n" "x \<in> set (row ls i s)" by (auto simp: in_held)
      show False
      proof (cases "i = unat cur")
        case True
        then show ?thesis using i(3) last(4) nh gx S rc by (simp add: s_def)
      next
        case False
        then show ?thesis using i Suc.prems(9) [of i] un by (simp add: s_def)
      qed
    qed
    have "\<exists>ls' e'. process_loop k rnd memid victim n (FirstExclusive c) (ls, st', ?e) = Inr (ls', st', e') \<and> excl_wf n F S b ls' \<and>
        held ls' F (unat n) s + {#evict_addr e'#} = held ls F (unat n) s + {#evict_addr ?e#} \<and>
        (\<forall>t. t \<noteq> s \<longrightarrow> held ls' F (unat n) t = held ls F (unat n) t) \<and>
        (unat (evict_level ?e) < unat n \<longrightarrow> evict_addr e' = x)"
      by (rule evict_walk_moves [OF Suc.prems(1), where d = "unat n - F"])
        (use fl Suc.prems(2,7) cn s_def in simp_all)
    then obtain ls' e' where r: "process_loop k rnd memid victim n (FirstExclusive c) (ls, st', ?e) = Inr (ls', st', e')"
      "excl_wf n F S b ls'" "held ls' F (unat n) s + {#evict_addr e'#} = held ls F (unat n) s + {#x#}"
      "\<forall>t. t \<noteq> s \<longrightarrow> held ls' F (unat n) t = held ls F (unat n) t" by auto
    have run: "process_loop (Suc k) rnd memid victim n cur (ls, st, e) = process_loop k rnd memid victim n (FirstExclusive c) (ls, st', ?e)"
      using cur c(1,5) last(1) lc gx ls fl by (simp add: Level_Process_def)
    have "exchanged n F S x ls ls'" using r(3,4) xn by (auto simp: exchanged_def s_def [symmetric])
    then show ?thesis using r(1,2) unfolding run by blast
  qed
qed simp

text \<open>
  All levels exclusive: an access that finds its store leaves what the levels hold as it is, one that
  does not adds the store to its set and drops one entry of that set; no other set changes.
\<close>

text \<open>
  C9. Take levels that are all exclusive, have the same number of sets and the same line size, none
  of them highly associative, with every line in its set. An access that finds its store leaves what
  the levels hold together, and one that does not adds the store and drops one entry of its set;
  the levels stay of that kind. The levels of a cold cache hold the entry 0 everywhere, which
  is in its set only if there is one set; with more sets the claim fails
  (\<open>cold_exclusive_loses_store\<close> below), and different numbers of sets are only warned about.
\<close>

theorem exclusive_access_exchanges:
  assumes "excl_wf (levelCount h) 0 S b (levels h)" and "0 < levelCount h" and "stats_shape (levelCount h) st"
    and "(ucast (memseq access) :: u32) < Capacity st" and "enough_rounds h k"
  shows "\<exists>h' st'. CacheStructure_Process k rnd access (h, st) = Inr (h', st') \<and> levelCount h' = levelCount h \<and>
    excl_wf (levelCount h) 0 S b (levels h') \<and>
    exchanged (levelCount h) 0 S (drop_bit b (address access)) (levels h) (levels h')"
proof -
  have "\<exists>ls' st' e'. process_loop k rnd (ucast (memseq access)) (address access) (levelCount h) 0 (levels h, st, no_evict) =
      Inr (ls', st', e') \<and> excl_wf (levelCount h) 0 S b ls' \<and>
      exchanged (levelCount h) 0 S (drop_bit b (address access)) (levels h) ls'"
    by (rule exclusive_lookup [OF assms(1)])
      (use assms(2-5) in \<open>simp_all add: no_evict_def enough_rounds_def word_less_nat_alt\<close>)
  then obtain ls' st' e' where "process_loop k rnd (ucast (memseq access)) (address access) (levelCount h) 0 (levels h, st, no_evict) =
      Inr (ls', st', e')" "excl_wf (levelCount h) 0 S b ls'"
      "exchanged (levelCount h) 0 S (drop_bit b (address access)) (levels h) ls'" by blast
  then show ?thesis
    by (intro exI [of _ "h \<lparr> levels := ls' \<rparr>"] exI [of _ st']) (simp add: CacheStructure_Process_def)
qed

text \<open>No store is in two places, if none was.\<close>

lemma exchanged_no_duplicates:
  assumes "exchanged n F S x ls ls'" and "\<forall>s y. y \<noteq> 0 \<longrightarrow> count (held ls F (unat n) s) y \<le> 1"
  shows "\<forall>s y. y \<noteq> 0 \<longrightarrow> count (held ls' F (unat n) s) y \<le> 1"
proof (intro allI impI)
  fix s and y :: u64 assume y: "y \<noteq> 0"
  let ?H = "held ls F (unat n) s" and ?H' = "held ls' F (unat n) s"
  show "count ?H' y \<le> 1"
  proof (cases "s = unat x mod S \<and> x \<notin># ?H")
    case False
    then have "?H' = ?H" using assms(1) by (cases "s = unat x mod S") (auto simp: exchanged_def Let_def)
    then show ?thesis using assms(2) y by simp
  next
    case True
    then obtain z where z: "?H' + {#z#} = ?H + {#x#}" using assms(1) by (auto simp: exchanged_def Let_def)
    have "count ?H' y \<le> count (?H + {#x#}) y" unfolding z [symmetric] by simp
    also have "\<dots> \<le> 1" using assms(2) y True by (cases "y = x") (auto simp: not_in_iff)
    finally show ?thesis .
  qed
qed

section \<open>A cold start\<close>

text \<open>
  The entries of empty lines are 0 and go outwards like any other, to the set of store 0. Two exclusive
  levels of two direct-mapped sets: the fourth access asks for a store of set 0 that
  the second level held until an access to set 1 filled an empty line.
\<close>

definition cold_run :: "u64 list \<Rightarrow> (nat \<Rightarrow> u64 list list option) res" where
  "cold_run addrs = rbind (CacheStructure_Init 256 ''1 2 128 1 64 dir_vc 128 1 64 dir_vc'') (\<lambda>r.
     case r of None \<Rightarrow> Inl AssertFailed | Some h \<Rightarrow>
     rbind (CacheStats_new 2 1 1) (\<lambda>st.
     rbind (process_trace 7 (map (\<lambda>a. (\<lambda>_. 0, \<lparr> address = a, memseq = 0, imageid = 1, threadid = 1 \<rparr>)) addrs) (h, st)) (\<lambda>(h, st).
     Inr (\<lambda>i. if i < 2 then map_option contents (levels h ! i) else None))))"

definition cold_contents :: "u64 list \<Rightarrow> nat \<Rightarrow> u64 list list res" where
  "cold_contents addrs i = rbind (cold_run addrs) (\<lambda>f. case f i of None \<Rightarrow> Inl UninitRead | Some r \<Rightarrow> Inr r)"

theorem cold_exclusive_loses_store:
  "cold_contents [2 * 64, 4 * 64] 0 = Inr [[4], [0]] \<and> cold_contents [2 * 64, 4 * 64] 1 = Inr [[2], [0]] \<and>
   cold_contents [2 * 64, 4 * 64, 3 * 64] 0 = Inr [[4], [3]] \<and> cold_contents [2 * 64, 4 * 64, 3 * 64] 1 = Inr [[0], [0]]"
  by (intro conjI; code_simp)

text \<open>Two fully associative levels start with every line in its place.\<close>

definition ex_exclusive :: string where
  "ex_exclusive = ''1 2 128 2 64 lru_vc 256 4 64 trulru_vc''"

lemma ex_exclusive_wf: obtains h where "CacheStructure_Init 256 ex_exclusive = Inr (Some h)"
  and "levelCount h = 2" and "excl_wf 2 0 1 6 (levels h)"
proof -
  have "case CacheStructure_Init 256 ex_exclusive of Inr r \<Rightarrow> (case r of Some h \<Rightarrow> usable h \<and> levelCount h = 2 \<and>
      (\<forall>p \<in> set (levels h). case p of None \<Rightarrow> False | Some c \<Rightarrow>
        countsets c = 1 \<and> linesizeBits c = 6 \<and> IsExclusive c \<and> \<not> high_assoc c) | None \<Rightarrow> False) | Inl _ \<Rightarrow> False"
    by code_simp
  then obtain r where "CacheStructure_Init 256 ex_exclusive = Inr r" "case r of Some h \<Rightarrow> usable h \<and> levelCount h = 2 \<and>
      (\<forall>p \<in> set (levels h). case p of None \<Rightarrow> False | Some c \<Rightarrow>
        countsets c = 1 \<and> linesizeBits c = 6 \<and> IsExclusive c \<and> \<not> high_assoc c) | None \<Rightarrow> False"
    by (rule res_caseE)
  then obtain h where h: "CacheStructure_Init 256 ex_exclusive = Inr (Some h)" "usable h" "levelCount h = 2"
    and all: "\<forall>p \<in> set (levels h). case p of None \<Rightarrow> False | Some c \<Rightarrow>
      countsets c = 1 \<and> linesizeBits c = 6 \<and> IsExclusive c \<and> \<not> high_assoc c"
    by (cases r) simp_all
  have "length (tokens ex_exclusive) = 10" by code_simp
  then have "handler_wf h" using Init_handler_wf [OF h(1) _ h(2)] by simp
  then obtain F where F: "struct_wf 2 F (levels h)" using h(3) by (auto simp: handler_wf_def)
  then have len: "length (levels h) = 2" by (simp add: struct_wf_def)
  have lev: "\<exists>c. levels h ! i = Some c \<and> countsets c = 1 \<and> linesizeBits c = 6 \<and> IsExclusive c \<and> \<not> high_assoc c" if "i < 2" for i
    using bspec [OF all nth_mem [of i "levels h"]] that len by (auto split: option.splits)
  have "F = 0"
  proof -
    obtain c where c: "levels h ! 0 = Some c" "IsExclusive c" using lev [of 0] by auto
    have "0 < unat (2 :: u32)" by simp
    from struct_wfE [OF F this] obtain c' where "levels h ! 0 = Some c'" "IsExclusive c' \<longleftrightarrow> F \<le> 0" by metis
    then show ?thesis using c by simp
  qed
  moreover have "\<exists>c. levels h ! i = Some c \<and> excl_level 1 6 c" if i: "i < unat (2 :: u32)" for i
    using lev [of i] i by (auto simp: excl_level_def placed_def)
  ultimately show ?thesis using h(1,3) F by (intro that [of h]) (simp_all add: excl_wf_def)
qed

lemma exclusive_access_exchanges_witness:
  "\<exists>h st h' st'. CacheStructure_Init 256 ex_exclusive = Inr (Some h) \<and>
     CacheStructure_Process 5 (\<lambda>_. 0) \<lparr> address = 4096, memseq = 0, imageid = 1, threadid = 1 \<rparr> (h, st) = Inr (h', st') \<and>
     exchanged 2 0 1 64 (levels h) (levels h')"
proof -
  obtain h where h: "CacheStructure_Init 256 ex_exclusive = Inr (Some h)" "levelCount h = 2" "excl_wf 2 0 1 6 (levels h)"
    by (rule ex_exclusive_wf)
  obtain st where st: "stats_shape 2 st" "Capacity st = 1" by (rule CacheStats_new_consistent [of 2 0 1]) simp_all
  let ?a = "\<lparr> address = 4096, memseq = 0, imageid = 1, threadid = 1 \<rparr>"
  have "\<exists>h' st'. CacheStructure_Process 5 (\<lambda>_. 0) ?a (h, st) = Inr (h', st') \<and> levelCount h' = levelCount h \<and>
    excl_wf (levelCount h) 0 1 6 (levels h') \<and> exchanged (levelCount h) 0 1 (drop_bit 6 (address ?a)) (levels h) (levels h')"
    by (rule exclusive_access_exchanges) (use h st in \<open>simp_all add: enough_rounds_def\<close>)
  moreover have "drop_bit 6 (address ?a) = 64" by simp
  ultimately show ?thesis using h(1,2) by metis
qed

end
