(* ===== verification/Inst_Protection.thy ===== *)
theory Inst_Protection
  imports Liveness X86_Factory
begin

text \<open>
  What instrumentation must save: \<open>getProtectedRegs\<close>, \<open>getFlagsMethod\<close> and the member functions
  around them in \<open>src/Instrumentation.C\<close>, with the enumerations of \<open>include/Base.h\<close> and the flag masks
  of \<open>include/X86Instruction.h\<close>. The instructions of a snippet come with the registers and
  flags they define, which the disassembler's tables give.
\<close>

section \<open>Data\<close>

datatype FlagsProtectionMethods = FlagsProtectionMethod_undefined | FlagsProtectionMethod_none
  | FlagsProtectionMethod_light | FlagsProtectionMethod_full

datatype InstrumentationModes = InstrumentationMode_undefined | InstrumentationMode_inline
  | InstrumentationMode_trampinline | InstrumentationMode_tramp

datatype InstLocations = InstLocation_undefined | InstLocation_prior | InstLocation_after
  | InstLocation_replace

text \<open>An instruction of a snippet with the results of \<open>getRegistersDefined\<close> and \<open>getFlagsDefined\<close>.\<close>

record CoreInstruction =
  ci_insn :: X86Instruction
  ci_regsDefined :: RegisterSet
  ci_flagsDefined :: BitSet

definition X86_FLAG_CF :: nat where "X86_FLAG_CF = 0"
definition X86_FLAG_PF :: nat where "X86_FLAG_PF = 2"
definition X86_FLAG_AF :: nat where "X86_FLAG_AF = 4"
definition X86_FLAG_ZF :: nat where "X86_FLAG_ZF = 6"
definition X86_FLAG_SF :: nat where "X86_FLAG_SF = 7"
definition X86_FLAG_TF :: nat where "X86_FLAG_TF = 8"
definition X86_FLAG_IF :: nat where "X86_FLAG_IF = 9"
definition X86_FLAG_DF :: nat where "X86_FLAG_DF = 10"
definition X86_FLAG_OF :: nat where "X86_FLAG_OF = 11"
definition X86_FLAG_IOPL1 :: nat where "X86_FLAG_IOPL1 = 12"
definition X86_FLAG_IOPL2 :: nat where "X86_FLAG_IOPL2 = 13"
definition X86_FLAG_NT :: nat where "X86_FLAG_NT = 14"

lemmas x86_flags = X86_FLAG_CF_def X86_FLAG_PF_def X86_FLAG_AF_def X86_FLAG_ZF_def X86_FLAG_SF_def
  X86_FLAG_TF_def X86_FLAG_IF_def X86_FLAG_DF_def X86_FLAG_OF_def X86_FLAG_IOPL1_def X86_FLAG_IOPL2_def X86_FLAG_NT_def

definition bit_shift :: "nat \<Rightarrow> u32" where "bit_shift v = push_bit v 1"

definition flag_mask_protect_light :: u32 where
  "flag_mask_protect_light = bit_shift X86_FLAG_CF OR bit_shift X86_FLAG_PF OR bit_shift X86_FLAG_AF
     OR bit_shift X86_FLAG_ZF OR bit_shift X86_FLAG_SF"

definition flag_mask_protect_full :: u32 where
  "flag_mask_protect_full = bit_shift X86_FLAG_CF OR bit_shift X86_FLAG_PF OR bit_shift X86_FLAG_AF
     OR bit_shift X86_FLAG_ZF OR bit_shift X86_FLAG_SF OR bit_shift X86_FLAG_TF OR bit_shift X86_FLAG_IF
     OR bit_shift X86_FLAG_DF OR bit_shift X86_FLAG_OF OR bit_shift X86_FLAG_IOPL1 OR bit_shift X86_FLAG_IOPL2
     OR bit_shift X86_FLAG_NT"

definition CONTAINS_FLAG :: "u32 \<Rightarrow> nat \<Rightarrow> bool" where
  "CONTAINS_FLAG v flg \<longleftrightarrow> drop_bit flg v AND 1 = 1"

section \<open>Registers to save\<close>

definition protect_reg :: "InstLocations \<Rightarrow> LiveInstruction \<Rightarrow> RegisterSet \<Rightarrow> nat \<Rightarrow> BitSet \<Rightarrow> BitSet" where
  "protect_reg proxyLoc xins defs j n = (
     let n = (if proxyLoc = InstLocation_prior \<and> \<not> isRegDeadIn xins (of_nat j) \<and> containsRegister defs (of_nat j)
       then bs_insert j n else n) in
     if proxyLoc = InstLocation_after \<and> \<not> isRegDeadOut xins (of_nat j) \<and> containsRegister defs (of_nat j)
       then bs_insert j n else n)"

definition getProtectedRegs :: "InstLocations \<Rightarrow> LiveInstruction \<Rightarrow> CoreInstruction list \<Rightarrow> BitSet" where
  "getProtectedRegs loc xins inserted = (
     let proxyLoc = (if loc = InstLocation_after then InstLocation_after else InstLocation_prior) in
     fold (\<lambda>ins. fold (protect_reg proxyLoc xins (ci_regsDefined ins)) [0..<X86_ALU_REGS]) inserted
       (new_BitSet X86_ALU_REGS))"

section \<open>Flags to save\<close>

definition live_flags :: "InstLocations \<Rightarrow> LiveInstruction \<Rightarrow> BitSet res" where
  "live_flags loc xins = rfold (\<lambda>i s.
     if loc = InstLocation_prior then Inr (if \<not> isFlagDeadIn xins (of_nat i) then bs_insert i s else s)
     else if loc = InstLocation_after then Inr (if \<not> isFlagDeadOut xins (of_nat i) then bs_insert i s else s)
     else Inl AssertFailed) [0..<X86_FLAG_BITS] (new_BitSet X86_FLAG_BITS)"

definition squashed_flags :: "CoreInstruction list \<Rightarrow> BitSet" where
  "squashed_flags inserted = fold (\<lambda>s. fold (\<lambda>j b. if bs_contains (ci_flagsDefined s) j then bs_insert j b else b)
     [0..<X86_FLAG_BITS]) inserted (new_BitSet X86_FLAG_BITS)"

definition protect_bits :: "BitSet \<Rightarrow> BitSet \<Rightarrow> BitSet" where
  "protect_bits liveSet flagsSquashed = fold (\<lambda>i b. if bs_contains liveSet i \<and> bs_contains flagsSquashed i
     then bs_insert i b else b) [0..<X86_FLAG_BITS] (new_BitSet X86_FLAG_BITS)"

text \<open>The last loop leaves with \<open>break\<close> once the full protection is needed.\<close>

fun weakest_method :: "BitSet \<Rightarrow> nat list \<Rightarrow> FlagsProtectionMethods \<Rightarrow> FlagsProtectionMethods" where
  "weakest_method b [] prot = prot"
| "weakest_method b (i # is) prot = (if bs_contains b i then
     (if CONTAINS_FLAG flag_mask_protect_light i then weakest_method b is FlagsProtectionMethod_light
      else if CONTAINS_FLAG flag_mask_protect_full i then FlagsProtectionMethod_full
      else weakest_method b is prot)
     else weakest_method b is prot)"

definition getFlagsMethod :: "InstLocations \<Rightarrow> LiveInstruction \<Rightarrow> CoreInstruction list \<Rightarrow> bool
    \<Rightarrow> FlagsProtectionMethods res" where
  "getFlagsMethod loc xins inserted canOverflow = (
     if loc = InstLocation_replace then Inr FlagsProtectionMethod_none else
     rbind (live_flags loc xins) (\<lambda>liveSet.
     if bs_empty liveSet then Inr FlagsProtectionMethod_none else
     let flagsSquashed = squashed_flags inserted;
       flagsSquashed = (if canOverflow = False then bs_remove X86_FLAG_OF flagsSquashed else flagsSquashed) in
     Inr (weakest_method (protect_bits liveSet flagsSquashed) [0..<X86_FLAG_BITS] FlagsProtectionMethod_none)))"

section \<open>What is saved\<close>

definition reg_live :: "InstLocations \<Rightarrow> LiveInstruction \<Rightarrow> nat \<Rightarrow> bool" where
  "reg_live loc x j \<longleftrightarrow> (if loc = InstLocation_after then \<not> isRegDeadOut x (of_nat j) else \<not> isRegDeadIn x (of_nat j))"

definition flag_live :: "InstLocations \<Rightarrow> LiveInstruction \<Rightarrow> nat \<Rightarrow> bool" where
  "flag_live loc x i \<longleftrightarrow> (if loc = InstLocation_after then \<not> isFlagDeadOut x (of_nat i) else \<not> isFlagDeadIn x (of_nat i))"

definition regs_defined :: "CoreInstruction list \<Rightarrow> nat set" where
  "regs_defined xs = {j. j < X86_ALU_REGS \<and> (\<exists>x \<in> set xs. containsRegister (ci_regsDefined x) (of_nat j))}"

definition flags_defined :: "CoreInstruction list \<Rightarrow> nat set" where
  "flags_defined xs = {i. i < X86_FLAG_BITS \<and> (\<exists>x \<in> set xs. bs_contains (ci_flagsDefined x) i)}"

text \<open>A loop that inserts the numbers with a property.\<close>

lemma fold_insert_if:
  assumes "bs_ok b" and "set js \<subseteq> {..<maximum b}"
  shows "bs_ok (fold (\<lambda>j b. if P j then bs_insert j b else b) js b) \<and>
    maximum (fold (\<lambda>j b. if P j then bs_insert j b else b) js b) = maximum b \<and>
    members (fold (\<lambda>j b. if P j then bs_insert j b else b) js b) = members b \<union> {j \<in> set js. P j}"
  using assms
proof (induction js arbitrary: b)
  case (Cons j js)
  show ?case
    using Cons.IH [of "bs_insert j b"] Cons.IH [of b] Cons.prems bs.ok_ins [OF Cons.prems(1), of j]
      bs.abs_ins [OF Cons.prems(1), of j] bs.cap_ins [of j b]
    by (cases "P j") auto
qed simp

lemma fold_fold_insert_if:
  assumes "bs_ok b" and "set js \<subseteq> {..<maximum b}"
  shows "bs_ok (fold (\<lambda>x. fold (\<lambda>j b. if P x j then bs_insert j b else b) js) xs b) \<and>
    maximum (fold (\<lambda>x. fold (\<lambda>j b. if P x j then bs_insert j b else b) js) xs b) = maximum b \<and>
    members (fold (\<lambda>x. fold (\<lambda>j b. if P x j then bs_insert j b else b) js) xs b) =
      members b \<union> {j \<in> set js. \<exists>x \<in> set xs. P x j}"
  using assms
proof (induction xs arbitrary: b)
  case (Cons x xs)
  note f = fold_insert_if [OF Cons.prems, of "P x"]
  show ?case using Cons.IH [of "fold (\<lambda>j b. if P x j then bs_insert j b else b) js b"] f Cons.prems(2) by auto
qed simp

lemma protect_reg_if: "protect_reg (if loc = InstLocation_after then InstLocation_after else InstLocation_prior) x defs =
    (\<lambda>j n. if reg_live loc x j \<and> containsRegister defs (of_nat j) then bs_insert j n else n)"
  by (intro ext) (simp add: protect_reg_def reg_live_def Let_def)

lemma new_BitSet_facts: "n < 2 ^ 32 \<Longrightarrow> bs_ok (new_BitSet n) \<and> maximum (new_BitSet n) = n \<and> members (new_BitSet n) = {}"
  by (simp add: new_ok)

lemma getProtectedRegs_members: "members (getProtectedRegs loc x xs) = {j \<in> regs_defined xs. reg_live loc x j}"
proof -
  have n: "bs_ok (new_BitSet X86_ALU_REGS)" "maximum (new_BitSet X86_ALU_REGS) = X86_ALU_REGS" "members (new_BitSet X86_ALU_REGS) = {}"
    using new_BitSet_facts [of X86_ALU_REGS] by (simp_all add: X86_ALU_REGS_value)
  have s: "set [0..<X86_ALU_REGS] \<subseteq> {..<maximum (new_BitSet X86_ALU_REGS)}" by (auto simp: n(2))
  show ?thesis
    unfolding getProtectedRegs_def Let_def protect_reg_if
      fold_fold_insert_if [OF n(1) s, THEN conjunct2, THEN conjunct2] n(3) regs_defined_def by auto
qed

text \<open>The flags to save, with the overflow flag left out where the tool allows that.\<close>

definition flags_to_save :: "InstLocations \<Rightarrow> LiveInstruction \<Rightarrow> CoreInstruction list \<Rightarrow> bool \<Rightarrow> nat set" where
  "flags_to_save loc x xs canOverflow =
     {i \<in> flags_defined xs. flag_live loc x i \<and> (canOverflow \<or> i \<noteq> X86_FLAG_OF)}"

definition light_flags :: "nat set" where "light_flags = {0, 2, 4, 6, 7}"
definition full_flags :: "nat set" where "full_flags = {8, 9, 10, 11, 12, 13, 14}"

lemma CONTAINS_FLAG_bit: "CONTAINS_FLAG v i \<longleftrightarrow> bit v i"
proof -
  have "drop_bit i v AND 1 = of_bool (bit v i)"
    by (simp add: and_one_eq mod_2_eq_odd bit_iff_odd_drop_bit)
  then show ?thesis by (simp add: CONTAINS_FLAG_def)
qed

lemma protect_masks:
  "i < X86_FLAG_BITS \<Longrightarrow> CONTAINS_FLAG flag_mask_protect_light i \<longleftrightarrow> i \<in> light_flags"
  "i < X86_FLAG_BITS \<Longrightarrow> CONTAINS_FLAG flag_mask_protect_full i \<longleftrightarrow> i \<in> light_flags \<union> full_flags"
  unfolding CONTAINS_FLAG_bit flag_mask_protect_light_def flag_mask_protect_full_def bit_shift_def light_flags_def full_flags_def
  by (simp_all only: bit_or_iff bit_push_bit_iff bit_1_iff x86_flags X86_FLAG_BITS_def) auto

lemma weakest_method_value:
  assumes "set is \<subseteq> {..<X86_FLAG_BITS}" and "prot \<in> {FlagsProtectionMethod_none, FlagsProtectionMethod_light}"
  shows "weakest_method b is prot =
    (if members b \<inter> set is \<inter> full_flags \<noteq> {} then FlagsProtectionMethod_full
     else if members b \<inter> set is \<inter> light_flags \<noteq> {} then FlagsProtectionMethod_light else prot)"
  using assms
proof (induction "is" arbitrary: prot)
  case (Cons i "is")
  have d: "light_flags \<inter> full_flags = {}" by (simp add: light_flags_def full_flags_def)
  have i: "i < X86_FLAG_BITS" using Cons.prems(1) by simp
  note IH = Cons.IH [of prot] Cons.IH [of FlagsProtectionMethod_light]
  show ?case
  proof (cases "i \<in> members b")
    case False
    then show ?thesis using IH(1) Cons.prems by (simp add: bs.abs_has Int_insert_left)
  next
    case True
    then show ?thesis using IH Cons.prems protect_masks [OF i] d
      by (cases "i \<in> light_flags"; cases "i \<in> full_flags") (auto simp: bs.abs_has)
  qed
qed simp

lemma new_flag_set:
  "bs_ok (new_BitSet X86_FLAG_BITS)" "maximum (new_BitSet X86_FLAG_BITS) = X86_FLAG_BITS"
  "members (new_BitSet X86_FLAG_BITS) = {}" "set [0..<X86_FLAG_BITS] \<subseteq> {..<maximum (new_BitSet X86_FLAG_BITS)}"
  using new_BitSet_facts [of X86_FLAG_BITS] by (auto simp: X86_FLAG_BITS_def)

lemma live_flags_value:
  assumes "loc = InstLocation_prior \<or> loc = InstLocation_after"
  shows "\<exists>s. live_flags loc x = Inr s \<and> bs_ok s \<and> maximum s = X86_FLAG_BITS \<and>
    members s = {i. i < X86_FLAG_BITS \<and> flag_live loc x i}"
proof -
  have "live_flags loc x = rfold (\<lambda>i s. Inr (if flag_live loc x i then bs_insert i s else s))
      [0..<X86_FLAG_BITS] (new_BitSet X86_FLAG_BITS)"
    using assms by (auto simp: live_flags_def flag_live_def intro!: arg_cong [where f = "\<lambda>f. rfold f _ _"])
  also have "\<dots> = Inr (fold (\<lambda>i s. if flag_live loc x i then bs_insert i s else s) [0..<X86_FLAG_BITS] (new_BitSet X86_FLAG_BITS))"
    using rfold_fold [of "\<lambda>_. True" "new_BitSet X86_FLAG_BITS" "[0..<X86_FLAG_BITS]"
        "\<lambda>i s. Inr (if flag_live loc x i then bs_insert i s else s)" "\<lambda>i s. if flag_live loc x i then bs_insert i s else s"]
    by simp
  finally have e: "live_flags loc x =
    Inr (fold (\<lambda>i s. if flag_live loc x i then bs_insert i s else s) [0..<X86_FLAG_BITS] (new_BitSet X86_FLAG_BITS))" .
  show ?thesis unfolding e
    using fold_insert_if [OF new_flag_set(1,4), of "flag_live loc x"] new_flag_set(2,3) by auto
qed

lemma squashed_flags_value:
  "bs_ok (squashed_flags xs)" "maximum (squashed_flags xs) = X86_FLAG_BITS" "members (squashed_flags xs) = flags_defined xs"
proof -
  note f = fold_fold_insert_if [OF new_flag_set(1,4), of "\<lambda>x j. bs_contains (ci_flagsDefined x) j" xs]
  show "bs_ok (squashed_flags xs)" using f unfolding squashed_flags_def by (rule conjunct1)
  show "maximum (squashed_flags xs) = X86_FLAG_BITS"
    unfolding squashed_flags_def f [THEN conjunct2, THEN conjunct1] by (rule new_flag_set(2))
  show "members (squashed_flags xs) = flags_defined xs"
    unfolding squashed_flags_def f [THEN conjunct2, THEN conjunct2] new_flag_set(3) flags_defined_def by auto
qed

lemma protect_bits_value: "members (protect_bits a b) = {i. i < X86_FLAG_BITS \<and> i \<in> members a \<and> i \<in> members b}"
  unfolding protect_bits_def fold_insert_if [OF new_flag_set(1,4), THEN conjunct2, THEN conjunct2] new_flag_set(3)
  by (auto simp: bs.abs_has)

text \<open>The method \<open>getFlagsMethod\<close> chooses.\<close>

lemma getFlagsMethod_value:
  assumes "loc = InstLocation_prior \<or> loc = InstLocation_after"
  shows "getFlagsMethod loc x xs ov = Inr (let S = flags_to_save loc x xs ov in
    if S \<inter> full_flags \<noteq> {} then FlagsProtectionMethod_full
    else if S \<inter> light_flags \<noteq> {} then FlagsProtectionMethod_light else FlagsProtectionMethod_none)"
proof -
  obtain s where s: "live_flags loc x = Inr s" "bs_ok s" "members s = {i. i < X86_FLAG_BITS \<and> flag_live loc x i}"
    using live_flags_value [OF assms, of x] by blast
  note q = squashed_flags_value [of xs]
  define fs where "fs = (if ov = False then bs_remove X86_FLAG_OF (squashed_flags xs) else squashed_flags xs)"
  have fs: "members fs = {i \<in> flags_defined xs. ov \<or> i \<noteq> X86_FLAG_OF}"
    using q(3) bs.abs_rem [OF q(1), of X86_FLAG_OF] by (auto simp: fs_def)
  have p: "members (protect_bits s fs) \<inter> set [0..<X86_FLAG_BITS] = flags_to_save loc x xs ov"
    by (auto simp: protect_bits_value s(3) fs flags_to_save_def flags_defined_def)
  have r: "loc \<noteq> InstLocation_replace" using assms by auto
  show ?thesis
  proof (cases "bs_empty s")
    case True
    then have "members s = {}" using bs_size_card [OF s(2)] by (simp add: bs_empty_def bs_size_def)
    then have "flags_to_save loc x xs ov = {}" using s(3) by (auto simp: flags_to_save_def flags_defined_def)
    then show ?thesis using True s(1) r by (simp add: getFlagsMethod_def)
  next
    case False
    have e: "getFlagsMethod loc x xs ov = Inr (weakest_method (protect_bits s fs) [0..<X86_FLAG_BITS] FlagsProtectionMethod_none)"
      using False s(1) r by (simp add: getFlagsMethod_def fs_def Let_def)
    have b: "set [0..<X86_FLAG_BITS] \<subseteq> {..<X86_FLAG_BITS}" by auto
    show ?thesis unfolding e weakest_method_value [OF b insertI1] p Let_def ..
  qed
qed

end
