(* ===== verification/X86_Branch.thy ===== *)
theory X86_Branch
  imports X86_Emission
begin

text \<open>
  Branches with a one-byte target: \<open>bytesUsedForTarget\<close> and \<open>convertTo4ByteTargetOperand\<close> of
  \<open>src/X86Instruction.C\<close>. Moved code needs four-byte targets, so short branches are rewritten. What
  the disassembler says about the bytes (their length, the class of the instruction, the
  target operand) is a parameter.
\<close>

section \<open>Data\<close>

datatype X86InstructionType = X86InstructionType_unknown | X86InstructionType_invalid
  | X86InstructionType_condbr | X86InstructionType_uncondbr | X86InstructionType_call
  | X86InstructionType_return | X86InstructionType_int | X86InstructionType_move
  | X86InstructionType_float | X86InstructionType_string | X86InstructionType_simd
  | X86InstructionType_avx | X86InstructionType_aes | X86InstructionType_io
  | X86InstructionType_prefetch | X86InstructionType_syscall | X86InstructionType_halt
  | X86InstructionType_hwcount | X86InstructionType_nop | X86InstructionType_trap
  | X86InstructionType_vmx | X86InstructionType_special

text \<open>
  What is read here besides the fields of \<open>ud_object\<close>: the class of the instruction and the target operand, a number
  of bytes and a signed value, which may be missing.
\<close>

record ud_entry = ud_object +
  ud_type :: X86InstructionType
  ud_target :: "(nat \<times> u64) option"

text \<open>\<open>xi_rawBytes\<close> are the bytes of the entry, which \<open>dump\<close> writes.\<close>

record BranchInstruction = X86Instruction +
  bi_entry :: ud_entry
  bi_addressAnchor :: bool
  bi_operandCount :: nat

definition isUnconditionalBranch :: "BranchInstruction \<Rightarrow> bool" where
  "isUnconditionalBranch x \<longleftrightarrow> ud_type (bi_entry x) = X86InstructionType_uncondbr"
definition isConditionalBranch :: "BranchInstruction \<Rightarrow> bool" where
  "isConditionalBranch x \<longleftrightarrow> ud_type (bi_entry x) = X86InstructionType_condbr"
definition isFunctionCall :: "BranchInstruction \<Rightarrow> bool" where
  "isFunctionCall x \<longleftrightarrow> ud_type (bi_entry x) = X86InstructionType_call"
definition isSystemCall :: "BranchInstruction \<Rightarrow> bool" where
  "isSystemCall x \<longleftrightarrow> ud_type (bi_entry x) = X86InstructionType_syscall"
definition isReturn :: "BranchInstruction \<Rightarrow> bool" where
  "isReturn x \<longleftrightarrow> ud_type (bi_entry x) = X86InstructionType_return"
definition isNop :: "BranchInstruction \<Rightarrow> bool" where
  "isNop x \<longleftrightarrow> ud_type (bi_entry x) = X86InstructionType_nop"

definition isControl :: "BranchInstruction \<Rightarrow> bool" where
  "isControl x \<longleftrightarrow> isConditionalBranch x \<or> isUnconditionalBranch x \<or> isSystemCall x \<or> isFunctionCall x \<or> isReturn x"

definition bytesUsedForTarget :: "BranchInstruction \<Rightarrow> nat" where
  "bytesUsedForTarget x = (if isControl x then
     if isUnconditionalBranch x \<or> isConditionalBranch x \<or> isFunctionCall x then
       (case ud_target (bi_entry x) of None \<Rightarrow> 0 | Some (n, _) \<Rightarrow> n) else 0
     else 0)"

definition target_value :: "BranchInstruction \<Rightarrow> u64" where
  "target_value x = (case ud_target (bi_entry x) of None \<Rightarrow> 0 | Some (_, v) \<Rightarrow> v)"

section \<open>Widening the target\<close>

text \<open>The new bytes, in the order of the stores; \<open>None\<close> when nothing changes.\<close>

definition widened_bytes :: "BranchInstruction \<Rightarrow> byte list option res" where
  "widened_bytes x = (
     let raw = xi_rawBytes x; operandValue = (ucast (target_value x) :: u32) in
     if bytesUsedForTarget x \<noteq> 0 \<and> bytesUsedForTarget x < 4 then
       if isUnconditionalBranch x then
         ASSERT (xi_sizeInBytes x = 2) (
         if \<not> bi_addressAnchor x then Inl PrintError
         else Inr (Some ((raw ! 0 - 0x02) # le_bytes32 operandValue)))
       else if isConditionalBranch x then
         if \<not> bi_addressAnchor x then Inl PrintError
         else Inr (Some ([0x0f, raw ! 0 + 0x10] @ le_bytes32 operandValue))
       else if isFunctionCall x then Inr None
       else if isReturn x then ASSERT (xi_sizeInBytes x = 1) (ASSERT (bi_operandCount x = 0) (Inr None))
       else Inl PrintError
     else Inr None)"

definition convertTo4ByteTargetOperand ::
  "(byte list \<Rightarrow> ud_entry) \<Rightarrow> BranchInstruction \<Rightarrow> BranchInstruction res" where
  "convertTo4ByteTargetOperand dis x = ASSERT (isControl x) (
     rbind (widened_bytes x) (\<lambda>r. case r of
       None \<Rightarrow> Inr x
     | Some bs \<Rightarrow> let e = dis bs in
         if ud_length e = 0 then Inl PrintError
         else rbind (new_operands e) (\<lambda>ops.
           Inr (x \<lparr> xi_rawBytes := take (ud_length e) bs, xi_sizeInBytes := ud_length e, bi_entry := e,
             bi_operandCount := length (filter id ops) \<rparr>))))"

section \<open>What the new bytes mean\<close>

lemma below_16: "c < 16 \<Longrightarrow> c \<in> {0, 1, 2, 3, 4, 5, 6, 7, 8, 9, 10, 11, 12, 13, 14, 15 :: nat}"
  by (simp; presburger)

lemma encodes_long_jmp: "encodes m64 (0xe9 # le_bytes32 v) (Insn False False M_jmp [Rel (sint v)])"
  by (simp add: encodes_def decode_defs)

lemma encodes_long_jcc:
  assumes "c < 16"
  shows "encodes m64 ([0x0f, 0x80 + of_nat c] @ le_bytes32 v) (Insn False False (M_jcc c) [Rel (sint v)])"
  using below_16 [OF assms] by (elim insertE; simp add: encodes_def decode_defs)

lemma encodes_jrcxz: "encodes True [0xe3, d] (Insn False False M_jrcxz [Rel (sint d)])"
  by (simp add: encodes_def decode_defs)

lemma decode_0f_f3: "x86_decode True ([0x0f, 0xf3] @ bs) = None"
  by (simp add: decode_defs)

end
