(* ===== verification/X86_Machine.thy ===== *)
theory X86_Machine
  imports X86_Emission
begin

text \<open>
  What the instructions of the subset do: a machine with the general registers, the flags, the
  x87 and vector state as its \<open>fxsave\<close> image, and memory, written from the processor manuals for
  64-bit user mode. Code is fetched as bytes and decoded; a run is a sequence of steps. The
  theorems about generated code (trampolines, wrappers) speak of these runs. It is a
  specification and not a model of code of the repository.
\<close>

section \<open>The decoder on longer input\<close>

named_theorems parsers \<open>parsers that do not look past what they consume\<close>

text \<open>A parser that reads a prefix of its input reads the same prefix of a longer input.\<close>

definition parser :: "(byte list \<Rightarrow> ('a \<times> byte list) option) \<Rightarrow> bool" where
  "parser f \<longleftrightarrow> (\<forall>bs x r s. f bs = Some (x, r) \<longrightarrow> f (bs @ s) = Some (x, r @ s))"

definition body_parser :: "(byte list \<Rightarrow> body) \<Rightarrow> bool" where
  "body_parser f \<longleftrightarrow> (\<forall>bs mn ops r s. f bs = Some (mn, ops, r) \<longrightarrow> f (bs @ s) = Some (mn, ops, r @ s))"

lemma parser_get8 [parsers]: "parser get8"
  by (auto simp: parser_def get8_def split: list.splits)

lemma parser_get16 [parsers]: "parser get16" by (auto simp: parser_def get16_def split: if_splits)
lemma parser_get32 [parsers]: "parser get32" by (auto simp: parser_def get32_def split: if_splits)
lemma parser_get64 [parsers]: "parser get64" by (auto simp: parser_def get64_def split: if_splits)

lemma parser_get_imm [parsers]: "parser (get_imm sz)"
  unfolding get_imm_def [abs_def] by (cases "sz = 16") (simp_all add: parser_get16 parser_get32)

lemma parser_get_disp [parsers]: "parser (get_disp md)"
  using parser_get8 parser_get32 by (auto simp: get_disp_def [abs_def] parser_def)

lemma parser_if [parsers]: "parser f \<Longrightarrow> parser g \<Longrightarrow> parser (\<lambda>bs. if c then f bs else g bs)"
  by (cases c) simp_all

lemma parser_map [parsers]: "parser f \<Longrightarrow> parser (\<lambda>bs. map_option (\<lambda>(d, r). (h d, r)) (f bs))"
  by (fastforce simp: parser_def)

lemma parser_base [parsers]: "parser f \<Longrightarrow> parser (\<lambda>bs. with_base b i (f bs))"
  unfolding with_base_def by (rule parser_map)

lemma parser_none [parsers]: "parser (\<lambda>bs. None)" "body_parser (\<lambda>bs. None)"
  by (simp_all add: parser_def body_parser_def)

lemma parser_cons: "(\<And>b. parser (f b)) \<Longrightarrow> parser (\<lambda>bs. case bs of [] \<Rightarrow> None | b # bs \<Rightarrow> f b bs)"
  by (auto simp: parser_def split: list.splits)

lemma parser_sib [parsers]: "parser (decode_sib p md)"
  unfolding decode_sib_def [abs_def] Let_def by (intro parser_cons parsers)

lemma parser_addr [parsers]: "parser (decode_addr m64 p b)"
  unfolding decode_addr_def [abs_def] by (intro parsers)

lemma body_rm [parsers]:
  assumes "\<And>r x. body_parser (k r x)"
  shows "body_parser (\<lambda>bs. form_rm m64 p sz mk bs k)"
  using assms parser_addr [of m64 p] unfolding body_parser_def parser_def form_rm_def decode_rm_def
  by (fastforce split: list.splits option.splits prod.splits if_splits)

lemma body_imm [parsers]: "parser f \<Longrightarrow> body_parser (\<lambda>bs. with_imm (f bs) mn ops)"
  by (fastforce simp: parser_def body_parser_def with_imm_def split: option.splits)

lemma body_rel [parsers]: "parser f \<Longrightarrow> body_parser (\<lambda>bs. with_rel (f bs) mn)"
  by (fastforce simp: parser_def body_parser_def with_rel_def split: option.splits)

lemma body_some [parsers]: "body_parser (\<lambda>bs. Some (mn, ops, bs))" by (simp add: body_parser_def)
lemma body_if [parsers]: "body_parser f \<Longrightarrow> body_parser g \<Longrightarrow> body_parser (\<lambda>bs. if c then f bs else g bs)" by (cases c) simp_all
lemma body_mem [parsers]: "body_parser f \<Longrightarrow> body_parser (\<lambda>bs. mem_only x (f bs))" by (simp add: mem_only_def body_parser_def)

lemma parser_moffs [parsers]: "parser (moffs m64 p)"
  unfolding moffs_def [abs_def] using parser_map [OF parser_get64] parser_map [OF parser_get32] by (cases m64) simp_all

lemma body_map [parsers]: "parser f \<Longrightarrow> body_parser (\<lambda>bs. map_option (\<lambda>(x, k). (mn, ops x, k)) (f bs))"
  by (fastforce simp: parser_def body_parser_def)

lemma body_0f: "body_parser (decode_0f m64 p op)"
  unfolding decode_0f_def [abs_def] Let_def by (intro parsers)
lemma body_group [parsers]: "body_parser (decode_group m64 p op)"
  unfolding decode_group_def [abs_def] Let_def by (intro parsers)
lemma body_plain [parsers]: "body_parser (decode_plain op)"
  unfolding decode_plain_def [abs_def] Let_def by (intro parsers)
lemma body_opreg [parsers]: "body_parser (decode_opreg m64 p op)"
  unfolding decode_opreg_def [abs_def] Let_def by (intro parsers)
lemma body_1 : "body_parser (decode_1 m64 p op)"
  unfolding decode_1_def [abs_def] Let_def by (intro parsers)

lemma legacy_prefixes_append: "legacy_prefixes p bs = (q, r) \<Longrightarrow> r \<noteq> [] \<Longrightarrow> legacy_prefixes p (bs @ s) = (q, r @ s)"
  by (induction p bs rule: legacy_prefixes.induct) (auto simp: Let_def split: if_splits)

lemma rex_prefix_append: "rex_prefix m64 p bs = (q, r) \<Longrightarrow> r \<noteq> [] \<Longrightarrow> rex_prefix m64 p (bs @ s) = (q, r @ s)"
  by (auto simp: rex_prefix_def split: list.splits if_splits)

lemma finish_append:
  assumes "body_parser f" and "finish_insn p (f bs) = Some (i, r)"
  shows "finish_insn p (f (bs @ s)) = Some (i, r @ s)"
  using assms by (fastforce simp: body_parser_def finish_insn_def split: option.splits if_splits)

lemma x86_decode_append:
  assumes "x86_decode m64 bs = Some (i, r)"
  shows "x86_decode m64 (bs @ s) = Some (i, r @ s)"
proof -
  obtain p bs1 where 1: "legacy_prefixes no_prefixes bs = (p, bs1)" by fastforce
  obtain q bs2 where 2: "rex_prefix m64 p bs1 = (q, bs2)" by fastforce
  have n: "bs2 \<noteq> []" using assms 1 2 by (auto simp: x86_decode_def)
  then have "bs1 \<noteq> []" using 2 by (auto simp: rex_prefix_def)
  with 1 2 n have e: "legacy_prefixes no_prefixes (bs @ s) = (p, bs1 @ s)" "rex_prefix m64 p (bs1 @ s) = (q, bs2 @ s)"
    by (auto intro: legacy_prefixes_append rex_prefix_append)
  obtain b bs3 where b: "bs2 = b # bs3" using n by (cases bs2) auto
  show ?thesis
  proof (cases "unat b = 15")
    case True
    then obtain c bs4 where c: "bs3 = c # bs4" using assms by (cases bs3) (simp_all add: x86_decode_def 1 2 b)
    show ?thesis using assms finish_append [OF body_0f] by (simp add: x86_decode_def e 1 2 b c True)
  next
    case False
    then show ?thesis using assms finish_append [OF body_1] by (simp add: x86_decode_def e 1 2 b False)
  qed
qed


section \<open>Memory\<close>

definition bytes_at :: "(u64 \<Rightarrow> byte) \<Rightarrow> u64 \<Rightarrow> nat \<Rightarrow> byte list" where
  "bytes_at mem a n = map (\<lambda>i. mem (a + of_nat i)) [0..<n]"

definition store_bytes :: "(u64 \<Rightarrow> byte) \<Rightarrow> u64 \<Rightarrow> byte list \<Rightarrow> u64 \<Rightarrow> byte" where
  "store_bytes mem a bs = (\<lambda>x. if unat (x - a) < length bs then bs ! unat (x - a) else mem x)"

definition load64 :: "(u64 \<Rightarrow> byte) \<Rightarrow> u64 \<Rightarrow> u64" where
  "load64 mem a = of_nat (le_val (bytes_at mem a 8))"

definition store64 :: "(u64 \<Rightarrow> byte) \<Rightarrow> u64 \<Rightarrow> u64 \<Rightarrow> u64 \<Rightarrow> byte" where
  "store64 mem a w = store_bytes mem a (le_bytes64 w)"

text \<open>The \<open>n\<close> bytes from an address.\<close>

definition area :: "u64 \<Rightarrow> nat \<Rightarrow> u64 set" where
  "area a n = {x. unat (x - a) < n}"

lemma unat_of_nat_u64: "i < 18446744073709551616 \<Longrightarrow> unat (of_nat i :: u64) = i"
  by (simp add: unat_of_nat)

lemma length_bytes_at [simp]: "length (bytes_at mem a n) = n"
  by (simp add: bytes_at_def)

lemma bytes_at_append: "bytes_at mem a (m + n) = bytes_at mem a m @ bytes_at mem (a + of_nat m) n"
  by (intro nth_equalityI) (auto simp: bytes_at_def nth_append)

lemma bytes_at_eq_appendD:
  assumes "bytes_at mem a (length (bs @ cs)) = bs @ cs"
  shows "bytes_at mem a (length bs) = bs" "bytes_at mem (a + of_nat (length bs)) (length cs) = cs"
  using assms by (simp_all add: bytes_at_append)

lemma area_iff: "n \<le> 18446744073709551616 \<Longrightarrow> x \<in> area a n \<longleftrightarrow> (\<exists>i < n. x = a + of_nat i)"
proof
  assume "x \<in> area a n"
  then show "\<exists>i < n. x = a + of_nat i" by (intro exI [of _ "unat (x - a)"]) (simp add: area_def)
next
  assume n: "n \<le> 18446744073709551616" and "\<exists>i < n. x = a + of_nat i"
  then show "x \<in> area a n" by (auto simp: area_def unat_of_nat_u64)
qed

lemma bytes_at_cong:
  assumes "\<And>x. x \<in> area a n \<Longrightarrow> mem x = mem' x" and "n \<le> 18446744073709551616"
  shows "bytes_at mem a n = bytes_at mem' a n"
proof -
  have "a + of_nat i \<in> area a n" if "i < n" for i using that assms(2) by (auto simp: area_iff)
  then show ?thesis using assms(1) by (simp add: bytes_at_def)
qed

lemma bytes_at_store_bytes: "length bs \<le> 18446744073709551616 \<Longrightarrow> bytes_at (store_bytes mem a bs) a (length bs) = bs"
  by (intro nth_equalityI) (simp_all add: bytes_at_def store_bytes_def unat_of_nat_u64)

lemma store_bytes_other: "x \<notin> area a (length bs) \<Longrightarrow> store_bytes mem a bs x = mem x"
  by (simp add: store_bytes_def area_def)

lemma load64_store64 [simp]: "load64 (store64 mem a w) a = w"
  using bytes_at_store_bytes [of "le_bytes64 w" mem a] by (simp add: load64_def store64_def)

lemma store64_other: "x \<notin> area a 8 \<Longrightarrow> store64 mem a w x = mem x"
  by (simp add: store64_def store_bytes_other)

lemma load64_cong: "(\<And>x. x \<in> area a 8 \<Longrightarrow> mem x = mem' x) \<Longrightarrow> load64 mem a = load64 mem' a"
  using bytes_at_cong [of a 8 mem mem'] by (simp add: load64_def)

section \<open>Instructions\<close>

text \<open>
  \<open>m_undef\<close> is the value the processor gives to a flag that the manuals leave undefined.
\<close>

record machine =
  m_rip :: u64
  m_regs :: "nat \<Rightarrow> u64"
  m_flags :: u64
  m_fpu :: "byte list"
  m_mem :: "u64 \<Rightarrow> byte"
  m_undef :: bool

abbreviation m_rsp :: "machine \<Rightarrow> u64" where "m_rsp m \<equiv> m_regs m 4"

definition set_reg :: "nat \<Rightarrow> u64 \<Rightarrow> machine \<Rightarrow> machine" where
  "set_reg r v m = m \<lparr> m_regs := (m_regs m)(r := v) \<rparr>"

text \<open>Relative addresses count from the end of the instruction; \<open>m_rip\<close> is there already.\<close>

definition effective :: "machine \<Rightarrow> address \<Rightarrow> u64" where
  "effective m a = eff_addr (m_regs m) (m_rip m) a"

definition push64 :: "u64 \<Rightarrow> machine \<Rightarrow> machine" where
  "push64 v m = set_reg 4 (m_rsp m - 8) (m \<lparr> m_mem := store64 (m_mem m) (m_rsp m - 8) v \<rparr>)"

definition pop64 :: "machine \<Rightarrow> u64 \<times> machine" where
  "pop64 m = (load64 (m_mem m) (m_rsp m), set_reg 4 (m_rsp m + 8) m)"

text \<open>
  The flags \<open>popf\<close> writes in user mode (carry, parity, adjust, zero, sign, trap, direction,
  overflow, nested task, alignment check, identification), those \<open>pushf\<close> stores, those of \<open>lahf\<close> and \<open>sahf\<close>, and
  those a logical instruction defines.
\<close>

definition popf_mask :: u64 where "popf_mask = 0x244dd5"
definition pushf_mask :: u64 where "pushf_mask = 0xfcffff"
definition resume_flag :: u64 where "resume_flag = 0x10000"
definition ah_mask :: u64 where "ah_mask = 0xd5"
definition logic_mask :: u64 where "logic_mask = 0x8d5"

definition with_flags :: "u64 \<Rightarrow> u64 \<Rightarrow> machine \<Rightarrow> machine" where
  "with_flags fm v m = m \<lparr> m_flags := (m_flags m AND NOT fm) OR (v AND fm) \<rparr>"

definition flag_bit :: "nat \<Rightarrow> bool \<Rightarrow> u64" where
  "flag_bit i b = (if b then push_bit i 1 else 0)"

definition logic_flags :: "bool \<Rightarrow> u64 \<Rightarrow> u64" where
  "logic_flags af v = flag_bit 2 (even (length (filter (bit v) [0..<8]))) OR flag_bit 4 af OR
     flag_bit 6 (v = 0) OR flag_bit 7 (bit v 63)"

definition exec0 :: "mnemonic \<Rightarrow> machine \<Rightarrow> machine option" where
  "exec0 mn m = (
     if mn = M_pushf then Some (push64 (m_flags m AND pushf_mask) m)
     else if mn = M_popf then (case pop64 m of (v, m) \<Rightarrow> Some (with_flags resume_flag 0 (with_flags popf_mask v m)))
     else if mn = M_lahf then
       Some (set_reg 0 ((m_regs m 0 AND NOT 0xff00) OR push_bit 8 ((m_flags m AND ah_mask) OR 2)) m)
     else if mn = M_sahf then Some (with_flags ah_mask (drop_bit 8 (m_regs m 0)) m)
     else if mn = M_ret then (case pop64 m of (v, m) \<Rightarrow> Some (m \<lparr> m_rip := v \<rparr>))
     else if mn = M_nop then Some m
     else None)"

definition exec_reg :: "mnemonic \<Rightarrow> nat \<Rightarrow> machine \<Rightarrow> machine option" where
  "exec_reg mn r m = (
     if mn = M_push then Some (push64 (m_regs m r) m)
     else if mn = M_pop then (case pop64 m of (v, m) \<Rightarrow> Some (set_reg r v m))
     else None)"

definition exec_mem :: "mnemonic \<Rightarrow> u64 \<Rightarrow> machine \<Rightarrow> machine option" where
  "exec_mem mn p m = (
     if mn = M_fxsave \<and> unat p mod 16 = 0 then Some (m \<lparr> m_mem := store_bytes (m_mem m) p (m_fpu m) \<rparr>)
     else if mn = M_fxrstor \<and> unat p mod 16 = 0 then Some (m \<lparr> m_fpu := bytes_at (m_mem m) p 512 \<rparr>)
     else if mn = M_nop then Some m
     else None)"

definition exec_rel :: "mnemonic \<Rightarrow> int \<Rightarrow> machine \<Rightarrow> machine option" where
  "exec_rel mn d m = (
     if mn = M_jmp then Some (m \<lparr> m_rip := m_rip m + word_of_int d \<rparr>)
     else if mn = M_call then Some ((push64 (m_rip m) m) \<lparr> m_rip := m_rip m + word_of_int d \<rparr>)
     else None)"

definition exec_reg_reg :: "mnemonic \<Rightarrow> nat \<Rightarrow> nat \<Rightarrow> machine \<Rightarrow> machine option" where
  "exec_reg_reg mn r q m = (
     if mn = M_mov then Some (set_reg r (m_regs m q) m)
     else if mn = M_and then (let v = m_regs m r AND m_regs m q in
       Some (with_flags logic_mask (logic_flags (m_undef m) v) (set_reg r v m)))
     else None)"

definition exec_reg_mem :: "mnemonic \<Rightarrow> nat \<Rightarrow> nat \<Rightarrow> u64 \<Rightarrow> machine \<Rightarrow> machine option" where
  "exec_reg_mem mn r sz p m = (
     if mn = M_lea then Some (set_reg r p m)
     else if mn = M_mov \<and> sz = 64 then Some (set_reg r (load64 (m_mem m) p) m)
     else None)"

fun exec_ops :: "mnemonic \<Rightarrow> operand list \<Rightarrow> machine \<Rightarrow> machine option" where
  "exec_ops mn [] m = exec0 mn m"
| "exec_ops mn [Gpr w r] m = (if w = 64 then exec_reg mn r m else None)"
| "exec_ops mn [Mem sz w None a] m = (if w = 64 then exec_mem mn (effective m a) m else None)"
| "exec_ops mn [Rel d] m = exec_rel mn d m"
| "exec_ops mn [Gpr w r, Gpr v q] m = (if w = 64 \<and> v = 64 then exec_reg_reg mn r q m else None)"
| "exec_ops mn [Gpr w r, Imm v] m = (if w = 64 \<and> mn = M_mov then Some (set_reg r (word_of_int v) m) else None)"
| "exec_ops mn [Gpr w r, Mem sz v None a] m =
     (if w = 64 \<and> v = 64 then exec_reg_mem mn r sz (effective m a) m else None)"
| "exec_ops mn [Mem sz v None a, Gpr w q] m = (if w = 64 \<and> v = 64 \<and> sz = 64 \<and> mn = M_mov
     then Some (m \<lparr> m_mem := store64 (m_mem m) (effective m a) (m_regs m q) \<rparr>) else None)"
| "exec_ops mn _ m = None"

definition exec :: "insn \<Rightarrow> machine \<Rightarrow> machine option" where
  "exec i m = (case i of Insn lock rep mn ops \<Rightarrow> if lock \<or> rep then None else exec_ops mn ops m)"

section \<open>Runs\<close>

text \<open>Instructions have at most 15 bytes. The code does not change while it runs.\<close>

definition advance :: "nat \<Rightarrow> machine \<Rightarrow> machine" where
  "advance n m = m \<lparr> m_rip := m_rip m + of_nat n \<rparr>"

definition machine_step :: "(u64 \<Rightarrow> byte) \<Rightarrow> machine \<Rightarrow> machine option" where
  "machine_step code m = (case x86_decode True (bytes_at code (m_rip m) 15) of
     None \<Rightarrow> None | Some (i, rest) \<Rightarrow> exec i (advance (15 - length rest) m))"

inductive runs :: "(u64 \<Rightarrow> byte) \<Rightarrow> machine \<Rightarrow> machine \<Rightarrow> bool" for code where
  runs_refl: "runs code m m"
| runs_step: "machine_step code m = Some m1 \<Longrightarrow> runs code m1 m2 \<Longrightarrow> runs code m m2"

lemma runs_trans: "runs code a b \<Longrightarrow> runs code b c \<Longrightarrow> runs code a c"
  by (induction rule: runs.induct) (auto intro: runs_step)

text \<open>Steps are a function, so a run through \<open>m1\<close> is the only way the machine can go.\<close>

lemma runs_linear: "runs code m m1 \<Longrightarrow> runs code m m2 \<Longrightarrow> runs code m1 m2 \<or> runs code m2 m1"
proof (induction arbitrary: m2 rule: runs.induct)
  case (runs_refl m)
  then show ?case by simp
next
  case (runs_step m n m1)
  from runs_step.prems show ?case
  proof (cases rule: runs.cases)
    case runs_refl
    then show ?thesis using runs_step.hyps by (auto intro: runs.runs_step)
  next
    case (runs_step k)
    then show ?thesis using runs_step.IH runs_step.hyps by auto
  qed
qed

definition code_at :: "(u64 \<Rightarrow> byte) \<Rightarrow> u64 \<Rightarrow> byte list \<Rightarrow> bool" where
  "code_at code a bs \<longleftrightarrow> bytes_at code a (length bs) = bs"

lemma code_at_append: "code_at code a (bs @ cs) \<longleftrightarrow> code_at code a bs \<and> code_at code (a + of_nat (length bs)) cs"
  by (simp add: code_at_def bytes_at_append)

lemma code_at_Nil [simp]: "code_at code a []"
  by (simp add: code_at_def bytes_at_def)

lemma machine_step_insn:
  assumes "code_at code (m_rip m) bs" and "encodes True bs i" and "length bs \<le> 15"
  shows "machine_step code m = exec i (advance (length bs) m)"
proof -
  have "bytes_at code (m_rip m) (length bs + (15 - length bs)) =
      bs @ bytes_at code (m_rip m + of_nat (length bs)) (15 - length bs)"
    using assms(1) by (simp add: bytes_at_append code_at_def)
  then have "bytes_at code (m_rip m) 15 = bs @ bytes_at code (m_rip m + of_nat (length bs)) (15 - length bs)"
    using assms(3) by simp
  then show ?thesis
    using x86_decode_append [OF assms(2) [unfolded encodes_def], of "bytes_at code (m_rip m + of_nat (length bs)) (15 - length bs)"]
      assms(3) by (simp add: machine_step_def)
qed

lemma runs_insn:
  assumes "code_at code (m_rip m) bs" and "encodes True bs i" and "length bs \<le> 15"
    and "exec i (advance (length bs) m) = Some m'"
  shows "runs code m m'"
  using machine_step_insn [OF assms(1-3)] assms(4) runs_step [OF _ runs_refl] by simp

end
