(* ===== verification/X86_Segment.thy ===== *)
theory X86_Segment
  imports X86_Machine
begin

text \<open>
  Contracts of pieces of code: a piece that runs from one address to another with the stack
  pointer where it was, and what it may have changed on the way. The lemmas say what a pair of
  instructions around a piece does to its contract: a push and a pop, \<open>pushf\<close> and \<open>popf\<close>,
  \<open>lahf\<close> and \<open>sahf\<close>, two moves of the stack pointer, a call.
\<close>

section \<open>Contracts\<close>

record effect =
  e_mem :: "u64 set"
  e_regs :: "nat set"
  e_flags :: "nat set"
  e_fpu :: bool

definition changes :: "effect \<Rightarrow> machine \<Rightarrow> machine \<Rightarrow> bool" where
  "changes E m m' \<longleftrightarrow> (\<forall>x. x \<notin> e_mem E \<longrightarrow> m_mem m' x = m_mem m x) \<and>
     (\<forall>r. r \<notin> e_regs E \<longrightarrow> r \<noteq> 4 \<longrightarrow> m_regs m' r = m_regs m r) \<and>
     (\<forall>i. i \<notin> e_flags E \<longrightarrow> bit (m_flags m') i = bit (m_flags m) i) \<and>
     (\<not> e_fpu E \<longrightarrow> m_fpu m' = m_fpu m) \<and> (length (m_fpu m) = 512 \<longrightarrow> length (m_fpu m') = 512)"

text \<open>The data the piece relies on, and the bytes these data do not depend on.\<close>

definition stable :: "((u64 \<Rightarrow> byte) \<Rightarrow> bool) \<Rightarrow> u64 set \<Rightarrow> bool" where
  "stable I A \<longleftrightarrow> (\<forall>mem mem'. (\<forall>x. x \<notin> A \<longrightarrow> mem' x = mem x) \<longrightarrow> I mem \<longrightarrow> I mem')"

definition good_state :: "((u64 \<Rightarrow> byte) \<Rightarrow> bool) \<Rightarrow> machine \<Rightarrow> bool" where
  "good_state I m \<longleftrightarrow> I (m_mem m) \<and> length (m_fpu m) = 512"

definition segment :: "(u64 \<Rightarrow> byte) \<Rightarrow> ((u64 \<Rightarrow> byte) \<Rightarrow> bool) \<Rightarrow> u64 \<Rightarrow> u64 \<Rightarrow> u64 \<Rightarrow> effect \<Rightarrow> bool" where
  "segment code I a b s E \<longleftrightarrow> (\<forall>m. m_rip m = a \<longrightarrow> m_rsp m = s \<longrightarrow> good_state I m \<longrightarrow>
     (\<exists>m'. runs code m m' \<and> m_rip m' = b \<and> m_rsp m' = s \<and> I (m_mem m') \<and> changes E m m'))"

text \<open>A routine returns to the address on top of the stack and pops it.\<close>

definition routine :: "(u64 \<Rightarrow> byte) \<Rightarrow> ((u64 \<Rightarrow> byte) \<Rightarrow> bool) \<Rightarrow> u64 \<Rightarrow> u64 \<Rightarrow> effect \<Rightarrow> bool" where
  "routine code I t s E \<longleftrightarrow> (\<forall>m. m_rip m = t \<longrightarrow> m_rsp m = s \<longrightarrow> good_state I m \<longrightarrow>
     (\<exists>m'. runs code m m' \<and> m_rip m' = load64 (m_mem m) s \<and> m_rsp m' = s + 8 \<and> I (m_mem m') \<and> changes E m m'))"

text \<open>One instruction at an address.\<close>

definition insn_at :: "(u64 \<Rightarrow> byte) \<Rightarrow> u64 \<Rightarrow> byte list \<Rightarrow> insn \<Rightarrow> bool" where
  "insn_at code a bs i \<longleftrightarrow> code_at code a bs \<and> encodes True bs i \<and> length bs \<le> 15"

lemma runs_at:
  assumes "insn_at code a bs i" and "m_rip m = a" and "exec i (advance (length bs) m) = Some m'"
  shows "runs code m m'"
  using assms by (auto simp: insn_at_def intro: runs_insn)

lemma segmentI:
  assumes "\<And>m. m_rip m = a \<Longrightarrow> m_rsp m = s \<Longrightarrow> I (m_mem m) \<Longrightarrow> length (m_fpu m) = 512 \<Longrightarrow>
    \<exists>m'. runs code m m' \<and> m_rip m' = b \<and> m_rsp m' = s \<and> I (m_mem m') \<and> changes E m m'"
  shows "segment code I a b s E"
  using assms by (simp add: segment_def good_state_def)

lemma segmentD:
  assumes "segment code I a b s E" and "m_rip m = a" and "m_rsp m = s" and "I (m_mem m)" and "length (m_fpu m) = 512"
  obtains m' where "runs code m m'" and "m_rip m' = b" and "m_rsp m' = s" and "I (m_mem m')" and "changes E m m'"
  using assms unfolding segment_def good_state_def by blast

lemma changes_refl [simp]: "changes E m m"
  by (simp add: changes_def)

lemma changes_trans: "changes E a b \<Longrightarrow> changes E b c \<Longrightarrow> changes E a c"
  by (simp add: changes_def)

lemma changes_mono:
  assumes "changes E m m'" and "e_mem E \<subseteq> e_mem E'" and "e_regs E \<subseteq> e_regs E'" and "e_flags E \<subseteq> e_flags E'"
    and "e_fpu E \<Longrightarrow> e_fpu E'"
  shows "changes E' m m'"
proof -
  have o: "x \<notin> e_mem E' \<Longrightarrow> x \<notin> e_mem E" "r \<notin> e_regs E' \<Longrightarrow> r \<notin> e_regs E" "i \<notin> e_flags E' \<Longrightarrow> i \<notin> e_flags E"
    "\<not> e_fpu E' \<Longrightarrow> \<not> e_fpu E" for x r i using assms(2-5) by auto
  show ?thesis using assms(1) by (simp add: changes_def o)
qed

lemma segment_mono:
  assumes "segment code I a b s E" and "e_mem E \<subseteq> e_mem E'" and "e_regs E \<subseteq> e_regs E'" and "e_flags E \<subseteq> e_flags E'"
    and "e_fpu E \<Longrightarrow> e_fpu E'"
  shows "segment code I a b s E'"
  using assms changes_mono [OF _ assms(2-5)] unfolding segment_def by blast

lemma segment_empty: "segment code I a a s E"
  by (rule segmentI) (auto intro!: exI runs_refl)

lemma segment_append:
  assumes "segment code I a b s E" and "segment code I b c s E"
  shows "segment code I a c s E"
proof (rule segmentI)
  fix m
  assume m: "m_rip m = a" "m_rsp m = s" "I (m_mem m)" "length (m_fpu m) = 512"
  from assms(1) m obtain m1 where 1: "runs code m m1" "m_rip m1 = b" "m_rsp m1 = s" "I (m_mem m1)" "changes E m m1"
    by (rule segmentD)
  have "length (m_fpu m1) = 512" using 1(5) m(4) by (simp add: changes_def)
  from assms(2) 1(2-4) this obtain m2 where 2: "runs code m1 m2" "m_rip m2 = c" "m_rsp m2 = s" "I (m_mem m2)" "changes E m1 m2"
    by (rule segmentD)
  show "\<exists>m'. runs code m m' \<and> m_rip m' = c \<and> m_rsp m' = s \<and> I (m_mem m') \<and> changes E m m'"
    using 1 2 runs_trans changes_trans by blast
qed

lemma stableD: "stable I A \<Longrightarrow> I mem \<Longrightarrow> (\<And>x. x \<notin> A \<Longrightarrow> mem' x = mem x) \<Longrightarrow> I mem'"
  unfolding stable_def by blast

lemma stable_mono: "stable I B \<Longrightarrow> A \<subseteq> B \<Longrightarrow> stable I A"
  unfolding stable_def by blast

section \<open>Effects of single instructions\<close>

lemma machine_simps [simp]:
  "m_regs (set_reg r v m) = (m_regs m)(r := v)" "m_mem (set_reg r v m) = m_mem m" "m_flags (set_reg r v m) = m_flags m"
  "m_fpu (set_reg r v m) = m_fpu m" "m_rip (set_reg r v m) = m_rip m"
  "m_regs (with_flags fm v m) = m_regs m" "m_mem (with_flags fm v m) = m_mem m"
  "m_fpu (with_flags fm v m) = m_fpu m" "m_rip (with_flags fm v m) = m_rip m"
  "m_regs (push64 v m) = (m_regs m)(4 := m_rsp m - 8)" "m_mem (push64 v m) = store64 (m_mem m) (m_rsp m - 8) v"
  "m_flags (push64 v m) = m_flags m" "m_fpu (push64 v m) = m_fpu m" "m_rip (push64 v m) = m_rip m"
  "m_regs (advance n m) = m_regs m" "m_mem (advance n m) = m_mem m" "m_flags (advance n m) = m_flags m"
  "m_fpu (advance n m) = m_fpu m" "m_rip (advance n m) = m_rip m + of_nat n"
  by (simp_all add: set_reg_def with_flags_def push64_def advance_def)

lemma m_flags_with_flags [simp]: "m_flags (with_flags fm v m) = (m_flags m AND NOT fm) OR (v AND fm)"
  by (simp add: with_flags_def)

lemma exec_simps [simp]:
  "exec (Insn False False M_push [Gpr 64 r]) m = Some (push64 (m_regs m r) m)"
  "exec (Insn False False M_pop [Gpr 64 r]) m = Some (set_reg r (load64 (m_mem m) (m_rsp m)) (set_reg 4 (m_rsp m + 8) m))"
  "exec (Insn False False M_pushf []) m = Some (push64 (m_flags m AND pushf_mask) m)"
  "exec (Insn False False M_popf []) m = Some (with_flags resume_flag 0
     (with_flags popf_mask (load64 (m_mem m) (m_rsp m)) (set_reg 4 (m_rsp m + 8) m)))"
  "exec (Insn False False M_lahf []) m =
     Some (set_reg 0 ((m_regs m 0 AND NOT 0xff00) OR push_bit 8 ((m_flags m AND ah_mask) OR 2)) m)"
  "exec (Insn False False M_sahf []) m = Some (with_flags ah_mask (drop_bit 8 (m_regs m 0)) m)"
  "exec (Insn False False M_lea [Gpr 64 r, Mem n 64 None a]) m = Some (set_reg r (effective m a) m)"
  "exec (Insn False False M_mov [Gpr 64 r, Gpr 64 q]) m = Some (set_reg r (m_regs m q) m)"
  "exec (Insn False False M_mov [Gpr 64 r, Imm v]) m = Some (set_reg r (word_of_int v) m)"
  "exec (Insn False False M_and [Gpr 64 r, Gpr 64 q]) m = (let v = m_regs m r AND m_regs m q in
     Some (with_flags logic_mask (logic_flags (m_undef m) v) (set_reg r v m)))"
  "exec (Insn False False M_jmp [Rel d]) m = Some (m \<lparr> m_rip := m_rip m + word_of_int d \<rparr>)"
  "exec (Insn False False M_call [Rel d]) m = Some ((push64 (m_rip m) m) \<lparr> m_rip := m_rip m + word_of_int d \<rparr>)"
  "exec (Insn False False M_ret []) m = Some (set_reg 4 (m_rsp m + 8) m \<lparr> m_rip := load64 (m_mem m) (m_rsp m) \<rparr>)"
  "exec (Insn False False M_nop []) m = Some m"
  by (simp_all add: exec_def exec0_def exec_reg_def exec_mem_def exec_rel_def exec_reg_reg_def exec_reg_mem_def pop64_def)

section \<open>Saving around a piece\<close>

text \<open>The stack slot of a push at stack pointer \<open>s\<close>.\<close>

definition slot :: "u64 \<Rightarrow> u64 set" where
  "slot s = area (s - 8) 8"

lemma load64_untouched:
  assumes "\<forall>x. x \<notin> A \<longrightarrow> mem' x = mem x" and "slot s \<inter> A = {}"
  shows "load64 mem' (s - 8) = load64 mem (s - 8)"
  using assms by (intro load64_cong) (auto simp: slot_def)

lemma stable_push: "stable I (slot s) \<Longrightarrow> I mem \<Longrightarrow> I (store64 mem (s - 8) v)"
  by (erule stableD) (auto simp: slot_def store64_other)

lemma pushed_elsewhere: "x \<notin> slot s \<Longrightarrow> store64 mem (s - 8) v x = mem x"
  by (simp add: slot_def store64_other)

lemma segment_push_pop:
  assumes p: "insn_at code a p (Insn False False M_push [Gpr 64 r])"
    and mid: "segment code I (a + of_nat (length p)) b (s - 8) E"
    and q: "insn_at code b q (Insn False False M_pop [Gpr 64 r])"
    and "slot s \<inter> e_mem E = {}" and "stable I (slot s)"
  shows "segment code I a (b + of_nat (length q)) s (E \<lparr> e_mem := e_mem E \<union> slot s, e_regs := e_regs E - {r} \<rparr>)"
proof (rule segmentI)
  fix m
  assume m: "m_rip m = a" "m_rsp m = s" "I (m_mem m)" "length (m_fpu m) = 512"
  define m1 where "m1 = push64 (m_regs m r) (advance (length p) m)"
  have 1: "runs code m m1" using p m(1) by (rule runs_at) (simp add: m1_def)
  have f1: "m_rip m1 = a + of_nat (length p)" "m_rsp m1 = s - 8" "I (m_mem m1)" "length (m_fpu m1) = 512"
    using m stable_push [OF assms(5) m(3)] by (simp_all add: m1_def)
  obtain m2 where 2: "runs code m1 m2" "m_rip m2 = b" "m_rsp m2 = s - 8" "I (m_mem m2)" "changes E m1 m2"
    using mid f1 by (rule segmentD)
  define m3 where "m3 = set_reg r (load64 (m_mem m2) (m_rsp m2)) (set_reg 4 (m_rsp m2 + 8) (advance (length q) m2))"
  have 3: "runs code m2 m3" using q 2(2) by (rule runs_at) (simp add: m3_def)
  have "load64 (m_mem m2) (s - 8) = load64 (m_mem m1) (s - 8)"
    using 2(5) assms(4) by (intro load64_untouched) (simp_all add: changes_def)
  also have "\<dots> = m_regs m r" using m(2) by (simp add: m1_def)
  finally have v: "load64 (m_mem m2) (s - 8) = m_regs m r" .
  have c: "changes (E \<lparr> e_mem := e_mem E \<union> slot s, e_regs := e_regs E - {r} \<rparr>) m m3"
    using 2(5) m(2) by (auto simp: changes_def m3_def m1_def v 2(3) pushed_elsewhere)
  have "m_rip m3 = b + of_nat (length q)" "m_rsp m3 = s" "I (m_mem m3)" using 2 m(2) v by (auto simp: m3_def)
  then show "\<exists>m'. runs code m m' \<and> m_rip m' = b + of_nat (length q) \<and> m_rsp m' = s \<and> I (m_mem m') \<and>
      changes (E \<lparr> e_mem := e_mem E \<union> slot s, e_regs := e_regs E - {r} \<rparr>) m m'"
    using c runs_trans [OF 1 runs_trans [OF 2(1) 3]] by blast
qed

text \<open>\<open>pushf\<close> and \<open>popf\<close> restore all flags user code can change except the resume flag, which they clear.\<close>

lemma masks_disjoint:
  assumes "a AND b = (0 :: u64)" and "bit a i"
  shows "\<not> bit b i"
proof
  assume "bit b i"
  then have "bit (a AND b) i" using assms(2) by (simp add: bit_and_iff)
  then show False using assms(1) by simp
qed

lemma popf_mask_pushed:
  assumes "bit popf_mask i"
  shows "bit pushf_mask i" "\<not> bit resume_flag i"
proof -
  have d: "popf_mask AND NOT pushf_mask = 0" "popf_mask AND resume_flag = 0"
    by (simp_all add: popf_mask_def pushf_mask_def resume_flag_def)
  have "i < 64" using assms by (auto dest: bit_imp_le_length)
  then show "bit pushf_mask i" using masks_disjoint [OF d(1) assms] by (simp add: bit_not_iff)
  show "\<not> bit resume_flag i" using masks_disjoint [OF d(2) assms] .
qed

lemma bit_resume_flag: "bit resume_flag i \<longleftrightarrow> i = 16"
proof -
  have r: "resume_flag = push_bit 16 1" by (simp add: resume_flag_def)
  show ?thesis unfolding r by (subst bit_push_bit_iff) (auto simp: bit_1_iff)
qed

lemma segment_pushf_popf:
  assumes p: "insn_at code a p (Insn False False M_pushf [])"
    and mid: "segment code I (a + of_nat (length p)) b (s - 8) E"
    and q: "insn_at code b q (Insn False False M_popf [])"
    and "slot s \<inter> e_mem E = {}" and "stable I (slot s)"
  shows "segment code I a (b + of_nat (length q)) s
    (E \<lparr> e_mem := e_mem E \<union> slot s, e_flags := insert 16 {i \<in> e_flags E. \<not> bit popf_mask i} \<rparr>)" (is "segment _ _ _ _ _ ?E")
proof (rule segmentI)
  fix m
  assume m: "m_rip m = a" "m_rsp m = s" "I (m_mem m)" "length (m_fpu m) = 512"
  define m1 where "m1 = push64 (m_flags m AND pushf_mask) (advance (length p) m)"
  have 1: "runs code m m1" using p m(1) by (rule runs_at) (simp add: m1_def)
  have f1: "m_rip m1 = a + of_nat (length p)" "m_rsp m1 = s - 8" "I (m_mem m1)" "length (m_fpu m1) = 512"
    using m stable_push [OF assms(5) m(3)] by (simp_all add: m1_def)
  obtain m2 where 2: "runs code m1 m2" "m_rip m2 = b" "m_rsp m2 = s - 8" "I (m_mem m2)" "changes E m1 m2"
    using mid f1 by (rule segmentD)
  define v where "v = load64 (m_mem m2) (s - 8)"
  define m3 where "m3 = with_flags resume_flag 0 (with_flags popf_mask v (set_reg 4 (m_rsp m2 + 8) (advance (length q) m2)))"
  have 3: "runs code m2 m3" using q 2(2) by (rule runs_at) (simp add: m3_def v_def 2(3))
  have "v = load64 (m_mem m1) (s - 8)"
    unfolding v_def using 2(5) assms(4) by (intro load64_untouched) (simp_all add: changes_def)
  then have v: "v = m_flags m AND pushf_mask" using m(2) by (simp add: m1_def)
  have fl: "bit (m_flags m3) i = bit (m_flags m) i" if "i \<notin> e_flags ?E" for i
  proof (cases "i < 64")
    case True
    have "\<not> bit resume_flag i" using that by (simp add: bit_resume_flag)
    moreover have "bit (m_flags m2) i = bit (m_flags m) i" if "\<not> bit popf_mask i"
      using 2(5) that \<open>i \<notin> e_flags ?E\<close> by (simp add: changes_def m1_def)
    ultimately show ?thesis using True popf_mask_pushed(1) [of i] by (auto simp: m3_def v bit_and_iff bit_or_iff bit_not_iff)
  next
    case False
    then show ?thesis by (auto dest: bit_imp_le_length)
  qed
  have c: "changes ?E m m3" using 2(5) m(2) fl by (auto simp: changes_def m3_def m1_def 2(3) pushed_elsewhere)
  have "m_rip m3 = b + of_nat (length q)" "m_rsp m3 = s" "I (m_mem m3)" using 2 by (simp_all add: m3_def)
  then show "\<exists>m'. runs code m m' \<and> m_rip m' = b + of_nat (length q) \<and> m_rsp m' = s \<and> I (m_mem m') \<and> changes ?E m m'"
    using c runs_trans [OF 1 runs_trans [OF 2(1) 3]] by blast
qed

text \<open>\<open>lahf\<close> keeps five flags in the second byte of \<open>rax\<close>, \<open>sahf\<close> puts them back if that byte survived.\<close>

lemma bit_ah_mask: "bit ah_mask i \<longleftrightarrow> i \<in> {0, 2, 4, 6, 7}"
proof -
  have "bit ah_mask i \<longleftrightarrow> i \<in> {i \<in> set [0..<64]. bit ah_mask i}" by (auto dest: bit_imp_le_length)
  also have "{i \<in> set [0..<64]. bit ah_mask i} = {0, 2, 4, 6, 7}"
    unfolding ah_mask_def by (simp add: upt_rec Collect_disj_eq bit_simps) auto
  finally show ?thesis .
qed

lemma sahf_lahf:
  assumes "bit ah_mask i"
  shows "bit (drop_bit 8 ((rax AND NOT 0xff00) OR push_bit 8 ((f AND ah_mask) OR 2))) i = bit (f :: u64) i"
  using assms by (auto simp: bit_ah_mask bit_simps)

text \<open>
  The flags saved in \<open>ah\<close> around a piece that leaves \<open>rax\<close> alone, with \<open>rax\<close> itself on the stack.
\<close>

lemma segment_lahf_sahf:
  assumes p: "insn_at code a p (Insn False False M_lahf [])"
    and mid: "segment code I (a + of_nat (length p)) b s E"
    and q: "insn_at code b q (Insn False False M_sahf [])"
    and "0 \<notin> e_regs E"
  shows "segment code I a (b + of_nat (length q)) s
    (E \<lparr> e_regs := insert 0 (e_regs E), e_flags := {i \<in> e_flags E. \<not> bit ah_mask i} \<rparr>)" (is "segment _ _ _ _ _ ?E")
proof (rule segmentI)
  fix m
  assume m: "m_rip m = a" "m_rsp m = s" "I (m_mem m)" "length (m_fpu m) = 512"
  define ax where "ax = (m_regs m 0 AND NOT 0xff00) OR push_bit 8 ((m_flags m AND ah_mask) OR 2)"
  define m1 where "m1 = set_reg 0 ax (advance (length p) m)"
  have 1: "runs code m m1" using p m(1) by (rule runs_at) (simp add: m1_def ax_def)
  have f1: "m_rip m1 = a + of_nat (length p)" "m_rsp m1 = s" "I (m_mem m1)" "length (m_fpu m1) = 512"
    using m by (simp_all add: m1_def)
  obtain m2 where 2: "runs code m1 m2" "m_rip m2 = b" "m_rsp m2 = s" "I (m_mem m2)" "changes E m1 m2"
    using mid f1 by (rule segmentD)
  define m3 where "m3 = with_flags ah_mask (drop_bit 8 (m_regs m2 0)) (advance (length q) m2)"
  have 3: "runs code m2 m3" using q 2(2) by (rule runs_at) (simp add: m3_def)
  have ax: "m_regs m2 0 = ax" using 2(5) assms(4) by (simp add: changes_def m1_def)
  have fl: "bit (m_flags m3) i = bit (m_flags m) i" if "i \<notin> e_flags ?E" for i
  proof (cases "bit ah_mask i")
    case True
    then have "i < 64" by (auto dest: bit_imp_le_length)
    then show ?thesis using True sahf_lahf [OF True, of "m_regs m 0" "m_flags m"]
      by (simp add: m3_def ax ax_def bit_and_iff bit_or_iff bit_not_iff)
  next
    case False
    then have "bit (m_flags m2) i = bit (m_flags m) i" using that 2(5) by (simp add: changes_def m1_def)
    then show ?thesis using False by (auto simp: m3_def bit_and_iff bit_or_iff bit_not_iff dest: bit_imp_le_length)
  qed
  have c: "changes ?E m m3" using 2(5) fl by (auto simp: changes_def m3_def m1_def)
  have "m_rip m3 = b + of_nat (length q)" "m_rsp m3 = s" "I (m_mem m3)" using 2 by (simp_all add: m3_def)
  then show "\<exists>m'. runs code m m' \<and> m_rip m' = b + of_nat (length q) \<and> m_rsp m' = s \<and> I (m_mem m') \<and> changes ?E m m'"
    using c runs_trans [OF 1 runs_trans [OF 2(1) 3]] by blast
qed

text \<open>Two moves of the stack pointer around a piece.\<close>

lemma segment_move_rsp:
  assumes p: "insn_at code a p (Insn False False M_lea [Gpr 64 4, Mem 0 64 None (Addr (Some 4) None d)])"
    and mid: "segment code I (a + of_nat (length p)) b (s + word_of_int d) E"
    and q: "insn_at code b q (Insn False False M_lea [Gpr 64 4, Mem 0 64 None (Addr (Some 4) None (- d))])"
  shows "segment code I a (b + of_nat (length q)) s E"
proof (rule segmentI)
  fix m
  assume m: "m_rip m = a" "m_rsp m = s" "I (m_mem m)" "length (m_fpu m) = 512"
  define m1 where "m1 = set_reg 4 (m_rsp m + word_of_int d) (advance (length p) m)"
  have 1: "runs code m m1" using p m(1) by (rule runs_at) (simp add: m1_def effective_def)
  have f1: "m_rip m1 = a + of_nat (length p)" "m_rsp m1 = s + word_of_int d" "I (m_mem m1)" "length (m_fpu m1) = 512"
    using m by (simp_all add: m1_def)
  obtain m2 where 2: "runs code m1 m2" "m_rip m2 = b" "m_rsp m2 = s + word_of_int d" "I (m_mem m2)" "changes E m1 m2"
    using mid f1 by (rule segmentD)
  define m3 where "m3 = set_reg 4 (m_rsp m2 + word_of_int (- d)) (advance (length q) m2)"
  have 3: "runs code m2 m3" using q 2(2) by (rule runs_at) (simp add: m3_def effective_def)
  have c: "changes E m m3" using 2(5) by (auto simp: changes_def m3_def m1_def)
  have "m_rip m3 = b + of_nat (length q)" "m_rsp m3 = s" "I (m_mem m3)" using 2 by (simp_all add: m3_def)
  then show "\<exists>m'. runs code m m' \<and> m_rip m' = b + of_nat (length q) \<and> m_rsp m' = s \<and> I (m_mem m') \<and> changes E m m'"
    using c runs_trans [OF 1 runs_trans [OF 2(1) 3]] by blast
qed

text \<open>A call of a routine, which returns behind the call.\<close>

lemma segment_call:
  assumes p: "insn_at code a p (Insn False False M_call [Rel d])"
    and r: "routine code I (a + of_nat (length p) + word_of_int d) (s - 8) E"
    and "stable I (slot s)"
  shows "segment code I a (a + of_nat (length p)) s (E \<lparr> e_mem := e_mem E \<union> slot s \<rparr>)"
proof (rule segmentI)
  fix m
  assume m: "m_rip m = a" "m_rsp m = s" "I (m_mem m)" "length (m_fpu m) = 512"
  define ra where "ra = a + of_nat (length p)"
  define m1 where "m1 = (push64 ra (advance (length p) m)) \<lparr> m_rip := ra + word_of_int d \<rparr>"
  have 1: "runs code m m1" using p m(1) by (rule runs_at) (simp add: m1_def ra_def m(1))
  have f1: "m_rip m1 = ra + word_of_int d" "m_rsp m1 = s - 8" "good_state I m1" "load64 (m_mem m1) (s - 8) = ra"
    using m stable_push [OF assms(3) m(3)] by (simp_all add: m1_def good_state_def)
  then obtain m2 where 2: "runs code m1 m2" "m_rip m2 = ra" "m_rsp m2 = s" "I (m_mem m2)" "changes E m1 m2"
    using r [folded ra_def] unfolding routine_def by fastforce
  have "changes (E \<lparr> e_mem := e_mem E \<union> slot s \<rparr>) m m2"
    using 2(5) m(2) by (auto simp: changes_def m1_def pushed_elsewhere)
  then show "\<exists>m'. runs code m m' \<and> m_rip m' = a + of_nat (length p) \<and> m_rsp m' = s \<and> I (m_mem m') \<and>
      changes (E \<lparr> e_mem := e_mem E \<union> slot s \<rparr>) m m'"
    using 2 runs_trans [OF 1 2(1)] by (auto simp: ra_def)
qed

section \<open>The stack below a pointer\<close>

definition below :: "u64 \<Rightarrow> nat \<Rightarrow> u64 set" where
  "below s k = area (s - of_nat k) k"

lemma below_iff:
  assumes "k \<le> 18446744073709551616"
  shows "x \<in> below s k \<longleftrightarrow> (\<exists>i < k. x = s - of_nat (i + 1))"
proof -
  have e: "s - of_nat k + of_nat i = s - of_nat (k - 1 - i + 1)" if "i < k" for i
  proof -
    have "k - 1 - i + 1 = k - i" using that by simp
    then show ?thesis using that by (simp only: of_nat_diff less_imp_le) simp
  qed
  show ?thesis unfolding below_def area_iff [OF assms]
  proof
    assume "\<exists>i<k. x = s - of_nat k + of_nat i"
    then obtain i where "i < k" "x = s - of_nat k + of_nat i" by blast
    then show "\<exists>i<k. x = s - of_nat (i + 1)" by (intro exI [of _ "k - 1 - i"]) (simp only: e, simp)
  next
    assume "\<exists>i<k. x = s - of_nat (i + 1)"
    then obtain i where i: "i < k" "x = s - of_nat (i + 1)" by blast
    then have "k - 1 - (k - 1 - i) + 1 = i + 1" by simp
    with i show "\<exists>i<k. x = s - of_nat k + of_nat i"
      by (intro exI [of _ "k - 1 - i"]) (simp only: e [of "k - 1 - i"], simp)
  qed
qed

lemma below_8: "below s 8 = slot s"
  by (simp add: below_def slot_def)

lemma below_add:
  assumes "j + k \<le> 18446744073709551616"
  shows "below s (j + k) = below s j \<union> below (s - of_nat j) k"
proof -
  have b: "j \<le> 18446744073709551616" "k \<le> 18446744073709551616" using assms by simp_all
  show ?thesis
  proof (intro set_eqI iffI)
    fix x
    assume "x \<in> below s (j + k)"
    then obtain i where i: "i < j + k" "x = s - of_nat (i + 1)" unfolding below_iff [OF assms] by blast
    show "x \<in> below s j \<union> below (s - of_nat j) k"
    proof (cases "i < j")
      case True
      then show ?thesis using i(2) by (auto simp: below_iff [OF b(1)])
    next
      case False
      then have "x = s - of_nat j - of_nat (i - j + 1)" "i - j < k" using i by (simp_all add: of_nat_diff)
      then have "x \<in> below (s - of_nat j) k" unfolding below_iff [OF b(2)] by blast
      then show ?thesis by blast
    qed
  next
    fix x
    assume "x \<in> below s j \<union> below (s - of_nat j) k"
    then show "x \<in> below s (j + k)"
    proof
      assume "x \<in> below s j"
      then obtain i where "i < j" "x = s - of_nat (i + 1)" unfolding below_iff [OF b(1)] by blast
      then have "i < j + k" "x = s - of_nat (i + 1)" by simp_all
      then show ?thesis unfolding below_iff [OF assms] by blast
    next
      assume "x \<in> below (s - of_nat j) k"
      then obtain i where "i < k" "x = s - of_nat j - of_nat (i + 1)" unfolding below_iff [OF b(2)] by blast
      then have "j + i < j + k" "x = s - of_nat (j + i + 1)" by (simp_all add: algebra_simps)
      then show ?thesis unfolding below_iff [OF assms] by blast
    qed
  qed
qed

lemma below_disjoint:
  assumes "j + k \<le> 18446744073709551615"
  shows "below s j \<inter> below (s - of_nat j) k = {}"
proof -
  have b: "j \<le> 18446744073709551616" "k \<le> 18446744073709551616" using assms by simp_all
  have False if "i < j" "l < k" "s - of_nat (i + 1) = s - of_nat j - of_nat (l + 1)" for i l
  proof -
    have "of_nat (i + 1) = (of_nat (j + l + 1) :: u64)" using that(3) by (simp add: algebra_simps)
    then have "unat (of_nat (i + 1) :: u64) = unat (of_nat (j + l + 1) :: u64)" by (rule arg_cong)
    then show False using that(1,2) assms by (simp add: unat_of_nat_u64 del: of_nat_add of_nat_Suc)
  qed
  then show ?thesis unfolding disjoint_iff by (auto simp only: below_iff [OF b(1)] below_iff [OF b(2)])
qed

lemma below_mono: "j \<le> k \<Longrightarrow> k \<le> 18446744073709551616 \<Longrightarrow> below s j \<subseteq> below s k"
  using below_add [of j "k - j" s] by auto

lemma below_sub: "j + k \<le> n \<Longrightarrow> n \<le> 18446744073709551616 \<Longrightarrow> below (s - of_nat j) k \<subseteq> below s n"
  using below_add [of j k s] below_mono [of "j + k" n s] by auto

lemma below_0 [simp]: "below s 0 = {}"
  by (simp add: below_def area_def)

section \<open>Saving several registers\<close>

definition push_insn :: "nat \<Rightarrow> insn" where "push_insn r = Insn False False M_push [Gpr 64 r]"
definition pop_insn :: "nat \<Rightarrow> insn" where "pop_insn r = Insn False False M_pop [Gpr 64 r]"
definition lea_rsp :: "int \<Rightarrow> insn" where
  "lea_rsp d = Insn False False M_lea [Gpr 64 4, Mem 0 64 None (Addr (Some 4) None d)]"

text \<open>Byte strings that are these instructions, one after the other.\<close>

definition are_insns :: "byte list list \<Rightarrow> insn list \<Rightarrow> bool" where
  "are_insns bss is \<longleftrightarrow> list_all2 (\<lambda>bs i. encodes True bs i \<and> length bs \<le> 15) bss is"

lemma are_insns_Nil [simp]: "are_insns bss [] \<longleftrightarrow> bss = []"
  by (simp add: are_insns_def)

lemma are_insns_Cons: "are_insns bss (i # is) \<longleftrightarrow>
    (\<exists>b cs. bss = b # cs \<and> encodes True b i \<and> length b \<le> 15 \<and> are_insns cs is)"
  by (auto simp: are_insns_def list_all2_Cons2)

lemma are_insns_append: "are_insns bss (is @ js) \<longleftrightarrow> (\<exists>b c. bss = b @ c \<and> are_insns b is \<and> are_insns c js)"
  by (auto simp: are_insns_def list_all2_append2 list_all2_lengthD dest: list_all2_lengthD)

abbreviation nbytes :: "byte list list \<Rightarrow> u64" where "nbytes bss \<equiv> of_nat (length (concat bss))"

lemma segment_save_regs:
  assumes "are_insns P (map push_insn rs)" and "are_insns Q (map pop_insn (rev rs))"
    and "code_at code a (concat P)" and "code_at code b (concat Q)"
    and "segment code I (a + nbytes P) b (s - of_nat (8 * length rs)) E"
    and "below s (8 * length rs) \<inter> e_mem E = {}" and "stable I (below s (8 * length rs))" and "length rs \<le> 1000"
  shows "segment code I a (b + nbytes Q) s
    (E \<lparr> e_mem := e_mem E \<union> below s (8 * length rs), e_regs := e_regs E - set rs \<rparr>)"
  using assms
proof (induction rs arbitrary: P Q a s)
  case Nil
  then show ?case by simp
next
  case (Cons r rs)
  obtain p P' where P: "P = p # P'" "encodes True p (push_insn r)" "length p \<le> 15" "are_insns P' (map push_insn rs)"
    using Cons.prems(1) by (auto simp: are_insns_Cons)
  obtain Q' q where Q: "Q = Q' @ [q]" "are_insns Q' (map pop_insn (rev rs))" "encodes True q (pop_insn r)" "length q \<le> 15"
    using Cons.prems(2) by (auto simp: are_insns_append are_insns_Cons)
  have bl: "below s (8 * length (r # rs)) = slot s \<union> below (s - 8) (8 * length rs)"
    using below_add [of 8 "8 * length rs" s] Cons.prems(8) by (simp add: below_8)
  have s8: "s - of_nat (8 * length (r # rs)) = s - 8 - of_nat (8 * length rs)" by simp
  have c: "code_at code a p" "code_at code (a + of_nat (length p)) (concat P')"
    "code_at code b (concat Q')" "code_at code (b + nbytes Q') q"
    using Cons.prems(3,4) by (simp_all add: P(1) Q(1) code_at_append)
  have "segment code I (a + of_nat (length p)) (b + nbytes Q') (s - 8)
      (E \<lparr> e_mem := e_mem E \<union> below (s - 8) (8 * length rs), e_regs := e_regs E - set rs \<rparr>)" (is "segment _ _ _ _ _ ?E1")
  proof (rule Cons.IH [OF P(4) Q(2) c(2,3)])
    show "segment code I (a + of_nat (length p) + nbytes P') b (s - 8 - of_nat (8 * length rs)) E"
      using Cons.prems(5) unfolding s8 by (simp add: P(1) add.assoc)
    show "below (s - 8) (8 * length rs) \<inter> e_mem E = {}" using Cons.prems(6) bl by auto
    show "stable I (below (s - 8) (8 * length rs))" using Cons.prems(7) bl by (auto intro: stable_mono)
    show "length rs \<le> 1000" using Cons.prems(8) by simp
  qed
  moreover have "slot s \<inter> below (s - 8) (8 * length rs) = {}"
    using below_disjoint [of 8 "8 * length rs" s] Cons.prems(8) by (simp add: below_8)
  then have "slot s \<inter> e_mem ?E1 = {}" using Cons.prems(6) bl by auto
  moreover have "stable I (slot s)" using Cons.prems(7) bl by (auto intro: stable_mono)
  moreover have "insn_at code a p (push_insn r)" "insn_at code (b + nbytes Q') q (pop_insn r)"
    using c P(2,3) Q(3,4) by (simp_all add: insn_at_def)
  ultimately have "segment code I a (b + nbytes Q' + of_nat (length q)) s
      (?E1 \<lparr> e_mem := e_mem ?E1 \<union> slot s, e_regs := e_regs ?E1 - {r} \<rparr>)"
    unfolding push_insn_def pop_insn_def by (intro segment_push_pop)
  then have "segment code I a (b + nbytes Q) s (?E1 \<lparr> e_mem := e_mem ?E1 \<union> slot s, e_regs := e_regs ?E1 - {r} \<rparr>)"
    by (simp add: Q(1) add.assoc)
  then show ?case by (rule segment_mono) (use bl in auto)
qed

section \<open>Straight-line code\<close>

fun exec_all :: "(insn \<times> nat) list \<Rightarrow> machine \<Rightarrow> machine option" where
  "exec_all [] m = Some m"
| "exec_all ((i, n) # is) m = (case exec i (advance n m) of None \<Rightarrow> None
     | Some m1 \<Rightarrow> if m_rip m1 = m_rip m + of_nat n then exec_all is m1 else None)"

lemma runs_all:
  assumes "list_all2 (\<lambda>bs (i, n). encodes True bs i \<and> length bs = n \<and> n \<le> 15) bss is"
    and "code_at code (m_rip m) (concat bss)" and "exec_all is m = Some m'"
  shows "runs code m m' \<and> m_rip m' = m_rip m + nbytes bss"
  using assms
proof (induction bss "is" arbitrary: m rule: list_all2_induct)
  case Nil
  then show ?case by (simp add: runs_refl)
next
  case (Cons bs bss x xs)
  obtain i n where x: "x = (i, n)" by (cases x)
  obtain m1 where m1: "exec i (advance n m) = Some m1" "m_rip m1 = m_rip m + of_nat n" "exec_all xs m1 = Some m'"
    using Cons.prems(2) by (auto simp: x split: option.splits if_splits)
  have c: "code_at code (m_rip m) bs" "code_at code (m_rip m1) (concat bss)"
    using Cons.prems(1) Cons.hyps(1) m1(2) by (auto simp: x code_at_append)
  have "runs code m m1" using c(1) Cons.hyps(1) m1(1) by (auto simp: x intro: runs_insn)
  then show ?case using Cons.IH [OF c(2) m1(3)] runs_trans m1(2) Cons.hyps(1) by (fastforce simp: x algebra_simps)
qed

lemma bit_logic_mask: "bit logic_mask i \<longleftrightarrow> i \<in> {0, 2, 4, 6, 7, 11}"
proof -
  have "bit logic_mask i \<longleftrightarrow> i \<in> {i \<in> set [0..<64]. bit logic_mask i}" by (auto dest: bit_imp_le_length)
  also have "{i \<in> set [0..<64]. bit logic_mask i} = {0, 2, 4, 6, 7, 11}"
    unfolding logic_mask_def by (simp add: upt_rec Collect_disj_eq bit_simps) auto
  finally show ?thesis .
qed

section \<open>The full protection\<close>

text \<open>
  How code that must not disturb its surroundings is opened and closed: the red zone below
  the stack pointer is skipped, registers are pushed, and then the flags are saved, with
  \<open>pushf\<close> or in the second byte of \<open>rax\<close>.
\<close>

datatype flag_saving = Flags_kept | Flags_in_ah | Flags_pushed

definition open_insns :: "bool \<Rightarrow> nat list \<Rightarrow> flag_saving \<Rightarrow> insn list" where
  "open_insns skip rs fs = (if skip then [lea_rsp (- 128)] else []) @ map push_insn rs @
     (case fs of Flags_kept \<Rightarrow> [] | Flags_in_ah \<Rightarrow> [push_insn 0, Insn False False M_lahf []]
      | Flags_pushed \<Rightarrow> [Insn False False M_pushf []])"

definition close_insns :: "bool \<Rightarrow> nat list \<Rightarrow> flag_saving \<Rightarrow> insn list" where
  "close_insns skip rs fs =
     (case fs of Flags_kept \<Rightarrow> [] | Flags_in_ah \<Rightarrow> [Insn False False M_sahf [], pop_insn 0]
      | Flags_pushed \<Rightarrow> [Insn False False M_popf []]) @ map pop_insn (rev rs) @ (if skip then [lea_rsp 128] else [])"

definition saved_bytes :: "nat list \<Rightarrow> flag_saving \<Rightarrow> nat" where
  "saved_bytes rs fs = 8 * length rs + (if fs = Flags_kept then 0 else 8)"

definition skipped :: "bool \<Rightarrow> nat" where
  "skipped skip = (if skip then 128 else 0)"

text \<open>What the protected piece may still change.\<close>

definition saved_flags :: "flag_saving \<Rightarrow> nat set \<Rightarrow> nat set" where
  "saved_flags fs F = (case fs of Flags_kept \<Rightarrow> F | Flags_in_ah \<Rightarrow> {i \<in> F. \<not> bit ah_mask i}
     | Flags_pushed \<Rightarrow> insert 16 {i \<in> F. \<not> bit popf_mask i})"

lemma segment_save_flags:
  assumes "are_insns P (case fs of Flags_kept \<Rightarrow> [] | Flags_in_ah \<Rightarrow> [push_insn 0, Insn False False M_lahf []]
      | Flags_pushed \<Rightarrow> [Insn False False M_pushf []])"
    and "are_insns Q (case fs of Flags_kept \<Rightarrow> [] | Flags_in_ah \<Rightarrow> [Insn False False M_sahf [], pop_insn 0]
      | Flags_pushed \<Rightarrow> [Insn False False M_popf []])"
    and "code_at code a (concat P)" and "code_at code b (concat Q)"
    and mid: "segment code I (a + nbytes P) b (s - (if fs = Flags_kept then 0 else 8)) E"
    and "slot s \<inter> e_mem E = {}" and "stable I (slot s)" and "fs = Flags_in_ah \<Longrightarrow> 0 \<notin> e_regs E"
  shows "segment code I a (b + nbytes Q) s
    (E \<lparr> e_mem := e_mem E \<union> (if fs = Flags_kept then {} else slot s), e_flags := saved_flags fs (e_flags E) \<rparr>)"
proof (cases fs)
  case Flags_kept
  then show ?thesis using assms(1-5) by (simp add: saved_flags_def)
next
  case Flags_pushed
  then obtain p q where p: "P = [p]" "insn_at code a p (Insn False False M_pushf [])"
    and q: "Q = [q]" "insn_at code b q (Insn False False M_popf [])"
    using assms(1-4) by (auto simp: are_insns_Cons insn_at_def)
  show ?thesis using segment_pushf_popf [OF p(2) _ q(2) assms(6,7)] mid
    by (simp add: p(1) q(1) Flags_pushed saved_flags_def)
next
  case Flags_in_ah
  then obtain p1 p2 where p: "P = [p1, p2]" "insn_at code a p1 (push_insn 0)"
      "insn_at code (a + of_nat (length p1)) p2 (Insn False False M_lahf [])"
    using assms(1,3) by (auto simp: are_insns_Cons insn_at_def code_at_append)
  obtain q1 q2 where q: "Q = [q1, q2]" "insn_at code b q1 (Insn False False M_sahf [])"
      "insn_at code (b + of_nat (length q1)) q2 (pop_insn 0)"
    using assms(2,4) Flags_in_ah by (auto simp: are_insns_Cons insn_at_def code_at_append)
  have m: "segment code I (a + of_nat (length p1) + of_nat (length p2)) b (s - 8) E"
    using mid by (simp add: p(1) Flags_in_ah add.assoc)
  note l = segment_lahf_sahf [OF p(3) m q(2) assms(8) [OF Flags_in_ah]]
  have "segment code I a (b + of_nat (length q1) + of_nat (length q2)) s
     (E \<lparr> e_regs := insert 0 (e_regs E), e_flags := {i \<in> e_flags E. \<not> bit ah_mask i},
        e_mem := e_mem E \<union> slot s, e_regs := insert 0 (e_regs E) - {0} \<rparr>)"
    using segment_push_pop [OF p(2) [unfolded push_insn_def] l q(3) [unfolded pop_insn_def]] assms(6,7) by simp
  moreover have "b + of_nat (length q1) + of_nat (length q2) = b + nbytes Q" by (simp add: q(1))
  ultimately have "segment code I a (b + nbytes Q) s
     (E \<lparr> e_regs := insert 0 (e_regs E), e_flags := {i \<in> e_flags E. \<not> bit ah_mask i},
        e_mem := e_mem E \<union> slot s, e_regs := insert 0 (e_regs E) - {0} \<rparr>)" by (simp only:)
  then show ?thesis by (rule segment_mono) (auto simp: Flags_in_ah saved_flags_def)
qed

lemma segment_skip:
  assumes "are_insns P (if skip then [lea_rsp (- 128)] else [])" and "are_insns Q (if skip then [lea_rsp 128] else [])"
    and "code_at code a (concat P)" and "code_at code b (concat Q)"
    and "segment code I (a + nbytes P) b (s - of_nat (skipped skip)) E"
  shows "segment code I a (b + nbytes Q) s E"
proof (cases skip)
  case False
  then show ?thesis using assms by (simp add: skipped_def)
next
  case True
  then obtain p q where p: "P = [p]" "insn_at code a p (lea_rsp (- 128))" and q: "Q = [q]" "insn_at code b q (lea_rsp 128)"
    using assms(1-4) by (auto simp: are_insns_Cons insn_at_def)
  show ?thesis
    using segment_move_rsp [OF p(2) [unfolded lea_rsp_def], of I b s E q] q(2) assms(5)
    by (simp add: p(1) q(1) lea_rsp_def skipped_def True)
qed

text \<open>Everything together: a piece between an opening and its closing.\<close>

lemma segment_protected:
  assumes A: "are_insns A (open_insns skip rs fs)" "code_at code a (concat A)"
    and C: "are_insns C (close_insns skip rs fs)" "code_at code b (concat C)"
    and mid: "segment code I (a + nbytes A) b (s - of_nat (skipped skip + saved_bytes rs fs)) E"
    and free: "below (s - of_nat (skipped skip)) (saved_bytes rs fs) \<inter> e_mem E = {}"
    and st: "stable I (below (s - of_nat (skipped skip)) (saved_bytes rs fs))"
    and ax: "fs = Flags_in_ah \<Longrightarrow> 0 \<notin> e_regs E" and n: "length rs \<le> 999"
  shows "segment code I a (b + nbytes C) s
    (E \<lparr> e_mem := e_mem E \<union> below (s - of_nat (skipped skip)) (saved_bytes rs fs),
       e_regs := e_regs E - set rs, e_flags := saved_flags fs (e_flags E) \<rparr>)"
proof -
  define s1 where "s1 = s - of_nat (skipped skip)"
  define s2 where "s2 = s1 - of_nat (8 * length rs)"
  obtain P1 P2 P3 where P: "A = P1 @ P2 @ P3" "are_insns P1 (if skip then [lea_rsp (- 128)] else [])"
      "are_insns P2 (map push_insn rs)" "are_insns P3 (case fs of Flags_kept \<Rightarrow> []
        | Flags_in_ah \<Rightarrow> [push_insn 0, Insn False False M_lahf []] | Flags_pushed \<Rightarrow> [Insn False False M_pushf []])"
    using A(1) unfolding open_insns_def are_insns_append by blast
  obtain Q1 Q2 Q3 where Q: "C = Q3 @ Q2 @ Q1" "are_insns Q1 (if skip then [lea_rsp 128] else [])"
      "are_insns Q2 (map pop_insn (rev rs))" "are_insns Q3 (case fs of Flags_kept \<Rightarrow> []
        | Flags_in_ah \<Rightarrow> [Insn False False M_sahf [], pop_insn 0] | Flags_pushed \<Rightarrow> [Insn False False M_popf []])"
    using C(1) unfolding close_insns_def are_insns_append by blast
  have cp: "code_at code a (concat P1)" "code_at code (a + nbytes P1) (concat P2)"
      "code_at code (a + nbytes P1 + nbytes P2) (concat P3)"
    using A(2) by (simp_all add: P(1) code_at_append add.assoc)
  have cq: "code_at code b (concat Q3)" "code_at code (b + nbytes Q3) (concat Q2)"
      "code_at code (b + nbytes Q3 + nbytes Q2) (concat Q1)"
    using C(2) by (simp_all add: Q(1) code_at_append add.assoc)
  have sb: "below s1 (saved_bytes rs fs) = below s1 (8 * length rs) \<union> (if fs = Flags_kept then {} else slot s2)"
    using below_add [of "8 * length rs" 8 s1] n by (simp add: saved_bytes_def s2_def below_8)
  have dj: "below s1 (8 * length rs) \<inter> slot s2 = {}"
    using below_disjoint [of "8 * length rs" 8 s1] n by (simp add: s2_def below_8)
  have fl: "segment code I (a + nbytes P1 + nbytes P2) (b + nbytes Q3) s2
      (E \<lparr> e_mem := e_mem E \<union> (if fs = Flags_kept then {} else slot s2), e_flags := saved_flags fs (e_flags E) \<rparr>)"
  proof (cases "fs = Flags_kept")
    case True
    then have "P3 = []" "Q3 = []" using P(4) Q(4) by simp_all
    then show ?thesis using mid True by (simp add: P(1) saved_flags_def saved_bytes_def s2_def s1_def algebra_simps)
  next
    case False
    show ?thesis
    proof (rule segment_save_flags [OF P(4) Q(4) cp(3) cq(1)])
      show "segment code I (a + nbytes P1 + nbytes P2 + nbytes P3) b (s2 - (if fs = Flags_kept then 0 else 8)) E"
        using mid False by (simp add: P(1) saved_bytes_def s2_def s1_def algebra_simps)
      show "slot s2 \<inter> e_mem E = {}" "stable I (slot s2)"
        using free st sb False by (auto simp: s1_def [symmetric] intro: stable_mono)
    qed (rule ax)
  qed
  define E1 where "E1 = E \<lparr> e_mem := e_mem E \<union> (if fs = Flags_kept then {} else slot s2), e_flags := saved_flags fs (e_flags E) \<rparr>"
  have fl: "segment code I (a + nbytes P1 + nbytes P2) (b + nbytes Q3) (s1 - of_nat (8 * length rs)) E1"
    using fl by (simp only: E1_def s2_def)
  have "below s1 (8 * length rs) \<inter> e_mem E1 = {}"
    using free sb dj by (auto simp: E1_def s1_def [symmetric])
  moreover have "stable I (below s1 (8 * length rs))" using st sb by (auto simp: s1_def [symmetric] intro: stable_mono)
  ultimately have rg: "segment code I (a + nbytes P1) (b + nbytes Q3 + nbytes Q2) s1
      (E1 \<lparr> e_mem := e_mem E1 \<union> below s1 (8 * length rs), e_regs := e_regs E1 - set rs \<rparr>)" (is "segment _ _ _ _ _ ?E2")
    using segment_save_regs [OF P(3) Q(3) cp(2) cq(2) fl] n by simp
  have "segment code I a (b + nbytes Q3 + nbytes Q2 + nbytes Q1) s ?E2"
    using segment_skip [OF P(2) Q(2) cp(1) cq(3)] rg by (simp add: s1_def)
  moreover have "b + nbytes Q3 + nbytes Q2 + nbytes Q1 = b + nbytes C" by (simp add: Q(1))
  ultimately have "segment code I a (b + nbytes C) s ?E2" by (simp only:)
  then show ?thesis by (rule segment_mono) (use sb in \<open>auto simp: E1_def s1_def [symmetric]\<close>)
qed

end
