(* ===== verification/Emit_List.thy ===== *)
theory Emit_List
  imports X86_Segment X86_Correct64 X86_Correct32
begin

text \<open>
  Lists of emitted instructions: which instruction an emitted value is, and lists built by appending one
  emitted value after the other. The interface \<open>appending\<close> is what such a list promises; the trampoline
  and the wrapper of a function keep their lists in different ways.
\<close>

section \<open>Emitted instructions\<close>

definition is_insn :: "X86Instruction \<Rightarrow> insn \<Rightarrow> bool" where
  "is_insn x i \<longleftrightarrow> encodes True (xi_rawBytes x) i \<and> length (xi_rawBytes x) \<le> 15 \<and> xi_sizeInBytes x = length (xi_rawBytes x)"

lemma emitInstructionBase_size: "emitInstructionBase ud n b = Inr x \<Longrightarrow> xi_sizeInBytes x = n"
  by (auto simp: emitInstructionBase_def rbind_eq_Inr)

lemma emitted_is_insn:
  assumes "emits True f i" and "f ud = Inr x" and "xi_sizeInBytes x \<le> 15"
  shows "is_insn x i"
proof -
  obtain bs where b: "encodes True bs i" "f ud = (if ud_length (ud bs) = 0 then Inl PrintError
      else if ud_length (ud bs) = length bs then rbind (accept (ud bs)) (\<lambda>_. Inr (emitted bs)) else Inl AssertFailed)"
    using assms(1) unfolding emits_def hands_over_def by blast
  then have "x = emitted bs" using assms(2) unfolding b(2) by (auto simp: rbind_eq_Inr split: if_splits)
  then show ?thesis using b(1) assms(3) by (simp add: is_insn_def emitted_def)
qed

lemma lea_rsp_is_insn:
  assumes "emitLoadRegImmReg_64 ud 4 imm 4 = Inr x"
  shows "is_insn x (lea_rsp (sint (ucast imm :: u32)))"
  using emitted_is_insn [OF emitLoadRegImmReg_64_emits [of 4 4 imm] assms] assms
  by (auto simp: lea_rsp_def emitLoadRegImmReg_64_def Let_def x86_consts split: if_splits dest!: emitInstructionBase_size)

lemma push_is_insn:
  assumes "emitStackPush_64 ud r = Inr x" and "r < 16"
  shows "is_insn x (push_insn r)"
  using emitted_is_insn [OF emitStackPush_64_emits [OF assms(2)] assms(1)] assms
  by (auto simp: push_insn_def emitStackPush_64_def emitStackPush_32_def Let_def x86_consts split: if_splits dest!: emitInstructionBase_size)

lemma pop_is_insn:
  assumes "emitStackPop_64 ud r = Inr x" and "r < 16"
  shows "is_insn x (pop_insn r)"
  using emitted_is_insn [OF emitStackPop_64_emits [OF assms(2)] assms(1)] assms
  by (auto simp: pop_insn_def emitStackPop_64_def emitStackPop_32_def Let_def x86_consts split: if_splits dest!: emitInstructionBase_size)

lemma flags_is_insn:
  "emitPushEflags ud = Inr x \<Longrightarrow> is_insn x (Insn False False M_pushf [])"
  "emitPopEflags ud = Inr x \<Longrightarrow> is_insn x (Insn False False M_popf [])"
  "emitLoadAHFromFlags ud = Inr x \<Longrightarrow> is_insn x (Insn False False M_lahf [])"
  "emitStoreAHToFlags ud = Inr x \<Longrightarrow> is_insn x (Insn False False M_sahf [])"
  using emitted_is_insn [OF emitPushEflags_emits, of ud x] emitted_is_insn [OF emitPopEflags_emits, of ud x]
    emitted_is_insn [OF emitLoadAHFromFlags_emits, of ud x] emitted_is_insn [OF emitStoreAHToFlags_emits, of ud x]
  by (auto simp: emitPushEflags_def emitPopEflags_def emitLoadAHFromFlags_def emitStoreAHToFlags_def Let_def
      dest: emitInstructionBase_size)


section \<open>Lists\<close>

definition size_of :: "X86Instruction list \<Rightarrow> u32" where
  "size_of xs = of_nat (sum_list (map xi_sizeInBytes xs))"

definition are_insn :: "X86Instruction list \<Rightarrow> insn list \<Rightarrow> bool" where
  "are_insn xs is \<longleftrightarrow> list_all2 is_insn xs is"

lemma are_insn_simps [simp]:
  "are_insn [] []" "are_insn [x] [i] \<longleftrightarrow> is_insn x i" "are_insn (x # xs) (i # is) \<longleftrightarrow> is_insn x i \<and> are_insn xs is"
  by (simp_all add: are_insn_def)

lemma are_insn_append: "are_insn xs is \<Longrightarrow> are_insn ys js \<Longrightarrow> are_insn (xs @ ys) (is @ js)"
  by (simp add: are_insn_def list_all2_appendI)

locale appending =
  fixes ext :: "'t \<Rightarrow> 't \<Rightarrow> X86Instruction list \<Rightarrow> bool" and app :: "X86Instruction res \<Rightarrow> 't \<Rightarrow> 't res"
  assumes ext_refl: "ext t t []"
    and ext_trans: "ext a b xs \<Longrightarrow> ext b c ys \<Longrightarrow> ext a c (xs @ ys)"
    and app_ext: "app r t = Inr t' \<Longrightarrow> \<exists>x. r = Inr x \<and> ext t t' [x]"
begin

text \<open>Conditional and repeated appending of expected instructions.\<close>

definition emits_into :: "'t \<Rightarrow> 't res \<Rightarrow> insn list \<Rightarrow> bool" where
  "emits_into tr r is \<longleftrightarrow> (\<forall>tr'. r = Inr tr' \<longrightarrow> (\<exists>xs. ext tr tr' xs \<and> are_insn xs is))"

lemma emits_into_one: "(\<And>x. r = Inr x \<Longrightarrow> is_insn x i) \<Longrightarrow> emits_into tr (app r tr) [i]"
  using app_ext unfolding emits_into_def by fastforce

lemma emits_into_none: "emits_into tr (Inr tr) []"
  using ext_refl [of tr] by (auto simp: emits_into_def intro!: exI [of _ "[]"])

lemma emits_into_bind:
  assumes "emits_into tr r is" and "\<And>tr'. r = Inr tr' \<Longrightarrow> emits_into tr' (k tr') js"
  shows "emits_into tr (rbind r k) (is @ js)"
  unfolding emits_into_def
proof (intro allI impI)
  fix t
  assume "rbind r k = Inr t"
  then obtain u where u: "r = Inr u" "k u = Inr t" by (auto simp: rbind_eq_Inr)
  obtain xs where x: "ext tr u xs" "are_insn xs is" using assms(1) u(1) by (auto simp: emits_into_def)
  obtain ys where y: "ext u t ys" "are_insn ys js" using assms(2) [OF u(1)] u(2) by (auto simp: emits_into_def)
  show "\<exists>xs. ext tr t xs \<and> are_insn xs (is @ js)"
    using ext_trans [OF x(1) y(1)] are_insn_append [OF x(2) y(2)] by blast
qed

lemma emits_into_two:
  "(\<And>x. r = Inr x \<Longrightarrow> is_insn x i) \<Longrightarrow> (\<And>x. q = Inr x \<Longrightarrow> is_insn x j) \<Longrightarrow>
    emits_into tr (rbind (app r tr) (app q)) [i, j]"
  using emits_into_bind [OF emits_into_one [of r i tr] emits_into_one [of q j]] by simp

lemma emits_into_fold:
  assumes "\<And>j tr. j \<in> set js \<Longrightarrow> P j \<Longrightarrow> emits_into tr (f j tr) [g j]" and "\<And>j tr. j \<in> set js \<Longrightarrow> \<not> P j \<Longrightarrow> f j tr = Inr tr"
  shows "emits_into tr (rfold f js tr) (map g (filter P js))"
  using assms
proof (induction js arbitrary: tr)
  case Nil
  then show ?case by (simp add: emits_into_none)
next
  case (Cons j js)
  then have r: "emits_into t (rfold f js t) (map g (filter P js))" for t by simp
  show ?case
  proof (cases "P j")
    case True
    then show ?thesis using emits_into_bind [OF Cons.prems(1) [of j tr] r] by simp
  next
    case False
    then show ?thesis using Cons.prems(2) [of j] r by simp
  qed
qed

lemma emits_intoD:
  assumes "emits_into tr (Inr tr') is"
  obtains xs where "ext tr tr' xs" and "are_insn xs is"
  using assms by (auto simp: emits_into_def)

end

end
