(* ===== verification/Trampoline_Correct.thy ===== *)
theory Trampoline_Correct
  imports Trampoline Emit_List
begin

text \<open>
  What trampolines do when they run: the instructions the parts of \<open>generateTrampoline\<close> append, the
  contract of the whole list of bytes on the machine of \<open>X86_Machine\<close>, the way back to the
  program, and what becomes of flags kept in \<open>ah\<close>.
\<close>

section \<open>What the parts append\<close>

definition tramp_extends :: "tramp \<Rightarrow> tramp \<Rightarrow> X86Instruction list \<Rightarrow> bool" where
  "tramp_extends tr tr' xs \<longleftrightarrow> fst tr' = fst tr @ xs \<and> snd tr' = snd tr + size_of xs"

lemma tramp_extends_refl: "tramp_extends tr tr []"
  by (simp add: tramp_extends_def size_of_def)

lemma tramp_extends_trans: "tramp_extends a b xs \<Longrightarrow> tramp_extends b c ys \<Longrightarrow> tramp_extends a c (xs @ ys)"
  by (simp add: tramp_extends_def size_of_def)

lemma tappend_extends: "tappend r tr = Inr tr' \<Longrightarrow> \<exists>x. r = Inr x \<and> tramp_extends tr tr' [x]"
  by (cases tr) (auto simp: tappend_def tramp_extends_def size_of_def rbind_eq_Inr)

interpretation tr: appending tramp_extends tappend
  by unfold_locales (auto intro: tramp_extends_refl tramp_extends_trans dest: tappend_extends)

definition saved_regs :: "BitSet \<Rightarrow> nat list" where
  "saved_regs b = filter (bs_contains b) [0..<X86_64BIT_GPRS]"

definition flag_saving_of :: "FlagsProtectionMethods \<Rightarrow> flag_saving" where
  "flag_saving_of m = (if m = FlagsProtectionMethod_full then Flags_pushed
     else if m = FlagsProtectionMethod_light then Flags_in_ah else Flags_kept)"

lemma tramp_open_insns: "tr.emits_into tr (tramp_open ud ps regs m tr) (open_insns ps (saved_regs regs) (flag_saving_of m))"
proof -
  have v: "sint (ucast (- 1 * Size__trampoline_autoinc) :: u32) = - 128" by (simp add: Size__trampoline_autoinc_def)
  have 1: "tr.emits_into tr (if ps then tappend (emitLoadRegImmReg_64 ud X86_REG_SP (- 1 * Size__trampoline_autoinc) X86_REG_SP) tr
      else Inr tr) (if ps then [lea_rsp (- 128)] else [])"
    using tr.emits_into_one [of "emitLoadRegImmReg_64 ud 4 (- 1 * Size__trampoline_autoinc) 4" "lea_rsp (- 128)" tr]
      lea_rsp_is_insn [of ud "- 1 * Size__trampoline_autoinc"] tr.emits_into_none [of tr]
    by (simp only: v X86_REG_SP_def split: if_splits) blast
  have 2: "tr.emits_into t (rfold (\<lambda>i tr. if bs_contains regs i then tappend (emitStackPush_64 ud i) tr else Inr tr)
      [0..<X86_64BIT_GPRS] t) (map push_insn (saved_regs regs))" for t
    unfolding saved_regs_def by (rule tr.emits_into_fold) (auto intro!: tr.emits_into_one push_is_insn simp: X86_64BIT_GPRS_def)
  have 3: "tr.emits_into t (if m = FlagsProtectionMethod_full then tappend (emitPushEflags ud) t
     else if m = FlagsProtectionMethod_light then rbind (tappend (emitStackPush_64 ud X86_REG_AX) t) (tappend (emitLoadAHFromFlags ud))
     else Inr t) (case flag_saving_of m of Flags_kept \<Rightarrow> [] | Flags_in_ah \<Rightarrow> [push_insn 0, Insn False False M_lahf []]
      | Flags_pushed \<Rightarrow> [Insn False False M_pushf []])" for t
    by (auto simp: flag_saving_of_def X86_REG_AX_def intro!: tr.emits_into_two tr.emits_into_one tr.emits_into_none push_is_insn flags_is_insn)
  show ?thesis unfolding tramp_open_def open_insns_def
    using tr.emits_into_bind [OF 1 tr.emits_into_bind [OF 2 3]] by (simp split: flag_saving.splits)
qed

lemma tramp_close_insns: "tr.emits_into tr (tramp_close ud ps regs m tr) (close_insns ps (saved_regs regs) (flag_saving_of m))"
proof -
  have v: "sint (ucast Size__trampoline_autoinc :: u32) = 128" by (simp add: Size__trampoline_autoinc_def)
  have 1: "tr.emits_into t (if ps then tappend (emitLoadRegImmReg_64 ud X86_REG_SP Size__trampoline_autoinc X86_REG_SP) t
      else Inr t) (if ps then [lea_rsp 128] else [])" for t
    using tr.emits_into_one [of "emitLoadRegImmReg_64 ud 4 Size__trampoline_autoinc 4" "lea_rsp 128" t]
      lea_rsp_is_insn [of ud Size__trampoline_autoinc] tr.emits_into_none [of t]
    by (simp only: v X86_REG_SP_def split: if_splits) blast
  have rv: "map pop_insn (rev (saved_regs regs)) =
      map (\<lambda>i. pop_insn (X86_64BIT_GPRS - i - 1)) (filter (\<lambda>i. bs_contains regs (X86_64BIT_GPRS - i - 1)) [0..<X86_64BIT_GPRS])"
  proof -
    have "rev [0..<X86_64BIT_GPRS] = map (\<lambda>i. X86_64BIT_GPRS - i - 1) [0..<X86_64BIT_GPRS]"
      by (simp add: X86_64BIT_GPRS_def upt_rec)
    then show ?thesis unfolding saved_regs_def rev_filter by (simp add: filter_map o_def)
  qed
  have 2: "tr.emits_into t (rfold (\<lambda>i tr. let idx = X86_64BIT_GPRS - i - 1 in
      if bs_contains regs idx then tappend (emitStackPop_64 ud idx) tr else Inr tr) [0..<X86_64BIT_GPRS] t)
      (map pop_insn (rev (saved_regs regs)))" for t
    unfolding rv by (rule tr.emits_into_fold) (auto intro!: tr.emits_into_one pop_is_insn simp: X86_64BIT_GPRS_def Let_def)
  have 3: "tr.emits_into t (if m = FlagsProtectionMethod_full then tappend (emitPopEflags ud) t
     else if m = FlagsProtectionMethod_light then rbind (tappend (emitStoreAHToFlags ud) t) (tappend (emitStackPop_64 ud X86_REG_AX))
     else Inr t) (case flag_saving_of m of Flags_kept \<Rightarrow> [] | Flags_in_ah \<Rightarrow> [Insn False False M_sahf [], pop_insn 0]
      | Flags_pushed \<Rightarrow> [Insn False False M_popf []])" for t
    by (auto simp: flag_saving_of_def X86_REG_AX_def intro!: tr.emits_into_two tr.emits_into_one tr.emits_into_none pop_is_insn flags_is_insn)
  show ?thesis unfolding tramp_close_def close_insns_def
    using tr.emits_into_bind [OF 3 tr.emits_into_bind [OF 2 1]] by (simp split: flag_saving.splits)
qed

lemma tramp_core_extends: "tramp_core xs tr = Inr (fst tr @ map ci_insn xs, snd tr + size_of (map ci_insn xs))"
proof (induction xs arbitrary: tr)
  case Nil
  then show ?case by (simp add: tramp_core_def size_of_def)
next
  case (Cons x xs)
  then show ?case by (cases tr) (simp add: tramp_core_def tappend_def size_of_def add.assoc)
qed


section \<open>The whole list\<close>

text \<open>The method of a point whose method is not fixed yet.\<close>

definition chosen_method :: "InstrumentationPoint \<Rightarrow> Instrumentation \<Rightarrow> FlagsProtectionMethods \<Rightarrow> bool" where
  "chosen_method pt inst m \<longleftrightarrow> (if ip_protectionMethod pt \<noteq> FlagsProtectionMethod_undefined then m = ip_protectionMethod pt
     else getFlagsMethod (ip_instLocation pt) (ip_point pt) (point_insns pt inst) (in_canOverflow inst) = Inr m)"

lemma tramp_reloc_parts:
  assumes "tramp_reloc ud dis tb off ret insts tr = Inr tr'"
  shows "\<exists>ys J. tramp_extends tr tr' (ys @ [J]) \<and> emitJumpRelative ud (off + ucast (snd tr + size_of ys)) ret = Inr J"
proof -
  have m: "rfold (tramp_move dis tb off) insts (t, n) = Inr (t', n') \<Longrightarrow> \<exists>ys. tramp_extends t t' ys" for t n t' n'
  proof (induction insts arbitrary: t n)
    case Nil
    then show ?case using tramp_extends_refl [of t] by auto
  next
    case (Cons x xs)
    from Cons.prems obtain u k where u: "tramp_move dis tb off x (t, n) = Inr (u, k)" "rfold (tramp_move dis tb off) xs (u, k) = Inr (t', n')"
      by (auto simp: rbind_eq_Inr)
    have "\<exists>ys. tramp_extends t u ys"
    proof -
      obtain z c where "(let x = z \<lparr> xi_baseAddress := tb + off + ucast (snd t) \<rparr> in
          if \<not> isNop x then rbind (tappend (Inr (X86Instruction.truncate x)) t) (\<lambda>tr. Inr (tr, c)) else Inr (t, c)) = Inr (u, k)"
        using u(1) unfolding tramp_move_def prod.case rbind_eq_Inr [of _ _ "(u, k)"] split_paired_Ex prod.case by blast
      then show ?thesis using tramp_extends_refl [of t] tappend_extends [of _ t u]
        by (auto simp: rbind_eq_Inr Let_def split: if_splits)
    qed
    then show ?case using Cons.IH [OF u(2)] tramp_extends_trans by blast
  qed
  obtain t n where t: "rfold (tramp_move dis tb off) insts (tr, 0) = Inr (t, n)"
      "tappend (emitJumpRelative ud (off + ucast (snd t)) ret) t = Inr tr'"
    using assms by (auto simp: tramp_reloc_def rbind_eq_Inr)
  obtain ys where y: "tramp_extends tr t ys" using m [OF t(1)] by blast
  obtain J where J: "emitJumpRelative ud (off + ucast (snd t)) ret = Inr J" "tramp_extends t tr' [J]"
    using tappend_extends [OF t(2)] by blast
  show ?thesis using tramp_extends_trans [OF y J(2)] J(1) y by (auto simp: tramp_extends_def)
qed

lemma generateTrampoline_parts:
  assumes "generateTrampoline ud dis pt inst leaf entry insts tb off ret doReloc cur = Inr (pt', inst', sz)"
  shows "\<exists>m ps A B C D. chosen_method pt inst m \<and>
    protects_stack pt inst leaf entry m (getProtectedRegisters pt inst) = Inr ps \<and>
    ip_trampoline pt' = A @ B @ C @ D \<and>
    are_insn A (open_insns ps (saved_regs (getProtectedRegisters pt inst)) (flag_saving_of m)) \<and>
    are_insn C (close_insns ps (saved_regs (getProtectedRegisters pt inst)) (flag_saving_of m)) \<and>
    (if in_distinctTrampoline inst then \<exists>x. B = map ci_insn (ip_precursor pt) @ x # map ci_insn (ip_postcursor pt) \<and>
        (\<exists>y. emitCallRelative ud (off + ucast (size_of (A @ map ci_insn (ip_precursor pt)))) (in_entryPoint inst) = Inr y \<and>
          x = y \<lparr> xi_baseAddress := xi_baseAddress x \<rparr>)
     else B = map ci_insn (ip_precursor pt @ in_core inst @ ip_postcursor pt)) \<and>
    (if doReloc then \<exists>ys J. D = ys @ [J] \<and> emitJumpRelative ud (off + ucast (size_of (A @ B @ C @ ys))) ret = Inr J
     else D = []) \<and> sz = size_of (ip_trampoline pt')"
proof -
  define pt0 where "pt0 = pt \<lparr> ip_trampolineOffset := off \<rparr>"
  obtain m pt1 ps l1 s1 l2 s2 l3 s3 l4 s4 l5 s5 l6 where e:
    "getFlagsProtectionMethod pt0 inst = Inr (m, pt1)"
    "protects_stack pt1 inst leaf entry m (getProtectedRegisters pt1 inst) = Inr ps"
    "tramp_open ud ps (getProtectedRegisters pt1 inst) m ([], 0) = Inr (l1, s1)"
    "tramp_core (ip_precursor pt1) (l1, s1) = Inr (l2, s2)"
    "(if \<not> in_distinctTrampoline inst
         then rbind (tramp_core (in_core inst) (l2, s2)) (\<lambda>tr. Inr (tr, inst \<lparr> in_core := [] \<rparr>))
         else tramp_call ud tb off cur inst (l2, s2)) = Inr ((l3, s3), inst')"
    "tramp_core (ip_postcursor pt1) (l3, s3) = Inr (l4, s4)"
    "tramp_close ud ps (getProtectedRegisters pt1 inst) m (l4, s4) = Inr (l5, s5)"
    "(if doReloc then tramp_reloc ud dis tb off ret insts (l5, s5) else Inr (l5, s5)) = Inr (l6, sz)"
    "pt' = pt1 \<lparr> ip_trampoline := l6, ip_precursor := [], ip_postcursor := [] \<rparr>"
    using assms unfolding generateTrampoline_def pt0_def [symmetric] Let_def
    by (simp only: ASSERT_eq_Inr rbind_eq_Inr [where r = "getFlagsProtectionMethod pt0 inst"]
        rbind_eq_Inr [where r = "protects_stack a b c d e f" for a b c d e f] rbind_eq_Inr [where r = "tramp_open a b c d e" for a b c d e]
        rbind_eq_Inr [where r = "tramp_close a b c d e" for a b c d e] rbind_eq_Inr [where r = "if b then x else y" for b x y]
        rbind_eq_Inr [where r = "tramp_core a b" and k = "\<lambda>x. rbind (f x) (g x)" for a b f g]
        split_paired_Ex prod.case sum.inject prod.inject) (elim exE conjE, hypsubst, rule that, (assumption | rule refl)+)
  have pt1: "ip_precursor pt1 = ip_precursor pt" "ip_postcursor pt1 = ip_postcursor pt" "ip_point pt1 = ip_point pt"
      "ip_instLocation pt1 = ip_instLocation pt" "chosen_method pt inst m"
    using e(1) by (auto simp: getFlagsProtectionMethod_def pt0_def chosen_method_def rbind_eq_Inr point_insns_def split: if_splits)
  then have R: "getProtectedRegisters pt1 inst = getProtectedRegisters pt inst"
    by (simp add: getProtectedRegisters_def point_insns_def)
  obtain A where A: "l1 = A" "s1 = size_of A" "are_insn A (open_insns ps (saved_regs (getProtectedRegisters pt inst)) (flag_saving_of m))"
    using tramp_open_insns [of "([], 0)" ud ps "getProtectedRegisters pt inst" m, unfolded e(3) [unfolded R]]
    by (elim tr.emits_intoD) (auto simp: tramp_extends_def)
  have l2: "l2 = A @ map ci_insn (ip_precursor pt)" "s2 = size_of l2"
    using e(4) by (auto simp: tramp_core_extends A(1,2) pt1(1) size_of_def)
  obtain B where B: "l4 = A @ B" "s4 = size_of l4"
      "if in_distinctTrampoline inst then \<exists>x. B = map ci_insn (ip_precursor pt) @ x # map ci_insn (ip_postcursor pt) \<and>
        (\<exists>y. emitCallRelative ud (off + ucast (size_of (A @ map ci_insn (ip_precursor pt)))) (in_entryPoint inst) = Inr y \<and>
          x = y \<lparr> xi_baseAddress := xi_baseAddress x \<rparr>)
       else B = map ci_insn (ip_precursor pt @ in_core inst @ ip_postcursor pt)"
  proof (cases "in_distinctTrampoline inst")
    case False
    then have "l3 = l2 @ map ci_insn (in_core inst)" "s3 = size_of l3"
      using e(5) l2(2) by (auto simp: tramp_core_extends size_of_def)
    then show ?thesis using e(6) False that [of "map ci_insn (ip_precursor pt @ in_core inst @ ip_postcursor pt)"]
      by (auto simp: tramp_core_extends l2(1) pt1(2) size_of_def)
  next
    case True
    then obtain y where y: "emitCallRelative ud (off + ucast (size_of l2)) (in_entryPoint inst) = Inr y"
        "l3 = l2 @ [y \<lparr> xi_baseAddress := tb + cur + ucast (size_of l2) \<rparr>]" "s3 = s2 + of_nat (xi_sizeInBytes y)"
      using e(5) by (auto simp: tramp_call_def rbind_eq_Inr tappend_def Let_def l2(2) [symmetric] split: if_splits)
    then have l4: "l4 = A @ map ci_insn (ip_precursor pt) @ y \<lparr> xi_baseAddress := tb + cur + ucast (size_of l2) \<rparr> # map ci_insn (ip_postcursor pt)"
      and s4: "s4 = size_of l4"
      using e(6) by (auto simp: tramp_core_extends l2 pt1(2) size_of_def add.assoc)
    show ?thesis
      by (rule that [of "map ci_insn (ip_precursor pt) @ y \<lparr> xi_baseAddress := tb + cur + ucast (size_of l2) \<rparr> # map ci_insn (ip_postcursor pt)"])
        (use l4 s4 y(1) True l2(1) in \<open>auto intro!: exI [of _ y]\<close>)
  qed
  obtain C where C: "l5 = A @ B @ C" "s5 = size_of l5" "are_insn C (close_insns ps (saved_regs (getProtectedRegisters pt inst)) (flag_saving_of m))"
    using tramp_close_insns [of "(l4, s4)" ud ps "getProtectedRegisters pt inst" m, unfolded e(7) [unfolded R]]
    by (elim tr.emits_intoD) (auto simp: tramp_extends_def B(1,2) size_of_def)
  have "\<exists>D. l6 = A @ B @ C @ D \<and> sz = size_of l6 \<and>
      (if doReloc then \<exists>ys J. D = ys @ [J] \<and> emitJumpRelative ud (off + ucast (size_of (A @ B @ C @ ys))) ret = Inr J else D = [])"
  proof (cases doReloc)
    case False
    then show ?thesis using e(8) C by auto
  next
    case True
    then obtain ys J where "tramp_extends (l5, s5) (l6, sz) (ys @ [J])" "emitJumpRelative ud (off + ucast (s5 + size_of ys)) ret = Inr J"
      using tramp_reloc_parts [of ud dis tb off ret insts "(l5, s5)" "(l6, sz)"] e(8) by auto
    then show ?thesis using True C by (auto simp: tramp_extends_def size_of_def algebra_simps)
  qed
  then obtain D where D: "l6 = A @ B @ C @ D" "sz = size_of l6"
      "if doReloc then \<exists>ys J. D = ys @ [J] \<and> emitJumpRelative ud (off + ucast (size_of (A @ B @ C @ ys))) ret = Inr J else D = []"
    by blast
  have "ip_trampoline pt' = l6" by (simp add: e(9))
  then show ?thesis using pt1(5) e(2) [unfolded R] A(3) B(3) C(3) D
    by (intro exI [of _ m] exI [of _ ps] exI [of _ A] exI [of _ B] exI [of _ C] exI [of _ D])
      (simp add: protects_stack_def)
qed

section \<open>Running a trampoline\<close>

definition tcode :: "X86Instruction list \<Rightarrow> byte list" where
  "tcode xs = concat (map xi_rawBytes xs)"

abbreviation tlen :: "X86Instruction list \<Rightarrow> u64" where "tlen xs \<equiv> of_nat (length (tcode xs))"

lemma tcode_append: "tcode (xs @ ys) = tcode xs @ tcode ys"
  by (simp add: tcode_def)

lemma are_insns_raw: "are_insn xs is \<Longrightarrow> are_insns (map xi_rawBytes xs) is"
  unfolding are_insn_def are_insns_def list_all2_map1 by (erule list_all2_mono) (simp add: is_insn_def)

text \<open>
  The code in the middle changes only what the tables say its instructions define, and none of
  the flags that user mode cannot change. Leaving the overflow flag unprotected is the tool's decision.
\<close>

definition within_tables :: "InstrumentationPoint \<Rightarrow> Instrumentation \<Rightarrow> effect \<Rightarrow> bool" where
  "within_tables pt inst E \<longleftrightarrow> e_regs E \<subseteq> regs_defined (point_insns pt inst) \<and>
     e_flags E \<subseteq> {i \<in> flags_defined (point_insns pt inst). in_canOverflow inst \<or> i \<noteq> X86_FLAG_OF} - {9, 12, 13}"

text \<open>What the program reads later is as it was: live general registers and live flags.\<close>

definition preserves_live :: "InstrumentationPoint \<Rightarrow> effect \<Rightarrow> bool" where
  "preserves_live pt E \<longleftrightarrow>
     (\<forall>r < X86_64BIT_GPRS. reg_live (ip_instLocation pt) (ip_point pt) r \<longrightarrow> r \<notin> e_regs E) \<and>
     (\<forall>i \<in> light_flags \<union> full_flags. flag_live (ip_instLocation pt) (ip_point pt) i \<longrightarrow> i \<notin> e_flags E)"

lemma protected_preserves_live:
  assumes "getFlagsMethod (ip_instLocation pt) (ip_point pt) (point_insns pt inst) (in_canOverflow inst) = Inr m"
    and "ip_instLocation pt = InstLocation_prior \<or> ip_instLocation pt = InstLocation_after"
    and "within_tables pt inst E"
  shows "preserves_live pt (E \<lparr> e_mem := M, e_regs := e_regs E - set (saved_regs (getProtectedRegisters pt inst)),
    e_flags := saved_flags (flag_saving_of m) (e_flags E) \<rparr>)"
proof -
  define S where "S = flags_to_save (ip_instLocation pt) (ip_point pt) (point_insns pt inst) (in_canOverflow inst)"
  have m: "m = (if S \<inter> full_flags \<noteq> {} then FlagsProtectionMethod_full
    else if S \<inter> light_flags \<noteq> {} then FlagsProtectionMethod_light else FlagsProtectionMethod_none)"
    using assms(1) unfolding getFlagsMethod_value [OF assms(2)] S_def Let_def by (rule Inr_inject [THEN sym])
  have r: "r \<in> set (saved_regs (getProtectedRegisters pt inst))"
    if "r < X86_64BIT_GPRS" "reg_live (ip_instLocation pt) (ip_point pt) r" "r \<in> e_regs E" for r
    using that assms(3) by (auto simp: saved_regs_def bs.abs_has getProtectedRegisters_def getProtectedRegs_members within_tables_def)
  have f: False if i: "i \<in> light_flags \<union> full_flags" and l: "flag_live (ip_instLocation pt) (ip_point pt) i"
    and s: "i \<in> saved_flags (flag_saving_of m) (e_flags E)" for i
  proof -
    have e: "i \<in> e_flags E" using s i by (auto simp: saved_flags_def light_flags_def full_flags_def split: flag_saving.splits)
    then have S: "i \<in> S" and u: "i \<notin> {9, 12, 13}" using assms(3) l by (auto simp: within_tables_def S_def flags_to_save_def)
    have p: "bit popf_mask i" using i u by (auto simp: light_flags_def full_flags_def popf_mask_def)
    have a: "bit ah_mask i" if "i \<in> light_flags" using that by (auto simp: light_flags_def bit_ah_mask)
    have x: "i \<noteq> 16" using i by (auto simp: light_flags_def full_flags_def)
    have "m = FlagsProtectionMethod_full \<or> m = FlagsProtectionMethod_light \<and> i \<in> light_flags" using m S i by auto
    then show False using s p a x by (auto simp: saved_flags_def flag_saving_of_def)
  qed
  show ?thesis unfolding preserves_live_def using r f by auto
qed

lemma saved_bytes_bound: "saved_bytes (saved_regs b) fs \<le> 136"
proof -
  have "length (saved_regs b) \<le> 16" using length_filter_le [of "bs_contains b" "[0..<X86_64BIT_GPRS]"]
    by (simp add: saved_regs_def X86_64BIT_GPRS_def)
  then show ?thesis by (simp add: saved_bytes_def)
qed

lemma light_only: "flag_saving_of m = Flags_in_ah \<Longrightarrow> m = FlagsProtectionMethod_light"
  by (simp add: flag_saving_of_def split: if_splits)

text \<open>
  C2. What a trampoline placed before or after an instruction keeps. Assume that its method of saving flags was
  left to the tool, and that the snippet does not define \<open>rax\<close> when the method is to keep the flags in \<open>ah\<close>
  (what happens otherwise is in \<open>trampoline_flags_from_ah\<close>). Let the code in the middle run to its end with
  the stack pointer it got, leave the saved values alone, and change only general registers
  that its instructions define according to the tables, and flags they define, none of those user mode cannot change and the
  overflow flag only if the snippet says it can overflow. Then the trampoline's bytes
  run from its entry to the moved instructions with the stack pointer as before, and every general register
  and every arithmetic or control flag that is live at the point is as before. Besides what the code in the
  middle writes, memory changes only in the at most 136 bytes of saved values right below the stack pointer or right below the red zone
  of 128 bytes, which itself stays; the latter always when the function is a leaf or the point is its entry, unless the snippet is a function called without its
  wrapper. The floating point
  and vector registers are not saved: they change as the code in the middle changes them.
\<close>

theorem generateTrampoline_transparent:
  assumes gen: "generateTrampoline ud dis pt inst leaf entry insts tb off ret doReloc cur = Inr (pt', inst', sz)"
    and loc: "ip_instLocation pt = InstLocation_prior \<or> ip_instLocation pt = InstLocation_after"
    and und: "ip_protectionMethod pt = FlagsProtectionMethod_undefined"
    and code: "code_at code (tb + off) (tcode (ip_trampoline pt'))"
    and ax: "getFlagsMethod (ip_instLocation pt) (ip_point pt) (point_insns pt inst) (in_canOverflow inst) =
      Inr FlagsProtectionMethod_light \<Longrightarrow> 0 \<notin> regs_defined (point_insns pt inst)"
  shows "\<exists>A B C D z n. ip_trampoline pt' = A @ B @ C @ D \<and> z \<in> {0, 128} \<and> n \<le> 136 \<and>
    (\<not> in_distinctTrampoline inst \<longrightarrow> B = map ci_insn (ip_precursor pt @ in_core inst @ ip_postcursor pt)) \<and>
    ((leaf \<or> entry = Some True) \<and> \<not> (in_isFunction inst \<and> in_skipWrapper inst) \<longrightarrow> z = 128) \<and>
    (\<forall>I s E. within_tables pt inst E \<and>
       segment code I (tb + off + tlen A) (tb + off + tlen (A @ B)) (s - of_nat (z + n)) E \<and>
       below (s - of_nat z) n \<inter> e_mem E = {} \<and> stable I (below (s - of_nat z) n) \<longrightarrow>
       (\<exists>E'. segment code I (tb + off) (tb + off + tlen (A @ B @ C)) s E' \<and> preserves_live pt E' \<and>
          e_mem E' = e_mem E \<union> below (s - of_nat z) n \<and> e_fpu E' = e_fpu E))"
proof -
  define R where "R = getProtectedRegisters pt inst"
  obtain m ps A B C D where g: "chosen_method pt inst m" "protects_stack pt inst leaf entry m R = Inr ps"
    "ip_trampoline pt' = A @ B @ C @ D" "are_insn A (open_insns ps (saved_regs R) (flag_saving_of m))"
    "are_insn C (close_insns ps (saved_regs R) (flag_saving_of m))"
    "\<not> in_distinctTrampoline inst \<longrightarrow> B = map ci_insn (ip_precursor pt @ in_core inst @ ip_postcursor pt)"
    using generateTrampoline_parts [OF gen] unfolding R_def by auto
  define fs where "fs = flag_saving_of m"
  have meth: "getFlagsMethod (ip_instLocation pt) (ip_point pt) (point_insns pt inst) (in_canOverflow inst) = Inr m"
    using g(1) und by (simp add: chosen_method_def)
  have z: "(leaf \<or> entry = Some True) \<and> \<not> (in_isFunction inst \<and> in_skipWrapper inst) \<longrightarrow> skipped ps = 128"
    using g(2) by (auto simp: protects_stack_def skipped_def rbind_eq_Inr Let_def split: if_splits option.splits)
  have cA: "code_at code (tb + off) (tcode A)" and cC: "code_at code (tb + off + tlen (A @ B)) (tcode C)"
    using code unfolding g(3) by (simp_all add: tcode_append code_at_append add.assoc)
  have run: "\<exists>E'. segment code I (tb + off) (tb + off + tlen (A @ B @ C)) s E' \<and> preserves_live pt E' \<and>
      e_mem E' = e_mem E \<union> below (s - of_nat (skipped ps)) (saved_bytes (saved_regs R) fs) \<and> e_fpu E' = e_fpu E"
    if E: "within_tables pt inst E"
      and b: "segment code I (tb + off + tlen A) (tb + off + tlen (A @ B)) (s - of_nat (skipped ps + saved_bytes (saved_regs R) fs)) E"
      and d: "below (s - of_nat (skipped ps)) (saved_bytes (saved_regs R) fs) \<inter> e_mem E = {}"
      and st: "stable I (below (s - of_nat (skipped ps)) (saved_bytes (saved_regs R) fs))" for I s E
  proof -
    have n: "length (saved_regs R) \<le> 999"
      using length_filter_le [of "bs_contains R" "[0..<X86_64BIT_GPRS]"] by (simp add: saved_regs_def X86_64BIT_GPRS_def)
    have rax: "0 \<notin> e_regs E" if "fs = Flags_in_ah"
      using ax meth light_only [OF that [unfolded fs_def]] E by (auto simp: within_tables_def)
    note s = segment_protected [OF are_insns_raw [OF g(4)] cA [unfolded tcode_def] are_insns_raw [OF g(5)] cC [unfolded tcode_def],
        folded tcode_def fs_def, OF b d st rax n]
    have e: "tb + off + tlen (A @ B) + tlen C = tb + off + tlen (A @ B @ C)" by (simp add: tcode_append)
    show ?thesis
      by (rule exI, intro conjI, rule s [unfolded e]) (use protected_preserves_live [OF meth loc E] in \<open>simp_all add: R_def fs_def\<close>)
  qed
  have "skipped ps \<in> {0, 128}" by (simp add: skipped_def)
  note f = g(3) this saved_bytes_bound [of R fs] g(6) z
  show ?thesis
    by (intro exI conjI, rule f(1), rule f(2), rule f(3), rule f(4), rule f(5), intro allI impI, elim conjE, rule run; assumption)
qed

section \<open>The way back\<close>

lemma jump_is_insn:
  assumes "emitJumpRelative ud addr tgt = Inr x" and "fits_s32 addr" "fits_s32 tgt"
  shows "is_insn x (Insn False False M_jmp [Rel (sint (ucast (tgt - addr - 5) :: u32))])"
  using emitted_is_insn [OF emitJumpRelative_emits [OF assms(2,3)] assms(1)] assms
  by (auto simp: emitJumpRelative_def Let_def split: if_splits dest!: emitInstructionBase_size)

lemma call_is_insn:
  assumes "emitCallRelative ud addr tgt = Inr x" and "unat addr < 4294967296" "unat tgt < 4294967296"
  shows "is_insn x (Insn False False M_call [Rel (sint (ucast (tgt - addr - 5) :: u32))])"
  using emitted_is_insn [OF emitCallRelative_emits [OF assms(2,3)] assms(1)] assms
  by (auto simp: emitCallRelative_def Let_def split: if_splits dest!: emitInstructionBase_size)

lemma is_insn_at: "is_insn x i \<Longrightarrow> code_at code a (xi_rawBytes x) \<Longrightarrow> insn_at code a (xi_rawBytes x) i"
  by (simp add: is_insn_def insn_at_def)

definition sizes_ok :: "X86Instruction list \<Rightarrow> bool" where
  "sizes_ok xs \<longleftrightarrow> (\<forall>x \<in> set xs. xi_sizeInBytes x = length (xi_rawBytes x))"

lemma size_of_tlen:
  assumes "sizes_ok xs" and "length (tcode xs) < 4294967296"
  shows "(ucast (size_of xs) :: u64) = tlen xs"
proof -
  have "sum_list (map xi_sizeInBytes xs) = length (tcode xs)"
    using assms(1) by (induction xs) (simp_all add: sizes_ok_def tcode_def)
  then have "unat (ucast (size_of xs) :: u64) = length (tcode xs)" using assms(2) by (simp add: size_of_def of_nat_u32)
  then show ?thesis by (intro word_eq_unatI) (use assms(2) in \<open>simp add: unat_of_nat_u64\<close>)
qed

text \<open>
  C7. The last instruction of a trampoline with moved instructions is a jump that continues at
  the return offset, which lies before or behind it, for distances within 1 GB.
\<close>

theorem trampoline_returns:
  assumes gen: "generateTrampoline ud dis pt inst leaf entry insts tb off ret True cur = Inr (pt', inst', sz)"
    and sizes: "sizes_ok (ip_trampoline pt')"
    and code: "code_at code (tb + off) (tcode (ip_trampoline pt'))"
    and bound: "unat off + length (tcode (ip_trampoline pt')) < 1073741800" "- 1073741824 \<le> sint ret" "sint ret < 1073741824"
  shows "\<exists>D J. ip_trampoline pt' = D @ [J] \<and>
    (\<forall>m. m_rip m = tb + off + tlen D \<longrightarrow> runs code m (m \<lparr> m_rip := tb + ret \<rparr>))"
proof -
  obtain A B C ys J where p: "ip_trampoline pt' = (A @ B @ C @ ys) @ [J]"
    and J: "emitJumpRelative ud (off + ucast (size_of (A @ B @ C @ ys))) ret = Inr J"
    using generateTrampoline_parts [OF gen] by auto
  define D where "D = A @ B @ C @ ys"
  have t: "length (tcode (D @ [J])) = length (tcode D) + length (xi_rawBytes J)" by (simp add: tcode_def)
  have len: "unat off + length (tcode D) < 1073741800" using bound(1) unfolding p D_def [symmetric] t by simp
  have "sizes_ok D" using sizes unfolding p D_def [symmetric] by (simp add: sizes_ok_def)
  then have sz: "(ucast (size_of D) :: u64) = tlen D" using len by (intro size_of_tlen) simp_all
  define addr where "addr = off + tlen D"
  have "unat addr = unat off + length (tcode D)"
    unfolding addr_def using len by (simp add: unat_word_ariths unat_of_nat_u64)
  then have ab: "unat addr < 1073741800" using len by simp
  have f: "fits_s32 addr" "fits_s32 ret" using J [folded D_def, unfolded sz, folded addr_def]
    by (auto simp: emitJumpRelative_def Let_def fits_s32_def)
  define d where "d = sint (ucast (ret - addr - 5) :: u32)"
  have ji: "is_insn J (Insn False False M_jmp [Rel d])" and l5: "xi_sizeInBytes J = 5"
    using jump_is_insn [OF J [folded D_def, unfolded sz, folded addr_def] f] J
    by (auto simp: d_def emitJumpRelative_def Let_def dest: emitInstructionBase_size)
  have cJ: "code_at code (tb + addr) (xi_rawBytes J)"
    using code unfolding p D_def [symmetric] by (simp add: tcode_append code_at_append addr_def add.assoc) (simp add: tcode_def)
  have rJ: "length (xi_rawBytes J) = 5" using ji l5 by (simp add: is_insn_def)
  have "ret - addr - 5 = word_of_int (sint ret - int (unat addr) - 5)" by simp
  moreover have "fits_s32 (word_of_int (sint ret - int (unat addr) - 5))"
  proof -
    have "int (unat addr) < int 1073741800" using ab by (simp only: of_nat_less_iff)
    then have "int (unat addr) < 1073741800" "0 \<le> int (unat addr)" by simp_all
    moreover have "- 2147483648 \<le> y - x - 5 \<and> y - x - 5 < 2147483648"
      if "x < 1073741800" "0 \<le> x" "- 1073741824 \<le> y" "y < 1073741824" for x y :: int
      using that by simp
    ultimately show ?thesis using bound(2,3) by (intro fits_s32_of_int) blast+
  qed
  ultimately have "fits_s32 (ret - addr - 5)" by simp
  then have "word_of_int d = ret - addr - 5" unfolding d_def by (rule fits_s32_disp)
  then have tgt: "addr + 5 + word_of_int d = ret" by simp
  have "runs code m (m \<lparr> m_rip := tb + ret \<rparr>)" if "m_rip m = tb + off + tlen D" for m
  proof (rule runs_at [OF is_insn_at [OF ji cJ]])
    show "m_rip m = tb + addr" using that by (simp add: addr_def)
    have "tb + off + tlen D + 5 + word_of_int d = tb + ret" unfolding tgt [symmetric] addr_def by simp
    then show "exec (Insn False False M_jmp [Rel d]) (advance (length (xi_rawBytes J)) m) = Some (m \<lparr> m_rip := tb + ret \<rparr>)"
      using that by (simp add: rJ) (simp add: advance_def)
  qed
  then show ?thesis unfolding p D_def [symmetric] by blast
qed

section \<open>A point and a snippet\<close>

text \<open>
  The point is live in \<open>rcx\<close>, \<open>rsp\<close> and the carry flag. The first snippet sets \<open>rcx\<close> to 7 and tests it,
  the second sets \<open>rax\<close> to 0 and tests it.
\<close>

definition sample_dis :: "byte list \<Rightarrow> ud_entry" where
  "sample_dis bs = ud_object.extend (plain_ud bs) (ud_entry.fields X86InstructionType_move None)"

definition sample_live :: LiveInstruction where
  "sample_live = \<lparr> li_used = RegisterSet_new, li_defined = RegisterSet_new,
     li_liveIns = Some (addFlag 0 (addRegister 1 (addRegister 4 RegisterSet_new))), li_liveOuts = Some RegisterSet_new \<rparr>"

definition sample_point :: InstrumentationPoint where
  "sample_point = \<lparr> ip_point = sample_live, ip_instLocation = InstLocation_prior,
     ip_instrumentationMode = InstrumentationMode_trampinline, ip_protectionMethod = FlagsProtectionMethod_undefined,
     ip_precursor = [], ip_postcursor = [], ip_trampoline = [], ip_trampolineOffset = 0, ip_numberOfBytes = 5 \<rparr>"

definition mov_imm :: "byte \<Rightarrow> byte \<Rightarrow> byte list" where "mov_imm r v = [0x48, 0xc7, 0xc0 + r, v, 0, 0, 0]"
definition and_self :: "byte \<Rightarrow> byte list" where "and_self r = [0x48, 0x21, 0xc0 + 9 * r]"

definition sample_snippet :: "byte \<Rightarrow> byte \<Rightarrow> Instrumentation" where
  "sample_snippet r v = \<lparr> in_isFunction = False, in_core =
     [\<lparr> ci_insn = emitted (mov_imm r v), ci_regsDefined = addRegister (ucast r) RegisterSet_new, ci_flagsDefined = new_BitSet 32 \<rparr>,
      \<lparr> ci_insn = emitted (and_self r), ci_regsDefined = addRegister (ucast r) RegisterSet_new,
        ci_flagsDefined = fold bs_insert [0, 2, 4, 6, 7, 11] (new_BitSet 32) \<rparr>],
     in_distinctTrampoline = False, in_canOverflow = True, in_entryPoint = 0, in_skipWrapper = False, in_pltHooks = [] \<rparr>"

definition sample_run :: "byte \<Rightarrow> byte \<Rightarrow> (InstrumentationPoint \<times> Instrumentation \<times> u32) res" where
  "sample_run r v = generateTrampoline plain_ud sample_dis sample_point (sample_snippet r v) True None []
     0x400000 0x100 0x50 True 0"

definition lea_down :: X86Instruction where "lea_down = emitted [0x48, 0x8d, 0xa4, 0x24, 0x80, 0xff, 0xff, 0xff]"
definition lea_up :: X86Instruction where "lea_up = emitted [0x48, 0x8d, 0xa4, 0x24, 0x80, 0, 0, 0]"

definition sample_jump :: "byte \<Rightarrow> X86Instruction" where "sample_jump d = emitted [0xe9, d, 0xff, 0xff, 0xff]"

definition opened :: "byte list list \<Rightarrow> X86Instruction list" where
  "opened ps = lea_down # map emitted (ps @ [[0x50], [0x9f]])"
definition closed_by :: "byte list list \<Rightarrow> X86Instruction list" where
  "closed_by ps = map emitted ([[0x9e], [0x58]] @ ps) @ [lea_up]"

definition no_regs :: BitSet where "no_regs = \<lparr> maximum = 40, bits = [0, 0], cardinality = 0 \<rparr>"
definition only_rcx :: BitSet where "only_rcx = \<lparr> maximum = 40, bits = [2, 0], cardinality = 1 \<rparr>"

lemma sample_protected:
  "getProtectedRegisters sample_point (sample_snippet 1 7) = only_rcx"
  "getProtectedRegisters sample_point (sample_snippet 0 0) = no_regs"
  by code_simp+

lemma sample_method:
  "getFlagsMethod InstLocation_prior sample_live (in_core (sample_snippet 1 7)) True = Inr FlagsProtectionMethod_light"
  "getFlagsMethod InstLocation_prior sample_live (in_core (sample_snippet 0 0)) True = Inr FlagsProtectionMethod_light"
  by code_simp+

lemma sample_open:
  "tramp_open plain_ud True only_rcx FlagsProtectionMethod_light ([], 0) = Inr (opened [[0x51]], 11)"
  "tramp_open plain_ud True no_regs FlagsProtectionMethod_light ([], 0) = Inr (opened [], 10)"
  by code_simp+

definition sample_list :: "byte \<Rightarrow> byte \<Rightarrow> byte list list \<Rightarrow> byte list list \<Rightarrow> X86Instruction list" where
  "sample_list r v ps qs = opened ps @ map emitted [mov_imm r v, and_self r] @ closed_by qs"

lemma sample_close:
  "tramp_close plain_ud True only_rcx FlagsProtectionMethod_light (opened [[0x51]] @ [emitted (mov_imm 1 7), emitted (and_self 1)], 21) =
     Inr (sample_list 1 7 [[0x51]] [[0x59]], 32)"
  "tramp_close plain_ud True no_regs FlagsProtectionMethod_light (opened [] @ [emitted (mov_imm 0 0), emitted (and_self 0)], 20) =
     Inr (sample_list 0 0 [] [], 30)"
  by code_simp+

lemma sample_reloc:
  "tramp_reloc plain_ud sample_dis 0x400000 0x100 0x50 [] (l, 32) = Inr (l @ [sample_jump 0x2b], 37)"
  "tramp_reloc plain_ud sample_dis 0x400000 0x100 0x50 [] (l, 30) = Inr (l @ [sample_jump 0x2d], 35)"
proof -
  have "emitJumpRelative plain_ud 0x120 0x50 = Inr (sample_jump 0x2b)" "emitJumpRelative plain_ud 0x11e 0x50 = Inr (sample_jump 0x2d)"
    by code_simp+
  then show "tramp_reloc plain_ud sample_dis 0x400000 0x100 0x50 [] (l, 32) = Inr (l @ [sample_jump 0x2b], 37)"
    "tramp_reloc plain_ud sample_dis 0x400000 0x100 0x50 [] (l, 30) = Inr (l @ [sample_jump 0x2d], 35)"
    by (simp_all add: tramp_reloc_def tappend_def sample_jump_def emitted_def)
qed

definition sample_after :: "X86Instruction list \<Rightarrow> InstrumentationPoint" where
  "sample_after l = sample_point \<lparr> ip_trampolineOffset := 0x100, ip_protectionMethod := FlagsProtectionMethod_light,
     ip_trampoline := l, ip_precursor := [], ip_postcursor := [] \<rparr>"

lemma sample_run_value:
  "sample_run 1 7 = Inr (sample_after (sample_list 1 7 [[0x51]] [[0x59]] @ [sample_jump 0x2b]), (sample_snippet 1 7) \<lparr> in_core := [] \<rparr>, 37)"
  "sample_run 0 0 = Inr (sample_after (sample_list 0 0 [] [] @ [sample_jump 0x2d]), (sample_snippet 0 0) \<lparr> in_core := [] \<rparr>, 35)"
proof -
  have f: "ip_trampoline sample_point = []" "ip_protectionMethod sample_point = FlagsProtectionMethod_undefined"
    "ip_instLocation sample_point = InstLocation_prior" "ip_point sample_point = sample_live"
    "point_insns (sample_point \<lparr> ip_trampolineOffset := 0x100 \<rparr>) (sample_snippet r v) = in_core (sample_snippet r v)"
    "in_canOverflow (sample_snippet r v)" "\<not> in_distinctTrampoline (sample_snippet r v)" "\<not> in_isFunction (sample_snippet r v)"
    "ip_precursor sample_point = []" "ip_postcursor sample_point = []" for r v
    by (simp_all add: sample_point_def sample_snippet_def point_insns_def)
  have pr: "getProtectedRegisters (sample_point \<lparr> ip_trampolineOffset := o1, ip_protectionMethod := m \<rparr>) x = getProtectedRegisters sample_point x" for o1 m x
    by (simp add: getProtectedRegisters_def point_insns_def)
  have ps: "protects_stack p (sample_snippet r v) True None FlagsProtectionMethod_light b = Inr True" for p r v b
    by (simp add: protects_stack_def f Let_def)
  have co: "tramp_core (in_core (sample_snippet r v)) (l, n) = Inr (l @ [emitted (mov_imm r v), emitted (and_self r)], n + 10)" for r v l n
    unfolding tramp_core_extends by (simp add: sample_snippet_def size_of_def emitted_def mov_imm_def and_self_def)
  have nil: "tramp_core [] tr = Inr tr" for tr by (simp add: tramp_core_def)
  show "sample_run 1 7 = Inr (sample_after (sample_list 1 7 [[0x51]] [[0x59]] @ [sample_jump 0x2b]), (sample_snippet 1 7) \<lparr> in_core := [] \<rparr>, 37)"
    unfolding sample_run_def generateTrampoline_def getFlagsProtectionMethod_def
    by (simp add: f sample_method pr sample_protected ps sample_open co nil sample_close sample_reloc Let_def sample_after_def)
  show "sample_run 0 0 = Inr (sample_after (sample_list 0 0 [] [] @ [sample_jump 0x2d]), (sample_snippet 0 0) \<lparr> in_core := [] \<rparr>, 35)"
    unfolding sample_run_def generateTrampoline_def getFlagsProtectionMethod_def
    by (simp add: f sample_method pr sample_protected ps sample_open co nil sample_close sample_reloc Let_def sample_after_def)
qed

lemma sample_insns:
  "encodes True [0x48, 0x8d, 0xa4, 0x24, 0x80, 0xff, 0xff, 0xff] (lea_rsp (- 128))" 
  "encodes True [0x48, 0x8d, 0xa4, 0x24, 0x80, 0, 0, 0] (lea_rsp 128)"
  "encodes True [0x50] (push_insn 0)" "encodes True [0x58] (pop_insn 0)"
  "encodes True [0x9f] (Insn False False M_lahf [])" "encodes True [0x9e] (Insn False False M_sahf [])"
  "encodes True (mov_imm 0 0) (Insn False False M_mov [Gpr 64 0, Imm 0])"
  "encodes True (mov_imm 1 7) (Insn False False M_mov [Gpr 64 1, Imm 7])"
  "encodes True (and_self 0) (Insn False False M_and [Gpr 64 0, Gpr 64 0])"
  "encodes True (and_self 1) (Insn False False M_and [Gpr 64 1, Gpr 64 1])"
  "encodes True [0xe9, 0x2d, 0xff, 0xff, 0xff] (Insn False False M_jmp [Rel (- 211)])"
  by (simp_all add: encodes_def decode_defs mov_imm_def and_self_def push_insn_def pop_insn_def lea_rsp_def get32_def get8_def mod_f_def reg_f_def rm_f_def)

lemma insn_lengths [simp]: "length (mov_imm r v) = 7" "length (and_self r) = 3"
  by (simp_all add: mov_imm_def and_self_def)


lemma code_exists: "length bs \<le> 18446744073709551616 \<Longrightarrow> code_at (store_bytes mem a bs) a bs"
  by (simp add: code_at_def bytes_at_store_bytes)

text \<open>The first snippet, as a piece of code: it changes \<open>rcx\<close> and six flags.\<close>

definition sample_effect :: effect where
  "sample_effect = \<lparr> e_mem = {}, e_regs = {1}, e_flags = {0, 2, 4, 6, 7, 11}, e_fpu = False \<rparr>"

lemma sample_segment:
  assumes "code_at code a (mov_imm 1 7 @ and_self 1)"
  shows "segment code I a (a + 10) s sample_effect"
proof (rule segmentI)
  fix m
  assume m: "m_rip m = a" "m_rsp m = s" "I (m_mem m)"
  define ins where "ins = [(Insn False False M_mov [Gpr 64 1, Imm 7], 7 :: nat), (Insn False False M_and [Gpr 64 1, Gpr 64 1], 3)]"
  obtain m' where m': "exec_all ins m = Some m'" "m_regs m' = (m_regs m)(1 := 7)" "m_mem m' = m_mem m" "m_fpu m' = m_fpu m"
      "m_flags m' = (m_flags m AND NOT logic_mask) OR (logic_flags (m_undef m) 7 AND logic_mask)"
    by (simp add: ins_def Let_def) (simp add: set_reg_def advance_def with_flags_def)
  have "list_all2 (\<lambda>bs (i, n). encodes True bs i \<and> length bs = n \<and> n \<le> 15) [mov_imm 1 7, and_self 1] ins"
    by (simp add: ins_def sample_insns [unfolded One_nat_def])
  from runs_all [OF this _ m'(1), of code] assms m(1)
  have r: "runs code m m'" "m_rip m' = a + 10" by simp_all
  have "changes sample_effect m m'"
    using m' by (auto simp: changes_def sample_effect_def bit_and_iff bit_or_iff bit_not_iff bit_logic_mask dest: bit_imp_le_length)
  then show "\<exists>m'. runs code m m' \<and> m_rip m' = a + 10 \<and> m_rsp m' = s \<and> I (m_mem m') \<and> changes sample_effect m m'"
    using r m m' by auto
qed

lemma sample_within: "within_tables sample_point (sample_snippet 1 7) sample_effect"
proof -
  have "containsRegister (addRegister (ucast (1 :: byte)) RegisterSet_new) (of_nat 1)" by code_simp
  then have "1 \<in> regs_defined (point_insns sample_point (sample_snippet 1 7))"
    by (simp add: regs_defined_def point_insns_def sample_point_def sample_snippet_def X86_ALU_REGS_value)
  moreover have "list_all (bs_contains (fold bs_insert [0, 2, 4, 6, 7, 11] (new_BitSet 32))) [0, 2, 4, 6, 7, 11]" by code_simp
  then have "{0, 2, 4, 6, 7, 11} \<subseteq> flags_defined (point_insns sample_point (sample_snippet 1 7))"
    by (auto simp: flags_defined_def point_insns_def sample_point_def sample_snippet_def X86_FLAG_BITS_def)
  ultimately show ?thesis
    by (auto simp: within_tables_def sample_effect_def sample_snippet_def)
qed

lemma sample_not_ax: "0 \<notin> regs_defined (point_insns sample_point (sample_snippet 1 7))"
proof -
  have "\<not> containsRegister (addRegister (ucast (1 :: byte)) RegisterSet_new) (of_nat 0)" by code_simp
  then show ?thesis by (simp add: regs_defined_def point_insns_def sample_point_def sample_snippet_def)
qed

lemma sample_point_facts:
  "ip_instLocation sample_point = InstLocation_prior" "ip_protectionMethod sample_point = FlagsProtectionMethod_undefined"
  "ip_precursor sample_point = []" "ip_postcursor sample_point = []" "ip_trampoline (sample_after l) = l"
  "\<not> in_distinctTrampoline (sample_snippet r v)"
  "map ci_insn (in_core (sample_snippet r v)) = [emitted (mov_imm r v), emitted (and_self r)]"
  by (simp_all add: sample_point_def sample_after_def sample_snippet_def)

theorem generateTrampoline_transparent_witness:
  "\<exists>pt' inst' sz code. generateTrampoline plain_ud sample_dis sample_point (sample_snippet 1 7) True None []
       0x400000 0x100 0x50 True 0 = Inr (pt', inst', sz) \<and>
     code_at code 0x400100 (tcode (ip_trampoline pt')) \<and>
     (\<forall>s. \<exists>E b. segment code (\<lambda>_. True) 0x400100 b s E \<and> preserves_live sample_point E \<and> \<not> e_fpu E)"
proof -
  define l where "l = sample_list 1 7 [[0x51]] [[0x59]] @ [sample_jump 0x2b]"
  define code where "code = store_bytes (\<lambda>_. 0) 0x400100 (tcode l)"
  have g: "generateTrampoline plain_ud sample_dis sample_point (sample_snippet 1 7) True None [] 0x400000 0x100 0x50 True 0 =
      Inr (sample_after l, (sample_snippet 1 7) \<lparr> in_core := [] \<rparr>, 37)"
    using sample_run_value(1) unfolding sample_run_def l_def .
  have "length (tcode l) = 37"
    by (simp add: l_def sample_list_def opened_def closed_by_def sample_jump_def tcode_def lea_down_def lea_up_def emitted_def)
  then have c: "code_at code 0x400100 (tcode (ip_trampoline (sample_after l)))"
    unfolding code_def sample_point_facts by (intro code_exists) simp
  have c1: "code_at code (0x400000 + 0x100) (tcode (ip_trampoline (sample_after l)))" using c by simp
  have ax: "0 \<notin> regs_defined (point_insns sample_point (sample_snippet 1 7))" by (rule sample_not_ax)
  have loc: "ip_instLocation sample_point = InstLocation_prior \<or> ip_instLocation sample_point = InstLocation_after"
    by (simp add: sample_point_facts)
  have "\<exists>E b. segment code (\<lambda>_. True) 0x400100 b s E \<and> preserves_live sample_point E \<and> \<not> e_fpu E" for s
    using generateTrampoline_transparent [OF g loc sample_point_facts(2) c1 ax]
  proof (elim exE conjE, goal_cases)
    case (1 A B C D z n)
    have B: "B = map ci_insn (in_core (sample_snippet 1 7))" using 1(4) by (simp add: sample_point_facts)
    then have tB: "tcode B = mov_imm 1 7 @ and_self 1" by (simp add: sample_point_facts tcode_def emitted_def)
    have "code_at code (0x400000 + 0x100 + tlen A) (tcode B)"
      using c1 unfolding 1(1) by (simp add: tcode_append code_at_append)
    from sample_segment [OF this [unfolded tB]]
    have "segment code (\<lambda>_. True) (0x400000 + 0x100 + tlen A) (0x400000 + 0x100 + tlen (A @ B)) (s - of_nat (z + n)) sample_effect"
      by (simp add: tcode_append tB add.assoc)
    moreover have "below (s - of_nat z) n \<inter> e_mem sample_effect = {}" "stable (\<lambda>_. True) (below (s - of_nat z) n)"
      "\<not> e_fpu sample_effect" by (simp_all add: sample_effect_def stable_def)
    ultimately obtain E' where "segment code (\<lambda>_. True) (0x400000 + 0x100) (0x400000 + 0x100 + tlen (A @ B @ C)) s E'"
        "preserves_live sample_point E'" "\<not> e_fpu E'"
      using 1(6) sample_within by metis
    then show ?thesis by (intro exI [of _ E'] exI [of _ "0x400000 + 0x100 + tlen (A @ B @ C)"]) simp
  qed
  then show ?thesis using g c
    by (intro exI [of _ "sample_after l"] exI [of _ "(sample_snippet 1 7) \<lparr> in_core := [] \<rparr>"] exI [of _ 37] exI [of _ code]) simp
qed


lemma sample_list_code:
  "tcode (sample_list r v ps qs @ [sample_jump d]) = concat ([[0x48, 0x8d, 0xa4, 0x24, 0x80, 0xff, 0xff, 0xff]] @ ps @
     [[0x50], [0x9f], mov_imm r v, and_self r, [0x9e], [0x58]] @ qs @ [[0x48, 0x8d, 0xa4, 0x24, 0x80, 0, 0, 0], [0xe9, d, 0xff, 0xff, 0xff]])"
  by (simp add: sample_list_def opened_def closed_by_def sample_jump_def tcode_def lea_down_def lea_up_def emitted_def o_def)

theorem trampoline_returns_witness:
  "\<exists>pt' inst' sz code D J. generateTrampoline plain_ud sample_dis sample_point (sample_snippet 1 7) True None []
       0x400000 0x100 0x50 True 0 = Inr (pt', inst', sz) \<and>
     code_at code 0x400100 (tcode (ip_trampoline pt')) \<and> ip_trampoline pt' = D @ [J] \<and>
     (\<forall>m. runs code (m \<lparr> m_rip := 0x400100 + tlen D \<rparr>) (m \<lparr> m_rip := 0x400050 \<rparr>))"
proof -
  define l where "l = sample_list 1 7 [[0x51]] [[0x59]] @ [sample_jump 0x2b]"
  define code where "code = store_bytes (\<lambda>_. 0) 0x400100 (tcode l)"
  have g: "generateTrampoline plain_ud sample_dis sample_point (sample_snippet 1 7) True None [] 0x400000 0x100 0x50 True 0 =
      Inr (sample_after l, (sample_snippet 1 7) \<lparr> in_core := [] \<rparr>, 37)"
    using sample_run_value(1) unfolding sample_run_def l_def .
  have n: "length (tcode l) = 37" unfolding l_def sample_list_code by simp
  then have c: "code_at code (0x400000 + 0x100) (tcode (ip_trampoline (sample_after l)))"
    unfolding code_def sample_point_facts using code_exists [of "tcode l" "\<lambda>_. 0" "0x400100"] by simp
  have z: "sizes_ok (ip_trampoline (sample_after l))"
    by (simp add: sample_point_facts l_def sample_list_def opened_def closed_by_def sample_jump_def lea_down_def lea_up_def sizes_ok_def emitted_def)
  obtain D J where D: "ip_trampoline (sample_after l) = D @ [J]"
      "\<forall>m. m_rip m = 0x400000 + 0x100 + tlen D \<longrightarrow> runs code m (m \<lparr> m_rip := 0x400000 + 0x50 \<rparr>)"
    using trampoline_returns [OF g z c] n by (auto simp: sample_point_facts)
  have "runs code (m \<lparr> m_rip := 0x400100 + tlen D \<rparr>) (m \<lparr> m_rip := 0x400050 \<rparr>)" for m
    using D(2) [rule_format, of "m \<lparr> m_rip := 0x400100 + tlen D \<rparr>"] by simp
  then show ?thesis using g c D(1) by (intro exI [of _ "sample_after l"] exI [of _ "(sample_snippet 1 7) \<lparr> in_core := [] \<rparr>"]
      exI [of _ 37] exI [of _ code] exI [of _ D] exI [of _ J]) simp
qed

section \<open>Flags kept in \<open>ah\<close>\<close>

definition keeps_flags :: "insn \<Rightarrow> bool" where
  "keeps_flags i \<longleftrightarrow> (\<forall>m. \<exists>m'. exec i m = Some m' \<and> m_rip m' = m_rip m \<and> m_flags m' = m_flags m)"

lemma keeps_flags_insns: "keeps_flags (push_insn r)" "keeps_flags (pop_insn r)" "keeps_flags (lea_rsp d)"
  "keeps_flags (Insn False False M_lahf [])"
  by (simp_all add: keeps_flags_def push_insn_def pop_insn_def lea_rsp_def exec_def exec_reg_def exec_reg_mem_def exec0_def
      push64_def pop64_def set_reg_def)

lemma runs_keeps_flags:
  assumes "are_insns bss is" and "\<forall>i \<in> set is. keeps_flags i" and "code_at code (m_rip m) (concat bss)"
  shows "\<exists>m'. runs code m m' \<and> m_rip m' = m_rip m + nbytes bss \<and> m_flags m' = m_flags m"
  using assms
proof (induction "is" arbitrary: bss m)
  case Nil
  then show ?case by (intro exI [of _ m]) (simp add: runs_refl)
next
  case (Cons i "is")
  obtain b cs where b: "bss = b # cs" "encodes True b i" "length b \<le> 15" "are_insns cs is"
    using Cons.prems(1) by (auto simp: are_insns_Cons)
  have "keeps_flags i" using Cons.prems(2) by simp
  from this [unfolded keeps_flags_def, rule_format, of "advance (length b) m"]
  obtain m1 where m1: "exec i (advance (length b) m) = Some m1" "m_rip m1 = m_rip m + of_nat (length b)" "m_flags m1 = m_flags m"
    by (auto simp: advance_def)
  have c: "code_at code (m_rip m) b" "code_at code (m_rip m1) (concat cs)"
    using Cons.prems(3) by (simp_all add: b(1) m1(2) code_at_append)
  obtain m' where m': "runs code m1 m'" "m_rip m' = m_rip m1 + nbytes cs" "m_flags m' = m_flags m1"
    using Cons.IH [OF b(4) _ c(2)] Cons.prems(2) by auto
  show ?case using runs_trans [OF runs_insn [OF c(1) b(2,3) m1(1)] m'(1)] m'(2,3) m1(2,3)
    by (intro exI [of _ m']) (simp add: b(1) add.assoc)
qed

lemma runs_open_ah:
  assumes "are_insns bss (open_insns ps rs Flags_in_ah)" and "code_at code (m_rip m) (concat bss)"
  shows "\<exists>m'. runs code m m' \<and> m_rip m' = m_rip m + nbytes bss \<and>
    (\<forall>i \<in> light_flags. bit (m_regs m' 0) (i + 8) = bit (m_flags m) i)"
proof -
  define xs where "xs = (if ps then [lea_rsp (- 128)] else []) @ map push_insn rs @ [push_insn 0]"
  have "open_insns ps rs Flags_in_ah = xs @ [Insn False False M_lahf []]" by (simp add: open_insns_def xs_def)
  then obtain cs b where b: "bss = cs @ [b]" "are_insns cs xs" "encodes True b (Insn False False M_lahf [])" "length b \<le> 15"
    using assms(1) by (auto simp: are_insns_append are_insns_Cons)
  have "\<forall>i \<in> set xs. keeps_flags i" by (auto simp: xs_def keeps_flags_insns)
  then obtain m1 where m1: "runs code m m1" "m_rip m1 = m_rip m + nbytes cs" "m_flags m1 = m_flags m"
    using runs_keeps_flags [OF b(2), of code m] assms(2) by (auto simp: b(1) code_at_append)
  obtain m2 where m2: "exec (Insn False False M_lahf []) (advance (length b) m1) = Some m2" "m_rip m2 = m_rip m1 + of_nat (length b)"
      "m_regs m2 0 = (m_regs m1 0 AND NOT 0xff00) OR push_bit 8 ((m_flags m1 AND ah_mask) OR 2)"
    by (simp add: exec_def exec0_def set_reg_def advance_def)
  have "code_at code (m_rip m1) b" using assms(2) m1(2) by (simp add: b(1) code_at_append)
  then have r: "runs code m1 m2" using b(3,4) m2(1) by (rule runs_insn)
  have "bit (m_regs m2 0) (i + 8) = bit (m_flags m) i" if "i \<in> light_flags" for i
    using that m1(3) by (auto simp: m2(3) light_flags_def bit_ah_mask bit_simps)
  then show ?thesis using runs_trans [OF m1(1) r] m1(2) m2(2) by (intro exI [of _ m2]) (simp add: b(1) add.assoc)
qed

lemma runs_close_ah:
  assumes "are_insns bss (close_insns ps rs Flags_in_ah)" and "code_at code (m_rip m) (concat bss)"
  shows "\<exists>m'. runs code m m' \<and> m_rip m' = m_rip m + nbytes bss \<and>
    (\<forall>i \<in> light_flags. bit (m_flags m') i = bit (m_regs m 0) (i + 8))"
proof -
  define xs where "xs = pop_insn 0 # map pop_insn (rev rs) @ (if ps then [lea_rsp 128] else [])"
  have "close_insns ps rs Flags_in_ah = Insn False False M_sahf [] # xs" by (simp add: close_insns_def xs_def)
  then obtain b cs where b: "bss = b # cs" "are_insns cs xs" "encodes True b (Insn False False M_sahf [])" "length b \<le> 15"
    using assms(1) by (auto simp: are_insns_Cons)
  obtain m1 where m1: "exec (Insn False False M_sahf []) (advance (length b) m) = Some m1" "m_rip m1 = m_rip m + of_nat (length b)"
      "m_flags m1 = (m_flags m AND NOT ah_mask) OR (drop_bit 8 (m_regs m 0) AND ah_mask)"
    by (simp add: exec_def exec0_def with_flags_def advance_def)
  have c: "code_at code (m_rip m) b" "code_at code (m_rip m1) (concat cs)"
    using assms(2) by (simp_all add: b(1) m1(2) code_at_append)
  have "\<forall>i \<in> set xs. keeps_flags i" by (auto simp: xs_def keeps_flags_insns)
  then obtain m2 where m2: "runs code m1 m2" "m_rip m2 = m_rip m1 + nbytes cs" "m_flags m2 = m_flags m1"
    using runs_keeps_flags [OF b(2) _ c(2)] by blast
  have "bit (m_flags m2) i = bit (m_regs m 0) (i + 8)" if "i \<in> light_flags" for i
    using that by (auto simp: m2(3) m1(3) light_flags_def bit_ah_mask bit_simps add.commute)
  then show ?thesis using runs_trans [OF runs_insn [OF c(1) b(3,4) m1(1)] m2(1)] m1(2) m2(2)
    by (intro exI [of _ m2]) (simp add: b(1) add.assoc)
qed

text \<open>
  C8. Where the light protection is chosen, some carry, parity, adjust, zero or sign flag is live
  and defined by the snippet, and the trampoline carries these five flags in \<open>ah\<close> and nowhere else: the opening
  puts each of them into its bit of \<open>rax\<close>, and the closing sets each to that bit of the \<open>rax\<close> the
  snippet leaves. So a snippet that leaves another value in one of these bits of \<open>rax\<close> changes the
  flag, and it is lost to the program if it is the live one.
\<close>

theorem trampoline_flags_from_ah:
  assumes gen: "generateTrampoline ud dis pt inst leaf entry insts tb off ret doReloc cur = Inr (pt', inst', sz)"
    and loc: "ip_instLocation pt = InstLocation_prior \<or> ip_instLocation pt = InstLocation_after"
    and und: "ip_protectionMethod pt = FlagsProtectionMethod_undefined"
    and code: "code_at code (tb + off) (tcode (ip_trampoline pt'))"
    and ax: "getFlagsMethod (ip_instLocation pt) (ip_point pt) (point_insns pt inst) (in_canOverflow inst) =
      Inr FlagsProtectionMethod_light"
  shows "(\<exists>i \<in> light_flags. flag_live (ip_instLocation pt) (ip_point pt) i \<and> i \<in> flags_defined (point_insns pt inst)) \<and>
    (\<exists>A B C D. ip_trampoline pt' = A @ B @ C @ D \<and>
      (\<not> in_distinctTrampoline inst \<longrightarrow> B = map ci_insn (ip_precursor pt @ in_core inst @ ip_postcursor pt)) \<and>
      (\<forall>m. \<exists>m1. runs code (m \<lparr> m_rip := tb + off \<rparr>) m1 \<and> m_rip m1 = tb + off + tlen A \<and>
         (\<forall>i \<in> light_flags. bit (m_regs m1 0) (i + 8) = bit (m_flags m) i)) \<and>
      (\<forall>m. \<exists>m1. runs code (m \<lparr> m_rip := tb + off + tlen (A @ B) \<rparr>) m1 \<and> m_rip m1 = tb + off + tlen (A @ B @ C) \<and>
         (\<forall>i \<in> light_flags. bit (m_flags m1) i = bit (m_regs m 0) (i + 8))))"
proof (intro conjI)
  define S where "S = flags_to_save (ip_instLocation pt) (ip_point pt) (point_insns pt inst) (in_canOverflow inst)"
  have "FlagsProtectionMethod_light = (if S \<inter> full_flags \<noteq> {} then FlagsProtectionMethod_full
    else if S \<inter> light_flags \<noteq> {} then FlagsProtectionMethod_light else FlagsProtectionMethod_none)"
    using ax unfolding getFlagsMethod_value [OF loc] S_def Let_def by (rule Inr_inject [THEN sym])
  then have "S \<inter> light_flags \<noteq> {}" by (auto split: if_splits)
  then show "\<exists>i \<in> light_flags. flag_live (ip_instLocation pt) (ip_point pt) i \<and> i \<in> flags_defined (point_insns pt inst)"
    by (auto simp: S_def flags_to_save_def)
next
  define R where "R = getProtectedRegisters pt inst"
  have f: "flag_saving_of FlagsProtectionMethod_light = Flags_in_ah" by (simp add: flag_saving_of_def)
  obtain ps A B C D where g: "ip_trampoline pt' = A @ B @ C @ D" "are_insn A (open_insns ps (saved_regs R) Flags_in_ah)"
    "are_insn C (close_insns ps (saved_regs R) Flags_in_ah)"
    "\<not> in_distinctTrampoline inst \<longrightarrow> B = map ci_insn (ip_precursor pt @ in_core inst @ ip_postcursor pt)"
    using generateTrampoline_parts [OF gen] und ax unfolding R_def by (auto simp: chosen_method_def f)
  have cA: "code_at code (tb + off) (tcode A)" and cC: "code_at code (tb + off + tlen (A @ B)) (tcode C)"
    using code unfolding g(1) by (simp_all add: tcode_append code_at_append add.assoc)
  have o: "\<exists>m1. runs code (m \<lparr> m_rip := tb + off \<rparr>) m1 \<and> m_rip m1 = tb + off + tlen A \<and>
         (\<forall>i \<in> light_flags. bit (m_regs m1 0) (i + 8) = bit (m_flags m) i)" for m
    using runs_open_ah [OF are_insns_raw [OF g(2)], of code "m \<lparr> m_rip := tb + off \<rparr>"] cA by (simp add: tcode_def)
  have c: "\<exists>m1. runs code (m \<lparr> m_rip := tb + off + tlen (A @ B) \<rparr>) m1 \<and> m_rip m1 = tb + off + tlen (A @ B @ C) \<and>
         (\<forall>i \<in> light_flags. bit (m_flags m1) i = bit (m_regs m 0) (i + 8))" for m
    using runs_close_ah [OF are_insns_raw [OF g(3)], of code "m \<lparr> m_rip := tb + off + tlen (A @ B) \<rparr>"] cC
    by (simp add: tcode_def add.assoc)
  show "\<exists>A B C D. ip_trampoline pt' = A @ B @ C @ D \<and>
      (\<not> in_distinctTrampoline inst \<longrightarrow> B = map ci_insn (ip_precursor pt @ in_core inst @ ip_postcursor pt)) \<and>
      (\<forall>m. \<exists>m1. runs code (m \<lparr> m_rip := tb + off \<rparr>) m1 \<and> m_rip m1 = tb + off + tlen A \<and>
         (\<forall>i \<in> light_flags. bit (m_regs m1 0) (i + 8) = bit (m_flags m) i)) \<and>
      (\<forall>m. \<exists>m1. runs code (m \<lparr> m_rip := tb + off + tlen (A @ B) \<rparr>) m1 \<and> m_rip m1 = tb + off + tlen (A @ B @ C) \<and>
         (\<forall>i \<in> light_flags. bit (m_flags m1) i = bit (m_regs m 0) (i + 8)))"
    by (rule exI [of _ A], rule exI [of _ B], rule exI [of _ C], rule exI [of _ D], intro conjI allI, rule g(1), rule g(4), rule o, rule c)
qed

text \<open>The carry flag is live at the sample point; the snippet that clears \<open>rax\<close> clears the flag.\<close>

lemma trampoline_flags_from_ah_witness:
  "\<exists>pt' inst' sz code. generateTrampoline plain_ud sample_dis sample_point (sample_snippet 0 0) True None []
       0x400000 0x100 0x50 True 0 = Inr (pt', inst', sz) \<and>
     code_at code 0x400100 (tcode (ip_trampoline pt')) \<and> flag_live InstLocation_prior (ip_point sample_point) X86_FLAG_CF \<and>
     (\<forall>m. \<exists>m'. runs code (m \<lparr> m_rip := 0x400100 \<rparr>) m' \<and> \<not> bit (m_flags m') X86_FLAG_CF)"
proof -
  define l where "l = sample_list 0 0 [] [] @ [sample_jump 0x2d]"
  define code where "code = store_bytes (\<lambda>_. 0) 0x400100 (tcode l)"
  have g: "generateTrampoline plain_ud sample_dis sample_point (sample_snippet 0 0) True None [] 0x400000 0x100 0x50 True 0 =
      Inr (sample_after l, (sample_snippet 0 0) \<lparr> in_core := [] \<rparr>, 35)"
    using sample_run_value(2) unfolding sample_run_def l_def .
  have n: "length (tcode l) = 35" unfolding l_def sample_list_code by simp
  have c: "code_at code (0x400000 + 0x100) (tcode (ip_trampoline (sample_after l)))"
    unfolding code_def sample_point_facts using code_exists [of "tcode l" "\<lambda>_. 0" "0x400100"] n by simp
  have ax: "getFlagsMethod (ip_instLocation sample_point) (ip_point sample_point) (point_insns sample_point (sample_snippet 0 0))
      (in_canOverflow (sample_snippet 0 0)) = Inr FlagsProtectionMethod_light"
    by code_simp
  have loc: "ip_instLocation sample_point = InstLocation_prior \<or> ip_instLocation sample_point = InstLocation_after"
    by (simp add: sample_point_facts)
  have run: "\<forall>m. \<exists>m'. runs code (m \<lparr> m_rip := 0x400100 \<rparr>) m' \<and> \<not> bit (m_flags m') X86_FLAG_CF"
    using trampoline_flags_from_ah [OF g loc sample_point_facts(2) c ax]
  proof (elim exE conjE, goal_cases)
    case (1 A B C D)
    have B: "B = map ci_insn (in_core (sample_snippet 0 0))" using 1(3) by (simp add: sample_point_facts)
    then have tB: "tcode B = concat [mov_imm 0 0, and_self 0]" by (simp add: sample_point_facts tcode_def emitted_def)
    have cB: "code_at code (0x400000 + 0x100 + tlen A) (concat [mov_imm 0 0, and_self 0])"
      using c unfolding 1(2) by (simp only: tcode_append code_at_append tB)
    show ?case
    proof
      fix m
      obtain m1 where m1: "runs code (m \<lparr> m_rip := 0x400000 + 0x100 \<rparr>) m1" "m_rip m1 = 0x400000 + 0x100 + tlen A"
        using 1(4) by blast
      define ins where "ins = [(Insn False False M_mov [Gpr 64 0, Imm 0], 7 :: nat), (Insn False False M_and [Gpr 64 0, Gpr 64 0], 3)]"
      obtain m2 where m2: "exec_all ins m1 = Some m2" "m_regs m2 0 = 0"
        by (simp add: ins_def Let_def)
      have "list_all2 (\<lambda>bs (i, n). encodes True bs i \<and> length bs = n \<and> n \<le> 15) [mov_imm 0 0, and_self 0] ins"
        by (simp add: ins_def sample_insns)
      from runs_all [OF this _ m2(1), of code] cB m1(2)
      have r: "runs code m1 m2" "m_rip m2 = 0x400000 + 0x100 + tlen (A @ B)" by (simp_all add: tcode_append tB add.assoc)
      obtain m3 where m3: "runs code (m2 \<lparr> m_rip := 0x400000 + 0x100 + tlen (A @ B) \<rparr>) m3"
          "\<forall>i \<in> light_flags. bit (m_flags m3) i = bit (m_regs m2 0) (i + 8)"
        using 1(5) by blast
      have "m2 \<lparr> m_rip := 0x400000 + 0x100 + tlen (A @ B) \<rparr> = m2" using r(2) by (cases m2) simp
      then have "runs code (m \<lparr> m_rip := 0x400000 + 0x100 \<rparr>) m3" using m3(1) runs_trans [OF m1(1) r(1)] runs_trans by metis
      moreover have "\<not> bit (m_flags m3) X86_FLAG_CF" using m3(2) m2(2) by (simp add: light_flags_def X86_FLAG_CF_def)
      ultimately show "\<exists>m'. runs code (m \<lparr> m_rip := 0x400100 \<rparr>) m' \<and> \<not> bit (m_flags m') X86_FLAG_CF"
        by (intro exI [of _ m3]) simp
    qed
  qed
  have "flag_live InstLocation_prior (ip_point sample_point) X86_FLAG_CF" by code_simp
  then show ?thesis using g c run
    by (intro exI [of _ "sample_after l"] exI [of _ "(sample_snippet 0 0) \<lparr> in_core := [] \<rparr>"] exI [of _ 35] exI [of _ code]) simp
qed

end
