(* ===== verification/X86_Frame.thy ===== *)
theory X86_Frame
  imports X86_Segment
begin

text \<open>
  More contracts: single instructions, a stack pointer that is aligned and restored from the stack,
  the vector and floating point state around a piece, and the return of a routine.
\<close>

lemma segment_one:
  assumes "insn_at code a bs i"
    and "\<And>m. m_rip m = a \<Longrightarrow> m_rsp m = s \<Longrightarrow> \<exists>m'. exec i (advance (length bs) m) = Some m' \<and>
      m_rip m' = a + of_nat (length bs) \<and> m_rsp m' = s \<and> m_mem m' = m_mem m \<and> changes E m m'"
  shows "segment code I a (a + of_nat (length bs)) s E"
proof (rule segmentI)
  fix m
  assume m: "m_rip m = a" "m_rsp m = s" "I (m_mem m)"
  obtain m' where "exec i (advance (length bs) m) = Some m'" "m_rip m' = a + of_nat (length bs)" "m_rsp m' = s"
      "m_mem m' = m_mem m" "changes E m m'" using assms(2) [OF m(1,2)] by blast
  then show "\<exists>m'. runs code m m' \<and> m_rip m' = a + of_nat (length bs) \<and> m_rsp m' = s \<and> I (m_mem m') \<and> changes E m m'"
    using runs_at [OF assms(1) m(1)] m(3) by auto
qed

lemma routine_ret:
  assumes "segment code I a b s E" and "insn_at code b q (Insn False False M_ret [])" and "area s 8 \<inter> e_mem E = {}"
  shows "routine code I a s E"
  unfolding routine_def
proof (intro allI impI)
  fix m
  assume m: "m_rip m = a" "m_rsp m = s" "good_state I m"
  then obtain m1 where 1: "runs code m m1" "m_rip m1 = b" "m_rsp m1 = s" "I (m_mem m1)" "changes E m m1"
    using assms(1) unfolding segment_def by blast
  define m2 where "m2 = set_reg 4 (m_rsp m1 + 8) (advance (length q) m1) \<lparr> m_rip := load64 (m_mem m1) (m_rsp m1) \<rparr>"
  have 2: "runs code m1 m2" using assms(2) 1(2) by (rule runs_at) (simp add: m2_def)
  have "load64 (m_mem m1) s = load64 (m_mem m) s"
    using 1(5) assms(3) by (intro load64_cong) (auto simp: changes_def)
  then have "m_rip m2 = load64 (m_mem m) s" "m_rsp m2 = s + 8" "I (m_mem m2)" "changes E m m2"
    using 1 by (auto simp: m2_def changes_def)
  then show "\<exists>m'. runs code m m' \<and> m_rip m' = load64 (m_mem m) s \<and> m_rsp m' = s + 8 \<and> I (m_mem m') \<and> changes E m m'"
    using runs_trans [OF 1(1) 2] by blast
qed

text \<open>The floating point and vector state, saved at the aligned stack pointer itself.\<close>

lemma exec_fx [simp]:
  "unat (m_rsp m) mod 16 = 0 \<Longrightarrow> exec (Insn False False M_fxsave [Mem n 64 None (Addr (Some 4) None 0)]) m =
     Some (m \<lparr> m_mem := store_bytes (m_mem m) (m_rsp m) (m_fpu m) \<rparr>)"
  "unat (m_rsp m) mod 16 = 0 \<Longrightarrow> exec (Insn False False M_fxrstor [Mem n 64 None (Addr (Some 4) None 0)]) m =
     Some (m \<lparr> m_fpu := bytes_at (m_mem m) (m_rsp m) 512 \<rparr>)"
  by (simp_all add: exec_def exec_mem_def effective_def)

lemma segment_fxsave_fxrstor:
  assumes p: "insn_at code a p (Insn False False M_fxsave [Mem n 64 None (Addr (Some 4) None 0)])"
    and mid: "segment code I (a + of_nat (length p)) b s E"
    and q: "insn_at code b q (Insn False False M_fxrstor [Mem n 64 None (Addr (Some 4) None 0)])"
    and "unat s mod 16 = 0" and "area s 512 \<inter> e_mem E = {}" and "stable I (area s 512)"
  shows "segment code I a (b + of_nat (length q)) s (E \<lparr> e_mem := e_mem E \<union> area s 512, e_fpu := False \<rparr>)" (is "segment _ _ _ _ _ ?E")
proof (rule segmentI)
  fix m
  assume m: "m_rip m = a" "m_rsp m = s" "I (m_mem m)" "length (m_fpu m) = 512"
  define m1 where "m1 = (advance (length p) m) \<lparr> m_mem := store_bytes (m_mem m) s (m_fpu m) \<rparr>"
  have 1: "runs code m m1" using p m(1) by (rule runs_at) (simp add: m1_def m(2) assms(4))
  have st: "store_bytes (m_mem m) s (m_fpu m) x = m_mem m x" if "x \<notin> area s 512" for x
    using that m(4) by (simp add: store_bytes_other)
  have f1: "m_rip m1 = a + of_nat (length p)" "m_rsp m1 = s" "I (m_mem m1)" "length (m_fpu m1) = 512"
    using m stableD [OF assms(6) m(3) st] by (simp_all add: m1_def)
  obtain m2 where 2: "runs code m1 m2" "m_rip m2 = b" "m_rsp m2 = s" "I (m_mem m2)" "changes E m1 m2"
    using mid f1 by (rule segmentD)
  define m3 where "m3 = (advance (length q) m2) \<lparr> m_fpu := bytes_at (m_mem m2) s 512 \<rparr>"
  have 3: "runs code m2 m3" using q 2(2) by (rule runs_at) (simp add: m3_def 2(3) assms(4))
  have "bytes_at (m_mem m2) s 512 = bytes_at (m_mem m1) s 512"
    using 2(5) assms(5) by (intro bytes_at_cong) (auto simp: changes_def)
  also have "\<dots> = m_fpu m" using bytes_at_store_bytes [of "m_fpu m" "m_mem m" s] m(4) by (simp add: m1_def)
  finally have c: "changes ?E m m3" using 2(5) st m(4) by (auto simp: changes_def m3_def m1_def)
  have "m_rip m3 = b + of_nat (length q)" "m_rsp m3 = s" "I (m_mem m3)" using 2 by (simp_all add: m3_def)
  then show "\<exists>m'. runs code m m' \<and> m_rip m' = b + of_nat (length q) \<and> m_rsp m' = s \<and> I (m_mem m') \<and> changes ?E m m'"
    using c runs_trans [OF 1 runs_trans [OF 2(1) 3]] by blast
qed

section \<open>An aligned frame\<close>

text \<open>The stack pointer is saved in \<open>r14\<close>, lowered to a multiple of 4096, and kept on top of the new stack.\<close>

definition align_open :: "insn list" where
  "align_open = [Insn False False M_mov [Gpr 64 14, Gpr 64 4], lea_rsp (- 4096),
     Insn False False M_mov [Gpr 64 15, Imm (- 4096)], Insn False False M_and [Gpr 64 4, Gpr 64 15],
     pop_insn 15, push_insn 14]"

definition align_close :: "insn list" where
  "align_close = [pop_insn 14, Insn False False M_mov [Gpr 64 4, Gpr 64 14]]"

definition frame_top :: "u64 \<Rightarrow> u64" where "frame_top s = (s - 4096) AND - 4096"
definition frame_slack :: "u64 \<Rightarrow> nat" where "frame_slack s = unat s mod 4096"

lemma minus_4096: "(- 4096 :: u64) = NOT (Bit_Operations.mask 12)"
  by (simp add: mask_eq_exp_minus_1 not_eq_complement)

lemma unat_take_bit_12: "unat (take_bit 12 (x :: u64)) = unat x mod 4096"
proof -
  have "unat (take_bit 12 x) = take_bit 12 (unat x)" by (rule unsigned_take_bit_eq)
  then show ?thesis by (simp only: take_bit_eq_mod) simp
qed

lemma unat_minus_4096: "unat (x - 4096 :: u64) mod 4096 = unat x mod 4096"
proof -
  have "uint (x - 4096) mod 4096 = (uint x - 4096) mod 18446744073709551616 mod 4096" by (simp add: uint_word_ariths)
  also have "\<dots> = (uint x - 4096) mod 4096" by (rule mod_mod_cancel) simp
  also have "\<dots> = uint x mod 4096" by simp
  finally have "int (unat (x - 4096) mod 4096) = int (unat x mod 4096)" by (simp add: zmod_int)
  then show ?thesis by simp
qed

lemma frame_top_value: "frame_top s = s - of_nat (4096 + frame_slack s)"
proof -
  have t: "x AND NOT (Bit_Operations.mask 12) = x - of_nat (unat x mod 4096)" for x :: u64
  proof -
    have "x = (x AND NOT (Bit_Operations.mask 12)) OR (x AND Bit_Operations.mask 12)"
      by (rule bit_word_eqI) (auto simp: bit_simps)
    also have "\<dots> = (x AND NOT (Bit_Operations.mask 12)) + (x AND Bit_Operations.mask 12)"
      by (rule disjunctive_add [symmetric]) (auto simp: bit_simps)
    finally have "x AND NOT (Bit_Operations.mask 12) = x - take_bit 12 x" by (simp add: take_bit_eq_mask algebra_simps)
    moreover have "take_bit 12 x = of_nat (unat x mod 4096)"
      by (rule word_eq_unatI) (simp add: unat_take_bit_12 unat_of_nat_u64)
    ultimately show ?thesis by simp
  qed
  show ?thesis by (simp add: frame_top_def minus_4096 t frame_slack_def unat_minus_4096)
qed

lemma frame_slack_less: "frame_slack s < 4096"
  by (simp add: frame_slack_def)

lemma frame_aligned: "unat (frame_top s) mod 16 = 0" "unat (frame_top s - 4096) mod 16 = 0"
proof -
  have "take_bit 12 (frame_top s) = 0"
    unfolding frame_top_def minus_4096 by (rule bit_word_eqI) (auto simp: bit_simps)
  then have z: "unat (frame_top s) mod 4096 = 0" using unat_take_bit_12 [of "frame_top s"] by simp
  then have y: "unat (frame_top s - 4096) mod 4096 = 0" by (simp add: unat_minus_4096)
  have d: "n mod 16 = 0" if "n mod 4096 = 0" for n :: nat
  proof -
    have "n mod 4096 mod 16 = n mod 16" by (rule mod_mod_cancel) simp
    then show ?thesis using that by simp
  qed
  show "unat (frame_top s) mod 16 = 0" using z by (rule d)
  show "unat (frame_top s - 4096) mod 16 = 0" using y by (rule d)
qed

text \<open>The top of the new stack lies below the saved pointer.\<close>

lemma frame_top_slot:
  "frame_top s + 8 = s - of_nat (4088 + frame_slack s)" "slot (frame_top s + 8) = area (frame_top s) 8"
  "slot (frame_top s + 8) \<subseteq> below s (4096 + frame_slack s)"
proof -
  show e: "frame_top s + 8 = s - of_nat (4088 + frame_slack s)" by (simp add: frame_top_value)
  show "slot (frame_top s + 8) = area (frame_top s) 8" by (simp add: slot_def)
  show "slot (frame_top s + 8) \<subseteq> below s (4096 + frame_slack s)"
    unfolding e below_8 [symmetric] by (rule below_sub) (use frame_slack_less [of s] in simp_all)
qed

lemma segment_align:
  assumes P: "are_insns P align_open" "code_at code a (concat P)"
    and Q: "are_insns Q align_close" "code_at code b (concat Q)"
    and mid: "segment code I (a + nbytes P) b (frame_top s) E"
    and "slot (frame_top s + 8) \<inter> e_mem E = {}" and "stable I (slot (frame_top s + 8))"
  shows "segment code I a (b + nbytes Q) s (E \<lparr> e_mem := e_mem E \<union> slot (frame_top s + 8),
    e_regs := e_regs E \<union> {14, 15}, e_flags := e_flags E \<union> {0, 2, 4, 6, 7, 11} \<rparr>)" (is "segment _ _ _ _ _ ?E")
proof (rule segmentI)
  fix m
  assume m: "m_rip m = a" "m_rsp m = s" "I (m_mem m)" "length (m_fpu m) = 512"
  define t where "t = frame_top s"
  have lens: "list_all2 (\<lambda>bs (i, n). encodes True bs i \<and> length bs = n \<and> n \<le> 15) P (zip align_open (map length P))"
    "list_all2 (\<lambda>bs (i, n). encodes True bs i \<and> length bs = n \<and> n \<le> 15) Q (zip align_close (map length Q))"
    using P(1) Q(1) unfolding are_insns_def by (auto simp: list_all2_conv_all_nth)
  obtain p1 p2 p3 p4 p5 p6 where Ps: "P = [p1, p2, p3, p4, p5, p6]"
    using P(1) by (auto simp: align_open_def are_insns_Cons)
  obtain q1 q2 where Qs: "Q = [q1, q2]" using Q(1) by (auto simp: align_close_def are_insns_Cons)
  have fl: "bit ((f AND NOT logic_mask) OR (v AND logic_mask)) i = bit f i" if "i \<notin> {0, 2, 4, 6, 7, 11}" for f v :: u64 and i
    using that by (auto simp: bit_and_iff bit_or_iff bit_not_iff bit_logic_mask dest: bit_imp_le_length)
  have tv: "(s - 4096) AND - 4096 = t" by (simp add: t_def frame_top_def)
  obtain m1 where m1: "exec_all (zip align_open (map length P)) m = Some m1" "m_mem m1 = store64 (m_mem m) t s"
      "m_rsp m1 = t" "\<forall>r. r \<notin> {4, 14, 15} \<longrightarrow> m_regs m1 r = m_regs m r" "m_fpu m1 = m_fpu m"
      "\<forall>i. i \<notin> {0, 2, 4, 6, 7, 11} \<longrightarrow> bit (m_flags m1) i = bit (m_flags m) i"
    by (simp add: Ps align_open_def lea_rsp_def push_insn_def pop_insn_def effective_def Let_def m(2) tv fl)
  have r1: "runs code m m1" "m_rip m1 = a + nbytes P" using runs_all [OF lens(1) _ m1(1), of code] P(2) m(1) by simp_all
  have sl: "area t 8 = slot (t + 8)" by (simp add: slot_def)
  have I1: "I (m_mem m1)" using stable_push [OF assms(7) m(3), of s] m1(2) by (simp add: t_def)
  obtain m2 where 2: "runs code m1 m2" "m_rip m2 = b" "m_rsp m2 = t" "I (m_mem m2)" "changes E m1 m2"
    using mid r1(2) m1(3) I1 m1(5) m(4) unfolding t_def [symmetric] by (auto elim!: segmentD)
  have v: "load64 (m_mem m2) t = s"
    using load64_untouched [of "e_mem E" "m_mem m2" "m_mem m1" "t + 8"] 2(5) assms(6) m1(2)
    by (simp add: changes_def t_def)
  obtain m3 where m3: "exec_all (zip align_close (map length Q)) m2 = Some m3" "m_mem m3 = m_mem m2" "m_rsp m3 = s"
      "\<forall>r. r \<notin> {4, 14} \<longrightarrow> m_regs m3 r = m_regs m2 r" "m_fpu m3 = m_fpu m2" "m_flags m3 = m_flags m2"
    by (simp add: Qs align_close_def pop_insn_def 2(3) v)
  have r3: "runs code m2 m3" "m_rip m3 = b + nbytes Q" using runs_all [OF lens(2) _ m3(1), of code] Q(2) 2(2) by simp_all
  have "changes ?E m m3"
    using 2(5) m1 m3 pushed_elsewhere [of _ "t + 8" "m_mem m" s] by (auto simp: changes_def t_def [symmetric])
  then show "\<exists>m'. runs code m m' \<and> m_rip m' = b + nbytes Q \<and> m_rsp m' = s \<and> I (m_mem m') \<and> changes ?E m m'"
    using runs_trans [OF r1(1) runs_trans [OF 2(1) r3(1)]] r3(2) m3 2(4) by auto
qed

end
