(* ===== verification/Spec2Isabelle.thy ===== *)
theory Spec2Isabelle
  imports Base_Align Base_Codes X86_Correct32 X86_Correct64 Cfg_Loops Liveness Elf_Gnu_Hash Elf_Link Cache_Exclusive
    Trampoline_Correct X86_Frame
begin

text \<open>
  A model of PEBIL, a static binary rewriter for x86 ELF executables, and its correctness lemmas.

  The program disassembles the functions of an executable, builds their flow graphs and loops, inserts
  snippets made by an instruction factory, and lays out and writes the changed file.

  Parts and theories:

  \<^item> \<open>Pebil_Prelude\<close>: bytes and words, results with the assertion failures of the code as errors,
    heap buffers filled by index and \<open>memcpy\<close>, little-endian numbers.
  \<^item> \<open>Base_Align\<close>, \<open>Base_Codes\<close>: \<open>src/Base.C\<close> and \<open>include/Base.h\<close>. Alignment is the least multiple
    below \<open>2 ^ 32\<close> and wrong above; identifiers of instructions give back their parts and sort in
    program order.
  \<^item> \<open>X86_Factory\<close>, \<open>X86_Factory32\<close>, \<open>X86_Factory64\<close>: the emitters of \<open>src/X86InstructionFactory.C\<close>, one definition per
    function, over buffers. \<open>X86_Decode\<close> is a decoder of the instruction subset, written from the
    architecture manual and independent of the emitters; \<open>X86_Correct32\<close> and \<open>X86_Correct64\<close> show
    that what an emitter writes decodes to the instruction it is named after, and state the inputs for
    which it does not. The disassembler that the constructor of an instruction calls is vendored
    code: the parameter \<open>ud\<close>, which returns the length of an instruction and the record of its operands and
    flags. \<open>X86_Disasm\<close> has the checks the constructor makes on this record; an emitter returns its
    instruction exactly when the length is right and they pass.
  \<^item> \<open>Bit_Set\<close>: \<open>include/BitSet.h\<close> against finite sets of numbers, through the locale \<open>nat_set\<close>, whose
    lemmas on copying and on worklists serve the graph algorithms.
  \<^item> \<open>Cfg_Search\<close>, \<open>Cfg_Graph\<close>, \<open>Cfg_Dominators\<close>, \<open>Cfg_Loops\<close>: \<open>src/FlowGraph.C\<close>, \<open>src/BasicBlock.C\<close> and
    \<open>src/Loop.C\<close>. A block is its index in the sorted list of blocks, a graph the list. The depth-first
    search has the number of blocks as its bound, which is shown to be enough. \<open>connectGraph\<close> numbers
    the blocks and their instructions, where \<open>BasicBlock::verify\<close> can stop the run, and finds the
    edges and the unreachable blocks; \<open>buildLoops\<close> finds the natural loops.

  \<^item> \<open>Reg_Set\<close>, \<open>Liveness\<close>: the class \<open>RegisterSet\<close>, \<open>FlowGraph::computeLiveness\<close> and the dead registers of
    \<open>src/Function.C\<close>. The sweeps end and give exactly the live registers. \<open>X86_Registers\<close> has the numbers.

  \<^item> \<open>Inst_Protection\<close>, \<open>Trampoline\<close>: which registers and flags a snippet of \<open>src/Instrumentation.C\<close> must save, and the
    trampoline around it. \<open>X86_Branch\<close> widens the short branches of \<open>src/X86Instruction.C\<close> that are moved there. \<open>X86_Machine\<close> runs
    the bytes the decoder understands on registers, flags and memory; \<open>X86_Segment\<close> and \<open>X86_Frame\<close> give the
    pieces of code that save and restore state a contract each, and \<open>Trampoline_Correct\<close> puts them together: the
    program does not notice the snippet. These three theories are specification and map to no code.
  \<^item> \<open>Binary_File\<close>, \<open>Elf_Strings\<close>, \<open>Elf_Symbols\<close>: files in memory, string tables, symbols, relocations and the hash
    functions of names (\<open>src/BinaryFile.C\<close>, \<open>src/StringTable.C\<close>, \<open>src/SymbolTable.C\<close>, \<open>src/RelocationTable.C\<close>).
    \<open>Elf_Sort\<close>, over \<open>Bubble_Sort\<close>, is the sort of the dynamic symbols; \<open>Elf_Hash\<close> and \<open>Elf_Gnu_Hash\<close> are the two hash tables of
    \<open>src/HashTable.C\<close>. What is built is found again, and what is written is read back. Offsets and sizes of tables in a file
    are 32-bit words that wrap as in the code; the lemmas hold below 4 GB.

  \<^item> \<open>Priority_Queue\<close>: the heap of \<open>include/PriorityQueue.h\<close>. \<open>Elf_Sections\<close>, \<open>Elf_Layout\<close>: the three kinds of headers
    (\<open>src/FileHeader.C\<close>, \<open>src/ProgramHeader.C\<close>, \<open>src/SectionHeader.C\<close>) and the parts of \<open>src/ElfFile.C\<close> that add segments
    and sections and check the layout. \<open>Elf_Dynamic\<close> is \<open>src/DynamicTable.C\<close>, and \<open>Elf_Link\<close> the part of \<open>src/ElfFileInst.C\<close> that
    adds strings and needed libraries to an executable. Its operations end with \<open>verify\<close> of the whole file, which
    is the parameter \<open>ver\<close>: it may stop the run and changes nothing.

  \<^item> The cache simulator of the library linked into instrumented programs, \<open>instcode/Simulation.cpp\<close>: \<open>Cache_Lru\<close> has the linked
    history of a set and the specification of least-recently-used replacement, \<open>Cache_Stats\<close> the
    counters, the address ranges and the sampling, \<open>Cache_Level\<close> the level classes, \<open>Cache_Policy\<close> the proof
    that a level keeps its invariant and hits as specified, \<open>Cache_Structure\<close> the parsing of a description and the
    walk of an access through the levels, \<open>Cache_Exclusive\<close> what exclusive levels hold together. The
    walk is given a number of rounds; twice the number of levels and one more are shown to be enough.

  Interfaces: \<open>nat_set\<close> is what the flow graph relies on in a bit set, \<open>reg_sets\<close> what the liveness
  analysis relies on in a register set; both are interpreted by \<open>BitSet\<close>. \<open>min_queue\<close> is what the check of the
  layout relies on in a priority queue, interpreted by the heap. \<open>appending\<close> is what a list of emitted instructions
  promises, interpreted by the list of the trampoline.
  \<open>bucket_chains\<close> and \<open>sorted_chains\<close> are what the two searches for a symbol rely on, interpreted by the tables
  that \<open>buildTable\<close> makes.

  Not modelled: the vendored udis86 disassembler and the attributes read from its operand tables, reading
  and writing files, printing, command line handling, and the rest of the libraries linked into instrumented
  programs (threads, buffers, reuse distances). \<open>qsort\<close> is a parameter that permutes its list, \<open>rand\<close> one that
  gives any number.
\<close>

end
